(* ===== verification/Prelude.thy ===== *)
theory Prelude
  imports
    Main
    "HOL-Library.Word"
    "HOL-Library.AList"
    "HOL-Library.Multiset"
    "HOL-Library.Char_ord"
    "HOL-Library.List_Lexorder"
begin

text \<open>
  Shared vocabulary of the development: the machine integers of the Rust sources, saturating
  arithmetic, big-endian byte strings, the standard library's \<open>HashMap\<close> as an association
  list, unspecified iteration order as an explicit argument, and the iterator functions
  \<open>max_by\<close> and \<open>min_by_key\<close>. The components import this theory and prove their properties with
  the simplification rules and named collections declared here.
\<close>

named_theorems hm_simps
  "rewrite rules of the hash-map operations"
named_theorems wf_intros
  "introduction rules that carry a well-formedness invariant through an operation"

section \<open>Machine integers\<close>

type_synonym u8 = "8 word"
type_synonym u16 = "16 word"
type_synonym u32 = "32 word"
type_synonym u64 = "64 word"
type_synonym u128 = "128 word"

text \<open>
  A \<open>usize\<close> is a natural number below \<open>2 ^ 64\<close> (the 64-bit targets); where the sources
  saturate or add without a check, the bound is written out.
\<close>

type_synonym usize = nat

definition usize_max :: nat where
  "usize_max = 2 ^ 64 - 1"

definition usize_saturating_add :: "usize \<Rightarrow> usize \<Rightarrow> usize" where
  "usize_saturating_add a b = min (a + b) usize_max"

text \<open>Unchecked addition as compiled in release mode: it wraps.\<close>

definition usize_add :: "usize \<Rightarrow> usize \<Rightarrow> usize" where
  "usize_add a b = (a + b) mod 2 ^ 64"

lemma usize_add_small: "a + b < 2 ^ 64 \<Longrightarrow> usize_add a b = a + b"
  by (simp add: usize_add_def)

lemma usize_saturating_add_1 [simp]:
  "usize_saturating_add a (Suc 0) = (if a < usize_max then Suc a else usize_max)"
  by (auto simp: usize_saturating_add_def usize_max_def)

definition u64_max :: u64 where
  "u64_max = - 1"

definition u64_saturating_add :: "u64 \<Rightarrow> u64 \<Rightarrow> u64" where
  "u64_saturating_add a b = (if unat a + unat b < 2 ^ 64 then a + b else u64_max)"

lemma unat_u64_max: "unat u64_max = 2 ^ 64 - 1"
  by (simp add: u64_max_def unsigned_minus_1_eq_mask mask_eq_exp_minus_1)

lemma unat_u64_lt: "unat (a :: u64) < 18446744073709551616"
  using unsigned_less [of a] by simp

lemma unat_u64_saturating_add:
  "unat (u64_saturating_add a b) = min (unat a + unat b) (2 ^ 64 - 1)"
proof (cases "unat a + unat b < 2 ^ 64")
  case True
  then have "unat (a + b) = unat a + unat b"
    by (simp add: unat_word_ariths)
  with True show ?thesis
    by (simp add: u64_saturating_add_def)
next
  case False
  then show ?thesis
    by (simp add: u64_saturating_add_def unat_u64_max)
qed

lemma u64_le_max [simp]: "x \<le> u64_max"
  by (simp add: u64_max_def)

lemma u64_saturating_add_ge: "a \<le> u64_saturating_add a b"
  by (simp add: word_le_nat_alt unat_u64_saturating_add) (use unat_u64_lt [of a] in simp)

lemma u64_saturating_add_1_gt: "a \<noteq> u64_max \<Longrightarrow> a < u64_saturating_add a 1"
proof -
  assume "a \<noteq> u64_max"
  then have "unat a \<noteq> 2 ^ 64 - 1"
    by (metis unat_u64_max word_unat_eq_iff)
  with unat_u64_lt [of a] show ?thesis
    by (simp add: word_less_nat_alt unat_u64_saturating_add)
qed

lemma u64_saturating_add_1: "a \<noteq> u64_max \<Longrightarrow> u64_saturating_add a 1 = a + 1"
proof -
  assume "a \<noteq> u64_max"
  then have "unat a \<noteq> 2 ^ 64 - 1"
    by (metis unat_u64_max word_unat_eq_iff)
  with unat_u64_lt [of a] show ?thesis
    by (simp add: u64_saturating_add_def)
qed

section \<open>Big-endian byte strings\<close>

text \<open>\<open>to_be_bytes\<close> and \<open>from_be_bytes\<close> of the integer types, for a width of \<open>n\<close> bytes.\<close>

fun be_digits :: "nat \<Rightarrow> nat \<Rightarrow> nat list" where
  "be_digits 0 x = []"
| "be_digits (Suc n) x = be_digits n (x div 256) @ [x mod 256]"

definition to_be_bytes :: "nat \<Rightarrow> 'a::len word \<Rightarrow> u8 list" where
  "to_be_bytes n w = map word_of_nat (be_digits n (unat w))"

definition be_value :: "u8 list \<Rightarrow> nat" where
  "be_value bs = foldl (\<lambda>a b. a * 256 + unat b) 0 bs"

definition from_be_bytes :: "u8 list \<Rightarrow> 'a::len word" where
  "from_be_bytes bs = word_of_nat (be_value bs)"

lemma be_digits_numeral [simp]:
  "be_digits (numeral k) x = be_digits (pred_numeral k) (x div 256) @ [x mod 256]"
  by (simp only: numeral_eq_Suc [of k] be_digits.simps)

lemma length_be_digits [simp]: "length (be_digits n x) = n"
  by (induction n arbitrary: x) auto

lemma length_to_be_bytes [simp]: "length (to_be_bytes n w) = n"
  by (simp add: to_be_bytes_def)

lemma be_value_snoc: "be_value (bs @ [b]) = be_value bs * 256 + unat b"
  by (simp add: be_value_def)

lemma unat_byte: "unat (word_of_nat (x mod 256) :: u8) = x mod 256"
  by (simp add: unat_of_nat take_bit_eq_mod)

lemma be_value_digits: "be_value (map word_of_nat (be_digits n x)) = x mod 256 ^ n"
proof (induction n arbitrary: x)
  case 0
  show ?case by (simp add: be_value_def)
next
  case (Suc n)
  have "be_value (map word_of_nat (be_digits (Suc n) x)) = (x div 256 mod 256 ^ n) * 256 + x mod 256"
    by (simp add: be_value_snoc unat_byte Suc.IH del: map_append) (simp add: be_value_snoc unat_byte Suc.IH)
  also have "\<dots> = x mod 256 ^ Suc n"
    by (simp add: mod_mult2_eq mult.commute)
  finally show ?case .
qed

lemma be_bytes_roundtrip:
  assumes "LENGTH('a) \<le> 8 * n"
  shows "from_be_bytes (to_be_bytes n (w :: 'a::len word)) = w"
proof -
  have "unat w < 2 ^ LENGTH('a)" by (rule unsigned_less)
  also have "(2::nat) ^ LENGTH('a) \<le> 2 ^ (8 * n)" using assms by simp
  also have "(2::nat) ^ (8 * n) = 256 ^ n" by (simp add: power_mult)
  finally have "unat w mod 256 ^ n = unat w" by simp
  then show ?thesis
    by (simp add: from_be_bytes_def to_be_bytes_def be_value_digits)
qed

lemma be_bytes_roundtrip_u64 [simp]: "from_be_bytes (to_be_bytes 8 (w :: u64)) = w"
  by (rule be_bytes_roundtrip) simp

lemma be_bytes_roundtrip_u32 [simp]: "from_be_bytes (to_be_bytes 4 (w :: u32)) = w"
  by (rule be_bytes_roundtrip) simp

section \<open>Comparisons\<close>

text \<open>Rust's \<open>std::cmp::Ordering\<close>, its \<open>Ord\<close> instance and \<open>then_with\<close>.\<close>

datatype ordering = Less | Equal | Greater

fun ordering_rank :: "ordering \<Rightarrow> nat" where
  "ordering_rank Less = 0"
| "ordering_rank Equal = 1"
| "ordering_rank Greater = 2"

instantiation ordering :: linorder
begin

definition less_eq_ordering :: "ordering \<Rightarrow> ordering \<Rightarrow> bool" where
  "less_eq_ordering a b = (ordering_rank a \<le> ordering_rank b)"

definition less_ordering :: "ordering \<Rightarrow> ordering \<Rightarrow> bool" where
  "less_ordering a b = (ordering_rank a < ordering_rank b)"

instance
proof
  fix x y :: ordering
  assume "x \<le> y" and "y \<le> x"
  then show "x = y"
    by (cases x; cases y) (simp_all add: less_eq_ordering_def)
qed (auto simp: less_eq_ordering_def less_ordering_def)

end

definition ord_cmp :: "'a::linorder \<Rightarrow> 'a \<Rightarrow> ordering" where
  "ord_cmp a b = (if a < b then Less else if a = b then Equal else Greater)"

fun then_with :: "ordering \<Rightarrow> ordering \<Rightarrow> ordering" where
  "then_with Equal o' = o'"
| "then_with o' _ = o'"

lemma ord_cmp_simps [simp]:
  "ord_cmp a b = Less \<longleftrightarrow> a < b"
  "ord_cmp a b = Equal \<longleftrightarrow> a = b"
  "ord_cmp a b = Greater \<longleftrightarrow> b < a"
  by (auto simp: ord_cmp_def)

lemma then_with_Greater_iff:
  "then_with p q = Greater \<longleftrightarrow> p = Greater \<or> p = Equal \<and> q = Greater"
  by (cases p) auto

text \<open>
  \<open>Iterator::max_by\<close> keeps the accumulated element only when it compares strictly greater, so
  the last of several maximal elements is returned; \<open>Iterator::min_by_key\<close> returns the first of
  several minimal ones.
\<close>

definition max_by :: "('a \<Rightarrow> 'a \<Rightarrow> ordering) \<Rightarrow> 'a list \<Rightarrow> 'a option" where
  "max_by cmp xs = (case xs of [] \<Rightarrow> None
     | y # ys \<Rightarrow> Some (foldl (\<lambda>acc x. if cmp acc x = Greater then acc else x) y ys))"

definition min_by_key :: "('a \<Rightarrow> 'k::linorder) \<Rightarrow> 'a list \<Rightarrow> 'a option" where
  "min_by_key f xs = (case xs of [] \<Rightarrow> None
     | y # ys \<Rightarrow> Some (foldl (\<lambda>acc x. if f x < f acc then x else acc) y ys))"

lemma max_by_None [simp]: "max_by cmp xs = None \<longleftrightarrow> xs = []"
  by (cases xs) (auto simp: max_by_def)

lemma min_by_key_None [simp]: "min_by_key f xs = None \<longleftrightarrow> xs = []"
  by (cases xs) (auto simp: min_by_key_def)

lemma max_by_Nil [simp]: "max_by cmp [] = None"
  by simp

lemma min_by_key_Nil [simp]: "min_by_key f [] = None"
  by simp

lemma max_by_snoc:
  "max_by cmp (xs @ [x]) = Some (case max_by cmp xs of None \<Rightarrow> x
     | Some a \<Rightarrow> if cmp a x = Greater then a else x)"
  by (cases xs) (auto simp: max_by_def)

lemma min_by_key_snoc:
  "min_by_key f (xs @ [x]) = Some (case min_by_key f xs of None \<Rightarrow> x
     | Some a \<Rightarrow> if f x < f a then x else a)"
  by (cases xs) (auto simp: min_by_key_def)

lemma min_by_key_in_set: "min_by_key f xs = Some x \<Longrightarrow> x \<in> set xs"
  by (induction xs arbitrary: x rule: rev_induct)
     (auto simp: min_by_key_snoc split: option.splits if_splits)

lemma min_by_key_le: "min_by_key f xs = Some x \<Longrightarrow> y \<in> set xs \<Longrightarrow> f x \<le> f y"
proof (induction xs arbitrary: x y rule: rev_induct)
  case Nil
  then show ?case by simp
next
  case (snoc z zs)
  then show ?case
    by (cases "min_by_key f zs") (force simp: min_by_key_snoc split: if_splits)+
qed

lemma max_by_in_set: "max_by cmp xs = Some x \<Longrightarrow> x \<in> set xs"
  by (induction xs arbitrary: x rule: rev_induct)
     (auto simp: max_by_snoc split: option.splits if_splits)

text \<open>
  The result of \<open>max_by\<close> for a comparison that ranks elements by a key: it is maximal, and every
  element after its last occurrence is strictly smaller.
\<close>

lemma max_by_split:
  assumes "\<And>a b. cmp a b = Greater \<longleftrightarrow> key b < (key a :: 'k::linorder)"
  shows "max_by cmp xs = Some x \<Longrightarrow>
    \<exists>us vs. xs = us @ x # vs \<and> (\<forall>u \<in> set us. key u \<le> key x) \<and> (\<forall>v \<in> set vs. key v < key x)"
proof (induction xs arbitrary: x rule: rev_induct)
  case Nil
  then show ?case by simp
next
  case (snoc z zs)
  show ?case
  proof (cases "max_by cmp zs")
    case None
    with snoc.prems show ?thesis
      by (intro exI [of _ "[]"]) (auto simp: max_by_snoc)
  next
    case (Some a)
    from snoc.IH [OF Some] obtain us vs where
      zs: "zs = us @ a # vs" and us: "\<forall>u \<in> set us. key u \<le> key a" and vs: "\<forall>v \<in> set vs. key v < key a"
      by blast
    show ?thesis
    proof (cases "key z < key a")
      case True
      with snoc.prems Some have "x = a" by (simp add: max_by_snoc assms)
      with True zs us vs show ?thesis
        by (intro exI [of _ us] exI [of _ "vs @ [z]"]) auto
    next
      case False
      with snoc.prems Some have "x = z" by (simp add: max_by_snoc assms)
      with False zs us vs show ?thesis
        by (intro exI [of _ zs] exI [of _ "[]"]) (auto intro: order_trans less_imp_le)
    qed
  qed
qed

lemma max_by_ge:
  assumes "\<And>a b. cmp a b = Greater \<longleftrightarrow> key b < (key a :: 'k::linorder)"
    and "max_by cmp xs = Some x" and "y \<in> set xs"
  shows "key y \<le> key x"
proof -
  from max_by_split [of cmp key, OF assms(1,2)] assms(3) show ?thesis
    by (auto simp: less_le)
qed

section \<open>Lists\<close>

lemma set_map_filter_iff: "y \<in> set (List.map_filter f xs) \<longleftrightarrow> (\<exists>x \<in> set xs. f x = Some y)"
  by (induction xs) (auto simp: List.map_filter_simps split: option.splits)

lemma map_fst_map_filter:
  assumes "\<And>x y. f x = Some y \<Longrightarrow> fst y = x"
  shows "map fst (List.map_filter f xs) = filter (\<lambda>x. f x \<noteq> None) xs"
proof (induction xs)
  case (Cons x xs)
  then show ?case
    by (cases "f x") (use assms [of x] in \<open>auto simp: List.map_filter_simps\<close>)
qed (simp add: List.map_filter_simps)

lemma distinct_map_sort_key: "distinct (map f (sort_key g xs)) = distinct (map f xs)"
proof -
  have "mset (map f (sort_key g xs)) = mset (map f xs)" by simp
  then show ?thesis by (rule mset_eq_imp_distinct_iff)
qed

section \<open>Hash maps\<close>

text \<open>
  A \<open>HashMap\<close> (or a \<open>DashMap\<close> between two of its operations) is an association list with distinct keys. Rust does not specify the
  order in which a map is iterated: an operation whose result can depend on that order takes the
  order as an argument \<open>ord\<close>, a function that permutes the entries (\<open>hash_order\<close>), and its
  properties hold for every such function.
\<close>

type_synonym ('k, 'v) hashmap = "('k \<times> 'v) list"

abbreviation hm_empty :: "('k, 'v) hashmap" where
  "hm_empty \<equiv> []"

definition hm_get :: "('k, 'v) hashmap \<Rightarrow> 'k \<Rightarrow> 'v option" where
  "hm_get m k = map_of m k"

definition hm_insert :: "'k \<Rightarrow> 'v \<Rightarrow> ('k, 'v) hashmap \<Rightarrow> ('k, 'v) hashmap" where
  "hm_insert k v m = AList.update k v m"

definition hm_remove :: "'k \<Rightarrow> ('k, 'v) hashmap \<Rightarrow> ('k, 'v) hashmap" where
  "hm_remove k m = AList.delete k m"

text \<open>\<open>get_mut\<close> followed by an assignment through the reference.\<close>

definition hm_modify :: "'k \<Rightarrow> ('v \<Rightarrow> 'v) \<Rightarrow> ('k, 'v) hashmap \<Rightarrow> ('k, 'v) hashmap" where
  "hm_modify k f m = map (\<lambda>(k', v). (k', if k' = k then f v else v)) m"

text \<open>A loop over \<open>iter_mut\<close> that assigns every value.\<close>

definition hm_map_values :: "('v \<Rightarrow> 'w) \<Rightarrow> ('k, 'v) hashmap \<Rightarrow> ('k, 'w) hashmap" where
  "hm_map_values f m = map (\<lambda>(k, v). (k, f v)) m"

definition hm_retain :: "('k \<Rightarrow> 'v \<Rightarrow> bool) \<Rightarrow> ('k, 'v) hashmap \<Rightarrow> ('k, 'v) hashmap" where
  "hm_retain P m = filter (\<lambda>(k, v). P k v) m"

definition hm_contains :: "'k \<Rightarrow> ('k, 'v) hashmap \<Rightarrow> bool" where
  "hm_contains k m = (hm_get m k \<noteq> None)"

text \<open>\<open>entry(k).or_default().push(x)\<close> on a map of vectors.\<close>

definition hm_push :: "'k \<Rightarrow> 'v \<Rightarrow> ('k, 'v list) hashmap \<Rightarrow> ('k, 'v list) hashmap" where
  "hm_push k x m = hm_insert k ((case hm_get m k of None \<Rightarrow> [] | Some xs \<Rightarrow> xs) @ [x]) m"

definition hm_keys :: "('k, 'v) hashmap \<Rightarrow> 'k list" where
  "hm_keys m = map fst m"

definition hm_wf :: "('k, 'v) hashmap \<Rightarrow> bool" where
  "hm_wf m = distinct (map fst m)"

lemma hm_get_empty [simp]: "hm_get [] k = None"
  by (simp add: hm_get_def)

lemma hm_get_insert [simp]: "hm_get (hm_insert k v m) x = (if x = k then Some v else hm_get m x)"
  by (simp add: hm_get_def hm_insert_def update_conv')

lemma hm_get_remove [simp]: "hm_get (hm_remove k m) x = (if x = k then None else hm_get m x)"
  by (simp add: hm_get_def hm_remove_def delete_conv')

lemma hm_modify_Cons [simp]:
  "hm_modify k g ((a, b) # m) = (a, if a = k then g b else b) # hm_modify k g m"
  by (simp add: hm_modify_def)

lemma hm_modify_absent: "k \<notin> fst ` set m \<Longrightarrow> hm_modify k g m = m"
  by (induction m) (auto simp: hm_modify_def)

lemma hm_get_modify [simp]:
  "hm_get (hm_modify k f m) x = (if x = k then map_option f (hm_get m x) else hm_get m x)"
  by (induction m) (auto simp: hm_get_def hm_modify_def)

lemma hm_get_map_values [simp]: "hm_get (hm_map_values f m) k = map_option f (hm_get m k)"
  by (induction m) (auto simp: hm_get_def hm_map_values_def)

lemma hm_map_values_keys [simp]: "map fst (hm_map_values f m) = map fst m"
  by (induction m) (auto simp: hm_map_values_def)

lemma hm_wf_map_values [wf_intros]: "hm_wf m \<Longrightarrow> hm_wf (hm_map_values f m)"
  by (simp add: hm_wf_def)

lemma map_of_filter_None: "k \<notin> fst ` set m \<Longrightarrow> map_of (filter P m) k = None"
  by (induction m) auto

lemma hm_get_retain [simp]:
  "hm_wf m \<Longrightarrow> hm_get (hm_retain P m) k =
     (case hm_get m k of None \<Rightarrow> None | Some v \<Rightarrow> if P k v then Some v else None)"
  by (induction m) (auto simp: hm_get_def hm_retain_def hm_wf_def map_of_filter_None)

lemma hm_wf_empty [simp, wf_intros]: "hm_wf []"
  by (simp add: hm_wf_def)

lemma hm_wf_insert [wf_intros]: "hm_wf m \<Longrightarrow> hm_wf (hm_insert k v m)"
  by (simp add: hm_wf_def hm_insert_def distinct_update)

lemma hm_get_push [simp]:
  "hm_get (hm_push k x m) y =
     (if y = k then Some ((case hm_get m k of None \<Rightarrow> [] | Some xs \<Rightarrow> xs) @ [x]) else hm_get m y)"
  by (simp add: hm_push_def)

lemma hm_wf_push [wf_intros]: "hm_wf m \<Longrightarrow> hm_wf (hm_push k x m)"
  by (simp add: hm_push_def hm_wf_insert)

lemma hm_wf_remove [wf_intros]: "hm_wf m \<Longrightarrow> hm_wf (hm_remove k m)"
  by (simp add: hm_wf_def hm_remove_def distinct_delete)

lemma hm_modify_keys [simp]: "map fst (hm_modify k f m) = map fst m"
  by (induction m) (auto simp: hm_modify_def)

lemma hm_wf_modify [wf_intros]: "hm_wf m \<Longrightarrow> hm_wf (hm_modify k f m)"
  by (simp add: hm_wf_def)

lemma hm_wf_retain [wf_intros]: "hm_wf m \<Longrightarrow> hm_wf (hm_retain P m)"
  by (simp add: hm_wf_def hm_retain_def distinct_map_filter)

lemma hm_get_fold_insert: "hm_get (fold (\<lambda>i. hm_insert i v) ks m) k = (if k \<in> set ks then Some v else hm_get m k)"
  by (induction ks arbitrary: m) auto

lemma hm_get_fold_remove: "hm_get (fold hm_remove ids m) n = (if n \<in> set ids then None else hm_get m n)"
  by (induction ids arbitrary: m) auto

lemma hm_wf_fold_remove [wf_intros]: "hm_wf m \<Longrightarrow> hm_wf (fold hm_remove ids m)"
  by (induction ids arbitrary: m) (auto simp: wf_intros)

lemma hm_get_Some_iff: "hm_wf m \<Longrightarrow> hm_get m k = Some v \<longleftrightarrow> (k, v) \<in> set m"
  by (simp add: hm_get_def hm_wf_def)

lemma hm_get_in_set: "hm_get m k = Some v \<Longrightarrow> (k, v) \<in> set m"
  by (simp add: hm_get_def map_of_SomeD)

lemma hm_get_None_iff: "hm_get m k = None \<longleftrightarrow> k \<notin> set (hm_keys m)"
  by (simp add: hm_get_def hm_keys_def map_of_eq_None_iff)

lemma hm_contains_iff: "hm_contains k m \<longleftrightarrow> k \<in> set (hm_keys m)"
  by (simp add: hm_contains_def hm_get_None_iff)

lemma dom_hm_get: "dom (hm_get m) = set (hm_keys m)"
  by (auto simp: dom_def hm_get_None_iff)

lemma hm_length_card: "hm_wf m \<Longrightarrow> length m = card (dom (hm_get m))"
  using distinct_card [of "map fst m"] by (simp add: dom_hm_get hm_keys_def hm_wf_def)

lemma length_hm_remove: "hm_wf m \<Longrightarrow> hm_contains k m \<Longrightarrow> length (hm_remove k m) = length m - 1"
proof -
  assume a: "hm_wf m" "hm_contains k m"
  have "dom (hm_get (hm_remove k m)) = dom (hm_get m) - {k}" by (auto split: if_splits)
  moreover have "finite (dom (hm_get m))" by (simp add: dom_hm_get)
  ultimately show ?thesis
    using a by (simp add: hm_length_card wf_intros hm_contains_def card_Diff_singleton domI dom_def)
qed

lemma length_hm_insert:
  "hm_wf m \<Longrightarrow> length (hm_insert k v m) = (if hm_contains k m then length m else Suc (length m))"
proof -
  assume a: "hm_wf m"
  have "dom (hm_get (hm_insert k v m)) = insert k (dom (hm_get m))" by (auto split: if_splits)
  moreover have "finite (dom (hm_get m))" by (simp add: dom_hm_get)
  moreover have "hm_contains k m \<longleftrightarrow> k \<in> dom (hm_get m)" by (auto simp: hm_contains_def)
  ultimately show ?thesis
    using a by (simp add: hm_length_card wf_intros card_insert_if)
qed

lemma length_hm_modify [simp]: "length (hm_modify k f m) = length m"
  by (simp add: hm_modify_def)

lemma length_hm_retain_le: "length (hm_retain P m) \<le> length m"
  by (simp add: hm_retain_def)

text \<open>The sum of a weight over the values of a map.\<close>

definition hm_sum :: "('v \<Rightarrow> nat) \<Rightarrow> ('k, 'v) hashmap \<Rightarrow> nat" where
  "hm_sum f m = (\<Sum>(k, v) \<leftarrow> m. f v)"

lemma hm_sum_modify:
  "hm_wf m \<Longrightarrow> hm_get m k = Some v \<Longrightarrow> hm_sum f (hm_modify k g m) + f v = hm_sum f m + f (g v)"
proof (induction m)
  case (Cons x m)
  then show ?case
    by (cases x) (auto simp: hm_sum_def hm_wf_def hm_get_def hm_modify_absent split: if_splits)
qed simp

lemma hm_sum_remove:
  "hm_wf m \<Longrightarrow> hm_get m k = Some v \<Longrightarrow> hm_sum f (hm_remove k m) + f v = hm_sum f m"
proof (induction m)
  case (Cons x m)
  then show ?case
    by (cases x) (auto simp: hm_sum_def hm_wf_def hm_get_def hm_remove_def delete_notin_dom split: if_splits)
qed simp

lemma hm_sum_0: "hm_sum f m = 0 \<Longrightarrow> (k, v) \<in> set m \<Longrightarrow> f v = 0"
  by (induction m) (auto simp: hm_sum_def)

text \<open>
  The contract of a map, as the components use it, and two facts about runs of operations that
  follow from the contract alone.
\<close>

locale map_contract =
  fixes get :: "'m \<Rightarrow> 'k \<Rightarrow> 'v option"
    and ins :: "'k \<Rightarrow> 'v \<Rightarrow> 'm \<Rightarrow> 'm"
    and del :: "'k \<Rightarrow> 'm \<Rightarrow> 'm"
    and invar :: "'m \<Rightarrow> bool"
  assumes get_ins: "invar m \<Longrightarrow> get (ins k v m) x = (if x = k then Some v else get m x)"
    and get_del: "invar m \<Longrightarrow> get (del k m) x = (if x = k then None else get m x)"
    and invar_ins: "invar m \<Longrightarrow> invar (ins k v m)"
    and invar_del: "invar m \<Longrightarrow> invar (del k m)"
begin

lemma fold_del_invar: "invar m \<Longrightarrow> invar (fold del ks m)"
  by (induction ks arbitrary: m) (simp_all add: invar_del)

lemma fold_del_get: "invar m \<Longrightarrow> get (fold del ks m) x = (if x \<in> set ks then None else get m x)"
  by (induction ks arbitrary: m) (simp_all add: get_del invar_del)

lemma fold_ins_invar: "invar m \<Longrightarrow> invar (fold (\<lambda>(k, v). ins k v) kvs m)"
  by (induction kvs arbitrary: m) (auto simp: invar_ins)

lemma fold_ins_get:
  "invar m \<Longrightarrow> get (fold (\<lambda>(k, v). ins k v) kvs m) x =
     (case map_of (rev kvs) x of None \<Rightarrow> get m x | Some v \<Rightarrow> Some v)"
  by (induction kvs arbitrary: m)
     (auto simp: get_ins invar_ins map_add_def split: option.splits)

end

interpretation hm: map_contract hm_get hm_insert hm_remove hm_wf
  by unfold_locales (simp_all add: wf_intros)

text \<open>Unspecified iteration order.\<close>

definition hash_order :: "(('k, 'v) hashmap \<Rightarrow> ('k \<times> 'v) list) \<Rightarrow> bool" where
  "hash_order ord \<longleftrightarrow> (\<forall>m. mset (ord m) = mset m)"

lemma hash_order_id [simp]: "hash_order (\<lambda>m. m)"
  by (simp add: hash_order_def)

lemma hash_order_rev [simp]: "hash_order rev"
  by (simp add: hash_order_def)

lemma hash_order_set: "hash_order ord \<Longrightarrow> set (ord m) = set m"
  by (metis hash_order_def set_mset_mset)

lemma hash_order_length: "hash_order ord \<Longrightarrow> length (ord m) = length m"
  by (metis hash_order_def size_mset)

lemma hash_order_Nil: "hash_order ord \<Longrightarrow> ord m = [] \<longleftrightarrow> m = []"
  by (metis hash_order_length length_0_conv)

lemma hash_order_wf: "hash_order ord \<Longrightarrow> hm_wf (ord m) = hm_wf m"
  by (metis hash_order_def hm_wf_def mset_eq_imp_distinct_iff mset_map)

lemma hash_order_get: "hash_order ord \<Longrightarrow> hm_wf m \<Longrightarrow> hm_get (ord m) = hm_get m"
proof (rule ext)
  fix k
  assume a: "hash_order ord" "hm_wf m"
  then have "hm_wf (ord m)" by (simp add: hash_order_wf)
  with a have "hm_get (ord m) k = Some v \<longleftrightarrow> hm_get m k = Some v" for v
    by (simp add: hm_get_Some_iff hash_order_set)
  then show "hm_get (ord m) k = hm_get m k"
    by (metis not_Some_eq)
qed

section \<open>Other types of the standard library\<close>

text \<open>\<open>SocketAddr\<close>: an IPv4 address and port, or an IPv6 address, port, flow info and scope.\<close>

datatype socket_addr =
    V4 u32 u16
  | V6 u128 u16 u32 u32

text \<open>
  \<open>Duration\<close> and \<open>Instant\<close> are natural numbers of nanoseconds; \<open>Instant::duration_since\<close>
  saturates at zero, as subtraction of natural numbers does.
\<close>

type_synonym duration = nat
type_synonym instant = nat

definition from_secs :: "nat \<Rightarrow> duration" where
  "from_secs s = s * 1000000000"

definition duration_since :: "instant \<Rightarrow> instant \<Rightarrow> duration" where
  "duration_since now earlier = now - earlier"

text \<open>A certificate hash is \<open>[u8; 32]\<close>.\<close>

type_synonym cert_hash = "u8 list"

section \<open>Decimal numbers\<close>

text \<open>The decimal digits that \<open>format!\<close> prints.\<close>

fun decimal :: "nat \<Rightarrow> string" where
  "decimal n = (if n < 10 then [char_of (48 + n)] else decimal (n div 10) @ [char_of (48 + n mod 10)])"

declare decimal.simps [simp del]

definition digit_char :: "char \<Rightarrow> bool" where
  "digit_char c \<longleftrightarrow> 48 \<le> (of_char c :: nat) \<and> (of_char c :: nat) < 58"

lemma digit_char_digit: "(d :: nat) < 10 \<Longrightarrow> digit_char (char_of (48 + d))"
  by (simp add: digit_char_def)

lemma decimal_digits: "list_all digit_char (decimal n)"
proof (induction n rule: decimal.induct)
  case (1 n)
  then show ?case by (subst decimal.simps) (simp add: digit_char_digit)
qed

lemma decimal_value: "foldl (\<lambda>a c. a * 10 + (of_char c - 48)) 0 (decimal n) = n"
proof (induction n rule: decimal.induct)
  case (1 n)
  then show ?case by (subst decimal.simps) simp
qed

lemma decimal_chars: "c \<in> set (decimal n) \<Longrightarrow> c \<noteq> CHR ''#''"
  using decimal_digits [of n] by (auto simp: list_all_iff digit_char_def)

lemma decimal_inject [simp]: "decimal m = decimal n \<longleftrightarrow> m = n"
  by (metis decimal_value)

lemma split_at_char:
  assumes "list_all P xs" and "list_all P ys" and "\<not> P c" and "xs @ c # us = ys @ c # vs"
  shows "xs = ys \<and> us = vs"
  using assms
proof (induction xs arbitrary: ys)
  case Nil
  then show ?case by (cases ys) auto
next
  case (Cons x xs)
  then show ?case by (cases ys) auto
qed

section \<open>Runs of a state machine\<close>

text \<open>
  A component whose operations are events of a step function, and an invariant that every event
  keeps: the invariant holds along every run.
\<close>

locale step_invariant =
  fixes step :: "'e \<Rightarrow> 's \<Rightarrow> 's"
    and enabled :: "'e \<Rightarrow> bool"
    and inv :: "'s \<Rightarrow> bool"
  assumes inv_step: "inv s \<Longrightarrow> enabled e \<Longrightarrow> inv (step e s)"
begin

lemma run_inv: "inv s \<Longrightarrow> list_all enabled es \<Longrightarrow> inv (fold step es s)"
  by (induction es arbitrary: s) (simp_all add: inv_step)

end

text \<open>A preorder that no step decreases is not decreased by a run.\<close>

locale monotone_steps =
  fixes step :: "'e \<Rightarrow> 's \<Rightarrow> 's"
    and inv :: "'s \<Rightarrow> bool"
    and le :: "'s \<Rightarrow> 's \<Rightarrow> bool"
  assumes le_refl: "le s s"
    and le_trans: "le s t \<Longrightarrow> le t u \<Longrightarrow> le s u"
    and step_le: "inv s \<Longrightarrow> le s (step e s)"
    and step_inv: "inv s \<Longrightarrow> inv (step e s)"
begin

lemma run_le: "inv s \<Longrightarrow> le s (fold step es s) \<and> inv (fold step es s)"
proof (induction es arbitrary: s)
  case Nil
  then show ?case by (simp add: le_refl)
next
  case (Cons e es)
  from Cons.IH [OF step_inv [OF Cons.prems], of e] step_le [OF Cons.prems, of e] show ?case
    by (auto intro: le_trans)
qed

end

section \<open>Runs of a transition system\<close>

text \<open>An invariant of a step relation holds in every state that is reached from one that satisfies it.\<close>

locale transition_invariant =
  fixes step :: "'s \<Rightarrow> 's \<Rightarrow> bool"
    and inv :: "'s \<Rightarrow> bool"
  assumes keeps: "step s t \<Longrightarrow> inv s \<Longrightarrow> inv t"
begin

lemma reach_inv: "step\<^sup>*\<^sup>* s t \<Longrightarrow> inv s \<Longrightarrow> inv t"
  by (induction rule: rtranclp_induct) (auto intro: keeps)

end

sublocale step_invariant \<subseteq> events: transition_invariant "\<lambda>s t. \<exists>e. enabled e \<and> t = step e s" inv
  by unfold_locales (auto intro: inv_step)

text \<open>
  A system whose steps use up work: every run is at most as long as the work there is, and as a step is
  possible while some is left, a run that takes steps as long as it can ends with none left.
\<close>

locale working_system = transition_invariant step inv for step :: "'s \<Rightarrow> 's \<Rightarrow> bool" and inv +
  fixes work :: "'s \<Rightarrow> nat"
  assumes works: "step s t \<Longrightarrow> inv s \<Longrightarrow> work t < work s"
    and progress: "inv s \<Longrightarrow> 0 < work s \<Longrightarrow> \<exists>t. step s t"
begin

lemma run_length: "(step ^^ n) s t \<Longrightarrow> inv s \<Longrightarrow> n + work t \<le> work s"
proof (induction n arbitrary: s)
  case (Suc n)
  then obtain u where "step s u" "(step ^^ n) u t" by (blast elim: relpowp_Suc_E2)
  with Suc.IH [of u] keeps [of s u] works [of s u] Suc.prems(2) show ?case by simp
qed simp

lemma finishes: "inv s \<Longrightarrow> \<exists>t. step\<^sup>*\<^sup>* s t \<and> inv t \<and> work t = 0"
proof (induction "work s" arbitrary: s rule: less_induct)
  case less
  show ?case
  proof (cases "work s")
    case 0
    with less.prems show ?thesis by blast
  next
    case (Suc n)
    then obtain t where "step s t" using progress [of s] less.prems by auto
    with less.hyps [of t] works keeps less.prems show ?thesis by (meson converse_rtranclp_into_rtranclp)
  qed
qed

lemma stuck_finished: "inv s \<Longrightarrow> (\<And>t. \<not> step s t) \<Longrightarrow> work s = 0"
  using progress by blast

end

end
