(* ===== verification/Crdt.thy ===== *)
theory Crdt
  imports Prelude
begin

text \<open>
  What a replicated observed-remove set promises, as an interface: elements carry tags, a delta adds
  elements and removes tags, and a removed tag never comes back. The interface's lemmas are about
  runs of deltas; they hold for every implementation that keeps the contract, and say that replicas
  converge whatever the order and the number of deliveries.
\<close>

locale tagged_crdt =
  fixes live_of :: "'s \<Rightarrow> 'e set"
    and dead_of :: "'s \<Rightarrow> 't set"
    and tag_of :: "'e \<Rightarrow> 't"
    and step :: "'d \<Rightarrow> 's \<Rightarrow> 's"
    and adds :: "'d \<Rightarrow> 'e set"
    and rems :: "'d \<Rightarrow> 't set"
    and ok :: "'c \<Rightarrow> 's \<Rightarrow> bool"
    and admissible :: "'c \<Rightarrow> 'd \<Rightarrow> bool"
  assumes ok_step: "ok c s \<Longrightarrow> admissible c d \<Longrightarrow> ok c (step d s)"
    and ok_disjoint: "ok c s \<Longrightarrow> e \<in> live_of s \<Longrightarrow> tag_of e \<notin> dead_of s"
    and live_step: "ok c s \<Longrightarrow> admissible c d \<Longrightarrow>
          live_of (step d s) = {e \<in> live_of s \<union> adds d. tag_of e \<notin> dead_of (step d s)}"
    and dead_step: "ok c s \<Longrightarrow> admissible c d \<Longrightarrow> dead_of (step d s) = dead_of s \<union> rems d"
begin

lemma run_ok: "ok c s \<Longrightarrow> \<forall>d \<in> set ds. admissible c d \<Longrightarrow> ok c (fold step ds s)"
  by (induction ds arbitrary: s) (simp_all add: ok_step)

lemma run_dead:
  "ok c s \<Longrightarrow> \<forall>d \<in> set ds. admissible c d \<Longrightarrow>
     dead_of (fold step ds s) = dead_of s \<union> \<Union> (rems ` set ds)"
  by (induction ds arbitrary: s) (auto simp: ok_step dead_step)

lemma run_live:
  "ok c s \<Longrightarrow> \<forall>d \<in> set ds. admissible c d \<Longrightarrow>
     live_of (fold step ds s) = {e \<in> live_of s \<union> \<Union> (adds ` set ds). tag_of e \<notin> dead_of (fold step ds s)}"
proof (induction ds arbitrary: s)
  case Nil
  then show ?case by (auto dest: ok_disjoint)
next
  case (Cons d ds)
  let ?s = "step d s"
  from Cons.prems have ok: "ok c ?s" and adm: "\<forall>d \<in> set ds. admissible c d"
    by (simp_all add: ok_step)
  have sub: "dead_of ?s \<subseteq> dead_of (fold step ds ?s)"
    using run_dead [OF ok adm] by blast
  have "live_of (fold step ds ?s)
      = {e \<in> live_of ?s \<union> \<Union> (adds ` set ds). tag_of e \<notin> dead_of (fold step ds ?s)}"
    by (rule Cons.IH [OF ok adm])
  also have "live_of ?s = {e \<in> live_of s \<union> adds d. tag_of e \<notin> dead_of ?s}"
    using Cons.prems by (intro live_step [of c]) simp_all
  finally show ?case using sub by auto
qed

lemma run_converges:
  assumes "ok c s" and "ok c s'"
    and "\<forall>d \<in> set ds. admissible c d" and "\<forall>d \<in> set ds'. admissible c d"
    and "live_of s \<union> \<Union> (adds ` set ds) = live_of s' \<union> \<Union> (adds ` set ds')"
    and "dead_of s \<union> \<Union> (rems ` set ds) = dead_of s' \<union> \<Union> (rems ` set ds')"
  shows "live_of (fold step ds s) = live_of (fold step ds' s')"
    and "dead_of (fold step ds s) = dead_of (fold step ds' s')"
proof -
  show d: "dead_of (fold step ds s) = dead_of (fold step ds' s')"
    using assms(6) by (simp add: run_dead [OF assms(1,3)] run_dead [OF assms(2,4)])
  show "live_of (fold step ds s) = live_of (fold step ds' s')"
    using assms(5) by (simp add: run_live [OF assms(1,3)] run_live [OF assms(2,4)] d)
qed

lemma run_no_resurrection:
  assumes "ok c s" and "\<forall>d \<in> set ds. admissible c d" and "t \<in> dead_of s"
    and "e \<in> live_of (fold step ds s)"
  shows "tag_of e \<noteq> t"
  using assms run_live [OF assms(1,2)] run_dead [OF assms(1,2)] by auto

end

end
