(* ===== verification/Process.thy ===== *)
theory Process
  imports Prelude
begin

text \<open>
  Process identifiers, messages, exit reasons and send errors
  (\<^verbatim>\<open>crates/rebar-core/src/process/types.rs\<close>). A message payload is a MessagePack value of the
  \<open>rmpv\<close> crate, which is outside the repository: its type is the parameter \<open>'v\<close>.
\<close>

record process_id =
  pid_node_id :: u64
  pid_local_id :: u64

definition process_id_new :: "u64 \<Rightarrow> u64 \<Rightarrow> process_id" where
  "process_id_new n l = \<lparr>pid_node_id = n, pid_local_id = l\<rparr>"

record 'v message =
  msg_from :: process_id
  msg_payload :: 'v
  msg_timestamp :: "u64 option"

text \<open>
  \<open>Message::new\<close> reads the system clock: \<open>now_millis\<close> is the milliseconds since the Unix epoch,
  \<open>None\<close> when the clock is before it. A clock before the epoch or a value beyond \<open>u64\<close> panics (\<open>None\<close>).
\<close>

definition message_new :: "nat option \<Rightarrow> process_id \<Rightarrow> 'v \<Rightarrow> 'v message option" where
  "message_new now_millis from p =
     (case now_millis of None \<Rightarrow> None
      | Some ms \<Rightarrow>
          if ms < 2 ^ 64
          then Some \<lparr>msg_from = from, msg_payload = p, msg_timestamp = Some (word_of_nat ms)\<rparr>
          else None)"

definition message_new_internal :: "process_id \<Rightarrow> 'v \<Rightarrow> 'v message" where
  "message_new_internal from p = \<lparr>msg_from = from, msg_payload = p, msg_timestamp = None\<rparr>"

datatype exit_reason =
    Normal
  | Abnormal string
  | Kill
  | LinkedExit process_id exit_reason

fun is_normal :: "exit_reason \<Rightarrow> bool" where
  "is_normal Normal = True"
| "is_normal _ = False"

datatype send_error =
    ProcessDead process_id
  | MailboxFull process_id
  | NodeUnreachable u64
  | NameNotRegistered string

section \<open>Printing\<close>

definition display_pid :: "process_id \<Rightarrow> string" where
  "display_pid p = ''<'' @ decimal (unat (pid_node_id p)) @ ''.'' @ decimal (unat (pid_local_id p)) @ ''>''"

fun display_send_error :: "send_error \<Rightarrow> string" where
  "display_send_error (ProcessDead p) = ''process dead: '' @ display_pid p"
| "display_send_error (MailboxFull p) = ''mailbox full for: '' @ display_pid p"
| "display_send_error (NodeUnreachable n) = ''node unreachable: '' @ decimal (unat n)"
| "display_send_error (NameNotRegistered name) = ''no process registered under name: '' @ name"

section \<open>Basic facts\<close>

lemma process_id_new_sel [simp]:
  "pid_node_id (process_id_new n l) = n"
  "pid_local_id (process_id_new n l) = l"
  by (simp_all add: process_id_new_def)

lemma process_id_new_collapse [simp]: "process_id_new (pid_node_id p) (pid_local_id p) = p"
  by (simp add: process_id_new_def)

lemma process_id_new_inject [simp]:
  "process_id_new n l = process_id_new n' l' \<longleftrightarrow> n = n' \<and> l = l'"
  by (simp add: process_id_new_def)

lemma message_new_internal_sel [simp]:
  "msg_from (message_new_internal from p) = from"
  "msg_payload (message_new_internal from p) = p"
  "msg_timestamp (message_new_internal from p) = None"
  by (simp_all add: message_new_internal_def)

text \<open>Identifiers and errors can be told apart by what is printed of them.\<close>

lemma display_pid_inject [simp]: "display_pid p = display_pid q \<longleftrightarrow> p = q"
proof
  assume a: "display_pid p = display_pid q"
  have "decimal (unat (pid_node_id p)) = decimal (unat (pid_node_id q)) \<and> decimal (unat (pid_local_id p)) @ ''>'' = decimal (unat (pid_local_id q)) @ ''>''"
    by (rule split_at_char [OF decimal_digits decimal_digits]) (use a in \<open>simp_all add: display_pid_def digit_char_def\<close>)
  then show "p = q" by (simp add: word_unat_eq_iff [symmetric])
qed simp

theorem display_send_error_inject: "display_send_error e = display_send_error e' \<longleftrightarrow> e = e'"
  by (cases e; cases e') (auto simp: append_eq_Cons_conv unsigned_word_eqI)

end
