(* ===== verification/Registry.thy ===== *)
theory Registry
  imports Process "HOL-Library.Product_Lexorder"
begin

text \<open>
  The global name registry, an observed-remove set with tombstones and last-writer-wins lookup
  (\<^verbatim>\<open>crates/rebar-cluster/src/registry/orset.rs\<close>). A registration's tag comes from
  \<open>Uuid::new_v4\<close>, which is outside the repository: the tag is an argument of \<open>registry_register\<close>,
  and the properties that rest on its uniqueness say so. \<open>eo\<close> and \<open>to\<close> are the iteration orders of
  the entry map and of the tombstone map.
\<close>

section \<open>Data\<close>

record registry_entry =
  re_name :: string
  re_pid :: process_id
  re_tag :: u128
  re_timestamp :: u64
  re_node_id :: u64

datatype registry_delta =
    DeltaAdd registry_entry
  | DeltaRemove string u128

record name_conflict =
  nc_name :: string
  nc_winner :: registry_entry
  nc_loser :: registry_entry

record tombstone =
  ts_name :: string
  ts_generation :: u64

record registry =
  entries :: "(string, registry_entry list) hashmap"
  tombstones :: "(u128, tombstone) hashmap"
  tombstone_gen :: u64
  max_tombstones :: usize
  conflicts :: "name_conflict list"

type_synonym tomb_order = "(u128, tombstone) hashmap \<Rightarrow> (u128 \<times> tombstone) list"
type_synonym entry_order = "(string, registry_entry list) hashmap \<Rightarrow> (string \<times> registry_entry list) list"

definition DEFAULT_MAX_TOMBSTONES :: usize where
  "DEFAULT_MAX_TOMBSTONES = 4096"

definition registry_new :: registry where
  "registry_new = \<lparr>entries = [], tombstones = [], tombstone_gen = 0,
     max_tombstones = DEFAULT_MAX_TOMBSTONES, conflicts = []\<rparr>"

section \<open>Tombstones\<close>

definition next_gen :: "registry \<Rightarrow> u64 \<times> registry" where
  "next_gen r = (let g = u64_saturating_add (tombstone_gen r) 1 in (g, r\<lparr>tombstone_gen := g\<rparr>))"

text \<open>
  The eviction loop of \<open>enforce_tombstone_cap\<close>, with fuel; it evicts one tombstone per round, so
  as many rounds as there are tombstones are enough (\<open>cap_loop_Some\<close>).
\<close>

fun cap_loop :: "nat \<Rightarrow> tomb_order \<Rightarrow> usize \<Rightarrow> (u128, tombstone) hashmap
    \<Rightarrow> (u128, tombstone) hashmap option" where
  "cap_loop 0 to mx ts = (if length ts > mx then None else Some ts)"
| "cap_loop (Suc n) to mx ts =
     (if length ts > mx
      then case min_by_key (\<lambda>(_, t). ts_generation t) (to ts) of
             Some (victim, _) \<Rightarrow> cap_loop n to mx (hm_remove victim ts)
           | None \<Rightarrow> Some ts
      else Some ts)"

definition enforce_tombstone_cap :: "tomb_order \<Rightarrow> registry \<Rightarrow> registry" where
  "enforce_tombstone_cap to r =
     (case cap_loop (length (tombstones r)) to (max_tombstones r) (tombstones r) of
        Some ts \<Rightarrow> r\<lparr>tombstones := ts\<rparr>
      | None \<Rightarrow> r)"

definition registry_tombstone :: "tomb_order \<Rightarrow> u128 \<Rightarrow> string \<Rightarrow> registry \<Rightarrow> registry" where
  "registry_tombstone to tag name r =
     (let (generation, r) = next_gen r;
          ts' = (case hm_get (tombstones r) tag of
                   Some existing \<Rightarrow>
                     if ts_name existing = [] \<and> name \<noteq> []
                     then hm_modify tag (\<lambda>t. t\<lparr>ts_name := name\<rparr>) (tombstones r)
                     else tombstones r
                 | None \<Rightarrow>
                     hm_insert tag \<lparr>ts_name = name, ts_generation = generation\<rparr> (tombstones r))
      in enforce_tombstone_cap to (r\<lparr>tombstones := ts'\<rparr>))"

definition reap_tag :: "u128 \<Rightarrow> registry \<Rightarrow> bool \<times> registry" where
  "reap_tag tag r =
     (let es = hm_map_values (filter (\<lambda>e. re_tag e \<noteq> tag)) (entries r) in
      (list_ex (\<lambda>(n, xs). length (filter (\<lambda>e. re_tag e \<noteq> tag) xs) \<noteq> length xs) (entries r),
       r\<lparr>entries := hm_retain (\<lambda>_ xs. xs \<noteq> []) es\<rparr>))"

definition expire_tombstones :: "u64 \<Rightarrow> registry \<Rightarrow> usize \<times> registry" where
  "expire_tombstones stable_generation r =
     (let ts' = hm_retain (\<lambda>_ t. ts_generation t > stable_generation) (tombstones r) in
      (length (tombstones r) - length ts', r\<lparr>tombstones := ts'\<rparr>))"

definition tombstone_generation :: "registry \<Rightarrow> u64" where
  "tombstone_generation r = tombstone_gen r"

definition tombstone_count :: "registry \<Rightarrow> usize" where
  "tombstone_count r = length (tombstones r)"

section \<open>Registration and lookup\<close>

definition registry_register ::
  "u128 \<Rightarrow> string \<Rightarrow> process_id \<Rightarrow> u64 \<Rightarrow> u64 \<Rightarrow> registry \<Rightarrow> u128 \<times> registry" where
  "registry_register tag name pid node timestamp r =
     (let entry = \<lparr>re_name = name, re_pid = pid, re_tag = tag,
                   re_timestamp = timestamp, re_node_id = node\<rparr> in
      (tag, r\<lparr>entries := hm_push name entry (entries r)\<rparr>))"

definition lww_cmp :: "registry_entry \<Rightarrow> registry_entry \<Rightarrow> ordering" where
  "lww_cmp a b = then_with (ord_cmp (re_timestamp a) (re_timestamp b))
     (ord_cmp (re_node_id a) (re_node_id b))"

definition registry_lookup :: "registry \<Rightarrow> string \<Rightarrow> registry_entry option" where
  "registry_lookup r name =
     (case hm_get (entries r) name of None \<Rightarrow> None | Some es \<Rightarrow> max_by lww_cmp es)"

definition registry_unregister ::
  "tomb_order \<Rightarrow> string \<Rightarrow> registry \<Rightarrow> registry_delta list option \<times> registry" where
  "registry_unregister to name r =
     (case hm_get (entries r) name of
        None \<Rightarrow> (None, r)
      | Some es \<Rightarrow>
          let r = r\<lparr>entries := hm_remove name (entries r)\<rparr> in
          if es = [] then (None, r)
          else let tags = map re_tag es in
               (Some (map (\<lambda>tag. DeltaRemove name tag) tags),
                fold (\<lambda>tag. registry_tombstone to tag name) tags r))"

definition registry_registered :: "entry_order \<Rightarrow> registry \<Rightarrow> (string \<times> process_id) list" where
  "registry_registered eo r =
     sort_key fst (List.map_filter
       (\<lambda>name. map_option (\<lambda>e. (re_name e, re_pid e)) (registry_lookup r name))
       (map fst (eo (entries r))))"

text \<open>The body of the loops of \<open>remove_by_pid\<close> and \<open>remove_by_node\<close>, which differ in the filter only.\<close>

definition remove_where_name ::
  "tomb_order \<Rightarrow> (registry_entry \<Rightarrow> bool) \<Rightarrow> string \<Rightarrow> registry \<Rightarrow> registry" where
  "remove_where_name to P name r =
     (let removed = (case hm_get (entries r) name of None \<Rightarrow> []
                     | Some es \<Rightarrow> map re_tag (filter P es));
          r = fold (\<lambda>tag. registry_tombstone to tag name) removed r
      in case hm_get (entries r) name of
           None \<Rightarrow> r
         | Some es \<Rightarrow>
             let es' = filter (\<lambda>e. \<not> P e) es in
             if es' = [] then r\<lparr>entries := hm_remove name (entries r)\<rparr>
             else r\<lparr>entries := hm_insert name es' (entries r)\<rparr>)"

definition remove_by_pid :: "entry_order \<Rightarrow> tomb_order \<Rightarrow> process_id \<Rightarrow> registry \<Rightarrow> registry" where
  "remove_by_pid eo to pid r =
     fold (remove_where_name to (\<lambda>e. re_pid e = pid)) (map fst (eo (entries r))) r"

definition remove_by_node :: "entry_order \<Rightarrow> tomb_order \<Rightarrow> u64 \<Rightarrow> registry \<Rightarrow> registry" where
  "remove_by_node eo to node r =
     fold (remove_where_name to (\<lambda>e. re_node_id e = node)) (map fst (eo (entries r))) r"

section \<open>Replication\<close>

fun merge_delta :: "tomb_order \<Rightarrow> registry_delta \<Rightarrow> registry \<Rightarrow> registry" where
  "merge_delta to (DeltaAdd entry) r =
     (if hm_contains (re_tag entry) (tombstones r) then r
      else
        let conflicting_winner =
              (case registry_lookup r (re_name entry) of
                 Some w \<Rightarrow> if re_tag w \<noteq> re_tag entry \<and> re_pid w \<noteq> re_pid entry then Some w else None
               | None \<Rightarrow> None);
            es = (case hm_get (entries r) (re_name entry) of None \<Rightarrow> [] | Some es \<Rightarrow> es)
        in if list_ex (\<lambda>e. re_tag e = re_tag entry) es
           then r\<lparr>entries := hm_insert (re_name entry) es (entries r)\<rparr>
           else
             let r = r\<lparr>entries := hm_push (re_name entry) entry (entries r)\<rparr> in
             case conflicting_winner of
               None \<Rightarrow> r
             | Some prior \<Rightarrow>
                 let (winner, loser) = (if lww_cmp entry prior = Greater
                                        then (entry, prior) else (prior, entry))
                 in r\<lparr>conflicts := conflicts r @
                       [\<lparr>nc_name = re_name winner, nc_winner = winner, nc_loser = loser\<rparr>]\<rparr>)"
| "merge_delta to (DeltaRemove name tag) r = snd (reap_tag tag (registry_tombstone to tag name r))"

definition take_conflicts :: "registry \<Rightarrow> name_conflict list \<times> registry" where
  "take_conflicts r = (conflicts r, r\<lparr>conflicts := []\<rparr>)"

definition has_conflicts :: "registry \<Rightarrow> bool" where
  "has_conflicts r = (conflicts r \<noteq> [])"

definition generate_deltas :: "entry_order \<Rightarrow> tomb_order \<Rightarrow> registry \<Rightarrow> registry_delta list" where
  "generate_deltas eo to r =
     map DeltaAdd (concat (map snd (eo (entries r))))
     @ map (\<lambda>(tag, t). DeltaRemove (ts_name t) tag) (to (tombstones r))"

section \<open>Invariant and abstraction\<close>

text \<open>The abstract state: the set of live registrations and the set of tombstoned tags.\<close>

definition live :: "registry \<Rightarrow> registry_entry set" where
  "live r = {e. \<exists>n es. hm_get (entries r) n = Some es \<and> e \<in> set es}"

definition dead_tags :: "registry \<Rightarrow> u128 set" where
  "dead_tags r = dom (hm_get (tombstones r))"

definition registry_wf :: "registry \<Rightarrow> bool" where
  "registry_wf r \<longleftrightarrow> hm_wf (entries r) \<and> hm_wf (tombstones r)
     \<and> (\<forall>n es. hm_get (entries r) n = Some es \<longrightarrow> es \<noteq> [] \<and> (\<forall>e \<in> set es. re_name e = n))
     \<and> length (tombstones r) \<le> max_tombstones r"

lemma registry_wfD:
  assumes "registry_wf r"
  shows "hm_wf (entries r)" and "hm_wf (tombstones r)"
    and "hm_get (entries r) n = Some es \<Longrightarrow> es \<noteq> []"
    and "hm_get (entries r) n = Some es \<Longrightarrow> e \<in> set es \<Longrightarrow> re_name e = n"
    and "length (tombstones r) \<le> max_tombstones r"
  using assms by (auto simp: registry_wf_def)

lemma registry_wf_new [simp]: "registry_wf registry_new"
  by (simp add: registry_wf_def registry_new_def)

lemma live_new [simp]: "live registry_new = {}"
  by (simp add: live_def registry_new_def)

lemma dead_tags_new [simp]: "dead_tags registry_new = {}"
  by (simp add: dead_tags_def registry_new_def dom_def)

lemma cap_loop_Some:
  assumes "hash_order to"
  shows "hm_wf ts \<Longrightarrow> length ts \<le> n + mx \<Longrightarrow>
    \<exists>ts'. cap_loop n to mx ts = Some ts' \<and> hm_wf ts' \<and> length ts' \<le> mx
      \<and> hm_get ts' \<subseteq>\<^sub>m hm_get ts"
proof (induction n arbitrary: ts)
  case 0
  then show ?case by simp
next
  case (Suc n)
  show ?case
  proof (cases "length ts > mx")
    case False
    with Suc.prems show ?thesis by simp
  next
    case True
    then have "to ts \<noteq> []" using assms by (auto simp: hash_order_Nil)
    then obtain victim t where v: "min_by_key (\<lambda>(_, t). ts_generation t) (to ts) = Some (victim, t)"
      by (metis min_by_key_None option.exhaust surj_pair)
    then have "(victim, t) \<in> set ts"
      using assms by (auto dest!: min_by_key_in_set simp: hash_order_set)
    then have "hm_contains victim ts" by (force simp: hm_contains_iff hm_keys_def)
    with Suc.prems True have "length (hm_remove victim ts) \<le> n + mx"
      by (simp add: length_hm_remove)
    with Suc.prems have "\<exists>ts'. cap_loop n to mx (hm_remove victim ts) = Some ts' \<and> hm_wf ts'
        \<and> length ts' \<le> mx \<and> hm_get ts' \<subseteq>\<^sub>m hm_get (hm_remove victim ts)"
      by (intro Suc.IH) (simp_all add: wf_intros)
    moreover have "hm_get (hm_remove victim ts) \<subseteq>\<^sub>m hm_get ts"
      by (auto simp: map_le_def split: if_splits)
    ultimately show ?thesis using True v by (auto intro: map_le_trans)
  qed
qed

lemma cap_loop_noop: "length ts \<le> mx \<Longrightarrow> cap_loop n to mx ts = Some ts"
  by (cases n) simp_all

lemma enforce_cap_fields [simp]:
  "entries (enforce_tombstone_cap to r) = entries r"
  "max_tombstones (enforce_tombstone_cap to r) = max_tombstones r"
  "conflicts (enforce_tombstone_cap to r) = conflicts r"
  "tombstone_gen (enforce_tombstone_cap to r) = tombstone_gen r"
  by (simp_all add: enforce_tombstone_cap_def split: option.splits)

lemma enforce_cap_tombstones:
  assumes "hash_order to" and "hm_wf (tombstones r)"
  shows "hm_wf (tombstones (enforce_tombstone_cap to r))"
    and "length (tombstones (enforce_tombstone_cap to r)) \<le> max_tombstones r"
    and "hm_get (tombstones (enforce_tombstone_cap to r)) \<subseteq>\<^sub>m hm_get (tombstones r)"
proof -
  from cap_loop_Some [OF assms, of "length (tombstones r)" "max_tombstones r"]
  obtain ts' where "cap_loop (length (tombstones r)) to (max_tombstones r) (tombstones r) = Some ts'"
    "hm_wf ts'" "length ts' \<le> max_tombstones r"
    "hm_get ts' \<subseteq>\<^sub>m hm_get (tombstones r)"
    by auto
  then show "hm_wf (tombstones (enforce_tombstone_cap to r))"
    and "length (tombstones (enforce_tombstone_cap to r)) \<le> max_tombstones r"
    and "hm_get (tombstones (enforce_tombstone_cap to r)) \<subseteq>\<^sub>m hm_get (tombstones r)"
    by (simp_all add: enforce_tombstone_cap_def)
qed

lemma enforce_cap_noop:
  "length (tombstones r) \<le> max_tombstones r \<Longrightarrow> enforce_tombstone_cap to r = r"
  by (simp add: enforce_tombstone_cap_def cap_loop_noop)

text \<open>The tombstone map before the cap is enforced.\<close>

definition with_tombstone :: "u128 \<Rightarrow> string \<Rightarrow> registry \<Rightarrow> registry" where
  "with_tombstone tag name r =
     (let (generation, r) = next_gen r in
      r\<lparr>tombstones := (case hm_get (tombstones r) tag of
                   Some existing \<Rightarrow>
                     if ts_name existing = [] \<and> name \<noteq> []
                     then hm_modify tag (\<lambda>t. t\<lparr>ts_name := name\<rparr>) (tombstones r)
                     else tombstones r
                 | None \<Rightarrow>
                     hm_insert tag \<lparr>ts_name = name, ts_generation = generation\<rparr> (tombstones r))\<rparr>)"

lemma registry_tombstone_alt:
  "registry_tombstone to tag name r = enforce_tombstone_cap to (with_tombstone tag name r)"
  by (simp add: registry_tombstone_def with_tombstone_def split: prod.splits)

lemma with_tombstone_fields [simp]:
  "entries (with_tombstone tag name r) = entries r"
  "max_tombstones (with_tombstone tag name r) = max_tombstones r"
  "conflicts (with_tombstone tag name r) = conflicts r"
  by (simp_all add: with_tombstone_def next_gen_def Let_def)

lemma with_tombstone_dead: "dead_tags (with_tombstone tag name r) = insert tag (dead_tags r)"
  by (auto simp: dead_tags_def with_tombstone_def next_gen_def Let_def split: option.splits if_splits)

lemma with_tombstone_wf: "hm_wf (tombstones r) \<Longrightarrow> hm_wf (tombstones (with_tombstone tag name r))"
  by (auto simp: with_tombstone_def next_gen_def Let_def wf_intros split: option.splits)

lemma registry_tombstone_fields [simp]:
  "entries (registry_tombstone to tag name r) = entries r"
  "max_tombstones (registry_tombstone to tag name r) = max_tombstones r"
  "conflicts (registry_tombstone to tag name r) = conflicts r"
  by (simp_all add: registry_tombstone_alt)

lemma registry_tombstone_live [simp]: "live (registry_tombstone to tag name r) = live r"
  by (simp add: live_def)

lemma dead_tags_card: "hm_wf (tombstones r) \<Longrightarrow> length (tombstones r) = card (dead_tags r)"
  by (simp add: dead_tags_def hm_length_card)

lemma finite_dead_tags [simp]: "finite (dead_tags r)"
  by (simp add: dead_tags_def dom_hm_get)

lemma registry_tombstone_dead_subset:
  assumes "hash_order to" and "hm_wf (tombstones r)"
  shows "dead_tags (registry_tombstone to tag name r) \<subseteq> insert tag (dead_tags r)"
proof -
  have "dead_tags (registry_tombstone to tag name r) \<subseteq> dead_tags (with_tombstone tag name r)"
    unfolding registry_tombstone_alt dead_tags_def
    by (intro map_le_implies_dom_le enforce_cap_tombstones(3) with_tombstone_wf assms)
  then show ?thesis by (simp only: with_tombstone_dead)
qed

lemma registry_tombstone_dead:
  assumes "hm_wf (tombstones r)" and "card (insert tag (dead_tags r)) \<le> max_tombstones r"
  shows "dead_tags (registry_tombstone to tag name r) = insert tag (dead_tags r)"
proof -
  have "length (tombstones (with_tombstone tag name r)) \<le> max_tombstones (with_tombstone tag name r)"
    using assms by (simp add: dead_tags_card with_tombstone_wf with_tombstone_dead)
  then show ?thesis
    by (simp add: registry_tombstone_alt enforce_cap_noop with_tombstone_dead)
qed

lemma registry_tombstone_wf [wf_intros]:
  "hash_order to \<Longrightarrow> registry_wf r \<Longrightarrow> registry_wf (registry_tombstone to tag name r)"
  using enforce_cap_tombstones [of to "with_tombstone tag name r"]
  by (auto simp: registry_wf_def registry_tombstone_alt with_tombstone_wf)

lemma reap_tag_get:
  "hm_wf (entries r) \<Longrightarrow> hm_get (entries (snd (reap_tag tag r))) n =
     (case hm_get (entries r) n of None \<Rightarrow> None
      | Some es \<Rightarrow> let es' = filter (\<lambda>e. re_tag e \<noteq> tag) es in if es' = [] then None else Some es')"
  by (auto simp: reap_tag_def Let_def wf_intros split: option.splits)

lemma reap_tag_fields [simp]:
  "tombstones (snd (reap_tag tag r)) = tombstones r"
  "max_tombstones (snd (reap_tag tag r)) = max_tombstones r"
  "conflicts (snd (reap_tag tag r)) = conflicts r"
  by (simp_all add: reap_tag_def Let_def)

lemma reap_tag_live: "hm_wf (entries r) \<Longrightarrow> live (snd (reap_tag tag r)) = {e \<in> live r. re_tag e \<noteq> tag}"
  by (auto simp: live_def reap_tag_get Let_def filter_empty_conv split: option.splits if_splits)

lemma reap_tag_wf [wf_intros]: "registry_wf r \<Longrightarrow> registry_wf (snd (reap_tag tag r))"
  unfolding registry_wf_def
  by (auto simp: reap_tag_get Let_def split: option.splits if_splits)
     (simp add: reap_tag_def Let_def wf_intros)

lemma push_live: "live (r\<lparr>entries := hm_push n e (entries r)\<rparr>) = insert e (live r)"
proof -
  have "x \<in> live (r\<lparr>entries := hm_push n e (entries r)\<rparr>) \<longleftrightarrow> x = e \<or> x \<in> live r" for x
  proof (cases "hm_get (entries r) n")
    case None
    then show ?thesis by (auto simp: live_def split: if_splits) (metis option.discI)
  next
    case (Some es)
    then show ?thesis by (auto simp: live_def split: if_splits) (metis option.inject)
  qed
  then show ?thesis by blast
qed

lemma reinsert_get: "hm_get m k = Some v \<Longrightarrow> hm_get (hm_insert k v m) = hm_get m"
  by (auto simp: fun_eq_iff)

text \<open>
  The three outcomes of merging an addition: refused or already known, stored, stored with a
  conflict record. Only the second and third change the live registrations.
\<close>

definition add_known :: "registry_entry \<Rightarrow> registry \<Rightarrow> bool" where
  "add_known e r \<longleftrightarrow> re_tag e \<in> dead_tags r
     \<or> (\<exists>e' \<in> live r. re_name e' = re_name e \<and> re_tag e' = re_tag e)"

lemma live_name_tag:
  assumes "registry_wf r"
  shows "(\<exists>e' \<in> live r. re_name e' = n \<and> re_tag e' = t)
    \<longleftrightarrow> (\<exists>es. hm_get (entries r) n = Some es \<and> list_ex (\<lambda>e. re_tag e = t) es)"
  using registry_wfD(4) [OF assms] by (fastforce simp: live_def list_ex_iff)

lemma merge_add_known:
  assumes "registry_wf r" and "add_known e r"
  shows "hm_get (entries (merge_delta to (DeltaAdd e) r)) = hm_get (entries r)"
    and "hm_wf (entries (merge_delta to (DeltaAdd e) r))"
    and "conflicts (merge_delta to (DeltaAdd e) r) = conflicts r"
  using assms registry_wfD(1) [OF assms(1)]
  by (auto simp: add_known_def live_name_tag dead_tags_def hm_contains_def Let_def reinsert_get wf_intros)

lemma merge_add_new:
  assumes "registry_wf r" and "\<not> add_known e r"
  obtains cs where "merge_delta to (DeltaAdd e) r
    = r\<lparr>entries := hm_push (re_name e) e (entries r), conflicts := conflicts r @ cs\<rparr>"
proof -
  have d: "\<not> hm_contains (re_tag e) (tombstones r)"
    using assms(2) by (auto simp: add_known_def dead_tags_def hm_contains_def)
  have l: "\<not> list_ex (\<lambda>x. re_tag x = re_tag e)
      (case hm_get (entries r) (re_name e) of None \<Rightarrow> [] | Some es \<Rightarrow> es)"
    using assms by (auto simp: add_known_def live_name_tag split: option.splits)
  from d l have "\<exists>cs. merge_delta to (DeltaAdd e) r
      = r\<lparr>entries := hm_push (re_name e) e (entries r), conflicts := conflicts r @ cs\<rparr>"
    by (auto simp: Let_def split: option.splits if_splits intro: exI [of _ "[]"])
  then show ?thesis using that by blast
qed

lemma merge_add_live:
  assumes "registry_wf r"
  shows "live (merge_delta to (DeltaAdd e) r) = (if add_known e r then live r else insert e (live r))"
proof (cases "add_known e r")
  case True
  with merge_add_known [OF assms True] show ?thesis by (simp add: live_def)
next
  case False
  with assms obtain cs where "merge_delta to (DeltaAdd e) r
      = r\<lparr>entries := hm_push (re_name e) e (entries r), conflicts := conflicts r @ cs\<rparr>"
    by (rule merge_add_new)
  with False push_live [where r = r and n = "re_name e" and e = e] show ?thesis by (simp add: live_def)
qed

lemma merge_add_fields [simp]:
  "tombstones (merge_delta to (DeltaAdd e) r) = tombstones r"
  "max_tombstones (merge_delta to (DeltaAdd e) r) = max_tombstones r"
  by (simp_all add: Let_def split: option.splits)

lemma merge_add_dead [simp]: "dead_tags (merge_delta to (DeltaAdd e) r) = dead_tags r"
  unfolding dead_tags_def merge_add_fields ..

lemma merge_add_wf:
  assumes "registry_wf r"
  shows "registry_wf (merge_delta to (DeltaAdd e) r)"
proof (cases "add_known e r")
  case True
  with assms merge_add_known [OF assms True, of to] show ?thesis
    unfolding registry_wf_def merge_add_fields by simp
next
  case False
  with assms obtain cs where "merge_delta to (DeltaAdd e) r
      = r\<lparr>entries := hm_push (re_name e) e (entries r), conflicts := conflicts r @ cs\<rparr>"
    by (rule merge_add_new)
  with assms show ?thesis
    by (auto simp: registry_wf_def wf_intros split: option.splits if_splits)
qed

declare merge_delta.simps(1) [simp del]

lemma merge_remove_live:
  "registry_wf r \<Longrightarrow> live (merge_delta to (DeltaRemove n t) r) = {e \<in> live r. re_tag e \<noteq> t}"
  by (simp add: reap_tag_live registry_wfD(1))

lemma merge_remove_dead:
  "registry_wf r \<Longrightarrow> card (insert t (dead_tags r)) \<le> max_tombstones r \<Longrightarrow>
     dead_tags (merge_delta to (DeltaRemove n t) r) = insert t (dead_tags r)"
  using registry_tombstone_dead [of r t to n] by (simp add: dead_tags_def registry_wfD(2))

lemma merge_delta_wf [wf_intros]:
  "hash_order to \<Longrightarrow> registry_wf r \<Longrightarrow> registry_wf (merge_delta to d r)"
  by (cases d) (simp_all add: merge_add_wf wf_intros)

lemma merge_delta_max [simp]: "max_tombstones (merge_delta to d r) = max_tombstones r"
  by (cases d) simp_all

section \<open>Lookup\<close>

definition lww_key :: "registry_entry \<Rightarrow> u64 \<times> u64" where
  "lww_key e = (re_timestamp e, re_node_id e)"

lemma lww_cmp_Greater: "lww_cmp a b = Greater \<longleftrightarrow> lww_key b < lww_key a"
  by (auto simp: lww_cmp_def lww_key_def then_with_Greater_iff less_prod_simp)

lemma live_iff:
  assumes "registry_wf r"
  shows "e \<in> live r \<longleftrightarrow> (\<exists>es. hm_get (entries r) (re_name e) = Some es \<and> e \<in> set es)"
  unfolding live_def mem_Collect_eq using registry_wfD(4) [OF assms] by blast

lemma lookup_None_iff:
  assumes "registry_wf r"
  shows "registry_lookup r n = None \<longleftrightarrow> (\<forall>e. e \<in> live r \<longrightarrow> re_name e \<noteq> n)"
proof (cases "hm_get (entries r) n")
  case None
  then show ?thesis by (auto simp: registry_lookup_def live_iff [OF assms])
next
  case (Some es)
  with registry_wfD(3) [OF assms] obtain e where "e \<in> set es" by (meson last_in_set)
  with Some registry_wfD(3,4) [OF assms Some] show ?thesis
    by (auto simp: registry_lookup_def live_def)
qed

lemma lookup_Some:
  assumes "registry_wf r" and "registry_lookup r n = Some e"
  shows "e \<in> live r" and "re_name e = n"
    and "e' \<in> live r \<Longrightarrow> re_name e' = n \<Longrightarrow> lww_key e' \<le> lww_key e"
proof -
  from assms(2) obtain es where es: "hm_get (entries r) n = Some es" and mx: "max_by lww_cmp es = Some e"
    by (auto simp: registry_lookup_def split: option.splits)
  from mx have "e \<in> set es" by (rule max_by_in_set)
  with es registry_wfD(4) [OF assms(1)] show "e \<in> live r" and "re_name e = n"
    by (auto simp: live_def)
  assume "e' \<in> live r" and "re_name e' = n"
  with es live_iff [OF assms(1)] have "e' \<in> set es" by auto
  then show "lww_key e' \<le> lww_key e"
    by (rule max_by_ge [of lww_cmp lww_key, OF lww_cmp_Greater mx])
qed

text \<open>No two live registrations of a name carry the same timestamp and node.\<close>

definition tie_free :: "registry_entry set \<Rightarrow> bool" where
  "tie_free E \<longleftrightarrow> (\<forall>a b. a \<in> E \<longrightarrow> b \<in> E \<longrightarrow> re_name a = re_name b \<longrightarrow> lww_key a = lww_key b \<longrightarrow> a = b)"

lemma lookup_determined:
  assumes "registry_wf r" and "registry_wf r'" and "live r = live r'" and "tie_free (live r)"
  shows "registry_lookup r n = registry_lookup r' n"
proof (cases "registry_lookup r n")
  case None
  then show ?thesis
    using assms(3) lookup_None_iff [OF assms(1)] lookup_None_iff [OF assms(2)] by metis
next
  case (Some e)
  moreover from this obtain e' where e': "registry_lookup r' n = Some e'"
    using assms(3) lookup_None_iff [OF assms(1)] lookup_None_iff [OF assms(2)]
    by (metis option.exhaust option.discI)
  moreover have "e = e'"
    using lookup_Some [OF assms(1) Some] lookup_Some [OF assms(2) e'] assms(3,4)
    by (metis tie_free_def order_antisym)
  ultimately show ?thesis by simp
qed

lemma registered_mem:
  assumes "registry_wf r" and "hash_order eo"
  shows "(n, p) \<in> set (registry_registered eo r) \<longleftrightarrow> (\<exists>e. registry_lookup r n = Some e \<and> re_pid e = p)"
proof -
  have keys: "registry_lookup r n \<noteq> None \<Longrightarrow> n \<in> fst ` set (eo (entries r))" for n
    using assms(2)
    by (auto simp: registry_lookup_def hash_order_set split: option.splits dest!: hm_get_in_set intro: rev_image_eqI)
  show ?thesis
    using keys lookup_Some(2) [OF assms(1)]
    by (force simp: registry_registered_def set_map_filter_iff)
qed

lemma registered_keys:
  assumes "registry_wf r" and "hash_order eo"
  shows "sorted (map fst (registry_registered eo r))" and "distinct (map fst (registry_registered eo r))"
proof -
  let ?f = "\<lambda>name. map_option (\<lambda>e. (re_name e, re_pid e)) (registry_lookup r name)"
  have "fst y = x" if "?f x = Some y" for x y
    using that lookup_Some(2) [OF assms(1), of x] by auto
  then have "map fst (List.map_filter ?f ns) = filter (\<lambda>x. ?f x \<noteq> None) ns" for ns
    by (rule map_fst_map_filter)
  moreover have "distinct (map fst (eo (entries r)))"
    using assms registry_wfD(1) [OF assms(1)] hash_order_wf [of eo "entries r"] by (simp add: hm_wf_def)
  ultimately show "distinct (map fst (registry_registered eo r))"
    by (simp add: registry_registered_def distinct_map_sort_key)
  show "sorted (map fst (registry_registered eo r))"
    by (simp add: registry_registered_def)
qed

section \<open>Removal and reachable registries\<close>

lemma fold_tombstone_fields [simp]:
  "entries (fold (\<lambda>tag. registry_tombstone to tag name) tags r) = entries r"
  "max_tombstones (fold (\<lambda>tag. registry_tombstone to tag name) tags r) = max_tombstones r"
  "conflicts (fold (\<lambda>tag. registry_tombstone to tag name) tags r) = conflicts r"
  by (induction tags arbitrary: r) simp_all

lemma fold_tombstone_wf [wf_intros]:
  "hash_order to \<Longrightarrow> registry_wf r \<Longrightarrow> registry_wf (fold (\<lambda>tag. registry_tombstone to tag name) tags r)"
  by (induction tags arbitrary: r) (simp_all add: wf_intros)

lemma registry_wf_entries:
  assumes "registry_wf r" and "hm_wf m"
    and "\<And>n es. hm_get m n = Some es \<Longrightarrow> es \<noteq> [] \<and> (\<forall>e \<in> set es. re_name e = n)"
  shows "registry_wf (r\<lparr>entries := m\<rparr>)"
  using assms by (auto simp: registry_wf_def)

lemma remove_where_name_get:
  "hm_get (entries (remove_where_name to P name r)) n =
     (if n = name
      then case hm_get (entries r) n of None \<Rightarrow> None
           | Some es \<Rightarrow> let es' = filter (\<lambda>e. \<not> P e) es in if es' = [] then None else Some es'
      else hm_get (entries r) n)"
  by (simp add: remove_where_name_def Let_def split: option.splits)

lemma registry_wf_entry:
  "registry_wf r \<Longrightarrow> \<forall>n es. hm_get (entries r) n = Some es \<longrightarrow> es \<noteq> [] \<and> (\<forall>e \<in> set es. re_name e = n)"
  by (simp add: registry_wf_def)

lemma registry_wf_no_empty [simp]: "registry_wf r \<Longrightarrow> hm_get (entries r) n \<noteq> Some []"
  by (auto simp: registry_wf_def)

lemma remove_where_name_wf [wf_intros]:
  assumes "hash_order to" and "registry_wf r"
  shows "registry_wf (remove_where_name to P name r)"
proof -
  have "registry_wf (fold (\<lambda>tag. registry_tombstone to tag name) tags r)" for tags
    using assms by (rule fold_tombstone_wf)
  then show ?thesis
    using assms(2) registry_wf_entry [OF assms(2)] unfolding remove_where_name_def Let_def
    by (auto intro!: registry_wf_entries simp: wf_intros registry_wfD(1) [OF assms(2)]
        split: option.splits if_splits)
qed

lemma remove_where_name_live:
  assumes "hash_order to" and "registry_wf r"
  shows "live (remove_where_name to P name r) = {e \<in> live r. \<not> (re_name e = name \<and> P e)}"
  by (rule set_eqI)
     (auto simp: live_iff [OF assms(2)] live_iff [OF remove_where_name_wf [OF assms]]
        remove_where_name_get Let_def filter_empty_conv split: option.splits if_splits)

lemma fold_remove_where:
  assumes "hash_order to"
  shows "registry_wf r \<Longrightarrow> registry_wf (fold (remove_where_name to P) ns r)
    \<and> live (fold (remove_where_name to P) ns r) = {e \<in> live r. \<not> (re_name e \<in> set ns \<and> P e)}"
  by (induction ns arbitrary: r) (auto simp: wf_intros assms remove_where_name_live)

lemma live_names: "registry_wf r \<Longrightarrow> hash_order eo \<Longrightarrow> e \<in> live r \<Longrightarrow> re_name e \<in> set (map fst (eo (entries r)))"
  by (auto simp: live_iff hash_order_set dest!: hm_get_in_set intro: rev_image_eqI)

lemma remove_all_where_live:
  assumes "registry_wf r" and "hash_order eo" and "hash_order to"
  shows "live (fold (remove_where_name to P) (map fst (eo (entries r))) r) = {e \<in> live r. \<not> P e}"
  using fold_remove_where [OF assms(3,1), of P "map fst (eo (entries r))"] live_names [OF assms(1,2)]
  by auto

lemma unregister_live:
  "registry_wf r \<Longrightarrow> live (snd (registry_unregister to name r)) = {e \<in> live r. re_name e \<noteq> name}"
  by (auto simp: live_def registry_unregister_def Let_def dest: registry_wfD(4) split: option.splits if_splits)

lemma unregister_wf [wf_intros]:
  assumes "hash_order to" and "registry_wf r"
  shows "registry_wf (snd (registry_unregister to name r))"
  using assms registry_wf_entry [OF assms(2)]
  by (auto simp: registry_unregister_def Let_def registry_wfD(1)
      intro!: wf_intros registry_wf_entries split: option.splits if_splits)

lemma register_wf [wf_intros]:
  assumes "registry_wf r"
  shows "registry_wf (snd (registry_register tag name pid node ts r))"
  unfolding registry_register_def Let_def snd_conv
  by (rule registry_wf_entries [OF assms])
     (auto simp: wf_intros registry_wfD(1) [OF assms] dest: registry_wfD(3,4) [OF assms] split: option.splits if_splits)

lemma expire_wf [wf_intros]: "registry_wf r \<Longrightarrow> registry_wf (snd (expire_tombstones g r))"
  using length_hm_retain_le [of _ "tombstones r"]
  by (auto simp: registry_wf_def expire_tombstones_def Let_def wf_intros intro: order_trans)

lemma take_conflicts_wf [wf_intros]: "registry_wf r \<Longrightarrow> registry_wf (snd (take_conflicts r))"
  by (simp add: registry_wf_def take_conflicts_def)

text \<open>One operation of the registry, with any iteration orders and any arguments.\<close>

inductive registry_step :: "registry \<Rightarrow> registry \<Rightarrow> bool" where
  step_register: "registry_step r (snd (registry_register tag name pid node ts r))"
| step_unregister: "hash_order to \<Longrightarrow> registry_step r (snd (registry_unregister to name r))"
| step_remove_pid: "hash_order eo \<Longrightarrow> hash_order to \<Longrightarrow> registry_step r (remove_by_pid eo to pid r)"
| step_remove_node: "hash_order eo \<Longrightarrow> hash_order to \<Longrightarrow> registry_step r (remove_by_node eo to node r)"
| step_merge: "hash_order to \<Longrightarrow> registry_step r (merge_delta to d r)"
| step_expire: "registry_step r (snd (expire_tombstones g r))"
| step_take: "registry_step r (snd (take_conflicts r))"

lemma registry_step_wf: "registry_step r r' \<Longrightarrow> registry_wf r \<Longrightarrow> registry_wf r'"
  by (induction rule: registry_step.induct)
     (simp_all add: wf_intros remove_by_pid_def remove_by_node_def fold_remove_where)

lemma registry_step_max: "registry_step r r' \<Longrightarrow> max_tombstones r' = max_tombstones r"
proof (induction rule: registry_step.induct)
  case (step_merge to r d)
  then show ?case by simp
next
  case (step_unregister to r name)
  then show ?case by (simp add: registry_unregister_def Let_def split: option.splits)
next
  case (step_remove_pid eo to r pid)
  have "max_tombstones (fold (remove_where_name to P) ns r) = max_tombstones r" for P ns
    by (induction ns arbitrary: r) (simp_all add: remove_where_name_def Let_def split: option.splits)
  then show ?case by (simp add: remove_by_pid_def)
next
  case (step_remove_node eo to r node)
  have "max_tombstones (fold (remove_where_name to P) ns r) = max_tombstones r" for P ns
    by (induction ns arbitrary: r) (simp_all add: remove_where_name_def Let_def split: option.splits)
  then show ?case by (simp add: remove_by_node_def)
qed (simp_all add: registry_register_def expire_tombstones_def take_conflicts_def Let_def)

interpretation rs: transition_invariant registry_step "\<lambda>r. registry_wf r \<and> max_tombstones r = n" for n
  by unfold_locales (auto intro: registry_step_wf simp: registry_step_max)

lemma registry_new_inv: "registry_wf registry_new \<and> max_tombstones registry_new = 4096"
  by (simp, simp add: registry_new_def DEFAULT_MAX_TOMBSTONES_def)

lemma registry_reach: "registry_step\<^sup>*\<^sup>* registry_new r \<Longrightarrow> registry_wf r \<and> max_tombstones r = 4096"
  by (rule rs.reach_inv [OF _ registry_new_inv])

end
