(* ===== verification/Registry_Sync.thy ===== *)
theory Registry_Sync
  imports Crdt Registry
begin

text \<open>
  The registry keeps the contract of a replicated observed-remove set as long as no tombstone is
  evicted and tags are unique; convergence, the absence of resurrection and anti-entropy by full
  sync follow. A received delta comes with the iteration order of the receiver's tombstone map.
\<close>

type_synonym received = "tomb_order \<times> registry_delta"

fun delta_adds :: "registry_delta \<Rightarrow> registry_entry set" where
  "delta_adds (DeltaAdd e) = {e}"
| "delta_adds (DeltaRemove n t) = {}"

fun delta_rems :: "registry_delta \<Rightarrow> u128 set" where
  "delta_rems (DeltaAdd e) = {}"
| "delta_rems (DeltaRemove n t) = {t}"

definition receive :: "received \<Rightarrow> registry \<Rightarrow> registry" where
  "receive ev r = merge_delta (fst ev) (snd ev) r"

text \<open>
  The context of a run: a finite set \<open>K\<close> of tags that are ever removed, which fits under the
  tombstone cap, and the registration each tag was created for.
\<close>

type_synonym sync_context = "u128 set \<times> (u128 \<Rightarrow> registry_entry)"

definition sync_ok :: "sync_context \<Rightarrow> registry \<Rightarrow> bool" where
  "sync_ok c r \<longleftrightarrow> registry_wf r \<and> finite (fst c) \<and> dead_tags r \<subseteq> fst c
     \<and> card (fst c) \<le> max_tombstones r
     \<and> (\<forall>e. e \<in> live r \<longrightarrow> snd c (re_tag e) = e \<and> re_tag e \<notin> dead_tags r)"

definition admissible_delta :: "sync_context \<Rightarrow> registry_delta \<Rightarrow> bool" where
  "admissible_delta c d \<longleftrightarrow> delta_rems d \<subseteq> fst c \<and> (\<forall>e. e \<in> delta_adds d \<longrightarrow> snd c (re_tag e) = e)"

definition admissible_event :: "sync_context \<Rightarrow> received \<Rightarrow> bool" where
  "admissible_event c ev \<longleftrightarrow> hash_order (fst ev) \<and> admissible_delta c (snd ev)"

lemma sync_okD:
  assumes "sync_ok c r"
  shows "registry_wf r" and "finite (fst c)" and "dead_tags r \<subseteq> fst c"
    and "card (fst c) \<le> max_tombstones r"
    and "e \<in> live r \<Longrightarrow> snd c (re_tag e) = e" and "e \<in> live r \<Longrightarrow> re_tag e \<notin> dead_tags r"
  using assms by (auto simp: sync_ok_def)

lemma receive_dead:
  assumes "sync_ok c r" and "admissible_event c ev"
  shows "dead_tags (receive ev r) = dead_tags r \<union> delta_rems (snd ev)"
proof (cases "snd ev")
  case (DeltaAdd e)
  then show ?thesis by (simp add: receive_def)
next
  case (DeltaRemove n t)
  with assms have "insert t (dead_tags r) \<subseteq> fst c"
    by (simp add: sync_ok_def admissible_event_def admissible_delta_def)
  with sync_okD(2,4) [OF assms(1)] have "card (insert t (dead_tags r)) \<le> max_tombstones r"
    by (meson card_mono order_trans)
  with sync_okD(1) [OF assms(1)] DeltaRemove show ?thesis
    using merge_remove_dead [of r t "fst ev" n] by (simp add: receive_def)
qed

lemma receive_live:
  assumes "sync_ok c r" and "admissible_event c ev"
  shows "live (receive ev r) = {e \<in> live r \<union> delta_adds (snd ev). re_tag e \<notin> dead_tags (receive ev r)}"
proof (cases "snd ev")
  case (DeltaAdd e)
  have "e' = e" if "e' \<in> live r" "re_tag e' = re_tag e" for e'
    using that sync_okD(5) [OF assms(1) that(1)] assms(2) DeltaAdd
    by (simp add: admissible_event_def admissible_delta_def)
  then have "add_known e r \<longleftrightarrow> re_tag e \<in> dead_tags r \<or> e \<in> live r"
    by (auto simp: add_known_def)
  with DeltaAdd sync_okD(6) [OF assms(1)] show ?thesis
    by (auto simp: receive_def merge_add_live [OF sync_okD(1) [OF assms(1)]])
next
  case (DeltaRemove n t)
  have "dead_tags (receive ev r) = insert t (dead_tags r)"
    using receive_dead [OF assms] DeltaRemove by simp
  with DeltaRemove sync_okD(6) [OF assms(1)] show ?thesis
    by (auto simp: receive_def merge_remove_live [OF sync_okD(1) [OF assms(1)]] simp del: merge_delta.simps)
qed

lemma receive_ok:
  assumes "sync_ok c r" and "admissible_event c ev"
  shows "sync_ok c (receive ev r)"
proof -
  have "registry_wf (receive ev r)"
    using assms by (simp add: receive_def admissible_event_def sync_ok_def wf_intros)
  moreover have "max_tombstones (receive ev r) = max_tombstones r"
    by (simp add: receive_def)
  ultimately show ?thesis
    using assms unfolding sync_ok_def receive_live [OF assms]
    by (auto simp: receive_dead [OF assms] admissible_event_def admissible_delta_def)
qed

interpretation reg: tagged_crdt live dead_tags re_tag receive
  "\<lambda>ev. delta_adds (snd ev)" "\<lambda>ev. delta_rems (snd ev)" sync_ok admissible_event
  by unfold_locales (rule receive_ok sync_okD(6) receive_live receive_dead; assumption)+

lemma merge_add_conflict:
  assumes wf: "registry_wf r" and new: "\<not> add_known e r"
    and w: "registry_lookup r (re_name e) = Some w"
    and diff: "re_tag w \<noteq> re_tag e" "re_pid w \<noteq> re_pid e"
  shows "merge_delta to (DeltaAdd e) r = r\<lparr>entries := hm_push (re_name e) e (entries r),
     conflicts := conflicts r @ [if lww_key w < lww_key e
        then \<lparr>nc_name = re_name e, nc_winner = e, nc_loser = w\<rparr>
        else \<lparr>nc_name = re_name e, nc_winner = w, nc_loser = e\<rparr>]\<rparr>"
proof -
  have d: "\<not> hm_contains (re_tag e) (tombstones r)"
    using new by (auto simp: add_known_def dead_tags_def hm_contains_def)
  have l: "\<not> list_ex (\<lambda>x. re_tag x = re_tag e)
      (case hm_get (entries r) (re_name e) of None \<Rightarrow> [] | Some es \<Rightarrow> es)"
    using new wf by (auto simp: add_known_def live_name_tag split: option.splits)
  show ?thesis
    using d l w diff lookup_Some(2) [OF wf w]
    by (simp add: merge_delta.simps(1) Let_def lww_cmp_Greater)
qed

lemma lookup_push:
  assumes "registry_lookup r n = Some w"
  shows "registry_lookup (r\<lparr>entries := hm_push n e (entries r), conflicts := cs\<rparr>) n
    = Some (if lww_key e < lww_key w then w else e)"
  using assms by (auto simp: registry_lookup_def max_by_snoc lww_cmp_Greater split: option.splits)

lemma generate_deltas_sets:
  assumes "registry_wf r" and "hash_order eo" and "hash_order to"
  shows "(\<Union>d \<in> set (generate_deltas eo to r). delta_adds d) = live r"
    and "(\<Union>d \<in> set (generate_deltas eo to r). delta_rems d) = dead_tags r"
  using registry_wfD(1,2) [OF assms(1)] assms(2,3)
  by (auto simp: generate_deltas_def live_def dead_tags_def hash_order_set hm_get_Some_iff) blast

lemma generate_deltas_admissible:
  assumes ok: "sync_ok c r" and ord: "hash_order eo" "hash_order to"
    and evs: "map snd evs = generate_deltas eo to r" "list_all (hash_order \<circ> fst) evs"
  shows "\<forall>ev \<in> set evs. admissible_event c ev"
proof
  fix ev
  assume ev: "ev \<in> set evs"
  with evs(1) have "snd ev \<in> set (generate_deltas eo to r)" by (metis image_eqI set_map)
  then have "delta_adds (snd ev) \<subseteq> live r" "delta_rems (snd ev) \<subseteq> dead_tags r"
    using generate_deltas_sets [OF sync_okD(1) [OF ok] ord] by auto
  with sync_okD(3,5) [OF ok] ev evs(2) show "admissible_event c ev"
    by (auto simp: admissible_event_def admissible_delta_def list_all_iff)
qed

section \<open>Properties\<close>

text \<open>
  C1: replicas converge. Two replicas that start with the same live registrations and tombstones
  and receive the same deltas, in any order and any number of times, end with the same live
  registrations and tombstones; if no two live registrations of a name tie, every lookup agrees.
  Tags are unique and no tombstone is evicted (\<open>sync_ok\<close>, \<open>admissible_event\<close>).
\<close>

theorem registry_convergence:
  assumes ok: "sync_ok c r1" "sync_ok c r2"
    and start: "live r1 = live r2" "dead_tags r1 = dead_tags r2"
    and adm: "list_all (admissible_event c) evs1" "list_all (admissible_event c) evs2"
    and same: "set (map snd evs1) = set (map snd evs2)"
  shows "live (fold receive evs1 r1) = live (fold receive evs2 r2)
    \<and> dead_tags (fold receive evs1 r1) = dead_tags (fold receive evs2 r2)
    \<and> (tie_free (live (fold receive evs1 r1)) \<longrightarrow>
        registry_lookup (fold receive evs1 r1) n = registry_lookup (fold receive evs2 r2) n)"
proof -
  have adm': "\<forall>ev \<in> set evs1. admissible_event c ev" "\<forall>ev \<in> set evs2. admissible_event c ev"
    using adm by (simp_all add: list_all_iff)
  have "(\<Union>ev \<in> set evs1. delta_adds (snd ev)) = (\<Union>ev \<in> set evs2. delta_adds (snd ev))"
    "(\<Union>ev \<in> set evs1. delta_rems (snd ev)) = (\<Union>ev \<in> set evs2. delta_rems (snd ev))"
    using arg_cong [OF same, of "\<lambda>D. \<Union> (delta_adds ` D)"] arg_cong [OF same, of "\<lambda>D. \<Union> (delta_rems ` D)"]
    by simp_all
  with start have conv: "live (fold receive evs1 r1) = live (fold receive evs2 r2)"
    "dead_tags (fold receive evs1 r1) = dead_tags (fold receive evs2 r2)"
    using reg.run_converges [OF ok adm'] by simp_all
  moreover have "registry_wf (fold receive evs1 r1)" "registry_wf (fold receive evs2 r2)"
    using reg.run_ok [OF ok(1) adm'(1)] reg.run_ok [OF ok(2) adm'(2)] by (simp_all add: sync_ok_def)
  ultimately show ?thesis by (blast intro: lookup_determined)
qed

definition entry_a :: registry_entry where
  "entry_a = \<lparr>re_name = ''db'', re_pid = process_id_new 1 1, re_tag = 10, re_timestamp = 5, re_node_id = 1\<rparr>"

definition entry_b :: registry_entry where
  "entry_b = \<lparr>re_name = ''db'', re_pid = process_id_new 1 2, re_tag = 11, re_timestamp = 5, re_node_id = 1\<rparr>"

definition entry_c :: registry_entry where
  "entry_c = \<lparr>re_name = ''db'', re_pid = process_id_new 2 1, re_tag = 12, re_timestamp = 9, re_node_id = 2\<rparr>"

definition example_context :: sync_context where
  "example_context = ({10, 12}, \<lambda>t. if t = 10 then entry_a else if t = 11 then entry_b else entry_c)"

lemma example_ok: "sync_ok example_context registry_new"
  by (simp add: sync_ok_def example_context_def)
     (simp add: registry_new_def DEFAULT_MAX_TOMBSTONES_def)

lemma example_admissible:
  "admissible_event example_context (\<lambda>m. m, DeltaAdd entry_a)"
  "admissible_event example_context (rev, DeltaAdd entry_c)"
  "admissible_event example_context (rev, DeltaRemove [] 10)"
  by (simp_all add: admissible_event_def admissible_delta_def example_context_def entry_a_def entry_c_def)

lemma entry_c_tag: "re_tag entry_c = 12"
  by (simp add: entry_c_def)

lemmas example_defs = entry_a_def entry_b_def entry_c_def registry_new_def

theorem registry_convergence_witness:
  "live (fold receive [(\<lambda>m. m, DeltaAdd entry_a), (rev, DeltaRemove [] 10), (rev, DeltaAdd entry_c)] registry_new)
   = live (fold receive [(rev, DeltaAdd entry_c), (rev, DeltaRemove [] 10), (\<lambda>m. m, DeltaAdd entry_a),
       (\<lambda>m. m, DeltaAdd entry_a)] registry_new)"
  by (rule registry_convergence [OF example_ok example_ok, THEN conjunct1])
     (auto simp: example_admissible)





text \<open>
  \<open>lookup\<close> is last-writer-wins: in every registry reached by the operations, it returns
  nothing exactly when no live registration has the name, and otherwise a live registration of the
  name that no other one beats on timestamp, then node id.
\<close>

theorem registry_lookup_correct:
  assumes "registry_step\<^sup>*\<^sup>* registry_new r"
  shows "(registry_lookup r n = None \<longleftrightarrow> (\<forall>e. e \<in> live r \<longrightarrow> re_name e \<noteq> n))
    \<and> (\<forall>e. registry_lookup r n = Some e \<longrightarrow> e \<in> live r \<and> re_name e = n
         \<and> (\<forall>e'. e' \<in> live r \<longrightarrow> re_name e' = n \<longrightarrow> lww_cmp e' e \<noteq> Greater))"
  using registry_reach [OF assms, THEN conjunct1] by (simp add: lookup_None_iff lww_cmp_Greater not_less lookup_Some)

theorem registry_lookup_correct_witness:
  "registry_lookup (snd (registry_register 1 ''db'' (process_id_new 1 1) 1 5 registry_new)) ''web'' = None
   \<longleftrightarrow> (\<forall>e. e \<in> live (snd (registry_register 1 ''db'' (process_id_new 1 1) 1 5 registry_new))
          \<longrightarrow> re_name e \<noteq> ''web'')"
  by (rule registry_lookup_correct [THEN conjunct1]) (rule r_into_rtranclp, rule step_register)

text \<open>
  C38: every registry reached by the operations keeps its invariant: at most 4096 tombstones, no
  name with an empty list of registrations, and every registration stored under its own name.
\<close>

theorem registry_reachable_wf:
  assumes "registry_step\<^sup>*\<^sup>* registry_new r"
  shows "tombstone_count r \<le> 4096
    \<and> (\<forall>n es. hm_get (entries r) n = Some es \<longrightarrow> es \<noteq> [] \<and> (\<forall>e \<in> set es. re_name e = n))"
  using registry_reach [OF assms] by (auto simp: registry_wf_def tombstone_count_def)

theorem registry_reachable_wf_witness:
  "tombstone_count (merge_delta rev (DeltaRemove ''db'' 7) registry_new) \<le> 4096"
  by (rule registry_reachable_wf [THEN conjunct1]) (rule r_into_rtranclp, rule step_merge, simp)

text \<open>
  \<open>remove_by_node\<close> and \<open>remove_by_pid\<close> remove exactly the registrations of that node or
  process, and \<open>unregister\<close> exactly those of the name, whatever the iteration orders.
\<close>

theorem registry_removals_exact:
  assumes "registry_wf r" and "hash_order eo" and "hash_order to"
  shows "live (remove_by_node eo to node r) = {e \<in> live r. re_node_id e \<noteq> node}
    \<and> live (remove_by_pid eo to pid r) = {e \<in> live r. re_pid e \<noteq> pid}
    \<and> live (snd (registry_unregister to name r)) = {e \<in> live r. re_name e \<noteq> name}"
  using remove_all_where_live [OF assms] unregister_live [OF assms(1)]
  by (simp add: remove_by_node_def remove_by_pid_def)

theorem registry_removals_exact_witness:
  "live (remove_by_node rev rev 2 (snd (registry_register 1 ''db'' (process_id_new 1 1) 2 5 registry_new)))
   = {e \<in> live (snd (registry_register 1 ''db'' (process_id_new 1 1) 2 5 registry_new)). re_node_id e \<noteq> 2}"
  by (rule registry_removals_exact [THEN conjunct1]) (simp_all add: wf_intros)

text \<open>
  The recorded conflict names the registration that \<open>lookup\<close> resolves to exactly when the
  two registrations do not tie on timestamp and node id. On a tie the record names the earlier
  registration as the winner while \<open>lookup\<close> returns the later one.
\<close>

theorem registry_conflict_winner:
  assumes "registry_wf r" and "\<not> add_known e r" and "registry_lookup r (re_name e) = Some w"
    and "re_tag w \<noteq> re_tag e" and "re_pid w \<noteq> re_pid e"
  shows "(registry_lookup (merge_delta to (DeltaAdd e) r) (re_name e)
      = Some (nc_winner (last (conflicts (merge_delta to (DeltaAdd e) r)))))
    \<longleftrightarrow> \<not> (re_timestamp e = re_timestamp w \<and> re_node_id e = re_node_id w)"
proof -
  have "w \<noteq> e" using assms(4) by blast
  then show ?thesis
    unfolding merge_add_conflict [OF assms] lookup_push [OF assms(3)]
    by (auto simp: lww_key_def less_prod_simp)
qed

lemma tie_registry:
  "registry_wf (receive (rev, DeltaAdd entry_a) registry_new)"
  "\<not> add_known entry_b (receive (rev, DeltaAdd entry_a) registry_new)"
  "registry_lookup (receive (rev, DeltaAdd entry_a) registry_new) ''db'' = Some entry_a"
proof -
  let ?r = "receive (rev, DeltaAdd entry_a) registry_new"
  show "registry_wf ?r" by (simp add: receive_def wf_intros)
  have r: "?r = registry_new\<lparr>entries := [(''db'', [entry_a])]\<rparr>"
    by (simp add: receive_def merge_delta.simps(1) example_defs registry_lookup_def
        hm_contains_def hm_push_def hm_insert_def)
  show "registry_lookup ?r ''db'' = Some entry_a"
    unfolding r by (simp add: registry_lookup_def hm_get_def max_by_def)
  show "\<not> add_known entry_b ?r"
    unfolding r by (auto simp: add_known_def live_def dead_tags_def hm_get_def example_defs split: if_splits)
qed

theorem registry_conflict_winner_witness:
  "\<not> (registry_lookup (merge_delta rev (DeltaAdd entry_b) (receive (rev, DeltaAdd entry_a) registry_new)) ''db''
      = Some (nc_winner (last (conflicts
          (merge_delta rev (DeltaAdd entry_b) (receive (rev, DeltaAdd entry_a) registry_new))))))"
  using registry_conflict_winner [OF tie_registry(1,2), of entry_a rev] tie_registry(3)
  by (simp add: entry_a_def entry_b_def)

text \<open>
  With a tie, the order of delivery decides the lookup: two replicas that received the same two
  additions hold the same registrations and resolve the name to different processes.
\<close>

theorem registry_tie_diverges:
  "let r1 = fold receive [(rev, DeltaAdd entry_a), (rev, DeltaAdd entry_b)] registry_new;
       r2 = fold receive [(rev, DeltaAdd entry_b), (rev, DeltaAdd entry_a)] registry_new
   in live r1 = {entry_a, entry_b} \<and> live r2 = live r1
      \<and> map_option re_pid (registry_lookup r1 ''db'') = Some (process_id_new 1 2)
      \<and> map_option re_pid (registry_lookup r2 ''db'') = Some (process_id_new 1 1)"
proof -
  let ?r1 = "fold receive [(rev, DeltaAdd entry_a), (rev, DeltaAdd entry_b)] registry_new"
  let ?r2 = "fold receive [(rev, DeltaAdd entry_b), (rev, DeltaAdd entry_a)] registry_new"
  have "entries ?r1 = [(''db'', [entry_a, entry_b])]" "entries ?r2 = [(''db'', [entry_b, entry_a])]"
    by (simp_all add: receive_def merge_delta.simps(1) example_defs registry_lookup_def
        hm_contains_def hm_push_def hm_insert_def hm_get_def max_by_def Let_def lww_cmp_def)
  then show ?thesis
    by (auto simp: Let_def live_def registry_lookup_def hm_get_def max_by_def lww_cmp_def ord_cmp_def
        entry_a_def entry_b_def split: if_splits)
qed

text \<open>
  \<open>registered\<close> lists every registered name once, in order, with the process that \<open>lookup\<close>
  resolves it to; the result does not depend on the iteration order of the map.
\<close>

theorem registry_registered_correct:
  assumes "registry_wf r" and "hash_order eo"
  shows "sorted (map fst (registry_registered eo r)) \<and> distinct (map fst (registry_registered eo r))
    \<and> (\<forall>n p. (n, p) \<in> set (registry_registered eo r)
         \<longleftrightarrow> (\<exists>e. registry_lookup r n = Some e \<and> re_pid e = p))"
  using registered_keys [OF assms] registered_mem [OF assms] by blast

theorem registry_registered_correct_witness:
  "sorted (map fst (registry_registered rev (receive (rev, DeltaAdd entry_a) registry_new)))"
  by (rule registry_registered_correct [THEN conjunct1]) (simp_all add: tie_registry(1))

end
