(* ===== verification/Dispatcher.thy ===== *)
theory Dispatcher
  imports Prelude
begin

text \<open>
  The dispatchers of GenStage (\<^verbatim>\<open>crates/rebar-core/src/gen_stage/dispatcher.rs\<close>). An event is a value
  of type \<open>'e\<close>. The locale \<open>dispatcher\<close> is the contract of the \<open>Dispatcher\<close> trait on which the engine
  relies; both dispatchers satisfy it.
\<close>

section \<open>Dispatchers\<close>

type_synonym subscription_tag = u64

record consumer_demand =
  cd_tag :: subscription_tag
  pending_demand :: usize

definition consumer_demand_new :: "subscription_tag \<Rightarrow> consumer_demand" where
  "consumer_demand_new tag = \<lparr>cd_tag = tag, pending_demand = 0\<rparr>"

record 'e dispatch_result =
  deliveries :: "(subscription_tag \<times> 'e list) list"
  leftover :: "'e list"

text \<open>The loop of \<open>DemandDispatcher::dispatch\<close> over the subscribers.\<close>

fun demand_loop ::
  "consumer_demand list \<Rightarrow> 'e list \<Rightarrow> (subscription_tag \<times> 'e list) list \<times> 'e list \<times> consumer_demand list" where
  "demand_loop [] remaining = ([], remaining, [])"
| "demand_loop (sub # subs) remaining =
     (if remaining = [] then ([], remaining, sub # subs)
      else if pending_demand sub = 0
      then let (ds, rest, subs') = demand_loop subs remaining in (ds, rest, sub # subs')
      else
        let n = min (length remaining) (pending_demand sub);
            batch = take n remaining;
            sub' = sub\<lparr>pending_demand := pending_demand sub - length batch\<rparr>;
            (ds, rest, subs') = demand_loop subs (drop n remaining) in
        ((cd_tag sub, batch) # ds, rest, sub' # subs'))"

definition demand_dispatch ::
  "'e list \<Rightarrow> consumer_demand list \<Rightarrow> 'e dispatch_result \<times> consumer_demand list" where
  "demand_dispatch events subs =
     (let (ds, rest, subs') = demand_loop subs events in (\<lparr>deliveries = ds, leftover = rest\<rparr>, subs'))"

definition broadcast_dispatch ::
  "'e list \<Rightarrow> consumer_demand list \<Rightarrow> 'e dispatch_result \<times> consumer_demand list" where
  "broadcast_dispatch events subs =
     (if events = [] \<or> subs = [] then (\<lparr>deliveries = [], leftover = events\<rparr>, subs)
      else
        let min_demand = Min (set (map pending_demand subs)) in
        if min_demand = 0 then (\<lparr>deliveries = [], leftover = events\<rparr>, subs)
        else
          let n = min (length events) min_demand;
              batch = take n events in
          (\<lparr>deliveries = map (\<lambda>sub. (cd_tag sub, batch)) subs, leftover = drop n events\<rparr>,
           map (\<lambda>sub. sub\<lparr>pending_demand := pending_demand sub - length batch\<rparr>) subs))"

section \<open>The contract\<close>

text \<open>How many events a result delivers to a subscriber.\<close>

definition delivered_to :: "subscription_tag \<Rightarrow> (subscription_tag \<times> 'e list) list \<Rightarrow> nat" where
  "delivered_to tag ds = sum_list (map (length \<circ> snd) (filter (\<lambda>(t, _). t = tag) ds))"

definition demand_of :: "subscription_tag \<Rightarrow> consumer_demand list \<Rightarrow> nat" where
  "demand_of tag subs = sum_list (map pending_demand (filter (\<lambda>s. cd_tag s = tag) subs))"

locale dispatcher =
  fixes dispatch :: "'e list \<Rightarrow> consumer_demand list \<Rightarrow> 'e dispatch_result \<times> consumer_demand list"
  assumes tags_kept: "dispatch es subs = (r, subs') \<Longrightarrow> map cd_tag subs' = map cd_tag subs"
    and demand_charged: "dispatch es subs = (r, subs') \<Longrightarrow>
      demand_of tag subs' + delivered_to tag (deliveries r) = demand_of tag subs"
    and leftover_suffix: "dispatch es subs = (r, subs') \<Longrightarrow>
      \<exists>k. leftover r = drop k es \<and> (\<forall>(t, b) \<in> set (deliveries r). t \<in> cd_tag ` set subs \<and> set b \<subseteq> set (take k es))"
begin

lemma never_overrun: "dispatch es subs = (r, subs') \<Longrightarrow> delivered_to tag (deliveries r) \<le> demand_of tag subs"
  using demand_charged [of es subs r subs' tag] by simp

lemma nothing_invented:
  assumes "dispatch es subs = (r, subs')"
  shows "set (leftover r) \<union> \<Union> (set ` snd ` set (deliveries r)) \<subseteq> set es"
proof -
  from leftover_suffix [OF assms] obtain k where "leftover r = drop k es"
      "\<forall>(t, b) \<in> set (deliveries r). set b \<subseteq> set (take k es)" by fastforce
  then show ?thesis by (fastforce dest: in_set_dropD in_set_takeD)
qed

end

section \<open>The demand dispatcher\<close>

lemma delivered_to_simps [simp]:
  "delivered_to tag [] = 0"
  "delivered_to tag ((t, b) # ds) = (if t = tag then length b else 0) + delivered_to tag ds"
  by (simp_all add: delivered_to_def)

lemma demand_of_simps [simp]:
  "demand_of tag [] = 0"
  "demand_of tag (s # subs) = (if cd_tag s = tag then pending_demand s else 0) + demand_of tag subs"
  by (simp_all add: demand_of_def)

lemma demand_loop_tags: "demand_loop subs es = (ds, rest, subs') \<Longrightarrow> map cd_tag subs' = map cd_tag subs"
  by (induction subs es arbitrary: ds rest subs' rule: demand_loop.induct)
     (auto simp: Let_def split: if_splits prod.splits)

lemma demand_loop_charged:
  "demand_loop subs es = (ds, rest, subs') \<Longrightarrow> demand_of tag subs' + delivered_to tag ds = demand_of tag subs"
  by (induction subs es arbitrary: ds rest subs' rule: demand_loop.induct)
     (fastforce simp: Let_def split: if_splits prod.splits)+

lemma demand_loop_order:
  "demand_loop subs es = (ds, rest, subs') \<Longrightarrow> concat (map snd ds) @ rest = es"
proof (induction subs es arbitrary: ds rest subs' rule: demand_loop.induct)
  case (2 sub subs remaining)
  show ?case
  proof (cases "remaining = [] \<or> pending_demand sub = 0")
    case True
    with 2 show ?thesis by (auto simp: Let_def split: prod.splits if_splits)
  next
    case False
    let ?n = "min (length remaining) (pending_demand sub)"
    obtain ds' rest' ss where r: "demand_loop subs (drop ?n remaining) = (ds', rest', ss)"
      by (cases "demand_loop subs (drop ?n remaining)") auto
    have "concat (map snd ds') @ rest' = drop ?n remaining"
      by (rule "2.IH"(2)) (use False r in auto)
    then have "take ?n remaining @ concat (map snd ds') @ rest' = remaining" by simp
    with "2.prems" False r show ?thesis by (auto simp: Let_def)
  qed
qed simp

lemma demand_loop_targets:
  "demand_loop subs es = (ds, rest, subs') \<Longrightarrow> (t, b) \<in> set ds \<Longrightarrow> t \<in> cd_tag ` set subs"
  by (induction subs es arbitrary: ds rest subs' rule: demand_loop.induct)
     (fastforce simp: Let_def split: if_splits prod.splits)+

lemma demand_loop_leftover:
  "demand_loop subs es = (ds, rest, subs') \<Longrightarrow> rest \<noteq> [] \<Longrightarrow> \<forall>s \<in> set subs'. pending_demand s = 0"
proof (induction subs es arbitrary: ds rest subs' rule: demand_loop.induct)
  case (2 sub subs remaining)
  show ?case
  proof (cases "pending_demand sub = 0")
    case True
    with 2 show ?thesis by (auto simp: Let_def split: prod.splits if_splits)
  next
    case False
    have ne: "remaining \<noteq> []" using "2.prems" by auto
    let ?n = "min (length remaining) (pending_demand sub)"
    obtain ds' ss where r: "demand_loop subs (drop ?n remaining) = (ds', rest, ss)"
      and s: "subs' = sub\<lparr>pending_demand := pending_demand sub - ?n\<rparr> # ss"
      using "2.prems"(1) False ne by (auto simp: Let_def split: prod.splits)
    have "drop ?n remaining \<noteq> []"
      using demand_loop_order [OF r] "2.prems"(2) by auto
    then have "pending_demand sub \<le> length remaining" by (simp add: min_def split: if_splits)
    then have "pending_demand sub - ?n = 0" by simp
    moreover have "\<forall>s \<in> set ss. pending_demand s = 0"
      using "2.IH"(2) [OF ne False refl refl refl r "2.prems"(2)] .
    ultimately show ?thesis using s by simp
  qed
qed simp

interpretation demand: dispatcher demand_dispatch
proof
  fix es :: "'e list" and subs r subs' tag
  assume d: "demand_dispatch es subs = (r, subs')"
  then have l: "demand_loop subs es = (deliveries r, leftover r, subs')"
    by (auto simp: demand_dispatch_def split: prod.splits)
  show "map cd_tag subs' = map cd_tag subs" by (rule demand_loop_tags [OF l])
  show "demand_of tag subs' + delivered_to tag (deliveries r) = demand_of tag subs"
    by (rule demand_loop_charged [OF l])
  have o: "concat (map snd (deliveries r)) @ leftover r = es" by (rule demand_loop_order [OF l])
  let ?k = "length (concat (map snd (deliveries r)))"
  have "leftover r = drop ?k es" "take ?k es = concat (map snd (deliveries r))"
    using o by (metis append_eq_conv_conj)+
  then show "\<exists>k. leftover r = drop k es \<and> (\<forall>(t, b) \<in> set (deliveries r). t \<in> cd_tag ` set subs \<and> set b \<subseteq> set (take k es))"
    using demand_loop_targets [OF l] by (intro exI [of _ ?k]) force
qed

section \<open>The broadcast dispatcher\<close>

lemma broadcast_cases:
  assumes "broadcast_dispatch es subs = (r, subs')"
  obtains (idle) "deliveries r = []" and "leftover r = es" and "subs' = subs"
      and "es = [] \<or> subs = [] \<or> (\<exists>s \<in> set subs. pending_demand s = 0)"
    | (busy) n where "0 < n" and "n \<le> length es" and "\<forall>s \<in> set subs. n \<le> pending_demand s"
      and "n = length es \<or> (\<exists>s \<in> set subs. n = pending_demand s)"
      and "deliveries r = map (\<lambda>s. (cd_tag s, take n es)) subs" and "leftover r = drop n es"
      and "subs' = map (\<lambda>s. s\<lparr>pending_demand := pending_demand s - n\<rparr>) subs" and "subs \<noteq> []"
proof (cases "es = [] \<or> subs = []")
  case True
  with assms idle show ?thesis by (auto simp: broadcast_dispatch_def)
next
  case False
  define k where "k = Min (set (map pending_demand subs))"
  have min: "k \<in> pending_demand ` set subs"
    using False unfolding k_def by (metis Min_in finite_set list.set_map list.map_disc_iff set_empty)
  have le: "k \<le> pending_demand s" if "s \<in> set subs" for s using that unfolding k_def by simp
  have unf: "broadcast_dispatch es subs =
      (if k = 0 then (\<lparr>deliveries = [], leftover = es\<rparr>, subs)
       else (\<lparr>deliveries = map (\<lambda>s. (cd_tag s, take (min (length es) k) es)) subs, leftover = drop (min (length es) k) es\<rparr>,
             map (\<lambda>s. s\<lparr>pending_demand := pending_demand s - min (length es) k\<rparr>) subs))"
    using False unfolding broadcast_dispatch_def k_def [symmetric] Let_def by simp
  show ?thesis
  proof (cases "k = 0")
    case True
    then obtain s where s: "s \<in> set subs" "pending_demand s = 0" using min by force
    show ?thesis
      by (rule idle) (use assms unf True s in auto)
  next
    case k: False
    define n where "n = min (length es) k"
    have "0 < n" "n \<le> length es" using False k unfolding n_def by simp_all
    moreover have "\<forall>s \<in> set subs. n \<le> pending_demand s"
      using le unfolding n_def by (meson min.coboundedI2)
    moreover have "n = length es \<or> (\<exists>s \<in> set subs. n = pending_demand s)"
      using min unfolding n_def min_def by auto
    ultimately show ?thesis
      using assms unf False k unfolding n_def [symmetric] by (intro busy) auto
  qed
qed

lemma demand_of_reduce:
  "\<forall>s \<in> set subs. n \<le> pending_demand s \<Longrightarrow>
     demand_of tag (map (\<lambda>s. s\<lparr>pending_demand := pending_demand s - n\<rparr>) subs)
       + delivered_to tag (map (\<lambda>s. (cd_tag s, take n es)) subs) = demand_of tag subs"
  if "n \<le> length es"
  using that by (induction subs) auto

interpretation bcast: dispatcher broadcast_dispatch
proof
  fix es :: "'e list" and subs r subs' tag
  assume d: "broadcast_dispatch es subs = (r, subs')"
  show "map cd_tag subs' = map cd_tag subs"
    using d by (cases rule: broadcast_cases) auto
  show "demand_of tag subs' + delivered_to tag (deliveries r) = demand_of tag subs"
    using d by (cases rule: broadcast_cases) (simp_all add: demand_of_reduce)
  show "\<exists>k. leftover r = drop k es \<and> (\<forall>(t, b) \<in> set (deliveries r). t \<in> cd_tag ` set subs \<and> set b \<subseteq> set (take k es))"
    using d
  proof (cases rule: broadcast_cases)
    case idle
    then show ?thesis by (intro exI [of _ 0]) simp
  next
    case (busy n)
    then show ?thesis by (intro exI [of _ n]) auto
  qed
qed

end
