(* ===== verification/Mailbox.thy ===== *)
theory Mailbox
  imports Process
begin

text \<open>
  Mailboxes (\<^verbatim>\<open>crates/rebar-core/src/process/mailbox.rs\<close>). The channels are \<open>tokio::sync::mpsc\<close>,
  outside the repository: their operations are the fields of a record \<open>mpsc\<close>, an argument of every
  definition, and \<open>mpsc_ok\<close> states their documented behaviour in terms of what a channel holds,
  its capacity and whether its receiver still exists.
\<close>

section \<open>Channels\<close>

datatype try_send_error = Full | Closed

record ('m, 'c) mpsc =
  unbounded_channel :: 'c
  bounded_channel :: "usize \<Rightarrow> 'c"
  unbounded_send :: "'m \<Rightarrow> 'c \<Rightarrow> (unit + unit) \<times> 'c"
  try_send :: "'m \<Rightarrow> 'c \<Rightarrow> (try_send_error + unit) \<times> 'c"
  channel_try_recv :: "'c \<Rightarrow> 'm option \<times> 'c"
  queued :: "'c \<Rightarrow> 'm list"
  capacity :: "'c \<Rightarrow> usize option"
  receiver_alive :: "'c \<Rightarrow> bool"

definition mpsc_ok :: "('m, 'c) mpsc \<Rightarrow> bool" where
  "mpsc_ok M \<longleftrightarrow>
     (\<forall>m c. fst (unbounded_send M m c) = (if receiver_alive M c then Inr () else Inl ()))
   \<and> (\<forall>m c. queued M (snd (unbounded_send M m c)) =
        (if receiver_alive M c then queued M c @ [m] else queued M c))
   \<and> (\<forall>m c. fst (try_send M m c) =
        (if \<not> receiver_alive M c then Inl Closed
         else case capacity M c of
                Some k \<Rightarrow> if k \<le> length (queued M c) then Inl Full else Inr ()
              | None \<Rightarrow> Inr ()))
   \<and> (\<forall>m c. queued M (snd (try_send M m c)) =
        (case fst (try_send M m c) of Inr _ \<Rightarrow> queued M c @ [m] | Inl _ \<Rightarrow> queued M c))
   \<and> (\<forall>c. fst (channel_try_recv M c) = (case queued M c of [] \<Rightarrow> None | m # _ \<Rightarrow> Some m)
        \<and> queued M (snd (channel_try_recv M c)) = tl (queued M c))
   \<and> (\<forall>m c. capacity M (snd (unbounded_send M m c)) = capacity M c
        \<and> capacity M (snd (try_send M m c)) = capacity M c
        \<and> capacity M (snd (channel_try_recv M c)) = capacity M c)
   \<and> (\<forall>m c. receiver_alive M (snd (unbounded_send M m c)) = receiver_alive M c
        \<and> receiver_alive M (snd (try_send M m c)) = receiver_alive M c
        \<and> receiver_alive M (snd (channel_try_recv M c)) = receiver_alive M c)
   \<and> queued M (unbounded_channel M) = [] \<and> receiver_alive M (unbounded_channel M)
   \<and> (\<forall>k. queued M (bounded_channel M k) = [] \<and> receiver_alive M (bounded_channel M k)
        \<and> capacity M (bounded_channel M k) = Some k)"

section \<open>Mailboxes\<close>

datatype 'c mailbox = Unbounded 'c | Bounded 'c

fun mailbox_channel :: "'c mailbox \<Rightarrow> 'c" where
  "mailbox_channel (Unbounded c) = c"
| "mailbox_channel (Bounded c) = c"

definition mailbox_unbounded :: "('v message, 'c) mpsc \<Rightarrow> 'c mailbox" where
  "mailbox_unbounded M = Unbounded (unbounded_channel M)"

text \<open>A channel of capacity zero is a panic (\<open>None\<close>).\<close>

definition mailbox_bounded :: "('v message, 'c) mpsc \<Rightarrow> usize \<Rightarrow> 'c mailbox option" where
  "mailbox_bounded M k = (if k = 0 then None else Some (Bounded (bounded_channel M k)))"

fun mailbox_send :: "('v message, 'c) mpsc \<Rightarrow> 'v message \<Rightarrow> 'c mailbox \<Rightarrow> (send_error + unit) \<times> 'c mailbox" where
  "mailbox_send M msg (Unbounded c) =
     (let (r, c') = unbounded_send M msg c in
      (case r of Inl _ \<Rightarrow> Inl (ProcessDead (msg_from msg)) | Inr _ \<Rightarrow> Inr (), Unbounded c'))"
| "mailbox_send M msg (Bounded c) =
     (let (r, c') = try_send M msg c in
      (case r of Inl Full \<Rightarrow> Inl (MailboxFull (msg_from msg))
       | Inl Closed \<Rightarrow> Inl (ProcessDead (msg_from msg)) | Inr _ \<Rightarrow> Inr (), Bounded c'))"

fun mailbox_try_send :: "('v message, 'c) mpsc \<Rightarrow> 'v message \<Rightarrow> 'c mailbox \<Rightarrow> (send_error + unit) \<times> 'c mailbox" where
  "mailbox_try_send M msg (Unbounded c) =
     (let (r, c') = unbounded_send M msg c in
      (case r of Inl _ \<Rightarrow> Inl (ProcessDead (msg_from msg)) | Inr _ \<Rightarrow> Inr (), Unbounded c'))"
| "mailbox_try_send M msg (Bounded c) =
     (let (r, c') = try_send M msg c in
      (case r of Inl Full \<Rightarrow> Inl (MailboxFull (msg_from msg))
       | Inl Closed \<Rightarrow> Inl (ProcessDead (msg_from msg)) | Inr _ \<Rightarrow> Inr (), Bounded c'))"

fun mailbox_try_recv :: "('v message, 'c) mpsc \<Rightarrow> 'c mailbox \<Rightarrow> 'v message option \<times> 'c mailbox" where
  "mailbox_try_recv M (Unbounded c) = (let (r, c') = channel_try_recv M c in (r, Unbounded c'))"
| "mailbox_try_recv M (Bounded c) = (let (r, c') = channel_try_recv M c in (r, Bounded c'))"

text \<open>
  The asynchronous receives, one poll at a time: \<open>None\<close> while the future is pending. \<open>gone\<close>: every sender was dropped.
  \<open>timeout\<close> polls the receive first and then its deadline, \<open>elapsed\<close> after the call.
\<close>

fun mailbox_recv :: "('v message, 'c) mpsc \<Rightarrow> bool \<Rightarrow> 'c mailbox \<Rightarrow> 'v message option option \<times> 'c mailbox" where
  "mailbox_recv M gone (Unbounded c) =
     (case channel_try_recv M c of
        (Some m, c') \<Rightarrow> (Some (Some m), Unbounded c')
      | (None, c') \<Rightarrow> (if gone then Some None else None, Unbounded c'))"
| "mailbox_recv M gone (Bounded c) =
     (case channel_try_recv M c of
        (Some m, c') \<Rightarrow> (Some (Some m), Bounded c')
      | (None, c') \<Rightarrow> (if gone then Some None else None, Bounded c'))"

definition mailbox_recv_timeout ::
  "('v message, 'c) mpsc \<Rightarrow> duration \<Rightarrow> duration \<Rightarrow> bool \<Rightarrow> 'c mailbox \<Rightarrow> 'v message option option \<times> 'c mailbox" where
  "mailbox_recv_timeout M dur elapsed gone mb =
     (case mailbox_recv M gone mb of
        (Some r, mb') \<Rightarrow> (Some r, mb')
      | (None, mb') \<Rightarrow> (if dur \<le> elapsed then Some None else None, mb'))"

section \<open>Mailboxes as queues\<close>

definition mb_queue :: "('v message, 'c) mpsc \<Rightarrow> 'c mailbox \<Rightarrow> 'v message list" where
  "mb_queue M mb = queued M (mailbox_channel mb)"

definition mb_open :: "('v message, 'c) mpsc \<Rightarrow> 'c mailbox \<Rightarrow> bool" where
  "mb_open M mb = receiver_alive M (mailbox_channel mb)"

definition mb_full :: "('v message, 'c) mpsc \<Rightarrow> 'c mailbox \<Rightarrow> bool" where
  "mb_full M mb =
     (case mb of Unbounded _ \<Rightarrow> False
      | Bounded c \<Rightarrow> (case capacity M c of None \<Rightarrow> False | Some k \<Rightarrow> k \<le> length (queued M c)))"

lemma mpsc_okD:
  assumes "mpsc_ok M"
  shows "fst (unbounded_send M m c) = (if receiver_alive M c then Inr () else Inl ())"
    and "queued M (snd (unbounded_send M m c)) = (if receiver_alive M c then queued M c @ [m] else queued M c)"
    and "receiver_alive M (snd (unbounded_send M m c)) = receiver_alive M c"
    and "fst (try_send M m c) = (if \<not> receiver_alive M c then Inl Closed else case capacity M c of
      Some k \<Rightarrow> if k \<le> length (queued M c) then Inl Full else Inr () | None \<Rightarrow> Inr ())"
    and "queued M (snd (try_send M m c)) =
      (case fst (try_send M m c) of Inr _ \<Rightarrow> queued M c @ [m] | Inl _ \<Rightarrow> queued M c)"
    and "receiver_alive M (snd (try_send M m c)) = receiver_alive M c"
  using assms by (simp_all add: mpsc_ok_def)

text \<open>What a sender may rely on: the outcome of a send, and the queue after it.\<close>

lemma mailbox_send_spec:
  assumes "mpsc_ok M"
  shows "fst (mailbox_send M msg mb) =
      (if \<not> mb_open M mb then Inl (ProcessDead (msg_from msg))
       else if mb_full M mb then Inl (MailboxFull (msg_from msg)) else Inr ())"
    and "mb_queue M (snd (mailbox_send M msg mb)) =
      (if mb_open M mb \<and> \<not> mb_full M mb then mb_queue M mb @ [msg] else mb_queue M mb)"
    and "mb_open M (snd (mailbox_send M msg mb)) = mb_open M mb"
  using assms
  by (cases mb; simp add: case_prod_beta Let_def mb_open_def mb_full_def mb_queue_def mpsc_okD split: option.split)+

lemma mailbox_send_kind:
  "(\<exists>c'. snd (mailbox_send M msg (Unbounded c)) = Unbounded c')"
  by (simp add: case_prod_beta Let_def)

section \<open>A concrete channel\<close>

text \<open>A queue with an optional capacity and a flag for the receiver, an instance of \<open>mpsc_ok\<close>.\<close>

record 'm chan =
  ch_queue :: "'m list"
  ch_capacity :: "usize option"
  ch_open :: bool

definition list_mpsc :: "('m, 'm chan) mpsc" where
  "list_mpsc = \<lparr>
     unbounded_channel = \<lparr>ch_queue = [], ch_capacity = None, ch_open = True\<rparr>,
     bounded_channel = (\<lambda>k. \<lparr>ch_queue = [], ch_capacity = Some k, ch_open = True\<rparr>),
     unbounded_send = (\<lambda>m c. if ch_open c then (Inr (), c\<lparr>ch_queue := ch_queue c @ [m]\<rparr>) else (Inl (), c)),
     try_send = (\<lambda>m c. if \<not> ch_open c then (Inl Closed, c)
        else if (case ch_capacity c of Some k \<Rightarrow> k \<le> length (ch_queue c) | None \<Rightarrow> False) then (Inl Full, c)
        else (Inr (), c\<lparr>ch_queue := ch_queue c @ [m]\<rparr>)),
     channel_try_recv = (\<lambda>c. case ch_queue c of [] \<Rightarrow> (None, c) | m # ms \<Rightarrow> (Some m, c\<lparr>ch_queue := ms\<rparr>)),
     queued = ch_queue, capacity = ch_capacity, receiver_alive = ch_open\<rparr>"

lemma list_mpsc_ok [simp]: "mpsc_ok list_mpsc"
  by (simp add: mpsc_ok_def list_mpsc_def split: option.splits list.splits)

section \<open>Every message is received once and in order\<close>

lemma mailbox_send_full:
  assumes "mpsc_ok M"
  shows "capacity M (mailbox_channel (snd (mailbox_send M msg mb))) = capacity M (mailbox_channel mb)"
    and "(\<exists>c. snd (mailbox_send M msg mb) = Bounded c) \<longleftrightarrow> (\<exists>c. mb = Bounded c)"
  using assms by (cases mb; simp add: case_prod_beta Let_def mpsc_ok_def)+

lemma mailbox_try_send_eq: "mailbox_try_send M msg mb = mailbox_send M msg mb"
  by (cases mb) simp_all

lemma mailbox_try_recv_spec:
  assumes "mpsc_ok M"
  shows "fst (mailbox_try_recv M mb) = (case mb_queue M mb of [] \<Rightarrow> None | m # _ \<Rightarrow> Some m)"
    and "mb_queue M (snd (mailbox_try_recv M mb)) = tl (mb_queue M mb)"
    and "mb_open M (snd (mailbox_try_recv M mb)) = mb_open M mb"
    and "capacity M (mailbox_channel (snd (mailbox_try_recv M mb))) = capacity M (mailbox_channel mb)"
    and "(\<exists>c. snd (mailbox_try_recv M mb) = Bounded c) \<longleftrightarrow> (\<exists>c. mb = Bounded c)"
  using assms by (cases mb; simp add: case_prod_beta Let_def mb_open_def mb_queue_def mpsc_ok_def)+

lemma mailbox_recv_eq:
  "mailbox_recv M gone mb = (case mailbox_try_recv M mb of (Some m, mb') \<Rightarrow> (Some (Some m), mb') | (None, mb') \<Rightarrow> (if gone then Some None else None, mb'))"
  by (cases mb) (simp_all add: Let_def split: prod.splits option.splits)

text \<open>What senders and the receiver of a mailbox do, in any order, and the messages each operation accepts and hands out.\<close>

datatype 'v mb_event =
    MbSend "'v message"
  | MbTrySend "'v message"
  | MbTryRecv
  | MbRecv bool
  | MbRecvTimeout duration duration bool

definition accepted_send :: "'v message \<Rightarrow> (send_error + unit) \<times> 'c mailbox \<Rightarrow> 'v message list \<times> 'v message list \<times> 'c mailbox" where
  "accepted_send msg r = (if fst r = Inr () then [msg] else [], [], snd r)"

definition handed_out :: "'v message option option \<times> 'c mailbox \<Rightarrow> 'v message list \<times> 'v message list \<times> 'c mailbox" where
  "handed_out r = ([], case fst r of Some (Some m) \<Rightarrow> [m] | _ \<Rightarrow> [], snd r)"

fun mb_step :: "('v message, 'c) mpsc \<Rightarrow> 'v mb_event \<Rightarrow> 'c mailbox \<Rightarrow> 'v message list \<times> 'v message list \<times> 'c mailbox" where
  "mb_step M (MbSend msg) mb = accepted_send msg (mailbox_send M msg mb)"
| "mb_step M (MbTrySend msg) mb = accepted_send msg (mailbox_try_send M msg mb)"
| "mb_step M MbTryRecv mb = handed_out (apfst Some (mailbox_try_recv M mb))"
| "mb_step M (MbRecv gone) mb = handed_out (mailbox_recv M gone mb)"
| "mb_step M (MbRecvTimeout dur elapsed gone) mb = handed_out (mailbox_recv_timeout M dur elapsed gone mb)"

fun mb_run :: "('v message, 'c) mpsc \<Rightarrow> 'v mb_event list \<Rightarrow> 'c mailbox \<Rightarrow> 'v message list \<times> 'v message list \<times> 'c mailbox" where
  "mb_run M [] mb = ([], [], mb)"
| "mb_run M (e # es) mb =
     (case mb_step M e mb of (acc, got, mb1) \<Rightarrow> case mb_run M es mb1 of (acc', got', mb2) \<Rightarrow> (acc @ acc', got @ got', mb2))"

definition within :: "('v message, 'c) mpsc \<Rightarrow> 'c mailbox \<Rightarrow> bool" where
  "within M mb \<longleftrightarrow> (case mb of Unbounded _ \<Rightarrow> True
     | Bounded c \<Rightarrow> (case capacity M c of None \<Rightarrow> True | Some k \<Rightarrow> length (queued M c) \<le> k))"

lemma within_alt:
  "within M mb \<longleftrightarrow> (\<forall>k. (\<exists>c. mb = Bounded c) \<longrightarrow> capacity M (mailbox_channel mb) = Some k \<longrightarrow> length (mb_queue M mb) \<le> k)"
  by (cases mb) (auto simp: within_def mb_queue_def split: option.splits)

lemma mb_step_recv:
  assumes "mpsc_ok M" and "acc = []" and "snd (mailbox_try_recv M mb) = mb'" and "got = (case mb_queue M mb of [] \<Rightarrow> [] | m # _ \<Rightarrow> [m])"
  shows "got @ mb_queue M mb' = mb_queue M mb @ acc \<and> (within M mb \<longrightarrow> within M mb')"
  using mailbox_try_recv_spec [OF assms(1), of mb] assms(2-4)
  by (cases "mb_queue M mb") (auto simp: within_alt)

lemma mb_step_queue:
  assumes "mpsc_ok M" and "mb_step M e mb = (acc, got, mb')"
  shows "got @ mb_queue M mb' = mb_queue M mb @ acc \<and> (within M mb \<longrightarrow> within M mb')"
proof -
  have send: ?thesis if "mb_step M e mb = accepted_send msg (mailbox_send M msg mb)" for msg
  proof -
    have w: "within M mb'" if "within M mb" "mb' = snd (mailbox_send M msg mb)"
      using that mailbox_send_full [OF assms(1), of msg mb] mailbox_send_spec(2) [OF assms(1), of msg mb]
      by (auto simp: within_alt mb_full_def mb_queue_def split: if_splits mailbox.splits option.splits)
    show ?thesis using that assms(2) mailbox_send_spec [OF assms(1), of msg mb] w by (auto simp: accepted_send_def split: if_splits)
  qed
  have recv: ?thesis if "acc = []" "snd (mailbox_try_recv M mb) = mb'" "got = (case fst (mailbox_try_recv M mb) of None \<Rightarrow> [] | Some m \<Rightarrow> [m])"
    using mb_step_recv [OF assms(1) that(1,2)] that(3) mailbox_try_recv_spec(1) [OF assms(1), of mb] by (cases "mb_queue M mb") auto
  show ?thesis
  proof (cases "\<exists>msg. e = MbSend msg \<or> e = MbTrySend msg")
    case True
    then show ?thesis using send by (auto simp: mailbox_try_send_eq)
  next
    case False
    then show ?thesis
      by (intro recv; use assms(2) in \<open>cases e\<close>)
         (auto simp: handed_out_def mailbox_recv_timeout_def mailbox_recv_eq split: prod.splits option.splits if_splits)
  qed
qed



end
