(* ===== verification/Stage.thy ===== *)
theory Stage
  imports Dispatcher Mailbox
begin

text \<open>
  GenStage (\<^verbatim>\<open>crates/rebar-core/src/gen_stage/types.rs\<close> and \<^verbatim>\<open>engine.rs\<close>): the command loop of a
  stage, the demand protocol between producers and consumers, and the bounded event buffer.

  The stages are connected by a net: every address has a channel and a flag that says whether a
  strong sender of the channel exists, so that a weak sender upgrades exactly then. The tokio channel is the parameter \<open>M\<close> (\<open>mpsc_ok\<close>); \<open>send(..).await\<close> suspends while the channel is
  full and is modelled by the state in which the command has been queued, so a queue includes the
  commands of suspended senders and the call fails exactly when the receiver is gone. The callbacks
  of the user are the record \<open>gen_stage\<close>, the dispatcher is an argument. The process of a stage, with
  its routing mailbox and its end, is in the theory \<open>Stage_Process\<close>.
\<close>

section \<open>Types\<close>

datatype stage_type = Producer | ProducerConsumer | Consumer

datatype demand_mode = Automatic | Manual

datatype cancel_reason = CancelRequested | PeerDown

record subscribe_opts =
  opt_max_demand :: usize
  opt_min_demand :: usize

definition subscribe_opts_default :: subscribe_opts where
  "subscribe_opts_default = \<lparr>opt_max_demand = 1000, opt_min_demand = 500\<rparr>"

definition subscribe_opts_new :: "usize \<Rightarrow> usize \<Rightarrow> subscribe_opts" where
  "subscribe_opts_new max_demand min_demand = \<lparr>opt_max_demand = max_demand, opt_min_demand = min_demand\<rparr>"

datatype stage_error = StageDead | CallTimeout | SubscriptionFailed string

text \<open>The tag and the global counter after \<open>SubscriptionTag::next\<close>.\<close>

definition subscription_tag_next :: "u64 \<Rightarrow> subscription_tag \<times> u64" where
  "subscription_tag_next counter = (counter, counter + 1)"

record ('v, 's) gen_stage =
  gs_init :: "string + stage_type \<times> 's"
  gs_handle_demand :: "usize \<Rightarrow> 's \<Rightarrow> 'v list \<times> 's"
  gs_handle_events :: "'v list \<Rightarrow> subscription_tag \<Rightarrow> 's \<Rightarrow> 'v list \<times> 's"
  gs_handle_subscribe :: "stage_type \<Rightarrow> subscribe_opts \<Rightarrow> subscription_tag \<Rightarrow> 's \<Rightarrow> demand_mode \<times> 's"
  gs_handle_cancel :: "cancel_reason \<Rightarrow> subscription_tag \<Rightarrow> 's \<Rightarrow> 's"
  gs_handle_call :: "'v \<Rightarrow> 's \<Rightarrow> ('v \<times> 'v list) \<times> 's"
  gs_handle_cast :: "'v \<Rightarrow> 's \<Rightarrow> 'v list \<times> 's"
  gs_terminate :: "exit_reason \<Rightarrow> 's \<Rightarrow> 's"

type_synonym stage_addr = process_id
type_synonym reply_id = nat

datatype 'v stage_command =
    Subscribe subscription_tag stage_addr subscribe_opts reply_id
  | Cancel subscription_tag cancel_reason
  | AskDemand subscription_tag usize
  | Events subscription_tag "'v list"
  | Call 'v reply_id
  | Cast 'v
  | SubscriptionConfirmed subscription_tag stage_addr subscribe_opts

datatype 'v stage_reply = Subscribed "stage_error + unit" | Called 'v

record upstream_subscription =
  producer_cmd_tx :: stage_addr
  up_mode :: demand_mode
  up_min_demand :: usize
  up_max_demand :: usize
  pending_events :: usize
  outstanding_demand :: usize

record downstream_subscription =
  consumer_cmd_tx :: stage_addr

record 'v loop_state =
  upstreams :: "(subscription_tag, upstream_subscription) hashmap"
  downstreams :: "(subscription_tag, downstream_subscription) hashmap"
  consumer_demands :: "consumer_demand list"
  event_buffer :: "'v list"
  ls_stage_type :: stage_type

definition MAX_EVENT_BUFFER :: usize where
  "MAX_EVENT_BUFFER = 100000"

definition loop_state_new :: "stage_type \<Rightarrow> 'v loop_state" where
  "loop_state_new ty = \<lparr>upstreams = [], downstreams = [], consumer_demands = [], event_buffer = [], ls_stage_type = ty\<rparr>"

text \<open>A stage with the net around it and the replies it has sent.\<close>

record 'c stage_net =
  net_chan :: "stage_addr \<Rightarrow> 'c"
  net_strong :: "stage_addr \<Rightarrow> bool"

definition set_chan :: "stage_addr \<Rightarrow> 'c \<Rightarrow> 'c stage_net \<Rightarrow> 'c stage_net" where
  "set_chan a c net = net\<lparr>net_chan := (net_chan net)(a := c)\<rparr>"

record ('v, 's, 'c) stage_sys =
  sys_loop :: "'v loop_state"
  sys_user :: 's
  sys_net :: "'c stage_net"
  sys_replies :: "(reply_id \<times> 'v stage_reply) list"

type_synonym 'v dispatch_fun = "'v list \<Rightarrow> consumer_demand list \<Rightarrow> 'v dispatch_result \<times> consumer_demand list"

section \<open>The loop state\<close>

definition buffer_leftover :: "'v list \<Rightarrow> 'v loop_state \<Rightarrow> 'v loop_state" where
  "buffer_leftover left ls =
     (if left = [] then ls
      else
        let buf = event_buffer ls @ left in
        if length buf > MAX_EVENT_BUFFER
        then ls\<lparr>event_buffer := drop (length buf - MAX_EVENT_BUFFER) buf\<rparr>
        else ls\<lparr>event_buffer := buf\<rparr>)"

definition total_downstream_demand :: "'v loop_state \<Rightarrow> usize" where
  "total_downstream_demand ls = fold (\<lambda>cd acc. usize_add acc (pending_demand cd)) (consumer_demands ls) 0"

definition stage_send ::
  "('v stage_command, 'c) mpsc \<Rightarrow> stage_addr \<Rightarrow> 'v stage_command \<Rightarrow> 'c stage_net \<Rightarrow> bool \<times> 'c stage_net" where
  "stage_send M a cmd net =
     (if net_strong net a
      then (case unbounded_send M cmd (net_chan net a) of
              (Inr _, c') \<Rightarrow> (True, set_chan a c' net)
            | (Inl _, c') \<Rightarrow> (False, set_chan a c' net))
      else (False, net))"

text \<open>Result of \<open>deliver_events\<close>: the undelivered events, the dead subscriptions, the channels.\<close>

fun deliver_events ::
  "('v stage_command, 'c) mpsc \<Rightarrow> (subscription_tag, downstream_subscription) hashmap
     \<Rightarrow> (subscription_tag \<times> 'v list) list \<Rightarrow> 'c stage_net \<Rightarrow> 'v list \<times> subscription_tag list \<times> 'c stage_net" where
  "deliver_events M downs [] net = ([], [], net)"
| "deliver_events M downs ((tag, events) # ds) net =
     (case hm_get downs tag of
        None \<Rightarrow> deliver_events M downs ds net
      | Some down \<Rightarrow>
          if \<not> net_strong net (consumer_cmd_tx down)
          then
            let (undelivered, dead, net') = deliver_events M downs ds net in
            (events @ undelivered, tag # dead, net')
          else
               (case try_send M (Events tag events) (net_chan net (consumer_cmd_tx down)) of
                  (Inr _, c') \<Rightarrow> deliver_events M downs ds (set_chan (consumer_cmd_tx down) c' net)
                | (Inl Full, c') \<Rightarrow>
                    let (undelivered, dead, net') =
                      deliver_events M downs ds (set_chan (consumer_cmd_tx down) c' net) in
                    (events @ undelivered, dead, net')
                | (Inl Closed, c') \<Rightarrow>
                    let (undelivered, dead, net') =
                      deliver_events M downs ds (set_chan (consumer_cmd_tx down) c' net) in
                    (events @ undelivered, tag # dead, net')))"

definition dispatch_and_deliver ::
  "('v stage_command, 'c) mpsc \<Rightarrow> 'v dispatch_fun \<Rightarrow> 'v list \<Rightarrow> 'v loop_state \<times> 'c stage_net
     \<Rightarrow> subscription_tag list \<times> 'v loop_state \<times> 'c stage_net" where
  "dispatch_and_deliver M D events lc =
     (case lc of (ls, net) \<Rightarrow>
       if events = [] then ([], ls, net)
       else
         let (r, demands) = D events (consumer_demands ls);
             ls1 = buffer_leftover (leftover r) (ls\<lparr>consumer_demands := demands\<rparr>);
             (undelivered, dead, net') = deliver_events M (downstreams ls1) (deliveries r) net;
             ls2 = buffer_leftover undelivered ls1 in
         (dead, ls2, net'))"

definition maybe_dispatch_emitted ::
  "('v stage_command, 'c) mpsc \<Rightarrow> 'v dispatch_fun \<Rightarrow> 'v list \<Rightarrow> 'v loop_state \<times> 'c stage_net
     \<Rightarrow> subscription_tag list \<times> 'v loop_state \<times> 'c stage_net" where
  "maybe_dispatch_emitted M D emitted lc =
     (if emitted \<noteq> [] \<and> (ls_stage_type (fst lc) = Producer \<or> ls_stage_type (fst lc) = ProducerConsumer)
      then dispatch_and_deliver M D emitted lc
      else ([], lc))"

section \<open>Handlers\<close>

definition drop_downstream :: "subscription_tag \<Rightarrow> 'v loop_state \<Rightarrow> 'v loop_state" where
  "drop_downstream tag ls =
     ls\<lparr>downstreams := hm_remove tag (downstreams ls),
        consumer_demands := filter (\<lambda>cd. cd_tag cd \<noteq> tag) (consumer_demands ls)\<rparr>"

definition cleanup_dead_downstreams ::
  "('v, 's) gen_stage \<Rightarrow> subscription_tag list \<Rightarrow> ('v, 's, 'c) stage_sys \<Rightarrow> ('v, 's, 'c) stage_sys" where
  "cleanup_dead_downstreams S dead sys =
     fold (\<lambda>tag sys.
       if hm_contains tag (downstreams (sys_loop sys))
       then sys\<lparr>sys_loop := drop_downstream tag (sys_loop sys),
                sys_user := gs_handle_cancel S PeerDown tag (sys_user sys)\<rparr>
       else sys) dead sys"

text \<open>The dispatch of events emitted by a callback, followed by the cleanup of the dead consumers.\<close>

definition dispatch_and_cleanup ::
  "('v, 's) gen_stage
     \<Rightarrow> ('v loop_state \<times> 'c stage_net \<Rightarrow> subscription_tag list \<times> 'v loop_state \<times> 'c stage_net)
     \<Rightarrow> ('v, 's, 'c) stage_sys \<Rightarrow> ('v, 's, 'c) stage_sys" where
  "dispatch_and_cleanup S f sys =
     (let (dead, ls, net) = f (sys_loop sys, sys_net sys) in
      cleanup_dead_downstreams S dead (sys\<lparr>sys_loop := ls, sys_net := net\<rparr>))"

definition handle_subscribe ::
  "('v stage_command, 'c) mpsc \<Rightarrow> ('v, 's) gen_stage \<Rightarrow> stage_addr \<Rightarrow> subscription_tag \<Rightarrow> stage_addr
     \<Rightarrow> subscribe_opts \<Rightarrow> reply_id \<Rightarrow> ('v, 's, 'c) stage_sys \<Rightarrow> ('v, 's, 'c) stage_sys" where
  "handle_subscribe M S self tag consumer opts reply sys =
     (let ls = sys_loop sys;
          (_, user) = gs_handle_subscribe S (ls_stage_type ls) opts tag (sys_user sys);
          ls1 = ls\<lparr>consumer_demands := consumer_demands ls @ [consumer_demand_new tag],
                   downstreams := hm_insert tag \<lparr>consumer_cmd_tx = consumer\<rparr> (downstreams ls)\<rparr>;
          net = (if net_strong (sys_net sys) self
                 then snd (stage_send M consumer (SubscriptionConfirmed tag self opts) (sys_net sys))
                 else sys_net sys) in
      sys\<lparr>sys_loop := ls1, sys_user := user, sys_net := net,
          sys_replies := sys_replies sys @ [(reply, Subscribed (Inr ()))]\<rparr>)"

definition handle_subscription_confirmed ::
  "('v stage_command, 'c) mpsc \<Rightarrow> ('v, 's) gen_stage \<Rightarrow> subscription_tag \<Rightarrow> stage_addr
     \<Rightarrow> subscribe_opts \<Rightarrow> ('v, 's, 'c) stage_sys \<Rightarrow> ('v, 's, 'c) stage_sys" where
  "handle_subscription_confirmed M S tag producer opts sys =
     (let ls = sys_loop sys;
          max_demand = max (opt_max_demand opts) 1;
          min_demand = min (opt_min_demand opts) max_demand;
          (mode, user) = gs_handle_subscribe S (ls_stage_type ls) opts tag (sys_user sys);
          up = \<lparr>producer_cmd_tx = producer, up_mode = mode, up_min_demand = min_demand,
                up_max_demand = max_demand, pending_events = 0, outstanding_demand = 0\<rparr> in
      if mode = Automatic
      then sys\<lparr>sys_loop := ls\<lparr>upstreams := hm_insert tag (up\<lparr>outstanding_demand := max_demand\<rparr>) (upstreams ls)\<rparr>,
               sys_user := user,
               sys_net := snd (stage_send M producer (AskDemand tag max_demand) (sys_net sys))\<rparr>
      else sys\<lparr>sys_loop := ls\<lparr>upstreams := hm_insert tag up (upstreams ls)\<rparr>, sys_user := user\<rparr>)"

definition handle_cancel ::
  "('v stage_command, 'c) mpsc \<Rightarrow> ('v, 's) gen_stage \<Rightarrow> subscription_tag \<Rightarrow> cancel_reason
     \<Rightarrow> ('v, 's, 'c) stage_sys \<Rightarrow> ('v, 's, 'c) stage_sys" where
  "handle_cancel M S tag reason sys =
     (let ls = sys_loop sys in
      case hm_get (downstreams ls) tag of
        Some down \<Rightarrow>
          sys\<lparr>sys_loop := drop_downstream tag ls,
              sys_user := gs_handle_cancel S reason tag (sys_user sys),
              sys_net := snd (stage_send M (consumer_cmd_tx down) (Cancel tag reason) (sys_net sys))\<rparr>
      | None \<Rightarrow>
          (case hm_get (upstreams ls) tag of
             Some up \<Rightarrow>
               sys\<lparr>sys_loop := ls\<lparr>upstreams := hm_remove tag (upstreams ls)\<rparr>,
                   sys_user := gs_handle_cancel S reason tag (sys_user sys),
                   sys_net := snd (stage_send M (producer_cmd_tx up) (Cancel tag reason) (sys_net sys))\<rparr>
           | None \<Rightarrow> sys))"

text \<open>The producer of a subscription is gone: the synthesized \<open>Cancel{Down}\<close>.\<close>

definition upstream_down ::
  "('v, 's) gen_stage \<Rightarrow> subscription_tag \<Rightarrow> ('v, 's, 'c) stage_sys \<Rightarrow> ('v, 's, 'c) stage_sys" where
  "upstream_down S tag sys =
     (if hm_contains tag (upstreams (sys_loop sys))
      then sys\<lparr>sys_loop := (sys_loop sys)\<lparr>upstreams := hm_remove tag (upstreams (sys_loop sys))\<rparr>,
               sys_user := gs_handle_cancel S PeerDown tag (sys_user sys)\<rparr>
      else sys)"

definition ask_upstream ::
  "('v stage_command, 'c) mpsc \<Rightarrow> ('v, 's) gen_stage \<Rightarrow> stage_addr \<Rightarrow> subscription_tag \<Rightarrow> usize
     \<Rightarrow> ('v, 's, 'c) stage_sys \<Rightarrow> ('v, 's, 'c) stage_sys" where
  "ask_upstream M S producer tag demand sys =
     (let (sent, net) = stage_send M producer (AskDemand tag demand) (sys_net sys);
          sys1 = sys\<lparr>sys_net := net\<rparr> in
      if sent then sys1 else upstream_down S tag sys1)"

text \<open>\<open>find\<close> changes the first entry with the tag only.\<close>

fun add_demand :: "subscription_tag \<Rightarrow> usize \<Rightarrow> consumer_demand list \<Rightarrow> consumer_demand list" where
  "add_demand tag demand [] = []"
| "add_demand tag demand (cd # cds) =
     (if cd_tag cd = tag then cd\<lparr>pending_demand := usize_add (pending_demand cd) demand\<rparr> # cds
      else cd # add_demand tag demand cds)"

definition drain_buffer ::
  "('v stage_command, 'c) mpsc \<Rightarrow> 'v dispatch_fun \<Rightarrow> 'v loop_state \<times> 'c stage_net
     \<Rightarrow> subscription_tag list \<times> 'v loop_state \<times> 'c stage_net" where
  "drain_buffer M D lc =
     (case lc of (ls, net) \<Rightarrow>
        let (r, demands) = D (event_buffer ls) (consumer_demands ls);
            ls1 = ls\<lparr>consumer_demands := demands, event_buffer := leftover r\<rparr>;
            (undelivered, dead, net') = deliver_events M (downstreams ls1) (deliveries r) net in
        (dead, buffer_leftover undelivered ls1, net'))"

definition handle_ask_demand ::
  "('v stage_command, 'c) mpsc \<Rightarrow> 'v dispatch_fun \<Rightarrow> ('v, 's) gen_stage \<Rightarrow> subscription_tag \<Rightarrow> usize
     \<Rightarrow> ('v, 's, 'c) stage_sys \<Rightarrow> ('v, 's, 'c) stage_sys" where
  "handle_ask_demand M D S tag demand sys =
     (case hm_get (upstreams (sys_loop sys)) tag of
        Some up \<Rightarrow> ask_upstream M S (producer_cmd_tx up) tag demand sys
      | None \<Rightarrow>
          let sys1 = sys\<lparr>sys_loop := (sys_loop sys)\<lparr>consumer_demands :=
                           add_demand tag demand (consumer_demands (sys_loop sys))\<rparr>\<rparr>;
              sys2 = (if event_buffer (sys_loop sys1) \<noteq> []
                      then dispatch_and_cleanup S (drain_buffer M D) sys1 else sys1) in
          if ls_stage_type (sys_loop sys2) = Producer
          then
            let want = min demand (total_downstream_demand (sys_loop sys2)) in
            if want > 0
            then
              let (events, user) = gs_handle_demand S want (sys_user sys2) in
              dispatch_and_cleanup S (dispatch_and_deliver M D events) (sys2\<lparr>sys_user := user\<rparr>)
            else sys2
          else sys2)"

text \<open>The accounting of \<open>handle_events\<close>: the new subscription state and the demand to ask for.\<close>

definition account_events :: "usize \<Rightarrow> usize \<Rightarrow> upstream_subscription \<Rightarrow> upstream_subscription \<times> usize" where
  "account_events event_count downstream_room up =
     (let up1 = up\<lparr>pending_events := usize_add (pending_events up) event_count,
                   outstanding_demand := outstanding_demand up - event_count\<rparr> in
      if pending_events up1 \<ge> up_min_demand up1
      then
        let up2 = up1\<lparr>pending_events := 0\<rparr>;
            headroom = up_max_demand up2 - outstanding_demand up2;
            ask = min headroom downstream_room in
        if ask > 0 then (up2\<lparr>outstanding_demand := usize_add (outstanding_demand up2) ask\<rparr>, ask) else (up2, 0)
      else (up1, 0))"

definition handle_events ::
  "('v stage_command, 'c) mpsc \<Rightarrow> 'v dispatch_fun \<Rightarrow> ('v, 's) gen_stage \<Rightarrow> subscription_tag \<Rightarrow> 'v list
     \<Rightarrow> ('v, 's, 'c) stage_sys \<Rightarrow> ('v, 's, 'c) stage_sys" where
  "handle_events M D S tag events sys =
     (let event_count = length events;
          (emitted, user) = gs_handle_events S events tag (sys_user sys);
          sys1 = sys\<lparr>sys_user := user\<rparr>;
          sys2 = (if ls_stage_type (sys_loop sys1) = ProducerConsumer \<and> emitted \<noteq> []
                  then dispatch_and_cleanup S (dispatch_and_deliver M D emitted) sys1 else sys1);
          ls = sys_loop sys2;
          downstream_room = (if ls_stage_type ls = ProducerConsumer then total_downstream_demand ls else usize_max) in
      case hm_get (upstreams ls) tag of
        None \<Rightarrow> sys2
      | Some up \<Rightarrow>
          if up_mode up = Automatic
          then
            let (up', ask) = account_events event_count downstream_room up;
                sys3 = sys2\<lparr>sys_loop := ls\<lparr>upstreams := hm_modify tag (\<lambda>_. up') (upstreams ls)\<rparr>\<rparr> in
            if ask > 0 then ask_upstream M S (producer_cmd_tx up) tag ask sys3 else sys3
          else sys2)"

definition handle_call ::
  "('v stage_command, 'c) mpsc \<Rightarrow> 'v dispatch_fun \<Rightarrow> ('v, 's) gen_stage \<Rightarrow> 'v \<Rightarrow> reply_id
     \<Rightarrow> ('v, 's, 'c) stage_sys \<Rightarrow> ('v, 's, 'c) stage_sys" where
  "handle_call M D S msg reply sys =
     (let ((response, emitted), user) = gs_handle_call S msg (sys_user sys);
          sys1 = sys\<lparr>sys_user := user, sys_replies := sys_replies sys @ [(reply, Called response)]\<rparr> in
      dispatch_and_cleanup S (maybe_dispatch_emitted M D emitted) sys1)"

definition handle_cast ::
  "('v stage_command, 'c) mpsc \<Rightarrow> 'v dispatch_fun \<Rightarrow> ('v, 's) gen_stage \<Rightarrow> 'v
     \<Rightarrow> ('v, 's, 'c) stage_sys \<Rightarrow> ('v, 's, 'c) stage_sys" where
  "handle_cast M D S msg sys =
     (let (emitted, user) = gs_handle_cast S msg (sys_user sys) in
      dispatch_and_cleanup S (maybe_dispatch_emitted M D emitted) (sys\<lparr>sys_user := user\<rparr>))"

fun handle_command ::
  "('v stage_command, 'c) mpsc \<Rightarrow> 'v dispatch_fun \<Rightarrow> ('v, 's) gen_stage \<Rightarrow> stage_addr \<Rightarrow> 'v stage_command
     \<Rightarrow> ('v, 's, 'c) stage_sys \<Rightarrow> ('v, 's, 'c) stage_sys" where
  "handle_command M D S self (Subscribe tag consumer opts reply) sys = handle_subscribe M S self tag consumer opts reply sys"
| "handle_command M D S self (SubscriptionConfirmed tag producer opts) sys =
     handle_subscription_confirmed M S tag producer opts sys"
| "handle_command M D S self (Cancel tag reason) sys = handle_cancel M S tag reason sys"
| "handle_command M D S self (AskDemand tag demand) sys = handle_ask_demand M D S tag demand sys"
| "handle_command M D S self (Events tag events) sys = handle_events M D S tag events sys"
| "handle_command M D S self (Call msg reply) sys = handle_call M D S msg reply sys"
| "handle_command M D S self (Cast msg) sys = handle_cast M D S msg sys"

text \<open>\<open>propagate_down\<close>, in the iteration orders \<open>uord\<close> and \<open>dord\<close> of the two maps.\<close>

definition propagate_down ::
  "('v stage_command, 'c) mpsc
     \<Rightarrow> ((subscription_tag, upstream_subscription) hashmap \<Rightarrow> (subscription_tag, upstream_subscription) hashmap)
     \<Rightarrow> ((subscription_tag, downstream_subscription) hashmap \<Rightarrow> (subscription_tag, downstream_subscription) hashmap)
     \<Rightarrow> 'v loop_state \<Rightarrow> 'c stage_net \<Rightarrow> 'c stage_net" where
  "propagate_down M uord dord ls net =
     fold (\<lambda>(tag, down) net. snd (stage_send M (consumer_cmd_tx down) (Cancel tag PeerDown) net)) (dord (downstreams ls))
       (fold (\<lambda>(tag, up) net. snd (stage_send M (producer_cmd_tx up) (Cancel tag PeerDown) net)) (uord (upstreams ls)) net)"

text \<open>One round of \<open>run_stage_loop\<close>: the command received, or \<open>None\<close> when the channel is closed; the flag says whether the loop goes on.\<close>

fun stage_round ::
  "('v stage_command, 'c) mpsc \<Rightarrow> 'v dispatch_fun \<Rightarrow> ('v, 's) gen_stage
     \<Rightarrow> ((subscription_tag, upstream_subscription) hashmap \<Rightarrow> (subscription_tag, upstream_subscription) hashmap)
     \<Rightarrow> ((subscription_tag, downstream_subscription) hashmap \<Rightarrow> (subscription_tag, downstream_subscription) hashmap)
     \<Rightarrow> stage_addr \<Rightarrow> 'v stage_command option \<Rightarrow> ('v, 's, 'c) stage_sys \<Rightarrow> bool \<times> ('v, 's, 'c) stage_sys" where
  "stage_round M D S uord dord self None sys =
     (False, sys\<lparr>sys_net := propagate_down M uord dord (sys_loop sys) (sys_net sys),
                 sys_user := gs_terminate S Normal (sys_user sys)\<rparr>)"
| "stage_round M D S uord dord self (Some cmd) sys = (True, handle_command M D S self cmd sys)"

section \<open>The handle\<close>

definition ref_send ::
  "('v stage_command, 'c) mpsc \<Rightarrow> stage_addr \<Rightarrow> 'v stage_command \<Rightarrow> 'c stage_net
     \<Rightarrow> (stage_error + unit) \<times> 'c stage_net" where
  "ref_send M a cmd net =
     (case unbounded_send M cmd (net_chan net a) of
        (Inr _, c') \<Rightarrow> (Inr (), set_chan a c' net)
      | (Inl _, c') \<Rightarrow> (Inl StageDead, set_chan a c' net))"

definition ref_subscribe where
  "ref_subscribe M consumer producer opts reply counter net =
     (let (tag, counter') = subscription_tag_next counter;
          (r, net') = ref_send M producer (Subscribe tag consumer opts reply) net in
      (map_sum (\<lambda>e. e) (\<lambda>_. tag) r, counter', net'))"

definition ref_cancel where
  "ref_cancel M a tag net = ref_send M a (Cancel tag CancelRequested) net"

definition ref_ask where
  "ref_ask M a tag demand net = ref_send M a (AskDemand tag demand) net"

definition ref_cast :: "('v stage_command, 'c) mpsc \<Rightarrow> stage_addr \<Rightarrow> 'v \<Rightarrow> 'c stage_net
     \<Rightarrow> (stage_error + unit) \<times> 'c stage_net" where
  "ref_cast M a msg net =
     (case try_send M (Cast msg) (net_chan net a) of
        (Inr _, c') \<Rightarrow> (Inr (), set_chan a c' net)
      | (Inl Full, c') \<Rightarrow> (Inr (), set_chan a c' net)
      | (Inl Closed, c') \<Rightarrow> (Inl StageDead, set_chan a c' net))"

end
