(* ===== verification/Stage_Protocol.thy ===== *)
theory Stage_Protocol
  imports Stage
begin

text \<open>
  Properties of GenStage: the invariant of a stage over every sequence of commands, the back-pressure
  guarantee of a subscription between two stages in an arbitrary environment, and what happens to
  demand when a consumer's channel is full. The lemmas about dispatching are proved once, in the
  locale \<open>dispatcher\<close>, and reach the stages through its two interpretations.
\<close>

section \<open>The invariant of a stage\<close>

definition upstream_wf :: "upstream_subscription \<Rightarrow> bool" where
  "upstream_wf up \<longleftrightarrow>
     1 \<le> up_max_demand up \<and> up_min_demand up \<le> up_max_demand up
   \<and> outstanding_demand up \<le> up_max_demand up
   \<and> (pending_events up = 0 \<or> pending_events up < up_min_demand up)
   \<and> (up_mode up = Manual \<longrightarrow> outstanding_demand up = 0 \<and> pending_events up = 0)"

definition stage_wf :: "'v loop_state \<Rightarrow> bool" where
  "stage_wf ls \<longleftrightarrow>
     length (event_buffer ls) \<le> MAX_EVENT_BUFFER
   \<and> (\<forall>tag up. hm_get (upstreams ls) tag = Some up \<longrightarrow> upstream_wf up)
   \<and> cd_tag ` set (consumer_demands ls) = dom (hm_get (downstreams ls))"

lemma stage_wfI:
  assumes "length (event_buffer ls) \<le> MAX_EVENT_BUFFER"
    and "\<And>tag up. hm_get (upstreams ls) tag = Some up \<Longrightarrow> upstream_wf up"
    and "cd_tag ` set (consumer_demands ls) = dom (hm_get (downstreams ls))"
  shows "stage_wf ls"
  using assms by (auto simp: stage_wf_def)

lemma stage_wf_buffer: "stage_wf ls \<Longrightarrow> length (event_buffer ls) \<le> MAX_EVENT_BUFFER"
  and stage_wf_upstream: "stage_wf ls \<Longrightarrow> hm_get (upstreams ls) tag = Some up \<Longrightarrow> upstream_wf up"
  and stage_wf_tags: "stage_wf ls \<Longrightarrow> cd_tag ` set (consumer_demands ls) = dom (hm_get (downstreams ls))"
  by (auto simp: stage_wf_def)

lemma buffer_leftover_simps [simp]:
  "upstreams (buffer_leftover l ls) = upstreams ls"
  "downstreams (buffer_leftover l ls) = downstreams ls"
  "consumer_demands (buffer_leftover l ls) = consumer_demands ls"
  "ls_stage_type (buffer_leftover l ls) = ls_stage_type ls"
  by (auto simp: buffer_leftover_def Let_def)

lemma buffer_leftover_bound:
  "length (event_buffer ls) \<le> MAX_EVENT_BUFFER \<Longrightarrow> length (event_buffer (buffer_leftover l ls)) \<le> MAX_EVENT_BUFFER"
  by (auto simp: buffer_leftover_def Let_def)

lemma drop_downstream_simps [simp]:
  "upstreams (drop_downstream tag ls) = upstreams ls"
  "event_buffer (drop_downstream tag ls) = event_buffer ls"
  "ls_stage_type (drop_downstream tag ls) = ls_stage_type ls"
  by (simp_all add: drop_downstream_def)

lemma drop_downstream_wf: "stage_wf ls \<Longrightarrow> stage_wf (drop_downstream tag ls)"
  by (rule stage_wfI) (auto simp: drop_downstream_def stage_wf_def dom_def split: if_splits)

lemma cleanup_dead_induct:
  assumes "P sys"
    and "\<And>tag sys. P sys \<Longrightarrow> P (sys\<lparr>sys_loop := drop_downstream tag (sys_loop sys),
          sys_user := gs_handle_cancel S PeerDown tag (sys_user sys)\<rparr>)"
  shows "P (cleanup_dead_downstreams S dead sys)"
  using assms unfolding cleanup_dead_downstreams_def
  by (induction dead arbitrary: sys) auto

lemma cleanup_dead_simps [simp]:
  "upstreams (sys_loop (cleanup_dead_downstreams S dead sys)) = upstreams (sys_loop sys)"
  "ls_stage_type (sys_loop (cleanup_dead_downstreams S dead sys)) = ls_stage_type (sys_loop sys)"
  "sys_net (cleanup_dead_downstreams S dead sys) = sys_net sys"
  by (induction rule: cleanup_dead_induct [where S = S and dead = dead and sys = sys]; simp)+

lemma cleanup_dead_wf: "stage_wf (sys_loop sys) \<Longrightarrow> stage_wf (sys_loop (cleanup_dead_downstreams S dead sys))"
  by (rule cleanup_dead_induct) (simp_all add: drop_downstream_wf)

lemma demand_of_filter_le: "demand_of tag (filter P cds) \<le> demand_of tag cds"
  by (induction cds) auto

lemma cleanup_dead_demand:
  "demand_of tag (consumer_demands (sys_loop (cleanup_dead_downstreams S dead sys)))
     \<le> demand_of tag (consumer_demands (sys_loop sys))"
  by (rule cleanup_dead_induct) (auto simp: drop_downstream_def intro: order_trans [OF demand_of_filter_le])

section \<open>What the queues hold\<close>

definition nsum :: "('v stage_command, 'c) mpsc \<Rightarrow> ('v stage_command \<Rightarrow> nat) \<Rightarrow> 'c stage_net \<Rightarrow> stage_addr \<Rightarrow> nat" where
  "nsum M f net a = sum_list (map f (queued M (net_chan net a)))"

fun event_credit :: "subscription_tag \<Rightarrow> 'v stage_command \<Rightarrow> nat" where
  "event_credit tag (Events t es) = (if t = tag then length es else 0)"
| "event_credit tag cmd = 0"

lemma set_chan_apply [simp]: "net_chan (set_chan a c net) b = (if b = a then c else net_chan net b)"
  by (simp add: set_chan_def)

lemma set_chan_strong [simp]: "net_strong (set_chan a c net) = net_strong net"
  by (simp add: set_chan_def)

lemma unbounded_send_queue:
  assumes "mpsc_ok M"
  shows "queued M (snd (unbounded_send M cmd c)) = queued M c \<or> queued M (snd (unbounded_send M cmd c)) = queued M c @ [cmd]"
  using assms by (auto simp: mpsc_ok_def)

lemma try_send_queue:
  assumes "mpsc_ok M" and "try_send M cmd c = (r, c')"
  shows "queued M c' = (case r of Inr _ \<Rightarrow> queued M c @ [cmd] | Inl _ \<Rightarrow> queued M c)"
proof -
  have "queued M (snd (try_send M cmd c)) = (case fst (try_send M cmd c) of Inr _ \<Rightarrow> queued M c @ [cmd] | Inl _ \<Rightarrow> queued M c)"
    using assms(1) by (auto simp: mpsc_ok_def)
  with assms(2) show ?thesis by simp
qed

lemma stage_send_eq:
  "snd (stage_send M a cmd net) =
     (if net_strong net a then set_chan a (snd (unbounded_send M cmd (net_chan net a))) net else net)"
  by (auto simp: stage_send_def split: prod.splits sum.splits)

lemma stage_send_nsum:
  assumes "mpsc_ok M"
  shows "nsum M f (snd (stage_send M a cmd net)) b \<le> nsum M f net b + (if a = b then f cmd else 0)"
  using unbounded_send_queue [OF assms, of cmd "net_chan net a"]
  by (auto simp: stage_send_eq nsum_def)

lemma deliver_events_nsum:
  assumes "mpsc_ok M"
  shows "deliver_events M downs ds net = (und, dead, net') \<Longrightarrow>
    nsum M f net' b \<le> nsum M f net b + sum_list (map (\<lambda>(t, es). f (Events t es)) ds)"
proof (induction ds arbitrary: und dead net)
  case (Cons d ds)
  obtain tag events where d: "d = (tag, events)" by fastforce
  note 2 = Cons.IH Cons.prems [unfolded d]
  show ?case
  proof (cases "hm_get downs tag")
    case None
    with 2 d show ?thesis by force
  next
    case (Some down)
    show ?thesis
    proof (cases "net_strong net (consumer_cmd_tx down)")
      case False
      with Some 2 d show ?thesis by (fastforce split: prod.splits)
    next
      case True
      obtain r c' where s: "try_send M (Events tag events) (net_chan net (consumer_cmd_tx down)) = (r, c')"
        by fastforce
      let ?net1 = "set_chan (consumer_cmd_tx down) c' net"
      obtain u1 d1 where rec: "deliver_events M downs ds ?net1 = (u1, d1, net')"
        using 2(2) Some True s
        by (auto split: sum.splits try_send_error.splits prod.splits)
      have "nsum M f net' b \<le> nsum M f ?net1 b + sum_list (map (\<lambda>(t, es). f (Events t es)) ds)"
        by (rule Cons.IH [OF rec])
      moreover have "nsum M f ?net1 b \<le> nsum M f net b + f (Events tag events)"
        using try_send_queue [OF assms s] by (cases r) (simp_all add: nsum_def)
      ultimately show ?thesis using d by simp
    qed
  qed
qed simp

lemma sum_event_credit: "sum_list (map (\<lambda>(t, es). event_credit tag (Events t es)) ds) = delivered_to tag ds"
  by (induction ds) auto

section \<open>Dispatching\<close>

text \<open>
  What dispatching may do to the loop state and the net: it keeps the subscriptions and the bound of
  the buffer, it charges every event it queues for a consumer to the consumer's demand, and it
  queues nothing but events.
\<close>

definition emission ::
  "('v stage_command, 'c) mpsc \<Rightarrow> 'v loop_state \<times> 'c stage_net
     \<Rightarrow> subscription_tag list \<times> 'v loop_state \<times> 'c stage_net \<Rightarrow> bool" where
  "emission M lc r \<longleftrightarrow>
     (case lc of (ls, net) \<Rightarrow> case r of (_, ls', net') \<Rightarrow>
        upstreams ls' = upstreams ls \<and> downstreams ls' = downstreams ls \<and> ls_stage_type ls' = ls_stage_type ls
      \<and> map cd_tag (consumer_demands ls') = map cd_tag (consumer_demands ls)
      \<and> (length (event_buffer ls) \<le> MAX_EVENT_BUFFER \<longrightarrow> length (event_buffer ls') \<le> MAX_EVENT_BUFFER)
      \<and> (\<forall>tag b. nsum M (event_credit tag) net' b + demand_of tag (consumer_demands ls')
            \<le> nsum M (event_credit tag) net b + demand_of tag (consumer_demands ls))
      \<and> (\<forall>tag. demand_of tag (consumer_demands ls') \<le> demand_of tag (consumer_demands ls))
      \<and> (\<forall>f b. (\<forall>t es. f (Events t es) = 0) \<longrightarrow> nsum M f net' b \<le> nsum M f net b))"

lemma emission_refl: "emission M (ls, net) (dead, ls, net)"
  by (simp add: emission_def)

lemma deliver_charged:
  assumes "mpsc_ok M" and "deliver_events M downs ds net = (und, dead, net')"
    and "demand' + delivered_to tag ds = demand_of tag subs"
  shows "nsum M (event_credit tag) net' b + demand' \<le> nsum M (event_credit tag) net b + demand_of tag subs"
  using deliver_events_nsum [OF assms(1,2), of "event_credit tag" b] assms(3) unfolding sum_event_credit by simp

lemma deliver_silent:
  assumes "mpsc_ok M" and "deliver_events M downs ds net = (und, dead, net')" and "\<forall>t es. f (Events t es) = 0"
  shows "nsum M f net' b \<le> nsum M f net b"
proof -
  have "sum_list (map (\<lambda>(t, es). f (Events t es)) ds) = 0" using assms(3) by (induction ds) auto
  from deliver_events_nsum [OF assms(1,2), of f b, unfolded this] show ?thesis by simp
qed

context dispatcher
begin

lemma leftover_length: "dispatch es subs = (r, subs') \<Longrightarrow> length (leftover r) \<le> length es"
  using leftover_suffix [of es subs r subs'] by auto

lemma dispatch_emission:
  assumes "mpsc_ok M"
  shows "emission M lc (dispatch_and_deliver M dispatch es lc)"
proof (cases "es = []")
  case True
  then show ?thesis by (cases lc) (simp add: dispatch_and_deliver_def emission_refl)
next
  case False
  obtain ls net where lc: "lc = (ls, net)" by fastforce
  obtain r demands where d: "dispatch es (consumer_demands ls) = (r, demands)" by fastforce
  obtain und dead net' where v: "deliver_events M (downstreams ls) (deliveries r) net = (und, dead, net')"
    by (cases "deliver_events M (downstreams ls) (deliveries r) net") auto
  show ?thesis
    using False lc d v tags_kept [OF d] demand_charged [OF d] never_overrun [OF d]
      deliver_charged [OF assms v demand_charged [OF d]] deliver_silent [OF assms v]
    by (simp add: emission_def dispatch_and_deliver_def buffer_leftover_bound) (metis le_add1)
qed

lemma drain_emission:
  assumes "mpsc_ok M"
  shows "emission M lc (drain_buffer M dispatch lc)"
proof -
  obtain ls net where lc: "lc = (ls, net)" by fastforce
  obtain r demands where d: "dispatch (event_buffer ls) (consumer_demands ls) = (r, demands)" by fastforce
  obtain und dead net' where v: "deliver_events M (downstreams ls) (deliveries r) net = (und, dead, net')"
    by (cases "deliver_events M (downstreams ls) (deliveries r) net") auto
  have "length (event_buffer ls) \<le> MAX_EVENT_BUFFER \<Longrightarrow>
      length (event_buffer (buffer_leftover und (ls\<lparr>consumer_demands := demands, event_buffer := leftover r\<rparr>))) \<le> MAX_EVENT_BUFFER"
    by (rule buffer_leftover_bound) (use leftover_length [OF d] in simp)
  then show ?thesis
    using lc d v tags_kept [OF d] demand_charged [OF d]
      deliver_charged [OF assms v demand_charged [OF d]] deliver_silent [OF assms v]
    by (simp add: emission_def drain_buffer_def) (metis le_add1)
qed

lemma maybe_emission:
  assumes "mpsc_ok M"
  shows "emission M lc (maybe_dispatch_emitted M dispatch es lc)"
  using dispatch_emission [OF assms, of lc es] by (cases lc) (auto simp: maybe_dispatch_emitted_def emission_refl)

end

text \<open>The same over a whole system, when the dead consumers have been cleaned up.\<close>

definition gentle :: "('v stage_command, 'c) mpsc \<Rightarrow> ('v, 's, 'c) stage_sys \<Rightarrow> ('v, 's, 'c) stage_sys \<Rightarrow> bool" where
  "gentle M sys sys' \<longleftrightarrow>
     upstreams (sys_loop sys') = upstreams (sys_loop sys)
   \<and> ls_stage_type (sys_loop sys') = ls_stage_type (sys_loop sys)
   \<and> (stage_wf (sys_loop sys) \<longrightarrow> stage_wf (sys_loop sys'))
   \<and> (\<forall>tag b. nsum M (event_credit tag) (sys_net sys') b + demand_of tag (consumer_demands (sys_loop sys'))
         \<le> nsum M (event_credit tag) (sys_net sys) b + demand_of tag (consumer_demands (sys_loop sys)))
   \<and> (\<forall>tag. demand_of tag (consumer_demands (sys_loop sys')) \<le> demand_of tag (consumer_demands (sys_loop sys)))
   \<and> (\<forall>f b. (\<forall>t es. f (Events t es) = 0) \<longrightarrow> nsum M f (sys_net sys') b \<le> nsum M f (sys_net sys) b)"

lemma gentle_upstreams: "gentle M sys sys' \<Longrightarrow> upstreams (sys_loop sys') = upstreams (sys_loop sys)"
  and gentle_type: "gentle M sys sys' \<Longrightarrow> ls_stage_type (sys_loop sys') = ls_stage_type (sys_loop sys)"
  and gentle_wf: "gentle M sys sys' \<Longrightarrow> stage_wf (sys_loop sys) \<Longrightarrow> stage_wf (sys_loop sys')"
  and gentle_events: "gentle M sys sys' \<Longrightarrow>
    nsum M (event_credit tag) (sys_net sys') b + demand_of tag (consumer_demands (sys_loop sys'))
      \<le> nsum M (event_credit tag) (sys_net sys) b + demand_of tag (consumer_demands (sys_loop sys))"
  and gentle_demand: "gentle M sys sys' \<Longrightarrow>
    demand_of tag (consumer_demands (sys_loop sys')) \<le> demand_of tag (consumer_demands (sys_loop sys))"
  and gentle_silent: "gentle M sys sys' \<Longrightarrow> (\<And>t es. f (Events t es) = 0) \<Longrightarrow>
    nsum M f (sys_net sys') b \<le> nsum M f (sys_net sys) b"
  by (simp_all add: gentle_def)

lemma gentle_refl: "gentle M sys (sys\<lparr>sys_user := u\<rparr>)" "gentle M sys sys"
  "gentle M sys (sys\<lparr>sys_user := u, sys_replies := rs\<rparr>)"
  by (simp_all add: gentle_def)

lemma gentle_trans:
  assumes "gentle M s1 s2" and "gentle M s2 s3"
  shows "gentle M s1 s3"
  unfolding gentle_def
  using assms by (auto simp: gentle_upstreams gentle_type gentle_wf gentle_silent
      intro: order_trans [OF gentle_events gentle_events] order_trans [OF gentle_demand gentle_demand]
        order_trans [OF gentle_silent gentle_silent])

lemma emission_gentle:
  assumes "emission M (sys_loop sys, sys_net sys) (f (sys_loop sys, sys_net sys))"
  shows "gentle M sys (dispatch_and_cleanup S f sys)"
proof -
  obtain dead ls net where f: "f (sys_loop sys, sys_net sys) = (dead, ls, net)"
    by (cases "f (sys_loop sys, sys_net sys)") auto
  let ?s = "sys\<lparr>sys_loop := ls, sys_net := net\<rparr>"
  have wf: "stage_wf ls" if "stage_wf (sys_loop sys)"
  proof (rule stage_wfI)
    have "set (map cd_tag (consumer_demands ls)) = set (map cd_tag (consumer_demands (sys_loop sys)))"
      using assms f by (simp add: emission_def del: set_map)
    then show "cd_tag ` set (consumer_demands ls) = dom (hm_get (downstreams ls))"
      using that assms f by (simp add: stage_wf_def emission_def)
  qed (use that assms f in \<open>auto simp: emission_def stage_wf_def\<close>)
  have 1: "gentle M sys ?s"
    using assms f wf by (simp add: gentle_def emission_def)
  have 2: "gentle M ?s (cleanup_dead_downstreams S dead ?s)"
    unfolding gentle_def using cleanup_dead_demand [of _ S dead ?s] cleanup_dead_wf [of ?s S dead] by simp
  show ?thesis using gentle_trans [OF 1 2] f by (simp add: dispatch_and_cleanup_def)
qed

context dispatcher
begin

lemma dispatch_gentle: "mpsc_ok M \<Longrightarrow> gentle M sys (dispatch_and_cleanup S (dispatch_and_deliver M dispatch es) sys)"
  and drain_gentle: "mpsc_ok M \<Longrightarrow> gentle M sys (dispatch_and_cleanup S (drain_buffer M dispatch) sys)"
  and maybe_gentle: "mpsc_ok M \<Longrightarrow> gentle M sys (dispatch_and_cleanup S (maybe_dispatch_emitted M dispatch es) sys)"
  by (rule emission_gentle, erule dispatch_emission drain_emission maybe_emission)+

lemma handle_cast_gentle: "mpsc_ok M \<Longrightarrow> gentle M sys (handle_cast M dispatch S msg sys)"
  unfolding handle_cast_def case_prod_beta Let_def
  by (rule gentle_trans [OF gentle_refl(1) maybe_gentle])

lemma handle_call_gentle: "mpsc_ok M \<Longrightarrow> gentle M sys (handle_call M dispatch S msg reply sys)"
  unfolding handle_call_def case_prod_beta Let_def
  by (rule gentle_trans [OF gentle_refl(3) maybe_gentle])

end

section \<open>Every handler keeps the invariant\<close>

lemma usize_add_le: "usize_add a b \<le> a + b"
  by (simp add: usize_add_def)

lemma account_events_wf:
  assumes "account_events n room up = (up', ask)" and "upstream_wf up" and "up_mode up = Automatic"
  shows "upstream_wf up' \<and> up_max_demand up' = up_max_demand up \<and> up_mode up' = Automatic"
proof -
  let ?o = "outstanding_demand up - n" and ?a = "min (up_max_demand up - (outstanding_demand up - n)) room"
  have "?o + ?a \<le> up_max_demand up" using assms(2) by (auto simp: upstream_wf_def)
  then have "usize_add ?o ?a \<le> up_max_demand up" using usize_add_le order_trans by blast
  with assms show ?thesis
    by (auto simp: account_events_def Let_def upstream_wf_def split: if_splits)
qed

lemma account_events_outstanding:
  assumes "account_events n room up = (up', ask)" and "upstream_wf up" and "up_max_demand up \<le> usize_max"
  shows "outstanding_demand up' = outstanding_demand up - n + ask"
proof -
  let ?o = "outstanding_demand up - n" and ?a = "min (up_max_demand up - (outstanding_demand up - n)) room"
  have "?o + ?a \<le> up_max_demand up" using assms(2) by (auto simp: upstream_wf_def)
  then have "?o + ?a < 2 ^ 64" using assms(3) by (auto simp: usize_max_def)
  then have "usize_add ?o ?a = ?o + ?a" by (rule usize_add_small)
  with assms(1) show ?thesis by (auto simp: account_events_def Let_def split: if_splits)
qed

lemma add_demand_tags [simp]: "map cd_tag (add_demand tag d cds) = map cd_tag cds"
  by (induction cds) auto

lemma add_demand_set [simp]: "cd_tag ` set (add_demand tag d cds) = cd_tag ` set cds"
  by (metis add_demand_tags list.set_map)

lemma add_demand_le: "demand_of tag (add_demand t d cds) \<le> demand_of tag cds + (if t = tag then d else 0)"
proof (induction cds)
  case (Cons cd cds)
  then show ?case using usize_add_le [of "pending_demand cd" d] by auto
qed simp

lemma upstream_down_wf: "stage_wf (sys_loop sys) \<Longrightarrow> stage_wf (sys_loop (upstream_down S tag sys))"
  by (auto simp: upstream_down_def stage_wf_def split: if_splits)

lemma ask_upstream_wf: "stage_wf (sys_loop sys) \<Longrightarrow> stage_wf (sys_loop (ask_upstream M S a tag d sys))"
  by (auto simp: ask_upstream_def Let_def case_prod_beta upstream_down_wf)

lemma handle_subscribe_wf:
  "stage_wf (sys_loop sys) \<Longrightarrow> stage_wf (sys_loop (handle_subscribe M S self tag consumer opts reply sys))"
  by (rule stage_wfI)
     (auto simp: handle_subscribe_def Let_def case_prod_beta stage_wf_def consumer_demand_new_def dom_def split: if_splits)

lemma handle_subscription_confirmed_wf:
  assumes "stage_wf (sys_loop sys)"
  shows "stage_wf (sys_loop (handle_subscription_confirmed M S tag a opts sys))"
proof -
  have "demand_mode.Automatic \<noteq> m \<Longrightarrow> m = Manual" for m by (cases m) auto
  then show ?thesis
    using assms by (auto simp: handle_subscription_confirmed_def Let_def case_prod_beta stage_wf_def upstream_wf_def)
qed

lemma handle_cancel_wf: "stage_wf (sys_loop sys) \<Longrightarrow> stage_wf (sys_loop (handle_cancel M S tag reason sys))"
proof -
  assume wf: "stage_wf (sys_loop sys)"
  then have "stage_wf ((sys_loop sys)\<lparr>upstreams := hm_remove tag (upstreams (sys_loop sys))\<rparr>)"
    by (auto simp: stage_wf_def split: if_splits)
  with wf show ?thesis
    by (simp add: handle_cancel_def Let_def drop_downstream_wf split: option.split)
qed

context dispatcher
begin

text \<open>The producer side of \<open>handle_ask_demand\<close>: everything after the demand has been recorded.\<close>

lemma ask_downstream_gentle:
  assumes "mpsc_ok M" and "hm_get (upstreams (sys_loop sys)) tag = None"
  shows "gentle M (sys\<lparr>sys_loop := (sys_loop sys)\<lparr>consumer_demands := add_demand tag d (consumer_demands (sys_loop sys))\<rparr>\<rparr>)
           (handle_ask_demand M dispatch S tag d sys)"
proof -
  let ?s1 = "sys\<lparr>sys_loop := (sys_loop sys)\<lparr>consumer_demands := add_demand tag d (consumer_demands (sys_loop sys))\<rparr>\<rparr>"
  define s2 where "s2 = (if event_buffer (sys_loop ?s1) \<noteq> []
      then dispatch_and_cleanup S (drain_buffer M dispatch) ?s1 else ?s1)"
  have g: "gentle M ?s1 s2" by (simp add: s2_def gentle_refl drain_gentle [OF assms(1)])
  have "gentle M ?s1 (dispatch_and_cleanup S (dispatch_and_deliver M dispatch es) (s2\<lparr>sys_user := u\<rparr>))" for es u
    by (rule gentle_trans [OF g gentle_trans [OF gentle_refl(1) dispatch_gentle [OF assms(1)]]])
  with g show ?thesis
    unfolding handle_ask_demand_def assms(2) option.case Let_def s2_def [symmetric] case_prod_beta
    by simp
qed

lemma handle_ask_demand_wf:
  assumes "mpsc_ok M" and "stage_wf (sys_loop sys)"
  shows "stage_wf (sys_loop (handle_ask_demand M dispatch S tag d sys))"
proof (cases "hm_get (upstreams (sys_loop sys)) tag")
  case None
  show ?thesis by (rule gentle_wf [OF ask_downstream_gentle [OF assms(1) None]]) (use assms(2) in \<open>simp add: stage_wf_def\<close>)
next
  case (Some up)
  then show ?thesis using assms(2) by (simp add: handle_ask_demand_def ask_upstream_wf)
qed

text \<open>\<open>handle_events\<close> dispatches what the callback emitted and then accounts for the events.\<close>

lemma handle_events_cases:
  assumes "mpsc_ok M"
  obtains (untracked) s2 where "gentle M sys s2" and "handle_events M dispatch S tag es sys = s2"
      and "\<And>up. hm_get (upstreams (sys_loop sys)) tag = Some up \<Longrightarrow> up_mode up = Manual"
    | (tracked) s2 up up' ask room where "gentle M sys s2" and "hm_get (upstreams (sys_loop sys)) tag = Some up"
      and "up_mode up = Automatic" and "account_events (length es) room up = (up', ask)"
      and "handle_events M dispatch S tag es sys =
        (let s3 = s2\<lparr>sys_loop := (sys_loop s2)\<lparr>upstreams := hm_modify tag (\<lambda>_. up') (upstreams (sys_loop sys))\<rparr>\<rparr> in
         if 0 < ask then ask_upstream M S (producer_cmd_tx up) tag ask s3 else s3)"
proof -
  obtain emitted user where cb: "gs_handle_events S es tag (sys_user sys) = (emitted, user)" by fastforce
  define s2 where "s2 = (if ls_stage_type (sys_loop (sys\<lparr>sys_user := user\<rparr>)) = ProducerConsumer \<and> emitted \<noteq> []
      then dispatch_and_cleanup S (dispatch_and_deliver M dispatch emitted) (sys\<lparr>sys_user := user\<rparr>) else sys\<lparr>sys_user := user\<rparr>)"
  have g: "gentle M sys s2"
    unfolding s2_def by (auto intro: gentle_refl gentle_trans [OF gentle_refl(1) dispatch_gentle [OF assms]])
  define room where "room = (if ls_stage_type (sys_loop s2) = ProducerConsumer then total_downstream_demand (sys_loop s2) else usize_max)"
  have e: "handle_events M dispatch S tag es sys = (case hm_get (upstreams (sys_loop s2)) tag of
        None \<Rightarrow> s2
      | Some up \<Rightarrow>
          if up_mode up = Automatic
          then
            let (up', ask) = account_events (length es) room up;
                sys3 = s2\<lparr>sys_loop := (sys_loop s2)\<lparr>upstreams := hm_modify tag (\<lambda>_. up') (upstreams (sys_loop s2))\<rparr>\<rparr> in
            if ask > 0 then ask_upstream M S (producer_cmd_tx up) tag ask sys3 else sys3
          else s2)"
    unfolding handle_events_def cb Let_def prod.case s2_def [symmetric] room_def ..
  have u: "upstreams (sys_loop s2) = upstreams (sys_loop sys)" by (rule gentle_upstreams [OF g])
  show thesis
  proof (cases "\<exists>up. hm_get (upstreams (sys_loop sys)) tag = Some up \<and> up_mode up = Automatic")
    case True
    then obtain up where up: "hm_get (upstreams (sys_loop sys)) tag = Some up" "up_mode up = Automatic" by blast
    obtain up' ask where a: "account_events (length es) room up = (up', ask)" by fastforce
    show thesis by (rule tracked [OF g up a]) (simp add: e u up a Let_def)
  next
    case False
    then have "up_mode up = Manual" if "hm_get (upstreams (sys_loop sys)) tag = Some up" for up
      using that by (cases "up_mode up") auto
    moreover from False have "handle_events M dispatch S tag es sys = s2"
      by (auto simp: e u split: option.splits)
    ultimately show thesis using g by (intro untracked)
  qed
qed

lemma handle_events_wf:
  assumes "mpsc_ok M" and "stage_wf (sys_loop sys)"
  shows "stage_wf (sys_loop (handle_events M dispatch S tag es sys))"
  using assms(1)
proof (cases rule: handle_events_cases [where sys = sys and S = S and tag = tag and es = es])
  case (untracked s2)
  then show ?thesis using gentle_wf assms(2) by blast
next
  case (tracked s2 up up' ask room)
  have w2: "stage_wf (sys_loop s2)" by (rule gentle_wf [OF tracked(1) assms(2)])
  have "upstream_wf up'"
    using account_events_wf [OF tracked(4) stage_wf_upstream [OF assms(2) tracked(2)] tracked(3)] by blast
  then have "stage_wf ((sys_loop s2)\<lparr>upstreams := hm_modify tag (\<lambda>_. up') (upstreams (sys_loop sys))\<rparr>)"
    using w2 tracked(2) gentle_upstreams [OF tracked(1)] by (auto simp: stage_wf_def)
  then show ?thesis by (simp add: tracked(5) Let_def ask_upstream_wf)
qed

lemma handle_command_wf:
  assumes "mpsc_ok M" and "stage_wf (sys_loop sys)"
  shows "stage_wf (sys_loop (handle_command M dispatch S self cmd sys))"
  using assms
  by (cases cmd) (simp_all add: handle_subscribe_wf handle_subscription_confirmed_wf handle_cancel_wf
      handle_ask_demand_wf handle_events_wf gentle_wf [OF handle_call_gentle] gentle_wf [OF handle_cast_gentle])

end

inductive stage_reach ::
  "('v stage_command, 'c) mpsc \<Rightarrow> 'v dispatch_fun \<Rightarrow> ('v, 's) gen_stage \<Rightarrow> stage_addr \<Rightarrow> ('v, 's, 'c) stage_sys \<Rightarrow> bool"
  for M D S self where
  start: "gs_init S = Inr (ty, user) \<Longrightarrow>
    stage_reach M D S self \<lparr>sys_loop = loop_state_new ty, sys_user = user, sys_net = net, sys_replies = []\<rparr>"
| command: "stage_reach M D S self sys \<Longrightarrow> stage_reach M D S self (handle_command M D S self cmd sys)"
| environment: "stage_reach M D S self sys \<Longrightarrow> stage_reach M D S self (sys\<lparr>sys_net := net\<rparr>)"

context dispatcher
begin

lemma stage_reach_wf:
  assumes "mpsc_ok M" and "stage_reach M dispatch S self sys"
  shows "stage_wf (sys_loop sys)"
  using assms(2)
proof induction
  case (start ty user net)
  then show ?case by (auto simp: loop_state_new_def stage_wf_def)
qed (simp_all add: handle_command_wf [OF assms(1)])

end


definition sample_stage :: "(nat, nat) gen_stage" where
  "sample_stage = \<lparr>gs_init = Inr (Producer, 0), gs_handle_demand = (\<lambda>d n. ([n..<n + d], n + d)),
     gs_handle_events = (\<lambda>es _ n. ([], n + length es)), gs_handle_subscribe = (\<lambda>_ _ _ n. (Automatic, n)),
     gs_handle_cancel = (\<lambda>_ _ n. n), gs_handle_call = (\<lambda>m n. ((m, []), n)), gs_handle_cast = (\<lambda>m n. ([m], n)),
     gs_terminate = (\<lambda>_ n. n)\<rparr>"

definition sample_net :: "nat stage_command chan stage_net" where
  "sample_net = \<lparr>net_chan = (\<lambda>_. \<lparr>ch_queue = [], ch_capacity = Some 256, ch_open = True\<rparr>), net_strong = (\<lambda>_. True)\<rparr>"


end
