(* ===== verification/Backpressure.thy ===== *)
theory Backpressure
  imports Stage_Protocol
begin

text \<open>
  The back-pressure guarantee of a GenStage subscription: a producer and a consumer take the commands
  of their channels in any interleaving, other stages and handles add commands that do not concern
  the subscription, and channels close at any time. In every state the demand that is on its way to
  the producer, the demand the producer holds and the events queued for the consumer are together
  covered by what the consumer has asked for, which is at most the negotiated maximum.
\<close>

section \<open>What a handler queues\<close>

lemma stage_send_silent:
  assumes "mpsc_ok M" and "f cmd = 0"
  shows "nsum M f (snd (stage_send M a cmd net)) b \<le> nsum M f net b"
  using stage_send_nsum [OF assms(1), of f a cmd net b] assms(2) by (simp split: if_splits)

lemma handle_subscribe_nsum:
  assumes "mpsc_ok M"
  shows "nsum M f (sys_net (handle_subscribe M S self tag a opts r sys)) b
    \<le> nsum M f (sys_net sys) b + (if a = b then f (SubscriptionConfirmed tag self opts) else 0)"
  using stage_send_nsum [OF assms, of f a "SubscriptionConfirmed tag self opts" "sys_net sys" b]
  by (simp add: handle_subscribe_def Let_def case_prod_beta split: if_splits)

lemma handle_subscription_confirmed_nsum:
  assumes "mpsc_ok M"
  shows "nsum M f (sys_net (handle_subscription_confirmed M S tag a opts sys)) b
    \<le> nsum M f (sys_net sys) b + (if a = b then f (AskDemand tag (max (opt_max_demand opts) 1)) else 0)"
  using stage_send_nsum [OF assms, of f a "AskDemand tag (max (opt_max_demand opts) 1)" "sys_net sys" b]
  by (simp add: handle_subscription_confirmed_def Let_def case_prod_beta split: if_splits)

lemma handle_cancel_nsum:
  assumes "mpsc_ok M" and "\<And>t r. f (Cancel t r) = 0"
  shows "nsum M f (sys_net (handle_cancel M S tag reason sys)) b \<le> nsum M f (sys_net sys) b"
  using stage_send_silent [OF assms(1), where f = f and cmd = "Cancel tag reason"] assms(2)
  by (simp add: handle_cancel_def Let_def split: option.split)

lemma upstream_down_net [simp]: "sys_net (upstream_down S tag sys) = sys_net sys"
  by (simp add: upstream_down_def)

lemma ask_upstream_net: "sys_net (ask_upstream M S a tag d sys) = snd (stage_send M a (AskDemand tag d) (sys_net sys))"
  by (simp add: ask_upstream_def Let_def case_prod_beta)

lemma ask_upstream_nsum:
  assumes "mpsc_ok M"
  shows "nsum M f (sys_net (ask_upstream M S a tag d sys)) b
    \<le> nsum M f (sys_net sys) b + (if a = b then f (AskDemand tag d) else 0)"
  unfolding ask_upstream_net by (rule stage_send_nsum [OF assms])

lemma ask_upstream_silent:
  assumes "mpsc_ok M" and "f (AskDemand tag d) = 0"
  shows "nsum M f (sys_net (ask_upstream M S a tag d sys)) b \<le> nsum M f (sys_net sys) b"
  unfolding ask_upstream_net
  by (rule stage_send_silent [OF assms(1), where f = f and cmd = "AskDemand tag d", OF assms(2)])

lemma upstream_down_demands [simp]:
  "consumer_demands (sys_loop (upstream_down S tag sys)) = consumer_demands (sys_loop sys)"
  by (simp add: upstream_down_def)

lemma ask_upstream_demands [simp]:
  "consumer_demands (sys_loop (ask_upstream M S a tag d sys)) = consumer_demands (sys_loop sys)"
  by (simp add: ask_upstream_def Let_def case_prod_beta)

lemma ask_upstream_upstreams:
  "hm_get (upstreams (sys_loop (ask_upstream M S a tag d sys))) t \<in> {hm_get (upstreams (sys_loop sys)) t, None}"
  "t \<noteq> tag \<Longrightarrow> hm_get (upstreams (sys_loop (ask_upstream M S a tag d sys))) t = hm_get (upstreams (sys_loop sys)) t"
  by (auto simp: ask_upstream_def upstream_down_def Let_def case_prod_beta)

lemma event_credit_simps [simp]: "event_credit tag (Cancel t r) = 0" "event_credit tag (AskDemand t d) = 0"
  by simp_all

context dispatcher
begin

lemma handle_ask_demand_nsum:
  assumes "mpsc_ok M" and "\<And>t es. f (Events t es) = 0"
  shows "nsum M f (sys_net (handle_ask_demand M dispatch S tag d sys)) b
    \<le> nsum M f (sys_net sys) b + (case hm_get (upstreams (sys_loop sys)) tag of
         Some up \<Rightarrow> if producer_cmd_tx up = b then f (AskDemand tag d) else 0 | None \<Rightarrow> 0)"
proof (cases "hm_get (upstreams (sys_loop sys)) tag")
  case None
  from gentle_silent [OF ask_downstream_gentle [OF assms(1) None], of f] assms(2) None show ?thesis by simp
next
  case (Some up)
  then show ?thesis
    using ask_upstream_nsum [OF assms(1), of f S "producer_cmd_tx up" tag d sys b] by (simp add: handle_ask_demand_def)
qed

lemma handle_ask_demand_credit:
  assumes "mpsc_ok M"
  shows "nsum M (event_credit t) (sys_net (handle_ask_demand M dispatch S tag d sys)) b
      + demand_of t (consumer_demands (sys_loop (handle_ask_demand M dispatch S tag d sys)))
    \<le> nsum M (event_credit t) (sys_net sys) b + demand_of t (consumer_demands (sys_loop sys)) + (if tag = t then d else 0)"
proof (cases "hm_get (upstreams (sys_loop sys)) tag")
  case None
  from gentle_events [OF ask_downstream_gentle [OF assms None, of d S], of t b] add_demand_le [of t tag d "consumer_demands (sys_loop sys)"]
  show ?thesis by simp
next
  case (Some up)
  have "nsum M (event_credit t) (sys_net (ask_upstream M S (producer_cmd_tx up) tag d sys)) b \<le> nsum M (event_credit t) (sys_net sys) b"
    by (rule ask_upstream_silent [OF assms]) simp
  then show ?thesis using Some by (simp add: handle_ask_demand_def)
qed

lemma handle_ask_demand_demand:
  assumes "mpsc_ok M"
  shows "demand_of t (consumer_demands (sys_loop (handle_ask_demand M dispatch S tag d sys)))
    \<le> demand_of t (consumer_demands (sys_loop sys)) + (if tag = t then d else 0)"
proof (cases "hm_get (upstreams (sys_loop sys)) tag")
  case None
  from gentle_demand [OF ask_downstream_gentle [OF assms None, of d S], of t] add_demand_le [of t tag d "consumer_demands (sys_loop sys)"]
  show ?thesis by simp
next
  case (Some up)
  then show ?thesis by (simp add: handle_ask_demand_def)
qed

lemma handle_ask_demand_upstreams:
  assumes "mpsc_ok M"
  shows "hm_get (upstreams (sys_loop (handle_ask_demand M dispatch S tag d sys))) t \<in> {hm_get (upstreams (sys_loop sys)) t, None}"
    and "t \<noteq> tag \<Longrightarrow> hm_get (upstreams (sys_loop (handle_ask_demand M dispatch S tag d sys))) t = hm_get (upstreams (sys_loop sys)) t"
proof -
  have "hm_get (upstreams (sys_loop (handle_ask_demand M dispatch S tag d sys))) t \<in> {hm_get (upstreams (sys_loop sys)) t, None}
      \<and> (t \<noteq> tag \<longrightarrow> hm_get (upstreams (sys_loop (handle_ask_demand M dispatch S tag d sys))) t = hm_get (upstreams (sys_loop sys)) t)"
  proof (cases "hm_get (upstreams (sys_loop sys)) tag")
    case None
    from gentle_upstreams [OF ask_downstream_gentle [OF assms None, of d S]] show ?thesis by simp
  next
    case (Some up)
    then have e: "handle_ask_demand M dispatch S tag d sys = ask_upstream M S (producer_cmd_tx up) tag d sys"
      by (simp add: handle_ask_demand_def)
    show ?thesis unfolding e using ask_upstream_upstreams by blast
  qed
  then show "hm_get (upstreams (sys_loop (handle_ask_demand M dispatch S tag d sys))) t \<in> {hm_get (upstreams (sys_loop sys)) t, None}"
    and "t \<noteq> tag \<Longrightarrow> hm_get (upstreams (sys_loop (handle_ask_demand M dispatch S tag d sys))) t = hm_get (upstreams (sys_loop sys)) t"
    by blast+
qed

lemma handle_events_nsum:
  assumes "mpsc_ok M" and "\<And>t es. f (Events t es) = 0" and "\<And>d. f (AskDemand tag d) = 0"
  shows "nsum M f (sys_net (handle_events M dispatch S tag es sys)) b \<le> nsum M f (sys_net sys) b"
  using assms(1)
proof (cases rule: handle_events_cases [where sys = sys and S = S and tag = tag and es = es])
  case (untracked s2)
  with gentle_silent [OF untracked(1), of f b] assms(2) show ?thesis by simp
next
  case (tracked s2 up up' ask room)
  let ?s3 = "s2\<lparr>sys_loop := (sys_loop s2)\<lparr>upstreams := hm_modify tag (\<lambda>_. up') (upstreams (sys_loop sys))\<rparr>\<rparr>"
  have "nsum M f (sys_net (ask_upstream M S (producer_cmd_tx up) tag ask ?s3)) b \<le> nsum M f (sys_net s2) b"
    using ask_upstream_silent [OF assms(1), of f tag ask S "producer_cmd_tx up" ?s3 b] assms(3) by simp
  with gentle_silent [OF tracked(1), of f b] assms(2) show ?thesis unfolding tracked(5) Let_def by auto
qed

lemma handle_events_credit:
  assumes "mpsc_ok M"
  shows "nsum M (event_credit t) (sys_net (handle_events M dispatch S tag es sys)) b
      + demand_of t (consumer_demands (sys_loop (handle_events M dispatch S tag es sys)))
    \<le> nsum M (event_credit t) (sys_net sys) b + demand_of t (consumer_demands (sys_loop sys))"
  using assms
proof (cases rule: handle_events_cases [where sys = sys and S = S and tag = tag and es = es])
  case (untracked s2)
  with gentle_events [OF untracked(1)] show ?thesis by simp
next
  case (tracked s2 up up' ask room)
  let ?s3 = "s2\<lparr>sys_loop := (sys_loop s2)\<lparr>upstreams := hm_modify tag (\<lambda>_. up') (upstreams (sys_loop sys))\<rparr>\<rparr>"
  have "nsum M (event_credit t) (sys_net (ask_upstream M S (producer_cmd_tx up) tag ask ?s3)) b \<le> nsum M (event_credit t) (sys_net s2) b"
    using ask_upstream_silent [OF assms, of "event_credit t" tag ask S "producer_cmd_tx up" ?s3 b] by simp
  with gentle_events [OF tracked(1), of t b] show ?thesis unfolding tracked(5) Let_def by auto
qed

lemma handle_events_demand:
  assumes "mpsc_ok M"
  shows "demand_of t (consumer_demands (sys_loop (handle_events M dispatch S tag es sys)))
    \<le> demand_of t (consumer_demands (sys_loop sys))"
  using assms
proof (cases rule: handle_events_cases [where sys = sys and S = S and tag = tag and es = es])
  case (untracked s2)
  with gentle_demand [OF untracked(1)] show ?thesis by simp
next
  case (tracked s2 up up' ask room)
  with gentle_demand [OF tracked(1), of t] show ?thesis by (simp add: Let_def)
qed

lemma handle_events_upstreams:
  assumes "mpsc_ok M"
  shows "t \<noteq> tag \<Longrightarrow> hm_get (upstreams (sys_loop (handle_events M dispatch S tag es sys))) t = hm_get (upstreams (sys_loop sys)) t"
    and "hm_get (upstreams (sys_loop sys)) t = None \<Longrightarrow> hm_get (upstreams (sys_loop (handle_events M dispatch S tag es sys))) t = None"
proof -
  have "(t \<noteq> tag \<longrightarrow> hm_get (upstreams (sys_loop (handle_events M dispatch S tag es sys))) t = hm_get (upstreams (sys_loop sys)) t)
      \<and> (hm_get (upstreams (sys_loop sys)) t = None \<longrightarrow> hm_get (upstreams (sys_loop (handle_events M dispatch S tag es sys))) t = None)"
    using assms
  proof (cases rule: handle_events_cases [where sys = sys and S = S and tag = tag and es = es])
    case (untracked s2)
    then show ?thesis by (simp add: gentle_upstreams)
  next
    case (tracked s2 up up' ask room)
    then show ?thesis by (auto simp: Let_def ask_upstream_upstreams(2))
  qed
  then show "t \<noteq> tag \<Longrightarrow> hm_get (upstreams (sys_loop (handle_events M dispatch S tag es sys))) t = hm_get (upstreams (sys_loop sys)) t"
    and "hm_get (upstreams (sys_loop sys)) t = None \<Longrightarrow> hm_get (upstreams (sys_loop (handle_events M dispatch S tag es sys))) t = None"
    by blast+
qed

end

section \<open>Commands about a subscription\<close>

fun concerns :: "subscription_tag \<Rightarrow> 'v stage_command \<Rightarrow> bool" where
  "concerns t (Subscribe tag _ _ _) = (tag = t)"
| "concerns t (SubscriptionConfirmed tag _ _) = (tag = t)"
| "concerns t (AskDemand tag _) = (tag = t)"
| "concerns t (Events tag _) = (tag = t)"
| "concerns t cmd = False"

fun ask_credit :: "subscription_tag \<Rightarrow> 'v stage_command \<Rightarrow> nat" where
  "ask_credit t (AskDemand tag d) = (if tag = t then d else 0)"
| "ask_credit t cmd = 0"

text \<open>The commands that set the subscription up.\<close>

fun handshake :: "subscription_tag \<Rightarrow> 'v stage_command \<Rightarrow> nat" where
  "handshake t (Subscribe tag _ _ _) = (if tag = t then 1 else 0)"
| "handshake t (SubscriptionConfirmed tag _ _) = (if tag = t then 1 else 0)"
| "handshake t cmd = 0"

text \<open>The commands about the subscription that must not reach the producer, or the consumer.\<close>

fun misplaced_p :: "subscription_tag \<Rightarrow> stage_addr \<Rightarrow> subscribe_opts \<Rightarrow> 'v stage_command \<Rightarrow> nat" where
  "misplaced_p t p opts (Subscribe tag a o' _) = (if tag = t \<and> (a = p \<or> o' \<noteq> opts) then 1 else 0)"
| "misplaced_p t p opts (SubscriptionConfirmed tag _ _) = (if tag = t then 1 else 0)"
| "misplaced_p t p opts cmd = 0"

fun misplaced_c :: "subscription_tag \<Rightarrow> stage_addr \<Rightarrow> subscribe_opts \<Rightarrow> 'v stage_command \<Rightarrow> nat" where
  "misplaced_c t p opts (Subscribe tag _ _ _) = (if tag = t then 1 else 0)"
| "misplaced_c t p opts (SubscriptionConfirmed tag a o') = (if tag = t \<and> (a \<noteq> p \<or> o' \<noteq> opts) then 1 else 0)"
| "misplaced_c t p opts (AskDemand tag d) = (if tag = t then d else 0)"
| "misplaced_c t p opts cmd = 0"

definition blind :: "subscription_tag \<Rightarrow> ('v stage_command \<Rightarrow> nat) \<Rightarrow> bool" where
  "blind t f \<longleftrightarrow> (\<forall>cmd. \<not> concerns t cmd \<longrightarrow> f cmd = 0) \<and> (\<forall>es. f (Events t es) = 0)"

lemma unconcerned: "\<not> concerns t cmd \<Longrightarrow> ask_credit t cmd = 0" "\<not> concerns t cmd \<Longrightarrow> handshake t cmd = 0"
  "\<not> concerns t cmd \<Longrightarrow> misplaced_p t p opts cmd = 0" "\<not> concerns t cmd \<Longrightarrow> misplaced_c t p opts cmd = 0"
  "\<not> concerns t cmd \<Longrightarrow> event_credit t cmd = 0"
  by (cases cmd; simp)+

lemma blind_simps [simp]: "blind t (ask_credit t)" "blind t (handshake t)" "blind t (misplaced_p t p opts)"
  "blind t (misplaced_c t p opts)"
  by (simp_all add: blind_def unconcerned)

lemma blind_Events: "blind t f \<Longrightarrow> f (Events tag es) = 0"
  unfolding blind_def by (cases "tag = t") simp_all

lemma blind_Cancel: "blind t f \<Longrightarrow> f (Cancel tag r) = 0"
  unfolding blind_def by simp

lemma blind_other: "blind t f \<Longrightarrow> tag \<noteq> t \<Longrightarrow> f (AskDemand tag d) = 0" "blind t f \<Longrightarrow> tag \<noteq> t \<Longrightarrow> f (SubscriptionConfirmed tag a opts) = 0"
  unfolding blind_def by simp_all

lemma handle_cancel_upstreams:
  "hm_get (upstreams (sys_loop (handle_cancel M S tag reason sys))) t \<in> {hm_get (upstreams (sys_loop sys)) t, None}"
  by (auto simp: handle_cancel_def Let_def split: option.splits)

lemma handle_cancel_demand:
  "demand_of t (consumer_demands (sys_loop (handle_cancel M S tag reason sys))) \<le> demand_of t (consumer_demands (sys_loop sys))"
  by (auto simp: handle_cancel_def Let_def drop_downstream_def demand_of_filter_le split: option.splits)

lemma demand_of_append [simp]: "demand_of t (xs @ ys) = demand_of t xs + demand_of t ys"
  by (simp add: demand_of_def)

lemma handle_subscribe_demand:
  "demand_of t (consumer_demands (sys_loop (handle_subscribe M S self tag a opts r sys))) = demand_of t (consumer_demands (sys_loop sys))"
  by (simp add: handle_subscribe_def Let_def case_prod_beta consumer_demand_new_def)

lemma handle_subscription_confirmed_demand:
  "consumer_demands (sys_loop (handle_subscription_confirmed M S tag a opts sys)) = consumer_demands (sys_loop sys)"
  by (simp add: handle_subscription_confirmed_def Let_def case_prod_beta)

lemma handle_subscribe_upstreams:
  "upstreams (sys_loop (handle_subscribe M S self tag a opts r sys)) = upstreams (sys_loop sys)"
  by (simp add: handle_subscribe_def Let_def case_prod_beta)

lemma handle_subscription_confirmed_upstreams:
  "t \<noteq> tag \<Longrightarrow> hm_get (upstreams (sys_loop (handle_subscription_confirmed M S tag a opts sys))) t = hm_get (upstreams (sys_loop sys)) t"
  by (simp add: handle_subscription_confirmed_def Let_def case_prod_beta)

context dispatcher
begin

text \<open>A handler adds nothing about a subscription that its command does not concern.\<close>

lemma handle_command_blind:
  assumes "mpsc_ok M" and f: "blind t f" and "handshake t cmd = 0"
    and up: "concerns t cmd \<Longrightarrow> hm_get (upstreams (sys_loop sys)) t = None"
  shows "nsum M f (sys_net (handle_command M dispatch S self cmd sys)) b \<le> nsum M f (sys_net sys) b"
proof (cases cmd)
  case (Subscribe tag a opts r)
  with assms have "f (SubscriptionConfirmed tag self opts) = 0" by (intro blind_other) (auto split: if_splits)
  with Subscribe show ?thesis
    using handle_subscribe_nsum [OF assms(1), of f S self tag a opts r sys b] by (simp split: if_splits)
next
  case (SubscriptionConfirmed tag a opts)
  with assms have "f (AskDemand tag (max (opt_max_demand opts) 1)) = 0" by (intro blind_other) (auto split: if_splits)
  with SubscriptionConfirmed show ?thesis
    using handle_subscription_confirmed_nsum [OF assms(1), of f S tag a opts sys b] by (simp split: if_splits)
next
  case (Cancel tag r)
  then show ?thesis using handle_cancel_nsum [OF assms(1), of f] blind_Cancel [OF f] by simp
next
  case (AskDemand tag d)
  then have "tag = t \<Longrightarrow> hm_get (upstreams (sys_loop sys)) tag = None" using up by simp
  then show ?thesis
    using AskDemand handle_ask_demand_nsum [OF assms(1), of f S tag d sys b] blind_Events [OF f] blind_other(1) [OF f]
    by (cases "tag = t") (auto split: option.splits if_splits)
next
  case (Events tag es)
  show ?thesis
  proof (cases "tag = t")
    case True
    then have n: "hm_get (upstreams (sys_loop sys)) tag = None" using up Events by simp
    from assms(1) show ?thesis
    proof (cases rule: handle_events_cases [where sys = sys and S = S and tag = tag and es = es])
      case (untracked s2)
      then show ?thesis using gentle_silent [OF untracked(1), of f b] blind_Events [OF f] Events by simp
    next
      case (tracked s2 up up' ask room)
      with n show ?thesis by simp
    qed
  next
    case False
    then show ?thesis
      using Events handle_events_nsum [OF assms(1), of f tag S es sys b] blind_Events [OF f] blind_other(1) [OF f False]
      by simp
  qed
next
  case (Call msg r)
  then show ?thesis using gentle_silent [OF handle_call_gentle [OF assms(1)], of f] blind_Events [OF f] by simp
next
  case (Cast msg)
  then show ?thesis using gentle_silent [OF handle_cast_gentle [OF assms(1)], of f] blind_Events [OF f] by simp
qed

lemma handle_command_credit:
  assumes "mpsc_ok M"
  shows "nsum M (event_credit t) (sys_net (handle_command M dispatch S self cmd sys)) b
      + demand_of t (consumer_demands (sys_loop (handle_command M dispatch S self cmd sys)))
    \<le> nsum M (event_credit t) (sys_net sys) b + demand_of t (consumer_demands (sys_loop sys)) + ask_credit t cmd"
proof (cases cmd)
  case (Subscribe tag a opts r)
  then show ?thesis
    using handle_subscribe_nsum [OF assms, of "event_credit t" S self tag a opts r sys b]
    by (simp add: handle_subscribe_demand split: if_splits)
next
  case (SubscriptionConfirmed tag a opts)
  then show ?thesis
    using handle_subscription_confirmed_nsum [OF assms, of "event_credit t" S tag a opts sys b]
    by (simp add: handle_subscription_confirmed_demand split: if_splits)
next
  case (Cancel tag r)
  then show ?thesis
    using handle_cancel_nsum [OF assms, of "event_credit t" S tag r sys b] handle_cancel_demand [of t M S tag r sys] by simp
next
  case (AskDemand tag d)
  then show ?thesis using handle_ask_demand_credit [OF assms, of t S tag d sys b] by simp
next
  case (Events tag es)
  then show ?thesis using handle_events_credit [OF assms, of t S tag es sys b] by simp
next
  case (Call msg r)
  then show ?thesis using gentle_events [OF handle_call_gentle [OF assms]] by simp
next
  case (Cast msg)
  then show ?thesis using gentle_events [OF handle_cast_gentle [OF assms]] by simp
qed

lemma handle_command_demand:
  assumes "mpsc_ok M"
  shows "demand_of t (consumer_demands (sys_loop (handle_command M dispatch S self cmd sys)))
    \<le> demand_of t (consumer_demands (sys_loop sys)) + ask_credit t cmd"
proof (cases cmd)
  case (AskDemand tag d)
  then show ?thesis using handle_ask_demand_demand [OF assms, of t S tag d sys] by simp
qed (simp_all add: handle_subscribe_demand handle_subscription_confirmed_demand handle_cancel_demand
    handle_events_demand [OF assms] gentle_demand [OF handle_call_gentle [OF assms]] gentle_demand [OF handle_cast_gentle [OF assms]])

lemma handle_command_upstreams:
  assumes "mpsc_ok M" and "\<And>a opts. cmd \<noteq> SubscriptionConfirmed t a opts" and "\<And>es. cmd \<noteq> Events t es"
  shows "hm_get (upstreams (sys_loop (handle_command M dispatch S self cmd sys))) t \<in> {hm_get (upstreams (sys_loop sys)) t, None}"
proof (cases cmd)
  case (SubscriptionConfirmed tag a opts)
  with assms(2) have "t \<noteq> tag" by auto
  with SubscriptionConfirmed show ?thesis by (simp add: handle_subscription_confirmed_upstreams)
next
  case (Events tag es)
  with assms(3) have "t \<noteq> tag" by auto
  with Events show ?thesis using handle_events_upstreams(1) [OF assms(1), of t tag S es sys] by simp
next
  case (AskDemand tag d)
  then show ?thesis using handle_ask_demand_upstreams(1) [OF assms(1), of S tag d sys t] by simp
next
  case (Cancel tag r)
  then show ?thesis using handle_cancel_upstreams [of M S tag r sys t] by simp
qed (simp_all add: handle_subscribe_upstreams gentle_upstreams [OF handle_call_gentle [OF assms(1)]]
    gentle_upstreams [OF handle_cast_gentle [OF assms(1)]])

lemma handle_command_no_upstream:
  assumes "mpsc_ok M" and "\<And>a opts. cmd \<noteq> SubscriptionConfirmed t a opts" and "hm_get (upstreams (sys_loop sys)) t = None"
  shows "hm_get (upstreams (sys_loop (handle_command M dispatch S self cmd sys))) t = None"
proof (cases "\<exists>es. cmd = Events t es")
  case True
  then show ?thesis using handle_events_upstreams(2) [OF assms(1,3)] by auto
next
  case False
  then show ?thesis using handle_command_upstreams [OF assms(1,2), of S self sys] assms(3) by auto
qed

end

section \<open>A producer and a consumer in an environment\<close>

record ('v, 's, 'u, 'c) pair_sys =
  producer_loop :: "'v loop_state"
  producer_user :: 's
  consumer_loop :: "'v loop_state"
  consumer_user :: 'u
  pair_net :: "'c stage_net"

definition as_stage :: "'v loop_state \<Rightarrow> 's \<Rightarrow> 'c stage_net \<Rightarrow> ('v, 's, 'c) stage_sys" where
  "as_stage ls u net = \<lparr>sys_loop = ls, sys_user = u, sys_net = net, sys_replies = []\<rparr>"

lemma as_stage_simps [simp]: "sys_loop (as_stage ls u net) = ls" "sys_net (as_stage ls u net) = net"
  by (simp_all add: as_stage_def)

text \<open>
  The steps: the producer or the consumer takes the first command of its channel and handles it; or
  the environment adds commands that do not concern the subscription to the two channels, and
  changes anything else of the net.
\<close>

inductive pair_step ::
  "('v stage_command, 'c) mpsc \<Rightarrow> 'v dispatch_fun \<Rightarrow> ('v, 's) gen_stage \<Rightarrow> 'v dispatch_fun \<Rightarrow> ('v, 'u) gen_stage
     \<Rightarrow> subscription_tag \<Rightarrow> stage_addr \<Rightarrow> stage_addr \<Rightarrow> ('v, 's, 'u, 'c) pair_sys \<Rightarrow> ('v, 's, 'u, 'c) pair_sys \<Rightarrow> bool"
  for M Dp Sp Dc Sc t p c where
  produce: "channel_try_recv M (net_chan (pair_net s) p) = (Some cmd, ch) \<Longrightarrow>
    s' = handle_command M Dp Sp p cmd (as_stage (producer_loop s) (producer_user s) (set_chan p ch (pair_net s))) \<Longrightarrow>
    pair_step M Dp Sp Dc Sc t p c s
      (s\<lparr>producer_loop := sys_loop s', producer_user := sys_user s', pair_net := sys_net s'\<rparr>)"
| consume: "channel_try_recv M (net_chan (pair_net s) c) = (Some cmd, ch) \<Longrightarrow>
    s' = handle_command M Dc Sc c cmd (as_stage (consumer_loop s) (consumer_user s) (set_chan c ch (pair_net s))) \<Longrightarrow>
    pair_step M Dp Sp Dc Sc t p c s
      (s\<lparr>consumer_loop := sys_loop s', consumer_user := sys_user s', pair_net := sys_net s'\<rparr>)"
| environment: "(\<And>a. a \<in> {p, c} \<Longrightarrow> \<exists>cmds. queued M (net_chan net a) = queued M (net_chan (pair_net s) a) @ cmds
      \<and> (\<forall>cmd \<in> set cmds. \<not> concerns t cmd)) \<Longrightarrow>
    pair_step M Dp Sp Dc Sc t p c s (s\<lparr>pair_net := net\<rparr>)"

text \<open>The credit of the subscription that is under way.\<close>

definition credit :: "('v stage_command, 'c) mpsc \<Rightarrow> subscription_tag \<Rightarrow> stage_addr \<Rightarrow> stage_addr \<Rightarrow> 'v loop_state \<Rightarrow> 'c stage_net \<Rightarrow> nat" where
  "credit M t p c pl net =
     nsum M (ask_credit t) net p + demand_of t (consumer_demands pl) + nsum M (event_credit t) net c"

definition window_inv ::
  "('v stage_command, 'c) mpsc \<Rightarrow> subscription_tag \<Rightarrow> stage_addr \<Rightarrow> stage_addr \<Rightarrow> subscribe_opts
     \<Rightarrow> 'v loop_state \<Rightarrow> 'v loop_state \<Rightarrow> 'c stage_net \<Rightarrow> bool" where
  "window_inv M t p c opts pl cl net \<longleftrightarrow>
     stage_wf pl \<and> stage_wf cl
   \<and> hm_get (upstreams pl) t = None \<and> demand_of t (consumer_demands cl) = 0
   \<and> nsum M (misplaced_p t p opts) net p = 0 \<and> nsum M (misplaced_c t p opts) net c = 0
   \<and> nsum M (handshake t) net p + nsum M (handshake t) net c \<le> 1
   \<and> (nsum M (handshake t) net p + nsum M (handshake t) net c = 1 \<longrightarrow>
        hm_get (upstreams cl) t = None \<and> credit M t p c pl net = 0)
   \<and> (\<forall>up. hm_get (upstreams cl) t = Some up \<longrightarrow>
        credit M t p c pl net \<le> outstanding_demand up \<and> up_max_demand up = max (opt_max_demand opts) 1
      \<and> producer_cmd_tx up = p)"

lemma window_invI:
  assumes "stage_wf pl" "stage_wf cl" "hm_get (upstreams pl) t = None" "demand_of t (consumer_demands cl) = 0"
    and "nsum M (misplaced_p t p opts) net p = 0" "nsum M (misplaced_c t p opts) net c = 0"
    and "nsum M (handshake t) net p + nsum M (handshake t) net c \<le> 1"
    and "nsum M (handshake t) net p + nsum M (handshake t) net c = 1 \<Longrightarrow>
        hm_get (upstreams cl) t = None \<and> credit M t p c pl net = 0"
    and "\<And>up. hm_get (upstreams cl) t = Some up \<Longrightarrow>
        credit M t p c pl net \<le> outstanding_demand up \<and> up_max_demand up = max (opt_max_demand opts) 1
      \<and> producer_cmd_tx up = p"
  shows "window_inv M t p c opts pl cl net"
  using assms unfolding window_inv_def by blast

lemma window_invD:
  assumes "window_inv M t p c opts pl cl net"
  shows "stage_wf pl" "stage_wf cl" "hm_get (upstreams pl) t = None" "demand_of t (consumer_demands cl) = 0"
    and "nsum M (misplaced_p t p opts) net p = 0" "nsum M (misplaced_c t p opts) net c = 0"
    and "nsum M (handshake t) net p + nsum M (handshake t) net c \<le> 1"
    and "nsum M (handshake t) net p + nsum M (handshake t) net c = 1 \<Longrightarrow> hm_get (upstreams cl) t = None"
    and "nsum M (handshake t) net p + nsum M (handshake t) net c = 1 \<Longrightarrow> credit M t p c pl net = 0"
    and "hm_get (upstreams cl) t = Some up \<Longrightarrow> credit M t p c pl net \<le> outstanding_demand up"
    and "hm_get (upstreams cl) t = Some up \<Longrightarrow> up_max_demand up = max (opt_max_demand opts) 1"
    and "hm_get (upstreams cl) t = Some up \<Longrightarrow> producer_cmd_tx up = p"
  using assms unfolding window_inv_def by blast+

text \<open>Nothing that only loses commands and credit can break the invariant.\<close>

lemma window_inv_mono:
  assumes inv: "window_inv M t p c opts pl cl net"
    and "stage_wf pl'" "stage_wf cl'" "hm_get (upstreams pl') t = None" "demand_of t (consumer_demands cl') = 0"
    and "nsum M (misplaced_p t p opts) net' p \<le> nsum M (misplaced_p t p opts) net p"
    and "nsum M (misplaced_c t p opts) net' c \<le> nsum M (misplaced_c t p opts) net c"
    and "nsum M (handshake t) net' p \<le> nsum M (handshake t) net p"
    and "nsum M (handshake t) net' c \<le> nsum M (handshake t) net c"
    and "credit M t p c pl' net' \<le> credit M t p c pl net"
    and "hm_get (upstreams cl') t \<in> {hm_get (upstreams cl) t, None}"
  shows "window_inv M t p c opts pl' cl' net'"
proof (rule window_invI)
  note D = window_invD [OF inv]
  assume "nsum M (handshake t) net' p + nsum M (handshake t) net' c = 1"
  then have "nsum M (handshake t) net p + nsum M (handshake t) net c = 1" using D(7) assms(8,9) by linarith
  from D(8) [OF this] D(9) [OF this] assms(10,11)
  show "hm_get (upstreams cl') t = None \<and> credit M t p c pl' net' = 0" by auto
next
  note D = window_invD [OF inv]
  fix up assume "hm_get (upstreams cl') t = Some up"
  then have u: "hm_get (upstreams cl) t = Some up" using assms(11) by auto
  from D(10) [OF u] D(11) [OF u] D(12) [OF u] assms(10)
  show "credit M t p c pl' net' \<le> outstanding_demand up \<and> up_max_demand up = max (opt_max_demand opts) 1
      \<and> producer_cmd_tx up = p" by linarith
qed (use window_invD(5-7) [OF inv] assms in linarith)+

text \<open>Taking a command out of a channel.\<close>

lemma recv_nsum:
  assumes "mpsc_ok M" and "channel_try_recv M (net_chan net a) = (Some cmd, ch)"
  shows "nsum M f net b = nsum M f (set_chan a ch net) b + (if b = a then f cmd else 0)"
proof -
  have "fst (channel_try_recv M (net_chan net a)) = (case queued M (net_chan net a) of [] \<Rightarrow> None | m # _ \<Rightarrow> Some m)"
      "queued M (snd (channel_try_recv M (net_chan net a))) = tl (queued M (net_chan net a))"
    using assms(1) unfolding mpsc_ok_def by blast+
  then have "queued M (net_chan net a) = cmd # queued M ch"
    using assms(2) by (auto split: list.splits)
  then show ?thesis by (simp add: nsum_def)
qed

section \<open>Every step keeps the window\<close>

lemma account_events_tx: "account_events n room up = (up', ask) \<Longrightarrow> producer_cmd_tx up' = producer_cmd_tx up"
  by (auto simp: account_events_def Let_def split: if_splits)

context dispatcher
begin

lemma produce_blind:
  assumes M: "mpsc_ok M" and up: "hm_get (upstreams pl) t = None"
    and recv: "channel_try_recv M (net_chan net p) = (Some cmd, ch)"
    and s': "s' = handle_command M dispatch S p cmd (as_stage pl u (set_chan p ch net))"
    and h: "handshake t cmd = 0" and f: "blind t f"
  shows "nsum M f (sys_net s') b + (if b = p then f cmd else 0) \<le> nsum M f net b"
  using handle_command_blind [OF M f h, of "as_stage pl u (set_chan p ch net)" S p b] recv_nsum [OF M recv, of f b] up
  by (simp add: s')

lemma produce_events:
  assumes M: "mpsc_ok M" and pc: "p \<noteq> c"
    and recv: "channel_try_recv M (net_chan net p) = (Some cmd, ch)"
    and s': "s' = handle_command M dispatch S p cmd (as_stage pl u (set_chan p ch net))"
  shows "nsum M (event_credit t) (sys_net s') c + demand_of t (consumer_demands (sys_loop s'))
      \<le> nsum M (event_credit t) net c + demand_of t (consumer_demands pl) + ask_credit t cmd"
  using handle_command_credit [OF M, of t S p cmd "as_stage pl u (set_chan p ch net)" c]
    recv_nsum [OF M recv, of "event_credit t" c] pc by (simp add: s')

lemma produce_credit:
  assumes M: "mpsc_ok M" and pc: "p \<noteq> c" and up: "hm_get (upstreams pl) t = None"
    and recv: "channel_try_recv M (net_chan net p) = (Some cmd, ch)"
    and s': "s' = handle_command M dispatch S p cmd (as_stage pl u (set_chan p ch net))"
    and h: "handshake t cmd = 0"
  shows "credit M t p c (sys_loop s') (sys_net s') \<le> credit M t p c pl net"
  using produce_events [OF M pc recv s', of t] produce_blind [OF M up recv s' h blind_simps(1), of p]
  by (simp add: credit_def)

lemma produce_inv:
  assumes M: "mpsc_ok M" and pc: "p \<noteq> c" and inv: "window_inv M t p c opts pl cl net"
    and recv: "channel_try_recv M (net_chan net p) = (Some cmd, ch)"
    and s': "s' = handle_command M dispatch S p cmd (as_stage pl u (set_chan p ch net))"
  shows "window_inv M t p c opts (sys_loop s') cl (sys_net s')"
proof -
  note D = window_invD [OF inv] and R = recv_nsum [OF M recv]
  have mis: "misplaced_p t p opts cmd = 0" using D(5) R [of "misplaced_p t p opts" p] by simp
  then have nc: "cmd \<noteq> SubscriptionConfirmed t a o'" for a o' by auto
  have wf: "stage_wf (sys_loop s')" unfolding s' by (rule handle_command_wf [OF M]) (simp add: D)
  have up: "hm_get (upstreams (sys_loop s')) t = None"
    unfolding s' by (rule handle_command_no_upstream [OF M nc]) (simp add: D)
  note cr = produce_events [OF M pc recv s', of t]
  show ?thesis
  proof (cases "handshake t cmd = 0")
    case True
    have le: "nsum M f (sys_net s') b \<le> nsum M f net b" if "blind t f" for f b
      using produce_blind [OF M D(3) recv s' True that, of b] by simp
    have "credit M t p c (sys_loop s') (sys_net s') \<le> credit M t p c pl net"
      by (rule produce_credit [OF M pc D(3) recv s' True])
    then show ?thesis
      by (intro window_inv_mono [OF inv wf D(2) up D(4)]) (simp_all add: le)
  next
    case False
    then obtain a r where cmd: "cmd = Subscribe t a opts r" "a \<noteq> p"
      using mis by (cases cmd) (auto split: if_splits)
    have h: "nsum M (handshake t) net p = 1" "nsum M (handshake t) net c = 0"
      using R [of "handshake t" p] D(7) cmd by simp_all
    have z: "hm_get (upstreams cl) t = None" "credit M t p c pl net = 0" using D(8,9) h by simp_all
    have sn: "nsum M f (sys_net s') b \<le> nsum M f (set_chan p ch net) b
        + (if a = b then f (SubscriptionConfirmed t p opts) else 0)" for f b
      using handle_subscribe_nsum [OF M, of f S p t a opts r "as_stage pl u (set_chan p ch net)" b] by (simp add: s' cmd(1))
    have "nsum M (misplaced_p t p opts) (sys_net s') p = 0" "nsum M (ask_credit t) (sys_net s') p \<le> nsum M (ask_credit t) net p"
        "nsum M (handshake t) (sys_net s') p = 0"
      using sn [of "misplaced_p t p opts" p] sn [of "ask_credit t" p] sn [of "handshake t" p] cmd D(5) h(1)
        R [of "misplaced_p t p opts" p] R [of "ask_credit t" p] R [of "handshake t" p] by simp_all
    moreover have "nsum M (misplaced_c t p opts) (sys_net s') c = 0" "nsum M (handshake t) (sys_net s') c \<le> 1"
      using sn [of "misplaced_c t p opts" c] sn [of "handshake t" c] D(6) h(2) pc
        R [of "misplaced_c t p opts" c] R [of "handshake t" c] by (simp_all split: if_splits)
    moreover have "credit M t p c (sys_loop s') (sys_net s') = 0"
      using cr z(2) cmd calculation(2) by (simp add: credit_def)
    ultimately show ?thesis using wf up z(1) D(2,4) by (intro window_invI) simp_all
  qed
qed

lemma consume_events_inv:
  assumes M: "mpsc_ok M" and pc: "p \<noteq> c" and opts: "opt_max_demand opts \<le> usize_max"
    and inv: "window_inv M t p c opts pl cl net"
    and recv: "channel_try_recv M (net_chan net c) = (Some (Events t es), ch)"
    and s': "s' = handle_events M dispatch S t es (as_stage cl u (set_chan c ch net))"
  shows "window_inv M t p c opts pl (sys_loop s') (sys_net s')"
proof -
  note D = window_invD [OF inv] and R = recv_nsum [OF M recv]
  let ?sys = "as_stage cl u (set_chan c ch net)"
  have wf: "stage_wf (sys_loop s')" unfolding s' by (rule handle_events_wf [OF M]) (simp add: D)
  have dem: "demand_of t (consumer_demands (sys_loop s')) = 0"
    using handle_events_demand [OF M, of t S t es ?sys] by (simp add: s' D)
  have ev: "nsum M (event_credit t) (sys_net s') c + length es \<le> nsum M (event_credit t) net c"
    using handle_events_credit [OF M, of t S t es ?sys c] R [of "event_credit t" c] by (simp add: s' D)
  from M show ?thesis
  proof (cases rule: handle_events_cases [where sys = ?sys and S = S and tag = t and es = es])
    case (untracked s2)
    have le: "nsum M f (sys_net s') b \<le> nsum M f net b" if "blind t f" for f b
      using gentle_silent [OF untracked(1), of f b] blind_Events [OF that] R [of f b] by (simp add: s' untracked(2))
    have "upstreams (sys_loop s') = upstreams cl"
      using gentle_upstreams [OF untracked(1)] by (simp add: s' untracked(2))
    moreover have "credit M t p c pl (sys_net s') \<le> credit M t p c pl net"
      using ev le [of "ask_credit t" p] by (simp add: credit_def)
    ultimately show ?thesis by (intro window_inv_mono [OF inv D(1) wf D(3) dem]) (simp_all add: le)
  next
    case (tracked s2 up up' ask room)
    then have u: "hm_get (upstreams cl) t = Some up" by simp
    have wu: "upstream_wf up" by (rule stage_wf_upstream [OF D(2) u])
    have "up_max_demand up \<le> usize_max" using D(11) [OF u] opts by (simp add: usize_max_def)
    note out = account_events_outstanding [OF tracked(4) wu this]
    have h: "nsum M (handshake t) net p = 0" "nsum M (handshake t) net c = 0"
      using D(7,8) u by (cases "nsum M (handshake t) net p + nsum M (handshake t) net c"; simp)+
    let ?s3 = "s2\<lparr>sys_loop := (sys_loop s2)\<lparr>upstreams := hm_modify t (\<lambda>_. up') (upstreams (sys_loop ?sys))\<rparr>\<rparr>"
    have e: "s' = (if 0 < ask then ask_upstream M S p t ask ?s3 else ?s3)"
      using tracked(5) D(12) [OF u] by (simp add: s' Let_def)
    have q: "nsum M f (sys_net s') b \<le> nsum M f net b + (if b = p then f (AskDemand t ask) else 0)" if "blind t f" for f b
    proof -
      have "nsum M f (sys_net s2) b \<le> nsum M f net b"
        using gentle_silent [OF tracked(1), of f b] blind_Events [OF that] R [of f b] by simp
      then show ?thesis using ask_upstream_nsum [OF M, of f S p t ask ?s3 b] by (auto simp: e split: if_splits)
    qed
    have "hm_get (upstreams (sys_loop s')) t \<in> {Some up', None}"
      using ask_upstream_upstreams(1) [of M S p t ask ?s3 t] u by (simp add: e)
    then have "outstanding_demand v = outstanding_demand up - length es + ask \<and> up_max_demand v = max (opt_max_demand opts) 1
        \<and> producer_cmd_tx v = p" if "hm_get (upstreams (sys_loop s')) t = Some v" for v
      using that out account_events_wf [OF tracked(4) wu tracked(3)] D(11) [OF u] D(12) [OF u]
        account_events_tx [OF tracked(4)] by simp
    moreover have "credit M t p c pl (sys_net s') \<le> outstanding_demand up - length es + ask"
      using ev q [of "ask_credit t" p] D(10) [OF u] by (simp add: credit_def)
    moreover have "nsum M (misplaced_p t p opts) (sys_net s') p = 0" "nsum M (misplaced_c t p opts) (sys_net s') c = 0"
        "nsum M (handshake t) (sys_net s') p = 0" "nsum M (handshake t) (sys_net s') c = 0"
      using q [of "misplaced_p t p opts" p] q [of "misplaced_c t p opts" c] q [of "handshake t" p] q [of "handshake t" c] D(5,6) h pc
      by simp_all
    ultimately show ?thesis using wf dem D(1,3) by (intro window_invI) simp_all
  qed
qed

text \<open>The commands at the consumer that can only lose credit: those that do not concern the subscription, and an empty ask.\<close>

lemma consume_quiet:
  assumes M: "mpsc_ok M" and recv: "channel_try_recv M (net_chan net c) = (Some cmd, ch)"
    and s': "s' = handle_command M dispatch S c cmd (as_stage cl u (set_chan c ch net))"
    and cmd: "cmd = AskDemand t 0 \<or> \<not> concerns t cmd"
  shows "blind t f \<Longrightarrow> f (AskDemand t 0) = 0 \<Longrightarrow> nsum M f (sys_net s') b \<le> nsum M f net b"
    and "hm_get (upstreams (sys_loop s')) t \<in> {hm_get (upstreams cl) t, None}"
proof -
  note R = recv_nsum [OF M recv]
  let ?sys = "as_stage cl u (set_chan c ch net)"
  show "nsum M f (sys_net s') b \<le> nsum M f net b" if f: "blind t f" "f (AskDemand t 0) = 0"
  proof (cases "concerns t cmd")
    case True
    then have ask: "cmd = AskDemand t 0" using cmd by blast
    show ?thesis
      using handle_ask_demand_nsum [OF M, of f S t 0 ?sys b] blind_Events [OF f(1)] f(2) R [of f b]
      by (auto simp: s' ask split: option.splits if_splits)
  next
    case False
    then show ?thesis
      using handle_command_blind [OF M f(1) unconcerned(2) [OF False], of ?sys S c b] R [of f b] by (simp add: s')
  qed
  have "cmd \<noteq> SubscriptionConfirmed t a o'" "cmd \<noteq> Events t es" for a o' es using cmd by auto
  from handle_command_upstreams [OF M this, of S c ?sys]
  show "hm_get (upstreams (sys_loop s')) t \<in> {hm_get (upstreams cl) t, None}" by (simp add: s')
qed

lemma consume_events:
  assumes M: "mpsc_ok M" and recv: "channel_try_recv M (net_chan net c) = (Some cmd, ch)"
    and s': "s' = handle_command M dispatch S c cmd (as_stage cl u (set_chan c ch net))"
    and "demand_of t (consumer_demands cl) = 0" and "ask_credit t cmd = 0"
  shows "nsum M (event_credit t) (sys_net s') c \<le> nsum M (event_credit t) net c"
  using handle_command_credit [OF M, of t S c cmd "as_stage cl u (set_chan c ch net)" c]
    recv_nsum [OF M recv, of "event_credit t" c] assms(4,5) by (simp add: s')

lemma consume_confirmed_inv:
  assumes M: "mpsc_ok M" and pc: "p \<noteq> c" and inv: "window_inv M t p c opts pl cl net"
    and recv: "channel_try_recv M (net_chan net c) = (Some (SubscriptionConfirmed t p opts), ch)"
    and s': "s' = handle_command M dispatch S c (SubscriptionConfirmed t p opts) (as_stage cl u (set_chan c ch net))"
    and dem: "demand_of t (consumer_demands (sys_loop s')) = 0"
  shows "window_inv M t p c opts pl (sys_loop s') (sys_net s')"
proof -
  note D = window_invD [OF inv] and R = recv_nsum [OF M recv]
  let ?sys = "as_stage cl u (set_chan c ch net)"
  have wf: "stage_wf (sys_loop s')" unfolding s' by (rule handle_command_wf [OF M]) (simp add: D)
  have h: "nsum M (handshake t) net c = 1" "nsum M (handshake t) net p = 0"
    using R [of "handshake t" c] D(7) by simp_all
  have z: "credit M t p c pl net = 0" using D(9) h by simp
  have q: "nsum M f (sys_net s') b \<le> nsum M f (set_chan c ch net) b
      + (if p = b then f (AskDemand t (max (opt_max_demand opts) 1)) else 0)" for f b
    using handle_subscription_confirmed_nsum [OF M, of f S t p opts ?sys b] by (simp add: s')
  have m: "nsum M (misplaced_p t p opts) (sys_net s') p = 0" "nsum M (misplaced_c t p opts) (sys_net s') c = 0"
      "nsum M (handshake t) (sys_net s') p = 0" "nsum M (handshake t) (sys_net s') c = 0"
    using q [of "misplaced_p t p opts" p] q [of "misplaced_c t p opts" c] q [of "handshake t" p] q [of "handshake t" c]
      R [of "misplaced_p t p opts" p] R [of "misplaced_c t p opts" c] R [of "handshake t" p] R [of "handshake t" c] D(5,6) h pc
    by simp_all
  have zero: "nsum M (ask_credit t) (set_chan c ch net) p = 0" "demand_of t (consumer_demands pl) = 0"
      "nsum M (event_credit t) (sys_net s') c = 0"
    using z consume_events [OF M recv s' D(4)] R [of "ask_credit t" p] by (simp_all add: credit_def)
  have cr: "credit M t p c pl (sys_net s') \<le> outstanding_demand up \<and> up_max_demand up = max (opt_max_demand opts) 1
      \<and> producer_cmd_tx up = p" if "hm_get (upstreams (sys_loop s')) t = Some up" for up
  proof (cases "fst (gs_handle_subscribe S (ls_stage_type cl) opts t u) = Automatic")
    case True
    then have "outstanding_demand up = max (opt_max_demand opts) 1 \<and> up_max_demand up = max (opt_max_demand opts) 1 \<and> producer_cmd_tx up = p"
      using that by (auto simp: s' handle_subscription_confirmed_def Let_def case_prod_beta as_stage_def)
    with q [of "ask_credit t" p] zero show ?thesis by (simp add: credit_def)
  next
    case False
    then have "up_max_demand up = max (opt_max_demand opts) 1 \<and> producer_cmd_tx up = p \<and> sys_net s' = set_chan c ch net"
      using that by (auto simp: s' handle_subscription_confirmed_def Let_def case_prod_beta as_stage_def)
    with zero show ?thesis by (simp add: credit_def)
  qed
  show ?thesis by (rule window_invI [OF D(1) wf D(3) dem]) (use m cr in simp_all)
qed

lemma consume_inv:
  assumes M: "mpsc_ok M" and pc: "p \<noteq> c" and opts: "opt_max_demand opts \<le> usize_max"
    and inv: "window_inv M t p c opts pl cl net"
    and recv: "channel_try_recv M (net_chan net c) = (Some cmd, ch)"
    and s': "s' = handle_command M dispatch S c cmd (as_stage cl u (set_chan c ch net))"
  shows "window_inv M t p c opts pl (sys_loop s') (sys_net s')"
proof -
  note D = window_invD [OF inv] and R = recv_nsum [OF M recv]
  let ?sys = "as_stage cl u (set_chan c ch net)"
  have mis: "misplaced_c t p opts cmd = 0" using D(6) R [of "misplaced_c t p opts" c] by simp
  then have ask0: "ask_credit t cmd = 0" by (cases cmd) (auto split: if_splits)
  have wf: "stage_wf (sys_loop s')" unfolding s' by (rule handle_command_wf [OF M]) (simp add: D)
  have dem: "demand_of t (consumer_demands (sys_loop s')) = 0"
    using handle_command_demand [OF M, of t S c cmd ?sys] by (simp add: s' D ask0)
  note ev = consume_events [OF M recv s' D(4) ask0]
  consider (ev) es where "cmd = Events t es" | (conf) "cmd = SubscriptionConfirmed t p opts"
    | (quiet) "cmd = AskDemand t 0 \<or> \<not> concerns t cmd"
    using mis by (cases cmd) (auto split: if_splits)
  then show ?thesis
  proof cases
    case ev
    then show ?thesis using consume_events_inv [OF M pc opts inv, of es ch s' S u] recv s' by simp
  next
    case conf
    show ?thesis by (rule consume_confirmed_inv [OF M pc inv recv [unfolded conf] s' [unfolded conf] dem])
  next
    case quiet
    have le: "nsum M f (sys_net s') b \<le> nsum M f net b" if "blind t f" "f (AskDemand t 0) = 0" for f b
      by (rule consume_quiet(1) [OF M recv s' quiet that])
    have "credit M t p c pl (sys_net s') \<le> credit M t p c pl net" using ev le [of "ask_credit t" p] by (simp add: credit_def)
    then show ?thesis
      by (intro window_inv_mono [OF inv D(1) wf D(3) dem]) (simp_all add: le consume_quiet(2) [OF M recv s' quiet, simplified])
  qed
qed

text \<open>When the whole window is outstanding and none of it is under way, the consumer does not ask again.\<close>

lemma consume_stalled:
  assumes M: "mpsc_ok M" and pc: "p \<noteq> c" and opts: "opt_max_demand opts \<le> usize_max"
    and inv: "window_inv M t p c opts pl cl net" and cr: "credit M t p c pl net = 0"
    and h: "nsum M (handshake t) net p = 0" "nsum M (handshake t) net c = 0"
    and full: "\<And>up. hm_get (upstreams cl) t = Some up \<Longrightarrow> outstanding_demand up = up_max_demand up"
    and recv: "channel_try_recv M (net_chan net c) = (Some cmd, ch)"
    and s': "s' = handle_command M dispatch S c cmd (as_stage cl u (set_chan c ch net))"
  shows "credit M t p c pl (sys_net s') = 0 \<and> nsum M (handshake t) (sys_net s') p = 0 \<and> nsum M (handshake t) (sys_net s') c = 0
    \<and> (\<forall>up. hm_get (upstreams (sys_loop s')) t = Some up \<longrightarrow> outstanding_demand up = up_max_demand up)"
proof -
  note D = window_invD [OF inv] and R = recv_nsum [OF M recv]
  let ?sys = "as_stage cl u (set_chan c ch net)"
  have "misplaced_c t p opts cmd = 0" "handshake t cmd = 0" "event_credit t cmd = 0"
    using D(6) h(2) cr R [of "misplaced_c t p opts" c] R [of "handshake t" c] R [of "event_credit t" c] by (simp_all add: credit_def)
  then consider (ev) "cmd = Events t []" | (quiet) "cmd = AskDemand t 0 \<or> \<not> concerns t cmd"
    by (cases cmd) (auto split: if_splits)
  then show ?thesis
  proof cases
    case ev
    have e0: "nsum M (event_credit t) (sys_net s') c = 0"
      using consume_events [OF M recv s' D(4)] ev cr by (simp add: credit_def)
    have s1: "s' = handle_events M dispatch S t [] ?sys" using s' ev by simp
    from M obtain s2 where g: "gentle M ?sys s2" and n: "sys_net s' = sys_net s2"
      and full': "\<forall>up. hm_get (upstreams (sys_loop s')) t = Some up \<longrightarrow> outstanding_demand up = up_max_demand up"
    proof (cases rule: handle_events_cases [where sys = ?sys and S = S and tag = t and es = "[]"])
      case (untracked s2)
      with full show thesis by (intro that [of s2]) (auto simp: s1 gentle_upstreams [OF untracked(1)])
    next
      case (tracked s2 up up' ask room)
      then have u: "hm_get (upstreams cl) t = Some up" by simp
      have "ask = 0" using tracked(4) full [OF u] by (auto simp: account_events_def Let_def split: if_splits)
      moreover from this have "outstanding_demand up' = up_max_demand up'"
        using tracked(4) full [OF u] by (auto simp: account_events_def Let_def split: if_splits)
      ultimately show thesis using tracked(5) u by (intro that [OF tracked(1)]) (simp_all add: s1)
    qed
    have "nsum M f (sys_net s') b \<le> nsum M f net b" if "blind t f" for f b
      using gentle_silent [OF g, of f b] blind_Events [OF that] R [of f b] by (simp add: n)
    from this [of "ask_credit t" p] this [of "handshake t" p] this [of "handshake t" c] e0 h cr full'
    show ?thesis by (simp add: credit_def)
  next
    case quiet
    have "nsum M f (sys_net s') b \<le> nsum M f net b" if "blind t f" "f (AskDemand t 0) = 0" for f b
      by (rule consume_quiet(1) [OF M recv s' quiet that])
    from this [of "ask_credit t" p] this [of "handshake t" p] this [of "handshake t" c] h cr full
      consume_events [OF M recv s' D(4)] quiet consume_quiet(2) [OF M recv s' quiet]
    show ?thesis by (auto simp: credit_def unconcerned)
  qed
qed

end

lemma environment_nsum:
  assumes "queued M (net_chan net' a) = queued M (net_chan net a) @ cmds" and "\<forall>cmd \<in> set cmds. \<not> concerns t cmd"
    and "\<And>cmd. \<not> concerns t cmd \<Longrightarrow> f cmd = 0"
  shows "nsum M f net' a = nsum M f net a"
proof -
  have "sum_list (map f cmds) = 0" using assms(2,3) by (induction cmds) auto
  then show ?thesis by (simp add: nsum_def assms(1))
qed

lemma environment_inv:
  assumes "\<And>a. a \<in> {p, c} \<Longrightarrow> \<exists>cmds. queued M (net_chan net' a) = queued M (net_chan net a) @ cmds
      \<and> (\<forall>cmd \<in> set cmds. \<not> concerns t cmd)"
  shows "window_inv M t p c opts pl cl net' = window_inv M t p c opts pl cl net"
    and "credit M t p c pl net' = credit M t p c pl net"
    and "nsum M (handshake t) net' p = nsum M (handshake t) net p"
proof -
  have e: "nsum M f net' a = nsum M f net a" if "a \<in> {p, c}" "\<And>cmd. \<not> concerns t cmd \<Longrightarrow> f cmd = 0" for f a
    using assms [OF that(1)] environment_nsum that(2) by blast
  have "nsum M (ask_credit t) net' p = nsum M (ask_credit t) net p" "nsum M (event_credit t) net' c = nsum M (event_credit t) net c"
    by (rule e; simp add: unconcerned)+
  then show c: "credit M t p c pl net' = credit M t p c pl net" by (simp add: credit_def)
  have "nsum M (misplaced_p t p opts) net' p = nsum M (misplaced_p t p opts) net p"
      "nsum M (misplaced_c t p opts) net' c = nsum M (misplaced_c t p opts) net c"
      "nsum M (handshake t) net' p = nsum M (handshake t) net p" "nsum M (handshake t) net' c = nsum M (handshake t) net c"
    by (rule e; simp add: unconcerned)+
  then show "window_inv M t p c opts pl cl net' = window_inv M t p c opts pl cl net"
    and "nsum M (handshake t) net' p = nsum M (handshake t) net p" unfolding window_inv_def c by simp_all
qed

section \<open>The guarantee\<close>

definition stock_dispatcher :: "'v dispatch_fun \<Rightarrow> bool" where
  "stock_dispatcher D \<longleftrightarrow> D = demand_dispatch \<or> D = broadcast_dispatch"

lemma stock_dispatcher_ok: "stock_dispatcher D \<Longrightarrow> dispatcher D"
  unfolding stock_dispatcher_def using demand.dispatcher_axioms bcast.dispatcher_axioms by blast

lemma pair_step_inv:
  assumes M: "mpsc_ok M" and pc: "p \<noteq> c" and opts: "opt_max_demand opts \<le> usize_max"
    and D: "dispatcher Dp" "dispatcher Dc" and step: "pair_step M Dp Sp Dc Sc t p c s s'"
    and inv: "window_inv M t p c opts (producer_loop s) (consumer_loop s) (pair_net s)"
  shows "window_inv M t p c opts (producer_loop s') (consumer_loop s') (pair_net s')"
  using step
proof cases
  case (produce cmd ch r)
  then show ?thesis using dispatcher.produce_inv [OF D(1) M pc inv produce(2,3)] by simp
next
  case (consume cmd ch r)
  then show ?thesis using dispatcher.consume_inv [OF D(2) M pc opts inv consume(2,3)] by simp
next
  case (environment net)
  then show ?thesis using environment_inv(1) [OF environment(2)] inv by simp
qed

text \<open>The state in which the consumer has just called \<open>subscribe\<close> with a tag nobody has used.\<close>

definition subscribing ::
  "('v stage_command, 'c) mpsc \<Rightarrow> subscription_tag \<Rightarrow> stage_addr \<Rightarrow> stage_addr \<Rightarrow> subscribe_opts
     \<Rightarrow> ('v, 's, 'u, 'c) pair_sys \<Rightarrow> bool" where
  "subscribing M t p c opts s \<longleftrightarrow>
     stage_wf (producer_loop s) \<and> stage_wf (consumer_loop s)
   \<and> hm_get (upstreams (producer_loop s)) t = None \<and> hm_get (upstreams (consumer_loop s)) t = None
   \<and> t \<notin> cd_tag ` set (consumer_demands (producer_loop s)) \<and> t \<notin> cd_tag ` set (consumer_demands (consumer_loop s))
   \<and> (\<exists>cmds r. queued M (net_chan (pair_net s) p) = cmds @ [Subscribe t c opts r] \<and> (\<forall>cmd \<in> set cmds. \<not> concerns t cmd))
   \<and> (\<forall>cmd \<in> set (queued M (net_chan (pair_net s) c)). \<not> concerns t cmd)"

lemma demand_of_absent: "t \<notin> cd_tag ` set cds \<Longrightarrow> demand_of t cds = 0"
  by (induction cds) auto

lemma sum_list_zero: "\<forall>x \<in> set xs. f x = (0 :: nat) \<Longrightarrow> sum_list (map f xs) = 0"
  by (induction xs) auto

lemma subscribing_inv:
  assumes "subscribing M t p c opts s" and "p \<noteq> c"
  shows "window_inv M t p c opts (producer_loop s) (consumer_loop s) (pair_net s)"
proof -
  obtain cmds r where q: "queued M (net_chan (pair_net s) p) = cmds @ [Subscribe t c opts r]" "\<forall>cmd \<in> set cmds. \<not> concerns t cmd"
    using assms(1) unfolding subscribing_def by blast
  have p: "nsum M f (pair_net s) p = f (Subscribe t c opts r)" if "\<And>cmd. \<not> concerns t cmd \<Longrightarrow> f cmd = 0" for f
    using q that sum_list_zero [of cmds f] by (simp add: nsum_def)
  have c: "nsum M f (pair_net s) c = 0" if "\<And>cmd. \<not> concerns t cmd \<Longrightarrow> f cmd = 0" for f
    using assms(1) that unfolding subscribing_def nsum_def by (intro sum_list_zero) blast
  have "demand_of t (consumer_demands (producer_loop s)) = 0" "demand_of t (consumer_demands (consumer_loop s)) = 0"
    using assms(1) by (auto simp: subscribing_def intro: demand_of_absent)
  moreover have "nsum M (misplaced_p t p opts) (pair_net s) p = 0" "nsum M (ask_credit t) (pair_net s) p = 0"
      "nsum M (handshake t) (pair_net s) p = 1" "nsum M (misplaced_c t p opts) (pair_net s) c = 0"
      "nsum M (handshake t) (pair_net s) c = 0" "nsum M (event_credit t) (pair_net s) c = 0"
    using assms(2) by (simp_all add: p c unconcerned)
  ultimately show ?thesis
    using assms(1) by (intro window_invI) (simp_all add: subscribing_def credit_def)
qed

lemma pair_reach_inv:
  assumes "mpsc_ok M" and "p \<noteq> c" and "opt_max_demand opts \<le> usize_max"
    and "stock_dispatcher Dp" and "stock_dispatcher Dc" and "subscribing M t p c opts s0"
    and "(pair_step M Dp Sp Dc Sc t p c)\<^sup>*\<^sup>* s0 s"
  shows "window_inv M t p c opts (producer_loop s) (consumer_loop s) (pair_net s)"
  using assms(7)
proof (induction rule: rtranclp_induct)
  case base
  show ?case by (rule subscribing_inv [OF assms(6,2)])
next
  case (step s' s'')
  then show ?case using pair_step_inv [OF assms(1-3) stock_dispatcher_ok [OF assms(4)] stock_dispatcher_ok [OF assms(5)]] by blast
qed


definition sample_pair :: "(nat, nat, nat, nat stage_command chan) pair_sys" where
  "sample_pair = \<lparr>producer_loop = loop_state_new Producer, producer_user = 0,
     consumer_loop = loop_state_new Consumer, consumer_user = 0,
     pair_net = set_chan (process_id_new 1 1)
       \<lparr>ch_queue = [Subscribe 5 (process_id_new 1 2) (subscribe_opts_new 3 1) 0], ch_capacity = Some 256, ch_open = True\<rparr> sample_net\<rparr>"

lemma sample_pair_subscribing:
  "subscribing list_mpsc 5 (process_id_new 1 1) (process_id_new 1 2) (subscribe_opts_new 3 1) sample_pair"
  by (auto simp: subscribing_def sample_pair_def loop_state_new_def stage_wf_def list_mpsc_def sample_net_def process_id_new_def)

abbreviation (input) sample_step where
  "sample_step \<equiv> pair_step list_mpsc demand_dispatch sample_stage demand_dispatch sample_stage 5 (process_id_new 1 1) (process_id_new 1 2)"

text \<open>The subscription has been confirmed and the consumer has asked for its window.\<close>

definition sample_asked :: "(nat, nat, nat, nat stage_command chan) pair_sys" where
  "sample_asked = \<lparr>producer_loop = \<lparr>upstreams = [], downstreams = [(5, \<lparr>consumer_cmd_tx = process_id_new 1 2\<rparr>)],
       consumer_demands = [\<lparr>cd_tag = 5, pending_demand = 0\<rparr>], event_buffer = [], ls_stage_type = Producer\<rparr>, producer_user = 0,
     consumer_loop = \<lparr>upstreams = [(5, \<lparr>producer_cmd_tx = process_id_new 1 1, up_mode = Automatic, up_min_demand = 1,
         up_max_demand = 3, pending_events = 0, outstanding_demand = 3\<rparr>)], downstreams = [], consumer_demands = [],
       event_buffer = [], ls_stage_type = Consumer\<rparr>, consumer_user = 0,
     pair_net = set_chan (process_id_new 1 1) \<lparr>ch_queue = [AskDemand 5 3], ch_capacity = Some 256, ch_open = True\<rparr> sample_net\<rparr>"

lemma sample_net_idle [simp]:
  "net_chan sample_net a = \<lparr>ch_queue = [], ch_capacity = Some 256, ch_open = True\<rparr>" "net_strong sample_net a"
  by (simp_all add: sample_net_def)

lemma set_chan_set [simp]: "set_chan a x (set_chan a y net) = set_chan a x net"
  by (simp add: set_chan_def)

lemma set_chan_idle [simp]:
  "set_chan a \<lparr>ch_queue = [], ch_capacity = Some 256, ch_open = True\<rparr> sample_net = sample_net"
  by (simp add: set_chan_def sample_net_def fun_eq_iff)

lemma sample_pids [simp]: "process_id_new 1 1 \<noteq> process_id_new 1 2" "process_id_new 1 2 \<noteq> process_id_new 1 1"
  by (simp_all add: process_id_new_def)

lemma list_mpsc_simps [simp]:
  "unbounded_send list_mpsc m \<lparr>ch_queue = q, ch_capacity = k, ch_open = True\<rparr> = (Inr (), \<lparr>ch_queue = q @ [m], ch_capacity = k, ch_open = True\<rparr>)"
  "channel_try_recv list_mpsc \<lparr>ch_queue = m # q, ch_capacity = k, ch_open = b\<rparr> = (Some m, \<lparr>ch_queue = q, ch_capacity = k, ch_open = b\<rparr>)"
  "queued list_mpsc = ch_queue"
  by (simp_all add: list_mpsc_def)

lemma sample_handshake: "sample_step\<^sup>*\<^sup>* sample_pair sample_asked"
proof -
  let ?opts = "subscribe_opts_new 3 1" and ?idle = "\<lparr>ch_queue = [], ch_capacity = Some 256, ch_open = True\<rparr>"
  let ?mid = "sample_pair\<lparr>producer_loop := producer_loop sample_asked,
      pair_net := set_chan (process_id_new 1 2) \<lparr>ch_queue = [SubscriptionConfirmed 5 (process_id_new 1 1) ?opts],
        ch_capacity = Some 256, ch_open = True\<rparr> sample_net\<rparr>"
  have "sample_step sample_pair (sample_pair\<lparr>producer_loop := sys_loop r, producer_user := sys_user r, pair_net := sys_net r\<rparr>)"
    if "r = handle_command list_mpsc demand_dispatch sample_stage (process_id_new 1 1) (Subscribe 5 (process_id_new 1 2) ?opts 0)
      (as_stage (producer_loop sample_pair) (producer_user sample_pair) (set_chan (process_id_new 1 1) ?idle (pair_net sample_pair)))" for r
    by (rule pair_step.produce [OF _ that]) (simp add: sample_pair_def)
  from this [OF refl] have 1: "sample_step sample_pair ?mid"
    by (simp add: sample_pair_def sample_asked_def as_stage_def handle_subscribe_def stage_send_def loop_state_new_def
        sample_stage_def consumer_demand_new_def hm_insert_def Let_def)
  have "sample_step ?mid (?mid\<lparr>consumer_loop := sys_loop r, consumer_user := sys_user r, pair_net := sys_net r\<rparr>)"
    if "r = handle_command list_mpsc demand_dispatch sample_stage (process_id_new 1 2) (SubscriptionConfirmed 5 (process_id_new 1 1) ?opts)
      (as_stage (consumer_loop ?mid) (consumer_user ?mid) (set_chan (process_id_new 1 2) ?idle (pair_net ?mid)))" for r
    by (rule pair_step.consume [OF _ that]) simp
  from this [OF refl] have 2: "sample_step ?mid sample_asked"
    by (simp add: sample_pair_def sample_asked_def as_stage_def handle_subscription_confirmed_def stage_send_def loop_state_new_def
        sample_stage_def subscribe_opts_new_def hm_insert_def Let_def)
  have "sample_step\<^sup>*\<^sup>* ?mid sample_asked" using 2 by (rule r_into_rtranclp)
  with 1 show ?thesis by (rule converse_rtranclp_into_rtranclp)
qed


section \<open>A lost window\<close>

text \<open>The whole window is outstanding, and none of it is under way.\<close>

definition stalled ::
  "('v stage_command, 'c) mpsc \<Rightarrow> subscription_tag \<Rightarrow> stage_addr \<Rightarrow> stage_addr \<Rightarrow> ('v, 's, 'u, 'c) pair_sys \<Rightarrow> bool" where
  "stalled M t p c s \<longleftrightarrow>
     credit M t p c (producer_loop s) (pair_net s) = 0 \<and> nsum M (handshake t) (pair_net s) p = 0
   \<and> nsum M (handshake t) (pair_net s) c = 0
   \<and> (\<forall>up. hm_get (upstreams (consumer_loop s)) t = Some up \<longrightarrow> outstanding_demand up = up_max_demand up)"

lemma pair_step_stalled:
  assumes M: "mpsc_ok M" and pc: "p \<noteq> c" and opts: "opt_max_demand opts \<le> usize_max"
    and D: "dispatcher Dp" "dispatcher Dc" and step: "pair_step M Dp Sp Dc Sc t p c s s'"
    and inv: "window_inv M t p c opts (producer_loop s) (consumer_loop s) (pair_net s)" and st: "stalled M t p c s"
  shows "stalled M t p c s'"
  using step
proof cases
  case (produce cmd ch r)
  have h: "handshake t cmd = 0"
    using st recv_nsum [OF M produce(2), of "handshake t" p] by (simp add: stalled_def)
  show ?thesis
    using st produce(1) dispatcher.produce_credit [OF D(1) M pc window_invD(3) [OF inv] produce(2,3) h]
      dispatcher.produce_blind [OF D(1) M window_invD(3) [OF inv] produce(2,3) h blind_simps(2), of p]
      dispatcher.produce_blind [OF D(1) M window_invD(3) [OF inv] produce(2,3) h blind_simps(2), of c]
    by (simp add: stalled_def)
next
  case (consume cmd ch r)
  then show ?thesis
    using dispatcher.consume_stalled [OF D(2) M pc opts inv _ _ _ _ consume(2,3)] st by (simp add: stalled_def)
next
  case (environment net)
  have "nsum M (handshake t) net c = nsum M (handshake t) (pair_net s) c"
    using environment(2) [of c] environment_nsum unconcerned(2) by blast
  then show ?thesis using environment_inv(2,3) [OF environment(2)] st environment(1) by (simp add: stalled_def)
qed

text \<open>
  Once the whole window of a subscription is outstanding at the consumer while none of it is under
  way (no ask queued, no demand at the producer, no event queued), the subscription is dead: in no
  continuation, whatever the environment does short of asking for the subscription itself, does the
  producer ever queue an event for the consumer again, and the consumer never asks again.
\<close>

theorem lost_window_stalls:
  assumes "mpsc_ok M" and "p \<noteq> c" and "opt_max_demand opts \<le> usize_max"
    and "stock_dispatcher Dp" and "stock_dispatcher Dc" and "subscribing M t p c opts s0"
    and "(pair_step M Dp Sp Dc Sc t p c)\<^sup>*\<^sup>* s0 s1" and "stalled M t p c s1"
    and "(pair_step M Dp Sp Dc Sc t p c)\<^sup>*\<^sup>* s1 s"
  shows "stalled M t p c s \<and> nsum M (event_credit t) (pair_net s) c = 0 \<and> nsum M (ask_credit t) (pair_net s) p = 0"
proof -
  note D = stock_dispatcher_ok [OF assms(4)] stock_dispatcher_ok [OF assms(5)]
  from assms(9) have "stalled M t p c s \<and> (pair_step M Dp Sp Dc Sc t p c)\<^sup>*\<^sup>* s0 s"
  proof (induction rule: rtranclp_induct)
    case base
    show ?case using assms(7,8) by blast
  next
    case (step s' s'')
    then show ?case
      using pair_step_stalled [OF assms(1-3) D step(2) pair_reach_inv [OF assms(1-6)]] by (meson rtranclp.rtrancl_into_rtrancl)
  qed
  then show ?thesis by (simp add: stalled_def credit_def)
qed

text \<open>A run that loses the window: while the consumer is busy, casts fill its channel.\<close>

definition sample_busy :: "nat stage_command chan" where
  "sample_busy = \<lparr>ch_queue = replicate 256 (Cast 0), ch_capacity = Some 256, ch_open = True\<rparr>"

definition sample_lost :: "(nat, nat, nat, nat stage_command chan) pair_sys" where
  "sample_lost = sample_asked\<lparr>producer_loop := (producer_loop sample_asked)\<lparr>event_buffer := [0, 1, 2]\<rparr>, producer_user := 3,
     pair_net := set_chan (process_id_new 1 2) sample_busy sample_net\<rparr>"

lemma sample_busy_full [simp]: "try_send list_mpsc m sample_busy = (Inl Full, sample_busy)"
  by (simp add: list_mpsc_def sample_busy_def)

lemma sample_stage_demand [simp]: "gs_handle_demand sample_stage 3 0 = ([0, 1, 2], 3)"
  by (simp add: sample_stage_def upt_rec)

lemma sample_loses: "sample_step\<^sup>*\<^sup>* sample_pair sample_lost"
proof -
  let ?mid = "sample_asked\<lparr>pair_net := set_chan (process_id_new 1 2) sample_busy (pair_net sample_asked)\<rparr>"
  let ?idle = "\<lparr>ch_queue = [], ch_capacity = Some 256, ch_open = True\<rparr> :: nat stage_command chan"
  have 1: "sample_step sample_asked ?mid"
    by (rule pair_step.environment) (auto simp: sample_asked_def sample_busy_def)
  have c: "set_chan (process_id_new 1 1) ?idle (pair_net ?mid) = set_chan (process_id_new 1 2) sample_busy sample_net"
    by (simp add: sample_asked_def set_chan_def sample_net_def fun_eq_iff)
  have r: "handle_command list_mpsc demand_dispatch sample_stage (process_id_new 1 1) (AskDemand 5 3)
      (as_stage (producer_loop ?mid) (producer_user ?mid) (set_chan (process_id_new 1 1) ?idle (pair_net ?mid)))
      = as_stage (producer_loop sample_lost) 3 (set_chan (process_id_new 1 2) sample_busy sample_net)"
    unfolding c by (simp add: sample_lost_def sample_asked_def as_stage_def handle_ask_demand_def hm_get_def usize_add_def
        total_downstream_demand_def dispatch_and_cleanup_def dispatch_and_deliver_def demand_dispatch_def
        buffer_leftover_def MAX_EVENT_BUFFER_def cleanup_dead_downstreams_def Let_def)
  have 2: "sample_step ?mid (?mid\<lparr>producer_loop := sys_loop r, producer_user := sys_user r, pair_net := sys_net r\<rparr>)"
    if "r = as_stage (producer_loop sample_lost) 3 (set_chan (process_id_new 1 2) sample_busy sample_net)" for r
    by (rule pair_step.produce [of _ _ _ "AskDemand 5 3" ?idle]) (simp_all add: that r [symmetric], simp add: sample_asked_def)
  have 2: "sample_step ?mid sample_lost" using 2 [OF refl] by (simp add: sample_lost_def as_stage_def)
  show ?thesis
    by (rule rtranclp.rtrancl_into_rtrancl [OF rtranclp.rtrancl_into_rtrancl [OF sample_handshake 1] 2])
qed

theorem lost_window_stalls_witness:
  "stalled list_mpsc 5 (process_id_new 1 1) (process_id_new 1 2) sample_lost
     \<and> event_buffer (producer_loop sample_lost) = [0, 1, 2]
     \<and> nsum list_mpsc (event_credit 5) (pair_net sample_lost) (process_id_new 1 2) = 0"
proof -
  have "opt_max_demand (subscribe_opts_new 3 1) \<le> usize_max" by (simp add: subscribe_opts_new_def usize_max_def)
  moreover have "stock_dispatcher demand_dispatch" by (simp add: stock_dispatcher_def)
  moreover have "stalled list_mpsc 5 (process_id_new 1 1) (process_id_new 1 2) sample_lost"
    by (auto simp: stalled_def credit_def nsum_def sample_lost_def sample_asked_def sample_busy_def hm_get_def sum_list_replicate)
  moreover have "event_buffer (producer_loop sample_lost) = [0, 1, 2]" by (simp add: sample_lost_def)
  ultimately show ?thesis
    using lost_window_stalls [OF list_mpsc_ok sample_pids(1) _ _ _ sample_pair_subscribing sample_loses _ rtranclp.rtrancl_refl]
    by blast
qed

lemma try_send_full:
  assumes "mpsc_ok M" and "receiver_alive M ch" and "capacity M ch = Some k" and "k \<le> length (queued M ch)"
  shows "fst (try_send M m ch) = Inl Full"
  using assms by (simp add: mpsc_ok_def)

text \<open>
  A full consumer channel loses demand. When a producer with one consumer dispatches at least as
  many events as the consumer has demanded while the consumer's channel is full, nothing is queued,
  the consumer is not treated as dead, its whole demand is charged all the same, and the undelivered
  events are buffered behind the later ones, out of order.
\<close>

theorem full_channel_loses_demand:
  assumes "mpsc_ok M" and "downstreams ls = [(t, \<lparr>consumer_cmd_tx = c\<rparr>)]"
    and "consumer_demands ls = [\<lparr>cd_tag = t, pending_demand = d\<rparr>]" and "0 < d" and "d \<le> length es"
    and "net_strong net c" and "receiver_alive M (net_chan net c)"
    and "capacity M (net_chan net c) = Some k" and "k \<le> length (queued M (net_chan net c))"
    and "length (event_buffer ls) + length es \<le> MAX_EVENT_BUFFER"
  shows "case dispatch_and_deliver M demand_dispatch es (ls, net) of (dead, ls', net') \<Rightarrow>
      dead = [] \<and> queued M (net_chan net' c) = queued M (net_chan net c)
    \<and> consumer_demands ls' = [\<lparr>cd_tag = t, pending_demand = 0\<rparr>]
    \<and> event_buffer ls' = event_buffer ls @ drop d es @ take d es"
proof -
  define xs where "xs = take d es"
  define ys where "ys = drop d es"
  have len: "length es = length xs + length ys" "xs \<noteq> []" "es \<noteq> []"
    using assms(4,5) by (auto simp: xs_def ys_def)
  obtain c' where f: "try_send M (Events t xs) (net_chan net c) = (Inl Full, c')"
    using try_send_full [OF assms(1,7,8,9), of "Events t xs"] by (metis prod.collapse)
  have q: "queued M c' = queued M (net_chan net c)" using try_send_queue [OF assms(1) f] by simp
  have dd: "demand_dispatch es (consumer_demands ls) =
      (\<lparr>deliveries = [(t, xs)], leftover = ys\<rparr>, [\<lparr>cd_tag = t, pending_demand = 0\<rparr>])"
    using assms(3,4,5) len(3) by (simp add: demand_dispatch_def Let_def xs_def ys_def)
  show ?thesis
    unfolding xs_def [symmetric] ys_def [symmetric]
    using len assms(2,6,10) q f
    by (simp add: dispatch_and_deliver_def dd Let_def buffer_leftover_def hm_get_def)
qed

definition full_net :: "nat stage_command chan stage_net" where
  "full_net = \<lparr>net_chan = (\<lambda>_. \<lparr>ch_queue = replicate 256 (Cast 0), ch_capacity = Some 256, ch_open = True\<rparr>), net_strong = (\<lambda>_. True)\<rparr>"

theorem full_channel_loses_demand_witness:
  "case dispatch_and_deliver list_mpsc demand_dispatch [1, 2, 3 :: nat]
      (\<lparr>upstreams = [], downstreams = [(5, \<lparr>consumer_cmd_tx = process_id_new 1 2\<rparr>)],
        consumer_demands = [\<lparr>cd_tag = 5, pending_demand = 2\<rparr>], event_buffer = [], ls_stage_type = Producer\<rparr>, full_net) of
     (dead, ls', net') \<Rightarrow> dead = [] \<and> event_buffer ls' = [3, 1, 2]"
proof -
  have "2 \<le> length [1, 2, 3 :: nat]" by simp
  moreover have "net_strong full_net (process_id_new 1 2)" "receiver_alive list_mpsc (net_chan full_net (process_id_new 1 2))"
      "capacity list_mpsc (net_chan full_net (process_id_new 1 2)) = Some 256"
      "256 \<le> length (queued list_mpsc (net_chan full_net (process_id_new 1 2)))"
    by (simp_all add: full_net_def list_mpsc_def)
  ultimately show ?thesis
    using full_channel_loses_demand [where M = list_mpsc and d = 2 and t = 5 and c = "process_id_new 1 2" and k = 256
        and es = "[1, 2, 3]" and net = full_net
        and ls = "\<lparr>upstreams = [], downstreams = [(5, \<lparr>consumer_cmd_tx = process_id_new 1 2\<rparr>)],
          consumer_demands = [\<lparr>cd_tag = 5, pending_demand = 2\<rparr>], event_buffer = [], ls_stage_type = Producer\<rparr>"]
    by (auto simp: MAX_EVENT_BUFFER_def split: prod.splits)
qed

end
