(* ===== verification/Value.thy ===== *)
theory Value
  imports Prelude
begin

text \<open>
  The MessagePack values of the \<open>rmpv\<close> crate, which is outside the repository. The operations
  the sources call are the fields of a record, an argument of every definition that builds or
  inspects a value; \<open>rmpv_ok\<close> states what the code relies on.
\<close>

record 'v rmpv =
  nil_value :: 'v
  binary_value :: "u8 list \<Rightarrow> 'v"
  string_value :: "string \<Rightarrow> 'v"
  u64_value :: "u64 \<Rightarrow> 'v"
  array_value :: "'v list \<Rightarrow> 'v"
  map_value :: "('v \<times> 'v) list \<Rightarrow> 'v"
  value_binary :: "'v \<Rightarrow> u8 list option"
  as_str :: "'v \<Rightarrow> string option"
  as_u64 :: "'v \<Rightarrow> u64 option"
  as_array :: "'v \<Rightarrow> 'v list option"
  as_map :: "'v \<Rightarrow> ('v \<times> 'v) list option"

text \<open>Each accessor returns what the constructor of its kind stored.\<close>

definition rmpv_ok :: "'v rmpv \<Rightarrow> bool" where
  "rmpv_ok V \<longleftrightarrow>
     (\<forall>b. value_binary V (binary_value V b) = Some b)
   \<and> (\<forall>s. as_str V (string_value V s) = Some s)
   \<and> (\<forall>n. as_u64 V (u64_value V n) = Some n)
   \<and> (\<forall>xs. as_array V (array_value V xs) = Some xs)
   \<and> (\<forall>xs. as_map V (map_value V xs) = Some xs)"

lemma rmpv_okD [simp]:
  assumes "rmpv_ok V"
  shows "value_binary V (binary_value V b) = Some b"
    and "as_str V (string_value V s) = Some s"
    and "as_u64 V (u64_value V n) = Some n"
    and "as_array V (array_value V xs) = Some xs"
    and "as_map V (map_value V ps) = Some ps"
  using assms by (simp_all add: rmpv_ok_def)

text \<open>A concrete instance, with which the properties that assume \<open>rmpv_ok\<close> are exercised.\<close>

datatype wire_value =
    WNil
  | WBinary "u8 list"
  | WString string
  | WInteger u64
  | WArray "wire_value list"
  | WMap "(wire_value \<times> wire_value) list"

definition wire :: "wire_value rmpv" where
  "wire = \<lparr>nil_value = WNil, binary_value = WBinary, string_value = WString, u64_value = WInteger,
     array_value = WArray, map_value = WMap,
     value_binary = (\<lambda>v. case v of WBinary b \<Rightarrow> Some b | _ \<Rightarrow> None),
     as_str = (\<lambda>v. case v of WString s \<Rightarrow> Some s | _ \<Rightarrow> None),
     as_u64 = (\<lambda>v. case v of WInteger n \<Rightarrow> Some n | _ \<Rightarrow> None),
     as_array = (\<lambda>v. case v of WArray xs \<Rightarrow> Some xs | _ \<Rightarrow> None),
     as_map = (\<lambda>v. case v of WMap xs \<Rightarrow> Some xs | _ \<Rightarrow> None)\<rparr>"

lemma wire_ok [simp]: "rmpv_ok wire"
  by (simp add: rmpv_ok_def wire_def)

end
