(* ===== verification/Monitor.thy ===== *)
theory Monitor
  imports Process Value
begin

text \<open>
  Monitor references, DOWN notifications, and the stand-alone monitor and link sets
  (\<^verbatim>\<open>crates/rebar-core/src/process/monitor.rs\<close>). The global reference counter is threaded through
  the operations that allocate from it.
\<close>

section \<open>DOWN messages\<close>

type_synonym monitor_ref = u64

text \<open>\<open>MonitorRef::new\<close>: \<open>fetch_add\<close> wraps.\<close>

definition monitor_ref_new :: "u64 \<Rightarrow> monitor_ref \<times> u64" where
  "monitor_ref_new counter = (counter, counter + 1)"

definition DOWN_TAG :: string where
  "DOWN_TAG = ''DOWN''"

record down_message =
  dm_monitor_ref :: monitor_ref
  dm_pid :: process_id
  dm_reason :: string

definition down_message_new :: "monitor_ref \<Rightarrow> process_id \<Rightarrow> string \<Rightarrow> down_message" where
  "down_message_new r p reason = \<lparr>dm_monitor_ref = r, dm_pid = p, dm_reason = reason\<rparr>"

definition down_to_value :: "'v rmpv \<Rightarrow> down_message \<Rightarrow> 'v" where
  "down_to_value V d =
     array_value V
       [string_value V DOWN_TAG,
        u64_value V (dm_monitor_ref d),
        u64_value V (pid_node_id (dm_pid d)),
        u64_value V (pid_local_id (dm_pid d)),
        string_value V (dm_reason d)]"

definition down_from_value :: "'v rmpv \<Rightarrow> 'v \<Rightarrow> down_message option" where
  "down_from_value V v =
     (case as_array V v of
        Some [tag, mref, node_id, local_id, reason] \<Rightarrow>
          (case as_str V tag of None \<Rightarrow> None
           | Some t \<Rightarrow>
               if t \<noteq> DOWN_TAG then None
               else
                 (case as_u64 V mref of None \<Rightarrow> None | Some r \<Rightarrow>
                 (case as_u64 V node_id of None \<Rightarrow> None | Some n \<Rightarrow>
                 (case as_u64 V local_id of None \<Rightarrow> None | Some l \<Rightarrow>
                 (case as_str V reason of None \<Rightarrow> None | Some s \<Rightarrow>
                    Some \<lparr>dm_monitor_ref = r, dm_pid = process_id_new n l, dm_reason = s\<rparr>)))))
      | _ \<Rightarrow> None)"

lemma down_value_roundtrip: "rmpv_ok V \<Longrightarrow> down_from_value V (down_to_value V d) = Some d"
  by (simp add: down_from_value_def down_to_value_def)

section \<open>Monitor sets\<close>

record monitor_set =
  ms_by_ref :: "(monitor_ref, process_id) hashmap"
  ms_by_target :: "(process_id, monitor_ref list) hashmap"

definition monitor_set_new :: monitor_set where
  "monitor_set_new = \<lparr>ms_by_ref = [], ms_by_target = []\<rparr>"

definition add_monitor :: "process_id \<Rightarrow> u64 \<times> monitor_set \<Rightarrow> monitor_ref \<times> u64 \<times> monitor_set" where
  "add_monitor target st =
     (case st of (counter, ms) \<Rightarrow>
       let (mref, counter') = monitor_ref_new counter in
       (mref, counter',
        ms\<lparr>ms_by_ref := hm_insert mref target (ms_by_ref ms),
           ms_by_target := hm_push target mref (ms_by_target ms)\<rparr>))"

definition remove_monitor :: "monitor_ref \<Rightarrow> monitor_set \<Rightarrow> monitor_set" where
  "remove_monitor mref ms =
     (case hm_get (ms_by_ref ms) mref of
        None \<Rightarrow> ms
      | Some target \<Rightarrow>
          let ms1 = ms\<lparr>ms_by_ref := hm_remove mref (ms_by_ref ms)\<rparr> in
          (case hm_get (ms_by_target ms1) target of
             None \<Rightarrow> ms1
           | Some refs \<Rightarrow>
               let refs' = filter (\<lambda>r. r \<noteq> mref) refs in
               ms1\<lparr>ms_by_target :=
                     (if refs' = [] then hm_remove target (ms_by_target ms1)
                      else hm_insert target refs' (ms_by_target ms1))\<rparr>))"

definition monitors_for :: "process_id \<Rightarrow> monitor_set \<Rightarrow> monitor_ref list" where
  "monitors_for target ms = (case hm_get (ms_by_target ms) target of None \<Rightarrow> [] | Some refs \<Rightarrow> refs)"

section \<open>Link sets\<close>

record link_set =
  ls_links :: "process_id set"

definition link_set_new :: link_set where
  "link_set_new = \<lparr>ls_links = {}\<rparr>"

definition add_link :: "process_id \<Rightarrow> link_set \<Rightarrow> link_set" where
  "add_link p ls = ls\<lparr>ls_links := insert p (ls_links ls)\<rparr>"

definition remove_link :: "process_id \<Rightarrow> link_set \<Rightarrow> link_set" where
  "remove_link p ls = ls\<lparr>ls_links := ls_links ls - {p}\<rparr>"

definition is_linked :: "process_id \<Rightarrow> link_set \<Rightarrow> bool" where
  "is_linked p ls \<longleftrightarrow> p \<in> ls_links ls"

definition linked_pids :: "link_set \<Rightarrow> process_id set" where
  "linked_pids ls = ls_links ls"

section \<open>The two indexes of a monitor set agree\<close>

definition monitor_set_wf :: "monitor_set \<Rightarrow> bool" where
  "monitor_set_wf ms \<longleftrightarrow> hm_wf (ms_by_ref ms) \<and> hm_wf (ms_by_target ms)
     \<and> (\<forall>p. distinct (monitors_for p ms) \<and> hm_get (ms_by_target ms) p \<noteq> Some [])
     \<and> (\<forall>p r. r \<in> set (monitors_for p ms) \<longleftrightarrow> hm_get (ms_by_ref ms) r = Some p)"

lemma monitors_for_add:
  "monitors_for p (snd (snd (add_monitor t (k, ms)))) = monitors_for p ms @ (if p = t then [k] else [])"
  by (simp add: add_monitor_def monitor_ref_new_def monitors_for_def split: option.splits)

lemma monitor_set_wf_new: "monitor_set_wf monitor_set_new"
  by (simp add: monitor_set_wf_def monitor_set_new_def monitors_for_def hm_wf_def)

lemma add_monitor_wf:
  assumes "monitor_set_wf ms" and "hm_get (ms_by_ref ms) k = None"
  shows "monitor_set_wf (snd (snd (add_monitor t (k, ms))))"
proof -
  have "k \<notin> set (monitors_for p ms)" for p using assms by (auto simp: monitor_set_wf_def)
  then show ?thesis
    using assms unfolding monitor_set_wf_def monitors_for_add
    by (auto simp: add_monitor_def monitor_ref_new_def wf_intros hm_push_def)
qed

lemma monitors_for_remove:
  assumes "monitor_set_wf ms"
  shows "monitors_for p (remove_monitor r ms) = filter (\<lambda>x. x \<noteq> r) (monitors_for p ms)"
proof (cases "hm_get (ms_by_ref ms) r")
  case None
  with assms have "r \<notin> set (monitors_for p ms)" by (auto simp: monitor_set_wf_def)
  then have "filter (\<lambda>x. x \<noteq> r) (monitors_for p ms) = monitors_for p ms" by (auto simp: filter_id_conv)
  with None show ?thesis by (simp add: remove_monitor_def)
next
  case (Some t)
  then have "p \<noteq> t \<Longrightarrow> r \<notin> set (monitors_for p ms)" using assms by (auto simp: monitor_set_wf_def)
  then have "p \<noteq> t \<Longrightarrow> filter (\<lambda>x. x \<noteq> r) (monitors_for p ms) = monitors_for p ms" by (auto simp: filter_id_conv)
  with Some show ?thesis
    by (auto simp: remove_monitor_def monitors_for_def Let_def filter_empty_conv split: option.splits)
qed

lemma remove_monitor_wf:
  assumes "monitor_set_wf ms"
  shows "monitor_set_wf (remove_monitor r ms)"
proof -
  have r: "hm_get (ms_by_ref (remove_monitor r ms)) x = (if x = r then None else hm_get (ms_by_ref ms) x)" for x
    by (auto simp: remove_monitor_def Let_def split: option.splits)
  have "hm_wf (ms_by_ref (remove_monitor r ms))" "hm_wf (ms_by_target (remove_monitor r ms))"
      "hm_get (ms_by_target (remove_monitor r ms)) p \<noteq> Some []" for p
    using assms by (auto simp: monitor_set_wf_def remove_monitor_def Let_def wf_intros split: option.splits)
  with assms r show ?thesis
    unfolding monitor_set_wf_def monitors_for_remove [OF assms] by auto
qed

end
