(* ===== verification/Table.thy ===== *)
theory Table
  imports Mailbox Monitor
begin

text \<open>
  The process table (\<^verbatim>\<open>crates/rebar-core/src/process/table.rs\<close>): processes, registered names, monitors,
  exit hooks. The maps are \<open>DashMap\<close>s: each operation on one of them is atomic. \<open>register\<close> and
  \<open>monitor\<close>, whose code re-checks liveness after updating the indexes, are split into the stages
  between which another thread can run; the whole operation is their composition. The global
  counter of monitor references is part of the table. An exit hook is a value of type \<open>'h\<close>, and
  \<open>cleanup_process\<close> returns the hook calls it makes.
\<close>

section \<open>State\<close>

datatype table_error =
    NameTaken string
  | ProcessNotAlive process_id

record ('c, 'h) process_table =
  tb_node_id :: u64
  tb_next_id :: u64
  tb_processes :: "(process_id, 'c mailbox) hashmap"
  tb_names :: "(string, process_id) hashmap"
  tb_names_by_pid :: "(process_id, string list) hashmap"
  tb_monitors_by_target :: "(process_id, (monitor_ref \<times> process_id) list) hashmap"
  tb_monitors_by_watcher :: "(process_id, monitor_ref list) hashmap"
  tb_monitor_index :: "(monitor_ref, process_id \<times> process_id) hashmap"
  tb_exit_hooks :: "'h list"
  tb_monitor_counter :: u64

text \<open>\<open>DashMap::remove_if\<close>.\<close>

definition hm_remove_if :: "'k \<Rightarrow> ('v \<Rightarrow> bool) \<Rightarrow> ('k, 'v) hashmap \<Rightarrow> ('k, 'v) hashmap" where
  "hm_remove_if k P m = (case hm_get m k of Some v \<Rightarrow> if P v then hm_remove k m else m | None \<Rightarrow> m)"

definition table_new :: "u64 \<Rightarrow> ('c, 'h) process_table" where
  "table_new node =
     \<lparr>tb_node_id = node, tb_next_id = 1, tb_processes = [], tb_names = [], tb_names_by_pid = [],
      tb_monitors_by_target = [], tb_monitors_by_watcher = [], tb_monitor_index = [],
      tb_exit_hooks = [], tb_monitor_counter = 1\<rparr>"

text \<open>The capacity is a hint to the allocator.\<close>

definition table_with_capacity :: "u64 \<Rightarrow> usize \<Rightarrow> ('c, 'h) process_table" where
  "table_with_capacity node cap = table_new node"

section \<open>Processes\<close>

definition allocate_pid :: "('c, 'h) process_table \<Rightarrow> process_id \<times> ('c, 'h) process_table" where
  "allocate_pid t = (process_id_new (tb_node_id t) (tb_next_id t), t\<lparr>tb_next_id := tb_next_id t + 1\<rparr>)"

definition table_insert :: "process_id \<Rightarrow> 'c mailbox \<Rightarrow> ('c, 'h) process_table \<Rightarrow> ('c, 'h) process_table" where
  "table_insert pid h t = t\<lparr>tb_processes := hm_insert pid h (tb_processes t)\<rparr>"

definition table_get :: "process_id \<Rightarrow> ('c, 'h) process_table \<Rightarrow> 'c mailbox option" where
  "table_get pid t = hm_get (tb_processes t) pid"

definition table_remove ::
  "process_id \<Rightarrow> ('c, 'h) process_table \<Rightarrow> (process_id \<times> 'c mailbox) option \<times> ('c, 'h) process_table" where
  "table_remove pid t =
     (map_option (Pair pid) (hm_get (tb_processes t) pid), t\<lparr>tb_processes := hm_remove pid (tb_processes t)\<rparr>)"

definition table_send ::
  "('v message, 'c) mpsc \<Rightarrow> process_id \<Rightarrow> 'v message \<Rightarrow> ('c, 'h) process_table
     \<Rightarrow> (send_error + unit) \<times> ('c, 'h) process_table" where
  "table_send M pid msg t =
     (case hm_get (tb_processes t) pid of
        None \<Rightarrow> (Inl (ProcessDead pid), t)
      | Some handle \<Rightarrow>
          let (r, handle') = mailbox_send M msg handle in
          (case r of
             Inr _ \<Rightarrow> Inr ()
           | Inl (MailboxFull _) \<Rightarrow> Inl (MailboxFull pid)
           | Inl _ \<Rightarrow> Inl (ProcessDead pid),
           t\<lparr>tb_processes := hm_insert pid handle' (tb_processes t)\<rparr>))"

definition table_len :: "('c, 'h) process_table \<Rightarrow> usize" where
  "table_len t = length (tb_processes t)"

definition table_is_empty :: "('c, 'h) process_table \<Rightarrow> bool" where
  "table_is_empty t = (tb_processes t = [])"

section \<open>Names\<close>

datatype 'a stage = Done 'a | Continue "process_id option"

definition register_claim ::
  "string \<Rightarrow> process_id \<Rightarrow> bool \<Rightarrow> ('c, 'h) process_table
     \<Rightarrow> (table_error + unit) stage \<times> ('c, 'h) process_table" where
  "register_claim name pid force t =
     (if \<not> hm_contains pid (tb_processes t) then (Done (Inl (ProcessNotAlive pid)), t)
      else
        (case hm_get (tb_names t) name of
           Some existing \<Rightarrow>
             if existing = pid then (Done (Inr ()), t)
             else if \<not> force \<and> hm_contains existing (tb_processes t) then (Done (Inl (NameTaken name)), t)
             else (Continue (Some existing), t\<lparr>tb_names := hm_insert name pid (tb_names t)\<rparr>)
         | None \<Rightarrow> (Continue None, t\<lparr>tb_names := hm_insert name pid (tb_names t)\<rparr>)))"

definition drop_name :: "string \<Rightarrow> process_id \<Rightarrow> ('c, 'h) process_table \<Rightarrow> ('c, 'h) process_table" where
  "drop_name name pid t = t\<lparr>tb_names_by_pid := hm_modify pid (filter (\<lambda>n. n \<noteq> name)) (tb_names_by_pid t)\<rparr>"

definition register_index ::
  "string \<Rightarrow> process_id \<Rightarrow> process_id option \<Rightarrow> ('c, 'h) process_table \<Rightarrow> ('c, 'h) process_table" where
  "register_index name pid previous t =
     (let t1 = (case previous of Some old_pid \<Rightarrow> drop_name name old_pid t | None \<Rightarrow> t) in
      t1\<lparr>tb_names_by_pid := hm_push pid name (tb_names_by_pid t1)\<rparr>)"

definition register_recheck ::
  "string \<Rightarrow> process_id \<Rightarrow> ('c, 'h) process_table \<Rightarrow> (table_error + unit) \<times> ('c, 'h) process_table" where
  "register_recheck name pid t =
     (if \<not> hm_contains pid (tb_processes t)
      then
        let t1 = t\<lparr>tb_names := hm_remove_if name (\<lambda>p. p = pid) (tb_names t)\<rparr>;
            t2 = drop_name name pid t1;
            t3 = t2\<lparr>tb_names_by_pid := hm_remove_if pid (\<lambda>v. v = []) (tb_names_by_pid t2)\<rparr> in
        (Inl (ProcessNotAlive pid), t3)
      else (Inr (), t))"

definition register_inner ::
  "string \<Rightarrow> process_id \<Rightarrow> bool \<Rightarrow> ('c, 'h) process_table \<Rightarrow> (table_error + unit) \<times> ('c, 'h) process_table" where
  "register_inner name pid force t =
     (case register_claim name pid force t of
        (Done r, t1) \<Rightarrow> (r, t1)
      | (Continue previous, t1) \<Rightarrow> register_recheck name pid (register_index name pid previous t1))"

definition table_register where
  "table_register name pid t = register_inner name pid False t"

definition table_reregister where
  "table_reregister name pid t = register_inner name pid True t"

definition whereis :: "string \<Rightarrow> ('c, 'h) process_table \<Rightarrow> process_id option" where
  "whereis name t = hm_get (tb_names t) name"

definition table_unregister ::
  "string \<Rightarrow> ('c, 'h) process_table \<Rightarrow> process_id option \<times> ('c, 'h) process_table" where
  "table_unregister name t =
     (case hm_get (tb_names t) name of
        None \<Rightarrow> (None, t)
      | Some pid \<Rightarrow> (Some pid, drop_name name pid (t\<lparr>tb_names := hm_remove name (tb_names t)\<rparr>)))"

section \<open>Monitors\<close>

definition send_down ::
  "('v message, 'c) mpsc \<Rightarrow> 'v rmpv \<Rightarrow> monitor_ref \<Rightarrow> process_id \<Rightarrow> process_id \<Rightarrow> string
     \<Rightarrow> ('c, 'h) process_table \<Rightarrow> ('c, 'h) process_table" where
  "send_down M V mref watcher target reason t =
     snd (table_send M watcher
       (message_new_internal target (down_to_value V (down_message_new mref target reason))) t)"

text \<open>The bookkeeping that removes one monitor from the index of its target and of its watcher.\<close>

definition forget_target :: "monitor_ref \<Rightarrow> process_id \<Rightarrow> ('c, 'h) process_table \<Rightarrow> ('c, 'h) process_table" where
  "forget_target mref target t =
     t\<lparr>tb_monitors_by_target := hm_modify target (filter (\<lambda>(r, _). r \<noteq> mref)) (tb_monitors_by_target t)\<rparr>"

definition forget_watcher :: "monitor_ref \<Rightarrow> process_id \<Rightarrow> ('c, 'h) process_table \<Rightarrow> ('c, 'h) process_table" where
  "forget_watcher mref watcher t =
     t\<lparr>tb_monitors_by_watcher := hm_modify watcher (filter (\<lambda>r. r \<noteq> mref)) (tb_monitors_by_watcher t)\<rparr>"

definition monitor_begin ::
  "('v message, 'c) mpsc \<Rightarrow> 'v rmpv \<Rightarrow> process_id \<Rightarrow> process_id \<Rightarrow> ('c, 'h) process_table
     \<Rightarrow> bool \<times> monitor_ref \<times> ('c, 'h) process_table" where
  "monitor_begin M V watcher target t =
     (let (mref, counter) = monitor_ref_new (tb_monitor_counter t);
          t1 = t\<lparr>tb_monitor_counter := counter\<rparr> in
      if \<not> hm_contains target (tb_processes t1)
      then (False, mref, send_down M V mref watcher target ''noproc'' t1)
      else (True, mref, t1))"

definition monitor_record ::
  "monitor_ref \<Rightarrow> process_id \<Rightarrow> process_id \<Rightarrow> ('c, 'h) process_table \<Rightarrow> ('c, 'h) process_table" where
  "monitor_record mref watcher target t =
     t\<lparr>tb_monitor_index := hm_insert mref (watcher, target) (tb_monitor_index t),
       tb_monitors_by_target := hm_push target (mref, watcher) (tb_monitors_by_target t),
       tb_monitors_by_watcher := hm_push watcher mref (tb_monitors_by_watcher t)\<rparr>"

definition monitor_recheck ::
  "('v message, 'c) mpsc \<Rightarrow> 'v rmpv \<Rightarrow> monitor_ref \<Rightarrow> process_id \<Rightarrow> process_id \<Rightarrow> ('c, 'h) process_table
     \<Rightarrow> ('c, 'h) process_table" where
  "monitor_recheck M V mref watcher target t =
     (if \<not> hm_contains target (tb_processes t)
      then
        (case hm_get (tb_monitor_index t) mref of
           None \<Rightarrow> t
         | Some _ \<Rightarrow>
             let t1 = t\<lparr>tb_monitor_index := hm_remove mref (tb_monitor_index t)\<rparr>;
                 t2 = forget_target mref target t1;
                 t3 = t2\<lparr>tb_monitors_by_target := hm_remove_if target (\<lambda>v. v = []) (tb_monitors_by_target t2)\<rparr>;
                 t4 = forget_watcher mref watcher t3;
                 t5 = t4\<lparr>tb_monitors_by_watcher := hm_remove_if watcher (\<lambda>v. v = []) (tb_monitors_by_watcher t4)\<rparr> in
             send_down M V mref watcher target ''noproc'' t5)
      else t)"

definition table_monitor ::
  "('v message, 'c) mpsc \<Rightarrow> 'v rmpv \<Rightarrow> process_id \<Rightarrow> process_id \<Rightarrow> ('c, 'h) process_table
     \<Rightarrow> monitor_ref \<times> ('c, 'h) process_table" where
  "table_monitor M V watcher target t =
     (case monitor_begin M V watcher target t of (alive, mref, t1) \<Rightarrow>
       if alive
       then (mref, monitor_recheck M V mref watcher target (monitor_record mref watcher target t1))
       else (mref, t1))"

definition table_demonitor :: "monitor_ref \<Rightarrow> ('c, 'h) process_table \<Rightarrow> ('c, 'h) process_table" where
  "table_demonitor mref t =
     (case hm_get (tb_monitor_index t) mref of
        None \<Rightarrow> t
      | Some (watcher, target) \<Rightarrow>
          forget_watcher mref watcher (forget_target mref target
            (t\<lparr>tb_monitor_index := hm_remove mref (tb_monitor_index t)\<rparr>)))"

section \<open>Exit\<close>

definition add_exit_hook :: "'h \<Rightarrow> ('c, 'h) process_table \<Rightarrow> ('c, 'h) process_table" where
  "add_exit_hook h t = t\<lparr>tb_exit_hooks := tb_exit_hooks t @ [h]\<rparr>"

definition release_names :: "process_id \<Rightarrow> ('c, 'h) process_table \<Rightarrow> ('c, 'h) process_table" where
  "release_names pid t =
     (case hm_get (tb_names_by_pid t) pid of
        None \<Rightarrow> t
      | Some names \<Rightarrow>
          t\<lparr>tb_names_by_pid := hm_remove pid (tb_names_by_pid t),
            tb_names := fold (\<lambda>n. hm_remove_if n (\<lambda>p. p = pid)) names (tb_names t)\<rparr>)"

definition notify_monitor ::
  "('v message, 'c) mpsc \<Rightarrow> 'v rmpv \<Rightarrow> process_id \<Rightarrow> monitor_ref \<times> process_id \<Rightarrow> ('c, 'h) process_table
     \<Rightarrow> ('c, 'h) process_table" where
  "notify_monitor M V pid e t =
     (case e of (mref, watcher) \<Rightarrow>
       (case hm_get (tb_monitor_index t) mref of
          None \<Rightarrow> t
        | Some _ \<Rightarrow>
            send_down M V mref watcher pid ''exit''
              (forget_watcher mref watcher
                (t\<lparr>tb_monitor_index := hm_remove mref (tb_monitor_index t)\<rparr>))))"

definition notify_monitors ::
  "('v message, 'c) mpsc \<Rightarrow> 'v rmpv \<Rightarrow> process_id \<Rightarrow> ('c, 'h) process_table \<Rightarrow> ('c, 'h) process_table" where
  "notify_monitors M V pid t =
     (case hm_get (tb_monitors_by_target t) pid of
        None \<Rightarrow> t
      | Some entries \<Rightarrow>
          fold (notify_monitor M V pid) entries
            (t\<lparr>tb_monitors_by_target := hm_remove pid (tb_monitors_by_target t)\<rparr>))"

definition release_monitor :: "monitor_ref \<Rightarrow> ('c, 'h) process_table \<Rightarrow> ('c, 'h) process_table" where
  "release_monitor mref t =
     (case hm_get (tb_monitor_index t) mref of
        None \<Rightarrow> t
      | Some (_, target) \<Rightarrow>
          forget_target mref target (t\<lparr>tb_monitor_index := hm_remove mref (tb_monitor_index t)\<rparr>))"

definition release_monitors :: "process_id \<Rightarrow> ('c, 'h) process_table \<Rightarrow> ('c, 'h) process_table" where
  "release_monitors pid t =
     (case hm_get (tb_monitors_by_watcher t) pid of
        None \<Rightarrow> t
      | Some mrefs \<Rightarrow>
          fold release_monitor mrefs (t\<lparr>tb_monitors_by_watcher := hm_remove pid (tb_monitors_by_watcher t)\<rparr>))"

definition cleanup_process ::
  "('v message, 'c) mpsc \<Rightarrow> 'v rmpv \<Rightarrow> process_id \<Rightarrow> ('c, 'h) process_table
     \<Rightarrow> (process_id \<times> 'c mailbox) option \<times> ('h \<times> process_id) list \<times> ('c, 'h) process_table" where
  "cleanup_process M V pid t =
     (case hm_get (tb_processes t) pid of
        None \<Rightarrow> (None, [], t)
      | Some handle \<Rightarrow>
          let t1 = t\<lparr>tb_processes := hm_remove pid (tb_processes t)\<rparr>;
              t2 = release_names pid t1;
              t3 = notify_monitors M V pid t2;
              t4 = release_monitors pid t3 in
          (Some (pid, handle), map (\<lambda>h. (h, pid)) (tb_exit_hooks t4), t4))"

section \<open>Views of the indexes\<close>

definition names_of :: "('c, 'h) process_table \<Rightarrow> process_id \<Rightarrow> string list" where
  "names_of t pid = (case hm_get (tb_names_by_pid t) pid of None \<Rightarrow> [] | Some ns \<Rightarrow> ns)"

definition alive :: "('c, 'h) process_table \<Rightarrow> process_id \<Rightarrow> bool" where
  "alive t pid \<longleftrightarrow> hm_contains pid (tb_processes t)"

definition monitors_of :: "('c, 'h) process_table \<Rightarrow> process_id \<Rightarrow> (monitor_ref \<times> process_id) list" where
  "monitors_of t p = (case hm_get (tb_monitors_by_target t) p of None \<Rightarrow> [] | Some es \<Rightarrow> es)"

definition held_by :: "('c, 'h) process_table \<Rightarrow> process_id \<Rightarrow> monitor_ref list" where
  "held_by t w = (case hm_get (tb_monitors_by_watcher t) w of None \<Rightarrow> [] | Some rs \<Rightarrow> rs)"

definition inbox :: "('v message, 'c) mpsc \<Rightarrow> ('c, 'h) process_table \<Rightarrow> process_id \<Rightarrow> 'v message list" where
  "inbox M t pid = (case hm_get (tb_processes t) pid of None \<Rightarrow> [] | Some h \<Rightarrow> mb_queue M h)"

text \<open>A process whose mailbox takes every message.\<close>

definition accepts :: "('v message, 'c) mpsc \<Rightarrow> ('c, 'h) process_table \<Rightarrow> process_id \<Rightarrow> bool" where
  "accepts M t pid \<longleftrightarrow> (\<exists>c. hm_get (tb_processes t) pid = Some (Unbounded c) \<and> receiver_alive M c)"

lemma hm_get_remove_if [simp]:
  "hm_get (hm_remove_if k P m) x =
     (if x = k then (case hm_get m k of Some v \<Rightarrow> if P v then None else Some v | None \<Rightarrow> None) else hm_get m x)"
  by (auto simp: hm_remove_if_def split: option.splits)

lemma table_send_other [simp]:
  "tb_names (snd (table_send M pid msg t)) = tb_names t"
  "tb_names_by_pid (snd (table_send M pid msg t)) = tb_names_by_pid t"
  "tb_monitors_by_target (snd (table_send M pid msg t)) = tb_monitors_by_target t"
  "tb_monitors_by_watcher (snd (table_send M pid msg t)) = tb_monitors_by_watcher t"
  "tb_monitor_index (snd (table_send M pid msg t)) = tb_monitor_index t"
  "tb_monitor_counter (snd (table_send M pid msg t)) = tb_monitor_counter t"
  "tb_exit_hooks (snd (table_send M pid msg t)) = tb_exit_hooks t"
  "alive (snd (table_send M pid msg t)) p = alive t p"
  by (auto simp: table_send_def case_prod_beta Let_def alive_def hm_contains_def split: option.splits)

lemma send_down_other [simp]:
  "tb_names (send_down M V r w p s t) = tb_names t"
  "tb_names_by_pid (send_down M V r w p s t) = tb_names_by_pid t"
  "tb_monitors_by_target (send_down M V r w p s t) = tb_monitors_by_target t"
  "tb_monitors_by_watcher (send_down M V r w p s t) = tb_monitors_by_watcher t"
  "tb_monitor_index (send_down M V r w p s t) = tb_monitor_index t"
  "tb_monitor_counter (send_down M V r w p s t) = tb_monitor_counter t"
  "tb_exit_hooks (send_down M V r w p s t) = tb_exit_hooks t"
  "alive (send_down M V r w p s t) q = alive t q"
  by (simp_all add: send_down_def)

lemma table_send_outcome:
  assumes "mpsc_ok M"
  shows "fst (table_send M pid msg t) =
    (case hm_get (tb_processes t) pid of
       None \<Rightarrow> Inl (ProcessDead pid)
     | Some h \<Rightarrow> if \<not> mb_open M h then Inl (ProcessDead pid)
                 else if mb_full M h then Inl (MailboxFull pid) else Inr ())"
  using mailbox_send_spec(1) [OF assms]
  by (simp add: table_send_def case_prod_beta Let_def split: option.splits)

lemma accepts_send [simp]:
  assumes "mpsc_ok M"
  shows "accepts M (snd (table_send M pid msg t)) w = accepts M t w"
proof -
  have "(\<exists>c. snd (mailbox_send M msg h) = Unbounded c \<and> receiver_alive M c) \<longleftrightarrow>
      (\<exists>c. h = Unbounded c \<and> receiver_alive M c)" for h
    by (cases h) (auto simp: case_prod_beta Let_def mpsc_okD [OF assms])
  then show ?thesis
    by (auto simp: accepts_def table_send_def case_prod_beta Let_def split: option.splits)
qed

lemma inbox_send:
  assumes "mpsc_ok M" and "accepts M t w"
  shows "inbox M (snd (table_send M pid msg t)) w = inbox M t w @ (if pid = w then [msg] else [])"
  using assms mailbox_send_spec(2) [OF assms(1)]
  by (auto simp: inbox_def accepts_def table_send_def case_prod_beta Let_def mb_open_def mb_full_def
      split: option.splits)

section \<open>Names\<close>

definition names_ok :: "('c, 'h) process_table \<Rightarrow> bool" where
  "names_ok t \<longleftrightarrow> (\<forall>name pid. whereis name t = Some pid \<longleftrightarrow> name \<in> set (names_of t pid))
     \<and> (\<forall>name pid. whereis name t = Some pid \<longrightarrow> alive t pid)"

lemma names_okI:
  "(\<And>n q. n \<in> set (names_of t q) \<longleftrightarrow> whereis n t = Some q) \<Longrightarrow>
   (\<And>n q. whereis n t = Some q \<Longrightarrow> alive t q) \<Longrightarrow> names_ok t"
  by (auto simp: names_ok_def)

lemma names_okD:
  "names_ok t \<Longrightarrow> n \<in> set (names_of t q) \<longleftrightarrow> whereis n t = Some q"
  "names_ok t \<Longrightarrow> whereis n t = Some q \<Longrightarrow> alive t q"
  by (auto simp: names_ok_def)

lemma view_updates [simp]:
  "alive (t\<lparr>tb_names := a\<rparr>) p = alive t p" "alive (t\<lparr>tb_names_by_pid := b\<rparr>) p = alive t p"
  "alive (t\<lparr>tb_monitor_index := c\<rparr>) p = alive t p" "alive (t\<lparr>tb_monitors_by_target := d\<rparr>) p = alive t p"
  "alive (t\<lparr>tb_monitors_by_watcher := e\<rparr>) p = alive t p" "alive (t\<lparr>tb_monitor_counter := k\<rparr>) p = alive t p"
  "alive (t\<lparr>tb_processes := hm_remove q (tb_processes t)\<rparr>) p = (p \<noteq> q \<and> alive t p)"
  by (simp_all add: alive_def hm_contains_def)

lemma names_of_drop [simp]:
  "names_of (drop_name name p t) q = (if q = p then filter (\<lambda>n. n \<noteq> name) (names_of t q) else names_of t q)"
  by (auto simp: names_of_def drop_name_def split: option.splits)

lemma drop_name_other [simp]:
  "tb_names (drop_name name p t) = tb_names t" "tb_processes (drop_name name p t) = tb_processes t"
  by (simp_all add: drop_name_def)

lemma register_index_view:
  "whereis n (register_index name pid prev t) = whereis n t"
  "names_of (register_index name pid prev t) q =
     (if prev = Some q then filter (\<lambda>n. n \<noteq> name) (names_of t q) else names_of t q) @ (if q = pid then [name] else [])"
  "alive (register_index name pid prev t) q = alive t q"
proof -
  have push: "names_of (t'\<lparr>tb_names_by_pid := hm_push pid name (tb_names_by_pid t')\<rparr>) q
      = names_of t' q @ (if q = pid then [name] else [])" for t' :: "('a, 'b) process_table"
    by (auto simp: names_of_def split: option.splits)
  show "names_of (register_index name pid prev t) q =
     (if prev = Some q then filter (\<lambda>n. n \<noteq> name) (names_of t q) else names_of t q) @ (if q = pid then [name] else [])"
    unfolding register_index_def Let_def push by (cases prev) auto
qed (simp_all add: register_index_def whereis_def alive_def Let_def split: option.splits)

lemma register_recheck_view:
  "whereis n (snd (register_recheck name pid t)) =
     (if \<not> alive t pid \<and> n = name \<and> whereis n t = Some pid then None else whereis n t)"
  "set (names_of (snd (register_recheck name pid t)) q) =
     (if \<not> alive t pid \<and> q = pid then set (names_of t q) - {name} else set (names_of t q))"
  "alive (snd (register_recheck name pid t)) q = alive t q"
  by (auto simp: register_recheck_def Let_def whereis_def names_of_def alive_def drop_name_def filter_empty_conv
      split: option.splits if_splits)

lemma register_claim_view:
  assumes "register_claim name pid force t = (Continue prev, t1)"
  shows "whereis n t1 = (if n = name then Some pid else whereis n t)"
    and "names_of t1 q = names_of t q" and "alive t1 q = alive t q"
    and "prev = whereis name t" and "prev \<noteq> Some pid" and "alive t pid"
  using assms
  by (auto simp: register_claim_def whereis_def names_of_def alive_def split: if_splits option.splits)

lemma register_claim_done: "register_claim name pid force t = (Done r, t1) \<Longrightarrow> t1 = t"
  by (auto simp: register_claim_def split: if_splits option.splits)

lemma names_ok_register:
  assumes "names_ok t"
  shows "names_ok (snd (register_inner name pid force t))"
proof (cases "register_claim name pid force t")
  case (Pair st t1)
  show ?thesis
  proof (cases st)
    case (Done r)
    with assms Pair register_claim_done [of name pid force t] show ?thesis by (simp add: register_inner_def)
  next
    case (Continue prev)
    note c = register_claim_view [OF Pair [unfolded Continue]]
    show ?thesis
      unfolding register_inner_def Pair Continue
      by (rule names_okI)
         (use c names_okD [OF assms] in \<open>auto simp: register_index_view register_recheck_view split: if_splits\<close>)
  qed
qed

lemma unregister_view:
  "whereis n (snd (table_unregister name t)) = (if n = name then None else whereis n t)"
  "names_of (snd (table_unregister name t)) q =
     (if whereis name t = Some q then filter (\<lambda>n. n \<noteq> name) (names_of t q) else names_of t q)"
  "alive (snd (table_unregister name t)) q = alive t q"
  by (auto simp: table_unregister_def whereis_def alive_def names_of_def drop_name_def split: option.splits)

lemma names_ok_unregister: "names_ok t \<Longrightarrow> names_ok (snd (table_unregister name t))"
  by (rule names_okI) (auto simp: unregister_view names_okD split: if_splits)

lemma fold_remove_if_get:
  "hm_get (fold (\<lambda>n. hm_remove_if n (\<lambda>p. p = pid)) ns m) x =
     (if x \<in> set ns \<and> hm_get m x = Some pid then None else hm_get m x)"
  by (induction ns arbitrary: m) (auto split: option.splits)

lemma release_names_view:
  "whereis n (release_names pid t) = (if n \<in> set (names_of t pid) \<and> whereis n t = Some pid then None else whereis n t)"
  "names_of (release_names pid t) q = (if q = pid then [] else names_of t q)"
  "alive (release_names pid t) q = alive t q"
  by (auto simp: release_names_def whereis_def names_of_def alive_def fold_remove_if_get split: option.splits)

lemma release_names_other [simp]:
  "tb_processes (release_names pid t) = tb_processes t"
  "tb_monitors_by_target (release_names pid t) = tb_monitors_by_target t"
  "tb_monitors_by_watcher (release_names pid t) = tb_monitors_by_watcher t"
  "tb_monitor_index (release_names pid t) = tb_monitor_index t"
  "tb_monitor_counter (release_names pid t) = tb_monitor_counter t"
  by (simp_all add: release_names_def split: option.splits)

lemma notify_other:
  "tb_names (fold (notify_monitor M V pid) es t) = tb_names t"
  "tb_names_by_pid (fold (notify_monitor M V pid) es t) = tb_names_by_pid t"
  "tb_monitors_by_target (fold (notify_monitor M V pid) es t) = tb_monitors_by_target t"
  "tb_monitor_counter (fold (notify_monitor M V pid) es t) = tb_monitor_counter t"
  "alive (fold (notify_monitor M V pid) es t) q = alive t q"
  by (induction es arbitrary: t)
     (auto simp: notify_monitor_def forget_watcher_def split: option.splits)

lemma release_monitors_other:
  "tb_names (release_monitors pid t) = tb_names t"
  "tb_names_by_pid (release_monitors pid t) = tb_names_by_pid t"
  "tb_processes (release_monitors pid t) = tb_processes t"
  "tb_monitor_counter (release_monitors pid t) = tb_monitor_counter t"
  "tb_exit_hooks (release_monitors pid t) = tb_exit_hooks t"
proof -
  have "tb_names (fold release_monitor rs t') = tb_names t' \<and>
      tb_names_by_pid (fold release_monitor rs t') = tb_names_by_pid t' \<and>
      tb_processes (fold release_monitor rs t') = tb_processes t' \<and>
      tb_monitor_counter (fold release_monitor rs t') = tb_monitor_counter t' \<and>
      tb_exit_hooks (fold release_monitor rs t') = tb_exit_hooks t'" for rs and t' :: "('a, 'b) process_table"
    by (induction rs arbitrary: t') (auto simp: release_monitor_def forget_target_def split: option.splits)
  then show "tb_names (release_monitors pid t) = tb_names t"
    "tb_names_by_pid (release_monitors pid t) = tb_names_by_pid t"
    "tb_processes (release_monitors pid t) = tb_processes t"
    "tb_monitor_counter (release_monitors pid t) = tb_monitor_counter t"
    "tb_exit_hooks (release_monitors pid t) = tb_exit_hooks t"
    by (simp_all add: release_monitors_def split: option.splits)
qed

lemma notify_monitors_other:
  "tb_names (notify_monitors M V pid t) = tb_names t"
  "tb_names_by_pid (notify_monitors M V pid t) = tb_names_by_pid t"
  "tb_monitor_counter (notify_monitors M V pid t) = tb_monitor_counter t"
  "alive (notify_monitors M V pid t) q = alive t q"
  by (simp_all add: notify_monitors_def notify_other split: option.splits)

abbreviation cleaned where
  "cleaned M V pid t \<equiv> snd (snd (cleanup_process M V pid t))"

lemma cleanup_names_view:
  assumes "alive t pid"
  shows "whereis n (cleaned M V pid t) = (if n \<in> set (names_of t pid) \<and> whereis n t = Some pid then None else whereis n t)"
    and "names_of (cleaned M V pid t) q = (if q = pid then [] else names_of t q)"
    and "alive (cleaned M V pid t) q = (q \<noteq> pid \<and> alive t q)"
proof -
  let ?t1 = "t\<lparr>tb_processes := hm_remove pid (tb_processes t)\<rparr>"
  have c: "cleaned M V pid t = release_monitors pid (notify_monitors M V pid (release_names pid ?t1))"
    using assms by (auto simp: cleanup_process_def alive_def hm_contains_def Let_def)
  have n: "names_of ?t1 = names_of t" "whereis m ?t1 = whereis m t" for m
    by (simp_all add: names_of_def whereis_def fun_eq_iff)
  show "whereis n (cleaned M V pid t) = (if n \<in> set (names_of t pid) \<and> whereis n t = Some pid then None else whereis n t)"
    unfolding c using release_names_view(1) [of n pid ?t1]
    by (simp add: whereis_def [of n "release_monitors _ _"] release_monitors_other notify_monitors_other n
        whereis_def [of n "release_names _ _"])
  show "names_of (cleaned M V pid t) q = (if q = pid then [] else names_of t q)"
    unfolding c using release_names_view(2) [of pid ?t1 q]
    by (simp add: names_of_def [of "release_monitors _ _"] release_monitors_other notify_monitors_other n
        names_of_def [of "release_names _ _"])
  have "alive (release_monitors pid t') q = alive t' q" for t' :: "('a, 'b) process_table"
    by (simp add: alive_def release_monitors_other)
  then show "alive (cleaned M V pid t) q = (q \<noteq> pid \<and> alive t q)"
    unfolding c by (simp add: notify_monitors_other release_names_view)
qed

lemma cleanup_dead: "\<not> alive t pid \<Longrightarrow> cleaned M V pid t = t"
  by (simp add: cleanup_process_def alive_def hm_contains_def)

lemma names_ok_cleanup: "names_ok t \<Longrightarrow> names_ok (cleaned M V pid t)"
proof (cases "alive t pid")
  case True
  assume "names_ok t"
  then show ?thesis
    by (intro names_okI) (auto simp: cleanup_names_view [OF True] names_okD split: if_splits)
qed (simp add: cleanup_dead)

section \<open>Monitors\<close>

definition monitors_ok :: "('c, 'h) process_table \<Rightarrow> bool" where
  "monitors_ok t \<longleftrightarrow>
     (\<forall>r w p. (r, w) \<in> set (monitors_of t p) \<longleftrightarrow> hm_get (tb_monitor_index t) r = Some (w, p))
   \<and> (\<forall>r w. r \<in> set (held_by t w) \<longleftrightarrow> (\<exists>p. hm_get (tb_monitor_index t) r = Some (w, p)))
   \<and> (\<forall>p. distinct (map fst (monitors_of t p)))
   \<and> (\<forall>r w p. hm_get (tb_monitor_index t) r = Some (w, p) \<longrightarrow> alive t p)
   \<and> (\<forall>r. hm_get (tb_monitor_index t) r \<noteq> None \<longrightarrow> r < tb_monitor_counter t)"

text \<open>The part of it that does not depend on which processes are alive.\<close>

definition monitors_linked :: "('c, 'h) process_table \<Rightarrow> bool" where
  "monitors_linked t \<longleftrightarrow>
     (\<forall>r w p. (r, w) \<in> set (monitors_of t p) \<longleftrightarrow> hm_get (tb_monitor_index t) r = Some (w, p))
   \<and> (\<forall>r w. r \<in> set (held_by t w) \<longleftrightarrow> (\<exists>p. hm_get (tb_monitor_index t) r = Some (w, p)))
   \<and> (\<forall>p. distinct (map fst (monitors_of t p)))"

lemma monitors_ok_linked: "monitors_ok t \<Longrightarrow> monitors_linked t"
  by (simp add: monitors_ok_def monitors_linked_def)

lemma forget_views [simp]:
  "monitors_of (forget_target r p t) q = (if q = p then filter (\<lambda>(r', _). r' \<noteq> r) (monitors_of t q) else monitors_of t q)"
  "held_by (forget_target r p t) w = held_by t w"
  "tb_monitor_index (forget_target r p t) = tb_monitor_index t"
  "held_by (forget_watcher r w t) w' = (if w' = w then filter (\<lambda>r'. r' \<noteq> r) (held_by t w') else held_by t w')"
  "monitors_of (forget_watcher r w t) q = monitors_of t q"
  "tb_monitor_index (forget_watcher r w t) = tb_monitor_index t"
  "alive (forget_target r p t) q = alive t q" "alive (forget_watcher r w t) q = alive t q"
  "tb_monitor_counter (forget_target r p t) = tb_monitor_counter t"
  "tb_monitor_counter (forget_watcher r w t) = tb_monitor_counter t"
  "tb_processes (forget_target r p t) = tb_processes t" "tb_processes (forget_watcher r w t) = tb_processes t"
  by (auto simp: monitors_of_def held_by_def forget_target_def forget_watcher_def split: option.splits)

lemma monitor_view_updates [simp]:
  "monitors_of (t\<lparr>tb_monitor_index := i\<rparr>) p = monitors_of t p" "held_by (t\<lparr>tb_monitor_index := i\<rparr>) w = held_by t w"
  "monitors_of (t\<lparr>tb_processes := ps\<rparr>) p = monitors_of t p" "held_by (t\<lparr>tb_processes := ps\<rparr>) w = held_by t w"
  "monitors_of (t\<lparr>tb_monitor_counter := k\<rparr>) p = monitors_of t p" "held_by (t\<lparr>tb_monitor_counter := k\<rparr>) w = held_by t w"
  "monitors_of (t\<lparr>tb_monitors_by_target := hm_remove q (tb_monitors_by_target t)\<rparr>) p = (if p = q then [] else monitors_of t p)"
  "held_by (t\<lparr>tb_monitors_by_target := mt\<rparr>) w = held_by t w"
  "held_by (t\<lparr>tb_monitors_by_watcher := hm_remove v (tb_monitors_by_watcher t)\<rparr>) w = (if w = v then [] else held_by t w)"
  "monitors_of (t\<lparr>tb_monitors_by_watcher := mw\<rparr>) p = monitors_of t p"
  "monitors_of (send_down M V r w' p' s t) p = monitors_of t p" "held_by (send_down M V r w' p' s t) w = held_by t w"
  by (simp_all add: monitors_of_def held_by_def)

lemma monitors_ok_demonitor:
  assumes "monitors_ok t"
  shows "monitors_ok (table_demonitor r t)"
proof (cases "hm_get (tb_monitor_index t) r")
  case None
  with assms show ?thesis by (simp add: table_demonitor_def)
next
  case (Some wp)
  obtain w p where wp: "wp = (w, p)" by (cases wp)
  have d: "distinct (map fst (filter P xs))" if "distinct (map fst xs)" for P and xs :: "(monitor_ref \<times> process_id) list"
    using that by (simp add: distinct_map_filter)
  show ?thesis
    using assms Some d by (auto simp: table_demonitor_def monitors_ok_def wp)
qed

lemma u64_less_Suc: "k \<noteq> u64_max \<Longrightarrow> k < k + 1"
  using u64_saturating_add_1_gt [of k] by (simp add: u64_saturating_add_1)

lemma table_monitor_seq:
  "table_monitor M V w p t =
     (tb_monitor_counter t,
      (if alive t p
       then monitor_record (tb_monitor_counter t) w p (t\<lparr>tb_monitor_counter := tb_monitor_counter t + 1\<rparr>)
       else send_down M V (tb_monitor_counter t) w p ''noproc'' (t\<lparr>tb_monitor_counter := tb_monitor_counter t + 1\<rparr>)))"
  by (simp add: table_monitor_def monitor_begin_def monitor_ref_new_def Let_def alive_def monitor_recheck_def
      monitor_record_def)

lemma monitor_record_view:
  "monitors_of (monitor_record r w p t) q = monitors_of t q @ (if q = p then [(r, w)] else [])"
  "held_by (monitor_record r w p t) v = held_by t v @ (if v = w then [r] else [])"
  "hm_get (tb_monitor_index (monitor_record r w p t)) x = (if x = r then Some (w, p) else hm_get (tb_monitor_index t) x)"
  "alive (monitor_record r w p t) q = alive t q"
  "tb_monitor_counter (monitor_record r w p t) = tb_monitor_counter t"
  by (auto simp: monitor_record_def monitors_of_def held_by_def alive_def split: option.splits)

lemma monitors_ok_counter:
  assumes "monitors_ok t" and "tb_monitor_counter t \<noteq> u64_max"
  shows "monitors_ok (t\<lparr>tb_monitor_counter := tb_monitor_counter t + 1\<rparr>)"
    and "hm_get (tb_monitor_index t) (tb_monitor_counter t) = None"
proof -
  have lt: "r < tb_monitor_counter t" if "hm_get (tb_monitor_index t) r \<noteq> None" for r
    using assms(1) that unfolding monitors_ok_def by blast
  then show "hm_get (tb_monitor_index t) (tb_monitor_counter t) = None" by (metis less_irrefl)
  have "r < tb_monitor_counter t + 1" if "hm_get (tb_monitor_index t) r \<noteq> None" for r
    using lt [OF that] u64_less_Suc [OF assms(2)] by (rule less_trans)
  with assms(1) show "monitors_ok (t\<lparr>tb_monitor_counter := tb_monitor_counter t + 1\<rparr>)"
    by (simp add: monitors_ok_def)
qed

lemma monitors_ok_send: "monitors_ok (send_down M V r w p s t) = monitors_ok t"
  by (simp add: monitors_ok_def)

lemma monitors_ok_record:
  assumes "monitors_ok t" and "hm_get (tb_monitor_index t) r = None" and "alive t p" and "r < tb_monitor_counter t"
  shows "monitors_ok (monitor_record r w p t)"
proof -
  have fresh: "(r, v) \<notin> set (monitors_of t q)" "r \<notin> set (held_by t v)" for v q
    using assms(1,2) by (auto simp: monitors_ok_def)
  then have "r \<notin> fst ` set (monitors_of t q)" for q by force
  with assms fresh show ?thesis by (auto simp: monitors_ok_def monitor_record_view)
qed

lemma monitors_ok_monitor:
  assumes "monitors_ok t" and "tb_monitor_counter t \<noteq> u64_max"
  shows "monitors_ok (snd (table_monitor M V w p t))"
  using monitors_ok_counter [OF assms] u64_less_Suc [OF assms(2)]
  by (simp add: table_monitor_seq monitors_ok_send monitors_ok_record)

lemma notify_fold_index:
  "hm_get (tb_monitor_index (fold (notify_monitor M V pid) es t)) r =
     (if r \<in> fst ` set es then None else hm_get (tb_monitor_index t) r)"
  by (induction es arbitrary: t) (auto simp: notify_monitor_def split: option.splits)

lemma notify_fold_held:
  assumes "\<forall>(r, w) \<in> set es. hm_get (tb_monitor_index t) r \<noteq> None" and "distinct (map fst es)"
  shows "set (held_by (fold (notify_monitor M V pid) es t) w) = {r \<in> set (held_by t w). (r, w) \<notin> set es}"
  using assms
proof (induction es arbitrary: t)
  case (Cons e es)
  obtain r v where e: "e = (r, v)" by (cases e)
  have ne: "r \<noteq> r'" if "(r', w') \<in> set es" for r' w' using Cons.prems(2) that by (force simp: e)
  have "\<forall>(r, w) \<in> set es. hm_get (tb_monitor_index (notify_monitor M V pid e t)) r \<noteq> None"
    using Cons.prems(1) ne by (force simp: e notify_monitor_def split: option.splits)
  from Cons.IH [OF this] Cons.prems show ?case
    by (auto simp: e notify_monitor_def split: option.splits)
qed simp

lemma notify_monitors_view:
  assumes "monitors_linked t"
  shows "hm_get (tb_monitor_index (notify_monitors M V pid t)) r =
      (case hm_get (tb_monitor_index t) r of Some (w, p) \<Rightarrow> if p = pid then None else Some (w, p) | None \<Rightarrow> None)"
    and "monitors_of (notify_monitors M V pid t) p = (if p = pid then [] else monitors_of t p)"
    and "set (held_by (notify_monitors M V pid t) w) =
      {r \<in> set (held_by t w). hm_get (tb_monitor_index t) r \<noteq> Some (w, pid)}"
proof -
  have es: "(r, w) \<in> set (monitors_of t pid) \<longleftrightarrow> hm_get (tb_monitor_index t) r = Some (w, pid)" for r w
    using assms by (simp add: monitors_linked_def)
  have n: "notify_monitors M V pid t = (if hm_get (tb_monitors_by_target t) pid = None then t
      else fold (notify_monitor M V pid) (monitors_of t pid)
        (t\<lparr>tb_monitors_by_target := hm_remove pid (tb_monitors_by_target t)\<rparr>))"
    by (auto simp: notify_monitors_def monitors_of_def)
  have d: "distinct (map fst (monitors_of t pid))" using assms by (simp add: monitors_linked_def)
  have none: "hm_get (tb_monitors_by_target t) pid = None \<Longrightarrow> monitors_of t pid = []" by (simp add: monitors_of_def)
  have fs: "r \<in> fst ` set (monitors_of t pid) \<longleftrightarrow> (\<exists>w. hm_get (tb_monitor_index t) r = Some (w, pid))"
    using es by force
  show "hm_get (tb_monitor_index (notify_monitors M V pid t)) r =
      (case hm_get (tb_monitor_index t) r of Some (w, p) \<Rightarrow> if p = pid then None else Some (w, p) | None \<Rightarrow> None)"
    using fs none
    by (cases "hm_get (tb_monitors_by_target t) pid = None") (auto simp: n notify_fold_index split: option.splits)
  show "monitors_of (notify_monitors M V pid t) p = (if p = pid then [] else monitors_of t p)"
    using none by (auto simp: n monitors_of_def [of "fold _ _ _"] notify_other) (simp_all add: monitors_of_def)
  have "\<forall>(r, w) \<in> set (monitors_of t pid). hm_get (tb_monitor_index
      (t\<lparr>tb_monitors_by_target := hm_remove pid (tb_monitors_by_target t)\<rparr>)) r \<noteq> None"
    using es by auto
  from notify_fold_held [OF this d, of M V pid w] none es show "set (held_by (notify_monitors M V pid t) w) =
      {r \<in> set (held_by t w). hm_get (tb_monitor_index t) r \<noteq> Some (w, pid)}"
    by (auto simp: n)
qed

lemma release_fold_view:
  "hm_get (tb_monitor_index (fold release_monitor rs t)) r = (if r \<in> set rs then None else hm_get (tb_monitor_index t) r)"
  "held_by (fold release_monitor rs t) w = held_by t w"
  by (induction rs arbitrary: t) (auto simp: release_monitor_def split: option.splits)

lemma release_monitor_monitors:
  "monitors_of (release_monitor x t) p =
     filter (\<lambda>(r, _). \<not> (r = x \<and> (\<exists>w. hm_get (tb_monitor_index t) x = Some (w, p)))) (monitors_of t p)"
  by (cases "hm_get (tb_monitor_index t) x") (auto simp: release_monitor_def filter_id_conv intro!: filter_cong)

lemma release_fold_monitors:
  "monitors_of (fold release_monitor rs t) p =
     filter (\<lambda>(r, _). \<not> (r \<in> set rs \<and> (\<exists>w. hm_get (tb_monitor_index t) r = Some (w, p)))) (monitors_of t p)"
proof (induction rs arbitrary: t)
  case (Cons x rs)
  have i: "hm_get (tb_monitor_index (release_monitor x t)) r = (if r = x then None else hm_get (tb_monitor_index t) r)" for r
    using release_fold_view(1) [of "[x]" t r] by simp
  show ?case
    unfolding fold.simps comp_def Cons.IH release_monitor_monitors filter_filter
    by (rule filter_cong) (auto simp: i split: if_splits)
qed (simp add: filter_id_conv)

lemma release_monitors_view:
  assumes "\<And>r. r \<in> set (held_by t pid) \<longleftrightarrow> (\<exists>p. hm_get (tb_monitor_index t) r = Some (pid, p))"
    and "\<And>r w p. (r, w) \<in> set (monitors_of t p) \<longleftrightarrow> hm_get (tb_monitor_index t) r = Some (w, p)"
  shows "hm_get (tb_monitor_index (release_monitors pid t)) r =
      (case hm_get (tb_monitor_index t) r of Some (w, p) \<Rightarrow> if w = pid then None else Some (w, p) | None \<Rightarrow> None)"
    and "held_by (release_monitors pid t) w = (if w = pid then [] else held_by t w)"
    and "monitors_of (release_monitors pid t) p = filter (\<lambda>(r, w). w \<noteq> pid) (monitors_of t p)"
proof -
  let ?t = "t\<lparr>tb_monitors_by_watcher := hm_remove pid (tb_monitors_by_watcher t)\<rparr>"
  have n: "release_monitors pid t = (if hm_get (tb_monitors_by_watcher t) pid = None then t
      else fold release_monitor (held_by t pid) ?t)"
    by (auto simp: release_monitors_def held_by_def)
  have none: "hm_get (tb_monitors_by_watcher t) pid = None \<Longrightarrow> held_by t pid = []" by (simp add: held_by_def)
  show "hm_get (tb_monitor_index (release_monitors pid t)) r =
      (case hm_get (tb_monitor_index t) r of Some (w, p) \<Rightarrow> if w = pid then None else Some (w, p) | None \<Rightarrow> None)"
    using assms(1) [of r] none
    by (cases "hm_get (tb_monitors_by_watcher t) pid = None") (auto simp: n release_fold_view split: option.splits)
  show "held_by (release_monitors pid t) w = (if w = pid then [] else held_by t w)"
    using none by (auto simp: n release_fold_view)
  have nw: "w \<noteq> pid" if "hm_get (tb_monitors_by_watcher t) pid = None" "(r, w) \<in> set (monitors_of t p)" for r w p
    using assms(1) [of r] assms(2) [of r w p] none that by auto
  have "filter (\<lambda>(r, w). w \<noteq> pid) (monitors_of t p) = monitors_of t p"
    if "hm_get (tb_monitors_by_watcher t) pid = None"
    using nw [OF that] by (auto simp: filter_id_conv)
  moreover have "monitors_of (fold release_monitor (held_by t pid) ?t) p = filter (\<lambda>(r, w). w \<noteq> pid) (monitors_of t p)"
    unfolding release_fold_monitors by (rule filter_cong) (auto simp: assms)
  ultimately show "monitors_of (release_monitors pid t) p = filter (\<lambda>(r, w). w \<noteq> pid) (monitors_of t p)"
    by (simp add: n)
qed

lemma monitors_ok_cleanup:
  assumes "monitors_ok t"
  shows "monitors_ok (cleaned M V pid t)"
proof (cases "alive t pid")
  case True
  let ?t2 = "release_names pid (t\<lparr>tb_processes := hm_remove pid (tb_processes t)\<rparr>)"
  let ?t3 = "notify_monitors M V pid ?t2"
  have c: "cleaned M V pid t = release_monitors pid ?t3"
    using True by (auto simp: cleanup_process_def alive_def hm_contains_def Let_def)
  have v2: "monitors_of ?t2 p = monitors_of t p" "held_by ?t2 w = held_by t w"
      "tb_monitor_index ?t2 = tb_monitor_index t" for p w
    by (simp_all add: monitors_of_def held_by_def)
  have a: "alive (cleaned M V pid t) q \<longleftrightarrow> q \<noteq> pid \<and> alive t q" for q by (rule cleanup_names_view(3) [OF True])
  have "monitors_linked ?t2"
    using monitors_ok_linked [OF assms] v2 by (simp add: monitors_linked_def)
  note n = notify_monitors_view [OF this, unfolded v2]
  have ok: "\<And>r w p. (r, w) \<in> set (monitors_of t p) \<longleftrightarrow> hm_get (tb_monitor_index t) r = Some (w, p)"
      "\<And>r w. r \<in> set (held_by t w) \<longleftrightarrow> (\<exists>p. hm_get (tb_monitor_index t) r = Some (w, p))"
      "\<And>p. distinct (map fst (monitors_of t p))"
      "\<And>r w p. hm_get (tb_monitor_index t) r = Some (w, p) \<Longrightarrow> alive t p"
      "\<And>r. hm_get (tb_monitor_index t) r \<noteq> None \<Longrightarrow> r < tb_monitor_counter t"
    using assms unfolding monitors_ok_def by blast+
  have h3: "r \<in> set (held_by ?t3 w) \<longleftrightarrow> (\<exists>p. hm_get (tb_monitor_index ?t3) r = Some (w, p))" for r w
    unfolding n by (auto simp: ok(2) split: option.splits)
  have m3: "(r, w) \<in> set (monitors_of ?t3 p) \<longleftrightarrow> hm_get (tb_monitor_index ?t3) r = Some (w, p)" for r w p
    unfolding n by (auto simp: ok(1) split: option.splits)
  note r = release_monitors_view [of ?t3 pid, OF h3 m3]
  have counter: "tb_monitor_counter (cleaned M V pid t) = tb_monitor_counter t"
    by (simp add: c release_monitors_other notify_monitors_other)
  have idx: "hm_get (tb_monitor_index (cleaned M V pid t)) x = Some (w, p) \<longleftrightarrow>
      hm_get (tb_monitor_index t) x = Some (w, p) \<and> p \<noteq> pid \<and> w \<noteq> pid" for x w p
    unfolding c r n by (auto split: option.splits)
  have m: "monitors_of (cleaned M V pid t) p = (if p = pid then [] else filter (\<lambda>(_, w). w \<noteq> pid) (monitors_of t p))" for p
    unfolding c r n by simp
  have h: "x \<in> set (held_by (cleaned M V pid t) w) \<longleftrightarrow> (\<exists>p. hm_get (tb_monitor_index (cleaned M V pid t)) x = Some (w, p))" for x w
    unfolding idx unfolding c r using h3 [of x w] by (auto simp: n split: option.splits)
  have "x < tb_monitor_counter t" if "hm_get (tb_monitor_index (cleaned M V pid t)) x \<noteq> None" for x
    using that idx [of x] ok(5) [of x] by (cases "hm_get (tb_monitor_index (cleaned M V pid t)) x") auto
  moreover have "distinct (map fst (monitors_of (cleaned M V pid t) p))" for p
    using ok(3) [of p] by (simp add: m distinct_map_filter)
  ultimately show ?thesis
    unfolding monitors_ok_def counter using h ok(1,4) by (auto simp: idx m a)
qed (simp add: assms cleanup_dead)

section \<open>Delivery of DOWN messages\<close>

definition down_msg :: "'v rmpv \<Rightarrow> process_id \<Rightarrow> string \<Rightarrow> monitor_ref \<Rightarrow> 'v message" where
  "down_msg V pid reason r = message_new_internal pid (down_to_value V (down_message_new r pid reason))"

lemma inbox_send_down:
  assumes "mpsc_ok M" and "accepts M t w"
  shows "inbox M (send_down M V r w' pid s t) w = inbox M t w @ (if w' = w then [down_msg V pid s r] else [])"
  using inbox_send [OF assms] by (simp add: send_down_def down_msg_def)

lemma accepts_send_down [simp]: "mpsc_ok M \<Longrightarrow> accepts M (send_down M V r w' pid s t) w = accepts M t w"
  by (simp add: send_down_def)

lemma inbox_updates [simp]:
  "inbox M (t\<lparr>tb_monitor_index := i\<rparr>) w = inbox M t w" "accepts M (t\<lparr>tb_monitor_index := i\<rparr>) w = accepts M t w"
  "inbox M (t\<lparr>tb_monitors_by_target := mt\<rparr>) w = inbox M t w" "accepts M (t\<lparr>tb_monitors_by_target := mt\<rparr>) w = accepts M t w"
  "inbox M (t\<lparr>tb_monitors_by_watcher := mw\<rparr>) w = inbox M t w" "accepts M (t\<lparr>tb_monitors_by_watcher := mw\<rparr>) w = accepts M t w"
  "inbox M (t\<lparr>tb_monitor_counter := k\<rparr>) w = inbox M t w" "accepts M (t\<lparr>tb_monitor_counter := k\<rparr>) w = accepts M t w"
  "inbox M (forget_watcher r v t) w = inbox M t w" "accepts M (forget_watcher r v t) w = accepts M t w"
  "inbox M (forget_target r p t) w = inbox M t w" "accepts M (forget_target r p t) w = accepts M t w"
  "inbox M (monitor_record r v p t) w = inbox M t w" "accepts M (monitor_record r v p t) w = accepts M t w"
  "inbox M (release_monitors p t) w = inbox M t w" "accepts M (release_monitors p t) w = accepts M t w"
  by (simp_all add: inbox_def accepts_def monitor_record_def release_monitors_other)

lemma notify_fold_inbox:
  assumes "mpsc_ok M" and "accepts M t w"
    and "\<forall>(r, w) \<in> set es. hm_get (tb_monitor_index t) r \<noteq> None" and "distinct (map fst es)"
  shows "inbox M (fold (notify_monitor M V pid) es t) w =
      inbox M t w @ map (down_msg V pid ''exit'' \<circ> fst) (filter (\<lambda>(_, w'). w' = w) es)
    \<and> accepts M (fold (notify_monitor M V pid) es t) w"
  using assms(2-)
proof (induction es arbitrary: t)
  case (Cons e es)
  obtain r v where e: "e = (r, v)" by (cases e)
  let ?u = "forget_watcher r v (t\<lparr>tb_monitor_index := hm_remove r (tb_monitor_index t)\<rparr>)"
  have step: "notify_monitor M V pid e t = send_down M V r v pid ''exit'' ?u"
    using Cons.prems(2) by (auto simp: e notify_monitor_def)
  have u: "inbox M ?u w = inbox M t w" "accepts M ?u w"
    using Cons.prems(1) by simp_all
  have acc: "accepts M (notify_monitor M V pid e t) w" using u(2) assms(1) by (simp add: step)
  have ne: "r \<noteq> r'" if "(r', w') \<in> set es" for r' w' using Cons.prems(3) that by (force simp: e)
  have idx: "\<forall>(r, w) \<in> set es. hm_get (tb_monitor_index (notify_monitor M V pid e t)) r \<noteq> None"
    using Cons.prems(2) ne by (force simp: step)
  have d: "distinct (map fst es)" using Cons.prems(3) by simp
  have "inbox M (notify_monitor M V pid e t) w = inbox M t w @ (if v = w then [down_msg V pid ''exit'' r] else [])"
    using inbox_send_down [OF assms(1) u(2), of V r v pid] by (simp add: step u(1))
  with Cons.IH [OF acc idx d] show ?case by (simp add: e)
qed simp

lemma monitors_linkedD:
  "monitors_linked t \<Longrightarrow> (r, w) \<in> set (monitors_of t p) \<Longrightarrow> hm_get (tb_monitor_index t) r = Some (w, p)"
  by (simp add: monitors_linked_def)

lemma notify_monitors_inbox:
  assumes "mpsc_ok M" and "accepts M t w" and "monitors_linked t"
  shows "inbox M (notify_monitors M V pid t) w =
    inbox M t w @ map (down_msg V pid ''exit'' \<circ> fst) (filter (\<lambda>(_, w'). w' = w) (monitors_of t pid))"
    and "accepts M (notify_monitors M V pid t) w"
proof -
  let ?t = "t\<lparr>tb_monitors_by_target := hm_remove pid (tb_monitors_by_target t)\<rparr>"
  have n: "notify_monitors M V pid t = (if hm_get (tb_monitors_by_target t) pid = None then t
      else fold (notify_monitor M V pid) (monitors_of t pid) ?t)"
    by (auto simp: notify_monitors_def monitors_of_def)
  have i: "inbox M ?t w = inbox M t w" "accepts M ?t w"
    using assms(2) by simp_all
  have e: "\<forall>(r, w) \<in> set (monitors_of t pid). hm_get (tb_monitor_index ?t) r \<noteq> None"
    using monitors_linkedD [OF assms(3)] by auto
  have d: "distinct (map fst (monitors_of t pid))" using assms(3) by (simp add: monitors_linked_def)
  note f = notify_fold_inbox [OF assms(1) i(2) e d, of V pid]
  have none: "hm_get (tb_monitors_by_target t) pid = None \<Longrightarrow> monitors_of t pid = []" by (simp add: monitors_of_def)
  show "inbox M (notify_monitors M V pid t) w =
    inbox M t w @ map (down_msg V pid ''exit'' \<circ> fst) (filter (\<lambda>(_, w'). w' = w) (monitors_of t pid))"
    using f i(1) none by (cases "hm_get (tb_monitors_by_target t) pid") (simp_all add: n)
  show "accepts M (notify_monitors M V pid t) w" using f assms(2) by (simp add: n)
qed

lemma cleanup_inbox:
  assumes "mpsc_ok M" and "monitors_linked t" and "alive t pid" and "accepts M t w" and "w \<noteq> pid"
  shows "inbox M (cleaned M V pid t) w =
    inbox M t w @ map (down_msg V pid ''exit'' \<circ> fst) (filter (\<lambda>(_, w'). w' = w) (monitors_of t pid))"
    and "accepts M (cleaned M V pid t) w"
proof -
  let ?t2 = "release_names pid (t\<lparr>tb_processes := hm_remove pid (tb_processes t)\<rparr>)"
  have c: "cleaned M V pid t = release_monitors pid (notify_monitors M V pid ?t2)"
    using assms(3) by (auto simp: cleanup_process_def alive_def hm_contains_def Let_def)
  have v: "inbox M ?t2 w = inbox M t w" "accepts M ?t2 w" "monitors_of ?t2 p = monitors_of t p"
      "held_by ?t2 q = held_by t q" "tb_monitor_index ?t2 = tb_monitor_index t" for p q
    using assms(4,5) by (simp_all add: inbox_def accepts_def monitors_of_def held_by_def)
  have l: "monitors_linked ?t2" using assms(2) by (simp add: monitors_linked_def v)
  note n = notify_monitors_inbox [OF assms(1) v(2) l, of V pid, unfolded v]
  show "inbox M (cleaned M V pid t) w =
    inbox M t w @ map (down_msg V pid ''exit'' \<circ> fst) (filter (\<lambda>(_, w'). w' = w) (monitors_of t pid))"
    unfolding c using n(1) by simp
  show "accepts M (cleaned M V pid t) w"
    unfolding c using n(2) by simp
qed

section \<open>Reachable tables\<close>

inductive table_reach :: "('v message, 'c) mpsc \<Rightarrow> 'v rmpv \<Rightarrow> ('c, 'h) process_table \<Rightarrow> bool"
  for M :: "('v message, 'c) mpsc" and V :: "'v rmpv" where
  reach_new: "table_reach M V (table_new node)"
| reach_alloc: "table_reach M V t \<Longrightarrow> table_reach M V (snd (allocate_pid t))"
| reach_insert: "table_reach M V t \<Longrightarrow> table_reach M V (table_insert pid h t)"
| reach_send: "table_reach M V t \<Longrightarrow> table_reach M V (snd (table_send M pid msg t))"
| reach_register: "table_reach M V t \<Longrightarrow> table_reach M V (snd (register_inner name pid force t))"
| reach_unregister: "table_reach M V t \<Longrightarrow> table_reach M V (snd (table_unregister name t))"
| reach_monitor: "table_reach M V t \<Longrightarrow> tb_monitor_counter t \<noteq> u64_max \<Longrightarrow>
    table_reach M V (snd (table_monitor M V watcher target t))"
| reach_demonitor: "table_reach M V t \<Longrightarrow> table_reach M V (table_demonitor mref t)"
| reach_hook: "table_reach M V t \<Longrightarrow> table_reach M V (add_exit_hook hook t)"
| reach_cleanup: "table_reach M V t \<Longrightarrow> table_reach M V (cleaned M V pid t)"

lemma names_ok_frame:
  assumes "names_ok t" and "tb_names t' = tb_names t" and "tb_names_by_pid t' = tb_names_by_pid t"
    and "\<And>p. alive t p \<Longrightarrow> alive t' p"
  shows "names_ok t'"
  using assms by (auto simp: names_ok_def whereis_def names_of_def)

lemma monitors_ok_frame:
  assumes "monitors_ok t" and "tb_monitor_index t' = tb_monitor_index t"
    and "tb_monitors_by_target t' = tb_monitors_by_target t" and "tb_monitors_by_watcher t' = tb_monitors_by_watcher t"
    and "tb_monitor_counter t' = tb_monitor_counter t" and "\<And>p. alive t p \<Longrightarrow> alive t' p"
  shows "monitors_ok t'"
proof -
  have "monitors_of t' = monitors_of t" "held_by t' = held_by t"
    using assms(3,4) by (simp_all add: monitors_of_def held_by_def fun_eq_iff)
  with assms(1,2,5,6) show ?thesis unfolding monitors_ok_def by simp
qed

lemma table_monitor_names: "names_ok t \<Longrightarrow> names_ok (snd (table_monitor M V w p t))"
  by (rule names_ok_frame [of t]) (simp_all add: table_monitor_seq monitor_record_def)

lemma register_frame:
  "tb_monitor_index (snd (register_inner name pid force t)) = tb_monitor_index t"
  "tb_monitors_by_target (snd (register_inner name pid force t)) = tb_monitors_by_target t"
  "tb_monitors_by_watcher (snd (register_inner name pid force t)) = tb_monitors_by_watcher t"
  "tb_monitor_counter (snd (register_inner name pid force t)) = tb_monitor_counter t"
  "tb_processes (snd (register_inner name pid force t)) = tb_processes t"
  by (auto simp: register_inner_def register_claim_def register_index_def register_recheck_def drop_name_def
      Let_def split: option.splits)

lemma table_reach_ok: "table_reach M V t \<Longrightarrow> names_ok t \<and> monitors_ok t"
proof (induction rule: table_reach.induct)
  case (reach_new node)
  show ?case
    by (simp add: names_ok_def monitors_ok_def table_new_def whereis_def names_of_def monitors_of_def held_by_def)
next
  case (reach_register t name pid force)
  then show ?case
    by (auto intro: names_ok_register monitors_ok_frame simp: register_frame alive_def)
next
  case (reach_unregister t name)
  have "monitors_ok (snd (table_unregister name t))"
    by (rule monitors_ok_frame [of t])
       (use reach_unregister.IH in \<open>simp_all add: table_unregister_def drop_name_def alive_def split: option.splits\<close>)
  with reach_unregister.IH show ?case by (simp add: names_ok_unregister)
next
  case (reach_demonitor t mref)
  have "names_ok (table_demonitor mref t)"
    by (rule names_ok_frame [of t])
       (use reach_demonitor.IH in \<open>simp_all add: table_demonitor_def forget_target_def forget_watcher_def split: option.splits\<close>)
  with reach_demonitor.IH show ?case by (simp add: monitors_ok_demonitor)
next
  case (reach_cleanup t pid)
  then show ?case by (auto intro: names_ok_cleanup monitors_ok_cleanup)
next
  case (reach_monitor t watcher target)
  then show ?case by (auto intro: table_monitor_names monitors_ok_monitor)
next
  case (reach_send t pid msg)
  then show ?case by (auto elim!: names_ok_frame monitors_ok_frame)
qed (auto elim!: names_ok_frame monitors_ok_frame
    simp: allocate_pid_def table_insert_def add_exit_hook_def alive_def hm_contains_def)

section \<open>Properties\<close>



lemma table_send_accepted: "mpsc_ok M \<Longrightarrow> accepts M t pid \<Longrightarrow> fst (table_send M pid msg t) = Inr ()"
  by (auto simp: table_send_outcome accepts_def mb_open_def mb_full_def)

lemma accepts_alive: "accepts M t pid \<Longrightarrow> alive t pid"
  by (auto simp: accepts_def alive_def hm_contains_def)

lemma alive_send: "alive (snd (table_send M pid msg t)) q = alive t q"
  by (auto simp: table_send_def alive_def hm_contains_def case_prod_beta Let_def split: option.splits)

lemma cleanup_down_decoded:
  assumes "mpsc_ok M" and "rmpv_ok V" and "table_reach M V t" and "alive t pid" and "accepts M t w" and "w \<noteq> pid"
  shows "\<exists>msgs. inbox M (cleaned M V pid t) w = inbox M t w @ msgs
    \<and> map (\<lambda>m. (msg_from m, down_from_value V (msg_payload m))) msgs =
        map (\<lambda>(r, _). (pid, Some (down_message_new r pid ''exit''))) (filter (\<lambda>(_, w'). w' = w) (monitors_of t pid))"
proof -
  have "monitors_linked t" using table_reach_ok [OF assms(3)] monitors_ok_linked by blast
  from cleanup_inbox(1) [OF assms(1) this assms(4-6), of V] show ?thesis
    by (auto simp: down_msg_def down_value_roundtrip [OF assms(2)] intro!: exI)
qed


definition sample_table :: "(wire_value message chan, nat) process_table" where
  "sample_table =
     snd (table_monitor list_mpsc wire (process_id_new 1 2) (process_id_new 1 1)
       (table_insert (process_id_new 1 2) (mailbox_unbounded list_mpsc)
         (table_insert (process_id_new 1 1) (mailbox_unbounded list_mpsc) (table_new 1))))"

lemma sample_table_reach: "table_reach list_mpsc wire sample_table"
  unfolding sample_table_def
  by (intro reach_monitor reach_insert reach_new) (simp add: table_insert_def table_new_def u64_max_def)

lemma sample_table_live:
  "alive sample_table (process_id_new 1 1)" "accepts list_mpsc sample_table (process_id_new 1 2)"
  by (simp_all add: sample_table_def table_monitor_seq alive_def accepts_def hm_contains_def monitor_record_def
      table_insert_def table_new_def mailbox_unbounded_def list_mpsc_def)


text \<open>
  Registration races safely with the exit of the process: if the process is cleaned up
  after \<open>register\<close> has claimed the name, before or after it has updated the reverse index, the call
  reports that the process is not alive, the name does not resolve to it, and the name indexes are
  consistent.
\<close>

theorem register_race_safe:
  assumes "names_ok t" and "register_claim name pid force t = (Continue previous, t1)"
    and "t2 \<in> {register_index name pid previous (snd (snd (cleanup_process M V pid t1))),
                snd (snd (cleanup_process M V pid (register_index name pid previous t1)))}"
  shows "fst (register_recheck name pid t2) = Inl (ProcessNotAlive pid)
    \<and> whereis name (snd (register_recheck name pid t2)) \<noteq> Some pid
    \<and> names_ok (snd (register_recheck name pid t2))"
proof -
  note c = register_claim_view [OF assms(2)]
  note ok = names_okD [OF assms(1)]
  have a1: "alive t1 pid" and ai: "alive (register_index name pid previous t1) pid"
    using c(3,6) by (simp_all add: register_index_view)
  have v: "n \<noteq> name \<Longrightarrow> whereis n t2 = (if whereis n t = Some pid then None else whereis n t)"
    "whereis name t2 = Some pid \<or> whereis name t2 = None"
    "alive t2 q \<longleftrightarrow> q \<noteq> pid \<and> alive t q"
    "set (names_of t2 q) - {name} = (if q = pid then {} else set (names_of t q) - {name})"
    "q \<noteq> pid \<Longrightarrow> name \<notin> set (names_of t2 q)" for n q
    using assms(3) a1 ai c ok
    by (auto simp: cleanup_names_view register_index_view split: if_splits)
  have mem: "n \<in> set (names_of t2 q) \<longleftrightarrow> q \<noteq> pid \<and> whereis n t = Some q" if "n \<noteq> name" for n q
    using v(4) [of q] that ok(1) [of n q] by (auto split: if_splits)
  have "names_ok (snd (register_recheck name pid t2))"
  proof (rule names_okI)
    fix n q
    have dead: "\<not> alive t2 pid" by (simp add: v(3))
    have w: "whereis n (snd (register_recheck name pid t2)) =
        (if n = name then None else if whereis n t = Some pid then None else whereis n t)"
      using v(1) [of n] v(2) dead by (auto simp: register_recheck_view)
    show "n \<in> set (names_of (snd (register_recheck name pid t2)) q) \<longleftrightarrow>
        whereis n (snd (register_recheck name pid t2)) = Some q"
      unfolding w register_recheck_view(2) using dead v(5) [of q] mem [of n q] by (cases "n = name") auto
    show "whereis n (snd (register_recheck name pid t2)) = Some q \<Longrightarrow> alive (snd (register_recheck name pid t2)) q"
      unfolding w register_recheck_view(3) v(3) using ok(2) [of n q] by (auto split: if_splits)
  qed
  moreover have dead: "\<not> alive t2 pid" by (simp add: v(3))
  moreover from dead have "fst (register_recheck name pid t2) = Inl (ProcessNotAlive pid)"
    by (simp add: register_recheck_def alive_def Let_def)
  ultimately show ?thesis by (simp add: register_recheck_view)
qed

theorem register_race_safe_witness:
  "names_ok (snd (register_recheck ''db'' (process_id_new 1 1) (register_index ''db'' (process_id_new 1 1) None
     (snd (snd (cleanup_process list_mpsc wire (process_id_new 1 1)
       (sample_table\<lparr>tb_names := hm_insert ''db'' (process_id_new 1 1) (tb_names sample_table)\<rparr>)))))))"
proof -
  have names: "names_ok sample_table" using table_reach_ok [OF sample_table_reach] by blast
  have "register_claim ''db'' (process_id_new 1 1) False sample_table =
      (Continue None, sample_table\<lparr>tb_names := hm_insert ''db'' (process_id_new 1 1) (tb_names sample_table)\<rparr>)"
    using sample_table_live(1)
    by (simp add: register_claim_def alive_def) (simp add: sample_table_def table_monitor_seq monitor_record_def
        table_insert_def table_new_def alive_def hm_contains_def)
  from register_race_safe [OF names this insertI1] show ?thesis by blast
qed

end
