(* ===== verification/Frame.thy ===== *)
theory Frame
  imports Prelude
begin

text \<open>
  The wire protocol of the cluster: message types and the 18-byte fixed header in front of two
  MessagePack sections (\<^verbatim>\<open>crates/rebar-cluster/src/protocol/frame.rs\<close>). The MessagePack library is
  outside the repository, so its writer and reader are the arguments \<open>wv\<close> (\<open>None\<close> for an
  encoding error) and \<open>rv\<close> (\<open>Inl\<close> with the error's text) of the codec.
\<close>

section \<open>Data\<close>

datatype frame_error =
    InvalidMsgType u8
  | TooShort (expected: usize) (actual: usize)
  | TooLarge (declared: u64) (max_size: u64)
  | MsgpackDecode string
  | MsgpackEncode string

definition MAX_FRAME_SIZE :: usize where
  "MAX_FRAME_SIZE = 64 * 1024 * 1024"

definition MAX_FRAME_SIZE_U64 :: u64 where
  "MAX_FRAME_SIZE_U64 = 64 * 1024 * 1024"

datatype msg_type =
    MsgSend | MsgMonitor | MsgDemonitor | MsgLink | MsgUnlink | MsgExit | MsgProcessDown
  | MsgNameLookup | MsgNameRegister | MsgNameUnregister | MsgHeartbeat | MsgHeartbeatAck
  | MsgNodeInfo | MsgSwim

fun msg_type_to_u8 :: "msg_type \<Rightarrow> u8" where
  "msg_type_to_u8 MsgSend = 0x01"
| "msg_type_to_u8 MsgMonitor = 0x02"
| "msg_type_to_u8 MsgDemonitor = 0x03"
| "msg_type_to_u8 MsgLink = 0x04"
| "msg_type_to_u8 MsgUnlink = 0x05"
| "msg_type_to_u8 MsgExit = 0x06"
| "msg_type_to_u8 MsgProcessDown = 0x07"
| "msg_type_to_u8 MsgNameLookup = 0x08"
| "msg_type_to_u8 MsgNameRegister = 0x09"
| "msg_type_to_u8 MsgNameUnregister = 0x0A"
| "msg_type_to_u8 MsgHeartbeat = 0x0B"
| "msg_type_to_u8 MsgHeartbeatAck = 0x0C"
| "msg_type_to_u8 MsgNodeInfo = 0x0D"
| "msg_type_to_u8 MsgSwim = 0x0E"

definition msg_type_from_u8 :: "u8 \<Rightarrow> frame_error + msg_type" where
  "msg_type_from_u8 v =
     (if v = 0x01 then Inr MsgSend
      else if v = 0x02 then Inr MsgMonitor
      else if v = 0x03 then Inr MsgDemonitor
      else if v = 0x04 then Inr MsgLink
      else if v = 0x05 then Inr MsgUnlink
      else if v = 0x06 then Inr MsgExit
      else if v = 0x07 then Inr MsgProcessDown
      else if v = 0x08 then Inr MsgNameLookup
      else if v = 0x09 then Inr MsgNameRegister
      else if v = 0x0A then Inr MsgNameUnregister
      else if v = 0x0B then Inr MsgHeartbeat
      else if v = 0x0C then Inr MsgHeartbeatAck
      else if v = 0x0D then Inr MsgNodeInfo
      else if v = 0x0E then Inr MsgSwim
      else Inl (InvalidMsgType v))"

record 'v frame =
  version :: u8
  msg_type :: msg_type
  request_id :: u64
  header :: 'v
  payload :: 'v

definition FIXED_HEADER_SIZE :: usize where
  "FIXED_HEADER_SIZE = 18"

section \<open>Encoding and decoding\<close>

text \<open>\<open>Frame::encode\<close>: \<open>None\<close> is a panic (an \<open>expect\<close> that fails).\<close>

definition frame_encode :: "('v \<Rightarrow> u8 list option) \<Rightarrow> 'v frame \<Rightarrow> u8 list option" where
  "frame_encode wv f =
     (case wv (header f) of None \<Rightarrow> None
      | Some header_buf \<Rightarrow>
     (case wv (payload f) of None \<Rightarrow> None
      | Some payload_buf \<Rightarrow>
          if length header_buf \<ge> 2 ^ 32 then None
          else if length payload_buf \<ge> 2 ^ 32 then None
          else Some (version f # msg_type_to_u8 (msg_type f)
                 # to_be_bytes 8 (request_id f)
                 @ to_be_bytes 4 (word_of_nat (length header_buf) :: u32)
                 @ to_be_bytes 4 (word_of_nat (length payload_buf) :: u32)
                 @ header_buf @ payload_buf)))"

text \<open>
  \<open>Frame::decode\<close>. \<open>umax\<close> is the target's \<open>usize::MAX\<close>, against which the \<open>usize::try_from\<close>
  conversions are checked.
\<close>

definition frame_decode ::
  "nat \<Rightarrow> (u8 list \<Rightarrow> string + 'v) \<Rightarrow> u8 list \<Rightarrow> frame_error + 'v frame" where
  "frame_decode umax rv bytes =
     (if length bytes < FIXED_HEADER_SIZE
      then Inl (TooShort FIXED_HEADER_SIZE (length bytes))
      else
        let ver = bytes ! 0 in
        (case msg_type_from_u8 (bytes ! 1) of Inl e \<Rightarrow> Inl e
         | Inr mt \<Rightarrow>
           let rid = from_be_bytes (take 8 (drop 2 bytes));
               header_len_u32 = (from_be_bytes (take 4 (drop 10 bytes)) :: u32);
               payload_len_u32 = (from_be_bytes (take 4 (drop 14 bytes)) :: u32);
               max = MAX_FRAME_SIZE_U64;
               decl = (word_of_nat FIXED_HEADER_SIZE :: u64) + ucast header_len_u32 + ucast payload_len_u32
           in if decl > max then Inl (TooLarge decl max)
              else if unat decl > umax then Inl (TooLarge decl max)
              else if unat header_len_u32 > umax \<or> unat payload_len_u32 > umax
              then Inl (TooLarge decl max)
              else
                let expected_total = unat decl;
                    header_len = unat header_len_u32;
                    payload_len = unat payload_len_u32
                in if length bytes < expected_total
                   then Inl (TooShort expected_total (length bytes))
                   else
                     (case rv (take header_len (drop FIXED_HEADER_SIZE bytes)) of
                        Inl e \<Rightarrow> Inl (MsgpackDecode e)
                      | Inr h \<Rightarrow>
                     (case rv (take payload_len (drop (FIXED_HEADER_SIZE + header_len) bytes)) of
                        Inl e \<Rightarrow> Inl (MsgpackDecode e)
                      | Inr p \<Rightarrow>
                        Inr \<lparr>version = ver, msg_type = mt, request_id = rid,
                             header = h, payload = p\<rparr>))))"

section \<open>Lemmas\<close>

lemma msg_type_roundtrip [simp]: "msg_type_from_u8 (msg_type_to_u8 t) = Inr t"
  by (cases t) (simp_all add: msg_type_from_u8_def)

lemma msg_type_from_u8_ok:
  "msg_type_from_u8 v = Inr t \<longleftrightarrow> v = msg_type_to_u8 t"
  by (cases t) (auto simp: msg_type_from_u8_def split: if_splits)

lemma msg_type_from_u8_error:
  "msg_type_from_u8 v = Inl e \<Longrightarrow> e = InvalidMsgType v"
  by (auto simp: msg_type_from_u8_def split: if_splits)

text \<open>The declared total of the fixed header and the two sections never wraps in \<open>u64\<close>.\<close>

definition declared_total :: "u8 list \<Rightarrow> nat" where
  "declared_total bytes = FIXED_HEADER_SIZE + be_value (take 4 (drop 10 bytes))
     + be_value (take 4 (drop 14 bytes))"

lemma be_value_bound: "be_value bs < 256 ^ length bs"
proof (induction bs rule: rev_induct)
  case Nil
  show ?case by (simp add: be_value_def)
next
  case (snoc b bs)
  have "unat b < 256" using unsigned_less [of b] by simp
  with snoc show ?case by (simp add: be_value_snoc)
qed

lemma be_value_u32: "length bs = 4 \<Longrightarrow> unat (from_be_bytes bs :: u32) = be_value bs"
  using be_value_bound [of bs] by (simp add: from_be_bytes_def unat_of_nat take_bit_eq_mod)

lemma declared_no_wrap:
  fixes a b :: u32
  shows "unat ((word_of_nat FIXED_HEADER_SIZE :: u64) + ucast a + ucast b)
    = FIXED_HEADER_SIZE + unat a + unat b"
proof -
  have "unat a < 2 ^ 32" "unat b < 2 ^ 32"
    using unsigned_less [of a] unsigned_less [of b] by simp_all
  then show ?thesis
    by (simp add: FIXED_HEADER_SIZE_def unat_word_ariths unsigned_ucast_eq take_bit_eq_mod)
qed

text \<open>What the codec does, over natural-number lengths and without the conversions.\<close>

definition decode_sections :: "(u8 list \<Rightarrow> string + 'v) \<Rightarrow> u8 list \<Rightarrow> string + 'v \<times> 'v" where
  "decode_sections rv bytes =
     (let hl = be_value (take 4 (drop 10 bytes)); pl = be_value (take 4 (drop 14 bytes)) in
      case rv (take hl (drop 18 bytes)) of Inl e \<Rightarrow> Inl e
      | Inr h \<Rightarrow> (case rv (take pl (drop (18 + hl) bytes)) of Inl e \<Rightarrow> Inl e | Inr p \<Rightarrow> Inr (h, p)))"

definition decode_spec :: "(u8 list \<Rightarrow> string + 'v) \<Rightarrow> u8 list \<Rightarrow> frame_error + 'v frame" where
  "decode_spec rv bytes =
     (if length bytes < 18 then Inl (TooShort 18 (length bytes))
      else case msg_type_from_u8 (bytes ! 1) of Inl e \<Rightarrow> Inl e
      | Inr mt \<Rightarrow>
        if declared_total bytes > 64 * 1024 * 1024
        then Inl (TooLarge (word_of_nat (declared_total bytes)) MAX_FRAME_SIZE_U64)
        else if length bytes < declared_total bytes
        then Inl (TooShort (declared_total bytes) (length bytes))
        else case decode_sections rv bytes of Inl e \<Rightarrow> Inl (MsgpackDecode e)
        | Inr (h, p) \<Rightarrow> Inr \<lparr>version = bytes ! 0, msg_type = mt,
            request_id = from_be_bytes (take 8 (drop 2 bytes)), header = h, payload = p\<rparr>)"

lemma frame_decode_short: "length bytes < 18 \<Longrightarrow> frame_decode umax rv bytes = decode_spec rv bytes"
  by (simp add: frame_decode_def decode_spec_def FIXED_HEADER_SIZE_def)

lemma frame_decode_long:
  assumes "2 ^ 32 - 1 \<le> umax" and len: "18 \<le> length bytes"
  shows "frame_decode umax rv bytes = decode_spec rv bytes"
proof (cases "msg_type_from_u8 (bytes ! 1)")
  case (Inl e)
  with len show ?thesis
    by (simp add: frame_decode_def decode_spec_def FIXED_HEADER_SIZE_def)
next
  case (Inr mt)
  let ?hl = "from_be_bytes (take 4 (drop 10 bytes)) :: u32"
  let ?pl = "from_be_bytes (take 4 (drop 14 bytes)) :: u32"
  let ?d = "18 + ucast ?hl + ucast ?pl :: u64"
  have hl: "unat ?hl = be_value (take 4 (drop 10 bytes))"
    and pl: "unat ?pl = be_value (take 4 (drop 14 bytes))"
    using len by (simp_all add: be_value_u32)
  have d: "unat ?d = declared_total bytes"
    using declared_no_wrap [of ?hl ?pl] by (simp add: declared_total_def FIXED_HEADER_SIZE_def hl pl)
  then have dw: "word_of_nat (declared_total bytes) = ?d"
    by (simp flip: d)
  have gt: "?d > MAX_FRAME_SIZE_U64 \<longleftrightarrow> declared_total bytes > 64 * 1024 * 1024"
    by (simp add: word_less_nat_alt d MAX_FRAME_SIZE_U64_def)
  have le: "unat ?hl \<le> declared_total bytes" "unat ?pl \<le> declared_total bytes"
    by (simp_all add: declared_total_def hl pl)
  show ?thesis
  proof (cases "declared_total bytes > 64 * 1024 * 1024")
    case True
    with len Inr show ?thesis
      by (simp add: frame_decode_def decode_spec_def Let_def gt dw FIXED_HEADER_SIZE_def)
  next
    case False
    with assms(1) have u: "declared_total bytes \<le> umax" by simp
    with le have "\<not> unat ?hl > umax" "\<not> unat ?pl > umax" by linarith+
    with False u len Inr show ?thesis
      by (simp add: frame_decode_def decode_spec_def decode_sections_def Let_def gt
          FIXED_HEADER_SIZE_def d hl pl split: sum.splits)
  qed
qed

lemma frame_encode_shape:
  assumes "frame_encode wv f = Some bytes"
  obtains hb pb where "wv (header f) = Some hb" and "wv (payload f) = Some pb"
    and "length hb < 2 ^ 32" and "length pb < 2 ^ 32"
    and "bytes = version f # msg_type_to_u8 (msg_type f) # to_be_bytes 8 (request_id f)
           @ to_be_bytes 4 (word_of_nat (length hb) :: u32)
           @ to_be_bytes 4 (word_of_nat (length pb) :: u32) @ hb @ pb"
  using assms by (auto simp: frame_encode_def split: option.splits if_splits)

lemma encode_fields:
  assumes "bytes = v # mt # to_be_bytes 8 (r :: u64)
     @ to_be_bytes 4 (word_of_nat (length hb) :: u32)
     @ to_be_bytes 4 (word_of_nat (length pb) :: u32) @ hb @ pb"
    and "length hb < 2 ^ 32" and "length pb < 2 ^ 32"
  shows "declared_total (bytes @ rest) = 18 + length hb + length pb"
    and "take 8 (drop 2 (bytes @ rest)) = to_be_bytes 8 r"
    and "be_value (take 4 (drop 10 (bytes @ rest))) = length hb"
    and "be_value (take 4 (drop 14 (bytes @ rest))) = length pb"
    and "take (length hb) (drop 18 (bytes @ rest)) = hb"
    and "take (length pb) (drop (18 + length hb) (bytes @ rest)) = pb"
proof -
  have u32: "be_value (to_be_bytes 4 (word_of_nat n :: u32)) = n" if "n < 2 ^ 32" for n
    using that unfolding to_be_bytes_def be_value_digits
    by (simp add: unat_of_nat take_bit_eq_mod)
  show h: "be_value (take 4 (drop 10 (bytes @ rest))) = length hb"
    and p: "be_value (take 4 (drop 14 (bytes @ rest))) = length pb"
    and "take 8 (drop 2 (bytes @ rest)) = to_be_bytes 8 r"
    and "take (length hb) (drop 18 (bytes @ rest)) = hb"
    and "take (length pb) (drop (18 + length hb) (bytes @ rest)) = pb"
    by (simp_all add: assms(1) u32 [OF assms(2)] u32 [OF assms(3)] drop_Cons')
  then show "declared_total (bytes @ rest) = 18 + length hb + length pb"
    by (simp add: declared_total_def FIXED_HEADER_SIZE_def)
qed

lemma encoded_decodes:
  assumes law: "\<And>v bs. wv v = Some bs \<Longrightarrow> rv bs = Inr v"
    and enc: "frame_encode wv f = Some bytes"
    and size: "length bytes \<le> MAX_FRAME_SIZE"
  shows "decode_spec rv (bytes @ rest) = Inr f" and "18 \<le> length bytes"
proof -
  from enc obtain hb pb where h: "wv (header f) = Some hb" and p: "wv (payload f) = Some pb"
    and lens: "length hb < 2 ^ 32" "length pb < 2 ^ 32"
    and bytes: "bytes = version f # msg_type_to_u8 (msg_type f) # to_be_bytes 8 (request_id f)
           @ to_be_bytes 4 (word_of_nat (length hb) :: u32)
           @ to_be_bytes 4 (word_of_nat (length pb) :: u32) @ hb @ pb"
    by (rule frame_encode_shape)
  note fields = encode_fields [OF bytes lens, of rest]
  have len: "length bytes = 18 + length hb + length pb" by (simp add: bytes)
  have heads: "(bytes @ rest) ! 0 = version f" "(bytes @ rest) ! 1 = msg_type_to_u8 (msg_type f)"
    by (simp_all add: bytes)
  show "decode_spec rv (bytes @ rest) = Inr f"
    using fields heads size len law [OF h] law [OF p]
    by (simp add: decode_spec_def decode_sections_def MAX_FRAME_SIZE_def)
  show "18 \<le> length bytes" using len by simp
qed

section \<open>Properties\<close>

text \<open>
  Decoding an encoded frame gives the frame back, whatever bytes follow it in the buffer,
  provided the MessagePack reader inverts the writer, the frame fits in \<open>MAX_FRAME_SIZE\<close> and
  \<open>usize\<close> has at least 32 bits.
\<close>

theorem frame_roundtrip:
  assumes law: "\<And>v bs. wv v = Some bs \<Longrightarrow> rv bs = Inr v"
    and enc: "frame_encode wv f = Some bytes"
    and size: "length bytes \<le> MAX_FRAME_SIZE"
    and umax: "2 ^ 32 - 1 \<le> umax"
  shows "frame_decode umax rv (bytes @ rest) = Inr f"
  using encoded_decodes(1) [where wv = wv and rv = rv and rest = rest, OF law enc size] encoded_decodes(2) [where wv = wv and rv = rv, OF law enc size] by (simp add: frame_decode_long [OF umax])

theorem frame_roundtrip_witness:
  "frame_decode (2 ^ 64 - 1) (\<lambda>bs. if bs = [192] then Inr () else Inl ''bad'')
     ([1, 14, 0, 0, 0, 0, 0, 0, 0, 7, 0, 0, 0, 1, 0, 0, 0, 1, 192, 192] @ [9, 9])
   = Inr \<lparr>version = 1, msg_type = MsgSwim, request_id = 7, header = (), payload = ()\<rparr>"
  by (rule frame_roundtrip [where wv = "\<lambda>_. Some [192]"])
     (simp_all add: frame_encode_def to_be_bytes_def MAX_FRAME_SIZE_def)

text \<open>
  C10: the decoder agrees with its specification over unbounded lengths: the errors come in the
  order too short for the fixed header, unknown type byte, declared total above 64 MiB, buffer
  shorter than the declared total, undecodable section; no length arithmetic wraps, and no section
  is read outside the buffer.
\<close>

theorem frame_decode_correct:
  assumes "2 ^ 32 - 1 \<le> umax"
  shows "frame_decode umax rv bytes = decode_spec rv bytes"
  using frame_decode_long [OF assms] frame_decode_short by (metis not_le_imp_less)

theorem frame_decode_correct_witness:
  "frame_decode (2 ^ 32 - 1) (\<lambda>_. Inr ()) (1 # 1 # replicate 8 0 @ replicate 8 255)
   = decode_spec (\<lambda>_. Inr ()) (1 # 1 # replicate 8 0 @ replicate 8 255)"
  by (rule frame_decode_correct) simp

text \<open>
  \<open>Frame::encode\<close> does not check \<open>MAX_FRAME_SIZE\<close>: whenever it produces more than 64 MiB,
  every receiver rejects the frame as too large.
\<close>

theorem frame_oversize_rejected:
  assumes enc: "frame_encode wv f = Some bytes"
    and size: "length bytes > MAX_FRAME_SIZE"
    and umax: "2 ^ 32 - 1 \<le> umax"
  shows "frame_decode umax rv bytes = Inl (TooLarge (word_of_nat (length bytes)) MAX_FRAME_SIZE_U64)"
proof -
  from enc obtain hb pb where lens: "length hb < 2 ^ 32" "length pb < 2 ^ 32"
    and bytes: "bytes = version f # msg_type_to_u8 (msg_type f) # to_be_bytes 8 (request_id f)
           @ to_be_bytes 4 (word_of_nat (length hb) :: u32)
           @ to_be_bytes 4 (word_of_nat (length pb) :: u32) @ hb @ pb"
    by (rule frame_encode_shape)
  note fields = encode_fields [OF bytes lens, of "[]", simplified]
  have len: "length bytes = 18 + length hb + length pb" by (simp add: bytes)
  have "bytes ! 1 = msg_type_to_u8 (msg_type f)" by (simp add: bytes)
  with fields len size show ?thesis
    by (simp add: frame_decode_long [OF umax] decode_spec_def MAX_FRAME_SIZE_def)
qed

theorem frame_oversize_rejected_witness:
  "frame_decode (2 ^ 64 - 1) (\<lambda>_. Inr ())
     (the (frame_encode (\<lambda>_. Some (replicate (2 ^ 26) 0))
        \<lparr>version = 1, msg_type = MsgSend, request_id = 0, header = (), payload = ()\<rparr>))
   = Inl (TooLarge (18 + 2 ^ 27) MAX_FRAME_SIZE_U64)"
proof -
  let ?f = "\<lparr>version = 1, msg_type = MsgSend, request_id = 0, header = (), payload = ()\<rparr>"
  obtain bytes where enc: "frame_encode (\<lambda>_. Some (replicate (2 ^ 26) 0)) ?f = Some bytes"
    and len: "length bytes = 18 + 2 ^ 27"
    by (simp add: frame_encode_def)
  have "frame_decode (2 ^ 64 - 1) (\<lambda>_. Inr ()) bytes
      = Inl (TooLarge (word_of_nat (length bytes)) MAX_FRAME_SIZE_U64)"
    by (rule frame_oversize_rejected [OF enc]) (simp_all add: len MAX_FRAME_SIZE_def)
  with enc show ?thesis by (simp add: len)
qed

end
