(* ===== verification/Router.thy ===== *)
theory Router
  imports Table Frame
begin

text \<open>
  Routing of messages: the local router (\<^verbatim>\<open>crates/rebar-core/src/router.rs\<close>), the distributed router
  and the delivery of inbound frames (\<^verbatim>\<open>crates/rebar-cluster/src/router.rs\<close>). A result \<open>None\<close> is a panic:
  \<open>Message::new\<close> reads the system clock (\<open>now\<close>, milliseconds since the epoch, \<open>None\<close> before it). The
  locale \<open>message_router\<close> is the contract of the \<open>MessageRouter\<close> trait; both routers satisfy it.
\<close>

section \<open>Routers\<close>

definition local_route ::
  "('v message, 'c) mpsc \<Rightarrow> process_id \<Rightarrow> process_id \<Rightarrow> 'v \<Rightarrow> ('c, 'h) process_table
     \<Rightarrow> ((send_error + unit) \<times> ('c, 'h) process_table) option" where
  "local_route M from to p t =
     (let msg = message_new_internal from p in Some (table_send M to msg t))"

datatype 'v router_command = SendCmd u64 "'v frame"

record ('c, 'h, 'r) distributed_router =
  dr_node_id :: u64
  dr_table :: "('c, 'h) process_table"
  dr_remote :: 'r

definition encode_send_frame :: "'v rmpv \<Rightarrow> process_id \<Rightarrow> process_id \<Rightarrow> 'v \<Rightarrow> 'v frame" where
  "encode_send_frame V from to p =
     \<lparr>version = 1, msg_type = MsgSend, request_id = 0,
      header = map_value V
        [(string_value V ''from_node'', u64_value V (pid_node_id from)),
         (string_value V ''from_local'', u64_value V (pid_local_id from)),
         (string_value V ''to_node'', u64_value V (pid_node_id to)),
         (string_value V ''to_local'', u64_value V (pid_local_id to))],
      payload = p\<rparr>"

definition distributed_route ::
  "('v message, 'c) mpsc \<Rightarrow> ('v router_command, 'r) mpsc \<Rightarrow> 'v rmpv \<Rightarrow> nat option
     \<Rightarrow> process_id \<Rightarrow> process_id \<Rightarrow> 'v \<Rightarrow> ('c, 'h, 'r) distributed_router
     \<Rightarrow> ((send_error + unit) \<times> ('c, 'h, 'r) distributed_router) option" where
  "distributed_route M R V now from to p d =
     (if pid_node_id to = dr_node_id d
      then
        (case message_new now from p of
           None \<Rightarrow> None
         | Some msg \<Rightarrow> let (r, t) = table_send M to msg (dr_table d) in Some (r, d\<lparr>dr_table := t\<rparr>))
      else
        let f = encode_send_frame V from to p;
            (r, c) = try_send R (SendCmd (pid_node_id to) f) (dr_remote d) in
        Some (case r of Inr _ \<Rightarrow> Inr () | Inl _ \<Rightarrow> Inl (NodeUnreachable (pid_node_id to)),
              d\<lparr>dr_remote := c\<rparr>))"

text \<open>The dispatch of \<open>RouterKind\<close>, with the route of the custom router as an argument.\<close>

datatype ('t, 'd) router_kind = LocalKind 't | CustomKind 'd

fun router_kind_route ::
  "('v message, 'c) mpsc
     \<Rightarrow> (process_id \<Rightarrow> process_id \<Rightarrow> 'v \<Rightarrow> 'd \<Rightarrow> ((send_error + unit) \<times> 'd) option)
     \<Rightarrow> process_id \<Rightarrow> process_id \<Rightarrow> 'v \<Rightarrow> (('c, 'h) process_table, 'd) router_kind
     \<Rightarrow> ((send_error + unit) \<times> (('c, 'h) process_table, 'd) router_kind) option" where
  "router_kind_route M custom from to p (LocalKind t) =
     map_option (map_prod id LocalKind) (local_route M from to p t)"
| "router_kind_route M custom from to p (CustomKind d) =
     map_option (map_prod id CustomKind) (custom from to p d)"

section \<open>Inbound frames\<close>

datatype deliver_error =
    Malformed string
  | DeliverSend send_error

record addressing =
  ad_from_node :: u64
  ad_from_local :: u64
  ad_to_node :: u64
  ad_to_local :: u64

text \<open>The loop of \<open>deliver_inbound_frame\<close> over the entries of the header.\<close>

fun read_addressing :: "'v rmpv \<Rightarrow> ('v \<times> 'v) list \<Rightarrow> addressing \<Rightarrow> deliver_error + addressing" where
  "read_addressing V [] a = Inr a"
| "read_addressing V ((key, v) # rest) a =
     (case as_str V key of
        None \<Rightarrow> read_addressing V rest a
      | Some k \<Rightarrow>
          if k \<in> {''from_node'', ''from_local'', ''to_node'', ''to_local''}
          then
            (case as_u64 V v of
               None \<Rightarrow> Inl (Malformed ''addressing field is not a u64'')
             | Some n \<Rightarrow>
                 read_addressing V rest
                   (if k = ''from_node'' then a\<lparr>ad_from_node := n\<rparr>
                    else if k = ''from_local'' then a\<lparr>ad_from_local := n\<rparr>
                    else if k = ''to_node'' then a\<lparr>ad_to_node := n\<rparr>
                    else a\<lparr>ad_to_local := n\<rparr>))
          else read_addressing V rest a)"

definition frame_addressing :: "'v rmpv \<Rightarrow> 'v frame \<Rightarrow> deliver_error + process_id \<times> process_id" where
  "frame_addressing V f =
     (case as_map V (header f) of
        None \<Rightarrow> Inl (Malformed ''header is not a map'')
      | Some h \<Rightarrow>
          (case read_addressing V h \<lparr>ad_from_node = 0, ad_from_local = 0, ad_to_node = 0, ad_to_local = 0\<rparr> of
             Inl e \<Rightarrow> Inl e
           | Inr a \<Rightarrow> Inr (process_id_new (ad_from_node a) (ad_from_local a),
                          process_id_new (ad_to_node a) (ad_to_local a))))"

definition deliver_inbound_frame ::
  "('v message, 'c) mpsc \<Rightarrow> 'v rmpv \<Rightarrow> nat option \<Rightarrow> 'v frame \<Rightarrow> ('c, 'h) process_table
     \<Rightarrow> ((deliver_error + unit) \<times> ('c, 'h) process_table) option" where
  "deliver_inbound_frame M V now f t =
     (case frame_addressing V f of
        Inl e \<Rightarrow> Some (Inl e, t)
      | Inr (from, to) \<Rightarrow>
          (case message_new now from (payload f) of
             None \<Rightarrow> None
           | Some msg \<Rightarrow>
               let (r, t') = table_send M to msg t in
               Some (case r of Inl e \<Rightarrow> Inl (DeliverSend e) | Inr _ \<Rightarrow> Inr (), t')))"

lemma frame_addressing_encode [simp]:
  "rmpv_ok V \<Longrightarrow> frame_addressing V (encode_send_frame V from to p) = Inr (from, to)"
  by (simp add: frame_addressing_def encode_send_frame_def)

section \<open>The contract of a router\<close>

text \<open>Messages routed one after the other, with the outcome of each; \<open>None\<close> when one panics.\<close>

fun route_all ::
  "(process_id \<Rightarrow> process_id \<Rightarrow> 'v \<Rightarrow> 's \<Rightarrow> ((send_error + unit) \<times> 's) option)
     \<Rightarrow> (process_id \<times> process_id \<times> 'v) list \<Rightarrow> 's \<Rightarrow> ((send_error + unit) list \<times> 's) option" where
  "route_all route [] s = Some ([], s)"
| "route_all route ((from, to, p) # ms) s =
     (case route from to p s of
        None \<Rightarrow> None
      | Some (r, s1) \<Rightarrow>
          (case route_all route ms s1 of
             None \<Rightarrow> None
           | Some (rs, s2) \<Rightarrow> Some (r # rs, s2)))"

text \<open>The messages for \<open>q\<close> among those that were accepted, in order.\<close>

definition accepted_for ::
  "process_id \<Rightarrow> (process_id \<times> process_id \<times> 'v) list \<Rightarrow> (send_error + unit) list \<Rightarrow> (process_id \<times> 'v) list" where
  "accepted_for q ms rs =
     map (\<lambda>((from, to, p), r). (from, p)) (filter (\<lambda>((from, to, p), r). to = q \<and> r = Inr ()) (zip ms rs))"

locale message_router =
  fixes route :: "process_id \<Rightarrow> process_id \<Rightarrow> 'v \<Rightarrow> 's \<Rightarrow> ((send_error + unit) \<times> 's) option"
    and handed :: "'s \<Rightarrow> process_id \<Rightarrow> (process_id \<times> 'v) list"
  assumes route_error: "route from to p s = Some (Inl e, s') \<Longrightarrow>
      e = ProcessDead to \<or> e = MailboxFull to \<or> e = NodeUnreachable (pid_node_id to)"
    and route_handed: "route from to p s = Some (r, s') \<Longrightarrow>
      handed s' q = handed s q @ (if q = to \<and> r = Inr () then [(from, p)] else [])"
begin

lemma routed_in_order:
  "route_all route ms s = Some (rs, s') \<Longrightarrow>
     length rs = length ms \<and> handed s' q = handed s q @ accepted_for q ms rs"
proof (induction ms arbitrary: s rs)
  case (Cons m ms)
  obtain src to p where m: "m = (src, to, p)" by (cases m)
  from Cons.prems obtain r s1 rs' where r: "route src to p s = Some (r, s1)"
      and rs: "route_all route ms s1 = Some (rs', s')" "rs = r # rs'"
    by (auto simp: m split: option.splits)
  from Cons.IH [OF rs(1)] route_handed [OF r, of q] show ?case
    by (simp add: rs(2) m accepted_for_def)
qed (simp add: accepted_for_def)

lemma routed_errors:
  "route_all route ms s = Some (rs, s') \<Longrightarrow> i < length ms \<Longrightarrow> rs ! i = Inl e \<Longrightarrow>
     (case ms ! i of (_, to, _) \<Rightarrow> e = ProcessDead to \<or> e = MailboxFull to \<or> e = NodeUnreachable (pid_node_id to))"
proof (induction ms arbitrary: s rs i)
  case (Cons m ms)
  obtain src to p where m: "m = (src, to, p)" by (cases m)
  from Cons.prems(1) obtain r s1 rs' where r: "route src to p s = Some (r, s1)"
      and rs: "route_all route ms s1 = Some (rs', s')" "rs = r # rs'"
    by (auto simp: m split: option.splits)
  show ?case
    using Cons.IH [OF rs(1), of "i - 1"] Cons.prems(2,3) route_error r
    by (cases i) (auto simp: rs(2) m)
qed simp

end

section \<open>The routers satisfy it\<close>

text \<open>Channels and values that behave as documented.\<close>

locale channels =
  fixes M :: "('v message, 'c) mpsc"
  assumes mpsc: "mpsc_ok M"

locale cluster_channels = channels M for M :: "('v message, 'c) mpsc" +
  fixes R :: "('v router_command, 'r) mpsc" and V :: "'v rmpv"
  assumes remote: "mpsc_ok R" and rvalues: "rmpv_ok V"

definition delivered :: "('v message, 'c) mpsc \<Rightarrow> ('c, 'h) process_table \<Rightarrow> process_id \<Rightarrow> (process_id \<times> 'v) list" where
  "delivered M t q = map (\<lambda>m. (msg_from m, msg_payload m)) (inbox M t q)"

fun command_for :: "'v rmpv \<Rightarrow> process_id \<Rightarrow> 'v router_command \<Rightarrow> (process_id \<times> 'v) list" where
  "command_for V q (SendCmd n f) =
     (case frame_addressing V f of
        Inr (from, to) \<Rightarrow> if to = q \<and> n = pid_node_id q then [(from, payload f)] else []
      | Inl _ \<Rightarrow> [])"

definition dispatched ::
  "('v message, 'c) mpsc \<Rightarrow> ('v router_command, 'r) mpsc \<Rightarrow> 'v rmpv \<Rightarrow> ('c, 'h, 'r) distributed_router
     \<Rightarrow> process_id \<Rightarrow> (process_id \<times> 'v) list" where
  "dispatched M R V d q =
     (if pid_node_id q = dr_node_id d then delivered M (dr_table d) q
      else concat (map (command_for V q) (queued R (dr_remote d))))"

lemma inbox_after_send:
  assumes "mpsc_ok M"
  shows "inbox M (snd (table_send M to msg t)) q =
    inbox M t q @ (if q = to \<and> fst (table_send M to msg t) = Inr () then [msg] else [])"
  using mailbox_send_spec(1,2) [OF assms]
  by (auto simp: inbox_def table_send_def case_prod_beta Let_def split: option.splits)

lemma table_send_error:
  "fst (table_send M to msg t) = Inl e \<Longrightarrow> e = ProcessDead to \<or> e = MailboxFull to"
  by (auto simp: table_send_def case_prod_beta Let_def split: option.splits sum.splits send_error.splits)

lemma message_new_sel:
  "message_new now from p = Some msg \<Longrightarrow> msg_from msg = from \<and> msg_payload msg = p"
  by (auto simp: message_new_def split: option.splits if_splits)

sublocale channels \<subseteq> lr: message_router "local_route M" "delivered M"
proof
  fix src to p s e s'
  show "local_route M src to p s = Some (Inl e, s') \<Longrightarrow>
      e = ProcessDead to \<or> e = MailboxFull to \<or> e = NodeUnreachable (pid_node_id to)"
    using table_send_error [of M to "message_new_internal src p" s] by (auto simp: local_route_def Let_def)
next
  fix src to p s r s' q
  show "local_route M src to p s = Some (r, s') \<Longrightarrow>
      delivered M s' q = delivered M s q @ (if q = to \<and> r = Inr () then [(src, p)] else [])"
    using inbox_after_send [OF mpsc, of to "message_new_internal src p" s q]
    by (auto simp: local_route_def Let_def delivered_def)
qed

lemma dispatched_local:
  "pid_node_id to = dr_node_id d \<Longrightarrow> inbox M t' q = inbox M (dr_table d) q @ (if q = to \<and> ok then [msg] else []) \<Longrightarrow>
     msg_from msg = src \<and> msg_payload msg = p \<Longrightarrow>
     dispatched M R V (d\<lparr>dr_table := t'\<rparr>) q = dispatched M R V d q @ (if q = to \<and> ok then [(src, p)] else [])"
  by (auto simp: dispatched_def delivered_def)

lemma dispatched_remote:
  assumes "rmpv_ok V" and "pid_node_id to \<noteq> dr_node_id d"
    and "queued R c = queued R (dr_remote d)
      @ (if ok then [SendCmd (pid_node_id to) (encode_send_frame V src to p)] else [])"
  shows "dispatched M R V (d\<lparr>dr_remote := c\<rparr>) q = dispatched M R V d q @ (if q = to \<and> ok then [(src, p)] else [])"
proof -
  have "payload (encode_send_frame V src to p) = p" by (simp add: encode_send_frame_def)
  with assms show ?thesis by (auto simp: dispatched_def)
qed

sublocale cluster_channels \<subseteq> dr: message_router "distributed_route M R V now" "dispatched M R V" for now
proof
  fix src to p s e s'
  assume "distributed_route M R V now src to p s = Some (Inl e, s')"
  then show "e = ProcessDead to \<or> e = MailboxFull to \<or> e = NodeUnreachable (pid_node_id to)"
    using table_send_error [of M to _ "dr_table s"]
    by (auto simp: distributed_route_def Let_def case_prod_beta split: if_splits option.splits sum.splits)
next
  fix src to p s r s' q
  assume a: "distributed_route M R V now src to p s = Some (r, s')"
  show "dispatched M R V s' q = dispatched M R V s q @ (if q = to \<and> r = Inr () then [(src, p)] else [])"
  proof (cases "pid_node_id to = dr_node_id s")
    case True
    with a obtain msg where m: "message_new now src p = Some msg"
        "r = fst (table_send M to msg (dr_table s))" "s' = s\<lparr>dr_table := snd (table_send M to msg (dr_table s))\<rparr>"
      by (auto simp: distributed_route_def case_prod_beta Let_def split: option.splits)
    show ?thesis unfolding m(2,3)
      by (rule dispatched_local [OF True inbox_after_send [OF mpsc] message_new_sel [OF m(1)]])
  next
    case False
    let ?cmd = "SendCmd (pid_node_id to) (encode_send_frame V src to p)"
    from False a have r: "r = Inr () \<longleftrightarrow> fst (try_send R ?cmd (dr_remote s)) = Inr ()"
        "s' = s\<lparr>dr_remote := snd (try_send R ?cmd (dr_remote s))\<rparr>"
      by (auto simp: distributed_route_def case_prod_beta Let_def split: sum.splits)
    have "queued R (snd (try_send R ?cmd (dr_remote s))) = queued R (dr_remote s) @ (if r = Inr () then [?cmd] else [])"
      unfolding mpsc_okD(5) [OF remote] r(1) by (auto split: sum.splits)
    from dispatched_remote [OF rvalues False this] show ?thesis unfolding r(2) .
  qed
qed

context cluster_channels
begin

lemmas distributed_in_order = dr.routed_in_order
lemmas distributed_errors = dr.routed_errors

end

interpretation lm: channels list_mpsc
  by unfold_locales simp

interpretation cm: cluster_channels list_mpsc list_mpsc wire
  by unfold_locales simp_all

lemma read_addressing_malformed:
  "(\<exists>e. read_addressing V h a = Inl e) \<longleftrightarrow>
     (\<exists>(k, v) \<in> set h. as_u64 V v = None
        \<and> as_str V k \<in> Some ` {''from_node'', ''from_local'', ''to_node'', ''to_local''})"
proof (induction V h a rule: read_addressing.induct)
  case (2 V key v rest a)
  then show ?case by (cases "as_str V key"; cases "as_u64 V v") simp_all
qed simp

lemma read_addressing_error:
  "read_addressing V h a = Inl e \<Longrightarrow> e = Malformed ''addressing field is not a u64''"
  by (induction V h a rule: read_addressing.induct) (auto split: option.splits if_splits)

section \<open>Properties\<close>

text \<open>
  The distributed router hands messages over in order and without loss: for a sequence of
  messages, the mailbox of a local destination, or the command queue for a remote one, grows by
  exactly the messages for it that were reported as accepted, in the order of the calls, whatever
  the other messages do; and every error names the destination it concerns.
\<close>

theorem distributed_route_in_order:
  assumes "mpsc_ok M" and "mpsc_ok R" and "rmpv_ok V"
    and "route_all (distributed_route M R V now) ms d = Some (rs, d')"
  shows "length rs = length ms \<and> dispatched M R V d' q = dispatched M R V d q @ accepted_for q ms rs
    \<and> (\<forall>i e. i < length ms \<and> rs ! i = Inl e \<longrightarrow>
         (case ms ! i of (_, to, _) \<Rightarrow> e = ProcessDead to \<or> e = MailboxFull to \<or> e = NodeUnreachable (pid_node_id to)))"
proof -
  have c: "cluster_channels M R V" using assms(1-3) by unfold_locales
  have "\<forall>i e. i < length ms \<and> rs ! i = Inl e \<longrightarrow>
      (case ms ! i of (_, to, _) \<Rightarrow> e = ProcessDead to \<or> e = MailboxFull to \<or> e = NodeUnreachable (pid_node_id to))"
    by (intro allI impI, elim conjE) (rule cluster_channels.distributed_errors [OF c assms(4)])
  with cluster_channels.distributed_in_order [OF c assms(4), of q] show ?thesis by simp
qed

definition sample_router :: "(wire_value message chan, nat, wire_value router_command chan) distributed_router" where
  "sample_router = \<lparr>dr_node_id = 1, dr_table = sample_table, dr_remote = bounded_channel list_mpsc 1\<rparr>"

theorem distributed_route_in_order_witness:
  "\<exists>rs d'. route_all (distributed_route list_mpsc list_mpsc wire (Some 5))
      [(process_id_new 1 1, process_id_new 2 7, WNil), (process_id_new 1 1, process_id_new 2 7, WInteger 3)] sample_router
      = Some (rs, d')
    \<and> dispatched list_mpsc list_mpsc wire d' (process_id_new 2 7) = dispatched list_mpsc list_mpsc wire sample_router (process_id_new 2 7)
        @ accepted_for (process_id_new 2 7)
            [(process_id_new 1 1, process_id_new 2 7, WNil), (process_id_new 1 1, process_id_new 2 7, WInteger 3)] rs"
proof -
  let ?ms = "[(process_id_new 1 1, process_id_new 2 7, WNil), (process_id_new 1 1, process_id_new 2 7, WInteger 3)]"
  obtain rs d' where eq: "route_all (distributed_route list_mpsc list_mpsc wire (Some 5)) ?ms sample_router = Some (rs, d')"
    by (simp add: distributed_route_def sample_router_def list_mpsc_def Let_def)
  from distributed_route_in_order [OF list_mpsc_ok list_mpsc_ok wire_ok eq] eq show ?thesis by blast
qed

text \<open>
  An inbound frame is rejected as malformed exactly when its header is not a map or one of the
  four addressing fields is not a \<open>u64\<close>, and then the table is unchanged; with a clock after the
  epoch and within \<open>u64\<close> milliseconds the delivery does not panic on any frame.
\<close>

theorem deliver_malformed_exact:
  assumes "now = Some ms" and "ms < 2 ^ 64"
  shows "\<exists>r t'. deliver_inbound_frame M V now f t = Some (r, t')
    \<and> ((\<exists>s. r = Inl (Malformed s)) \<longleftrightarrow>
         (case as_map V (header f) of
            None \<Rightarrow> True
          | Some h \<Rightarrow> \<exists>(k, v) \<in> set h. as_u64 V v = None
              \<and> as_str V k \<in> Some ` {''from_node'', ''from_local'', ''to_node'', ''to_local''}))
    \<and> ((\<exists>s. r = Inl (Malformed s)) \<longrightarrow> t' = t)"
proof (cases "frame_addressing V f")
  case (Inl e)
  have "\<exists>s. e = Malformed s"
    using Inl read_addressing_error [where V = V and e = e] by (auto simp: frame_addressing_def split: option.splits sum.splits)
  moreover have "case as_map V (header f) of None \<Rightarrow> True
      | Some h \<Rightarrow> \<exists>(k, v) \<in> set h. as_u64 V v = None
          \<and> as_str V k \<in> Some ` {''from_node'', ''from_local'', ''to_node'', ''to_local''}"
    using Inl unfolding read_addressing_malformed [symmetric, where V = V and a = "\<lparr>ad_from_node = 0, ad_from_local = 0, ad_to_node = 0, ad_to_local = 0\<rparr>"]
    by (auto simp: frame_addressing_def split: option.splits sum.splits)
  ultimately show ?thesis using Inl by (simp add: deliver_inbound_frame_def)
next
  case (Inr ft)
  obtain a b where ft: "ft = (a, b)" by (cases ft)
  have "\<not> (case as_map V (header f) of None \<Rightarrow> True
      | Some h \<Rightarrow> \<exists>(k, v) \<in> set h. as_u64 V v = None
          \<and> as_str V k \<in> Some ` {''from_node'', ''from_local'', ''to_node'', ''to_local''})"
    using Inr unfolding read_addressing_malformed [symmetric, where V = V and a = "\<lparr>ad_from_node = 0, ad_from_local = 0, ad_to_node = 0, ad_to_local = 0\<rparr>"]
    by (auto simp: frame_addressing_def split: option.splits sum.splits)
  with Inr assms show ?thesis
    by (auto simp: deliver_inbound_frame_def ft message_new_def case_prod_beta Let_def split: sum.splits)
qed

theorem deliver_malformed_exact_witness:
  "\<exists>r t'. deliver_inbound_frame list_mpsc wire (Some 5)
      \<lparr>version = 1, msg_type = MsgSend, request_id = 0, header = WMap [(WString ''to_node'', WNil)], payload = WNil\<rparr>
      sample_table = Some (r, t') \<and> (\<exists>s. r = Inl (Malformed s)) \<and> t' = sample_table"
  using deliver_malformed_exact [of "Some 5" 5 list_mpsc wire
      "\<lparr>version = 1, msg_type = MsgSend, request_id = 0, header = WMap [(WString ''to_node'', WNil)], payload = WNil\<rparr>" sample_table]
  by (auto simp: wire_def)

end
