(* ===== verification/Runtime.thy ===== *)
theory Runtime
  imports Router
begin

text \<open>
  The runtime and the context of a process (\<^verbatim>\<open>crates/rebar-core/src/runtime.rs\<close>): spawning, the cleanup
  that runs when a process ends, sending by pid and by name. A runtime owns its table; a custom
  router is a state \<open>'d\<close> with its route function \<open>custom\<close> as an argument, which works on the shared table. An
  asynchronous method that only calls a synchronous one is that call; the body of a process is not
  part of the model, its start and its end are the steps \<open>spawn\<close> and \<open>process_exit\<close>.
\<close>

section \<open>Runtimes\<close>

record ('c, 'h, 'd) runtime =
  rt_node_id :: u64
  rt_table :: "('c, 'h) process_table"
  rt_custom :: "'d option"

type_synonym ('v, 'c, 'h, 'd) custom_route =
  "process_id \<Rightarrow> process_id \<Rightarrow> 'v \<Rightarrow> ('c, 'h) process_table \<times> 'd
     \<Rightarrow> ((send_error + unit) \<times> ('c, 'h) process_table \<times> 'd) option"

definition runtime_new :: "u64 \<Rightarrow> ('c, 'h, 'd) runtime" where
  "runtime_new node = \<lparr>rt_node_id = node, rt_table = table_new node, rt_custom = None\<rparr>"

definition runtime_with_router :: "u64 \<Rightarrow> ('c, 'h) process_table \<Rightarrow> 'd \<Rightarrow> ('c, 'h, 'd) runtime" where
  "runtime_with_router node t d = \<lparr>rt_node_id = node, rt_table = t, rt_custom = Some d\<rparr>"

definition runtime_route ::
  "('v message, 'c) mpsc \<Rightarrow> ('v, 'c, 'h, 'd) custom_route \<Rightarrow> process_id \<Rightarrow> process_id \<Rightarrow> 'v
     \<Rightarrow> ('c, 'h, 'd) runtime \<Rightarrow> ((send_error + unit) \<times> ('c, 'h, 'd) runtime) option" where
  "runtime_route M custom from to p rt =
     (case rt_custom rt of
        None \<Rightarrow> map_option (\<lambda>(r, t). (r, rt\<lparr>rt_table := t\<rparr>)) (local_route M from to p (rt_table rt))
      | Some d \<Rightarrow>
          map_option (\<lambda>(r, t, d'). (r, rt\<lparr>rt_table := t, rt_custom := Some d'\<rparr>)) (custom from to p (rt_table rt, d)))"

text \<open>The synchronous part of \<open>Runtime::spawn\<close>: everything up to the start of the task.\<close>

definition spawn :: "('v message, 'c) mpsc \<Rightarrow> ('c, 'h, 'd) runtime \<Rightarrow> process_id \<times> ('c, 'h, 'd) runtime" where
  "spawn M rt =
     (let (pid, t1) = allocate_pid (rt_table rt);
          handle = mailbox_unbounded M;
          t2 = table_insert pid handle t1 in
      (pid, rt\<lparr>rt_table := t2\<rparr>))"

text \<open>The drop guard of the task: it runs when the handler returns and when it panics.\<close>

definition process_exit ::
  "('v message, 'c) mpsc \<Rightarrow> 'v rmpv \<Rightarrow> process_id \<Rightarrow> ('c, 'h, 'd) runtime
     \<Rightarrow> ('h \<times> process_id) list \<times> ('c, 'h, 'd) runtime" where
  "process_exit M V pid rt =
     (case cleanup_process M V pid (rt_table rt) of (_, calls, t) \<Rightarrow> (calls, rt\<lparr>rt_table := t\<rparr>))"

definition runtime_send where
  "runtime_send M custom dest p rt =
     (let from = process_id_new (rt_node_id rt) 0 in runtime_route M custom from dest p rt)"

definition runtime_register where
  "runtime_register name pid rt =
     (let (r, t) = table_register name pid (rt_table rt) in (r, rt\<lparr>rt_table := t\<rparr>))"

definition runtime_whereis where
  "runtime_whereis name rt = whereis name (rt_table rt)"

definition runtime_unregister where
  "runtime_unregister name rt =
     (let (r, t) = table_unregister name (rt_table rt) in (r, rt\<lparr>rt_table := t\<rparr>))"

definition runtime_send_named where
  "runtime_send_named M custom name p rt =
     (case whereis name (rt_table rt) of
        None \<Rightarrow> Some (Inl (NameNotRegistered name), rt)
      | Some dest \<Rightarrow> runtime_send M custom dest p rt)"

definition runtime_monitor where
  "runtime_monitor M V watcher target rt =
     (let (r, t) = table_monitor M V watcher target (rt_table rt) in (r, rt\<lparr>rt_table := t\<rparr>))"

definition runtime_demonitor where
  "runtime_demonitor mref rt = rt\<lparr>rt_table := table_demonitor mref (rt_table rt)\<rparr>"

text \<open>The hook of a scope is represented by the scope it holds.\<close>

definition attach_pg_scope where
  "attach_pg_scope scope rt = rt\<lparr>rt_table := add_exit_hook scope (rt_table rt)\<rparr>"

section \<open>The context of a process\<close>

definition ctx_send where
  "ctx_send M custom self dest p rt = runtime_route M custom self dest p rt"

definition ctx_register where
  "ctx_register self name rt = runtime_register name self rt"

definition ctx_whereis where
  "ctx_whereis name rt = whereis name (rt_table rt)"

definition ctx_send_named where
  "ctx_send_named M custom self name p rt =
     (case whereis name (rt_table rt) of
        None \<Rightarrow> Some (Inl (NameNotRegistered name), rt)
      | Some dest \<Rightarrow> ctx_send M custom self dest p rt)"

definition ctx_monitor where
  "ctx_monitor M V self target rt = runtime_monitor M V self target rt"

definition ctx_demonitor where
  "ctx_demonitor mref rt = runtime_demonitor mref rt"

text \<open>
  One poll of \<open>recv\<close> and \<open>recv_timeout\<close> by a process that is in the table: the sender of its mailbox is in its entry, so it is not
  gone. A receiver that outlives its entry is not part of the table (no result).
\<close>

definition ctx_recv ::
  "('v message, 'c) mpsc \<Rightarrow> process_id \<Rightarrow> ('c, 'h, 'd) runtime \<Rightarrow> ('v message option option \<times> ('c, 'h, 'd) runtime) option" where
  "ctx_recv M self rt =
     map_option (\<lambda>mb. let (r, mb') = mailbox_recv M False mb;
                         t = rt_table rt in
                     (r, rt\<lparr>rt_table := t\<lparr>tb_processes := hm_modify self (\<lambda>_. mb') (tb_processes t)\<rparr>\<rparr>))
       (hm_get (tb_processes (rt_table rt)) self)"

definition ctx_recv_timeout ::
  "('v message, 'c) mpsc \<Rightarrow> duration \<Rightarrow> duration \<Rightarrow> process_id \<Rightarrow> ('c, 'h, 'd) runtime
     \<Rightarrow> ('v message option option \<times> ('c, 'h, 'd) runtime) option" where
  "ctx_recv_timeout M dur elapsed self rt =
     map_option (\<lambda>mb. let (r, mb') = mailbox_recv_timeout M dur elapsed False mb;
                         t = rt_table rt in
                     (r, rt\<lparr>rt_table := t\<lparr>tb_processes := hm_modify self (\<lambda>_. mb') (tb_processes t)\<rparr>\<rparr>))
       (hm_get (tb_processes (rt_table rt)) self)"

section \<open>The builder\<close>

record runtime_builder =
  rb_node_id :: u64
  rb_worker_threads :: "usize option"
  rb_thread_name :: "string option"

definition runtime_builder_new :: "u64 \<Rightarrow> runtime_builder" where
  "runtime_builder_new node = \<lparr>rb_node_id = node, rb_worker_threads = None, rb_thread_name = None\<rparr>"

definition worker_threads :: "usize \<Rightarrow> runtime_builder \<Rightarrow> runtime_builder" where
  "worker_threads n b = b\<lparr>rb_worker_threads := Some n\<rparr>"

definition thread_name :: "string \<Rightarrow> runtime_builder \<Rightarrow> runtime_builder" where
  "thread_name name b = b\<lparr>rb_thread_name := Some name\<rparr>"

text \<open>
  \<open>tokio\<close> is what \<open>tokio::runtime::Builder::build\<close> makes of the settings. \<open>None\<close> is a panic: tokio's \<open>worker_threads\<close> refuses 0.
\<close>

definition runtime_build ::
  "(usize option \<Rightarrow> string option \<Rightarrow> 'e + 't) \<Rightarrow> runtime_builder \<Rightarrow> ('e + 't \<times> ('c, 'h, 'd) runtime) option" where
  "runtime_build tokio b =
     (if rb_worker_threads b = Some 0 then None
      else Some (case tokio (rb_worker_threads b) (rb_thread_name b) of
                   Inl e \<Rightarrow> Inl e
                 | Inr tokio_rt \<Rightarrow> Inr (tokio_rt, runtime_new (rb_node_id b))))"

section \<open>Spawning\<close>

lemma spawn_pid: "fst (spawn M rt) = process_id_new (tb_node_id (rt_table rt)) (tb_next_id (rt_table rt))"
  by (simp add: spawn_def allocate_pid_def)

lemma spawn_table:
  "tb_processes (rt_table (snd (spawn M rt))) =
     hm_insert (fst (spawn M rt)) (mailbox_unbounded M) (tb_processes (rt_table rt))"
  "tb_next_id (rt_table (snd (spawn M rt))) = tb_next_id (rt_table rt) + 1"
  "tb_node_id (rt_table (snd (spawn M rt))) = tb_node_id (rt_table rt)"
  "tb_names (rt_table (snd (spawn M rt))) = tb_names (rt_table rt)"
  "tb_names_by_pid (rt_table (snd (spawn M rt))) = tb_names_by_pid (rt_table rt)"
  by (simp_all add: spawn_def allocate_pid_def table_insert_def)

lemma reregister_ids [simp]:
  "tb_next_id (snd (table_reregister name pid t)) = tb_next_id t"
  "tb_node_id (snd (table_reregister name pid t)) = tb_node_id t"
  by (auto simp: table_reregister_def register_inner_def register_claim_def register_index_def register_recheck_def
      drop_name_def Let_def split: option.splits)

lemma spawn_alive: "alive (rt_table (snd (spawn M rt))) p \<longleftrightarrow> p = fst (spawn M rt) \<or> alive (rt_table rt) p"
  by (auto simp: alive_def hm_contains_def spawn_table)

end
