(* ===== verification/Handle.thy ===== *)
theory Handle
  imports Prelude
begin

text \<open>
  Requests to a process through a handle, as every supervisor of \<^verbatim>\<open>crates/rebar-core/src/supervisor\<close> takes them: a method of the
  handle sends a message with the sender of a oneshot channel through an unbounded channel and waits for the reply; the
  process takes the messages one at a time. A oneshot channel is a number. The locale \<open>request_server\<close> is what the clients of
  such a process rely on; its lemmas say that no request is lost, answered twice or left waiting.
\<close>

section \<open>Oneshot channels\<close>

datatype 'r oneshot = Waiting | Replied 'r | Dropped

text \<open>What \<open>reply_rx.await.map_err(..)\<close> sees: \<open>None\<close> while it waits; \<open>gone\<close> is the error of a dropped sender.\<close>

fun await_reply :: "'e \<Rightarrow> 'r oneshot \<Rightarrow> ('e + 'r) option" where
  "await_reply gone Waiting = None"
| "await_reply gone (Replied r) = Some (Inr r)"
| "await_reply gone Dropped = Some (Inl gone)"

text \<open>What a method of a handle returns, from the channel of its request (\<open>None\<close>: it could not be sent).\<close>

definition ask_result :: "'e \<Rightarrow> 'r oneshot option \<Rightarrow> ('e + 'r) option" where
  "ask_result gone ch = (case ch of None \<Rightarrow> Some (Inl gone) | Some c \<Rightarrow> await_reply gone c)"

section \<open>A process and its requests\<close>

record ('m, 'r, 's) requests =
  rq_state :: 's
  rq_up :: bool
  rq_queue :: "(nat option \<times> 'm) list"
  rq_next :: nat
  rq_channels :: "(nat, 'r oneshot) hashmap"

definition requests_new :: "'s \<Rightarrow> ('m, 'r, 's) requests" where
  "requests_new s = \<lparr>rq_state = s, rq_up = True, rq_queue = [], rq_next = 0, rq_channels = hm_empty\<rparr>"

text \<open>A request, which carries a new oneshot channel; \<open>None\<close>: the receiver of the process is gone. A message without a reply.\<close>

definition rq_ask :: "'m \<Rightarrow> ('m, 'r, 's) requests \<Rightarrow> nat option \<times> ('m, 'r, 's) requests" where
  "rq_ask m q =
     (if rq_up q
      then (Some (rq_next q), q\<lparr>rq_queue := rq_queue q @ [(Some (rq_next q), m)], rq_next := rq_next q + 1,
             rq_channels := hm_insert (rq_next q) Waiting (rq_channels q)\<rparr>)
      else (None, q))"

definition rq_tell :: "'m \<Rightarrow> ('m, 'r, 's) requests \<Rightarrow> ('m, 'r, 's) requests" where
  "rq_tell m q = (if rq_up q then q\<lparr>rq_queue := rq_queue q @ [(None, m)]\<rparr> else q)"

text \<open>The end of the process drops its receiver, and with it the reply channels of the messages that are still queued.\<close>

fun channels_of :: "(nat option \<times> 'm) list \<Rightarrow> nat list" where
  "channels_of [] = []"
| "channels_of ((None, m) # ms) = channels_of ms"
| "channels_of ((Some i, m) # ms) = i # channels_of ms"

definition rq_end :: "('m, 'r, 's) requests \<Rightarrow> ('m, 'r, 's) requests" where
  "rq_end q = q\<lparr>rq_up := False, rq_queue := [], rq_channels := fold (\<lambda>i. hm_insert i Dropped) (channels_of (rq_queue q)) (rq_channels q)\<rparr>"

text \<open>One turn of the loop: \<open>handle m s\<close> says whether the process ends, the reply, and the new state.\<close>

definition rq_turn :: "('m \<Rightarrow> 's \<Rightarrow> bool \<times> 'r option \<times> 's) \<Rightarrow> ('m, 'r, 's) requests \<Rightarrow> ('m, 'r, 's) requests option" where
  "rq_turn handle q =
     (case rq_queue q of
        [] \<Rightarrow> None
      | (tx, m) # ms \<Rightarrow>
          (case handle m (rq_state q) of (stop, reply, s) \<Rightarrow>
             let channels = (case tx of None \<Rightarrow> rq_channels q
                             | Some i \<Rightarrow> hm_insert i (case reply of None \<Rightarrow> Dropped | Some r \<Rightarrow> Replied r) (rq_channels q));
                 q1 = q\<lparr>rq_state := s, rq_queue := ms, rq_channels := channels\<rparr> in
             Some (if stop then rq_end q1 else q1)))"

text \<open>Clients, the process and its environment in any order. \<open>handle x\<close>: the handler in the environment \<open>x\<close> of a turn.\<close>

inductive requests_step :: "('x \<Rightarrow> 'm \<Rightarrow> 's \<Rightarrow> bool \<times> 'r option \<times> 's) \<Rightarrow> ('m \<Rightarrow> bool) \<Rightarrow> ('m, 'r, 's) requests \<Rightarrow> ('m, 'r, 's) requests \<Rightarrow> bool"
  for handle asks where
  asking: "asks m \<Longrightarrow> requests_step handle asks q (snd (rq_ask m q))"
| telling: "\<not> asks m \<Longrightarrow> requests_step handle asks q (rq_tell m q)"
| turning: "rq_up q \<Longrightarrow> rq_turn (handle x) q = Some q' \<Longrightarrow> requests_step handle asks q q'"
| moving: "requests_step handle asks q (q\<lparr>rq_state := s\<rparr>)"
| crashing: "requests_step handle asks q (rq_end q)"

definition requests_ok :: "('m \<Rightarrow> bool) \<Rightarrow> ('m, 'r, 's) requests \<Rightarrow> bool" where
  "requests_ok asks q \<longleftrightarrow>
     distinct (channels_of (rq_queue q))
   \<and> (\<forall>i. hm_get (rq_channels q) i = Some Waiting \<longleftrightarrow> i \<in> set (channels_of (rq_queue q)))
   \<and> (\<forall>i. hm_get (rq_channels q) i \<noteq> None \<longleftrightarrow> i < rq_next q)
   \<and> (\<forall>(tx, m) \<in> set (rq_queue q). asks m \<longleftrightarrow> tx \<noteq> None)
   \<and> (\<not> rq_up q \<longrightarrow> rq_queue q = [])"

lemma channels_of_append [simp]: "channels_of (xs @ ys) = channels_of xs @ channels_of ys"
  by (induction xs rule: channels_of.induct) simp_all

lemma rq_end_ok: "requests_ok asks q \<Longrightarrow> requests_ok asks (rq_end q)"
  by (auto simp: requests_ok_def rq_end_def hm_get_fold_insert)

text \<open>What every request of a process comes to: it waits while it is queued, is answered, or is dropped when the process ends.\<close>

definition requests_fine :: "('m \<Rightarrow> bool) \<Rightarrow> ('m, 'r, 's) requests \<Rightarrow> bool" where
  "requests_fine asks q \<longleftrightarrow> requests_ok asks q \<and> (rq_up q \<longrightarrow> (\<forall>i. hm_get (rq_channels q) i \<noteq> Some Dropped))"

lemma requests_fine_new: "requests_fine asks (requests_new s)"
  by (simp add: requests_fine_def requests_ok_def requests_new_def)

lemma rq_ask_fine: "requests_fine asks q \<Longrightarrow> asks m \<Longrightarrow> requests_fine asks (snd (rq_ask m q))"
  unfolding requests_fine_def requests_ok_def rq_ask_def by (auto simp: less_Suc_eq)

lemma rq_tell_fine: "requests_fine asks q \<Longrightarrow> \<not> asks m \<Longrightarrow> requests_fine asks (rq_tell m q)"
  unfolding requests_fine_def requests_ok_def rq_tell_def by auto

text \<open>The contract: a request that carries a reply channel is answered in its turn.\<close>

locale request_server =
  fixes handle :: "'x \<Rightarrow> 'm \<Rightarrow> 's \<Rightarrow> bool \<times> 'r option \<times> 's"
    and asks :: "'m \<Rightarrow> bool"
  assumes answers: "asks m \<Longrightarrow> handle x m s = (stop, r, s') \<Longrightarrow> r \<noteq> None"
begin

lemma turn_fine:
  assumes "requests_fine asks q" and "rq_up q" and "rq_turn (handle x) q = Some q'"
  shows "requests_fine asks q'"
proof -
  obtain tx m ms where q: "rq_queue q = (tx, m) # ms" using assms(3) by (cases "rq_queue q") (auto simp: rq_turn_def)
  obtain stop r s where h: "handle x m (rq_state q) = (stop, r, s)" by (metis prod_cases3)
  define q1 where "q1 = q\<lparr>rq_state := s, rq_queue := ms,
    rq_channels := (case tx of None \<Rightarrow> rq_channels q | Some i \<Rightarrow> hm_insert i (case r of None \<Rightarrow> Dropped | Some r \<Rightarrow> Replied r) (rq_channels q))\<rparr>"
  have q': "q' = (if stop then rq_end q1 else q1)" using assms(3) by (auto simp: rq_turn_def q h q1_def Let_def)
  have "asks m \<longleftrightarrow> tx \<noteq> None" using assms(1) by (simp add: requests_fine_def requests_ok_def q)
  then have "tx \<noteq> None \<Longrightarrow> r \<noteq> None" using answers [OF _ h] by simp
  then have "requests_fine asks q1"
    using assms(1,2) by (cases tx; cases r) (auto simp: requests_fine_def requests_ok_def q q1_def)
  then show ?thesis using rq_end_ok [of asks q1] by (auto simp: q' requests_fine_def rq_end_def)
qed

lemma step_fine: "requests_step handle asks q q' \<Longrightarrow> requests_fine asks q \<Longrightarrow> requests_fine asks q'"
proof (induction rule: requests_step.induct)
  case (crashing q)
  then show ?case using rq_end_ok [of asks q] by (simp add: requests_fine_def) (simp add: rq_end_def)
qed (auto simp: rq_ask_fine rq_tell_fine turn_fine, simp_all add: requests_fine_def requests_ok_def)

text \<open>A reply, or the news that there will be none, is final.\<close>

lemma step_settled:
  assumes "requests_step handle asks q q'" and "requests_fine asks q" and "hm_get (rq_channels q) i = Some c" and "c \<noteq> Waiting"
  shows "hm_get (rq_channels q') i = Some c"
proof -
  have "hm_get (rq_channels q) i \<noteq> Some Waiting" using assms(3,4) by simp
  then have i: "i \<notin> set (channels_of (rq_queue q))" using assms(2) by (simp add: requests_fine_def requests_ok_def)
  have n: "i \<noteq> rq_next q" using assms(2,3) by (auto simp: requests_fine_def requests_ok_def)
  from assms(1) show ?thesis
  proof cases
    case (turning x)
    then obtain tx m ms where q: "rq_queue q = (tx, m) # ms" by (cases "rq_queue q") (auto simp: rq_turn_def)
    have "i \<notin> set (channels_of ms) \<and> tx \<noteq> Some i" using i by (cases tx) (auto simp: q)
    then show ?thesis using turning(2) assms(3)
      by (auto simp: rq_turn_def q rq_end_def hm_get_fold_insert Let_def split: prod.splits option.splits if_splits)
  qed (use i n assms(3) in \<open>auto simp: rq_ask_def rq_tell_def rq_end_def hm_get_fold_insert\<close>)
qed

end

sublocale request_server \<subseteq> life: transition_invariant "requests_step handle asks" "requests_fine asks"
  by unfold_locales (rule step_fine)

sublocale request_server \<subseteq> settled: transition_invariant "requests_step handle asks"
    "\<lambda>q. requests_fine asks q \<and> hm_get (rq_channels q) i = Some c \<and> c \<noteq> Waiting" for i c
  by unfold_locales (blast intro: step_fine step_settled)

context request_server
begin

lemma results:
  assumes "requests_fine asks q"
  shows "(\<forall>i. i < rq_next q \<longleftrightarrow> hm_get (rq_channels q) i \<noteq> None)
    \<and> distinct (channels_of (rq_queue q)) \<and> (\<not> rq_up q \<longrightarrow> rq_queue q = [])
    \<and> (\<forall>i. ask_result gone (hm_get (rq_channels q) i) = None \<longleftrightarrow> i \<in> set (channels_of (rq_queue q)))
    \<and> (\<forall>i. i < rq_next q \<and> ask_result gone (hm_get (rq_channels q) i) = Some (Inl gone) \<longrightarrow> \<not> rq_up q)
    \<and> (\<forall>i r q'. i < rq_next q \<and> ask_result gone (hm_get (rq_channels q) i) = Some r \<and> (requests_step handle asks)\<^sup>*\<^sup>* q q'
         \<longrightarrow> ask_result gone (hm_get (rq_channels q') i) = Some r)"
proof -
  note ok = assms [unfolded requests_fine_def requests_ok_def]
  have w: "ask_result gone (hm_get (rq_channels q) i) = None \<longleftrightarrow> hm_get (rq_channels q) i = Some Waiting" for i
    by (auto simp: ask_result_def split: option.splits elim: await_reply.elims)
  have dom: "i < rq_next q \<longleftrightarrow> hm_get (rq_channels q) i \<noteq> None" for i using ok by simp
  have gone: "\<not> rq_up q" if h: "i < rq_next q \<and> ask_result gone (hm_get (rq_channels q) i) = Some (Inl gone)" for i
  proof -
    obtain c where c: "hm_get (rq_channels q) i = Some c" using h dom [of i] by blast
    with h have "c = Dropped" by (cases c) (simp_all add: ask_result_def)
    moreover have "rq_up q \<longrightarrow> hm_get (rq_channels q) i \<noteq> Some Dropped" using ok by simp
    ultimately show ?thesis using c by simp
  qed
  have final: "ask_result gone (hm_get (rq_channels q') i) = Some r"
    if h: "i < rq_next q \<and> ask_result gone (hm_get (rq_channels q) i) = Some r \<and> (requests_step handle asks)\<^sup>*\<^sup>* q q'" for i r q'
  proof -
    obtain c where c: "hm_get (rq_channels q) i = Some c" using h dom [of i] by blast
    with h have "c \<noteq> Waiting" by (auto simp: ask_result_def)
    with settled.reach_inv [of q q' i c] assms c h show ?thesis by simp
  qed
  have wait: "ask_result gone (hm_get (rq_channels q) i) = None \<longleftrightarrow> i \<in> set (channels_of (rq_queue q))" for i using ok w by simp
  from ok have "distinct (channels_of (rq_queue q))" "\<not> rq_up q \<Longrightarrow> rq_queue q = []" by simp_all
  then show ?thesis by (intro conjI allI impI) (assumption | rule dom | rule wait | rule gone | rule final)+
qed

text \<open>The request at the head of the queue of a running process gets the answer of its handler.\<close>

lemma turn_answers:
  assumes "requests_fine asks q" and "rq_queue q = (Some i, m) # ms" and "handle x m (rq_state q) = (stop, r, s)"
  shows "\<exists>q' v. rq_turn (handle x) q = Some q' \<and> r = Some v \<and> hm_get (rq_channels q') i = Some (Replied v)"
proof -
  have "asks m" using assms(1,2) by (auto simp: requests_fine_def requests_ok_def)
  with answers assms(3) obtain v where v: "r = Some v" by blast
  have "i \<notin> set (channels_of ms)" using assms(1,2) by (simp add: requests_fine_def requests_ok_def)
  then show ?thesis using v by (auto simp: rq_turn_def assms(2,3) rq_end_def hm_get_fold_insert Let_def)
qed

end

end
