(* ===== verification/Stage_Process.thy ===== *)
theory Stage_Process
  imports Stage_Protocol Runtime Handle "HOL-Library.Sublist"
begin

text \<open>
  Stages as processes (\<^verbatim>\<open>spawn_stage\<close>, \<^verbatim>\<open>run_stage_loop\<close> and the replies of \<open>GenStageRef\<close> in \<^verbatim>\<open>crates/rebar-core/src/gen_stage/engine.rs\<close>): the
  entry of a stage in the process table, its routing mailbox, its command channel and its end. The loop, its clients and the processes that
  send to its pid interleave. \<open>M\<close> are the channels of the mailboxes, \<open>C\<close> those of the commands, and \<open>drop_rx\<close> is what becomes of a
  command channel when its receiver is dropped. The theory shows that a stage is addressable exactly while it lives, that it
  takes every accepted command once and in order and answers it, and what its end leaves behind.
\<close>

section \<open>The process\<close>

text \<open>
  Where the task of a stage is: before \<open>init\<close>, at the top of the loop, at \<open>cmd_rx.recv()\<close>, or ended, through the closed channel
  (\<open>StageGone True\<close>) or by a failed \<open>init\<close> or the panic of a callback.
\<close>

datatype ('v, 's) stage_phase = StageInit | StageTop "'v loop_state" 's | StageRecv "'v loop_state" 's | StageGone bool

text \<open>\<open>st_taken\<close> records the commands the loop has received, for the properties only.\<close>

record ('v, 's, 'n, 'c, 'h, 'd) stage_task =
  st_pid :: process_id
  st_phase :: "('v, 's) stage_phase"
  st_net :: "'n stage_net"
  st_rt :: "('c, 'h, 'd) runtime"
  st_replies :: "(reply_id \<times> 'v stage_reply) list"
  st_taken :: "'v stage_command list"

definition STAGE_CAPACITY :: nat where
  "STAGE_CAPACITY = 256"

definition spawn_stage_with_dispatcher ::
  "('v message, 'c) mpsc \<Rightarrow> ('v stage_command, 'n) mpsc \<Rightarrow> 'n stage_net \<Rightarrow> ('c, 'h, 'd) runtime \<Rightarrow> ('v, 's, 'n, 'c, 'h, 'd) stage_task" where
  "spawn_stage_with_dispatcher M C net rt =
     (let (pid, t1) = allocate_pid (rt_table rt);
          cmd = bounded_channel C STAGE_CAPACITY;
          t2 = table_insert pid (mailbox_unbounded M) t1 in
      \<lparr>st_pid = pid, st_phase = StageInit,
       st_net = (set_chan pid cmd net)\<lparr>net_strong := (net_strong net)(pid := True)\<rparr>,
       st_rt = rt\<lparr>rt_table := t2\<rparr>, st_replies = [], st_taken = []\<rparr>)"

text \<open>\<open>spawn_stage\<close> chooses the dispatcher the loop runs with.\<close>

definition spawn_stage ::
  "('v message, 'c) mpsc \<Rightarrow> ('v stage_command, 'n) mpsc \<Rightarrow> 'n stage_net \<Rightarrow> ('c, 'h, 'd) runtime
     \<Rightarrow> 'v dispatch_fun \<times> ('v, 's, 'n, 'c, 'h, 'd) stage_task" where
  "spawn_stage M C net rt = (demand_dispatch, spawn_stage_with_dispatcher M C net rt)"

text \<open>The end of the inner task drops both receivers; then the outer task cleans up.\<close>

definition stage_exit ::
  "('v message, 'c) mpsc \<Rightarrow> 'v rmpv \<Rightarrow> ('n \<Rightarrow> 'n) \<Rightarrow> bool \<Rightarrow> ('v, 's, 'n, 'c, 'h, 'd) stage_task \<Rightarrow> ('v, 's, 'n, 'c, 'h, 'd) stage_task" where
  "stage_exit M V drop_rx graceful st =
     st\<lparr>st_phase := StageGone graceful, st_net := set_chan (st_pid st) (drop_rx (net_chan (st_net st) (st_pid st))) (st_net st),
        st_rt := snd (process_exit M V (st_pid st) (st_rt st))\<rparr>"

definition stage_init ::
  "('v message, 'c) mpsc \<Rightarrow> 'v rmpv \<Rightarrow> ('n \<Rightarrow> 'n) \<Rightarrow> ('v, 's) gen_stage \<Rightarrow> ('v, 's, 'n, 'c, 'h, 'd) stage_task \<Rightarrow> ('v, 's, 'n, 'c, 'h, 'd) stage_task" where
  "stage_init M V drop_rx S st =
     (case gs_init S of
        Inl e \<Rightarrow> stage_exit M V drop_rx False st
      | Inr (ty, user) \<Rightarrow> st\<lparr>st_phase := StageTop (loop_state_new ty) user\<rparr>)"

text \<open>\<open>while mailbox_rx.try_recv().is_some() {}\<close>\<close>

partial_function (option) drain_mailbox :: "('v message, 'c) mpsc \<Rightarrow> 'c mailbox \<Rightarrow> 'c mailbox option" where
  "drain_mailbox M mb =
     (case mailbox_try_recv M mb of
        (None, mb') \<Rightarrow> Some mb'
      | (Some _, mb') \<Rightarrow> drain_mailbox M mb')"

definition stage_drain ::
  "('v message, 'c) mpsc \<Rightarrow> ('v, 's, 'n, 'c, 'h, 'd) stage_task \<Rightarrow> ('c, 'h, 'd) runtime option" where
  "stage_drain M st =
     (let rt = st_rt st; t = rt_table rt in
      case hm_get (tb_processes t) (st_pid st) of
        None \<Rightarrow> Some rt
      | Some mb \<Rightarrow> map_option (\<lambda>mb'. rt\<lparr>rt_table := t\<lparr>tb_processes := hm_insert (st_pid st) mb' (tb_processes t)\<rparr>\<rparr>) (drain_mailbox M mb))"

text \<open>\<open>cmd_rx.recv()\<close> and the handling of what it returns; no result while it waits.\<close>

definition stage_receive ::
  "('v message, 'c) mpsc \<Rightarrow> 'v rmpv \<Rightarrow> ('v stage_command, 'n) mpsc \<Rightarrow> ('n \<Rightarrow> 'n) \<Rightarrow> 'v dispatch_fun \<Rightarrow> ('v, 's) gen_stage
     \<Rightarrow> ((subscription_tag, upstream_subscription) hashmap \<Rightarrow> (subscription_tag, upstream_subscription) hashmap)
     \<Rightarrow> ((subscription_tag, downstream_subscription) hashmap \<Rightarrow> (subscription_tag, downstream_subscription) hashmap)
     \<Rightarrow> 'v loop_state \<Rightarrow> 's \<Rightarrow> ('v, 's, 'n, 'c, 'h, 'd) stage_task \<Rightarrow> ('v, 's, 'n, 'c, 'h, 'd) stage_task option" where
  "stage_receive M V C drop_rx D S uord dord ls user st =
     (let pid = st_pid st;
          (r, c) = channel_try_recv C (net_chan (st_net st) pid);
          sys = \<lparr>sys_loop = ls, sys_user = user, sys_net = set_chan pid c (st_net st), sys_replies = st_replies st\<rparr> in
      case r of
        Some cmd \<Rightarrow>
          let (_, sys1) = stage_round C D S uord dord pid (Some cmd) sys in
          Some (st\<lparr>st_phase := StageTop (sys_loop sys1) (sys_user sys1), st_net := sys_net sys1, st_replies := sys_replies sys1,
                   st_taken := st_taken st @ [cmd]\<rparr>)
      | None \<Rightarrow>
          if net_strong (st_net st) pid then None
          else
            let (_, sys1) = stage_round C D S uord dord pid None sys in
            Some (stage_exit M V drop_rx True (st\<lparr>st_net := sys_net sys1\<rparr>)))"

section \<open>Replies of the handle\<close>

text \<open>The reply channel of a request: answered, waiting in the command channel, or dropped.\<close>

fun reply_of :: "'v stage_command \<Rightarrow> reply_id list" where
  "reply_of (Subscribe tag consumer opts reply) = [reply]"
| "reply_of (Call msg reply) = [reply]"
| "reply_of _ = []"

definition stage_channel :: "('v stage_command, 'n) mpsc \<Rightarrow> reply_id \<Rightarrow> ('v, 's, 'n, 'c, 'h, 'd) stage_task \<Rightarrow> 'v stage_reply oneshot" where
  "stage_channel C i st =
     (case map_of (st_replies st) i of
        Some r \<Rightarrow> Replied r
      | None \<Rightarrow> if i \<in> set (concat (map reply_of (queued C (net_chan (st_net st) (st_pid st))))) then Waiting else Dropped)"

text \<open>
  The results of \<open>call\<close> and \<open>subscribe\<close>, from that of the send and the reply channel, \<open>elapsed\<close> after the send; no result while they wait. A reply of the other
  kind cannot arrive, its channel has another type.
\<close>

definition ref_call_result :: "duration \<Rightarrow> duration \<Rightarrow> stage_error + unit \<Rightarrow> 'v stage_reply oneshot \<Rightarrow> (stage_error + 'v) option" where
  "ref_call_result timeout elapsed sent ch =
     (case sent of
        Inl _ \<Rightarrow> Some (Inl StageDead)
      | Inr _ \<Rightarrow>
          (case ch of
             Replied (Called v) \<Rightarrow> Some (Inr v)
           | Replied (Subscribed _) \<Rightarrow> None
           | Dropped \<Rightarrow> Some (Inl StageDead)
           | Waiting \<Rightarrow> if timeout \<le> elapsed then Some (Inl CallTimeout) else None))"

definition ref_subscribe_result :: "stage_error + subscription_tag \<Rightarrow> 'v stage_reply oneshot \<Rightarrow> (stage_error + subscription_tag) option" where
  "ref_subscribe_result sent ch =
     (case sent of
        Inl _ \<Rightarrow> Some (Inl StageDead)
      | Inr tag \<Rightarrow>
          (case ch of
             Replied (Subscribed (Inr _)) \<Rightarrow> Some (Inr tag)
           | Replied (Subscribed (Inl e)) \<Rightarrow> Some (Inl e)
           | Replied (Called _) \<Rightarrow> None
           | Dropped \<Rightarrow> Some (Inl StageDead)
           | Waiting \<Rightarrow> None))"

section \<open>Interleavings\<close>

text \<open>
  The steps of the task, and those of others: a panic of a callback, a message to the pid, anything in the table that leaves the
  mailbox of the stage alone, a command through a handle, anything on other channels, and the drop of the last strong sender.
\<close>

inductive stage_step ::
  "('v message, 'c) mpsc \<Rightarrow> 'v rmpv \<Rightarrow> ('v stage_command, 'n) mpsc \<Rightarrow> ('n \<Rightarrow> 'n) \<Rightarrow> 'v dispatch_fun \<Rightarrow> ('v, 's) gen_stage
     \<Rightarrow> ('v, 's, 'n, 'c, 'h, 'd) stage_task \<Rightarrow> ('v, 's, 'n, 'c, 'h, 'd) stage_task \<Rightarrow> bool"
  for M V C drop_rx D S where
  init: "st_phase st = StageInit \<Longrightarrow> stage_step M V C drop_rx D S st (stage_init M V drop_rx S st)"
| drain: "st_phase st = StageTop ls u \<Longrightarrow> stage_drain M st = Some rt \<Longrightarrow>
    stage_step M V C drop_rx D S st (st\<lparr>st_phase := StageRecv ls u, st_rt := rt\<rparr>)"
| receive: "st_phase st = StageRecv ls u \<Longrightarrow> stage_receive M V C drop_rx D S uord dord ls u st = Some st' \<Longrightarrow>
    stage_step M V C drop_rx D S st st'"
| panic: "(\<And>g. st_phase st \<noteq> StageGone g) \<Longrightarrow> stage_step M V C drop_rx D S st (stage_exit M V drop_rx False st)"
| mail: "stage_step M V C drop_rx D S st (st\<lparr>st_rt := (st_rt st)\<lparr>rt_table := snd (table_send M pid msg (rt_table (st_rt st)))\<rparr>\<rparr>)"
| elsewhere: "hm_get (tb_processes (rt_table rt)) (st_pid st) = hm_get (tb_processes (rt_table (st_rt st))) (st_pid st) \<Longrightarrow>
    stage_step M V C drop_rx D S st (st\<lparr>st_rt := rt\<rparr>)"
| command: "net_strong (st_net st) (st_pid st) \<Longrightarrow> stage_step M V C drop_rx D S st (st\<lparr>st_net := snd (ref_send C (st_pid st) cmd (st_net st))\<rparr>)"
| cast: "net_strong (st_net st) (st_pid st) \<Longrightarrow> stage_step M V C drop_rx D S st (st\<lparr>st_net := snd (ref_cast C (st_pid st) msg (st_net st))\<rparr>)"
| others: "net_chan net (st_pid st) = net_chan (st_net st) (st_pid st) \<Longrightarrow> net_strong net (st_pid st) = net_strong (st_net st) (st_pid st) \<Longrightarrow>
    stage_step M V C drop_rx D S st (st\<lparr>st_net := net\<rparr>)"
| unreferenced: "stage_step M V C drop_rx D S st (st\<lparr>st_net := (st_net st)\<lparr>net_strong := (net_strong (st_net st))(st_pid st := False)\<rparr>\<rparr>)"

section \<open>The routing mailbox\<close>

lemma drain_mailbox_empties:
  assumes "mpsc_ok M"
  shows "\<exists>mb'. drain_mailbox M mb = Some mb' \<and> mb_queue M mb' = [] \<and> mb_open M mb' = mb_open M mb
    \<and> ((\<exists>c. mb' = Bounded c) \<longleftrightarrow> (\<exists>c. mb = Bounded c))"
proof (induction "mb_queue M mb" arbitrary: mb)
  case Nil
  then show ?case using mailbox_try_recv_spec [OF assms, of mb]
    by (subst drain_mailbox.simps) (auto split: prod.splits option.splits)
next
  case (Cons m ms)
  obtain mb1 where r: "mailbox_try_recv M mb = (Some m, mb1)"
    using mailbox_try_recv_spec(1) [OF assms, of mb] Cons.hyps(2) [symmetric] by (cases "mailbox_try_recv M mb") auto
  have "mb_queue M mb1 = ms" "mb_open M mb1 = mb_open M mb" "(\<exists>c. mb1 = Bounded c) \<longleftrightarrow> (\<exists>c. mb = Bounded c)"
    using mailbox_try_recv_spec(2,3,5) [OF assms, of mb] Cons.hyps(2) [symmetric] r by simp_all
  with Cons.hyps(1) [of mb1] show ?case by (subst drain_mailbox.simps) (simp add: r)
qed

lemma accepts_iff: "accepts M t pid \<longleftrightarrow> (\<exists>mb. hm_get (tb_processes t) pid = Some mb \<and> mb_open M mb \<and> (\<nexists>c. mb = Bounded c))"
proof -
  have "(\<exists>c. mb = Unbounded c \<and> receiver_alive M c) \<longleftrightarrow> mb_open M mb \<and> (\<nexists>c. mb = Bounded c)" for mb
    by (cases mb) (simp_all add: mb_open_def)
  then show ?thesis unfolding accepts_def by metis
qed

lemma stage_drain_effect:
  assumes "mpsc_ok M"
  shows "\<exists>rt. stage_drain M st = Some rt"
    and "stage_drain M st = Some rt \<Longrightarrow> inbox M (rt_table rt) (st_pid st) = []
      \<and> accepts M (rt_table rt) (st_pid st) = accepts M (rt_table (st_rt st)) (st_pid st)"
proof -
  have "\<exists>rt. stage_drain M st = Some rt \<and> inbox M (rt_table rt) (st_pid st) = []
      \<and> accepts M (rt_table rt) (st_pid st) = accepts M (rt_table (st_rt st)) (st_pid st)"
  proof (cases "hm_get (tb_processes (rt_table (st_rt st))) (st_pid st)")
    case None
    then show ?thesis by (simp add: stage_drain_def inbox_def)
  next
    case (Some mb)
    obtain mb' where mb': "drain_mailbox M mb = Some mb'" "mb_queue M mb' = []" "mb_open M mb' = mb_open M mb"
      "(\<exists>c. mb' = Bounded c) \<longleftrightarrow> (\<exists>c. mb = Bounded c)" using drain_mailbox_empties [OF assms, of mb] by blast
    then show ?thesis by (auto simp: stage_drain_def inbox_def accepts_iff Some Let_def)
  qed
  then show "\<exists>rt. stage_drain M st = Some rt"
    and "stage_drain M st = Some rt \<Longrightarrow> inbox M (rt_table rt) (st_pid st) = []
      \<and> accepts M (rt_table rt) (st_pid st) = accepts M (rt_table (st_rt st)) (st_pid st)" by auto
qed

section \<open>Commands are never lost\<close>

definition chan_grows :: "('m, 'n) mpsc \<Rightarrow> 'n \<Rightarrow> 'n \<Rightarrow> bool" where
  "chan_grows C c c' \<longleftrightarrow> prefix (queued C c) (queued C c') \<and> receiver_alive C c' = receiver_alive C c
     \<and> (receiver_alive C c \<or> queued C c' = queued C c)"

definition grows :: "('v stage_command, 'n) mpsc \<Rightarrow> 'n stage_net \<Rightarrow> 'n stage_net \<Rightarrow> bool" where
  "grows C net net' \<longleftrightarrow> net_strong net' = net_strong net \<and> (\<forall>a. chan_grows C (net_chan net a) (net_chan net' a))"

lemma chan_grows_refl [simp]: "chan_grows C c c"
  by (simp add: chan_grows_def)

lemma chan_grows_trans: "chan_grows C c1 c2 \<Longrightarrow> chan_grows C c2 c3 \<Longrightarrow> chan_grows C c1 c3"
  unfolding chan_grows_def by (auto intro: prefix_order.trans)

lemma chan_grows_send: "mpsc_ok C \<Longrightarrow> chan_grows C c (snd (unbounded_send C m c))" "mpsc_ok C \<Longrightarrow> chan_grows C c (snd (try_send C m c))"
  by (auto simp: chan_grows_def mpsc_ok_def split: sum.splits option.splits)

lemma grows_refl [simp]: "grows C net net"
  by (simp add: grows_def)

lemma grows_trans: "grows C n1 n2 \<Longrightarrow> grows C n2 n3 \<Longrightarrow> grows C n1 n3"
  unfolding grows_def by (metis chan_grows_trans)

lemma grows_unbounded: "mpsc_ok C \<Longrightarrow> grows C net (set_chan a (snd (unbounded_send C cmd (net_chan net a))) net)"
  by (simp add: grows_def chan_grows_send)

lemma grows_try: "mpsc_ok C \<Longrightarrow> grows C net (set_chan a (snd (try_send C cmd (net_chan net a))) net)"
  by (simp add: grows_def chan_grows_send)

lemma grows_stage_send: "mpsc_ok C \<Longrightarrow> grows C net (snd (stage_send C a cmd net))"
  by (simp add: stage_send_eq grows_unbounded)

lemma grows_ref: "mpsc_ok C \<Longrightarrow> grows C net (snd (ref_send C a cmd net))" "mpsc_ok C \<Longrightarrow> grows C net (snd (ref_cast C a msg net))"
  using grows_unbounded [of C net a cmd] grows_try [of C net a "Cast msg"]
  by (auto simp: ref_send_def ref_cast_def split: prod.splits sum.splits try_send_error.splits)

lemma grows_deliver:
  assumes "mpsc_ok C"
  shows "grows C net (snd (snd (deliver_events C downs ds net)))"
proof (induction ds arbitrary: net)
  case (Cons d ds)
  obtain tag events where d: "d = (tag, events)" by fastforce
  show ?case
  proof (cases "hm_get downs tag")
    case (Some down)
    define net1 where "net1 = set_chan (consumer_cmd_tx down) (snd (try_send C (Events tag events) (net_chan net (consumer_cmd_tx down)))) net"
    have "grows C net (snd (snd (deliver_events C downs ds net1)))"
      unfolding net1_def by (rule grows_trans [OF grows_try [OF assms] Cons.IH])
    then show ?thesis using Cons.IH [of net] Some
      by (auto simp: d net1_def case_prod_beta Let_def split: sum.splits try_send_error.splits)
  qed (use Cons.IH d in simp)
qed simp

lemma grows_dispatch:
  assumes "mpsc_ok C"
  shows "grows C (snd lc) (snd (snd (dispatch_and_deliver C D events lc)))" and "grows C (snd lc) (snd (snd (drain_buffer C D lc)))"
    and "grows C (snd lc) (snd (snd (maybe_dispatch_emitted C D events lc)))"
  using grows_deliver [OF assms] by (auto simp: dispatch_and_deliver_def drain_buffer_def maybe_dispatch_emitted_def case_prod_beta Let_def)

lemma cleanup_dead_replies [simp]: "sys_replies (cleanup_dead_downstreams S dead sys) = sys_replies sys"
  by (induction rule: cleanup_dead_induct [where S = S and dead = dead and sys = sys]) simp_all

text \<open>What a handler does to the channels and replies when it has nothing to reply to.\<close>

definition quiet :: "('v stage_command, 'n) mpsc \<Rightarrow> ('v, 's, 'n) stage_sys \<Rightarrow> ('v, 's, 'n) stage_sys \<Rightarrow> bool" where
  "quiet C sys sys' \<longleftrightarrow> grows C (sys_net sys) (sys_net sys') \<and> sys_replies sys' = sys_replies sys"

lemma quiet_refl [simp]: "quiet C sys sys" "quiet C sys (sys\<lparr>sys_user := u\<rparr>)" "quiet C sys (sys\<lparr>sys_loop := ls\<rparr>)"
  by (simp_all add: quiet_def)

lemma quiet_trans: "quiet C s1 s2 \<Longrightarrow> quiet C s2 s3 \<Longrightarrow> quiet C s1 s3"
  unfolding quiet_def using grows_trans by auto

lemma dispatch_and_cleanup_quiet:
  assumes "\<And>lc. grows C (snd lc) (snd (snd (f lc)))"
  shows "quiet C sys (dispatch_and_cleanup S f sys)"
  using assms [of "(sys_loop sys, sys_net sys)"] by (auto simp: quiet_def dispatch_and_cleanup_def case_prod_beta Let_def)

lemma ask_upstream_quiet: "mpsc_ok C \<Longrightarrow> quiet C sys (ask_upstream C S a tag d sys)"
  using grows_stage_send by (simp add: quiet_def ask_upstream_def upstream_down_def case_prod_beta Let_def)

lemma handle_events_quiet:
  assumes "mpsc_ok C"
  shows "quiet C sys (handle_events C D S tag es sys)"
proof -
  define sys1 where "sys1 = sys\<lparr>sys_user := snd (gs_handle_events S es tag (sys_user sys))\<rparr>"
  define emitted where "emitted = fst (gs_handle_events S es tag (sys_user sys))"
  define sys2 where "sys2 = (if ls_stage_type (sys_loop sys1) = ProducerConsumer \<and> emitted \<noteq> []
    then dispatch_and_cleanup S (dispatch_and_deliver C D emitted) sys1 else sys1)"
  have "quiet C sys1 sys2" by (simp add: sys2_def dispatch_and_cleanup_quiet grows_dispatch [OF assms])
  then have s2: "quiet C sys sys2" by (rule quiet_trans [rotated]) (simp add: sys1_def)
  have "quiet C sys2 (ask_upstream C S a tag d (sys2\<lparr>sys_loop := ls\<rparr>))" for a d ls
    by (rule quiet_trans [OF _ ask_upstream_quiet [OF assms]]) simp
  then have "quiet C sys2 (handle_events C D S tag es sys)"
    unfolding handle_events_def Let_def case_prod_beta sys1_def [symmetric] emitted_def [symmetric] sys2_def [symmetric]
    by (auto split: option.splits)
  with s2 show ?thesis by (rule quiet_trans)
qed

lemma handle_ask_demand_quiet:
  assumes "mpsc_ok C"
  shows "quiet C sys (handle_ask_demand C D S tag d sys)"
proof (cases "hm_get (upstreams (sys_loop sys)) tag")
  case (Some up)
  then show ?thesis by (simp add: handle_ask_demand_def ask_upstream_quiet [OF assms])
next
  case None
  define sys1 where "sys1 = sys\<lparr>sys_loop := (sys_loop sys)\<lparr>consumer_demands := add_demand tag d (consumer_demands (sys_loop sys))\<rparr>\<rparr>"
  define sys2 where "sys2 = (if event_buffer (sys_loop sys1) \<noteq> [] then dispatch_and_cleanup S (drain_buffer C D) sys1 else sys1)"
  have "quiet C sys1 sys2" by (simp add: sys2_def dispatch_and_cleanup_quiet grows_dispatch [OF assms])
  then have s2: "quiet C sys sys2" by (rule quiet_trans [rotated]) (simp add: sys1_def)
  have "quiet C sys2 (dispatch_and_cleanup S (dispatch_and_deliver C D evs) (sys2\<lparr>sys_user := u\<rparr>))" for evs u
    by (rule quiet_trans [OF _ dispatch_and_cleanup_quiet]) (simp_all add: grows_dispatch [OF assms])
  then have "quiet C sys2 (handle_ask_demand C D S tag d sys)"
    unfolding handle_ask_demand_def None option.case Let_def case_prod_beta sys1_def [symmetric] sys2_def [symmetric] by simp
  with s2 show ?thesis by (rule quiet_trans)
qed

text \<open>A handler only appends to channels, and replies to its own request, once.\<close>

lemma handle_command_replies:
  assumes "mpsc_ok C"
  shows "grows C (sys_net sys) (sys_net (handle_command C D S self cmd sys))"
    and "map fst (sys_replies (handle_command C D S self cmd sys)) = map fst (sys_replies sys) @ reply_of cmd"
proof -
  have call: "quiet C s (dispatch_and_cleanup S (maybe_dispatch_emitted C D es) s)" for s es
    by (rule dispatch_and_cleanup_quiet) (rule grows_dispatch [OF assms])
  have emit: "grows C (sys_net sys) (sys_net (dispatch_and_cleanup S (maybe_dispatch_emitted C D es) s))" if "sys_net s = sys_net sys" for s es
    using call [of s es] that by (simp add: quiet_def)
  have ev: "quiet C sys (handle_events C D S tag es sys)" and ask: "quiet C sys (handle_ask_demand C D S tag d sys)" for tag es d
    by (simp_all add: handle_events_quiet handle_ask_demand_quiet assms)
  note simps = handle_subscribe_def handle_subscription_confirmed_def handle_cancel_def handle_call_def handle_cast_def case_prod_beta Let_def
  show "grows C (sys_net sys) (sys_net (handle_command C D S self cmd sys))"
    using ev ask grows_stage_send [OF assms] by (cases cmd) (auto simp: simps quiet_def emit split: option.splits)
  show "map fst (sys_replies (handle_command C D S self cmd sys)) = map fst (sys_replies sys) @ reply_of cmd"
    using call ev ask by (cases cmd) (auto simp: simps quiet_def split: option.splits)
qed

section \<open>The life of a stage\<close>

text \<open>Dropping the receiver of a channel closes it and drops what it holds.\<close>

definition closes :: "('m, 'n) mpsc \<Rightarrow> ('n \<Rightarrow> 'n) \<Rightarrow> bool" where
  "closes C drop_rx \<longleftrightarrow> (\<forall>c. \<not> receiver_alive C (drop_rx c) \<and> queued C (drop_rx c) = [])"

abbreviation stage_queue :: "('v stage_command, 'n) mpsc \<Rightarrow> ('v, 's, 'n, 'c, 'h, 'd) stage_task \<Rightarrow> 'v stage_command list" where
  "stage_queue C st \<equiv> queued C (net_chan (st_net st) (st_pid st))"

text \<open>The commands a stage has accepted, whether it has taken them already or not.\<close>

abbreviation commands :: "('v stage_command, 'n) mpsc \<Rightarrow> ('v, 's, 'n, 'c, 'h, 'd) stage_task \<Rightarrow> 'v stage_command list" where
  "commands C st \<equiv> st_taken st @ stage_queue C st"

definition stage_ok :: "('v message, 'c) mpsc \<Rightarrow> ('v stage_command, 'n) mpsc \<Rightarrow> ('v, 's, 'n, 'c, 'h, 'd) stage_task \<Rightarrow> bool" where
  "stage_ok M C st \<longleftrightarrow>
     (case st_phase st of
        StageGone g \<Rightarrow> \<not> alive (rt_table (st_rt st)) (st_pid st) \<and> \<not> receiver_alive C (net_chan (st_net st) (st_pid st)) \<and> stage_queue C st = []
      | _ \<Rightarrow> accepts M (rt_table (st_rt st)) (st_pid st) \<and> receiver_alive C (net_chan (st_net st) (st_pid st)))
   \<and> map fst (st_replies st) = concat (map reply_of (st_taken st))"

lemma cleaned_gone: "\<not> alive (cleaned M V pid t) pid"
  by (cases "alive t pid") (simp_all add: cleanup_names_view(3) cleanup_dead)

lemma spawned_ok:
  assumes "mpsc_ok M" and "mpsc_ok C"
  shows "stage_ok M C (spawn_stage_with_dispatcher M C net rt)"
  using assms by (simp add: stage_ok_def spawn_stage_with_dispatcher_def case_prod_beta Let_def accepts_def table_insert_def mailbox_unbounded_def mpsc_ok_def)

lemma stage_exit_fields [simp]:
  "st_pid (stage_exit M V drop_rx g st) = st_pid st" "st_phase (stage_exit M V drop_rx g st) = StageGone g"
  "st_taken (stage_exit M V drop_rx g st) = st_taken st" "st_replies (stage_exit M V drop_rx g st) = st_replies st"
  by (simp_all add: stage_exit_def)

lemma stage_exit_ok:
  assumes "closes C drop_rx" and "map fst (st_replies st) = concat (map reply_of (st_taken st))"
  shows "stage_ok M C (stage_exit M V drop_rx g st)"
proof -
  have "\<not> alive (rt_table (st_rt (stage_exit M V drop_rx g st))) (st_pid st)"
    using cleaned_gone [of M V "st_pid st" "rt_table (st_rt st)"] by (simp add: stage_exit_def process_exit_def case_prod_beta)
  moreover have "\<not> receiver_alive C (net_chan (st_net (stage_exit M V drop_rx g st)) (st_pid st)) \<and> queued C (net_chan (st_net (stage_exit M V drop_rx g st)) (st_pid st)) = []"
    using assms(1) by (simp add: stage_exit_def closes_def)
  ultimately show ?thesis using assms(2) by (simp add: stage_ok_def)
qed

lemma stage_receive_ok:
  assumes "mpsc_ok C" and "closes C drop_rx" and "st_phase st = StageRecv ls u" and "stage_ok M C st"
    and "stage_receive M V C drop_rx D S uord dord ls u st = Some st'"
  shows "stage_ok M C st' \<and> prefix (commands C st) (commands C st') \<and> st_pid st' = st_pid st"
proof -
  obtain r c where rc: "channel_try_recv C (net_chan (st_net st) (st_pid st)) = (r, c)" by fastforce
  then have q: "r = (case stage_queue C st of [] \<Rightarrow> None | m # _ \<Rightarrow> Some m)" "queued C c = tl (stage_queue C st)"
    "receiver_alive C c = receiver_alive C (net_chan (st_net st) (st_pid st))"
    using assms(1) unfolding mpsc_ok_def by (metis fst_conv snd_conv)+
  let ?sys = "\<lparr>sys_loop = ls, sys_user = u, sys_net = set_chan (st_pid st) c (st_net st), sys_replies = st_replies st\<rparr>"
  show ?thesis
  proof (cases r)
    case None
    then have n: "stage_queue C st = []" using q(1) by (cases "stage_queue C st") simp_all
    from assms(4) have rep: "map fst (st_replies st) = concat (map reply_of (st_taken st))" by (simp add: stage_ok_def)
    then show ?thesis using assms(5) n stage_exit_ok [OF assms(2), where st = "st\<lparr>st_net := net\<rparr>" and M = M and V = V and g = True for net]
      by (auto simp: stage_receive_def rc None Let_def split: if_splits)
  next
    case (Some cmd)
    then have n: "stage_queue C st = cmd # queued C c" using q by (cases "stage_queue C st") simp_all
    define sys1 where "sys1 = handle_command C D S (st_pid st) cmd ?sys"
    have g: "grows C (sys_net ?sys) (sys_net sys1)" "map fst (sys_replies sys1) = map fst (st_replies st) @ reply_of cmd"
      using handle_command_replies [OF assms(1), where sys = ?sys and cmd = cmd and D = D and S = S and self = "st_pid st"] by (simp_all add: sys1_def)
    have "chan_grows C (net_chan (sys_net ?sys) (st_pid st)) (net_chan (sys_net sys1) (st_pid st))"
      using g(1) unfolding grows_def by blast
    then have "prefix (queued C c) (queued C (net_chan (sys_net sys1) (st_pid st)))"
      "receiver_alive C (net_chan (sys_net sys1) (st_pid st)) = receiver_alive C c" by (simp_all add: chan_grows_def)
    moreover have "st' = st\<lparr>st_phase := StageTop (sys_loop sys1) (sys_user sys1), st_net := sys_net sys1, st_replies := sys_replies sys1, st_taken := st_taken st @ [cmd]\<rparr>"
      using assms(5) by (simp add: stage_receive_def rc Some Let_def sys1_def)
    ultimately show ?thesis using assms(3,4) g(2) n q(3) by (simp add: stage_ok_def)
  qed
qed

lemma stage_step_ok:
  assumes "mpsc_ok M" and "mpsc_ok C" and "closes C drop_rx" and "stage_step M V C drop_rx D S st st'" and "stage_ok M C st"
  shows "stage_ok M C st' \<and> st_pid st' = st_pid st \<and> (st_phase st' \<noteq> StageGone False \<longrightarrow> st_phase st \<noteq> StageGone False \<and> prefix (commands C st) (commands C st'))"
proof -
  have rep: "map fst (st_replies st) = concat (map reply_of (st_taken st))" using assms(5) by (simp add: stage_ok_def)
  note exit = stage_exit_ok [OF assms(3) rep]
  have net: ?thesis if "st' = st\<lparr>st_net := net\<rparr>" "grows C (st_net st) net" for net
  proof -
    have "prefix (stage_queue C st) (stage_queue C st')" "receiver_alive C (net_chan (st_net st') (st_pid st)) = receiver_alive C (net_chan (st_net st) (st_pid st))"
      using that by (simp_all add: grows_def chan_grows_def)
    moreover have "stage_queue C st' = stage_queue C st" if "\<not> receiver_alive C (net_chan (st_net st) (st_pid st))"
      using that \<open>grows C (st_net st) net\<close> \<open>st' = _\<close> by (auto simp: grows_def chan_grows_def)
    ultimately show ?thesis using assms(5) that(1) by (auto simp: stage_ok_def split: stage_phase.splits)
  qed
  from assms(4) show ?thesis
  proof cases
    case init
    then show ?thesis using exit assms(5) by (auto simp: stage_init_def split: sum.splits) (simp_all add: stage_ok_def)
  next
    case (drain ls u rt)
    then show ?thesis using stage_drain_effect(2) [OF assms(1) drain(3)] assms(5) by (simp add: stage_ok_def)
  next
    case (receive ls u uord dord)
    then show ?thesis using stage_receive_ok [OF assms(2,3) receive(1) assms(5) receive(2)] receive(1) by auto
  next
    case panic
    then show ?thesis using exit by simp
  next
    case (mail pid msg)
    then show ?thesis using assms(5) by (simp add: stage_ok_def alive_send accepts_send [OF assms(1)] split: stage_phase.splits)
  next
    case (elsewhere rt)
    then show ?thesis using assms(5) by (simp add: stage_ok_def alive_def hm_contains_def accepts_def split: stage_phase.splits)
  next
    case (command cmd)
    then show ?thesis using net grows_ref(1) [OF assms(2)] by blast
  next
    case (cast msg)
    then show ?thesis using net grows_ref(2) [OF assms(2)] by blast
  next
    case (others n)
    then show ?thesis using assms(5) by (simp add: stage_ok_def split: stage_phase.splits)
  next
    case unreferenced
    then show ?thesis using assms(5) by (simp add: stage_ok_def split: stage_phase.splits)
  qed
qed

interpretation stp: transition_invariant "stage_step M V C drop_rx D S"
    "\<lambda>st. (mpsc_ok M \<and> mpsc_ok C \<and> closes C drop_rx) \<and> stage_ok M C st \<and> st_pid st = pid \<and> (st_phase st \<noteq> StageGone False \<longrightarrow> prefix cs (commands C st))"
  for M V C drop_rx D S pid cs
  by unfold_locales (use stage_step_ok in \<open>fastforce intro: prefix_order.trans\<close>)

lemma stage_reach_ok:
  assumes "mpsc_ok M" and "mpsc_ok C" and "closes C drop_rx" and "stage_ok M C st" and "(stage_step M V C drop_rx D S)\<^sup>*\<^sup>* st st'"
  shows "stage_ok M C st'" "st_pid st' = st_pid st" "st_phase st' \<noteq> StageGone False \<Longrightarrow> prefix (commands C st) (commands C st')"
  using stp.reach_inv [OF assms(5), of "st_pid st" "commands C st"] assms(1-4) by blast+

lemma ref_send_outcome: "mpsc_ok C \<Longrightarrow> fst (ref_send C a cmd net) = (if receiver_alive C (net_chan net a) then Inr () else Inl StageDead)"
  by (auto simp: ref_send_def mpsc_ok_def split: prod.splits sum.splits if_splits) (metis fst_conv sum.distinct(1))+

lemma stage_channel_settled:
  assumes "map fst (st_replies st) = concat (map reply_of (st_taken st))" and "i \<in> set (concat (map reply_of (commands C st)))"
  shows "stage_channel C i st \<noteq> Dropped" "stage_queue C st = [] \<Longrightarrow> \<exists>r. stage_channel C i st = Replied r"
proof -
  have "map_of (st_replies st) i = None \<longleftrightarrow> i \<notin> set (concat (map reply_of (st_taken st)))"
    by (simp add: map_of_eq_None_iff assms(1) [symmetric] del: set_concat)
  then show "stage_channel C i st \<noteq> Dropped" "stage_queue C st = [] \<Longrightarrow> \<exists>r. stage_channel C i st = Replied r"
    using assms(2) by (auto simp: stage_channel_def split: option.splits)
qed

text \<open>
  C35: a stage is a well-behaved process from its spawn to its end, whatever its clients, its callbacks, its peers and the other processes of the
  node do. While it lives its pid accepts messages and its handle commands; once it is gone neither does. Every command it accepted is taken
  exactly once and in the order of acceptance, unless a callback panics or \<open>init\<close> fails, and a stage that ends because its last handle was dropped
  has taken them all. Every request taken is answered once and in order: a \<open>call\<close> or \<open>subscribe\<close> through a handle never gets \<open>Dead\<close> from a stage that
  did not crash. The top of the loop always gets through, with the routing mailbox empty, and the loop waits only while its channel is empty and a handle is left.
\<close>

theorem stage_process_correct:
  assumes "mpsc_ok M" and "mpsc_ok C" and "closes C drop_rx"
    and "(stage_step M V C drop_rx D S)\<^sup>*\<^sup>* (spawn_stage_with_dispatcher M C net rt) st" and "(stage_step M V C drop_rx D S)\<^sup>*\<^sup>* st st'"
  shows "(case st_phase st of
        StageGone g \<Rightarrow> \<not> alive (rt_table (st_rt st)) (st_pid st) \<and> fst (ref_send C (st_pid st) cmd (st_net st)) = Inl StageDead
      | _ \<Rightarrow> accepts M (rt_table (st_rt st)) (st_pid st) \<and> fst (ref_send C (st_pid st) cmd (st_net st)) = Inr ())
    \<and> (st_phase st' \<noteq> StageGone False \<longrightarrow> prefix (commands C st) (commands C st'))
    \<and> (st_phase st' = StageGone True \<longrightarrow> prefix (commands C st) (st_taken st'))
    \<and> map fst (st_replies st) = concat (map reply_of (st_taken st))
    \<and> (\<forall>i \<in> set (concat (map reply_of (commands C st))). st_phase st' \<noteq> StageGone False \<longrightarrow>
         ref_call_result timeout elapsed (Inr ()) (stage_channel C i st') \<noteq> Some (Inl StageDead)
       \<and> (st_phase st' = StageGone True \<longrightarrow> (\<exists>r. stage_channel C i st' = Replied r)))
    \<and> (\<exists>rt'. stage_drain M st = Some rt' \<and> inbox M (rt_table rt') (st_pid st) = [])
    \<and> (\<forall>ls u. stage_receive M V C drop_rx D S uord dord ls u st = None \<longleftrightarrow> stage_queue C st = [] \<and> net_strong (st_net st) (st_pid st))"
proof -
  note ok = stage_reach_ok(1) [OF assms(1-3) spawned_ok [OF assms(1,2)] assms(4)]
  note r = stage_reach_ok [OF assms(1-3) ok assms(5)]
  have gone: "stage_queue C st' = []" if "st_phase st' = StageGone True" using r(1) that by (simp add: stage_ok_def)
  have rep: "map fst (st_replies st) = concat (map reply_of (st_taken st))" "map fst (st_replies st') = concat (map reply_of (st_taken st'))"
    using ok r(1) by (simp_all add: stage_ok_def)
  have live: "case st_phase st of
        StageGone g \<Rightarrow> \<not> alive (rt_table (st_rt st)) (st_pid st) \<and> fst (ref_send C (st_pid st) cmd (st_net st)) = Inl StageDead
      | _ \<Rightarrow> accepts M (rt_table (st_rt st)) (st_pid st) \<and> fst (ref_send C (st_pid st) cmd (st_net st)) = Inr ()"
    using ok by (auto simp: stage_ok_def ref_send_outcome [OF assms(2)] split: stage_phase.splits)
  have all: "st_phase st' = StageGone True \<longrightarrow> prefix (commands C st) (st_taken st')" using r(3) gone by auto
  have answered: "ref_call_result timeout elapsed (Inr ()) (stage_channel C i st') \<noteq> Some (Inl StageDead)
       \<and> (st_phase st' = StageGone True \<longrightarrow> (\<exists>r. stage_channel C i st' = Replied r))"
    if "i \<in> set (concat (map reply_of (commands C st)))" "st_phase st' \<noteq> StageGone False" for i
  proof -
    from r(3) [OF that(2)] obtain zs where "commands C st' = commands C st @ zs" by (auto simp: prefix_def)
    then have "i \<in> set (concat (map reply_of (commands C st')))" using that(1) by auto
    from stage_channel_settled [OF rep(2) this] show ?thesis
      using gone by (auto simp: ref_call_result_def split: oneshot.splits stage_reply.splits)
  qed
  have "fst (channel_try_recv C (net_chan (st_net st) (st_pid st))) = (case stage_queue C st of [] \<Rightarrow> None | m # _ \<Rightarrow> Some m)"
    using assms(2) by (simp add: mpsc_ok_def)
  then have "stage_receive M V C drop_rx D S uord dord ls u st = None \<longleftrightarrow> stage_queue C st = [] \<and> net_strong (st_net st) (st_pid st)" for ls u
    by (auto simp: stage_receive_def case_prod_beta Let_def split: list.splits option.splits)
  with live r(3) all rep(1) answered stage_drain_effect [OF assms(1), of st] show ?thesis by blast
qed

definition echo_stage :: "(wire_value, unit) gen_stage" where
  "echo_stage = \<lparr>gs_init = Inr (Producer, ()), gs_handle_demand = (\<lambda>d u. ([], u)), gs_handle_events = (\<lambda>es _ u. ([], u)),
     gs_handle_subscribe = (\<lambda>_ _ _ u. (Automatic, u)), gs_handle_cancel = (\<lambda>_ _ u. u), gs_handle_call = (\<lambda>m u. ((m, []), u)),
     gs_handle_cast = (\<lambda>m u. ([m], u)), gs_terminate = (\<lambda>_ u. u)\<rparr>"

definition close_chan :: "'m chan \<Rightarrow> 'm chan" where
  "close_chan c = c\<lparr>ch_queue := [], ch_open := False\<rparr>"

definition echo_task :: "(wire_value, unit, wire_value stage_command chan, wire_value message chan, nat, unit) stage_task" where
  "echo_task = spawn_stage_with_dispatcher list_mpsc list_mpsc
     \<lparr>net_chan = (\<lambda>_. \<lparr>ch_queue = [], ch_capacity = Some 256, ch_open = True\<rparr>), net_strong = (\<lambda>_. False)\<rparr> (runtime_new 1)"

theorem stage_process_correct_witness:
  "\<exists>st. (stage_step list_mpsc wire list_mpsc close_chan demand_dispatch echo_stage)\<^sup>*\<^sup>* echo_task st
     \<and> commands list_mpsc st = [Call (string_value wire ''ping'') 7] \<and> ref_call_result 5 9 (Inr ()) (stage_channel list_mpsc 7 st) = Some (Inl CallTimeout)
     \<and> (\<exists>rt'. stage_drain list_mpsc st = Some rt' \<and> inbox list_mpsc (rt_table rt') (st_pid st) = [])"
proof -
  let ?st = "echo_task\<lparr>st_net := snd (ref_send list_mpsc (st_pid echo_task) (Call (string_value wire ''ping'') 7) (st_net echo_task))\<rparr>"
  have "stage_step list_mpsc wire list_mpsc close_chan demand_dispatch echo_stage echo_task ?st"
    by (rule command) (simp add: echo_task_def spawn_stage_with_dispatcher_def allocate_pid_def Let_def)
  then have run: "(stage_step list_mpsc wire list_mpsc close_chan demand_dispatch echo_stage)\<^sup>*\<^sup>* echo_task ?st" by blast
  have closes: "closes list_mpsc close_chan" by (simp add: closes_def list_mpsc_def close_chan_def)
  note s = stage_process_correct [OF list_mpsc_ok list_mpsc_ok closes run [unfolded echo_task_def] rtranclp.rtrancl_refl, folded echo_task_def]
  have q: "stage_queue list_mpsc ?st = [Call (string_value wire ''ping'') 7]" "st_taken ?st = []" "st_replies ?st = []"
    by (simp_all add: echo_task_def spawn_stage_with_dispatcher_def allocate_pid_def Let_def ref_send_def list_mpsc_def)
  then have "stage_channel list_mpsc 7 ?st = Waiting" unfolding stage_channel_def by simp
  then have "ref_call_result 5 9 (Inr ()) (stage_channel list_mpsc 7 ?st) = Some (Inl CallTimeout)" by (simp add: ref_call_result_def)
  moreover have "commands list_mpsc ?st = [Call (string_value wire ''ping'') 7]" using q(1,2) by simp
  ultimately show ?thesis using run s by blast
qed

text \<open>
  The routing mailbox of a stage that waits for a command is not drained: whatever number of messages other processes send to
  its pid, all of them stay queued.
\<close>

lemma idle_stage_mailbox_grows:
  assumes "mpsc_ok M" and "accepts M (rt_table (st_rt st)) (st_pid st)"
    and "stage_receive M V C drop_rx D S uord dord ls u st = None"
  shows "\<exists>t. inbox M t (st_pid st) = inbox M (rt_table (st_rt st)) (st_pid st) @ msgs
    \<and> (stage_step M V C drop_rx D S)\<^sup>*\<^sup>* st (st\<lparr>st_rt := (st_rt st)\<lparr>rt_table := t\<rparr>\<rparr>)
    \<and> stage_receive M V C drop_rx D S uord dord ls u (st\<lparr>st_rt := (st_rt st)\<lparr>rt_table := t\<rparr>\<rparr>) = None"
proof -
  have "\<exists>t. inbox M t (st_pid st) = inbox M (rt_table (st_rt st)) (st_pid st) @ msgs \<and> accepts M t (st_pid st)
    \<and> (stage_step M V C drop_rx D S)\<^sup>*\<^sup>* st (st\<lparr>st_rt := (st_rt st)\<lparr>rt_table := t\<rparr>\<rparr>)"
  proof (induction msgs rule: rev_induct)
    case Nil
    then show ?case using assms(2) by (intro exI [of _ "rt_table (st_rt st)"]) simp
  next
    case (snoc m ms)
    then obtain t where t: "inbox M t (st_pid st) = inbox M (rt_table (st_rt st)) (st_pid st) @ ms" "accepts M t (st_pid st)"
      "(stage_step M V C drop_rx D S)\<^sup>*\<^sup>* st (st\<lparr>st_rt := (st_rt st)\<lparr>rt_table := t\<rparr>\<rparr>)" by blast
    have "stage_step M V C drop_rx D S (st\<lparr>st_rt := (st_rt st)\<lparr>rt_table := t\<rparr>\<rparr>)
        (st\<lparr>st_rt := (st_rt st)\<lparr>rt_table := snd (table_send M (st_pid st) m t)\<rparr>\<rparr>)"
      using mail [of M V C drop_rx D S "st\<lparr>st_rt := (st_rt st)\<lparr>rt_table := t\<rparr>\<rparr>" "st_pid st" m] by simp
    with t show ?case using inbox_send [OF assms(1) t(2), of "st_pid st" m] accepts_send [OF assms(1)]
      by (intro exI [of _ "snd (table_send M (st_pid st) m t)"]) auto
  qed
  then obtain t where "inbox M t (st_pid st) = inbox M (rt_table (st_rt st)) (st_pid st) @ msgs"
    "(stage_step M V C drop_rx D S)\<^sup>*\<^sup>* st (st\<lparr>st_rt := (st_rt st)\<lparr>rt_table := t\<rparr>\<rparr>)" by blast
  moreover have "stage_receive M V C drop_rx D S uord dord ls u (st\<lparr>st_rt := (st_rt st)\<lparr>rt_table := t\<rparr>\<rparr>) = None"
    using assms(3) by (auto simp: stage_receive_def case_prod_beta Let_def split: option.splits if_splits)
  ultimately show ?thesis by blast
qed

end
