(* ===== verification/Application.thy ===== *)
theory Application
  imports Prelude
begin

text \<open>
  Applications (\<^verbatim>\<open>crates/rebar-core/src/application\<close>): the environment of an application, the
  specifications, and the manager that starts applications in dependency order and stops them in the
  reverse order. A \<open>DashMap\<close> is a hash map and each operation on it is one atomic step; an operation
  of the manager is modelled as running without interference, except that the reservation of a start
  is a step of its own. The implementation of an application is a value of type \<open>'a\<close>; its callbacks
  act on a world of type \<open>'w\<close> and are the fields of a record \<open>app_calls\<close>. A supervisor handle is a
  value of type \<open>'h\<close>.
\<close>

section \<open>Types\<close>

datatype app_error =
    AppNotFound string
  | AlreadyStarted string
  | DependencyNotRegistered string
  | DependencyNotStarted string
  | CircularDependency string
  | StartFailed string
  | EnvKeyNotFound string

fun app_error_to_string :: "app_error \<Rightarrow> string" where
  "app_error_to_string (AppNotFound s) = ''application not found: '' @ s"
| "app_error_to_string (AlreadyStarted s) = ''application already started: '' @ s"
| "app_error_to_string (DependencyNotRegistered s) = ''dependency not registered: '' @ s"
| "app_error_to_string (DependencyNotStarted s) = ''dependency not started: '' @ s"
| "app_error_to_string (CircularDependency s) = ''circular dependency detected: '' @ s"
| "app_error_to_string (StartFailed s) = ''start failed: '' @ s"
| "app_error_to_string (EnvKeyNotFound s) = ''env key not found: '' @ s"

record 'v app_spec =
  as_name :: string
  as_dependencies :: "string list"
  as_env :: "(string \<times> 'v) list"

definition app_spec_new :: "string \<Rightarrow> 'v app_spec" where
  "app_spec_new name = \<lparr>as_name = name, as_dependencies = [], as_env = []\<rparr>"

definition app_dependency :: "string \<Rightarrow> 'v app_spec \<Rightarrow> 'v app_spec" where
  "app_dependency dep spec = spec\<lparr>as_dependencies := as_dependencies spec @ [dep]\<rparr>"

definition app_env_val :: "string \<Rightarrow> 'v \<Rightarrow> 'v app_spec \<Rightarrow> 'v app_spec" where
  "app_env_val key value spec = spec\<lparr>as_env := as_env spec @ [(key, value)]\<rparr>"

section \<open>The environment\<close>

type_synonym 'v app_env = "(string, 'v) hashmap"

definition env_new :: "'v app_env" where
  "env_new = []"

definition env_get :: "string \<Rightarrow> 'v app_env \<Rightarrow> 'v option" where
  "env_get key env = hm_get env key"

definition env_get_or :: "string \<Rightarrow> 'v \<Rightarrow> 'v app_env \<Rightarrow> 'v" where
  "env_get_or key def env = (case hm_get env key of Some v \<Rightarrow> v | None \<Rightarrow> def)"

definition env_fetch :: "string \<Rightarrow> 'v app_env \<Rightarrow> app_error + 'v" where
  "env_fetch key env = (case hm_get env key of Some v \<Rightarrow> Inr v | None \<Rightarrow> Inl (EnvKeyNotFound key))"

definition env_put :: "string \<Rightarrow> 'v \<Rightarrow> 'v app_env \<Rightarrow> 'v app_env" where
  "env_put key value env = hm_insert key value env"

definition env_delete :: "string \<Rightarrow> 'v app_env \<Rightarrow> 'v app_env" where
  "env_delete key env = hm_remove key env"

definition env_all :: "('v app_env \<Rightarrow> 'v app_env) \<Rightarrow> 'v app_env \<Rightarrow> (string \<times> 'v) list" where
  "env_all ord env = ord env"

section \<open>The manager\<close>

record ('a, 'v, 'h, 'w) app_calls =
  call_start :: "'a \<Rightarrow> 'v app_env \<Rightarrow> 'w \<Rightarrow> (app_error + 'h) \<times> 'v app_env \<times> 'w"
  call_prep_stop :: "'a \<Rightarrow> 'v app_env \<Rightarrow> 'w \<Rightarrow> 'v app_env \<times> 'w"
  call_stop :: "'a \<Rightarrow> 'v app_env \<Rightarrow> 'w \<Rightarrow> 'v app_env \<times> 'w"
  call_shutdown :: "'h \<Rightarrow> 'w \<Rightarrow> 'w"

record ('a, 'v, 'h) running_app =
  ra_name :: string
  ra_supervisor :: 'h
  ra_env :: "'v app_env"
  ra_app :: 'a

datatype ('a, 'v, 'h) run_state = Starting | Running "('a, 'v, 'h) running_app"

fun is_Running :: "('a, 'v, 'h) run_state \<Rightarrow> bool" where
  "is_Running (Running _) = True"
| "is_Running Starting = False"

record ('a, 'v) registration =
  reg_spec :: "'v app_spec"
  reg_app :: 'a

record ('a, 'v, 'h) app_manager =
  am_registrations :: "(string, ('a, 'v) registration) hashmap"
  am_running :: "(string, ('a, 'v, 'h) run_state) hashmap"
  am_start_order :: "string list"

definition manager_new :: "('a, 'v, 'h) app_manager" where
  "manager_new = \<lparr>am_registrations = [], am_running = [], am_start_order = []\<rparr>"

definition app_register :: "'v app_spec \<Rightarrow> 'a \<Rightarrow> ('a, 'v, 'h) app_manager \<Rightarrow> ('a, 'v, 'h) app_manager" where
  "app_register spec app m =
     m\<lparr>am_registrations := hm_insert (as_name spec) \<lparr>reg_spec = spec, reg_app = app\<rparr> (am_registrations m)\<rparr>"

definition is_running :: "string \<Rightarrow> ('a, 'v, 'h) app_manager \<Rightarrow> bool" where
  "is_running name m = (case hm_get (am_running m) name of Some state \<Rightarrow> is_Running state | None \<Rightarrow> False)"

text \<open>The first part of \<open>start\<close>: read the registration and reserve the slot.\<close>

definition start_reserve ::
  "string \<Rightarrow> ('a, 'v, 'h) app_manager \<Rightarrow> (app_error + ('a, 'v) registration) \<times> ('a, 'v, 'h) app_manager" where
  "start_reserve name m =
     (case hm_get (am_registrations m) name of
        None \<Rightarrow> (Inl (AppNotFound name), m)
      | Some reg \<Rightarrow>
          (case hm_get (am_running m) name of
             Some _ \<Rightarrow> (Inl (AlreadyStarted name), m)
           | None \<Rightarrow> (Inr reg, m\<lparr>am_running := hm_insert name Starting (am_running m)\<rparr>)))"

definition start_reserved ::
  "('a, 'v, 'h, 'w) app_calls \<Rightarrow> string \<Rightarrow> ('a, 'v) registration \<Rightarrow> ('a, 'v, 'h) app_manager \<times> 'w
     \<Rightarrow> (app_error + unit) \<times> ('a, 'v, 'h) app_manager \<times> 'w" where
  "start_reserved C name reg mw =
     (case mw of (m, w) \<Rightarrow>
       case find (\<lambda>dep. \<not> is_running dep m) (as_dependencies (reg_spec reg)) of
         Some dep \<Rightarrow> (Inl (DependencyNotStarted dep), m, w)
       | None \<Rightarrow>
           let env = fold (\<lambda>(k, v) env. env_put k v env) (as_env (reg_spec reg)) env_new in
           (case call_start C (reg_app reg) env w of
              (Inl e, _, w') \<Rightarrow> (Inl (StartFailed (app_error_to_string e)), m, w')
            | (Inr handle, env', w') \<Rightarrow>
                (Inr (),
                 m\<lparr>am_start_order := am_start_order m @ [name],
                   am_running := hm_insert name
                     (Running \<lparr>ra_name = name, ra_supervisor = handle, ra_env = env', ra_app = reg_app reg\<rparr>) (am_running m)\<rparr>,
                 w')))"

text \<open>The end of \<open>start\<close>: a failed start gives up its reservation.\<close>

definition start_release :: "string \<Rightarrow> ('a, 'v, 'h) app_manager \<Rightarrow> ('a, 'v, 'h) app_manager" where
  "start_release name m =
     (case hm_get (am_running m) name of
        Some Starting \<Rightarrow> m\<lparr>am_running := hm_remove name (am_running m)\<rparr>
      | _ \<Rightarrow> m)"

definition app_start ::
  "('a, 'v, 'h, 'w) app_calls \<Rightarrow> string \<Rightarrow> ('a, 'v, 'h) app_manager \<times> 'w
     \<Rightarrow> (app_error + unit) \<times> ('a, 'v, 'h) app_manager \<times> 'w" where
  "app_start C name mw =
     (case mw of (m, w) \<Rightarrow>
       case start_reserve name m of
         (Inl e, m1) \<Rightarrow> (Inl e, m1, w)
       | (Inr reg, m1) \<Rightarrow>
           (case start_reserved C name reg (m1, w) of
              (Inl e, m2, w') \<Rightarrow> (Inl e, start_release name m2, w')
            | (Inr _, m2, w') \<Rightarrow> (Inr (), m2, w')))"

definition app_stop ::
  "('a, 'v, 'h, 'w) app_calls \<Rightarrow> string \<Rightarrow> ('a, 'v, 'h) app_manager \<times> 'w
     \<Rightarrow> (app_error + unit) \<times> ('a, 'v, 'h) app_manager \<times> 'w" where
  "app_stop C name mw =
     (case mw of (m, w) \<Rightarrow>
       case hm_get (am_running m) name of
         Some (Running app) \<Rightarrow>
           let m' = m\<lparr>am_running := hm_remove name (am_running m), am_start_order := filter (\<lambda>n. n \<noteq> name) (am_start_order m)\<rparr>;
               (env1, w1) = call_prep_stop C (ra_app app) (ra_env app) w;
               w2 = call_shutdown C (ra_supervisor app) w1;
               (_, w3) = call_stop C (ra_app app) env1 w2 in
           (Inr (), m', w3)
       | _ \<Rightarrow> (Inl (AppNotFound name), m, w))"

definition stop_all ::
  "('a, 'v, 'h, 'w) app_calls \<Rightarrow> ('a, 'v, 'h) app_manager \<times> 'w \<Rightarrow> (app_error + unit) \<times> ('a, 'v, 'h) app_manager \<times> 'w" where
  "stop_all C mw =
     (let order = rev (am_start_order (fst mw));
          (first_error, mw') = fold (\<lambda>name (err, mw).
             case app_stop C name mw of
               (Inl e, mw1) \<Rightarrow> (case err of None \<Rightarrow> Some e | Some _ \<Rightarrow> err, mw1)
             | (Inr _, mw1) \<Rightarrow> (err, mw1)) order (None, mw) in
      (case first_error of None \<Rightarrow> Inr () | Some e \<Rightarrow> Inl e, mw'))"

definition started_applications ::
  "((string, ('a, 'v, 'h) run_state) hashmap \<Rightarrow> (string, ('a, 'v, 'h) run_state) hashmap) \<Rightarrow> ('a, 'v, 'h) app_manager \<Rightarrow> string list" where
  "started_applications ord m = map fst (filter (\<lambda>(_, state). is_Running state) (ord (am_running m)))"

definition manager_env :: "string \<Rightarrow> ('a, 'v, 'h) app_manager \<Rightarrow> 'v app_env option" where
  "manager_env name m = (case hm_get (am_running m) name of Some (Running app) \<Rightarrow> Some (ra_env app) | _ \<Rightarrow> None)"

section \<open>Dependency order\<close>

text \<open>
  The iterative depth-first search of \<open>topological_sort\<close>. A colour that is absent is white; 1 is grey
  and 2 is black. The top of the stack is the head of the list.
\<close>

record topo_state =
  ts_colour :: "(string, nat) hashmap"
  ts_result :: "string list"
  ts_stack :: "(string \<times> nat) list"
  ts_cache :: "(string, string list) hashmap"

definition colour_of :: "topo_state \<Rightarrow> string \<Rightarrow> nat" where
  "colour_of st n = (case hm_get (ts_colour st) n of Some c \<Rightarrow> c | None \<Rightarrow> 0)"

text \<open>One iteration: the loop ends with a result, or goes on with a new state.\<close>

definition topo_step ::
  "(string, string list) hashmap \<Rightarrow> string \<Rightarrow> topo_state \<Rightarrow> (app_error + string list) + topo_state" where
  "topo_step deps_of name st =
     (case ts_stack st of
        [] \<Rightarrow> Inl (Inr (ts_result st))
      | (node, idx) # rest \<Rightarrow>
          (case (case hm_get (ts_cache st) node of Some deps \<Rightarrow> Some deps | None \<Rightarrow> hm_get deps_of node) of
             None \<Rightarrow> Inl (Inl (DependencyNotRegistered node))
           | Some deps \<Rightarrow>
               let st1 = (if hm_contains node (ts_cache st) then st
                          else st\<lparr>ts_cache := hm_insert node deps (ts_cache st)\<rparr>) in
               if idx < length deps
               then
                 let dep = deps ! idx; st2 = st1\<lparr>ts_stack := (node, idx + 1) # rest\<rparr> in
                 if colour_of st2 dep = 1
                 then Inl (Inl (CircularDependency (dep @ '' (while resolving '' @ name @ '')'')))
                 else if colour_of st2 dep = 2 then Inr st2
                 else Inr (st2\<lparr>ts_colour := hm_insert dep 1 (ts_colour st2), ts_stack := (dep, 0) # (node, idx + 1) # rest\<rparr>)
               else
                 Inr (st1\<lparr>ts_stack := rest, ts_colour := hm_insert node 2 (ts_colour st1), ts_result := ts_result st1 @ [node]\<rparr>)))"

text \<open>
  The search ends: an iteration colours a white name of the finitely many that occur in dependency
  lists, or it leaves the colours and shortens what the stack still has to scan.
\<close>

definition deps_at :: "(string, string list) hashmap \<Rightarrow> topo_state \<Rightarrow> string \<Rightarrow> string list" where
  "deps_at g st n = (case hm_get (ts_cache st) n of Some ds \<Rightarrow> ds | None \<Rightarrow> (case hm_get g n of Some ds \<Rightarrow> ds | None \<Rightarrow> []))"

definition white_names :: "(string, string list) hashmap \<Rightarrow> topo_state \<Rightarrow> string set" where
  "white_names g st =
     {n \<in> \<Union> (set ` snd ` set g) \<union> \<Union> (set ` snd ` set (ts_cache st)). colour_of st n \<notin> {1, 2}}"

definition left_to_scan :: "(string, string list) hashmap \<Rightarrow> topo_state \<Rightarrow> nat" where
  "left_to_scan g st = sum_list (map (\<lambda>(n, i). Suc (length (deps_at g st n) - i)) (ts_stack st))"

lemma topo_step_cases:
  assumes "topo_step g name st = r"
  obtains (finish) "ts_stack st = []" and "r = Inl (Inr (ts_result st))"
    | (missing) node idx rest where "ts_stack st = (node, idx) # rest" and "hm_get (ts_cache st) node = None"
        and "hm_get g node = None" and "r = Inl (Inl (DependencyNotRegistered node))"
    | (scan) node idx rest deps st1 where "ts_stack st = (node, idx) # rest"
        and "(case hm_get (ts_cache st) node of Some deps \<Rightarrow> Some deps | None \<Rightarrow> hm_get g node) = Some deps"
        and "st1 = (if hm_contains node (ts_cache st) then st else st\<lparr>ts_cache := hm_insert node deps (ts_cache st)\<rparr>)"
        and "r = (if idx < length deps
                then if colour_of st (deps ! idx) = 1
                     then Inl (Inl (CircularDependency (deps ! idx @ '' (while resolving '' @ name @ '')'')))
                     else if colour_of st (deps ! idx) = 2 then Inr (st1\<lparr>ts_stack := (node, idx + 1) # rest\<rparr>)
                     else Inr (st1\<lparr>ts_colour := hm_insert (deps ! idx) 1 (ts_colour st),
                            ts_stack := (deps ! idx, 0) # (node, idx + 1) # rest\<rparr>)
                else Inr (st1\<lparr>ts_stack := rest, ts_colour := hm_insert node 2 (ts_colour st), ts_result := ts_result st @ [node]\<rparr>))"
proof (cases "ts_stack st")
  case Nil
  with assms finish show thesis by (simp add: topo_step_def)
next
  case (Cons frame rest)
  obtain node idx where frame: "frame = (node, idx)" by fastforce
  show thesis
  proof (cases "case hm_get (ts_cache st) node of Some deps \<Rightarrow> Some deps | None \<Rightarrow> hm_get g node")
    case None
    with Cons frame assms missing show thesis by (auto simp: topo_step_def split: option.splits)
  next
    case (Some deps)
    define st1 where "st1 = (if hm_contains node (ts_cache st) then st else st\<lparr>ts_cache := hm_insert node deps (ts_cache st)\<rparr>)"
    have c: "colour_of (st1\<lparr>ts_stack := s\<rparr>) d = colour_of st d" "ts_colour st1 = ts_colour st" "ts_result st1 = ts_result st" for s d
      by (simp_all add: st1_def colour_of_def)
    show thesis
      by (rule scan [OF Cons [unfolded frame] Some st1_def])
         (simp add: assms [symmetric] topo_step_def Cons frame Some st1_def [symmetric] Let_def c)
  qed
qed

lemma update_absent: "k \<notin> fst ` set al \<Longrightarrow> AList.update k v al = al @ [(k, v)]"
  by (induction al) auto

lemma deps_at_step:
  assumes "(case hm_get (ts_cache st) node of Some deps \<Rightarrow> Some deps | None \<Rightarrow> hm_get g node) = Some deps"
    and "st1 = (if hm_contains node (ts_cache st) then st else st\<lparr>ts_cache := hm_insert node deps (ts_cache st)\<rparr>)"
  shows "ts_cache st' = ts_cache st1 \<Longrightarrow> deps_at g st' n = deps_at g st n"
    and "deps_at g st node = deps"
    and "ts_cache st' = ts_cache st1 \<Longrightarrow> \<Union> (set ` snd ` set g) \<union> \<Union> (set ` snd ` set (ts_cache st'))
       = \<Union> (set ` snd ` set g) \<union> \<Union> (set ` snd ` set (ts_cache st))"
    and "set deps \<subseteq> \<Union> (set ` snd ` set g) \<union> \<Union> (set ` snd ` set (ts_cache st))"
proof -
  show "ts_cache st' = ts_cache st1 \<Longrightarrow> deps_at g st' n = deps_at g st n"
    and "deps_at g st node = deps"
    using assms by (auto simp: deps_at_def hm_contains_def split: option.splits if_splits)
  have d: "(node, deps) \<in> set g \<or> (node, deps) \<in> set (ts_cache st)"
    using assms(1) by (auto split: option.splits dest: hm_get_in_set)
  then show "set deps \<subseteq> \<Union> (set ` snd ` set g) \<union> \<Union> (set ` snd ` set (ts_cache st))" by force
  assume c: "ts_cache st' = ts_cache st1"
  show "\<Union> (set ` snd ` set g) \<union> \<Union> (set ` snd ` set (ts_cache st')) = \<Union> (set ` snd ` set g) \<union> \<Union> (set ` snd ` set (ts_cache st))"
  proof (cases "hm_contains node (ts_cache st)")
    case True
    then show ?thesis using c assms(2) by simp
  next
    case False
    then have z: "hm_get (ts_cache st) node = None" by (simp add: hm_contains_def)
    then have n: "node \<notin> fst ` set (ts_cache st)" "(node, deps) \<in> set g"
      using assms(1) by (simp_all add: hm_get_in_set) (simp add: hm_get_def map_of_eq_None_iff)
    then have "ts_cache st' = ts_cache st @ [(node, deps)]"
      using c assms(2) False by (simp add: hm_insert_def update_absent)
    then show ?thesis using n(2) by force
  qed
qed

lemma finite_white: "finite (white_names g st)"
  by (simp add: white_names_def)

lemma colour_of_insert: "colour_of (st\<lparr>ts_colour := hm_insert d c (ts_colour st')\<rparr>) n = (if n = d then c else colour_of st' n)"
  by (simp add: colour_of_def)

lemma topo_step_decreases:
  assumes "topo_step g name st = Inr st'"
  shows "card (white_names g st') < card (white_names g st)
    \<or> card (white_names g st') \<le> card (white_names g st) \<and> left_to_scan g st' < left_to_scan g st"
  using assms
proof (cases rule: topo_step_cases)
  case (scan node idx rest deps st1)
  note U = deps_at_step [OF scan(2,3)]
  have c1: "ts_cache st1 = ts_cache st1" ..
  consider (black) "idx < length deps" "colour_of st (deps ! idx) = 2" "st' = st1\<lparr>ts_stack := (node, idx + 1) # rest\<rparr>"
    | (push) "idx < length deps" "colour_of st (deps ! idx) \<notin> {1, 2}"
        "st' = st1\<lparr>ts_colour := hm_insert (deps ! idx) 1 (ts_colour st), ts_stack := (deps ! idx, 0) # (node, idx + 1) # rest\<rparr>"
    | (pop) "\<not> idx < length deps"
        "st' = st1\<lparr>ts_stack := rest, ts_colour := hm_insert node 2 (ts_colour st), ts_result := ts_result st @ [node]\<rparr>"
    using scan(4) by (auto split: if_splits)
  then show ?thesis
  proof cases
    case black
    have cache: "ts_cache st' = ts_cache st1" by (simp add: black(3))
    have "colour_of st' n = colour_of st n" for n by (simp add: black(3) scan(3) colour_of_def)
    then have "white_names g st' = white_names g st" unfolding white_names_def U(3) [OF cache] by simp
    moreover have "left_to_scan g st' < left_to_scan g st"
    proof -
      have "ts_stack st' = (node, idx + 1) # rest" "deps_at g st' = deps_at g st"
        using U(1) [OF cache] by (simp_all add: black(3) fun_eq_iff)
      then show ?thesis using black(1) by (simp add: left_to_scan_def scan(1) U(2))
    qed
    ultimately show ?thesis by simp
  next
    case push
    have cache: "ts_cache st' = ts_cache st1" by (simp add: push(3))
    have "colour_of st' n = (if n = deps ! idx then 1 else colour_of st n)" for n by (simp add: push(3) colour_of_def)
    then have "white_names g st' = white_names g st - {deps ! idx}" unfolding white_names_def U(3) [OF cache] by auto
    moreover have "deps ! idx \<in> white_names g st" using push(2) subsetD [OF U(4) nth_mem [OF push(1)]] by (simp add: white_names_def)
    ultimately have "white_names g st' \<subset> white_names g st" by blast
    then show ?thesis using psubset_card_mono [OF finite_white] by blast
  next
    case pop
    have cache: "ts_cache st' = ts_cache st1" by (simp add: pop(2))
    have "colour_of st' n = (if n = node then 2 else colour_of st n)" for n by (simp add: pop(2) colour_of_def)
    then have "white_names g st' \<subseteq> white_names g st" unfolding white_names_def U(3) [OF cache] by auto
    then have "card (white_names g st') \<le> card (white_names g st)" by (rule card_mono [OF finite_white])
    moreover have "left_to_scan g st' < left_to_scan g st"
    proof -
      have "ts_stack st' = rest" "deps_at g st' = deps_at g st"
        using U(1) [OF cache] by (simp_all add: pop(2) fun_eq_iff)
      then show ?thesis by (simp add: left_to_scan_def scan(1))
    qed
    ultimately show ?thesis by simp
  qed
qed simp_all

function topo_loop :: "(string, string list) hashmap \<Rightarrow> string \<Rightarrow> topo_state \<Rightarrow> app_error + string list" where
  "topo_loop g name st = (case topo_step g name st of Inl r \<Rightarrow> r | Inr st' \<Rightarrow> topo_loop g name st')"
  by pat_completeness auto

termination topo_loop
  by (relation "measures [\<lambda>(g, _, st). card (white_names g st), \<lambda>(g, _, st). left_to_scan g st]")
     (use topo_step_decreases in \<open>auto simp: order_le_less\<close>)

declare topo_loop.simps [simp del]

definition topological_sort :: "('a, 'v, 'h) app_manager \<Rightarrow> string \<Rightarrow> app_error + string list" where
  "topological_sort m name =
     topo_loop (hm_map_values (\<lambda>reg. as_dependencies (reg_spec reg)) (am_registrations m)) name
       \<lparr>ts_colour = hm_insert name 1 [], ts_result = [], ts_stack = [(name, 0)], ts_cache = []\<rparr>"

text \<open>The loop of \<open>ensure_all_started\<close>, with its roll-back.\<close>

fun start_in_order ::
  "('a, 'v, 'h, 'w) app_calls \<Rightarrow> string list \<Rightarrow> string list \<Rightarrow> ('a, 'v, 'h) app_manager \<times> 'w
     \<Rightarrow> (app_error + string list) \<times> ('a, 'v, 'h) app_manager \<times> 'w" where
  "start_in_order C [] started mw = (Inr started, mw)"
| "start_in_order C (app_name # order) started mw =
     (if is_running app_name (fst mw) then start_in_order C order started mw
      else
        (case app_start C app_name mw of
           (Inl e, mw1) \<Rightarrow> (Inl e, fold (\<lambda>done mw. snd (app_stop C done mw)) (rev started) mw1)
         | (Inr _, mw1) \<Rightarrow> start_in_order C order (started @ [app_name]) mw1))"

definition ensure_all_started ::
  "('a, 'v, 'h, 'w) app_calls \<Rightarrow> string \<Rightarrow> ('a, 'v, 'h) app_manager \<times> 'w
     \<Rightarrow> (app_error + string list) \<times> ('a, 'v, 'h) app_manager \<times> 'w" where
  "ensure_all_started C name mw =
     (case topological_sort (fst mw) name of
        Inl e \<Rightarrow> (Inl e, mw)
      | Inr order \<Rightarrow> start_in_order C order [] mw)"

section \<open>The search finds a topological order or names the obstacle\<close>

definition dep_edge :: "(string, string list) hashmap \<Rightarrow> string \<Rightarrow> string \<Rightarrow> bool" where
  "dep_edge g a b \<longleftrightarrow> (\<exists>ds. hm_get g a = Some ds \<and> b \<in> set ds)"

text \<open>Every name of the list is registered and comes after all its dependencies.\<close>

definition topo_ordered :: "(string, string list) hashmap \<Rightarrow> string list \<Rightarrow> bool" where
  "topo_ordered g order \<longleftrightarrow>
     (\<forall>xs n ys. order = xs @ n # ys \<longrightarrow> (\<exists>ds. hm_get g n = Some ds \<and> set ds \<subseteq> set xs))"

lemma topo_ordered_Nil [simp]: "topo_ordered g []"
  by (simp add: topo_ordered_def)

lemma topo_ordered_snoc:
  "topo_ordered g (order @ [n]) \<longleftrightarrow> topo_ordered g order \<and> (\<exists>ds. hm_get g n = Some ds \<and> set ds \<subseteq> set order)"
proof
  assume o: "topo_ordered g (order @ [n])"
  have "topo_ordered g order"
    unfolding topo_ordered_def
  proof (intro allI impI)
    fix xs m ys assume "order = xs @ m # ys"
    then have "order @ [n] = xs @ m # (ys @ [n])" by simp
    with o show "\<exists>ds. hm_get g m = Some ds \<and> set ds \<subseteq> set xs" unfolding topo_ordered_def by blast
  qed
  moreover have "\<exists>ds. hm_get g n = Some ds \<and> set ds \<subseteq> set order" using o unfolding topo_ordered_def by blast
  ultimately show "topo_ordered g order \<and> (\<exists>ds. hm_get g n = Some ds \<and> set ds \<subseteq> set order)" ..
next
  assume "topo_ordered g order \<and> (\<exists>ds. hm_get g n = Some ds \<and> set ds \<subseteq> set order)"
  then show "topo_ordered g (order @ [n])"
    unfolding topo_ordered_def by (auto simp: append_eq_append_conv2 append_eq_Cons_conv Cons_eq_append_conv)
qed

lemma topo_ordered_closed: "topo_ordered g order \<Longrightarrow> n \<in> set order \<Longrightarrow> dep_edge g n d \<Longrightarrow> d \<in> set order"
  by (induction order rule: rev_induct) (auto simp: topo_ordered_snoc dep_edge_def)

text \<open>
  The frames below the top of the stack each wait for the frame above them; everything a frame has
  scanned before that is black.
\<close>

fun frames_ok :: "(string, string list) hashmap \<Rightarrow> string set \<Rightarrow> (string \<times> nat) list \<Rightarrow> bool" where
  "frames_ok g B [] = True"
| "frames_ok g B [(n, i)] = True"
| "frames_ok g B ((c, j) # (n, i) # rest) =
     ((\<exists>ds. hm_get g n = Some ds \<and> 0 < i \<and> i \<le> length ds \<and> ds ! (i - 1) = c \<and> set (take (i - 1) ds) \<subseteq> B)
    \<and> frames_ok g B ((n, i) # rest))"

definition top_ok :: "(string, string list) hashmap \<Rightarrow> string set \<Rightarrow> (string \<times> nat) list \<Rightarrow> bool" where
  "top_ok g B stack \<longleftrightarrow> (case stack of [] \<Rightarrow> True
     | (n, i) # _ \<Rightarrow> (case hm_get g n of None \<Rightarrow> i = 0 | Some ds \<Rightarrow> i \<le> length ds \<and> set (take i ds) \<subseteq> B))"

lemma frames_ok_mono: "frames_ok g B stack \<Longrightarrow> B \<subseteq> B' \<Longrightarrow> frames_ok g B' stack"
  by (induction g B stack rule: frames_ok.induct) auto

lemma frames_ok_index: "frames_ok g B ((n, i) # rest) = frames_ok g B ((n, i') # rest)"
  by (cases rest) (auto split: prod.splits)

lemma frames_ok_tl: "frames_ok g B (f # rest) \<Longrightarrow> frames_ok g B rest"
  by (cases f; cases rest) (auto split: prod.splits)

lemma frames_ok_reach:
  "frames_ok g B ((n, i) # rest) \<Longrightarrow> m \<in> fst ` set rest \<Longrightarrow> (dep_edge g)\<^sup>+\<^sup>+ m n"
proof (induction rest arbitrary: n i)
  case (Cons f rest)
  obtain p j where f: "f = (p, j)" by fastforce
  from Cons.prems(1) obtain ds where ds: "hm_get g p = Some ds" "0 < j" "j \<le> length ds" "ds ! (j - 1) = n"
    unfolding f by auto
  then have e: "dep_edge g p n" unfolding dep_edge_def using nth_mem [of "j - 1" ds] by auto
  show ?case
  proof (cases "m = p")
    case True
    then show ?thesis using e by blast
  next
    case False
    then have "m \<in> fst ` set rest" using Cons.prems(2) f by auto
    moreover have "frames_ok g B ((p, j) # rest)" using Cons.prems(1) f by simp
    ultimately have "(dep_edge g)\<^sup>+\<^sup>+ m p" using Cons.IH by blast
    then show ?thesis using e by (rule tranclp.trancl_into_trancl)
  qed
qed simp

definition topo_inv :: "(string, string list) hashmap \<Rightarrow> string \<Rightarrow> topo_state \<Rightarrow> bool" where
  "topo_inv g name st \<longleftrightarrow>
     (\<forall>n ds. hm_get (ts_cache st) n = Some ds \<longrightarrow> hm_get g n = Some ds)
   \<and> distinct (map fst (ts_stack st) @ ts_result st)
   \<and> (\<forall>n. colour_of st n = (if n \<in> fst ` set (ts_stack st) then 1 else if n \<in> set (ts_result st) then 2 else 0))
   \<and> topo_ordered g (ts_result st) \<and> frames_ok g (set (ts_result st)) (ts_stack st) \<and> top_ok g (set (ts_result st)) (ts_stack st)
   \<and> name \<in> fst ` set (ts_stack st) \<union> set (ts_result st)
   \<and> (\<forall>n \<in> fst ` set (ts_stack st) \<union> set (ts_result st). (dep_edge g)\<^sup>*\<^sup>* name n)"

lemma frames_ok_top:
  assumes "frames_ok g B ((node, idx) # rest)"
  shows "top_ok g (insert node B) rest"
proof (cases rest)
  case (Cons fr' rest')
  obtain p j where p: "fr' = (p, j)" by fastforce
  from assms obtain ds where ds: "hm_get g p = Some ds" "0 < j" "j \<le> length ds" "ds ! (j - 1) = node" "set (take (j - 1) ds) \<subseteq> B"
    unfolding Cons p by auto
  have "take j ds = take (j - 1) ds @ [node]" using ds take_Suc_conv_app_nth [of "j - 1" ds] by simp
  then show ?thesis using ds by (auto simp: top_ok_def Cons p)
qed (simp add: top_ok_def)

lemma topo_step_inv:
  assumes step: "topo_step g name st = Inr st'" and inv: "topo_inv g name st"
  shows "topo_inv g name st'"
  using step
proof (cases rule: topo_step_cases)
  case (scan node idx rest deps st1)
  let ?B = "set (ts_result st)"
  have g: "hm_get g node = Some deps" using scan(2) inv by (auto simp: topo_inv_def split: option.splits)
  have cache: "\<forall>n ds. hm_get (ts_cache st1) n = Some ds \<longrightarrow> hm_get g n = Some ds"
    using inv g by (auto simp: scan(3) topo_inv_def split: if_splits)
  have fr: "frames_ok g ?B ((node, idx) # rest)" and top: "idx \<le> length deps" "set (take idx deps) \<subseteq> ?B"
    using inv g by (auto simp: topo_inv_def scan(1) top_ok_def)
  have dist: "distinct (node # map fst rest @ ts_result st)" and to: "topo_ordered g (ts_result st)"
    and col: "\<And>n. colour_of st n = (if n \<in> insert node (fst ` set rest) then 1 else if n \<in> ?B then 2 else 0)"
    and nm: "name \<in> insert node (fst ` set rest) \<union> ?B"
    and re: "\<And>n. n \<in> insert node (fst ` set rest) \<union> ?B \<Longrightarrow> (dep_edge g)\<^sup>*\<^sup>* name n"
    using inv by (auto simp: topo_inv_def scan(1))
  have r1: "ts_result st1 = ts_result st" "ts_colour st1 = ts_colour st" by (simp_all add: scan(3))
  consider (black) "idx < length deps" "colour_of st (deps ! idx) = 2" "st' = st1\<lparr>ts_stack := (node, idx + 1) # rest\<rparr>"
    | (push) "idx < length deps" "colour_of st (deps ! idx) \<notin> {1, 2}"
        "st' = st1\<lparr>ts_colour := hm_insert (deps ! idx) 1 (ts_colour st), ts_stack := (deps ! idx, 0) # (node, idx + 1) # rest\<rparr>"
    | (pop) "\<not> idx < length deps"
        "st' = st1\<lparr>ts_stack := rest, ts_colour := hm_insert node 2 (ts_colour st), ts_result := ts_result st @ [node]\<rparr>"
    using scan(4) by (auto split: if_splits)
  then show ?thesis
  proof cases
    case black
    have "deps ! idx \<in> ?B" using black(2) col [of "deps ! idx"] by (auto split: if_splits)
    then have "top_ok g ?B ((node, idx + 1) # rest)" using g top black(1) by (simp add: top_ok_def take_Suc_conv_app_nth)
    moreover have "colour_of st' n = colour_of st n" for n by (simp add: black(3) r1 colour_of_def)
    ultimately show ?thesis
      using cache dist to col nm re fr frames_ok_index [of g ?B node idx rest "idx + 1"]
      by (simp add: topo_inv_def black(3) r1)
  next
    case push
    have w: "deps ! idx \<notin> insert node (fst ` set rest) \<union> ?B" using push(2) col [of "deps ! idx"] by (auto split: if_splits)
    have c: "colour_of st' n = (if n = deps ! idx then 1 else colour_of st n)" for n by (simp add: push(3) colour_of_def)
    have "frames_ok g ?B ((node, idx + 1) # rest)" using fr frames_ok_index by blast
    then have f: "frames_ok g ?B ((deps ! idx, 0) # (node, idx + 1) # rest)" using g top push(1) by simp
    have t: "top_ok g ?B ((deps ! idx, 0) # (node, idx + 1) # rest)" by (simp add: top_ok_def split: option.split)
    have "dep_edge g node (deps ! idx)" using g push(1) by (auto simp: dep_edge_def)
    then have "(dep_edge g)\<^sup>*\<^sup>* name (deps ! idx)" using re [of node] by (simp add: rtranclp.rtrancl_into_rtrancl)
    then show ?thesis
      using cache dist to nm re w f t unfolding topo_inv_def c by (auto simp: push(3) r1 col)
  next
    case pop
    have sub: "set deps \<subseteq> ?B" using top pop(1) by simp
    have c: "colour_of st' n = (if n = node then 2 else colour_of st n)" for n by (simp add: pop(2) colour_of_def)
    have f: "frames_ok g (insert node ?B) rest" using frames_ok_mono [OF frames_ok_tl [OF fr]] by blast
    note t = frames_ok_top [OF fr]
    have "topo_ordered g (ts_result st @ [node])" using to g sub by (simp add: topo_ordered_snoc)
    then show ?thesis
      using cache dist nm re f t unfolding topo_inv_def c by (auto simp: pop(2) r1 col)
  qed
qed simp_all

text \<open>What the search may answer.\<close>

definition topo_answer :: "(string, string list) hashmap \<Rightarrow> string \<Rightarrow> app_error + string list \<Rightarrow> bool" where
  "topo_answer g name r \<longleftrightarrow>
     (case r of
        Inr order \<Rightarrow> distinct order \<and> topo_ordered g order \<and> set order = {n. (dep_edge g)\<^sup>*\<^sup>* name n}
      | Inl e \<Rightarrow>
          (\<exists>n. e = DependencyNotRegistered n \<and> (dep_edge g)\<^sup>*\<^sup>* name n \<and> hm_get g n = None)
        \<or> (\<exists>n. e = CircularDependency (n @ '' (while resolving '' @ name @ '')'')
             \<and> (dep_edge g)\<^sup>*\<^sup>* name n \<and> (dep_edge g)\<^sup>+\<^sup>+ n n))"

lemma topo_step_answer:
  assumes step: "topo_step g name st = Inl r" and inv: "topo_inv g name st"
  shows "topo_answer g name r"
  using step
proof (cases rule: topo_step_cases)
  case finish
  have to: "topo_ordered g (ts_result st)" and nm: "name \<in> set (ts_result st)" and d: "distinct (ts_result st)"
    and re: "\<forall>n \<in> set (ts_result st). (dep_edge g)\<^sup>*\<^sup>* name n"
    using inv by (simp_all add: topo_inv_def finish(1))
  have "n \<in> set (ts_result st)" if "(dep_edge g)\<^sup>*\<^sup>* name n" for n
    using that by (induction rule: rtranclp_induct) (use nm topo_ordered_closed [OF to] in auto)
  then show ?thesis using finish(2) to d re by (auto simp: topo_answer_def)
next
  case (missing node idx rest)
  then show ?thesis using inv by (auto simp: topo_answer_def topo_inv_def)
next
  case (scan node idx rest deps st1)
  define err where "err = CircularDependency (deps ! idx @ '' (while resolving '' @ name @ '')'')"
  have e: "idx < length deps" "colour_of st (deps ! idx) = 1" "r = Inl err"
    using scan(4) unfolding err_def [symmetric] by (simp_all split: if_splits)
  have g: "hm_get g node = Some deps" using scan(2) inv by (auto simp: topo_inv_def split: option.splits)
  then have edge: "dep_edge g node (deps ! idx)" using e(1) by (auto simp: dep_edge_def)
  have fr: "frames_ok g (set (ts_result st)) ((node, idx) # rest)" using inv by (simp add: topo_inv_def scan(1))
  have "colour_of st (deps ! idx) = (if deps ! idx \<in> fst ` set (ts_stack st) then 1 else if deps ! idx \<in> set (ts_result st) then 2 else 0)"
    using inv unfolding topo_inv_def by blast
  then have "deps ! idx \<in> fst ` set (ts_stack st)"
    unfolding e(2) by (cases "deps ! idx \<in> fst ` set (ts_stack st)"; cases "deps ! idx \<in> set (ts_result st)") simp_all
  then have grey: "deps ! idx \<in> insert node (fst ` set rest)" unfolding scan(1) by simp
  have "(dep_edge g)\<^sup>+\<^sup>+ (deps ! idx) (deps ! idx)"
  proof (cases "deps ! idx = node")
    case True
    then show ?thesis using edge by auto
  next
    case False
    then have "(dep_edge g)\<^sup>+\<^sup>+ (deps ! idx) node" using grey frames_ok_reach [OF fr] by blast
    then show ?thesis using edge by (rule tranclp.trancl_into_trancl)
  qed
  moreover have "(dep_edge g)\<^sup>*\<^sup>* name (deps ! idx)" using inv \<open>deps ! idx \<in> fst ` set (ts_stack st)\<close> unfolding topo_inv_def by blast
  ultimately show ?thesis unfolding topo_answer_def e(3) err_def by auto
qed

lemma topo_loop_answer: "topo_inv g name st \<Longrightarrow> topo_answer g name (topo_loop g name st)"
proof (induction g name st rule: topo_loop.induct)
  case (1 g name st)
  show ?case
  proof (cases "topo_step g name st")
    case (Inl r)
    then show ?thesis using topo_step_answer 1(2) by (simp add: topo_loop.simps)
  next
    case (Inr st')
    then show ?thesis using 1(1) [OF Inr topo_step_inv [OF Inr 1(2)]] by (simp add: topo_loop.simps)
  qed
qed

lemma topo_inv_start:
  "topo_inv g name \<lparr>ts_colour = hm_insert name 1 [], ts_result = [], ts_stack = [(name, 0)], ts_cache = []\<rparr>"
  by (auto simp: topo_inv_def colour_of_def top_ok_def split: option.split)

text \<open>The dependencies that the registrations declare.\<close>

definition declared :: "('a, 'v, 'h) app_manager \<Rightarrow> (string, string list) hashmap" where
  "declared m = hm_map_values (\<lambda>reg. as_dependencies (reg_spec reg)) (am_registrations m)"

text \<open>
  C9: the dependency search always ends, and its answer is right: either a list of exactly the
  transitive dependencies of the application (itself included), without repetition and with every
  application after all its dependencies; or the name of a transitive dependency that is not
  registered; or a transitive dependency that depends on itself.
\<close>

theorem topological_sort_correct:
  "case topological_sort m name of
     Inr order \<Rightarrow> distinct order \<and> set order = {n. (dep_edge (declared m))\<^sup>*\<^sup>* name n} \<and> topo_ordered (declared m) order
   | Inl e \<Rightarrow>
       (\<exists>n. e = DependencyNotRegistered n \<and> (dep_edge (declared m))\<^sup>*\<^sup>* name n \<and> hm_get (declared m) n = None)
     \<or> (\<exists>n. e = CircularDependency (n @ '' (while resolving '' @ name @ '')'')
          \<and> (dep_edge (declared m))\<^sup>*\<^sup>* name n \<and> (dep_edge (declared m))\<^sup>+\<^sup>+ n n)"
proof -
  have "topo_answer (declared m) name (topological_sort m name)"
    unfolding topological_sort_def declared_def by (rule topo_loop_answer [OF topo_inv_start])
  then show ?thesis
    unfolding topo_answer_def by (cases "topological_sort m name") auto
qed

section \<open>Starting and stopping\<close>

definition manager_inv :: "('a, 'v, 'h) app_manager \<Rightarrow> bool" where
  "manager_inv m \<longleftrightarrow> distinct (am_start_order m) \<and> set (am_start_order m) = {n. is_running n m}"

lemma hm_get_insert_fun: "hm_get (hm_insert k v m) = (hm_get m)(k \<mapsto> v)"
  by (simp add: fun_eq_iff)

lemma app_start_Inr:
  assumes "app_start C name (m, w) = (Inr u, m', w')"
  shows "\<exists>reg ra. hm_get (am_registrations m) name = Some reg \<and> (\<forall>dep \<in> set (as_dependencies (reg_spec reg)). is_running dep m)
     \<and> hm_get (am_running m) name = None \<and> am_start_order m' = am_start_order m @ [name]
     \<and> hm_get (am_running m') = (hm_get (am_running m))(name \<mapsto> Running ra) \<and> am_registrations m' = am_registrations m"
  using assms
  by (auto simp: app_start_def start_reserve_def start_reserved_def Let_def is_running_def find_None_iff hm_get_insert_fun
      split: option.splits sum.splits prod.splits if_splits)

lemma app_start_Inl:
  assumes "app_start C name (m, w) = (Inl e, m', w')"
  shows "hm_get (am_running m') = hm_get (am_running m)" and "am_start_order m' = am_start_order m"
    and "am_registrations m' = am_registrations m"
  using assms
  by (auto simp: app_start_def start_reserve_def start_reserved_def start_release_def Let_def fun_eq_iff
      split: option.splits sum.splits prod.splits if_splits)

lemma app_stop_Running:
  assumes "hm_get (am_running m) name = Some (Running app)"
  shows "\<exists>m' w'. app_stop C name (m, w) = (Inr (), m', w')
     \<and> hm_get (am_running m') = (hm_get (am_running m))(name := None)
     \<and> am_start_order m' = filter (\<lambda>n. n \<noteq> name) (am_start_order m) \<and> am_registrations m' = am_registrations m"
  using assms by (auto simp: app_stop_def Let_def case_prod_beta fun_eq_iff)

text \<open>The manager after a list of applications has been started on top of \<open>m0\<close>.\<close>

definition extends :: "('a, 'v, 'h) app_manager \<Rightarrow> string list \<Rightarrow> ('a, 'v, 'h) app_manager \<Rightarrow> bool" where
  "extends m0 started m \<longleftrightarrow>
     distinct started \<and> am_start_order m = am_start_order m0 @ started \<and> am_registrations m = am_registrations m0
   \<and> (\<forall>n \<in> set started. hm_get (am_running m0) n = None \<and> n \<notin> set (am_start_order m0) \<and> is_running n m)
   \<and> (\<forall>n. n \<notin> set started \<longrightarrow> hm_get (am_running m) n = hm_get (am_running m0) n)"

lemma extendsI:
  assumes "distinct started" "am_start_order m = am_start_order m0 @ started" "am_registrations m = am_registrations m0"
    and "\<And>n. n \<in> set started \<Longrightarrow> hm_get (am_running m0) n = None \<and> n \<notin> set (am_start_order m0) \<and> is_running n m"
    and "\<And>n. n \<notin> set started \<Longrightarrow> hm_get (am_running m) n = hm_get (am_running m0) n"
  shows "extends m0 started m"
  using assms by (auto simp: extends_def)

lemma extends_running: "extends m0 started m \<Longrightarrow> is_running n m \<longleftrightarrow> is_running n m0 \<or> n \<in> set started"
  unfolding extends_def is_running_def by (cases "n \<in> set started") auto

lemma extends_start:
  assumes inv: "manager_inv m0" and ext: "extends m0 started m" and start: "app_start C name (m, w) = (Inr u, m', w')"
  shows "extends m0 (started @ [name]) m'"
proof -
  from app_start_Inr [OF start] obtain ra where s: "hm_get (am_running m) name = None" "am_start_order m' = am_start_order m @ [name]"
      "hm_get (am_running m') = (hm_get (am_running m))(name \<mapsto> Running ra)" "am_registrations m' = am_registrations m"
    by blast
  have fresh: "name \<notin> set started" using s(1) ext by (auto simp: extends_def is_running_def)
  then have z: "hm_get (am_running m0) name = None" using s(1) ext by (simp add: extends_def)
  then have "name \<notin> set (am_start_order m0)" using inv by (simp add: manager_inv_def is_running_def)
  then show ?thesis
    using s ext fresh z by (intro extendsI) (auto simp: extends_def is_running_def)
qed

lemma filter_without: "x \<notin> set xs \<Longrightarrow> filter (\<lambda>n. n \<noteq> x) xs = xs"
  by (rule filter_True) auto

lemma extends_stop:
  assumes ext: "extends m0 (started @ [name]) m"
  shows "\<exists>m' w'. app_stop C name (m, w) = (Inr (), m', w') \<and> extends m0 started m'"
proof -
  from ext obtain app where r: "hm_get (am_running m) name = Some (Running app)"
    unfolding extends_def is_running_def by (auto split: option.splits elim: is_Running.elims)
  from app_stop_Running [OF r, of C w] obtain m' w' where s: "app_stop C name (m, w) = (Inr (), m', w')"
      "hm_get (am_running m') = (hm_get (am_running m))(name := None)"
      "am_start_order m' = filter (\<lambda>n. n \<noteq> name) (am_start_order m)" "am_registrations m' = am_registrations m"
    by blast
  have "filter (\<lambda>n. n \<noteq> name) (am_start_order m0 @ started @ [name]) = am_start_order m0 @ started"
    using ext by (simp add: extends_def filter_without)
  then have "extends m0 started m'"
    using ext s by (intro extendsI) (auto simp: extends_def is_running_def)
  with s(1) show ?thesis by blast
qed

lemma rollback:
  "extends m0 started m \<Longrightarrow> \<exists>m' w'. fold (\<lambda>done mw. snd (app_stop C done mw)) (rev started) (m, w) = (m', w') \<and> extends m0 [] m'"
proof (induction started arbitrary: m w rule: rev_induct)
  case (snoc name started)
  from extends_stop [OF snoc.prems, of C w] obtain m' w' where "app_stop C name (m, w) = (Inr (), m', w')" "extends m0 started m'"
    by blast
  with snoc.IH [of m' w'] show ?case by simp
qed simp

lemma start_in_order_ok:
  assumes inv: "manager_inv m0"
  shows "extends m0 started m \<Longrightarrow> start_in_order C order started (m, w) = (r, m', w') \<Longrightarrow>
    (case r of Inr started' \<Rightarrow> extends m0 started' m' \<and> (\<forall>n \<in> set order. is_running n m') \<and> (\<forall>n. is_running n m \<longrightarrow> is_running n m')
     | Inl e \<Rightarrow> extends m0 [] m')"
proof (induction order arbitrary: started m w)
  case (Cons name order)
  show ?case
  proof (cases "is_running name m")
    case True
    with Cons show ?thesis by (fastforce split: sum.splits)
  next
    case False
    obtain r1 m1 w1 where s: "app_start C name (m, w) = (r1, m1, w1)" by (cases "app_start C name (m, w)") auto
    show ?thesis
    proof (cases r1)
      case (Inl e)
      have "extends m0 started m1"
        using Cons.prems(1) app_start_Inl [OF s [unfolded Inl]] by (simp add: extends_def is_running_def)
      from rollback [OF this, of C w1] False Cons.prems(2) s Inl show ?thesis by auto
    next
      case (Inr u)
      note ext = extends_start [OF inv Cons.prems(1) s [unfolded Inr]]
      have mono: "is_running n m \<Longrightarrow> is_running n m1" for n
        using extends_running [OF Cons.prems(1)] extends_running [OF ext] by auto
      have "is_running name m1" using extends_running [OF ext] by simp
      moreover have "start_in_order C order (started @ [name]) (m1, w1) = (r, m', w')"
        using Cons.prems(2) False s Inr by simp
      ultimately show ?thesis using Cons.IH [OF ext] mono by (fastforce split: sum.splits)
    qed
  qed
next
  case Nil
  then have "r = Inr started" "m' = m" by simp_all
  with Nil show ?case by simp
qed

text \<open>
  C17: \<open>ensure_all_started\<close> is all or nothing. When it succeeds, the application and all its transitive
  dependencies are running, exactly the applications it reports were started, none of them ran
  before, and they are recorded in order at the end of the start order. When it fails, for whatever
  reason, every application runs (or not) exactly as before and the start order is unchanged.
\<close>

theorem ensure_all_started_atomic:
  assumes "manager_inv m" and "ensure_all_started C name (m, w) = (r, m', w')"
  shows "case r of
      Inr started \<Rightarrow> {n. (dep_edge (declared m))\<^sup>*\<^sup>* name n} \<subseteq> {n. is_running n m'}
        \<and> {n. is_running n m'} = {n. is_running n m} \<union> set started \<and> set started \<inter> {n. is_running n m} = {}
        \<and> am_start_order m' = am_start_order m @ started
    | Inl e \<Rightarrow> hm_get (am_running m') = hm_get (am_running m) \<and> am_start_order m' = am_start_order m"
proof (cases "topological_sort m name")
  case (Inl e)
  then have "r = Inl e" "m' = m" using assms(2) by (simp_all add: ensure_all_started_def)
  then show ?thesis by simp
next
  case (Inr order)
  have ans: "topo_answer (declared m) name (topological_sort m name)"
    unfolding topological_sort_def declared_def by (rule topo_loop_answer [OF topo_inv_start])
  have start: "start_in_order C order [] (m, w) = (r, m', w')" using assms(2) Inr by (simp add: ensure_all_started_def)
  have "extends m [] m" by (simp add: extends_def)
  from start_in_order_ok [OF assms(1) this start] show ?thesis
  proof (cases r)
    case (Inl e)
    with start_in_order_ok [OF assms(1) \<open>extends m [] m\<close> start] show ?thesis by (auto simp: extends_def)
  next
    case (Inr started)
    with start_in_order_ok [OF assms(1) \<open>extends m [] m\<close> start]
    have ext: "extends m started m'" and run: "\<forall>n \<in> set order. is_running n m'" by auto
    have "set started \<inter> {n. is_running n m} = {}" using ext by (auto simp: extends_def is_running_def)
    moreover have "set order = {n. (dep_edge (declared m))\<^sup>*\<^sup>* name n}"
      using ans \<open>topological_sort m name = Inr order\<close> by (simp add: topo_answer_def)
    ultimately show ?thesis
      using ext run extends_running [OF ext] Inr by (auto simp: extends_def)
  qed
qed

definition sample_calls :: "(nat, nat, nat, string list) app_calls" where
  "sample_calls = \<lparr>call_start = (\<lambda>a env w. if a = 9 then (Inl (StartFailed ''no''), env, w) else (Inr a, env, w @ [''start''])),
     call_prep_stop = (\<lambda>a env w. (env, w @ [''prep''])), call_stop = (\<lambda>a env w. (env, w @ [''stop''])),
     call_shutdown = (\<lambda>h w. w @ [''shutdown''])\<rparr>"

text \<open>An application that fails to start, with a dependency that starts.\<close>

definition sample_manager :: "(nat, nat, nat) app_manager" where
  "sample_manager = app_register (app_dependency ''db'' (app_spec_new ''web'')) 9 (app_register (app_spec_new ''db'') 1 manager_new)"

lemma manager_new_inv: "manager_inv manager_new"
  by (simp add: manager_inv_def manager_new_def is_running_def)

lemma app_register_inv: "manager_inv m \<Longrightarrow> manager_inv (app_register spec app m)"
  by (simp add: manager_inv_def app_register_def is_running_def)

theorem ensure_all_started_atomic_witness:
  "\<exists>e m' w'. ensure_all_started sample_calls ''web'' (sample_manager, []) = (Inl e, m', w')
     \<and> hm_get (am_running m') = hm_get (am_running sample_manager) \<and> w' = [''start'', ''prep'', ''shutdown'', ''stop'']"
proof -
  have "manager_inv sample_manager" by (simp add: sample_manager_def app_register_inv manager_new_inv)
  moreover obtain e m' w' where e: "ensure_all_started sample_calls ''web'' (sample_manager, []) = (Inl e, m', w')"
      "w' = [''start'', ''prep'', ''shutdown'', ''stop'']"
    by (simp add: ensure_all_started_def topological_sort_def topo_loop.simps topo_step_def sample_manager_def app_register_def
        app_dependency_def app_spec_new_def manager_new_def hm_insert_def hm_get_def hm_map_values_def hm_contains_def colour_of_def
        app_start_def start_reserve_def start_reserved_def start_release_def is_running_def sample_calls_def app_stop_def hm_remove_def
        env_new_def Let_def)
  ultimately show ?thesis using ensure_all_started_atomic [of sample_manager sample_calls "''web''" "[]" "Inl e" m' w'] by simp
qed

text \<open>The invariant of the manager over every operation.\<close>

lemma app_start_inv: "manager_inv m \<Longrightarrow> app_start C name (m, w) = (r, m', w') \<Longrightarrow> manager_inv m'"
proof (cases r)
  case (Inl e)
  assume "manager_inv m" "app_start C name (m, w) = (r, m', w')"
  with Inl app_start_Inl [of C name m w e m' w'] show ?thesis by (simp add: manager_inv_def is_running_def)
next
  case (Inr u)
  assume inv: "manager_inv m" and s: "app_start C name (m, w) = (r, m', w')"
  have "extends m [] m" by (simp add: extends_def)
  from extends_start [OF inv this s [unfolded Inr]] have ext: "extends m [name] m'" by simp
  from inv ext extends_running [OF ext] show ?thesis by (auto simp: manager_inv_def extends_def)
qed

lemma app_stop_inv:
  assumes "manager_inv m" and "app_stop C name (m, w) = (r, m', w')"
  shows "manager_inv m'"
proof (cases "is_running name m")
  case True
  then obtain app where "hm_get (am_running m) name = Some (Running app)"
    unfolding is_running_def by (auto split: option.splits elim: is_Running.elims)
  from app_stop_Running [OF this, of C w] assms show ?thesis by (auto simp: manager_inv_def is_running_def)
next
  case False
  then have "m' = m" using assms(2) by (auto simp: app_stop_def is_running_def split: option.splits run_state.splits)
  with assms(1) show ?thesis by simp
qed

text \<open>The calls that stopping a running application makes.\<close>

definition stop_calls :: "('a, 'v, 'h, 'w) app_calls \<Rightarrow> ('a, 'v, 'h) run_state option \<Rightarrow> 'w \<Rightarrow> 'w" where
  "stop_calls C state w =
     (case state of
        Some (Running app) \<Rightarrow>
          let (env1, w1) = call_prep_stop C (ra_app app) (ra_env app) w in
          snd (call_stop C (ra_app app) env1 (call_shutdown C (ra_supervisor app) w1))
      | _ \<Rightarrow> w)"

lemma stop_all_loop:
  assumes "distinct order" and "\<forall>n \<in> set order. is_running n m"
  shows "\<exists>m'. fold (\<lambda>name (err, mw). case app_stop C name mw of
               (Inl e, mw1) \<Rightarrow> (case err of None \<Rightarrow> Some e | Some _ \<Rightarrow> err, mw1)
             | (Inr _, mw1) \<Rightarrow> (err, mw1)) order (None, m, w)
       = (None, m', fold (\<lambda>n. stop_calls C (hm_get (am_running m) n)) order w)
     \<and> am_start_order m' = filter (\<lambda>n. n \<notin> set order) (am_start_order m)
     \<and> (\<forall>n. hm_get (am_running m') n = (if n \<in> set order then None else hm_get (am_running m) n))"
  using assms
proof (induction order arbitrary: m w)
  case (Cons name order)
  from Cons.prems(2) obtain app where r: "hm_get (am_running m) name = Some (Running app)"
    unfolding is_running_def by (auto split: option.splits elim: is_Running.elims)
  define m1 where "m1 = m\<lparr>am_running := hm_remove name (am_running m), am_start_order := filter (\<lambda>n. n \<noteq> name) (am_start_order m)\<rparr>"
  have s: "app_stop C name (m, w) = (Inr (), m1, stop_calls C (hm_get (am_running m) name) w)"
    by (simp add: app_stop_def r m1_def stop_calls_def Let_def case_prod_beta)
  have "\<forall>n \<in> set order. is_running n m1" using Cons.prems by (auto simp: m1_def is_running_def)
  moreover have "hm_get (am_running m1) n = hm_get (am_running m) n" if "n \<in> set order" for n
    using that Cons.prems(1) by (auto simp: m1_def)
  then have "fold (\<lambda>n. stop_calls C (hm_get (am_running m1) n)) order v = fold (\<lambda>n. stop_calls C (hm_get (am_running m) n)) order v" for v
    by (intro fold_cong) auto
  moreover have "filter (\<lambda>n. n \<notin> set order) (am_start_order m1) = filter (\<lambda>n. n \<notin> set (name # order)) (am_start_order m)"
    by (simp add: m1_def filter_filter)
  ultimately show ?case
    using Cons.IH [of m1 "stop_calls C (hm_get (am_running m) name) w"] Cons.prems(1) s by (auto simp: m1_def)
qed simp

text \<open>
  \<open>stop_all\<close> stops every running application and succeeds; it calls the hooks of one application
  after the other in the exact reverse of the start order, each with the environment the application
  runs with, and leaves an empty start order.
\<close>

theorem stop_all_reverse:
  assumes "manager_inv m"
  shows "\<exists>m'. stop_all C (m, w) = (Inr (), m', fold (\<lambda>n. stop_calls C (hm_get (am_running m) n)) (rev (am_start_order m)) w)
    \<and> am_start_order m' = [] \<and> (\<forall>n. \<not> is_running n m')"
proof -
  have "distinct (rev (am_start_order m))" "\<forall>n \<in> set (rev (am_start_order m)). is_running n m"
    and iff: "\<And>n. n \<in> set (am_start_order m) \<longleftrightarrow> is_running n m"
    using assms by (auto simp: manager_inv_def)
  from stop_all_loop [OF this(1,2), of C w] show ?thesis
    using iff by (auto simp: stop_all_def is_running_def)
qed

theorem stop_all_reverse_witness:
  "\<exists>m'. stop_all sample_calls (snd (app_start sample_calls ''db'' (sample_manager, []))) = (Inr (), m', [''start'', ''prep'', ''shutdown'', ''stop''])"
proof -
  obtain m1 where s: "app_start sample_calls ''db'' (sample_manager, []) = (Inr (), m1, [''start''])"
      "hm_get (am_running m1) ''db'' = Some (Running \<lparr>ra_name = ''db'', ra_supervisor = 1, ra_env = [], ra_app = 1\<rparr>)" "am_start_order m1 = [''db'']"
    by (simp add: sample_manager_def app_register_def app_dependency_def app_spec_new_def manager_new_def hm_insert_def hm_get_def
        app_start_def start_reserve_def start_reserved_def sample_calls_def env_new_def Let_def)
  have "manager_inv m1"
    by (rule app_start_inv [OF _ s(1)]) (simp add: sample_manager_def app_register_inv manager_new_inv)
  from stop_all_reverse [OF this, of sample_calls "[''start'']"] s show ?thesis
    by (auto simp: stop_calls_def sample_calls_def)
qed

end
