(* ===== verification/Std.thy ===== *)
theory Std
  imports Prelude "HOL-Library.Multiset"
begin

text \<open>
  Operations of the Rust standard library on integers, vectors and iterators that several components use, with the facts
  about them that the proofs share.
\<close>

section \<open>Integers\<close>

definition u64_saturating_sub :: "u64 \<Rightarrow> u64 \<Rightarrow> u64" where
  "u64_saturating_sub a b = (if b \<le> a then a - b else 0)"

definition u64_saturating_mul :: "u64 \<Rightarrow> u64 \<Rightarrow> u64" where
  "u64_saturating_mul a b = (if unat a * unat b < 2 ^ 64 then a * b else u64_max)"

text \<open>\<open>u64::try_from\<close> of a wider integer, with the default of \<open>unwrap_or\<close>.\<close>

definition u64_try_from_or :: "nat \<Rightarrow> u64 \<Rightarrow> u64" where
  "u64_try_from_or n d = (if n < 2 ^ 64 then word_of_nat n else d)"

section \<open>Vectors and iterators\<close>

text \<open>\<open>Iterator::position\<close> and \<open>Vec::swap_remove\<close>.\<close>

fun position :: "('a \<Rightarrow> bool) \<Rightarrow> 'a list \<Rightarrow> nat option" where
  "position P [] = None"
| "position P (x # xs) = (if P x then Some 0 else map_option Suc (position P xs))"

definition swap_remove :: "nat \<Rightarrow> 'a list \<Rightarrow> 'a list" where
  "swap_remove i xs = butlast (xs[i := last xs])"

text \<open>\<open>iter_mut().find(p)\<close> followed by an update of the worker found.\<close>

fun update_first :: "('a \<Rightarrow> bool) \<Rightarrow> ('a \<Rightarrow> 'a) \<Rightarrow> 'a list \<Rightarrow> 'a list" where
  "update_first P f [] = []"
| "update_first P f (x # xs) = (if P x then f x # xs else x # update_first P f xs)"

lemma length_update_first [simp]: "length (update_first P f xs) = length xs"
  by (induction xs) auto

lemma unat_u64_saturating_sub: "unat (u64_saturating_sub a b) = unat a - unat b"
  by (simp add: u64_saturating_sub_def word_le_nat_alt unat_sub_if')

lemma position_Some: "position P xs = Some i \<Longrightarrow> i < length xs \<and> P (xs ! i)"
  by (induction xs arbitrary: i) (auto split: if_splits)

lemma position_None: "position P xs = None \<longleftrightarrow> (\<forall>x \<in> set xs. \<not> P x)"
  by (induction xs) auto

lemma mset_swap_remove: "i < length xs \<Longrightarrow> mset (swap_remove i xs) = mset xs - {#xs ! i#}"
proof -
  assume i: "i < length xs"
  then have ne: "xs[i := last xs] \<noteq> []" by auto
  have l: "last (xs[i := last xs]) = last xs" using i by (cases xs rule: rev_cases) (auto simp: list_update_append split: nat.split)
  have "mset (xs[i := last xs]) = mset (butlast (xs[i := last xs])) + {#last xs#}"
    using append_butlast_last_id [OF ne] l by (metis mset.simps mset_append add.right_neutral)
  moreover have "mset (xs[i := last xs]) = add_mset (last xs) (mset xs - {#xs ! i#})"
    using i by (simp add: mset_update)
  ultimately show ?thesis by (simp add: swap_remove_def)
qed

lemma swap_remove_length: "i < length xs \<Longrightarrow> length (swap_remove i xs) = length xs - 1"
  by (simp add: swap_remove_def)

lemma min_by_key_first:
  "min_by_key f xs = Some x \<Longrightarrow> \<exists>ys zs. xs = ys @ x # zs \<and> (\<forall>y \<in> set ys. f x < f y) \<and> (\<forall>z \<in> set zs. f x \<le> f z)"
proof (induction xs arbitrary: x rule: rev_induct)
  case (snoc a xs)
  show ?case
  proof (cases "min_by_key f xs")
    case None
    with snoc.prems show ?thesis by (intro exI [of _ "[]"]) (simp add: min_by_key_snoc)
  next
    case (Some b)
    from snoc.IH [OF this] obtain ys zs where i: "xs = ys @ b # zs" "\<forall>y \<in> set ys. f b < f y" "\<forall>z \<in> set zs. f b \<le> f z" by auto
    show ?thesis
    proof (cases "f a < f b")
      case True
      have "\<forall>y \<in> set xs. f a < f y" using True i by (auto intro: less_trans less_le_trans)
      moreover have "x = a" using True Some snoc.prems by (simp add: min_by_key_snoc)
      ultimately show ?thesis by (intro exI [of _ xs] exI [of _ "[]"]) simp
    next
      case False
      then have "x = b" using Some snoc.prems by (simp add: min_by_key_snoc)
      then show ?thesis using False i by (intro exI [of _ ys] exI [of _ "zs @ [a]"]) auto
    qed
  qed
qed simp

lemma enumerate_split:
  assumes "List.enumerate n xs = ys @ (i, x) # zs"
  shows "xs = map snd ys @ x # map snd zs" and "i = n + length ys"
proof -
  from assms have "map snd (List.enumerate n xs) = map snd (ys @ (i, x) # zs)" by simp
  then show "xs = map snd ys @ x # map snd zs" by simp
  from assms have "map fst (List.enumerate n xs) ! length ys = map fst (ys @ (i, x) # zs) ! length ys" by simp
  moreover have "length ys < length xs" using arg_cong [OF assms, of length] by simp
  ultimately show "i = n + length ys" by (simp add: map_fst_enumerate nth_append)
qed

lemma update_first_split:
  assumes "\<exists>x \<in> set xs. P x"
  obtains ys x zs where "xs = ys @ x # zs" and "P x" and "\<forall>y \<in> set ys. \<not> P y" and "update_first P f xs = ys @ f x # zs"
proof -
  from split_list_first_prop [OF assms] obtain ys x zs where s: "xs = ys @ x # zs" "P x" "\<forall>y \<in> set ys. \<not> P y" by blast
  have "update_first P f (ys @ x # zs) = ys @ f x # zs" using s(2,3) by (induction ys) auto
  with s that show thesis by blast
qed

lemma update_first_none: "\<forall>x \<in> set xs. \<not> P x \<Longrightarrow> update_first P f xs = xs"
  by (induction xs) auto

end
