(* ===== verification/Pg.thy ===== *)
theory Pg
  imports Router Std
begin

text \<open>
  Process groups (\<^verbatim>\<open>crates/rebar-core/src/pg/scope.rs\<close>). A scope is a concurrent map from group names to
  member lists. Each access to the map is one atomic step; \<open>leave\<close>, \<open>remove_pid\<close> and \<open>remove_node\<close>
  take two, which are definitions of their own so that another task can be placed between them. The
  abstract view of a scope is a multiset of members per group.
\<close>

section \<open>The scope\<close>

datatype pg_error = NotJoined

datatype pg_event = PgJoin string "process_id list" | PgLeave string "process_id list"

type_synonym pg_scope = "(string, process_id list) hashmap"

definition pg_new :: pg_scope where
  "pg_new = []"

definition get_members :: "string \<Rightarrow> pg_scope \<Rightarrow> process_id list" where
  "get_members grp scope = (case hm_get scope grp of Some members \<Rightarrow> members | None \<Rightarrow> [])"

definition pg_join :: "string \<Rightarrow> process_id \<Rightarrow> pg_scope \<Rightarrow> pg_scope" where
  "pg_join grp pid scope = hm_push grp pid scope"

definition join_many :: "string \<Rightarrow> process_id list \<Rightarrow> pg_scope \<Rightarrow> pg_scope" where
  "join_many grp pids scope = hm_insert grp ((case hm_get scope grp of Some members \<Rightarrow> members | None \<Rightarrow> []) @ pids) scope"

text \<open>
  \<open>leave\<close> up to the release of the entry: the flag says that the group has become empty. The second
  step removes the group, whatever it holds by then.
\<close>

definition leave_entry :: "string \<Rightarrow> process_id \<Rightarrow> pg_scope \<Rightarrow> (pg_error + bool) \<times> pg_scope" where
  "leave_entry grp pid scope =
     (case hm_get scope grp of
        None \<Rightarrow> (Inl NotJoined, scope)
      | Some members \<Rightarrow>
          (case position (\<lambda>p. p = pid) members of
             None \<Rightarrow> (Inl NotJoined, scope)
           | Some pos \<Rightarrow>
               let members' = swap_remove pos members in
               (Inr (members' = []), hm_insert grp members' scope)))"

definition leave_drop :: "string \<Rightarrow> pg_scope \<Rightarrow> pg_scope" where
  "leave_drop grp scope = hm_remove grp scope"

definition pg_leave :: "string \<Rightarrow> process_id \<Rightarrow> pg_scope \<Rightarrow> (pg_error + unit) \<times> pg_scope" where
  "pg_leave grp pid scope =
     (case leave_entry grp pid scope of
        (Inl e, scope') \<Rightarrow> (Inl e, scope')
      | (Inr emptied, scope') \<Rightarrow> (Inr (), if emptied then leave_drop grp scope' else scope'))"

definition get_local_members :: "string \<Rightarrow> u64 \<Rightarrow> pg_scope \<Rightarrow> process_id list" where
  "get_local_members grp node scope =
     (case hm_get scope grp of Some members \<Rightarrow> filter (\<lambda>p. pid_node_id p = node) members | None \<Rightarrow> [])"

definition which_groups :: "(pg_scope \<Rightarrow> pg_scope) \<Rightarrow> pg_scope \<Rightarrow> string list" where
  "which_groups ord scope = map fst (ord scope)"

text \<open>\<open>remove_pid\<close> and \<open>remove_node\<close>: the sweep over the entries, then the removal of the groups found empty, if they still are.\<close>

definition sweep :: "(process_id \<Rightarrow> bool) \<Rightarrow> pg_scope \<Rightarrow> string list \<times> pg_scope" where
  "sweep keep scope =
     (let scope' = hm_map_values (filter keep) scope in
      (map fst (filter (\<lambda>(_, members). members = []) scope'), scope'))"

definition drop_if_empty :: "string list \<Rightarrow> pg_scope \<Rightarrow> pg_scope" where
  "drop_if_empty groups scope =
     fold (\<lambda>grp scope. if hm_get scope grp = Some [] then hm_remove grp scope else scope) groups scope"

definition pg_remove_pid :: "process_id \<Rightarrow> pg_scope \<Rightarrow> pg_scope" where
  "pg_remove_pid pid scope = (let (groups, scope') = sweep (\<lambda>p. p \<noteq> pid) scope in drop_if_empty groups scope')"

definition pg_remove_node :: "u64 \<Rightarrow> pg_scope \<Rightarrow> pg_scope" where
  "pg_remove_node node scope = (let (groups, scope') = sweep (\<lambda>p. pid_node_id p \<noteq> node) scope in drop_if_empty groups scope')"

definition pg_broadcast ::
  "(process_id \<Rightarrow> process_id \<Rightarrow> 'v \<Rightarrow> 's \<Rightarrow> ((send_error + unit) \<times> 's) option)
     \<Rightarrow> string \<Rightarrow> process_id \<Rightarrow> 'v \<Rightarrow> pg_scope \<Rightarrow> 's \<Rightarrow> ((send_error + unit) list \<times> 's) option" where
  "pg_broadcast route grp from p scope s =
     route_all route (map (\<lambda>dest. (from, dest, p)) (get_members grp scope)) s"

definition member_count :: "string \<Rightarrow> pg_scope \<Rightarrow> usize" where
  "member_count grp scope = (case hm_get scope grp of Some members \<Rightarrow> length members | None \<Rightarrow> 0)"

section \<open>Refinement of multisets\<close>

definition pg_abs :: "pg_scope \<Rightarrow> string \<Rightarrow> process_id multiset" where
  "pg_abs scope grp = mset (get_members grp scope)"

definition pg_wf :: "pg_scope \<Rightarrow> bool" where
  "pg_wf scope \<longleftrightarrow> hm_wf scope \<and> (\<forall>grp. hm_get scope grp \<noteq> Some [])"

lemma get_members_insert [simp]: "get_members g (hm_insert k v s) = (if g = k then v else get_members g s)"
  by (simp add: get_members_def)

lemma get_members_remove [simp]: "get_members g (hm_remove k s) = (if g = k then [] else get_members g s)"
  by (simp add: get_members_def)

lemma drop_if_empty_members [simp]: "get_members g (drop_if_empty groups scope) = get_members g scope"
  unfolding drop_if_empty_def
  by (induction groups arbitrary: scope) (auto simp: get_members_def)

lemma drop_if_empty_wf: "hm_wf scope \<Longrightarrow> hm_wf (drop_if_empty groups scope)"
  unfolding drop_if_empty_def by (induction groups arbitrary: scope) (auto intro: wf_intros)

lemma drop_if_empty_get:
  "hm_get (drop_if_empty groups scope) g = (if g \<in> set groups \<and> hm_get scope g = Some [] then None else hm_get scope g)"
  unfolding drop_if_empty_def by (induction groups arbitrary: scope) auto

lemma sweep_remove:
  assumes "sweep keep scope = (groups, scope')" and "pg_wf scope"
  shows "get_members g (drop_if_empty groups scope') = filter keep (get_members g scope)" and "pg_wf (drop_if_empty groups scope')"
proof -
  have s: "scope' = hm_map_values (filter keep) scope" "groups = map fst (filter (\<lambda>(_, ms). ms = []) scope')"
    using assms(1) by (auto simp: sweep_def Let_def)
  show "get_members g (drop_if_empty groups scope') = filter keep (get_members g scope)"
    unfolding drop_if_empty_members by (auto simp: s(1) get_members_def split: option.split)
  have w: "hm_wf scope'" using assms(2) by (simp add: s(1) pg_wf_def hm_wf_map_values)
  moreover have "g \<in> set groups" if "hm_get scope' g = Some []" for g
    using hm_get_in_set [OF that] by (force simp: s(2))
  ultimately show "pg_wf (drop_if_empty groups scope')"
    by (auto simp: pg_wf_def drop_if_empty_wf drop_if_empty_get)
qed

text \<open>The operations that change a scope, and their abstract counterparts.\<close>

datatype pg_op = OpJoin string process_id | OpJoinMany string "process_id list" | OpLeave string process_id
  | OpRemovePid process_id | OpRemoveNode u64

fun pg_apply :: "pg_op \<Rightarrow> pg_scope \<Rightarrow> pg_scope" where
  "pg_apply (OpJoin g p) s = pg_join g p s"
| "pg_apply (OpJoinMany g ps) s = join_many g ps s"
| "pg_apply (OpLeave g p) s = snd (pg_leave g p s)"
| "pg_apply (OpRemovePid p) s = pg_remove_pid p s"
| "pg_apply (OpRemoveNode n) s = pg_remove_node n s"

fun pg_spec :: "pg_op \<Rightarrow> (string \<Rightarrow> process_id multiset) \<Rightarrow> string \<Rightarrow> process_id multiset" where
  "pg_spec (OpJoin g p) A = A(g := add_mset p (A g))"
| "pg_spec (OpJoinMany g ps) A = A(g := A g + mset ps)"
| "pg_spec (OpLeave g p) A = A(g := A g - {#p#})"
| "pg_spec (OpRemovePid p) A = (\<lambda>g. filter_mset (\<lambda>q. q \<noteq> p) (A g))"
| "pg_spec (OpRemoveNode n) A = (\<lambda>g. filter_mset (\<lambda>q. pid_node_id q \<noteq> n) (A g))"

lemma leave_entry_cases:
  assumes "pg_wf s"
  obtains (absent) "pg_leave g p s = (Inl NotJoined, s)" and "p \<notin> set (get_members g s)"
    | (present) pos where "pos < length (get_members g s)" and "get_members g s ! pos = p"
        and "pg_leave g p s = (Inr (), if swap_remove pos (get_members g s) = [] then leave_drop g (hm_insert g (swap_remove pos (get_members g s)) s)
              else hm_insert g (swap_remove pos (get_members g s)) s)"
proof (cases "position (\<lambda>q. q = p) (get_members g s)")
  case None
  have "pg_leave g p s = (Inl NotJoined, s)"
    using None by (auto simp: pg_leave_def leave_entry_def get_members_def split: option.splits)
  with None absent show thesis by (auto simp: position_None)
next
  case (Some pos)
  then have "hm_get s g = Some (get_members g s)" by (auto simp: get_members_def split: option.splits)
  with Some present [of pos] position_Some [OF Some] show thesis
    by (simp add: pg_leave_def leave_entry_def Let_def)
qed

lemma pg_apply_wf:
  assumes "pg_wf s" and "\<And>g. op \<noteq> OpJoinMany g []"
  shows "pg_wf (pg_apply op s)"
proof (cases op)
  case (OpLeave g p)
  from assms(1) show ?thesis
    by (cases rule: leave_entry_cases [where g = g and p = p])
       (use OpLeave assms(1) in \<open>auto simp: leave_drop_def pg_wf_def intro: wf_intros split: if_splits\<close>)
next
  case (OpRemovePid p)
  obtain gs s' where s: "sweep (\<lambda>q. q \<noteq> p) s = (gs, s')" by fastforce
  from sweep_remove(2) [OF s assms(1)] s show ?thesis by (simp add: OpRemovePid pg_remove_pid_def)
next
  case (OpRemoveNode n)
  obtain gs s' where s: "sweep (\<lambda>q. pid_node_id q \<noteq> n) s = (gs, s')" by fastforce
  from sweep_remove(2) [OF s assms(1)] s show ?thesis by (simp add: OpRemoveNode pg_remove_node_def)
qed (use assms in \<open>auto simp: pg_join_def join_many_def hm_push_def pg_wf_def intro: wf_intros\<close>)

lemma pg_apply_refines:
  assumes "pg_wf s"
  shows "pg_abs (pg_apply op s) = pg_spec op (pg_abs s)"
proof (cases op)
  case (OpLeave g p)
  from assms show ?thesis
  proof (cases rule: leave_entry_cases [where g = g and p = p])
    case absent
    then show ?thesis using OpLeave by (simp add: pg_abs_def fun_eq_iff diff_single_trivial)
  next
    case (present pos)
    note m = mset_swap_remove [OF present(1), unfolded present(2)]
    show ?thesis
    proof (cases "swap_remove pos (get_members g s) = []")
      case True
      then have "mset (get_members g s) - {#p#} = {#}" using m by simp
      then show ?thesis using OpLeave present(3) True by (auto simp: pg_abs_def leave_drop_def fun_eq_iff)
    next
      case False
      then show ?thesis using OpLeave present(3) m by (simp add: pg_abs_def fun_eq_iff)
    qed
  qed
next
  case (OpRemovePid p)
  obtain gs s' where s: "sweep (\<lambda>q. q \<noteq> p) s = (gs, s')" by fastforce
  from sweep_remove(1) [OF s assms] s show ?thesis by (auto simp: OpRemovePid pg_remove_pid_def pg_abs_def fun_eq_iff)
next
  case (OpRemoveNode n)
  obtain gs s' where s: "sweep (\<lambda>q. pid_node_id q \<noteq> n) s = (gs, s')" by fastforce
  from sweep_remove(1) [OF s assms] s show ?thesis by (auto simp: OpRemoveNode pg_remove_node_def pg_abs_def fun_eq_iff)
qed (auto simp: pg_join_def join_many_def hm_push_def pg_abs_def get_members_def fun_eq_iff split: option.splits)



section \<open>Two tasks at once\<close>

text \<open>
  A join can be lost. When the last member of a group leaves and another process joins between the
  two steps of \<open>leave\<close>, the second step removes the group with the new member in it; in the same
  place of \<open>remove_pid\<close> the member survives.
\<close>

theorem leave_loses_join:
  assumes "get_members g s = [p]" and "q \<noteq> p"
  shows "fst (leave_entry g p s) = Inr True
    \<and> q \<in> set (get_members g (pg_join g q (snd (leave_entry g p s))))
    \<and> get_members g (leave_drop g (pg_join g q (snd (leave_entry g p s)))) = []
    \<and> get_members g (drop_if_empty (fst (sweep (\<lambda>x. x \<noteq> p) s)) (pg_join g q (snd (sweep (\<lambda>x. x \<noteq> p) s)))) = [q]"
proof -
  have h: "hm_get s g = Some [p]" using assms(1) by (auto simp: get_members_def split: option.splits)
  then have "hm_get (hm_map_values (filter (\<lambda>x. x \<noteq> p)) s) g = Some []" by simp
  with h show ?thesis
    by (simp add: leave_entry_def swap_remove_def pg_join_def hm_push_def leave_drop_def sweep_def Let_def)
qed

theorem leave_loses_join_witness:
  "get_members ''g'' (leave_drop ''g'' (pg_join ''g'' (process_id_new 1 2)
     (snd (leave_entry ''g'' (process_id_new 1 1) [(''g'', [process_id_new 1 1])])))) = []"
proof -
  have "get_members ''g'' [(''g'', [process_id_new 1 1])] = [process_id_new 1 1]" "process_id_new 1 2 \<noteq> process_id_new 1 1"
    by (simp_all add: get_members_def hm_get_def process_id_new_def)
  from leave_loses_join [OF this] show ?thesis by blast
qed

section \<open>Broadcast\<close>

context message_router
begin

text \<open>A member receives a broadcast once per membership whose send was accepted.\<close>

lemma broadcast_handed:
  assumes "pg_broadcast route grp src p scope s = Some (rs, s')"
  shows "length rs = member_count grp scope"
    and "handed s' q = handed s q @ accepted_for q (map (\<lambda>dest. (src, dest, p)) (get_members grp scope)) rs"
  using routed_in_order [OF assms [unfolded pg_broadcast_def], of q]
  by (auto simp: member_count_def get_members_def split: option.splits)

end

end
