(* ===== verification/Connection.thy ===== *)
theory Connection
  imports Frame
begin

text \<open>
  The connection manager (\<^verbatim>\<open>crates/rebar-cluster/src/connection/manager.rs\<close>). The transport is outside the
  model: a record \<open>transport\<close> of its operations, which act on a world of type \<open>'w\<close>, is an argument. A
  connection is a value of type \<open>'n\<close>, a transport error one of type \<open>'e\<close>.
\<close>

section \<open>Types\<close>

record ('v, 'n, 'e, 'w) transport =
  connect_to :: "socket_addr \<Rightarrow> 'w \<Rightarrow> ('e + 'n) \<times> 'w"
  conn_send :: "'v frame \<Rightarrow> 'n \<Rightarrow> 'w \<Rightarrow> ('e + unit) \<times> 'n \<times> 'w"
  conn_close :: "'n \<Rightarrow> 'w \<Rightarrow> 'w"

datatype 'e connection_error = Transport 'e | UnknownNode u64 | AlreadyConnected u64 | GaveUp u64

datatype connection_event = NodeDown u64 | ReconnectTriggered u64 | ReconnectGaveUp u64

record reconnect_policy =
  base_delay :: duration
  max_delay :: duration
  max_attempts :: u32

definition reconnect_policy_default :: reconnect_policy where
  "reconnect_policy_default = \<lparr>base_delay = from_secs 1, max_delay = from_secs 30, max_attempts = 10\<rparr>"

text \<open>\<open>Duration::MAX\<close> and \<open>Duration::saturating_mul\<close>.\<close>

definition DURATION_MAX :: duration where
  "DURATION_MAX = (2 ^ 64 - 1) * 1000000000 + 999999999"

definition duration_saturating_mul :: "duration \<Rightarrow> u32 \<Rightarrow> duration" where
  "duration_saturating_mul d k = min (d * unat k) DURATION_MAX"

definition u64_saturating_pow2 :: "u32 \<Rightarrow> u64" where
  "u64_saturating_pow2 n = (if unat n < 64 then 2 ^ unat n else u64_max)"

definition u32_try_from :: "u64 \<Rightarrow> u32 option" where
  "u32_try_from x = (if unat x < 2 ^ 32 then Some (ucast x) else None)"

definition backoff_delay :: "reconnect_policy \<Rightarrow> u32 \<Rightarrow> duration" where
  "backoff_delay policy attempt =
     (let multiplier = u64_saturating_pow2 attempt;
          multiplier = (case u32_try_from multiplier of Some m \<Rightarrow> m | None \<Rightarrow> - 1);
          delay = duration_saturating_mul (base_delay policy) multiplier in
      if delay > max_delay policy then max_delay policy else delay)"

record 'n connection_manager =
  connections :: "(u64, 'n) hashmap"
  addresses :: "(u64, socket_addr) hashmap"
  cm_policy :: reconnect_policy
  cm_events :: "connection_event list"
  reconnect_attempts :: "(u64, u32) hashmap"

section \<open>Operations\<close>

definition with_reconnect_policy :: "reconnect_policy \<Rightarrow> 'n connection_manager" where
  "with_reconnect_policy policy =
     \<lparr>connections = [], addresses = [], cm_policy = policy, cm_events = [], reconnect_attempts = []\<rparr>"

definition connection_manager_new :: "'n connection_manager" where
  "connection_manager_new =
     \<lparr>connections = [], addresses = [], cm_policy = reconnect_policy_default, cm_events = [], reconnect_attempts = []\<rparr>"

definition cm_connect ::
  "('v, 'n, 'e, 'w) transport \<Rightarrow> u64 \<Rightarrow> socket_addr \<Rightarrow> 'n connection_manager \<times> 'w
     \<Rightarrow> ('e connection_error + unit) \<times> 'n connection_manager \<times> 'w" where
  "cm_connect T node addr cw =
     (case cw of (cm, w) \<Rightarrow>
       case connect_to T addr w of
         (Inl e, w') \<Rightarrow> (Inl (Transport e), cm, w')
       | (Inr conn, w') \<Rightarrow>
           (Inr (), cm\<lparr>connections := hm_insert node conn (connections cm),
                       addresses := hm_insert node addr (addresses cm),
                       reconnect_attempts := hm_remove node (reconnect_attempts cm)\<rparr>, w'))"

definition cm_disconnect ::
  "('v, 'n, 'e, 'w) transport \<Rightarrow> u64 \<Rightarrow> 'n connection_manager \<times> 'w
     \<Rightarrow> ('e connection_error + unit) \<times> 'n connection_manager \<times> 'w" where
  "cm_disconnect T node cw =
     (case cw of (cm, w) \<Rightarrow>
       let w' = (case hm_get (connections cm) node of Some conn \<Rightarrow> conn_close T conn w | None \<Rightarrow> w) in
       (Inr (), cm\<lparr>connections := hm_remove node (connections cm), addresses := hm_remove node (addresses cm),
                   reconnect_attempts := hm_remove node (reconnect_attempts cm)\<rparr>, w'))"

definition cm_route ::
  "('v, 'n, 'e, 'w) transport \<Rightarrow> u64 \<Rightarrow> 'v frame \<Rightarrow> 'n connection_manager \<times> 'w
     \<Rightarrow> ('e connection_error + unit) \<times> 'n connection_manager \<times> 'w" where
  "cm_route T node f cw =
     (case cw of (cm, w) \<Rightarrow>
       case hm_get (connections cm) node of
         None \<Rightarrow> (Inl (UnknownNode node), cm, w)
       | Some conn \<Rightarrow>
           let (r, conn', w') = conn_send T f conn w;
               cm' = cm\<lparr>connections := hm_modify node (\<lambda>_. conn') (connections cm)\<rparr> in
           (case r of Inl e \<Rightarrow> (Inl (Transport e), cm', w') | Inr _ \<Rightarrow> (Inr (), cm', w')))"

definition is_connected :: "u64 \<Rightarrow> 'n connection_manager \<Rightarrow> bool" where
  "is_connected node cm = hm_contains node (connections cm)"

definition connection_count :: "'n connection_manager \<Rightarrow> usize" where
  "connection_count cm = length (connections cm)"

definition on_node_discovered ::
  "('v, 'n, 'e, 'w) transport \<Rightarrow> u64 \<Rightarrow> socket_addr \<Rightarrow> 'n connection_manager \<times> 'w
     \<Rightarrow> ('e connection_error + unit) \<times> 'n connection_manager \<times> 'w" where
  "on_node_discovered T node addr cw = (if is_connected node (fst cw) then (Inr (), cw) else cm_connect T node addr cw)"

definition on_connection_lost :: "u64 \<Rightarrow> 'n connection_manager \<Rightarrow> connection_event list \<times> 'n connection_manager" where
  "on_connection_lost node cm =
     (let cm1 = cm\<lparr>connections := hm_remove node (connections cm)\<rparr> in
      if hm_contains node (addresses cm1)
      then ([NodeDown node, ReconnectTriggered node], cm1\<lparr>reconnect_attempts := hm_insert node 0 (reconnect_attempts cm1)\<rparr>)
      else ([NodeDown node], cm1))"

definition attempt_reconnect ::
  "('v, 'n, 'e, 'w) transport \<Rightarrow> u64 \<Rightarrow> 'n connection_manager \<times> 'w
     \<Rightarrow> ('e connection_error + duration) \<times> 'n connection_manager \<times> 'w" where
  "attempt_reconnect T node cw =
     (case cw of (cm, w) \<Rightarrow>
       case hm_get (addresses cm) node of
         None \<Rightarrow> (Inl (UnknownNode node), cm, w)
       | Some addr \<Rightarrow>
           (case connect_to T addr w of
              (Inr conn, w1) \<Rightarrow>
                let w2 = (case hm_get (connections cm) node of Some old \<Rightarrow> conn_close T old w1 | None \<Rightarrow> w1) in
                (Inr 0, cm\<lparr>connections := hm_insert node conn (hm_remove node (connections cm)),
                           reconnect_attempts := hm_remove node (reconnect_attempts cm)\<rparr>, w2)
            | (Inl e, w1) \<Rightarrow>
                let attempts = (case hm_get (reconnect_attempts cm) node of Some n \<Rightarrow> n | None \<Rightarrow> 0) + 1;
                    cm1 = cm\<lparr>reconnect_attempts := hm_insert node attempts (reconnect_attempts cm)\<rparr> in
                if attempts \<ge> max_attempts (cm_policy cm1)
                then (Inl (GaveUp node), cm1\<lparr>addresses := hm_remove node (addresses cm1),
                        reconnect_attempts := hm_remove node (reconnect_attempts cm1)\<rparr>, w1)
                else (Inl (Transport e), cm1, w1)))"

definition reconnect_attempt_count :: "u64 \<Rightarrow> 'n connection_manager \<Rightarrow> u32" where
  "reconnect_attempt_count node cm = (case hm_get (reconnect_attempts cm) node of Some n \<Rightarrow> n | None \<Rightarrow> 0)"

definition next_backoff :: "u64 \<Rightarrow> 'n connection_manager \<Rightarrow> duration" where
  "next_backoff node cm =
     (let attempt = (case hm_get (reconnect_attempts cm) node of Some n \<Rightarrow> n | None \<Rightarrow> 0) in backoff_delay (cm_policy cm) attempt)"

text \<open>\<open>reap\<close>, in the iteration order \<open>ord\<close> of the attempt counters.\<close>

definition cm_reap ::
  "((u64, u32) hashmap \<Rightarrow> (u64, u32) hashmap) \<Rightarrow> u64 list \<Rightarrow> 'n connection_manager \<Rightarrow> u64 list \<times> 'n connection_manager" where
  "cm_reap ord stale cm =
     (let exhausted = map fst (filter (\<lambda>(_, n). n \<ge> max_attempts (cm_policy cm)) (ord (reconnect_attempts cm)));
          reaped = fold (\<lambda>i reaped. if \<not> hm_contains i (connections cm) \<and> i \<notin> set reaped then reaped @ [i] else reaped) stale exhausted in
      (reaped, cm\<lparr>addresses := fold hm_remove reaped (addresses cm),
                  reconnect_attempts := fold hm_remove reaped (reconnect_attempts cm)\<rparr>))"

definition drain_events :: "'n connection_manager \<Rightarrow> connection_event list \<times> 'n connection_manager" where
  "drain_events cm = (cm_events cm, cm\<lparr>cm_events := []\<rparr>)"

definition drain_connections ::
  "('v, 'n, 'e, 'w) transport \<Rightarrow> ((u64, 'n) hashmap \<Rightarrow> (u64, 'n) hashmap) \<Rightarrow> 'n connection_manager \<times> 'w
     \<Rightarrow> usize \<times> 'n connection_manager \<times> 'w" where
  "drain_connections T ord cw =
     (case cw of (cm, w) \<Rightarrow>
       let count = length (connections cm);
           (cs, w') = fold (\<lambda>node (cs, w). case hm_get cs node of
               Some conn \<Rightarrow> (hm_remove node cs, conn_close T conn w) | None \<Rightarrow> (cs, w))
             (map fst (ord (connections cm))) (connections cm, w) in
       (count, cm\<lparr>connections := cs, addresses := [], reconnect_attempts := []\<rparr>, w'))"

section \<open>Backoff\<close>

lemma unat_pow2_u64: "n < 64 \<Longrightarrow> unat (2 ^ n :: u64) = 2 ^ n"
proof -
  assume n: "n < 64"
  have "unat (2 ^ n :: u64) = unat (word_of_nat (2 ^ n) :: u64)" by simp
  also have "\<dots> = take_bit 64 (2 ^ n)" by (simp only: unsigned_of_nat) simp
  also have "\<dots> = 2 ^ n" using power_strict_increasing [OF n, of "2 :: nat"] by (intro take_bit_nat_eq_self) simp
  finally show ?thesis .
qed

text \<open>The factor that the code applies to the base delay: powers of two up to \<open>2 ^ 31\<close>, then \<open>u32::MAX\<close>.\<close>

definition backoff_factor :: "u32 \<Rightarrow> nat" where
  "backoff_factor attempt = (if unat attempt < 32 then 2 ^ unat attempt else 2 ^ 32 - 1)"

lemma backoff_multiplier:
  "unat (case u32_try_from (u64_saturating_pow2 attempt) of Some m \<Rightarrow> m | None \<Rightarrow> - 1) = backoff_factor attempt"
proof (cases "unat attempt < 32")
  case True
  have u: "unat (2 ^ unat attempt :: u64) = 2 ^ unat attempt" using True by (intro unat_pow2_u64) simp
  have lt: "(2 :: nat) ^ unat attempt < 2 ^ 32" using True by (intro power_strict_increasing) simp_all
  have "unat (ucast (2 ^ unat attempt :: u64) :: u32) = unat (2 ^ unat attempt :: u64) mod 2 ^ 32"
    by (simp add: unsigned_ucast_eq take_bit_eq_mod)
  then show ?thesis using True u lt by (simp add: u64_saturating_pow2_def u32_try_from_def backoff_factor_def)
next
  case False
  have "\<not> unat (u64_saturating_pow2 attempt) < 2 ^ 32"
  proof (cases "unat attempt < 64")
    case True
    have "(2 :: nat) ^ 32 \<le> 2 ^ unat attempt" using False by (intro power_increasing) simp_all
    then show ?thesis using True unat_pow2_u64 [OF True] by (simp add: u64_saturating_pow2_def)
  next
    case False
    then show ?thesis by (simp add: u64_saturating_pow2_def unat_u64_max)
  qed
  moreover have "unat (- 1 :: u32) = 2 ^ 32 - 1" by (simp add: unsigned_minus_1_eq_mask mask_eq_exp_minus_1)
  ultimately show ?thesis using False by (simp add: u32_try_from_def backoff_factor_def)
qed

lemma backoff_factor_mono: "a \<le> b \<Longrightarrow> backoff_factor a \<le> backoff_factor b"
proof -
  assume "a \<le> b"
  then have ab: "unat a \<le> unat b" by (simp add: word_le_nat_alt)
  show ?thesis
  proof (cases "unat b < 32")
    case True
    then show ?thesis using ab power_increasing [OF ab, of "2 :: nat"] by (simp add: backoff_factor_def)
  next
    case False
    have "(2 :: nat) ^ unat a \<le> 2 ^ 31" if "unat a < 32" using that by (intro power_increasing) simp_all
    then show ?thesis using False by (auto simp: backoff_factor_def)
  qed
qed

lemma backoff_delay_eq:
  "backoff_delay policy attempt = min (min (base_delay policy * backoff_factor attempt) DURATION_MAX) (max_delay policy)"
  unfolding backoff_delay_def Let_def duration_saturating_mul_def backoff_multiplier by (simp add: min_def)

text \<open>
  The backoff delay never exceeds the maximum and never shrinks with the attempt number; for the
  first 32 attempts it is exactly the documented \<open>min(base * 2^attempt, max)\<close>, and from then on the
  factor stays at \<open>u32::MAX\<close>.
\<close>

theorem backoff_bounds:
  assumes "max_delay policy \<le> DURATION_MAX"
  shows "backoff_delay policy attempt =
      min (base_delay policy * (if unat attempt < 32 then 2 ^ unat attempt else 2 ^ 32 - 1)) (max_delay policy)
    \<and> backoff_delay policy attempt \<le> max_delay policy
    \<and> (\<forall>later \<ge> attempt. backoff_delay policy attempt \<le> backoff_delay policy later)"
proof -
  have e: "backoff_delay policy a = min (base_delay policy * backoff_factor a) (max_delay policy)" for a
    using assms by (simp add: backoff_delay_eq min_def)
  have "backoff_delay policy attempt \<le> backoff_delay policy later" if "attempt \<le> later" for later
    unfolding e using backoff_factor_mono [OF that] by (intro min.mono mult_left_mono) simp_all
  then show ?thesis unfolding e by (simp add: backoff_factor_def)
qed

theorem backoff_bounds_witness: "backoff_delay reconnect_policy_default 3 = from_secs 8"
  using backoff_bounds [of reconnect_policy_default 3]
  by (simp add: reconnect_policy_default_def from_secs_def DURATION_MAX_def)

section \<open>Giving up\<close>

text \<open>Repeated attempts, with their results.\<close>

fun attempts ::
  "('v, 'n, 'e, 'w) transport \<Rightarrow> u64 \<Rightarrow> nat \<Rightarrow> 'n connection_manager \<times> 'w
     \<Rightarrow> ('e connection_error + duration) list \<times> 'n connection_manager \<times> 'w" where
  "attempts T node 0 cw = ([], cw)"
| "attempts T node (Suc k) cw =
     (let (r, cw1) = attempt_reconnect T node cw; (rs, cw2) = attempts T node k cw1 in (r # rs, cw2))"

definition down_at :: "u64 \<Rightarrow> socket_addr \<Rightarrow> u32 \<Rightarrow> 'n connection_manager \<Rightarrow> bool" where
  "down_at node addr n cm \<longleftrightarrow> hm_get (addresses cm) node = Some addr \<and> hm_get (reconnect_attempts cm) node = Some n"

definition unreachable :: "('v, 'n, 'e, 'w) transport \<Rightarrow> socket_addr \<Rightarrow> bool" where
  "unreachable T addr \<longleftrightarrow> (\<forall>w. isl (fst (connect_to T addr w)))"

lemma failed_attempt:
  assumes "unreachable T addr" and "down_at node addr n cm"
  shows "\<exists>e w'. attempt_reconnect T node (cm, w) =
     (if n + 1 \<ge> max_attempts (cm_policy cm)
      then (Inl (GaveUp node), cm\<lparr>reconnect_attempts := hm_remove node (hm_insert node (n + 1) (reconnect_attempts cm)),
              addresses := hm_remove node (addresses cm)\<rparr>, w')
      else (Inl (Transport e), cm\<lparr>reconnect_attempts := hm_insert node (n + 1) (reconnect_attempts cm)\<rparr>, w'))"
proof -
  obtain e w' where "connect_to T addr w = (Inl e, w')"
    using assms(1) unfolding unreachable_def by (metis isl_def prod.collapse)
  with assms(2) show ?thesis by (auto simp: attempt_reconnect_def down_at_def Let_def)
qed

lemma word_Suc_less: "(n :: u32) < m \<Longrightarrow> unat (n + 1) = unat n + 1"
proof -
  assume "n < m"
  then have "unat n < unat m" by (simp add: word_less_nat_alt)
  moreover have "unat m < 2 ^ 32" using unsigned_less [of m] by simp
  ultimately show ?thesis by (simp add: unat_word_ariths)
qed

lemma failing_attempts:
  assumes "unreachable T addr"
  shows "down_at node addr n cm \<Longrightarrow> unat n + k < unat (max_attempts (cm_policy cm)) \<Longrightarrow>
    \<exists>rs cm' w'. attempts T node k (cm, w) = (rs, cm', w') \<and> length rs = k \<and> (\<forall>r \<in> set rs. \<exists>e. r = Inl (Transport e))
      \<and> down_at node addr (n + of_nat k) cm' \<and> unat (n + of_nat k) = unat n + k \<and> cm_policy cm' = cm_policy cm"
proof (induction k arbitrary: n cm w)
  case (Suc k)
  let ?m = "max_attempts (cm_policy cm)"
  have lt: "n < ?m" using Suc.prems(2) by (simp add: word_less_nat_alt)
  note u = word_Suc_less [OF lt]
  have nge: "\<not> n + 1 \<ge> ?m" using Suc.prems(2) u by (simp add: word_le_nat_alt)
  from failed_attempt [OF assms Suc.prems(1), of w] nge obtain e w1 where
    a: "attempt_reconnect T node (cm, w) = (Inl (Transport e), cm\<lparr>reconnect_attempts := hm_insert node (n + 1) (reconnect_attempts cm)\<rparr>, w1)"
    by auto
  let ?cm1 = "cm\<lparr>reconnect_attempts := hm_insert node (n + 1) (reconnect_attempts cm)\<rparr>"
  have "down_at node addr (n + 1) ?cm1" using Suc.prems(1) by (simp add: down_at_def)
  from Suc.IH [OF this, of w1] Suc.prems(2) u obtain rs cm' w' where
    "attempts T node k (?cm1, w1) = (rs, cm', w')" "length rs = k" "\<forall>r \<in> set rs. \<exists>e. r = Inl (Transport e)"
    "down_at node addr (n + 1 + of_nat k) cm'" "unat (n + 1 + of_nat k) = unat (n + 1) + k" "cm_policy cm' = cm_policy cm"
    by auto
  with a u show ?case by (auto simp: add.assoc)
qed simp

text \<open>
  Reconnecting gives up exactly when the budget is spent. For a known node whose address cannot be
  reached, after a lost connection, the first \<open>max_attempts - 1\<close> attempts fail with the transport error
  and keep the node; the next one reports \<open>GaveUp\<close> and forgets the node, so that every later attempt
  reports an unknown node.
\<close>

theorem reconnect_gives_up:
  assumes "unreachable T addr" and "hm_get (addresses cm) node = Some addr" and "0 < max_attempts (cm_policy cm)"
    and "k = unat (max_attempts (cm_policy cm)) - 1"
  shows "case attempts T node (k + 2) (snd (on_connection_lost node cm), w) of (rs, cm', _) \<Rightarrow>
      list_all (\<lambda>r. case r of Inl (Transport _) \<Rightarrow> True | _ \<Rightarrow> False) (take k rs)
    \<and> drop k rs = [Inl (GaveUp node), Inl (UnknownNode node)]
    \<and> hm_get (addresses cm') node = None \<and> hm_get (reconnect_attempts cm') node = None"
proof -
  let ?cm = "snd (on_connection_lost node cm)" and ?m = "max_attempts (cm_policy cm)"
  have d: "down_at node addr 0 ?cm" and p: "cm_policy ?cm = cm_policy cm"
    using assms(2) by (simp_all add: down_at_def on_connection_lost_def hm_contains_def)
  have m: "unat ?m = k + 1" using assms(3,4) by (simp add: word_less_nat_alt)
  from failing_attempts [OF assms(1) d, of k w] p m obtain rs cm1 w1 where
    r: "attempts T node k (?cm, w) = (rs, cm1, w1)" "length rs = k" "\<forall>r \<in> set rs. \<exists>e. r = Inl (Transport e)"
      "down_at node addr (of_nat k) cm1" "unat (of_nat k :: u32) = k" "cm_policy cm1 = cm_policy cm"
    by auto
  have "(of_nat k :: u32) < ?m" using m r(5) by (simp add: word_less_nat_alt)
  from word_Suc_less [OF this] have "unat (of_nat k + 1 :: u32) = k + 1" using r(5) by simp
  then have ge: "of_nat k + 1 \<ge> ?m" using m by (simp add: word_le_nat_alt)
  from failed_attempt [OF assms(1) r(4), of w1] ge r(6) obtain cm2 w2 where
    g: "attempt_reconnect T node (cm1, w1) = (Inl (GaveUp node), cm2, w2)" "hm_get (addresses cm2) node = None"
      "hm_get (reconnect_attempts cm2) node = None"
    by auto
  have split: "attempts T node (i + j) cw =
      (let (xs, cw1) = attempts T node i cw; (ys, cw2) = attempts T node j cw1 in (xs @ ys, cw2))" for i j cw
    by (induction i arbitrary: cw) (simp_all add: Let_def case_prod_beta)
  have "attempts T node 2 (cm1, w1) = ([Inl (GaveUp node), Inl (UnknownNode node)], cm2, w2)"
    using g by (simp add: numeral_2_eq_2 attempt_reconnect_def)
  then have "attempts T node (k + 2) (?cm, w) = (rs @ [Inl (GaveUp node), Inl (UnknownNode node)], cm2, w2)"
    unfolding split r(1) Let_def prod.case by simp
  with g r(2,3) show ?thesis by (auto simp: list_all_iff)
qed

definition refusing_transport :: "('v, 'n, unit, unit) transport" where
  "refusing_transport =
     \<lparr>connect_to = \<lambda>_ w. (Inl (), w), conn_send = \<lambda>_ c w. (Inl (), c, w), conn_close = \<lambda>_ w. w\<rparr>"

definition known_peer :: "nat connection_manager" where
  "known_peer = connection_manager_new\<lparr>cm_policy := reconnect_policy_default\<lparr>max_attempts := 3\<rparr>,
     addresses := [(7, V4 0x0A000001 4000)]\<rparr>"

theorem reconnect_gives_up_witness:
  "drop 2 (fst (attempts (refusing_transport :: (nat, nat, unit, unit) transport) 7 4 (snd (on_connection_lost 7 known_peer), ())))
     = [Inl (GaveUp 7), Inl (UnknownNode 7)]"
proof -
  have "unreachable (refusing_transport :: (nat, nat, unit, unit) transport) (V4 0x0A000001 4000)"
    by (simp add: unreachable_def refusing_transport_def)
  moreover have "hm_get (addresses known_peer) 7 = Some (V4 0x0A000001 4000)"
    by (simp add: known_peer_def hm_get_def)
  moreover have "max_attempts (cm_policy known_peer) = 3" by (simp add: known_peer_def)
  ultimately have "case attempts (refusing_transport :: (nat, nat, unit, unit) transport) 7 (2 + 2)
        (snd (on_connection_lost 7 known_peer), ()) of (rs, cm', _) \<Rightarrow>
      list_all (\<lambda>r. case r of Inl (Transport _) \<Rightarrow> True | _ \<Rightarrow> False) (take 2 rs)
    \<and> drop 2 rs = [Inl (GaveUp 7), Inl (UnknownNode 7)]
    \<and> hm_get (addresses cm') 7 = None \<and> hm_get (reconnect_attempts cm') 7 = None"
    by (intro reconnect_gives_up) simp_all
  then show ?thesis by (simp only: case_prod_beta) simp
qed

section \<open>Reachable managers\<close>

inductive cm_step :: "('v, 'n, 'e, 'w) transport \<Rightarrow> 'n connection_manager \<Rightarrow> 'n connection_manager \<Rightarrow> bool" for T where
  "cm_step T cm (fst (snd (cm_connect T node addr (cm, w))))"
| "cm_step T cm (fst (snd (cm_disconnect T node (cm, w))))"
| "cm_step T cm (fst (snd (cm_route T node f (cm, w))))"
| "cm_step T cm (fst (snd (on_node_discovered T node addr (cm, w))))"
| "cm_step T cm (snd (on_connection_lost node cm))"
| "cm_step T cm (fst (snd (attempt_reconnect T node (cm, w))))"
| "cm_step T cm (snd (cm_reap ord stale cm))"
| "cm_step T cm (snd (drain_events cm))"
| "cm_step T cm (fst (snd (drain_connections T ord' (cm, w))))"

definition cm_inv :: "reconnect_policy \<Rightarrow> 'n connection_manager \<Rightarrow> bool" where
  "cm_inv policy cm \<longleftrightarrow> cm_policy cm = policy \<and> cm_events cm = [] \<and> hm_wf (reconnect_attempts cm) \<and>
     (\<forall>node n. hm_get (reconnect_attempts cm) node = Some n \<longrightarrow>
        hm_get (addresses cm) node \<noteq> None \<and> (n < max_attempts policy \<or> n = 0))"

lemma cm_inv_new: "cm_inv policy (with_reconnect_policy policy)"
  by (simp add: cm_inv_def with_reconnect_policy_def)

lemma cm_connect_inv: "cm_inv policy cm \<Longrightarrow> cm_inv policy (fst (snd (cm_connect T node addr (cm, w))))"
  by (auto simp: cm_inv_def cm_connect_def wf_intros split: prod.splits sum.splits)

lemma cm_attempt_inv: "cm_inv policy cm \<Longrightarrow> cm_inv policy (fst (snd (attempt_reconnect T node (cm, w))))"
  by (auto simp: cm_inv_def attempt_reconnect_def Let_def wf_intros split: prod.splits sum.splits option.splits)

lemma cm_reap_inv: "cm_inv policy cm \<Longrightarrow> cm_inv policy (snd (cm_reap ord stale cm))"
  by (simp add: cm_inv_def cm_reap_def Let_def hm_get_fold_remove wf_intros)

lemma cm_step_inv: "cm_step T cm cm' \<Longrightarrow> cm_inv policy cm \<Longrightarrow> cm_inv policy cm'"
proof (induction rule: cm_step.induct)
  case (4 cm node addr w)
  then show ?case using cm_connect_inv [of policy cm T node addr w] by (simp add: on_node_discovered_def)
next
  case (5 cm node)
  then show ?case by (auto simp: cm_inv_def on_connection_lost_def Let_def hm_contains_def wf_intros)
next
  case (9 cm ord' w)
  then show ?case by (simp add: cm_inv_def drain_connections_def Let_def split: prod.splits)
next
  case (1 cm node addr w)
  then show ?case by (rule cm_connect_inv)
next
  case (6 cm node w)
  then show ?case by (rule cm_attempt_inv)
next
  case (7 cm ord stale)
  then show ?case by (rule cm_reap_inv)
qed (auto simp: cm_inv_def cm_disconnect_def cm_route_def drain_events_def Let_def wf_intros
      split: prod.splits sum.splits option.splits)

interpretation cms: transition_invariant "cm_step T" "cm_inv policy" for T policy
  by unfold_locales (rule cm_step_inv)

lemma cm_reachable_inv: "(cm_step T)\<^sup>*\<^sup>* (with_reconnect_policy policy) cm \<Longrightarrow> cm_inv policy cm"
  by (rule cms.reach_inv) (auto simp: cm_inv_new)

lemma fold_stale:
  "set (fold (\<lambda>i r. if P i \<and> i \<notin> set r then r @ [i] else r) xs acc) = set acc \<union> {i \<in> set xs. P i}
   \<and> (distinct acc \<longrightarrow> distinct (fold (\<lambda>i r. if P i \<and> i \<notin> set r then r @ [i] else r) xs acc))"
  by (induction xs arbitrary: acc) auto

text \<open>
  In every state the connection manager can reach, a node with an attempt counter has an address to
  reconnect to and attempts left. Two consequences: as long as the policy allows any attempt, \<open>reap\<close> never
  finds an exhausted node and removes only the stale nodes it is given that have no connection; and
  \<open>drain_events\<close> always returns the empty list, because no operation stores an event.
\<close>

theorem connection_manager_invariant:
  assumes "(cm_step T)\<^sup>*\<^sup>* (with_reconnect_policy policy) cm" and "0 < max_attempts policy" and "hash_order ord"
  shows "(\<forall>node n. hm_get (reconnect_attempts cm) node = Some n \<longrightarrow>
        hm_get (addresses cm) node \<noteq> None \<and> n < max_attempts policy)
    \<and> set (fst (cm_reap ord stale cm)) = {i \<in> set stale. \<not> is_connected i cm} \<and> distinct (fst (cm_reap ord stale cm))
    \<and> fst (drain_events cm) = []"
proof -
  have i: "cm_inv policy cm" using cm_reachable_inv [OF assms(1)] .
  have a: "\<forall>node n. hm_get (reconnect_attempts cm) node = Some n \<longrightarrow>
      hm_get (addresses cm) node \<noteq> None \<and> n < max_attempts policy"
    using i assms(2) by (auto simp: cm_inv_def)
  have "filter (\<lambda>(_, n). n \<ge> max_attempts (cm_policy cm)) (ord (reconnect_attempts cm)) = []"
    using i a assms(3) by (auto simp: filter_empty_conv hash_order_set cm_inv_def hm_get_Some_iff linorder_not_le [symmetric])
  then show ?thesis using a i fold_stale [of "\<lambda>i. \<not> hm_contains i (connections cm)" stale "[]"]
    by (simp add: cm_reap_def Let_def is_connected_def drain_events_def cm_inv_def)
qed

theorem connection_manager_invariant_witness:
  "set (fst (cm_reap rev [3, 4, 3] (with_reconnect_policy reconnect_policy_default :: nat connection_manager))) = {3, 4}"
  using connection_manager_invariant [OF rtranclp.rtrancl_refl, where policy = reconnect_policy_default and ord = rev and stale = "[3, 4, 3]"]
  by (auto simp: reconnect_policy_default_def with_reconnect_policy_def is_connected_def hm_contains_def)

end
