(* ===== verification/Gossip.thy ===== *)
theory Gossip
  imports Prelude
begin

text \<open>
  Gossip updates and the bounded, coalescing dissemination queue
  (\<^verbatim>\<open>crates/rebar-cluster/src/swim/gossip.rs\<close>). \<open>ord\<close> is the iteration order of the queue's map.
\<close>

section \<open>Updates\<close>

datatype gossip_update =
    AliveUpd u64 socket_addr u64 "cert_hash option"
  | SuspectUpd u64 socket_addr u64
  | DeadUpd u64 socket_addr u64
  | LeaveUpd u64 socket_addr u64

fun upd_node_id :: "gossip_update \<Rightarrow> u64" where
  "upd_node_id (AliveUpd n _ _ _) = n"
| "upd_node_id (SuspectUpd n _ _) = n"
| "upd_node_id (DeadUpd n _ _) = n"
| "upd_node_id (LeaveUpd n _ _) = n"

fun upd_incarnation :: "gossip_update \<Rightarrow> u64" where
  "upd_incarnation (AliveUpd _ _ i _) = i"
| "upd_incarnation (SuspectUpd _ _ i) = i"
| "upd_incarnation (DeadUpd _ _ i) = i"
| "upd_incarnation (LeaveUpd _ _ i) = i"

fun precedence :: "gossip_update \<Rightarrow> nat" where
  "precedence (AliveUpd _ _ _ _) = 0"
| "precedence (SuspectUpd _ _ _) = 1"
| "precedence (DeadUpd _ _ _) = 2"
| "precedence (LeaveUpd _ _ _) = 2"

definition supersedes :: "gossip_update \<Rightarrow> gossip_update \<Rightarrow> bool" where
  "supersedes u v =
     (case ord_cmp (upd_incarnation u) (upd_incarnation v) of
        Greater \<Rightarrow> True
      | Less \<Rightarrow> False
      | Equal \<Rightarrow> precedence u \<ge> precedence v)"

section \<open>The queue\<close>

record pending_update =
  pu_update :: gossip_update
  retransmits_left :: nat

definition DEFAULT_MAX_ENTRIES :: usize where
  "DEFAULT_MAX_ENTRIES = 1024"

record gossip_queue =
  pending :: "(u64, pending_update) hashmap"
  max_entries :: usize
  retransmit_budget :: nat

type_synonym pending_order = "(u64, pending_update) hashmap \<Rightarrow> (u64 \<times> pending_update) list"

definition gossip_queue_new :: gossip_queue where
  "gossip_queue_new = \<lparr>pending = [], max_entries = DEFAULT_MAX_ENTRIES, retransmit_budget = 4\<rparr>"

text \<open>\<open>usize::leading_zeros\<close>, from the number of significant bits.\<close>

fun bit_length :: "nat \<Rightarrow> nat" where
  "bit_length n = (if n = 0 then 0 else Suc (bit_length (n div 2)))"

declare bit_length.simps [simp del]

definition leading_zeros :: "usize \<Rightarrow> nat" where
  "leading_zeros n = 64 - bit_length n"

definition with_cluster_size :: "usize \<Rightarrow> usize \<Rightarrow> gossip_queue" where
  "with_cluster_size cluster_size mx =
     (let budget = max (64 - leading_zeros (max cluster_size 1)) 1 in
      \<lparr>pending = [], max_entries = max mx 1, retransmit_budget = budget\<rparr>)"

definition gossip_len :: "gossip_queue \<Rightarrow> usize" where
  "gossip_len q = length (pending q)"

definition gossip_is_empty :: "gossip_queue \<Rightarrow> bool" where
  "gossip_is_empty q = (pending q = [])"

definition evict_one :: "pending_order \<Rightarrow> gossip_queue \<Rightarrow> gossip_queue" where
  "evict_one ord q =
     (case min_by_key (\<lambda>(_, p). retransmits_left p) (ord (pending q)) of
        Some (victim, _) \<Rightarrow> q\<lparr>pending := hm_remove victim (pending q)\<rparr>
      | None \<Rightarrow> q)"

definition gossip_add :: "pending_order \<Rightarrow> gossip_update \<Rightarrow> gossip_queue \<Rightarrow> gossip_queue" where
  "gossip_add ord update q =
     (let node = upd_node_id update; budget = retransmit_budget q in
      case hm_get (pending q) node of
        Some existing \<Rightarrow>
          if \<not> supersedes update (pu_update existing) then q
          else q\<lparr>pending := hm_modify node
                 (\<lambda>p. p\<lparr>pu_update := update, retransmits_left := budget\<rparr>) (pending q)\<rparr>
      | None \<Rightarrow>
          let q' = (if length (pending q) \<ge> max_entries q then evict_one ord q else q) in
          q'\<lparr>pending := hm_insert node \<lparr>pu_update = update, retransmits_left = budget\<rparr> (pending q')\<rparr>)"

text \<open>One round of the loop of \<open>drain\<close>: emit the update of \<open>nid\<close>, charge it, drop it when spent.\<close>

definition drain_one :: "u64 \<Rightarrow> gossip_update list \<times> gossip_queue \<Rightarrow> gossip_update list \<times> gossip_queue" where
  "drain_one nid st =
     (case st of (out, q) \<Rightarrow>
       (case hm_get (pending q) nid of
          None \<Rightarrow> (out, q)
        | Some p \<Rightarrow>
            let left = retransmits_left p - 1;
                pend = hm_modify nid (\<lambda>p. p\<lparr>retransmits_left := left\<rparr>) (pending q) in
            (out @ [pu_update p],
             q\<lparr>pending := (if left = 0 then hm_remove nid pend else pend)\<rparr>)))"

definition drain_ids :: "pending_order \<Rightarrow> usize \<Rightarrow> gossip_queue \<Rightarrow> u64 list" where
  "drain_ids ord mx q =
     take mx (sort_key (\<lambda>nid. case hm_get (pending q) nid of
                               Some p \<Rightarrow> - int (retransmits_left p) | None \<Rightarrow> 0)
               (map fst (ord (pending q))))"

definition gossip_drain :: "pending_order \<Rightarrow> usize \<Rightarrow> gossip_queue \<Rightarrow> gossip_update list \<times> gossip_queue" where
  "gossip_drain ord mx q = fold drain_one (drain_ids ord mx q) ([], q)"

section \<open>Invariant\<close>

definition gossip_wf :: "gossip_queue \<Rightarrow> bool" where
  "gossip_wf q \<longleftrightarrow> hm_wf (pending q) \<and> 1 \<le> max_entries q \<and> length (pending q) \<le> max_entries q
     \<and> 1 \<le> retransmit_budget q
     \<and> (\<forall>n p. hm_get (pending q) n = Some p \<longrightarrow> upd_node_id (pu_update p) = n
           \<and> 1 \<le> retransmits_left p \<and> retransmits_left p \<le> retransmit_budget q)"

lemma gossip_wf_new [simp]: "gossip_wf gossip_queue_new"
  by (simp add: gossip_wf_def gossip_queue_new_def DEFAULT_MAX_ENTRIES_def)

lemma gossip_wf_cluster [simp]: "gossip_wf (with_cluster_size n mx)"
  by (simp add: gossip_wf_def with_cluster_size_def Let_def)

lemma evict_one_fields [simp]:
  "max_entries (evict_one ord q) = max_entries q"
  "retransmit_budget (evict_one ord q) = retransmit_budget q"
  by (simp_all add: evict_one_def split: option.splits)

lemma evict_one_cases:
  assumes "hash_order ord" and "pending q \<noteq> []"
  obtains victim p where "(victim, p) \<in> set (pending q)"
    and "\<And>n p'. (n, p') \<in> set (pending q) \<Longrightarrow> retransmits_left p \<le> retransmits_left p'"
    and "evict_one ord q = q\<lparr>pending := hm_remove victim (pending q)\<rparr>"
proof -
  have "ord (pending q) \<noteq> []" using assms by (simp add: hash_order_Nil)
  then obtain v p where v: "min_by_key (\<lambda>(_, p). retransmits_left p) (ord (pending q)) = Some (v, p)"
    by (metis min_by_key_None option.exhaust surj_pair)
  have "(v, p) \<in> set (pending q)"
    using min_by_key_in_set [OF v] assms(1) by (simp add: hash_order_set)
  moreover have "retransmits_left p \<le> retransmits_left p'" if "(n, p') \<in> set (pending q)" for n p'
    using min_by_key_le [OF v, of "(n, p')"] that assms(1) by (simp add: hash_order_set)
  moreover have "evict_one ord q = q\<lparr>pending := hm_remove v (pending q)\<rparr>"
    by (simp add: evict_one_def v)
  ultimately show ?thesis using that by blast
qed

lemma evict_one_wf:
  assumes "hash_order ord" and "gossip_wf q" and "pending q \<noteq> []"
  shows "gossip_wf (evict_one ord q)" and "length (pending (evict_one ord q)) < length (pending q)"
proof -
  from evict_one_cases [OF assms(1,3)] obtain v p where v: "(v, p) \<in> set (pending q)"
    and e: "evict_one ord q = q\<lparr>pending := hm_remove v (pending q)\<rparr>"
    by metis
  have "hm_contains v (pending q)" using v by (force simp: hm_contains_iff hm_keys_def)
  with assms(2) have len: "length (hm_remove v (pending q)) = length (pending q) - 1"
    by (simp add: length_hm_remove gossip_wf_def)
  with assms(3) show "length (pending (evict_one ord q)) < length (pending q)" by (simp add: e)
  from len assms(2) show "gossip_wf (evict_one ord q)"
    by (auto simp: e gossip_wf_def wf_intros)
qed

lemma gossip_add_wf:
  assumes "hash_order ord" and "gossip_wf q"
  shows "gossip_wf (gossip_add ord u q)"
proof (cases "hm_get (pending q) (upd_node_id u)")
  case (Some p)
  with assms(2) show ?thesis
    by (auto simp: gossip_add_def Let_def gossip_wf_def wf_intros)
next
  case None
  let ?q = "if length (pending q) \<ge> max_entries q then evict_one ord q else q"
  have q: "gossip_wf ?q \<and> length (pending ?q) < max_entries q \<and> max_entries ?q = max_entries q
      \<and> retransmit_budget ?q = retransmit_budget q"
  proof (cases "length (pending q) \<ge> max_entries q")
    case True
    with assms(2) have "pending q \<noteq> []" by (auto simp: gossip_wf_def)
    with evict_one_wf [OF assms this] True assms(2) show ?thesis by (simp add: gossip_wf_def)
  next
    case False
    with assms(2) show ?thesis by simp
  qed
  then have "length (hm_insert (upd_node_id u) \<lparr>pu_update = u, retransmits_left = retransmit_budget q\<rparr> (pending ?q))
      \<le> max_entries q"
    by (simp add: length_hm_insert gossip_wf_def)
  with q None show ?thesis
    unfolding gossip_add_def Let_def by (auto simp: gossip_wf_def wf_intros)
qed

lemma drain_one_wf: "gossip_wf q \<Longrightarrow> gossip_wf (snd (drain_one nid (out, q)))"
proof -
  assume wf: "gossip_wf q"
  show ?thesis
  proof (cases "hm_get (pending q) nid")
    case None
    with wf show ?thesis by (simp add: drain_one_def)
  next
    case (Some p)
    let ?pend = "hm_modify nid (\<lambda>p'. p'\<lparr>retransmits_left := retransmits_left p - 1\<rparr>) (pending q)"
    have "length (hm_remove nid ?pend) \<le> length (pending q)"
      using wf Some by (simp add: length_hm_remove gossip_wf_def wf_intros hm_contains_def)
    with wf Some show ?thesis
      by (auto simp: drain_one_def Let_def gossip_wf_def wf_intros le_diff_conv le_SucI)
  qed
qed

lemma fold_drain_wf: "gossip_wf q \<Longrightarrow> gossip_wf (snd (fold drain_one ids (out, q)))"
proof (induction ids arbitrary: out q)
  case (Cons nid ids)
  then show ?case using drain_one_wf [OF Cons.prems, of nid out] by (cases "drain_one nid (out, q)") simp
qed simp

lemma gossip_drain_wf: "gossip_wf q \<Longrightarrow> gossip_wf (snd (gossip_drain ord mx q))"
  by (simp add: gossip_drain_def fold_drain_wf)

section \<open>Dissemination\<close>

definition total_budget :: "gossip_queue \<Rightarrow> nat" where
  "total_budget q = hm_sum retransmits_left (pending q)"

lemma drain_one_Some:
  assumes "gossip_wf q" and "hm_get (pending q) nid = Some p"
  shows "\<exists>q'. drain_one nid (out, q) = (out @ [pu_update p], q') \<and> gossip_wf q'
    \<and> Suc (total_budget q') = total_budget q \<and> max_entries q' = max_entries q
    \<and> (\<forall>n. n \<noteq> nid \<longrightarrow> hm_get (pending q') n = hm_get (pending q) n)"
proof -
  let ?left = "retransmits_left p - 1"
  let ?pend = "hm_modify nid (\<lambda>p. p\<lparr>retransmits_left := ?left\<rparr>) (pending q)"
  let ?q = "q\<lparr>pending := (if ?left = 0 then hm_remove nid ?pend else ?pend)\<rparr>"
  have wf: "hm_wf (pending q)" and ge: "1 \<le> retransmits_left p"
    using assms by (auto simp: gossip_wf_def)
  have "hm_sum retransmits_left ?pend + retransmits_left p = hm_sum retransmits_left (pending q) + ?left"
    using hm_sum_modify [OF wf assms(2), of retransmits_left] by simp
  moreover have "hm_sum retransmits_left (hm_remove nid ?pend) + ?left = hm_sum retransmits_left ?pend"
    using hm_sum_remove [of ?pend nid "p\<lparr>retransmits_left := ?left\<rparr>" retransmits_left] wf assms(2)
    by (simp add: wf_intros)
  ultimately have "Suc (total_budget ?q) = total_budget q"
    using ge by (auto simp: total_budget_def)
  moreover have "drain_one nid (out, q) = (out @ [pu_update p], ?q)"
    using assms(2) by (simp add: drain_one_def Let_def)
  moreover have "gossip_wf ?q"
    using drain_one_wf [OF assms(1), of nid out] \<open>drain_one nid (out, q) = (out @ [pu_update p], ?q)\<close> by simp
  ultimately show ?thesis by (intro exI [of _ ?q]) auto
qed

lemma fold_drain:
  "gossip_wf q \<Longrightarrow> distinct ids \<Longrightarrow> \<forall>nid \<in> set ids. hm_contains nid (pending q) \<Longrightarrow>
     \<exists>q'. fold drain_one ids (out, q) = (out @ map (\<lambda>nid. pu_update (the (hm_get (pending q) nid))) ids, q')
       \<and> total_budget q' + length ids = total_budget q"
proof (induction ids arbitrary: out q)
  case (Cons nid ids)
  then obtain p where p: "hm_get (pending q) nid = Some p" by (auto simp: hm_contains_def)
  from drain_one_Some [OF Cons.prems(1) p] obtain q1 where
    q1: "drain_one nid (out, q) = (out @ [pu_update p], q1)" "gossip_wf q1"
      "Suc (total_budget q1) = total_budget q"
      "\<forall>n. n \<noteq> nid \<longrightarrow> hm_get (pending q1) n = hm_get (pending q) n"
    by blast
  have "\<forall>x \<in> set ids. hm_contains x (pending q1)"
    using Cons.prems q1(4) by (auto simp: hm_contains_def)
  with Cons.IH [OF q1(2), of "out @ [pu_update p]"] Cons.prems(2) obtain q2 where
    "fold drain_one ids (out @ [pu_update p], q1)
       = ((out @ [pu_update p]) @ map (\<lambda>x. pu_update (the (hm_get (pending q1) x))) ids, q2)"
    "total_budget q2 + length ids = total_budget q1"
    by auto
  moreover have "map (\<lambda>x. pu_update (the (hm_get (pending q1) x))) ids
      = map (\<lambda>x. pu_update (the (hm_get (pending q) x))) ids"
    using Cons.prems(2) q1(4) by auto
  ultimately show ?case using q1 p by auto
qed simp

lemma drain_ids_props:
  assumes "hash_order ord" and "gossip_wf q"
  shows "distinct (drain_ids ord mx q)" and "length (drain_ids ord mx q) = min mx (gossip_len q)"
    and "nid \<in> set (drain_ids ord mx q) \<Longrightarrow> hm_contains nid (pending q)"
    and "nid \<in> set (drain_ids ord mx q) \<Longrightarrow> hm_get (pending q) nid = Some p
      \<Longrightarrow> hm_get (pending q) n = Some p' \<Longrightarrow> n \<notin> set (drain_ids ord mx q)
      \<Longrightarrow> retransmits_left p' \<le> retransmits_left p"
proof -
  let ?key = "\<lambda>nid. case hm_get (pending q) nid of Some p \<Rightarrow> - int (retransmits_left p) | None \<Rightarrow> 0"
  let ?s = "sort_key ?key (map fst (ord (pending q)))"
  have ids: "drain_ids ord mx q = take mx ?s" by (simp add: drain_ids_def)
  have wf: "hm_wf (pending q)" using assms(2) by (simp add: gossip_wf_def)
  then have "distinct (map fst (ord (pending q)))"
    using hash_order_wf [OF assms(1), of "pending q"] by (simp add: hm_wf_def)
  then show "distinct (drain_ids ord mx q)" by (simp add: ids)
  show "length (drain_ids ord mx q) = min mx (gossip_len q)"
    by (simp add: ids gossip_len_def hash_order_length [OF assms(1)])
  have set_s: "set ?s = set (hm_keys (pending q))"
    using assms(1) by (simp add: hash_order_set hm_keys_def)
  show "nid \<in> set (drain_ids ord mx q) \<Longrightarrow> hm_contains nid (pending q)"
    unfolding ids hm_contains_iff set_s [symmetric] by (rule in_set_takeD)
  assume a: "nid \<in> set (drain_ids ord mx q)" "hm_get (pending q) nid = Some p"
    "hm_get (pending q) n = Some p'" "n \<notin> set (drain_ids ord mx q)"
  have "n \<in> set ?s" using a(3) set_s hm_get_None_iff [of "pending q" n] by simp
  with a(4) have "n \<in> set (drop mx ?s)" unfolding ids by (metis Un_iff append_take_drop_id set_append)
  moreover have "sorted (map ?key (take mx ?s @ drop mx ?s))" by simp
  ultimately have "?key nid \<le> ?key n"
    using a(1) unfolding ids map_append sorted_append by auto
  with a(2,3) show "retransmits_left p' \<le> retransmits_left p" by simp
qed

lemma gossip_drain_run:
  assumes "hash_order ord" and "gossip_wf q"
  obtains q' where "gossip_drain ord mx q
      = (map (\<lambda>nid. pu_update (the (hm_get (pending q) nid))) (drain_ids ord mx q), q')"
    and "total_budget q' + min mx (gossip_len q) = total_budget q"
  using fold_drain [OF assms(2) drain_ids_props(1) [OF assms], of mx "[]"] drain_ids_props(2,3) [OF assms, where mx = mx]
  by (auto simp: gossip_drain_def)

lemma bit_length_bounds: "0 < n \<Longrightarrow> 2 ^ (bit_length n - 1) \<le> n \<and> n < 2 ^ bit_length n \<and> 1 \<le> bit_length n"
proof (induction n rule: bit_length.induct)
  case (1 n)
  show ?case
  proof (cases "n div 2 = 0")
    case True
    with 1(2) have "n = 1" by simp
    then show ?thesis by (simp add: bit_length.simps)
  next
    case False
    with 1 have ih: "2 ^ (bit_length (n div 2) - 1) \<le> n div 2" "n div 2 < 2 ^ bit_length (n div 2)"
      "1 \<le> bit_length (n div 2)" by auto
    have "bit_length n = Suc (bit_length (n div 2))"
      using 1(2) by (subst bit_length.simps) simp
    moreover obtain k :: nat where "2 ^ (bit_length (n div 2) - 1) = k" "2 ^ bit_length (n div 2) = 2 * k"
      using ih(3) by (cases "bit_length (n div 2)") auto
    moreover from this ih have "2 * k \<le> n" "n < 4 * k" by auto
    ultimately show ?thesis by simp
  qed
qed

lemma supersedes_refl: "supersedes u u"
  by (simp add: supersedes_def ord_cmp_def)

lemma supersedes_total: "\<not> supersedes u v \<Longrightarrow> supersedes v u"
  by (auto simp: supersedes_def ord_cmp_def split: if_splits)

section \<open>Runs of the queue\<close>

datatype gossip_event =
    GAdd pending_order gossip_update
  | GDrain pending_order usize

fun gossip_step :: "gossip_event \<Rightarrow> gossip_queue \<Rightarrow> gossip_queue" where
  "gossip_step (GAdd ord u) q = gossip_add ord u q"
| "gossip_step (GDrain ord mx) q = snd (gossip_drain ord mx q)"

fun gossip_event_ok :: "gossip_event \<Rightarrow> bool" where
  "gossip_event_ok (GAdd ord u) = hash_order ord"
| "gossip_event_ok (GDrain ord mx) = hash_order ord"

lemma drain_one_fields:
  "max_entries (snd (drain_one nid st)) = max_entries (snd st)"
  "retransmit_budget (snd (drain_one nid st)) = retransmit_budget (snd st)"
  by (auto simp: drain_one_def Let_def split: prod.splits option.splits)

lemma gossip_step_fields [simp]:
  "max_entries (gossip_step ev q) = max_entries q"
  "retransmit_budget (gossip_step ev q) = retransmit_budget q"
proof -
  have "max_entries (snd (fold drain_one ids st)) = max_entries (snd st)
      \<and> retransmit_budget (snd (fold drain_one ids st)) = retransmit_budget (snd st)" for ids st
    by (induction ids arbitrary: st) (simp_all add: drain_one_fields)
  then show "max_entries (gossip_step ev q) = max_entries q"
    and "retransmit_budget (gossip_step ev q) = retransmit_budget q"
    by (cases ev; simp add: gossip_drain_def gossip_add_def Let_def split: option.splits)+
qed

interpretation gq: step_invariant gossip_step gossip_event_ok gossip_wf
proof
  fix q ev
  assume "gossip_wf q" and "gossip_event_ok ev"
  then show "gossip_wf (gossip_step ev q)"
    by (cases ev) (simp_all add: gossip_add_wf gossip_drain_wf)
qed

section \<open>Properties\<close>

text \<open>
  The queue stays bounded and coalesced along every run of additions and drains: never more
  entries than its cap, one entry per node, every entry stored under the node it is about and with
  a remaining budget between one and the queue's budget.
\<close>

theorem gossip_run_bounded:
  assumes "list_all gossip_event_ok evs" and "q = with_cluster_size n mx"
  shows "gossip_len (fold gossip_step evs q) \<le> max mx 1
    \<and> distinct (map fst (pending (fold gossip_step evs q)))
    \<and> (\<forall>node p. hm_get (pending (fold gossip_step evs q)) node = Some p \<longrightarrow>
         upd_node_id (pu_update p) = node \<and> 1 \<le> retransmits_left p
         \<and> retransmits_left p \<le> retransmit_budget q)"
proof -
  have "gossip_wf (fold gossip_step evs q)"
    using gq.run_inv [OF _ assms(1), of q] assms(2) by simp
  moreover have "max_entries (fold gossip_step evs q) = max_entries q"
    "retransmit_budget (fold gossip_step evs q) = retransmit_budget q"
    by (induction evs arbitrary: q) simp_all
  moreover have "max_entries q = max mx 1"
    by (simp add: assms(2) with_cluster_size_def Let_def)
  ultimately show ?thesis
    unfolding gossip_wf_def gossip_len_def hm_wf_def by metis
qed

definition addr1 :: socket_addr where
  "addr1 = V4 2130706433 4000"

theorem gossip_run_bounded_witness:
  "gossip_len (fold gossip_step [GAdd rev (DeadUpd 1 addr1 0), GAdd rev (AliveUpd 2 addr1 1 None),
     GDrain rev 8] (with_cluster_size 5 1)) \<le> max 1 1"
  by (rule gossip_run_bounded [THEN conjunct1]) simp_all

text \<open>
  Coalescing keeps the freshest update: after an addition the node's pending update is the
  added one or the one that was there before, and it supersedes both (higher incarnation, or equal
  incarnation and at least as severe); an accepted update starts with the full budget.
\<close>

theorem gossip_add_coalesces:
  "\<exists>p. hm_get (pending (gossip_add ord u q)) (upd_node_id u) = Some p \<and> supersedes (pu_update p) u
     \<and> (case hm_get (pending q) (upd_node_id u) of
          None \<Rightarrow> p = \<lparr>pu_update = u, retransmits_left = retransmit_budget q\<rparr>
        | Some p0 \<Rightarrow> supersedes (pu_update p) (pu_update p0)
            \<and> p = (if supersedes u (pu_update p0)
                   then \<lparr>pu_update = u, retransmits_left = retransmit_budget q\<rparr> else p0))"
proof (cases "hm_get (pending q) (upd_node_id u)")
  case None
  then show ?thesis by (simp add: gossip_add_def Let_def supersedes_refl)
next
  case (Some p0)
  then show ?thesis
    by (cases "supersedes u (pu_update p0)")
       (auto simp: gossip_add_def Let_def supersedes_refl supersedes_total)
qed

text \<open>
  One drain emits \<open>min max len\<close> updates of distinct nodes, prefers those with the most budget
  left, and charges the queue exactly one retransmission per emitted update.
\<close>

theorem gossip_drain_correct:
  assumes "hash_order ord" and "gossip_wf q"
  shows "length (fst (gossip_drain ord mx q)) = min mx (gossip_len q)
    \<and> distinct (map upd_node_id (fst (gossip_drain ord mx q)))
    \<and> total_budget (snd (gossip_drain ord mx q)) + length (fst (gossip_drain ord mx q)) = total_budget q
    \<and> (\<forall>u n p p'. u \<in> set (fst (gossip_drain ord mx q)) \<longrightarrow> hm_get (pending q) (upd_node_id u) = Some p
         \<longrightarrow> hm_get (pending q) n = Some p' \<longrightarrow> n \<notin> upd_node_id ` set (fst (gossip_drain ord mx q))
         \<longrightarrow> retransmits_left p' \<le> retransmits_left p)"
proof -
  obtain q' where run: "gossip_drain ord mx q
      = (map (\<lambda>nid. pu_update (the (hm_get (pending q) nid))) (drain_ids ord mx q), q')"
    and budget: "total_budget q' + min mx (gossip_len q) = total_budget q"
    by (rule gossip_drain_run [OF assms])
  note ids = drain_ids_props [OF assms, where mx = mx]
  have node: "upd_node_id (pu_update (the (hm_get (pending q) nid))) = nid"
    if "nid \<in> set (drain_ids ord mx q)" for nid
    using ids(3) [OF that] assms(2) by (auto simp: hm_contains_def gossip_wf_def)
  then have nodes: "map (upd_node_id \<circ> (\<lambda>nid. pu_update (the (hm_get (pending q) nid)))) (drain_ids ord mx q)
      = drain_ids ord mx q"
    by (simp add: map_idI)
  have img: "upd_node_id ` set (fst (gossip_drain ord mx q)) = set (drain_ids ord mx q)"
    using arg_cong [OF nodes, of set] by (simp add: run image_comp)
  have "distinct (map upd_node_id (fst (gossip_drain ord mx q)))"
    unfolding run fst_conv map_map nodes by (rule ids(1))
  moreover have "retransmits_left p' \<le> retransmits_left p"
    if "u \<in> set (fst (gossip_drain ord mx q))" "hm_get (pending q) (upd_node_id u) = Some p"
      "hm_get (pending q) n = Some p'" "n \<notin> upd_node_id ` set (fst (gossip_drain ord mx q))" for u n p p'
    using that ids(4) unfolding img by (metis image_eqI img)
  ultimately show ?thesis using ids(2) budget by (auto simp: run)
qed

theorem gossip_drain_correct_witness:
  "length (fst (gossip_drain rev 8 (gossip_add rev (DeadUpd 1 addr1 0) gossip_queue_new)))
     = min 8 (gossip_len (gossip_add rev (DeadUpd 1 addr1 0) gossip_queue_new))"
  by (rule gossip_drain_correct [THEN conjunct1]) (simp_all add: gossip_add_wf)

text \<open>
  Dissemination ends: with nothing added, \<open>total_budget\<close> drains of at least one update each
  empty the queue, whatever the iteration orders; each update is emitted at most as often as its
  budget, since every emission is charged.
\<close>

theorem gossip_dissemination_ends:
  assumes "list_all gossip_event_ok evs" and "list_all (\<lambda>ev. \<exists>ord mx. ev = GDrain ord mx \<and> 1 \<le> mx) evs"
    and "gossip_wf q" and "total_budget q \<le> length evs"
  shows "gossip_is_empty (fold gossip_step evs q)"
  using assms
proof (induction evs arbitrary: q)
  case Nil
  then have "hm_sum retransmits_left (pending q) = 0" by (simp add: total_budget_def)
  moreover have "1 \<le> retransmits_left p" if "(n, p) \<in> set (pending q)" for n p
    using Nil.prems(3) that by (simp add: gossip_wf_def hm_get_Some_iff)
  ultimately have "x \<notin> set (pending q)" for x
    using hm_sum_0 [of retransmits_left "pending q" "fst x" "snd x"] by (cases x) fastforce
  then show ?case by (cases "pending q") (auto simp: gossip_is_empty_def)
next
  case (Cons ev evs)
  then obtain ord mx where ev: "ev = GDrain ord mx" "1 \<le> mx" "hash_order ord" by auto
  let ?q = "snd (gossip_drain ord mx q)"
  obtain q' where "?q = q'" "total_budget q' + min mx (gossip_len q) = total_budget q"
    using gossip_drain_run [OF ev(3) Cons.prems(3), of mx] by (metis snd_conv)
  moreover have "gossip_len q = 0 \<Longrightarrow> total_budget q = 0"
    by (simp add: gossip_len_def total_budget_def hm_sum_def)
  ultimately have "total_budget ?q \<le> length evs"
    using Cons.prems(4) ev(2) by (cases "gossip_len q") auto
  with Cons ev show ?case by (simp add: gossip_drain_wf)
qed

theorem gossip_dissemination_ends_witness:
  "gossip_is_empty (fold gossip_step [GDrain rev 1, GDrain rev 1, GDrain rev 1, GDrain rev 1]
     (gossip_add rev (DeadUpd 1 addr1 0) gossip_queue_new))"
  by (rule gossip_dissemination_ends)
     (simp_all add: gossip_add_wf, simp add: total_budget_def hm_sum_def gossip_add_def gossip_queue_new_def
        hm_insert_def DEFAULT_MAX_ENTRIES_def)

text \<open>
  The retransmit budget of a queue sized for \<open>n\<close> nodes is the number of binary digits of \<open>n\<close>:
  one more than the integer logarithm, as the documentation's \<open>log2(n) + 1\<close> says.
\<close>

theorem gossip_budget_logarithmic:
  assumes "1 \<le> n" and "n < 2 ^ 64"
  shows "2 ^ (retransmit_budget (with_cluster_size n mx) - 1) \<le> n
    \<and> n < 2 ^ retransmit_budget (with_cluster_size n mx)"
proof -
  note b = bit_length_bounds [of n]
  have "bit_length n \<le> 64"
  proof (rule ccontr)
    assume "\<not> bit_length n \<le> 64"
    then have "(2::nat) ^ 64 \<le> 2 ^ (bit_length n - 1)" by (intro power_increasing) auto
    with b assms show False by linarith
  qed
  then have "retransmit_budget (with_cluster_size n mx) = bit_length n"
    using b assms by (simp add: with_cluster_size_def leading_zeros_def)
  with b assms show ?thesis by simp
qed

theorem gossip_budget_logarithmic_witness:
  "2 ^ (retransmit_budget (with_cluster_size 100 8) - 1) \<le> (100::nat)
   \<and> (100::nat) < 2 ^ retransmit_budget (with_cluster_size 100 8)"
  by (rule gossip_budget_logarithmic) simp_all

end
