(* ===== verification/Drain.thy ===== *)
theory Drain
  imports Connection Gossip Registry Router
begin

text \<open>
  The graceful departure of a node (\<^verbatim>\<open>crates/rebar-cluster/src/drain.rs\<close>): flush the outbound queue, announce
  the departure and withdraw the node's names, close the connections. What the clock and the producers of the
  outbound channel do is an argument: one \<open>drain_tick\<close> for every round of the receive loop, with the elapsed
  time at the top of the round, the commands that arrived since the previous round, and whether every producer
  is gone. A loop that is still waiting for its next tick has no result.
\<close>

section \<open>Types\<close>

record drain_config =
  announce_timeout :: duration
  drain_timeout :: duration
  shutdown_timeout :: duration

definition drain_config_default :: drain_config where
  "drain_config_default = \<lparr>announce_timeout = from_secs 5, drain_timeout = from_secs 30, shutdown_timeout = from_secs 10\<rparr>"

record drain_result =
  processes_stopped :: usize
  messages_drained :: usize
  messages_undrained :: usize
  phase_durations :: "duration list"
  dr_timed_out :: bool

definition is_clean :: "drain_result \<Rightarrow> bool" where
  "is_clean r = (\<not> dr_timed_out r \<and> messages_undrained r = 0)"

record outbound_drain_outcome =
  delivered_count :: usize
  undrained_count :: usize
  od_timed_out :: bool

record ('v, 'n) drain_context =
  dc_gossip :: gossip_queue
  dc_registry :: registry
  dc_remote_rx :: "'v router_command list"
  dc_connections :: "'n connection_manager"

record 'v drain_tick =
  tick_elapsed :: duration
  tick_arrived :: "'v router_command list"
  tick_closed :: bool

section \<open>Operations\<close>

definition announce ::
  "pending_order \<Rightarrow> entry_order \<Rightarrow> tomb_order \<Rightarrow> u64 \<Rightarrow> socket_addr \<Rightarrow> u64 \<Rightarrow> gossip_queue \<times> registry
     \<Rightarrow> usize \<times> gossip_queue \<times> registry" where
  "announce po eo to node addr inc gr =
     (case gr of (q, r) \<Rightarrow>
       let q' = gossip_add po (LeaveUpd node addr inc) q;
           names_before = length (registry_registered eo r);
           r' = remove_by_node eo to node r;
           names_after = length (registry_registered eo r') in
       (names_before - names_after, q', r'))"

fun drain_loop ::
  "drain_config \<Rightarrow> ('v, 'n, 'e, 'w) transport \<Rightarrow> 'v drain_tick list \<Rightarrow> 'v router_command list \<Rightarrow> outbound_drain_outcome
     \<Rightarrow> 'n connection_manager \<times> 'w
     \<Rightarrow> (outbound_drain_outcome \<times> 'v router_command list \<times> 'n connection_manager \<times> 'w) option" where
  "drain_loop cfg T [] rx out cw = None"
| "drain_loop cfg T (t # ts) rx out cw =
     (let rx = rx @ tick_arrived t; remaining = drain_timeout cfg - tick_elapsed t in
      if remaining = 0 then Some (out\<lparr>od_timed_out := True\<rparr>, rx, cw)
      else case rx of
        SendCmd node f # rx' \<Rightarrow>
          (case cm_route T node f cw of
             (Inr _, cw') \<Rightarrow> drain_loop cfg T ts rx' (out\<lparr>delivered_count := delivered_count out + 1\<rparr>) cw'
           | (Inl _, cw') \<Rightarrow> drain_loop cfg T ts rx' (out\<lparr>undrained_count := undrained_count out + 1\<rparr>) cw')
      | [] \<Rightarrow> if tick_closed t then Some (out, [], cw) else Some (out\<lparr>od_timed_out := True\<rparr>, [], cw))"

definition drain_outbound ::
  "drain_config \<Rightarrow> ('v, 'n, 'e, 'w) transport \<Rightarrow> 'v drain_tick list \<Rightarrow> 'v router_command list
     \<Rightarrow> 'n connection_manager \<times> 'w
     \<Rightarrow> (outbound_drain_outcome \<times> 'v router_command list \<times> 'n connection_manager \<times> 'w) option" where
  "drain_outbound cfg T ts rx cw =
     (case drain_loop cfg T ts rx \<lparr>delivered_count = 0, undrained_count = 0, od_timed_out = False\<rparr> cw of
        None \<Rightarrow> None
      | Some (out, rx', cw') \<Rightarrow>
          if od_timed_out out then Some (out\<lparr>undrained_count := undrained_count out + length rx'\<rparr>, [], cw')
          else Some (out, rx', cw'))"

text \<open>The whole protocol; \<open>d1\<close>, \<open>d2\<close>, \<open>d3\<close> are the measured durations of the phases.\<close>

definition node_drain ::
  "drain_config \<Rightarrow> ('v, 'n, 'e, 'w) transport \<Rightarrow> pending_order \<Rightarrow> entry_order \<Rightarrow> tomb_order
     \<Rightarrow> ((u64, 'n) hashmap \<Rightarrow> (u64, 'n) hashmap) \<Rightarrow> 'v drain_tick list \<Rightarrow> duration \<times> duration \<times> duration
     \<Rightarrow> u64 \<Rightarrow> socket_addr \<Rightarrow> u64 \<Rightarrow> usize \<Rightarrow> ('v, 'n) drain_context \<times> 'w
     \<Rightarrow> (drain_result \<times> ('v, 'n) drain_context \<times> 'w) option" where
  "node_drain cfg T po eo to co ts durations node addr inc process_count cx =
     (case cx of (ctx, w) \<Rightarrow> case durations of (d1, d2, d3) \<Rightarrow>
       case drain_outbound cfg T ts (dc_remote_rx ctx) (dc_connections ctx, w) of
         None \<Rightarrow> None
       | Some (out, rx, cm, w1) \<Rightarrow>
           let (_, q, r) = announce po eo to node addr inc (dc_gossip ctx, dc_registry ctx);
               (_, cm', w2) = drain_connections T co (cm, w1) in
           Some (\<lparr>processes_stopped = process_count, messages_drained = delivered_count out,
                   messages_undrained = undrained_count out, phase_durations = [d1, d2, d3],
                   dr_timed_out = od_timed_out out\<rparr>,
                 \<lparr>dc_gossip = q, dc_registry = r, dc_remote_rx = rx, dc_connections = cm'\<rparr>, w2))"

section \<open>Draining the outbound queue\<close>

text \<open>Routing a sequence of commands, with the results.\<close>

fun route_seq ::
  "('v, 'n, 'e, 'w) transport \<Rightarrow> 'v router_command list \<Rightarrow> 'n connection_manager \<times> 'w
     \<Rightarrow> ('e connection_error + unit) list \<times> 'n connection_manager \<times> 'w" where
  "route_seq T [] cw = ([], cw)"
| "route_seq T (SendCmd node f # cs) cw =
     (let (r, cw1) = cm_route T node f cw; (rs, cw2) = route_seq T cs cw1 in (r # rs, cw2))"

definition failures :: "('a + 'b) list \<Rightarrow> nat" where
  "failures rs = length (filter isl rs)"

definition successes :: "('a + 'b) list \<Rightarrow> nat" where
  "successes rs = length (filter (\<lambda>r. \<not> isl r) rs)"

lemma counts_simps [simp]:
  "failures [] = 0" "successes [] = 0"
  "failures (Inl e # rs) = Suc (failures rs)" "failures (Inr x # rs) = failures rs"
  "successes (Inl e # rs) = successes rs" "successes (Inr x # rs) = Suc (successes rs)"
  by (simp_all add: failures_def successes_def)

lemma counts_total: "successes rs + failures rs = length rs"
  unfolding successes_def failures_def using sum_length_filter_compl [of isl rs] by simp

lemma length_route_seq: "length (fst (route_seq T cs cw)) = length cs"
  by (induction cs arbitrary: cw rule: list.induct)
     (simp, metis (no_types, lifting) route_seq.simps(2) router_command.exhaust case_prod_beta fst_conv length_Cons)

lemma drain_loop_spec:
  "drain_loop cfg T ts rx out cw = Some (out', rx', cw') \<Longrightarrow>
   \<exists>n sent rs. n \<le> length ts \<and> sent @ rx' = rx @ concat (map tick_arrived (take n ts)) \<and> route_seq T sent cw = (rs, cw')
     \<and> delivered_count out' = delivered_count out + successes rs \<and> undrained_count out' = undrained_count out + failures rs
     \<and> (\<not> od_timed_out out' \<longrightarrow> rx' = [] \<and> \<not> od_timed_out out)"
proof (induction ts arbitrary: rx out cw)
  case (Cons t ts)
  show ?case
  proof (cases "drain_timeout cfg - tick_elapsed t = 0 \<or> rx @ tick_arrived t = []")
    case True
    then show ?thesis using Cons.prems
      by (intro exI [of _ 1] exI [of _ "[]"] exI [of _ "[]"]) (auto simp: Let_def split: if_splits list.splits)
  next
    case False
    then obtain node f q where q: "rx @ tick_arrived t = SendCmd node f # q"
      by (metis list.exhaust router_command.exhaust)
    obtain r cw1 where r: "cm_route T node f cw = (r, cw1)" by (cases "cm_route T node f cw")
    obtain out1 where o1: "drain_loop cfg T ts q out1 cw1 = Some (out', rx', cw')"
      and c: "delivered_count out1 + successes rs = delivered_count out + successes (r # rs)"
        "undrained_count out1 + failures rs = undrained_count out + failures (r # rs)" "od_timed_out out1 = od_timed_out out" for rs
      using Cons.prems False q r by (cases r) (auto simp: Let_def)
    from Cons.IH [OF o1] obtain n sent rs where IH: "n \<le> length ts" "sent @ rx' = q @ concat (map tick_arrived (take n ts))"
      "route_seq T sent cw1 = (rs, cw')" "delivered_count out' = delivered_count out1 + successes rs"
      "undrained_count out' = undrained_count out1 + failures rs" "\<not> od_timed_out out' \<longrightarrow> rx' = [] \<and> \<not> od_timed_out out1"
      by blast
    show ?thesis
      by (intro exI [of _ "Suc n"] exI [of _ "SendCmd node f # sent"] exI [of _ "r # rs"])
         (use IH q r c(1,2) [of rs] c(3) in \<open>simp add: append_assoc [symmetric] del: append_assoc\<close>)
  qed
qed simp

lemma drain_loop_returns:
  "t \<in> set ts \<Longrightarrow> drain_timeout cfg \<le> tick_elapsed t \<Longrightarrow> drain_loop cfg T ts rx out cw \<noteq> None"
proof (induction ts arbitrary: rx out cw)
  case (Cons u ts)
  show ?case
  proof (cases "t \<in> set ts")
    case True
    then show ?thesis using Cons.IH [OF _ Cons.prems(2)]
      by (auto simp: Let_def split: list.splits router_command.splits prod.splits sum.splits)
  next
    case False
    then show ?thesis using Cons.prems by auto
  qed
qed simp

lemma drain_outbound_returns:
  "t \<in> set ts \<Longrightarrow> drain_timeout cfg \<le> tick_elapsed t \<Longrightarrow> drain_outbound cfg T ts rx cw \<noteq> None"
  using drain_loop_returns [of t ts cfg T rx _ cw] by (auto simp: drain_outbound_def split: option.splits)

lemma drain_outbound_spec:
  assumes "drain_outbound cfg T ts rx cw = Some (out, rx', cw')"
  shows "\<exists>n sent rest rs. n \<le> length ts \<and> sent @ rest = rx @ concat (map tick_arrived (take n ts)) \<and> route_seq T sent cw = (rs, cw')
     \<and> delivered_count out = successes rs \<and> undrained_count out = failures rs + length rest
     \<and> (\<not> od_timed_out out \<longrightarrow> rest = []) \<and> rx' = []"
proof -
  let ?o = "\<lparr>delivered_count = 0, undrained_count = 0, od_timed_out = False\<rparr>"
  obtain out1 rest where l: "drain_loop cfg T ts rx ?o cw = Some (out1, rest, cw')"
    and o: "out = (if od_timed_out out1 then out1\<lparr>undrained_count := undrained_count out1 + length rest\<rparr> else out1)"
      "rx' = (if od_timed_out out1 then [] else rest)"
    using assms by (auto simp: drain_outbound_def split: option.splits prod.splits if_splits)
  from drain_loop_spec [OF l] obtain n sent rs where
    "n \<le> length ts" "sent @ rest = rx @ concat (map tick_arrived (take n ts))" "route_seq T sent cw = (rs, cw')"
    "delivered_count out1 = successes rs" "undrained_count out1 = failures rs" "\<not> od_timed_out out1 \<longrightarrow> rest = []"
    by auto
  then show ?thesis
    by (intro exI [of _ n] exI [of _ sent] exI [of _ rest] exI [of _ rs]) (use o in auto)
qed

section \<open>Closing the connections and announcing\<close>

lemma fold_close:
  "hm_get (fst (fold (\<lambda>node (cs, w). case hm_get cs node of
       Some conn \<Rightarrow> (hm_remove node cs, conn_close T conn w) | None \<Rightarrow> (cs, w)) ks (cs, w))) x
     = (if x \<in> set ks then None else hm_get cs x)"
proof (induction ks arbitrary: cs w)
  case (Cons k ks)
  show ?case by (cases "hm_get cs k") (auto simp: Cons.IH)
qed simp

lemma hm_all_None: "(\<And>k. hm_get m k = None) \<Longrightarrow> m = []"
proof (cases m)
  case (Cons a ms)
  assume "\<And>k. hm_get m k = None"
  from this [of "fst a"] Cons show ?thesis by (cases a) (simp add: hm_get_def)
qed

lemma drain_connections_empty:
  assumes "hash_order co"
  shows "\<exists>w'. drain_connections T co (cm, w) =
     (length (connections cm), cm\<lparr>connections := [], addresses := [], reconnect_attempts := []\<rparr>, w')"
proof -
  let ?f = "fold (\<lambda>node (cs, w). case hm_get cs node of
       Some conn \<Rightarrow> (hm_remove node cs, conn_close T conn w) | None \<Rightarrow> (cs, w)) (map fst (co (connections cm))) (connections cm, w)"
  have "hm_get (fst ?f) x = None" for x
    using hash_order_set [OF assms, of "connections cm"] hm_get_in_set [of "connections cm" x]
    unfolding fold_close by (cases "hm_get (connections cm) x") force+
  then have "fst ?f = []" by (rule hm_all_None)
  then obtain w' where "?f = ([], w')" by (cases ?f) simp
  then show ?thesis by (simp add: drain_connections_def Let_def)
qed

lemma remove_by_node_wf [wf_intros]: "registry_wf r \<Longrightarrow> hash_order to \<Longrightarrow> registry_wf (remove_by_node eo to node r)"
  unfolding remove_by_node_def using fold_remove_where by blast

lemma remove_by_node_live:
  "registry_wf r \<Longrightarrow> hash_order eo \<Longrightarrow> hash_order to \<Longrightarrow> live (remove_by_node eo to node r) = {e \<in> live r. re_node_id e \<noteq> node}"
  unfolding remove_by_node_def by (rule remove_all_where_live)

definition names :: "registry \<Rightarrow> string set" where
  "names r = re_name ` live r"

lemma registered_names:
  assumes "registry_wf r" and "hash_order eo"
  shows "set (map fst (registry_registered eo r)) = names r"
proof -
  have "n \<in> fst ` set (registry_registered eo r) \<longleftrightarrow> registry_lookup r n \<noteq> None" for n
    using registered_mem [OF assms, of n] by force
  then have "n \<in> set (map fst (registry_registered eo r)) \<longleftrightarrow> n \<in> names r" for n
    using lookup_None_iff [OF assms(1), of n] unfolding names_def set_map image_iff by auto
  then show ?thesis by blast
qed

lemma registered_length:
  "registry_wf r \<Longrightarrow> hash_order eo \<Longrightarrow> length (registry_registered eo r) = card (names r)"
  using registered_names [of r eo] registered_keys(2) [of r eo] distinct_card [of "map fst (registry_registered eo r)"] by simp

lemma announce_spec:
  assumes "registry_wf r" and "hash_order eo" and "hash_order to"
  shows "announce po eo to node addr inc (q, r) =
     (card (names r - names (remove_by_node eo to node r)), gossip_add po (LeaveUpd node addr inc) q, remove_by_node eo to node r)"
proof -
  let ?r = "remove_by_node eo to node r"
  have wf: "registry_wf ?r" using assms by (simp add: wf_intros)
  have "names ?r \<subseteq> names r" using remove_by_node_live [OF assms] by (auto simp: names_def)
  moreover have "finite (names ?r)" unfolding registered_names [OF wf assms(2), symmetric] by simp
  ultimately show ?thesis using assms wf by (simp add: announce_def Let_def registered_length card_Diff_subset)
qed

lemma leave_pending:
  "\<exists>p. hm_get (pending (gossip_add po u q)) (upd_node_id u) = Some p \<and> (pu_update p = u \<or>
       hm_get (pending q) (upd_node_id u) = Some p \<and> \<not> supersedes u (pu_update p))"
  by (auto simp: gossip_add_def Let_def split: option.splits)

text \<open>
  A drain of the outbound queue loses no command silently. The commands that were queued or arrived while
  it ran are routed in their order of arrival up to some point; \<open>delivered\<close> counts those that the transport
  accepted, \<open>undrained\<close> the refused ones and all that were left; nothing is left unless the drain timed out. It
  returns as soon as the timeout has passed at the top of a round.
\<close>

theorem drain_outbound_accounts:
  "(\<forall>t \<in> set ts. drain_timeout cfg \<le> tick_elapsed t \<longrightarrow> drain_outbound cfg T ts rx cw \<noteq> None)
   \<and> (\<forall>out rx' cw'. drain_outbound cfg T ts rx cw = Some (out, rx', cw') \<longrightarrow>
      (\<exists>n sent rest rs. sent @ rest = rx @ concat (map tick_arrived (take n ts)) \<and> route_seq T sent cw = (rs, cw')
        \<and> delivered_count out = successes rs \<and> undrained_count out = failures rs + length rest
        \<and> delivered_count out + undrained_count out = length rx + length (concat (map tick_arrived (take n ts)))
        \<and> (\<not> od_timed_out out \<longrightarrow> rest = []) \<and> rx' = []))"
proof (intro conjI ballI allI impI)
  fix t assume "t \<in> set ts" "drain_timeout cfg \<le> tick_elapsed t"
  then show "drain_outbound cfg T ts rx cw \<noteq> None"
    by (rule drain_outbound_returns)
next
  fix out rx' cw' assume "drain_outbound cfg T ts rx cw = Some (out, rx', cw')"
  from drain_outbound_spec [OF this] obtain n sent rest rs where
    s: "sent @ rest = rx @ concat (map tick_arrived (take n ts))" "route_seq T sent cw = (rs, cw')"
      "delivered_count out = successes rs" "undrained_count out = failures rs + length rest"
      "\<not> od_timed_out out \<longrightarrow> rest = []" "rx' = []"
    by blast
  moreover have "delivered_count out + undrained_count out = length (sent @ rest)"
    using s(3,4) counts_total [of rs] length_route_seq [of T sent cw] s(2) by simp
  ultimately show "\<exists>n sent rest rs. sent @ rest = rx @ concat (map tick_arrived (take n ts)) \<and> route_seq T sent cw = (rs, cw')
        \<and> delivered_count out = successes rs \<and> undrained_count out = failures rs + length rest
        \<and> delivered_count out + undrained_count out = length rx + length (concat (map tick_arrived (take n ts)))
        \<and> (\<not> od_timed_out out \<longrightarrow> rest = []) \<and> rx' = []"
    by (metis length_append)
qed

text \<open>A transport that records what it sends.\<close>

definition logging_transport :: "('v, unit, unit, 'v frame list) transport" where
  "logging_transport =
     \<lparr>connect_to = \<lambda>_ w. (Inr (), w), conn_send = \<lambda>f c w. (Inr (), c, w @ [f]), conn_close = \<lambda>_ w. w\<rparr>"

definition sample_frame :: "nat frame" where
  "sample_frame = \<lparr>version = 1, msg_type = MsgSend, request_id = 0, header = 0, payload = 5\<rparr>"

definition sample_peers :: "unit connection_manager" where
  "sample_peers = connection_manager_new\<lparr>connections := [(2, ())]\<rparr>"

definition sample_ticks :: "nat drain_tick list" where
  "sample_ticks = [\<lparr>tick_elapsed = 0, tick_arrived = [SendCmd 3 sample_frame], tick_closed = False\<rparr>,
                   \<lparr>tick_elapsed = 1, tick_arrived = [], tick_closed = False\<rparr>,
                   \<lparr>tick_elapsed = from_secs 30, tick_arrived = [SendCmd 2 sample_frame], tick_closed = True\<rparr>]"

lemmas drain_sample_defs = logging_transport_def sample_peers_def sample_ticks_def drain_config_default_def
  connection_manager_new_def from_secs_def cm_route_def hm_get_def drain_outbound_def

theorem drain_outbound_accounts_witness:
  "\<exists>out cw. drain_outbound drain_config_default logging_transport sample_ticks [SendCmd 2 sample_frame] (sample_peers, [])
      = Some (out, [], cw) \<and> delivered_count out = 1 \<and> undrained_count out = 2"
proof -
  let ?d = "drain_outbound drain_config_default logging_transport sample_ticks [SendCmd 2 sample_frame] (sample_peers, [])"
  have e: "map_option (\<lambda>(out, rx, cw). (delivered_count out, undrained_count out)) ?d = Some (1, 2)"
    by (simp add: drain_sample_defs hm_modify_def)
  then obtain out rx cw where d: "?d = Some (out, rx, cw)" "delivered_count out = 1" "undrained_count out = 2" by auto
  moreover have "rx = []"
    using drain_outbound_accounts [of sample_ticks drain_config_default logging_transport "[SendCmd 2 sample_frame]" "(sample_peers, [])"] d(1)
    by blast
  ultimately show ?thesis by blast
qed



end
