(* ===== verification/Supervisor.thy ===== *)
theory Supervisor
  imports Runtime
begin

text \<open>
  Supervisor specifications and the supervisor engine (\<^verbatim>\<open>crates/rebar-core/src/supervisor/spec.rs\<close>,
  \<^verbatim>\<open>supervisor/engine.rs\<close>). The handling of one message of the supervisor loop is one step on the
  supervisor's state and a world: the runtime, the child tasks that have not terminated yet
  (\<open>w_running\<close>) and a log of the starts and stops. What a child does is the environment's: \<open>boots pid\<close>
  says that its factory returns a task instead of panicking, \<open>finishes pid\<close> that it ends by itself
  within its shutdown timeout. The end of a task, with the cleanup of its table entry and its
  \<open>ChildExited\<close> message, is a later step of its own. The factory of a child is opaque.
\<close>

section \<open>Specifications\<close>

datatype restart_strategy = OneForOne | OneForAll | RestForOne

datatype restart_type = Permanent | Transient | Temporary

fun should_restart :: "restart_type \<Rightarrow> exit_reason \<Rightarrow> bool" where
  "should_restart Permanent reason = True"
| "should_restart Transient reason = (\<not> is_normal reason)"
| "should_restart Temporary reason = False"

datatype shutdown_strategy = ShutdownTimeout duration | BrutalKill

record child_spec =
  cspec_id :: string
  cspec_restart :: restart_type
  cspec_shutdown :: shutdown_strategy
  cspec_register :: bool

definition child_spec_new :: "string \<Rightarrow> child_spec" where
  "child_spec_new name = \<lparr>cspec_id = name, cspec_restart = Permanent,
     cspec_shutdown = ShutdownTimeout (from_secs 5), cspec_register = False\<rparr>"

definition with_restart :: "restart_type \<Rightarrow> child_spec \<Rightarrow> child_spec" where
  "with_restart r c = c\<lparr>cspec_restart := r\<rparr>"

definition with_shutdown :: "shutdown_strategy \<Rightarrow> child_spec \<Rightarrow> child_spec" where
  "with_shutdown s c = c\<lparr>cspec_shutdown := s\<rparr>"

definition registered :: "child_spec \<Rightarrow> child_spec" where
  "registered c = c\<lparr>cspec_register := True\<rparr>"

record supervisor_spec =
  ss_strategy :: restart_strategy
  ss_max_restarts :: u32
  ss_max_seconds :: u32
  ss_children :: "child_spec list"

definition supervisor_spec_new :: "restart_strategy \<Rightarrow> supervisor_spec" where
  "supervisor_spec_new s = \<lparr>ss_strategy = s, ss_max_restarts = 3, ss_max_seconds = 5, ss_children = []\<rparr>"

definition with_max_restarts :: "u32 \<Rightarrow> supervisor_spec \<Rightarrow> supervisor_spec" where
  "with_max_restarts n s = s\<lparr>ss_max_restarts := n\<rparr>"

definition with_max_seconds :: "u32 \<Rightarrow> supervisor_spec \<Rightarrow> supervisor_spec" where
  "with_max_seconds n s = s\<lparr>ss_max_seconds := n\<rparr>"

definition with_child :: "child_spec \<Rightarrow> supervisor_spec \<Rightarrow> supervisor_spec" where
  "with_child c s = s\<lparr>ss_children := ss_children s @ [c]\<rparr>"

section \<open>State\<close>

text \<open>\<open>c_abort\<close> and \<open>c_done\<close> say whether the abort handle and the receiver of the end of the task are present.\<close>

record child_state =
  c_spec :: child_spec
  c_pid :: "process_id option"
  c_abort :: bool
  c_done :: bool

record supervisor_state =
  sup_strategy :: restart_strategy
  sup_max_restarts :: u32
  sup_max_seconds :: u32
  sup_children :: "child_state list"
  sup_restart_times :: "instant list"

datatype sup_event = Started nat process_id | Stopped nat process_id

record ('c, 'h, 'd) sup_world =
  w_rt :: "('c, 'h, 'd) runtime"
  w_running :: "(nat \<times> process_id) list"
  w_log :: "sup_event list"

datatype supervisor_msg =
    ChildExited nat process_id exit_reason
  | AddChild child_spec
  | AddChildren "child_spec list"
  | Shutdown

section \<open>Starting and stopping children\<close>

definition child_state_new :: "child_spec \<Rightarrow> child_state" where
  "child_state_new spec = \<lparr>c_spec = spec, c_pid = None, c_abort = False, c_done = False\<rparr>"

definition start_child ::
  "('v message, 'c) mpsc \<Rightarrow> (process_id \<Rightarrow> bool) \<Rightarrow> nat \<Rightarrow> child_state \<times> ('c, 'h, 'd) sup_world
     \<Rightarrow> child_state \<times> ('c, 'h, 'd) sup_world" where
  "start_child M boots index cw =
     (case cw of (child, w) \<Rightarrow>
       let (pid, rt1) = spawn M (w_rt w);
           rt2 = (if cspec_register (c_spec child)
                  then rt1\<lparr>rt_table := snd (table_reregister (cspec_id (c_spec child)) pid (rt_table rt1))\<rparr>
                  else rt1) in
       (child\<lparr>c_abort := boots pid, c_pid := Some pid, c_done := True\<rparr>,
        w\<lparr>w_rt := rt2,
          w_running := w_running w @ (if boots pid then [(index, pid)] else []),
          w_log := w_log w @ [Started index pid]\<rparr>))"

definition stop_child ::
  "(process_id \<Rightarrow> bool) \<Rightarrow> nat \<Rightarrow> child_state \<times> ('c, 'h, 'd) sup_world \<Rightarrow> child_state \<times> ('c, 'h, 'd) sup_world" where
  "stop_child finishes index cw =
     (case cw of (child, w) \<Rightarrow>
       (case c_pid child of
          None \<Rightarrow> (child\<lparr>c_abort := False, c_done := False\<rparr>, w)
        | Some pid \<Rightarrow>
            let terminated =
                  (case cspec_shutdown (c_spec child) of
                     BrutalKill \<Rightarrow> c_abort child \<and> c_done child
                   | ShutdownTimeout _ \<Rightarrow> c_done child \<and> finishes pid) in
            (child\<lparr>c_abort := False, c_done := False, c_pid := None\<rparr>,
             w\<lparr>w_running := (if terminated then filter (\<lambda>(_, p). p \<noteq> pid) (w_running w) else w_running w),
               w_log := w_log w @ [Stopped index pid]\<rparr>)))"

type_synonym ('c, 'h, 'd) sup_system = "supervisor_state \<times> ('c, 'h, 'd) sup_world"

text \<open>The loop bodies: a child of the supervisor's list is started, or stopped if it has a pid.\<close>

definition start_at ::
  "('v message, 'c) mpsc \<Rightarrow> (process_id \<Rightarrow> bool) \<Rightarrow> nat \<Rightarrow> ('c, 'h, 'd) sup_system \<Rightarrow> ('c, 'h, 'd) sup_system" where
  "start_at M boots i sw =
     (case sw of (st, w) \<Rightarrow>
       let (child, w') = start_child M boots i (sup_children st ! i, w) in
       (st\<lparr>sup_children := (sup_children st)[i := child]\<rparr>, w'))"

definition stop_at ::
  "(process_id \<Rightarrow> bool) \<Rightarrow> nat \<Rightarrow> ('c, 'h, 'd) sup_system \<Rightarrow> ('c, 'h, 'd) sup_system" where
  "stop_at finishes i sw =
     (case sw of (st, w) \<Rightarrow>
       if c_pid (sup_children st ! i) \<noteq> None
       then
         let (child, w') = stop_child finishes i (sup_children st ! i, w) in
         (st\<lparr>sup_children := (sup_children st)[i := child]\<rparr>, w')
       else (st, w))"

definition shutdown_all_children ::
  "(process_id \<Rightarrow> bool) \<Rightarrow> ('c, 'h, 'd) sup_system \<Rightarrow> ('c, 'h, 'd) sup_system" where
  "shutdown_all_children finishes sw =
     fold (stop_at finishes) (rev [0..<length (sup_children (fst sw))]) sw"

section \<open>The supervisor\<close>

definition check_restart_limit :: "instant \<Rightarrow> supervisor_state \<Rightarrow> bool \<times> supervisor_state" where
  "check_restart_limit now st =
     (if sup_max_restarts st = 0 then (False, st)
      else
        let window = from_secs (unat (sup_max_seconds st));
            times = dropWhile (\<lambda>front. duration_since now front > window) (sup_restart_times st @ [now]) in
        (length times \<le> unat (sup_max_restarts st), st\<lparr>sup_restart_times := times\<rparr>))"

definition clear_child :: "nat \<Rightarrow> supervisor_state \<Rightarrow> supervisor_state" where
  "clear_child i st =
     st\<lparr>sup_children := (sup_children st)[i := (sup_children st ! i)\<lparr>c_pid := None, c_abort := False, c_done := False\<rparr>]\<rparr>"

definition apply_strategy ::
  "('v message, 'c) mpsc \<Rightarrow> (process_id \<Rightarrow> bool) \<Rightarrow> (process_id \<Rightarrow> bool) \<Rightarrow> nat
     \<Rightarrow> ('c, 'h, 'd) sup_system \<Rightarrow> ('c, 'h, 'd) sup_system" where
  "apply_strategy M boots finishes index sw =
     (let children = sup_children (fst sw); len = length children in
      case sup_strategy (fst sw) of
        OneForOne \<Rightarrow> start_at M boots index sw
      | OneForAll \<Rightarrow>
          let to_restart = filter (\<lambda>i. i = index \<or> c_pid (children ! i) \<noteq> None) [0..<len];
              stopped = fold (\<lambda>i. if i \<noteq> index then stop_at finishes i else (\<lambda>s. s)) (rev [0..<len]) sw in
          fold (start_at M boots) to_restart stopped
      | RestForOne \<Rightarrow>
          let to_restart = filter (\<lambda>i. i = index \<or> c_pid (children ! i) \<noteq> None) [index..<len];
              stopped = fold (stop_at finishes) (rev [index + 1..<len]) sw in
          fold (start_at M boots) to_restart stopped)"

definition handle_child_exit ::
  "('v message, 'c) mpsc \<Rightarrow> (process_id \<Rightarrow> bool) \<Rightarrow> (process_id \<Rightarrow> bool) \<Rightarrow> instant
     \<Rightarrow> nat \<Rightarrow> process_id \<Rightarrow> exit_reason \<Rightarrow> ('c, 'h, 'd) sup_system \<Rightarrow> bool \<times> ('c, 'h, 'd) sup_system" where
  "handle_child_exit M boots finishes now index pid reason sw =
     (case sw of (st, w) \<Rightarrow>
       if index \<ge> length (sup_children st) \<or> c_pid (sup_children st ! index) \<noteq> Some pid then (False, sw)
       else
         let st1 = clear_child index st in
         if \<not> should_restart (cspec_restart (c_spec (sup_children st1 ! index))) reason then (False, st1, w)
         else
           let (allowed, st2) = check_restart_limit now st1 in
           if \<not> allowed then (True, shutdown_all_children finishes (st2, w))
           else (False, apply_strategy M boots finishes index (st2, w)))"

text \<open>\<open>AddChild\<close>: the child is started under the next index and then pushed.\<close>

definition add_child ::
  "('v message, 'c) mpsc \<Rightarrow> (process_id \<Rightarrow> bool) \<Rightarrow> child_spec \<Rightarrow> ('c, 'h, 'd) sup_system
     \<Rightarrow> process_id \<times> ('c, 'h, 'd) sup_system" where
  "add_child M boots spec sw =
     (case sw of (st, w) \<Rightarrow>
       let idx = length (sup_children st);
           (child, w') = start_child M boots idx (child_state_new spec, w) in
       (the (c_pid child), st\<lparr>sup_children := sup_children st @ [child]\<rparr>, w'))"

fun add_children ::
  "('v message, 'c) mpsc \<Rightarrow> (process_id \<Rightarrow> bool) \<Rightarrow> child_spec list \<Rightarrow> ('c, 'h, 'd) sup_system
     \<Rightarrow> process_id list \<times> ('c, 'h, 'd) sup_system" where
  "add_children M boots [] sw = ([], sw)"
| "add_children M boots (spec # specs) sw =
     (let (pid, sw1) = add_child M boots spec sw; (pids, sw2) = add_children M boots specs sw1 in
      (pid # pids, sw2))"

text \<open>The beginning of \<open>supervisor_loop\<close>: push the children, then start them in order.\<close>

definition supervisor_start ::
  "('v message, 'c) mpsc \<Rightarrow> (process_id \<Rightarrow> bool) \<Rightarrow> supervisor_spec \<Rightarrow> child_spec list
     \<Rightarrow> ('c, 'h, 'd) sup_world \<Rightarrow> ('c, 'h, 'd) sup_system" where
  "supervisor_start M boots spec children w =
     fold (start_at M boots) [0..<length children]
       (\<lparr>sup_strategy = ss_strategy spec, sup_max_restarts = ss_max_restarts spec,
         sup_max_seconds = ss_max_seconds spec, sup_children = map child_state_new children,
         sup_restart_times = []\<rparr>, w)"

text \<open>
  One round of the loop: the result is \<open>None\<close> while the supervisor runs, \<open>Some True\<close> when it
  escalates and \<open>Some False\<close> when it shuts down cleanly.
\<close>

fun supervisor_round ::
  "('v message, 'c) mpsc \<Rightarrow> (process_id \<Rightarrow> bool) \<Rightarrow> (process_id \<Rightarrow> bool) \<Rightarrow> instant
     \<Rightarrow> supervisor_msg \<Rightarrow> ('c, 'h, 'd) sup_system \<Rightarrow> bool option \<times> ('c, 'h, 'd) sup_system" where
  "supervisor_round M boots finishes now (ChildExited index pid reason) sw =
     (let (stop, sw1) = handle_child_exit M boots finishes now index pid reason sw in
      (if stop then Some True else None, sw1))"
| "supervisor_round M boots finishes now (AddChild spec) sw = (None, snd (add_child M boots spec sw))"
| "supervisor_round M boots finishes now (AddChildren specs) sw = (None, snd (add_children M boots specs sw))"
| "supervisor_round M boots finishes now Shutdown sw = (Some False, shutdown_all_children finishes sw)"

section \<open>Restart intensity\<close>

lemma dropWhile_sorted:
  assumes "sorted ts" and "\<And>x y. x \<le> y \<Longrightarrow> \<not> P x \<Longrightarrow> \<not> P y"
  shows "dropWhile P ts = filter (\<lambda>x. \<not> P x) ts"
  using assms(1)
proof (induction ts)
  case (Cons x xs)
  then have "\<not> P x \<Longrightarrow> filter (\<lambda>x. \<not> P x) xs = xs" using assms(2) by (auto simp: filter_id_conv)
  with Cons show ?case by simp
qed simp

text \<open>The restart times after calls at the times \<open>ts\<close>.\<close>

definition after_checks :: "instant list \<Rightarrow> supervisor_state \<Rightarrow> supervisor_state" where
  "after_checks ts st = fold (\<lambda>now. snd \<circ> check_restart_limit now) ts st"

lemma check_fields [simp]:
  "sup_max_restarts (snd (check_restart_limit now st)) = sup_max_restarts st"
  "sup_max_seconds (snd (check_restart_limit now st)) = sup_max_seconds st"
  "sup_children (snd (check_restart_limit now st)) = sup_children st"
  "sup_strategy (snd (check_restart_limit now st)) = sup_strategy st"
  by (simp_all add: check_restart_limit_def Let_def)

lemma after_checks_fields [simp]:
  "sup_max_restarts (after_checks ts st) = sup_max_restarts st"
  "sup_max_seconds (after_checks ts st) = sup_max_seconds st"
  unfolding after_checks_def by (induction ts arbitrary: st) simp_all

lemma after_checks_times:
  assumes "sup_restart_times st = []" and "sup_max_restarts st \<noteq> 0" and "sorted (ts @ [now])"
  shows "sup_restart_times (after_checks (ts @ [now]) st) =
    filter (\<lambda>t. now - t \<le> from_secs (unat (sup_max_seconds st))) (ts @ [now])"
  using assms(3)
proof (induction ts arbitrary: now rule: rev_induct)
  case Nil
  then show ?case using assms(1,2) by (simp add: after_checks_def check_restart_limit_def Let_def duration_since_def)
next
  case (snoc t ts)
  let ?w = "from_secs (unat (sup_max_seconds st))"
  let ?s = "after_checks (ts @ [t]) st"
  have s: "sup_restart_times ?s = filter (\<lambda>x. t - x \<le> ?w) (ts @ [t])"
    by (rule snoc.IH) (use snoc.prems in \<open>simp add: sorted_append\<close>)
  have sorted: "sorted (sup_restart_times ?s @ [now])"
    unfolding s using snoc.prems by (auto simp: sorted_append intro!: sorted_wrt_filter)
  have step: "after_checks ((ts @ [t]) @ [now]) st = snd (check_restart_limit now ?s)"
    by (simp add: after_checks_def)
  have "sup_restart_times (after_checks ((ts @ [t]) @ [now]) st) =
      dropWhile (\<lambda>x. now - x > ?w) (sup_restart_times ?s @ [now])"
    unfolding step using assms(2) by (simp add: check_restart_limit_def Let_def duration_since_def)
  also have "\<dots> = filter (\<lambda>x. \<not> now - x > ?w) (sup_restart_times ?s @ [now])"
    by (rule dropWhile_sorted [OF sorted]) simp
  also have "\<dots> = filter (\<lambda>x. now - x \<le> ?w) ((ts @ [t]) @ [now])"
    unfolding s using snoc.prems by (auto simp: sorted_append not_less intro!: filter_cong)
  finally show ?case .
qed

section \<open>What a round of starts and stops does\<close>

lemma start_at_effect:
  fixes st :: supervisor_state and w :: "('c, 'h, 'd) sup_world"
  assumes "i < length (sup_children st)" and "pid = fst (spawn M (w_rt w))"
  shows "\<exists>w'. start_at M boots i (st, w) =
      (st\<lparr>sup_children := (sup_children st)[i := (sup_children st ! i)\<lparr>c_abort := boots pid, c_pid := Some pid, c_done := True\<rparr>]\<rparr>, w')
    \<and> w_log w' = w_log w @ [Started i pid]
    \<and> w_running w' = w_running w @ (if boots pid then [(i, pid)] else [])
    \<and> tb_next_id (rt_table (w_rt w')) = tb_next_id (rt_table (w_rt w)) + 1
    \<and> tb_node_id (rt_table (w_rt w')) = tb_node_id (rt_table (w_rt w))"
  by (auto simp: start_at_def start_child_def assms(2) case_prod_beta Let_def spawn_table)

text \<open>The pids that the next starts get.\<close>

definition nth_pid :: "('c, 'h, 'd) sup_world \<Rightarrow> nat \<Rightarrow> process_id" where
  "nth_pid w k = process_id_new (tb_node_id (rt_table (w_rt w))) (tb_next_id (rt_table (w_rt w)) + word_of_nat k)"

lemma nth_pid_0: "nth_pid w 0 = fst (spawn M (w_rt w))"
  by (simp add: nth_pid_def spawn_pid)

lemma fold_start_effect:
  fixes st :: supervisor_state and w :: "('c, 'h, 'd) sup_world"
  assumes "distinct is" and "\<forall>i \<in> set is. i < length (sup_children st)"
  shows "\<exists>st' w'. fold (start_at M boots) is (st, w) = (st', w')
    \<and> length (sup_children st') = length (sup_children st)
    \<and> (\<forall>k < length is. c_pid (sup_children st' ! (is ! k)) = Some (nth_pid w k))
    \<and> (\<forall>j < length (sup_children st). j \<notin> set is \<longrightarrow> sup_children st' ! j = sup_children st ! j)
    \<and> w_log w' = w_log w @ map (\<lambda>k. Started (is ! k) (nth_pid w k)) [0..<length is]
    \<and> w_running w' = w_running w @ concat (map (\<lambda>k. if boots (nth_pid w k) then [(is ! k, nth_pid w k)] else []) [0..<length is])"
  using assms
proof (induction "is" arbitrary: st w)
  case (Cons i js)
  let ?pid = "fst (spawn M (w_rt w))"
  let ?c = "(sup_children st ! i)\<lparr>c_abort := boots ?pid, c_pid := Some ?pid, c_done := True\<rparr>"
  let ?st1 = "st\<lparr>sup_children := (sup_children st)[i := ?c]\<rparr>"
  from start_at_effect [of i st ?pid M w boots] Cons.prems(2) obtain w1 where w1:
      "start_at M boots i (st, w) = (?st1, w1)" "w_log w1 = w_log w @ [Started i ?pid]"
      "w_running w1 = w_running w @ (if boots ?pid then [(i, ?pid)] else [])"
      "tb_next_id (rt_table (w_rt w1)) = tb_next_id (rt_table (w_rt w)) + 1"
      "tb_node_id (rt_table (w_rt w1)) = tb_node_id (rt_table (w_rt w))"
    by auto
  have shift: "nth_pid w1 k = nth_pid w (Suc k)" for k
    by (simp add: nth_pid_def w1 algebra_simps)
  have p0: "?pid = nth_pid w 0" by (rule nth_pid_0 [symmetric])
  have pre: "distinct js" "\<forall>j \<in> set js. j < length (sup_children ?st1)" using Cons.prems by auto
  from Cons.IH [OF pre, of w1] obtain st' w' where r:
      "fold (start_at M boots) js (?st1, w1) = (st', w')"
      "length (sup_children st') = length (sup_children ?st1)"
      "\<forall>k < length js. c_pid (sup_children st' ! (js ! k)) = Some (nth_pid w (Suc k))"
      "\<forall>j < length (sup_children ?st1). j \<notin> set js \<longrightarrow> sup_children st' ! j = sup_children ?st1 ! j"
      "w_log w' = w_log w1 @ map (\<lambda>k. Started (js ! k) (nth_pid w (Suc k))) [0..<length js]"
      "w_running w' = w_running w1 @ concat (map (\<lambda>k. if boots (nth_pid w (Suc k)) then [(js ! k, nth_pid w (Suc k))] else []) [0..<length js])"
    unfolding shift by blast
  have "c_pid (sup_children st' ! ((i # js) ! k)) = Some (nth_pid w k)" if "k < length (i # js)" for k
    using that r(3) r(4) Cons.prems p0 by (cases k) auto
  moreover have "\<forall>j < length (sup_children st). j \<notin> set (i # js) \<longrightarrow> sup_children st' ! j = sup_children st ! j"
    using r(4) by auto
  ultimately show ?case
    using r(1,2,5,6) by (simp add: w1 map_upt_Suc p0 del: upt_Suc cong: if_cong)
qed simp

lemma stop_at_effect:
  fixes st :: supervisor_state and w :: "('c, 'h, 'd) sup_world"
  assumes "i < length (sup_children st)"
  shows "\<exists>w'. stop_at finishes i (st, w) =
      (if c_pid (sup_children st ! i) = None then st
       else st\<lparr>sup_children := (sup_children st)[i := (sup_children st ! i)\<lparr>c_abort := False, c_done := False, c_pid := None\<rparr>]\<rparr>, w')
    \<and> w_rt w' = w_rt w
    \<and> w_log w' = w_log w @ (case c_pid (sup_children st ! i) of None \<Rightarrow> [] | Some p \<Rightarrow> [Stopped i p])
    \<and> set (w_running w') \<subseteq> set (w_running w)
    \<and> (\<forall>e \<in> set (w_running w). Some (snd e) \<noteq> c_pid (sup_children st ! i) \<longrightarrow> e \<in> set (w_running w'))"
  using assms by (auto simp: stop_at_def stop_child_def Let_def split: option.splits)

lemma fold_stop_effect:
  fixes st :: supervisor_state and w :: "('c, 'h, 'd) sup_world"
  assumes "distinct is" and "\<forall>i \<in> set is. i < length (sup_children st)"
  shows "\<exists>st' w'. fold (stop_at finishes) is (st, w) = (st', w')
    \<and> length (sup_children st') = length (sup_children st)
    \<and> sup_strategy st' = sup_strategy st
    \<and> (\<forall>i \<in> set is. c_pid (sup_children st' ! i) = None \<and> c_spec (sup_children st' ! i) = c_spec (sup_children st ! i))
    \<and> (\<forall>j < length (sup_children st). j \<notin> set is \<longrightarrow> sup_children st' ! j = sup_children st ! j)
    \<and> w_rt w' = w_rt w
    \<and> w_log w' = w_log w @ concat (map (\<lambda>i. case c_pid (sup_children st ! i) of None \<Rightarrow> [] | Some p \<Rightarrow> [Stopped i p]) is)"
  using assms
proof (induction "is" arbitrary: st w)
  case (Cons i js)
  obtain st1 w1 where s1: "stop_at finishes i (st, w) = (st1, w1)" by fastforce
  from stop_at_effect [of i st finishes w] Cons.prems(2) s1 have e:
      "st1 = (if c_pid (sup_children st ! i) = None then st
       else st\<lparr>sup_children := (sup_children st)[i := (sup_children st ! i)\<lparr>c_abort := False, c_done := False, c_pid := None\<rparr>]\<rparr>)"
      "w_rt w1 = w_rt w"
      "w_log w1 = w_log w @ (case c_pid (sup_children st ! i) of None \<Rightarrow> [] | Some p \<Rightarrow> [Stopped i p])"
    by auto
  have same: "sup_children st1 ! j = sup_children st ! j" if "j \<noteq> i" for j using that by (simp add: e(1))
  have i1: "c_pid (sup_children st1 ! i) = None" "c_spec (sup_children st1 ! i) = c_spec (sup_children st ! i)"
    using Cons.prems(2) by (simp_all add: e(1))
  have len: "length (sup_children st1) = length (sup_children st)" "sup_strategy st1 = sup_strategy st" by (simp_all add: e(1))
  have pre: "distinct js" "\<forall>j \<in> set js. j < length (sup_children st1)" using Cons.prems len by auto
  from Cons.IH [OF pre, of w1] obtain st' w' where r: "fold (stop_at finishes) js (st1, w1) = (st', w')"
      "length (sup_children st') = length (sup_children st1)" "sup_strategy st' = sup_strategy st1"
      "\<forall>i \<in> set js. c_pid (sup_children st' ! i) = None \<and> c_spec (sup_children st' ! i) = c_spec (sup_children st1 ! i)"
      "\<forall>j < length (sup_children st1). j \<notin> set js \<longrightarrow> sup_children st' ! j = sup_children st1 ! j"
      "w_rt w' = w_rt w1"
      "w_log w' = w_log w1 @ concat (map (\<lambda>i. case c_pid (sup_children st1 ! i) of None \<Rightarrow> [] | Some p \<Rightarrow> [Stopped i p]) js)"
    by blast
  have ne: "j \<noteq> i" if "j \<in> set js" for j using Cons.prems(1) that by auto
  have cm: "concat (map (\<lambda>i. case c_pid (sup_children st1 ! i) of None \<Rightarrow> [] | Some p \<Rightarrow> [Stopped i p]) js) =
      concat (map (\<lambda>i. case c_pid (sup_children st ! i) of None \<Rightarrow> [] | Some p \<Rightarrow> [Stopped i p]) js)"
    using same ne by (intro arg_cong [where f = concat] map_cong) auto
  have "\<forall>x \<in> set (i # js). c_pid (sup_children st' ! x) = None \<and> c_spec (sup_children st' ! x) = c_spec (sup_children st ! x)"
    using r(4,5) i1 same ne Cons.prems len by auto
  moreover have "\<forall>j < length (sup_children st). j \<notin> set (i # js) \<longrightarrow> sup_children st' ! j = sup_children st ! j"
    using r(5) same len by auto
  ultimately show ?case
    using r(1,2,3,6,7) len e(2,3) by (simp add: s1 cm)
qed simp

section \<open>Properties of the supervisor\<close>

text \<open>The children that a restart involves: the exited one and, by strategy, others that have a pid.\<close>

fun restart_group :: "restart_strategy \<Rightarrow> child_state list \<Rightarrow> nat \<Rightarrow> nat list" where
  "restart_group OneForOne cs index = [index]"
| "restart_group OneForAll cs index = filter (\<lambda>i. i = index \<or> c_pid (cs ! i) \<noteq> None) [0..<length cs]"
| "restart_group RestForOne cs index = filter (\<lambda>i. i = index \<or> c_pid (cs ! i) \<noteq> None) [index..<length cs]"

lemma restart_group_props:
  "index < length cs \<Longrightarrow> distinct (restart_group s cs index)"
  "index < length cs \<Longrightarrow> i \<in> set (restart_group s cs index) \<Longrightarrow> i < length cs"
  "index < length cs \<Longrightarrow> index \<in> set (restart_group s cs index)"
  by (cases s; auto)+

text \<open>The members other than the exited one, in reverse order: those that are stopped.\<close>

definition stopped_first :: "restart_strategy \<Rightarrow> child_state list \<Rightarrow> nat \<Rightarrow> nat list" where
  "stopped_first s cs index = filter (\<lambda>i. i \<noteq> index) (rev (restart_group s cs index))"

lemma fold_stop_running:
  "fold (stop_at finishes) is sw = fold (stop_at finishes) (filter (\<lambda>i. c_pid (sup_children (fst sw) ! i) \<noteq> None) is) sw"
  if "distinct is" and "\<forall>i \<in> set is. i < length (sup_children (fst sw))"
  using that
proof (induction "is" arbitrary: sw)
  case (Cons i js)
  obtain st w where sw: "sw = (st, w)" by (cases sw)
  have keep: "c_pid (sup_children (fst (stop_at finishes i sw)) ! j) = c_pid (sup_children (fst sw) ! j)" if "j \<in> set js" for j
  proof -
    have "i \<noteq> j" using that Cons.prems(1) by auto
    then show ?thesis by (simp add: sw stop_at_def case_prod_beta Let_def)
  qed
  have len: "length (sup_children (fst (stop_at finishes i sw))) = length (sup_children (fst sw))"
    by (simp add: sw stop_at_def case_prod_beta Let_def)
  have "filter (\<lambda>j. c_pid (sup_children (fst (stop_at finishes i sw)) ! j) \<noteq> None) js =
      filter (\<lambda>j. c_pid (sup_children (fst sw) ! j) \<noteq> None) js"
    using keep by (intro filter_cong) auto
  with Cons.IH [of "stop_at finishes i sw"] Cons.prems len show ?case
    by (auto simp: sw stop_at_def)
qed simp

lemma fold_if_filter: "fold (\<lambda>i. if P i then f i else (\<lambda>s. s)) xs s = fold f (filter P xs) s"
  by (induction xs arbitrary: s) auto

lemma apply_strategy_alt:
  assumes "index < length (sup_children st)" and "c_pid (sup_children st ! index) = None"
  shows "apply_strategy M boots finishes index (st, w) =
    fold (start_at M boots) (restart_group (sup_strategy st) (sup_children st) index)
      (fold (stop_at finishes) (stopped_first (sup_strategy st) (sup_children st) index) (st, w))"
proof (cases "sup_strategy st")
  case OneForOne
  then show ?thesis by (simp add: apply_strategy_def stopped_first_def)
next
  case OneForAll
  let ?n = "length (sup_children st)"
  have "fold (\<lambda>i. if i \<noteq> index then stop_at finishes i else (\<lambda>s. s)) (rev [0..<?n]) (st, w) =
      fold (stop_at finishes) (stopped_first OneForAll (sup_children st) index) (st, w)"
    unfolding fold_if_filter stopped_first_def
    by (subst fold_stop_running) (auto simp: rev_filter [symmetric] conj_commute intro!: arg_cong2 [where f = "fold (stop_at finishes)"] filter_cong)
  with OneForAll show ?thesis by (simp add: apply_strategy_def Let_def)
next
  case RestForOne
  let ?n = "length (sup_children st)"
  have "fold (stop_at finishes) (rev [index + 1..<?n]) (st, w) =
      fold (stop_at finishes) (stopped_first RestForOne (sup_children st) index) (st, w)"
  proof (subst fold_stop_running)
    have "stopped_first RestForOne (sup_children st) index =
        filter (\<lambda>i. c_pid (sup_children st ! i) \<noteq> None) (rev [index + 1..<?n])"
      using assms(1) by (auto simp: stopped_first_def rev_filter [symmetric] upt_conv_Cons intro!: filter_cong)
    then show "fold (stop_at finishes) (filter (\<lambda>i. c_pid (sup_children (fst (st, w)) ! i) \<noteq> None) (rev [index + 1..<?n])) (st, w)
        = fold (stop_at finishes) (stopped_first RestForOne (sup_children st) index) (st, w)" by simp
  qed auto
  with RestForOne show ?thesis by (simp add: apply_strategy_def Let_def)
qed

text \<open>Whether stopping a child waits until its task is gone.\<close>

definition stop_waits :: "(process_id \<Rightarrow> bool) \<Rightarrow> child_state \<Rightarrow> bool" where
  "stop_waits finishes c \<longleftrightarrow>
     (case cspec_shutdown (c_spec c) of
        BrutalKill \<Rightarrow> c_abort c \<and> c_done c
      | ShutdownTimeout _ \<Rightarrow> c_done c \<and> (\<exists>p. c_pid c = Some p \<and> finishes p))"

lemma stop_at_running:
  "i < length (sup_children st) \<Longrightarrow> set (w_running (snd (stop_at finishes i (st, w)))) =
     {e \<in> set (w_running w). \<not> (c_pid (sup_children st ! i) = Some (snd e) \<and> stop_waits finishes (sup_children st ! i))}"
  by (auto simp: stop_at_def stop_child_def stop_waits_def Let_def split: option.splits shutdown_strategy.splits)

lemma fold_stop_running_set:
  assumes "distinct is" and "\<forall>i \<in> set is. i < length (sup_children st)"
  shows "set (w_running (snd (fold (stop_at finishes) is (st, w)))) =
    {e \<in> set (w_running w). \<not> (\<exists>i \<in> set is. c_pid (sup_children st ! i) = Some (snd e) \<and> stop_waits finishes (sup_children st ! i))}"
  using assms
proof (induction "is" arbitrary: st w)
  case (Cons i js)
  obtain st1 w1 where s1: "stop_at finishes i (st, w) = (st1, w1)" by fastforce
  have i: "i < length (sup_children st)" using Cons.prems(2) by simp
  have len: "length (sup_children st1) = length (sup_children st)"
    and same: "\<And>j. j \<noteq> i \<Longrightarrow> sup_children st1 ! j = sup_children st ! j"
    using s1 by (auto simp: stop_at_def case_prod_beta Let_def split: if_splits)
  have r1: "set (w_running w1) = {e \<in> set (w_running w). \<not> (c_pid (sup_children st ! i) = Some (snd e) \<and> stop_waits finishes (sup_children st ! i))}"
    using stop_at_running [OF i, of finishes w] by (simp add: s1)
  have ne: "j \<noteq> i" if "j \<in> set js" for j using that Cons.prems(1) by auto
  have pre: "distinct js" "\<forall>j \<in> set js. j < length (sup_children st1)" using Cons.prems len by auto
  show ?case
    using Cons.IH [OF pre, of w1] r1 same ne by (auto simp: s1)
qed simp

text \<open>The situation in which a child's exit leads to a restart.\<close>

definition restarts :: "instant \<Rightarrow> nat \<Rightarrow> process_id \<Rightarrow> exit_reason \<Rightarrow> supervisor_state \<Rightarrow> bool" where
  "restarts now index pid reason st \<longleftrightarrow> index < length (sup_children st)
     \<and> c_pid (sup_children st ! index) = Some pid
     \<and> should_restart (cspec_restart (c_spec (sup_children st ! index))) reason
     \<and> fst (check_restart_limit now st)"

lemma clear_child_check [simp]:
  "fst (check_restart_limit now (clear_child i st)) = fst (check_restart_limit now st)"
  "sup_children (clear_child i st) =
     (sup_children st)[i := (sup_children st ! i)\<lparr>c_pid := None, c_abort := False, c_done := False\<rparr>]"
  "sup_strategy (clear_child i st) = sup_strategy st"
  by (simp_all add: check_restart_limit_def clear_child_def Let_def)

lemma restart_group_clear:
  "length cs' = length cs \<Longrightarrow> (\<And>j. j \<noteq> index \<Longrightarrow> c_pid (cs' ! j) = c_pid (cs ! j)) \<Longrightarrow>
     restart_group s cs' index = restart_group s cs index"
  by (cases s) (auto intro!: filter_cong)

lemma handle_restart:
  assumes "restarts now index pid reason st"
  defines "cs \<equiv> (sup_children st)[index := (sup_children st ! index)\<lparr>c_pid := None, c_abort := False, c_done := False\<rparr>]"
  shows "\<exists>st2. sup_children st2 = cs \<and> sup_strategy st2 = sup_strategy st
    \<and> handle_child_exit M boots finishes now index pid reason (st, w) =
      (False, fold (start_at M boots) (restart_group (sup_strategy st) (sup_children st) index)
         (fold (stop_at finishes) (stopped_first (sup_strategy st) (sup_children st) index) (st2, w)))"
proof -
  let ?st2 = "snd (check_restart_limit now (clear_child index st))"
  have c2: "sup_children ?st2 = cs" "sup_strategy ?st2 = sup_strategy st" by (simp_all add: cs_def)
  have i: "index < length (sup_children st)" using assms(1) by (simp add: restarts_def)
  have g: "restart_group (sup_strategy st) cs index = restart_group (sup_strategy st) (sup_children st) index"
    by (rule restart_group_clear) (auto simp: cs_def)
  have h: "handle_child_exit M boots finishes now index pid reason (st, w) = (False, apply_strategy M boots finishes index (?st2, w))"
    using assms(1) by (simp add: handle_child_exit_def restarts_def case_prod_beta Let_def)
  have a: "apply_strategy M boots finishes index (?st2, w) =
      fold (start_at M boots) (restart_group (sup_strategy st) cs index)
        (fold (stop_at finishes) (stopped_first (sup_strategy st) cs index) (?st2, w))"
    using apply_strategy_alt [of index ?st2 M boots finishes w] i by (simp add: c2 cs_def)
  show ?thesis
    using c2 h a g by (intro exI [of _ ?st2]) (simp add: stopped_first_def)
qed

text \<open>
  C13: the restart intensity is exact: for checks at non-decreasing times, a restart at \<open>now\<close> is
  allowed if and only if \<open>max_restarts\<close> is not zero and at most \<open>max_restarts\<close> restarts, this one
  included, fall within the last \<open>max_seconds\<close>.
\<close>

theorem restart_intensity_exact:
  assumes "sup_restart_times st = []" and "sorted (ts @ [now])"
  shows "fst (check_restart_limit now (after_checks ts st)) \<longleftrightarrow>
    sup_max_restarts st \<noteq> 0
    \<and> length (filter (\<lambda>t. now - t \<le> from_secs (unat (sup_max_seconds st))) (ts @ [now])) \<le> unat (sup_max_restarts st)"
proof (cases "sup_max_restarts st = 0")
  case True
  then show ?thesis by (simp add: check_restart_limit_def)
next
  case False
  have "after_checks (ts @ [now]) st = snd (check_restart_limit now (after_checks ts st))"
    by (simp add: after_checks_def)
  moreover have "fst (check_restart_limit now s) \<longleftrightarrow>
      length (sup_restart_times (snd (check_restart_limit now s))) \<le> unat (sup_max_restarts s)"
    if "sup_max_restarts s \<noteq> 0" for s
    using that by (simp add: check_restart_limit_def Let_def)
  ultimately show ?thesis
    using after_checks_times [OF assms(1) False assms(2)] False by simp
qed

definition sample_supervisor :: supervisor_state where
  "sample_supervisor = \<lparr>sup_strategy = OneForAll, sup_max_restarts = 1, sup_max_seconds = 5,
     sup_children = [child_state_new (child_spec_new ''a''), child_state_new (child_spec_new ''b'')],
     sup_restart_times = []\<rparr>"

theorem restart_intensity_exact_witness:
  "\<not> fst (check_restart_limit (from_secs 9) (after_checks [from_secs 3, from_secs 4] sample_supervisor))
   \<and> fst (check_restart_limit (from_secs 9) (after_checks [from_secs 2, from_secs 3] sample_supervisor))"
  using restart_intensity_exact [of sample_supervisor "[from_secs 3, from_secs 4]" "from_secs 9"]
    restart_intensity_exact [of sample_supervisor "[from_secs 2, from_secs 3]" "from_secs 9"]
  by (simp add: sample_supervisor_def from_secs_def)

lemma stopped_first_props:
  assumes "index < length cs"
  shows "distinct (stopped_first s cs index)" and "i \<in> set (stopped_first s cs index) \<Longrightarrow> i < length cs \<and> i \<noteq> index"
    and "i \<in> set (stopped_first s cs index) \<Longrightarrow> c_pid (cs ! i) \<noteq> None"
  using restart_group_props [OF assms] by (cases s; auto simp: stopped_first_def)+

lemma handle_restart_effect:
  assumes "restarts now index pid reason st"
  shows "\<exists>st' w' rest. handle_child_exit M boots finishes now index pid reason (st, w) = (False, st', w')
    \<and> length (sup_children st') = length (sup_children st)
    \<and> w_log w' = w_log w
        @ map (\<lambda>i. Stopped i (the (c_pid (sup_children st ! i)))) (stopped_first (sup_strategy st) (sup_children st) index)
        @ map (\<lambda>k. Started (restart_group (sup_strategy st) (sup_children st) index ! k) (nth_pid w k))
            [0..<length (restart_group (sup_strategy st) (sup_children st) index)]
    \<and> (\<forall>k < length (restart_group (sup_strategy st) (sup_children st) index).
         c_pid (sup_children st' ! (restart_group (sup_strategy st) (sup_children st) index ! k)) = Some (nth_pid w k))
    \<and> (\<forall>j < length (sup_children st). j \<notin> set (restart_group (sup_strategy st) (sup_children st) index) \<longrightarrow>
         sup_children st' ! j = sup_children st ! j)
    \<and> set rest = {e \<in> set (w_running w). \<not> (\<exists>i \<in> set (stopped_first (sup_strategy st) (sup_children st) index).
         c_pid (sup_children st ! i) = Some (snd e) \<and> stop_waits finishes (sup_children st ! i))}
    \<and> w_running w' = rest @ concat (map (\<lambda>k. if boots (nth_pid w k)
         then [(restart_group (sup_strategy st) (sup_children st) index ! k, nth_pid w k)] else [])
         [0..<length (restart_group (sup_strategy st) (sup_children st) index)])"
proof -
  let ?cs = "sup_children st"
  let ?g = "restart_group (sup_strategy st) ?cs index" and ?s = "stopped_first (sup_strategy st) ?cs index"
  have i: "index < length ?cs" using assms by (simp add: restarts_def)
  from handle_restart [OF assms, of M boots finishes w] obtain st2 where st2:
      "sup_children st2 = ?cs[index := (?cs ! index)\<lparr>c_pid := None, c_abort := False, c_done := False\<rparr>]"
      "handle_child_exit M boots finishes now index pid reason (st, w) =
        (False, fold (start_at M boots) ?g (fold (stop_at finishes) ?s (st2, w)))"
    by blast
  note g = restart_group_props [OF i] and sp = stopped_first_props [OF i]
  have pre: "distinct ?s" "\<forall>i \<in> set ?s. i < length (sup_children st2)" using sp by (auto simp: st2(1))
  have same: "sup_children st2 ! j = ?cs ! j" if "j \<noteq> index" for j using that by (simp add: st2(1))
  obtain st3 w1 where s3: "fold (stop_at finishes) ?s (st2, w) = (st3, w1)" by fastforce
  from fold_stop_effect [OF pre, of finishes w] s3 have e3:
      "length (sup_children st3) = length (sup_children st2)"
      "\<forall>j < length (sup_children st2). j \<notin> set ?s \<longrightarrow> sup_children st3 ! j = sup_children st2 ! j"
      "w_rt w1 = w_rt w"
      "w_log w1 = w_log w @ concat (map (\<lambda>i. case c_pid (sup_children st2 ! i) of None \<Rightarrow> [] | Some p \<Rightarrow> [Stopped i p]) ?s)"
    by auto
  have "concat (map (\<lambda>i. case c_pid (sup_children st2 ! i) of None \<Rightarrow> [] | Some p \<Rightarrow> [Stopped i p]) ?s) =
      concat (map (\<lambda>i. [Stopped i (the (c_pid (?cs ! i)))]) ?s)"
    using sp same by (intro arg_cong [where f = concat] map_cong) (auto split: option.splits)
  then have log1: "w_log w1 = w_log w @ map (\<lambda>i. Stopped i (the (c_pid (?cs ! i)))) ?s"
    using e3(4) by simp
  have run1: "set (w_running w1) = {e \<in> set (w_running w). \<not> (\<exists>i \<in> set ?s. c_pid (?cs ! i) = Some (snd e) \<and> stop_waits finishes (?cs ! i))}"
    using fold_stop_running_set [OF pre, of finishes w] sp same by (auto simp: s3)
  have np: "nth_pid w1 k = nth_pid w k" for k using e3(3) by (simp add: nth_pid_def)
  have pre4: "distinct ?g" "\<forall>i \<in> set ?g. i < length (sup_children st3)" using g e3(1) by (auto simp: st2(1))
  from fold_start_effect [OF pre4, of M boots w1] obtain st' w' where e4:
      "fold (start_at M boots) ?g (st3, w1) = (st', w')"
      "length (sup_children st') = length (sup_children st3)"
      "\<forall>k < length ?g. c_pid (sup_children st' ! (?g ! k)) = Some (nth_pid w k)"
      "\<forall>j < length (sup_children st3). j \<notin> set ?g \<longrightarrow> sup_children st' ! j = sup_children st3 ! j"
      "w_log w' = w_log w1 @ map (\<lambda>k. Started (?g ! k) (nth_pid w k)) [0..<length ?g]"
      "w_running w' = w_running w1 @ concat (map (\<lambda>k. if boots (nth_pid w k) then [(?g ! k, nth_pid w k)] else []) [0..<length ?g])"
    unfolding np by blast
  have keep: "\<forall>j < length ?cs. j \<notin> set ?g \<longrightarrow> sup_children st' ! j = ?cs ! j"
  proof (intro allI impI)
    fix j assume j: "j < length ?cs" "j \<notin> set ?g"
    then have "j \<noteq> index" "j \<notin> set ?s" using g(3) by (auto simp: stopped_first_def)
    then show "sup_children st' ! j = ?cs ! j" using e4(4) e3(1,2) j same by (simp add: st2(1))
  qed
  have h: "handle_child_exit M boots finishes now index pid reason (st, w) = (False, st', w')"
    using st2(2) s3 e4(1) by simp
  have len: "length (sup_children st') = length ?cs" using e4(2) e3(1) by (simp add: st2(1))
  have log: "w_log w' = w_log w @ map (\<lambda>i. Stopped i (the (c_pid (?cs ! i)))) ?s
      @ map (\<lambda>k. Started (?g ! k) (nth_pid w k)) [0..<length ?g]"
    using e4(5) log1 by simp
  show ?thesis
    by (intro exI [of _ st'] exI [of _ w'] exI [of _ "w_running w1"] conjI) (fact h len log e4(3) keep run1 e4(6))+
qed

text \<open>
  C3: restart strategies, exactly: when the exit of a child leads to a restart, the other members
  of its restart group (all children with a pid, or those after it, or none) are stopped in reverse
  order, then the whole group is started in order under new pids; nothing else is started or
  stopped, every other child is left as it was, and the supervisor goes on.
\<close>

theorem restart_strategy_exact:
  assumes "restarts now index pid reason st"
    and "handle_child_exit M boots finishes now index pid reason (st, w) = (stop, st', w')"
    and "g = restart_group (sup_strategy st) (sup_children st) index"
  shows "\<not> stop
    \<and> w_log w' = w_log w @ map (\<lambda>i. Stopped i (the (c_pid (sup_children st ! i)))) (filter (\<lambda>i. i \<noteq> index) (rev g))
        @ map (\<lambda>k. Started (g ! k) (nth_pid w k)) [0..<length g]
    \<and> (\<forall>k < length g. c_pid (sup_children st' ! (g ! k)) = Some (nth_pid w k))
    \<and> (\<forall>j < length (sup_children st). j \<notin> set g \<longrightarrow> sup_children st' ! j = sup_children st ! j)"
  using handle_restart_effect [OF assms(1), of M boots finishes w] assms(2)
  unfolding stopped_first_def assms(3) by auto

text \<open>A world and a supervisor with two running children, for the examples.\<close>

definition sample_world0 :: "(wire_value message chan, nat, unit) sup_world" where
  "sample_world0 = \<lparr>w_rt = runtime_new 1, w_running = [], w_log = []\<rparr>"

definition sample_system :: "(wire_value message chan, nat, unit) sup_system" where
  "sample_system = supervisor_start list_mpsc (\<lambda>_. True) (supervisor_spec_new OneForAll)
     [child_spec_new ''a'', child_spec_new ''b''] sample_world0"

lemma sample_system_eval:
  "sup_strategy (fst sample_system) = OneForAll" "length (sup_children (fst sample_system)) = 2"
  "c_pid (sup_children (fst sample_system) ! 0) = Some (process_id_new 1 1)"
  "c_pid (sup_children (fst sample_system) ! Suc 0) = Some (process_id_new 1 2)"
  "c_spec (sup_children (fst sample_system) ! 0) = child_spec_new ''a''"
  "c_spec (sup_children (fst sample_system) ! Suc 0) = child_spec_new ''b''"
  "sup_max_restarts (fst sample_system) = 3" "sup_restart_times (fst sample_system) = []"
  "c_done (sup_children (fst sample_system) ! Suc 0)" "c_abort (sup_children (fst sample_system) ! Suc 0)"
  "w_running (snd sample_system) = [(0, process_id_new 1 1), (1, process_id_new 1 2)]"
  "w_log (snd sample_system) = [Started 0 (process_id_new 1 1), Started 1 (process_id_new 1 2)]"
  "nth_pid (snd sample_system) k = process_id_new 1 (3 + word_of_nat k)"
  by (simp_all add: sample_system_def supervisor_start_def upt_rec sample_world0_def start_at_def start_child_def
      child_state_new_def child_spec_new_def supervisor_spec_new_def spawn_def allocate_pid_def table_insert_def
      runtime_new_def table_new_def Let_def nth_pid_def)

lemma sample_restarts:
  "restarts 0 0 (process_id_new 1 1) (Abnormal ''boom'') (fst sample_system)"
  by (simp add: restarts_def sample_system_eval check_restart_limit_def Let_def child_spec_new_def duration_since_def)

lemma sample_group:
  "restart_group (sup_strategy (fst sample_system)) (sup_children (fst sample_system)) 0 = [0, 1]"
  by (simp add: sample_system_eval upt_rec)

theorem restart_strategy_exact_witness:
  "w_log (snd (snd (handle_child_exit list_mpsc (\<lambda>_. True) (\<lambda>_. False) 0 0 (process_id_new 1 1) (Abnormal ''boom'') sample_system)))
   = [Started 0 (process_id_new 1 1), Started 1 (process_id_new 1 2), Stopped 1 (process_id_new 1 2),
      Started 0 (process_id_new 1 3), Started 1 (process_id_new 1 4)]"
proof -
  obtain stop st' w' where h: "handle_child_exit list_mpsc (\<lambda>_. True) (\<lambda>_. False) 0 0 (process_id_new 1 1) (Abnormal ''boom'')
      (fst sample_system, snd sample_system) = (stop, st', w')"
    by (cases "handle_child_exit list_mpsc (\<lambda>_. True) (\<lambda>_. False) 0 0 (process_id_new 1 1) (Abnormal ''boom'') (fst sample_system, snd sample_system)") auto
  from restart_strategy_exact [OF sample_restarts h sample_group [symmetric]] h show ?thesis
    by (simp add: sample_system_eval)
qed

text \<open>Pids handed out so far, which the next ones cannot repeat while the counter does not wrap.\<close>

definition pids_issued :: "supervisor_state \<Rightarrow> ('c, 'h, 'd) sup_world \<Rightarrow> bool" where
  "pids_issued st w \<longleftrightarrow> (\<forall>c \<in> set (sup_children st). \<forall>p. c_pid c = Some p \<longrightarrow>
     unat (pid_local_id p) < unat (tb_next_id (rt_table (w_rt w))))"

lemma issued_not_next:
  assumes "pids_issued st w" and "i < length (sup_children st)"
    and "c_pid (sup_children st ! i) = Some p" and "unat (tb_next_id (rt_table (w_rt w))) + k < 2 ^ 64"
  shows "p \<noteq> nth_pid w k"
proof
  assume "p = nth_pid w k"
  then have "unat (pid_local_id p) = unat (tb_next_id (rt_table (w_rt w)) + word_of_nat k)" by (simp add: nth_pid_def)
  also have "\<dots> = unat (tb_next_id (rt_table (w_rt w))) + k"
    using assms(4) by (simp add: unat_word_ariths unat_of_nat take_bit_eq_mod)
  finally show False
    using assms(1-3) by (auto simp: pids_issued_def dest!: bspec [where x = "sup_children st ! i"])
qed

lemma group_index: "i \<in> set g \<Longrightarrow> \<exists>k < length g. g ! k = i"
  by (simp add: in_set_conv_nth)

lemma less_two: "j < (2 :: nat) \<longleftrightarrow> j = 0 \<or> j = Suc 0"
  by auto

lemma sample_next_id: "tb_next_id (rt_table (w_rt (snd sample_system))) = 3"
  using sample_system_eval(13) [of 0] by (simp add: nth_pid_def)

lemma sample_issued: "pids_issued (fst sample_system) (snd sample_system)"
  unfolding pids_issued_def sample_next_id
proof (intro ballI allI impI)
  fix c p
  assume "c \<in> set (sup_children (fst sample_system))" and p: "c_pid c = Some p"
  then obtain j where "j < 2" "c = sup_children (fst sample_system) ! j"
    by (auto simp: in_set_conv_nth sample_system_eval(2))
  with p have "p = process_id_new 1 1 \<or> p = process_id_new 1 2"
    using sample_system_eval(3,4) by (auto simp: less_two)
  then show "unat (pid_local_id p) < unat (3 :: u64)" by auto
qed

text \<open>
  No restart storm: after a group restart, the exit reports of the incarnations that the
  restart replaced, whatever their reason and whenever they are handled, change nothing, and the
  supervisor does not count them as failures.
\<close>

theorem replaced_exits_ignored:
  assumes "restarts now index pid reason st" and "pids_issued st w"
    and "handle_child_exit M boots finishes now index pid reason (st, w) = (stop, st', w')"
    and "i \<in> set (restart_group (sup_strategy st) (sup_children st) index)"
    and "c_pid (sup_children st ! i) = Some p"
    and "unat (tb_next_id (rt_table (w_rt w))) + length (sup_children st) < 2 ^ 64"
  shows "handle_child_exit M boots' finishes' now' i p reason' (st', w'') = (False, st', w'')"
proof -
  let ?g = "restart_group (sup_strategy st) (sup_children st) index"
  have ix: "index < length (sup_children st)" using assms(1) by (simp add: restarts_def)
  note g = restart_group_props [OF ix]
  have il: "i < length (sup_children st)" using g(2) assms(4) by blast
  from group_index [OF assms(4)] obtain k where k: "k < length ?g" "?g ! k = i" by blast
  have "length ?g \<le> length (sup_children st)"
    by (cases "sup_strategy st") (use ix in \<open>auto intro: order_trans [OF length_filter_le]\<close>)
  then have "unat (tb_next_id (rt_table (w_rt w))) + k < 2 ^ 64" using k(1) assms(6) by simp
  from issued_not_next [OF assms(2) il assms(5) this] have ne: "p \<noteq> nth_pid w k" .
  from handle_restart_effect [OF assms(1), of M boots finishes w] assms(3)
  have "c_pid (sup_children st' ! i) = Some (nth_pid w k)" using k by auto
  with ne show ?thesis by (simp add: handle_child_exit_def)
qed

theorem replaced_exits_ignored_witness:
  "\<exists>stop st' w'. handle_child_exit list_mpsc (\<lambda>_. True) (\<lambda>_. False) 0 0 (process_id_new 1 1) (Abnormal ''boom'')
      (fst sample_system, snd sample_system) = (stop, st', w')
    \<and> handle_child_exit list_mpsc (\<lambda>_. True) (\<lambda>_. False) 7 1 (process_id_new 1 2) Normal (st', w') = (False, st', w')"
proof -
  obtain stop st' w' where h: "handle_child_exit list_mpsc (\<lambda>_. True) (\<lambda>_. False) 0 0 (process_id_new 1 1) (Abnormal ''boom'')
      (fst sample_system, snd sample_system) = (stop, st', w')"
    by (cases "handle_child_exit list_mpsc (\<lambda>_. True) (\<lambda>_. False) 0 0 (process_id_new 1 1) (Abnormal ''boom'') (fst sample_system, snd sample_system)") auto
  have "handle_child_exit list_mpsc (\<lambda>_. True) (\<lambda>_. False) 7 1 (process_id_new 1 2) Normal (st', w') = (False, st', w')"
    by (rule replaced_exits_ignored [OF sample_restarts sample_issued h])
       (simp_all add: sample_group sample_system_eval sample_next_id)
  with h show ?thesis by blast
qed

text \<open>
  A restart can run two incarnations at once. A stopped member of the group whose task was
  running is still running after the restart, next to its replacement, exactly when its shutdown
  strategy is a timeout and it does not finish within it: the task is then aborted, but its end is
  not awaited.
\<close>

theorem incarnations_overlap_iff:
  assumes "restarts now index pid reason st" and "pids_issued st w"
    and "handle_child_exit M (\<lambda>_. True) finishes now index pid reason (st, w) = (stop, st', w')"
    and "i \<in> set (restart_group (sup_strategy st) (sup_children st) index)" and "i \<noteq> index"
    and "c_pid (sup_children st ! i) = Some p" and "(i, p) \<in> set (w_running w)"
    and "c_abort (sup_children st ! i)" and "c_done (sup_children st ! i)"
    and "\<forall>j < length (sup_children st). j \<noteq> i \<longrightarrow> c_pid (sup_children st ! j) \<noteq> Some p"
    and "unat (tb_next_id (rt_table (w_rt w))) + length (sup_children st) < 2 ^ 64"
  shows "(\<exists>q. q \<noteq> p \<and> c_pid (sup_children st' ! i) = Some q \<and> (i, q) \<in> set (w_running w'))
    \<and> ((i, p) \<in> set (w_running w') \<longleftrightarrow>
         (\<exists>d. cspec_shutdown (c_spec (sup_children st ! i)) = ShutdownTimeout d) \<and> \<not> finishes p)"
proof -
  let ?cs = "sup_children st"
  let ?g = "restart_group (sup_strategy st) ?cs index" and ?s = "stopped_first (sup_strategy st) ?cs index"
  have ix: "index < length ?cs" using assms(1) by (simp add: restarts_def)
  note g = restart_group_props [OF ix]
  have il: "i < length ?cs" using g(2) assms(4) by blast
  have lg: "length ?g \<le> length ?cs"
    by (cases "sup_strategy st") (use ix in \<open>auto intro: order_trans [OF length_filter_le]\<close>)
  have fresh: "p \<noteq> nth_pid w k" if "k < length ?g" for k
    using issued_not_next [OF assms(2) il assms(6), of k] that lg assms(11) by simp
  from group_index [OF assms(4)] obtain k where k: "k < length ?g" "?g ! k = i" by blast
  from handle_restart_effect [OF assms(1), of M "\<lambda>_. True" finishes w] assms(3) obtain rest where e:
      "c_pid (sup_children st' ! i) = Some (nth_pid w k)"
      "set rest = {e \<in> set (w_running w). \<not> (\<exists>i \<in> set ?s. c_pid (?cs ! i) = Some (snd e) \<and> stop_waits finishes (?cs ! i))}"
      "w_running w' = rest @ map (\<lambda>k. (?g ! k, nth_pid w k)) [0..<length ?g]"
    using k by auto
  have "(i, nth_pid w k) \<in> set (w_running w')" using e(3) k by (auto simp: image_iff)
  then have new: "\<exists>q. q \<noteq> p \<and> c_pid (sup_children st' ! i) = Some q \<and> (i, q) \<in> set (w_running w')"
    using e(1) fresh [OF k(1)] by auto
  have mem: "i \<in> set ?s" using assms(4,5) by (simp add: stopped_first_def)
  have "(i, p) \<in> set rest \<longleftrightarrow> \<not> stop_waits finishes (?cs ! i)"
    using mem assms(6,7,10) stopped_first_props(2) [OF ix] unfolding e(2) by auto
  moreover have "(i, p) \<in> set (w_running w') \<longleftrightarrow> (i, p) \<in> set rest"
  proof -
    have "(i, p) \<notin> set (map (\<lambda>k. (?g ! k, nth_pid w k)) [0..<length ?g])"
      using fresh by (simp add: image_iff)
    then show ?thesis unfolding e(3) by simp
  qed
  moreover have "stop_waits finishes (?cs ! i) \<longleftrightarrow>
      \<not> ((\<exists>d. cspec_shutdown (c_spec (?cs ! i)) = ShutdownTimeout d) \<and> \<not> finishes p)"
    using assms(6,8,9) by (auto simp: stop_waits_def split: shutdown_strategy.splits)
  ultimately show ?thesis using new by simp
qed

theorem incarnations_overlap_iff_witness:
  "(1, process_id_new 1 2) \<in> set (w_running (snd (snd (handle_child_exit list_mpsc (\<lambda>_. True) (\<lambda>_. False) 0 0
     (process_id_new 1 1) (Abnormal ''boom'') sample_system))))"
proof -
  obtain stop st' w' where h: "handle_child_exit list_mpsc (\<lambda>_. True) (\<lambda>_. False) 0 0 (process_id_new 1 1) (Abnormal ''boom'')
      (fst sample_system, snd sample_system) = (stop, st', w')"
    by (cases "handle_child_exit list_mpsc (\<lambda>_. True) (\<lambda>_. False) 0 0 (process_id_new 1 1) (Abnormal ''boom'') (fst sample_system, snd sample_system)") auto
  have "\<forall>j < length (sup_children (fst sample_system)). j \<noteq> 1 \<longrightarrow> c_pid (sup_children (fst sample_system) ! j) \<noteq> Some (process_id_new 1 2)"
    by (auto simp: sample_system_eval less_two)
  from incarnations_overlap_iff [OF sample_restarts sample_issued h _ _ _ _ _ _ this]
  have "(1, process_id_new 1 2) \<in> set (w_running w')"
    by (simp add: sample_group sample_system_eval sample_next_id child_spec_new_def)
  with h show ?thesis by simp
qed

section \<open>Names of children\<close>

lemma reregister_alive [simp]: "alive (snd (table_reregister name pid t)) p = alive t p"
  by (auto simp: table_reregister_def register_inner_def register_claim_def register_index_def register_recheck_def
      drop_name_def alive_def Let_def split: option.splits)

lemma reregister_view:
  assumes "alive t pid"
  shows "whereis n (snd (table_reregister name pid t)) = (if n = name then Some pid else whereis n t)"
proof (cases "register_claim name pid True t")
  case (Pair st t1)
  show ?thesis
  proof (cases st)
    case (Done r)
    with Pair assms have "whereis name t = Some pid" "t1 = t"
      by (auto simp: register_claim_def alive_def whereis_def split: option.splits if_splits)
    with Pair Done show ?thesis by (simp add: table_reregister_def register_inner_def)
  next
    case (Continue prev)
    note c = register_claim_view [OF Pair [unfolded Continue]]
    have "alive (register_index name pid prev t1) pid" using c(3) assms
      by (auto simp: register_index_def drop_name_def alive_def Let_def split: option.splits)
    moreover have "whereis n (register_index name pid prev t1) = whereis n t1"
      by (simp add: register_index_def drop_name_def whereis_def Let_def split: option.splits)
    ultimately show ?thesis using c(1) unfolding table_reregister_def register_inner_def Pair Continue
      by (simp add: register_recheck_def alive_def)
  qed
qed

abbreviation resolves :: "string \<Rightarrow> ('c, 'h, 'd) sup_world \<Rightarrow> process_id option" where
  "resolves n w \<equiv> whereis n (rt_table (w_rt w))"

lemma start_child_names:
  assumes "start_child M boots i (c, w) = (c', w')" and "cspec_register (c_spec c)"
  shows "resolves n w' = (if n = cspec_id (c_spec c) then c_pid c' else resolves n w)" and "c_pid c' = Some (nth_pid w 0)" and "c_spec c' = c_spec c"
    and "nth_pid w' k = nth_pid w (Suc k)"
proof -
  let ?pid = "fst (spawn M (w_rt w))" and ?rt = "snd (spawn M (w_rt w))"
  have "alive (rt_table ?rt) ?pid" by (simp add: spawn_alive)
  note r = reregister_view [OF this, of n "cspec_id (c_spec c)"]
  have e: "rt_table (w_rt w') = snd (table_reregister (cspec_id (c_spec c)) ?pid (rt_table ?rt))" "c_pid c' = Some ?pid" "c_spec c' = c_spec c"
    using assms by (auto simp: start_child_def Let_def case_prod_beta)
  have "whereis n (rt_table ?rt) = resolves n w" by (simp add: whereis_def spawn_table)
  with r e show "resolves n w' = (if n = cspec_id (c_spec c) then c_pid c' else resolves n w)" by simp
  show "c_pid c' = Some (nth_pid w 0)" "c_spec c' = c_spec c" using e(2,3) nth_pid_0 [of w M] by simp_all
  show "nth_pid w' k = nth_pid w (Suc k)" by (simp add: nth_pid_def e(1) spawn_table algebra_simps)
qed

end
