(* ===== verification/Dyn_Supervisor.thy ===== *)
theory Dyn_Supervisor
  imports Supervisor Std
begin

text \<open>
  The dynamic supervisor (\<^verbatim>\<open>crates/rebar-core/src/supervisor/dynamic.rs\<close>). The handling of one message is one
  step on the supervisor's state and a world: the runtime, the child tasks that run and those that have ended and
  not yet sent their \<open>ChildExited\<close>. As in the static supervisor \<open>boots pid\<close> says that the factory of the child
  returns a task instead of panicking; a task that never booted sends no \<open>ChildExited\<close>. The factory is opaque.
\<close>

section \<open>Types\<close>

record dynamic_supervisor_spec =
  dss_max_restarts :: u32
  dss_max_seconds :: u32

definition dynamic_spec_new :: dynamic_supervisor_spec where
  "dynamic_spec_new = \<lparr>dss_max_restarts = 3, dss_max_seconds = 5\<rparr>"

definition dynamic_max_restarts :: "u32 \<Rightarrow> dynamic_supervisor_spec \<Rightarrow> dynamic_supervisor_spec" where
  "dynamic_max_restarts n s = s\<lparr>dss_max_restarts := n\<rparr>"

definition dynamic_max_seconds :: "u32 \<Rightarrow> dynamic_supervisor_spec \<Rightarrow> dynamic_supervisor_spec" where
  "dynamic_max_seconds n s = s\<lparr>dss_max_seconds := n\<rparr>"

record dyn_child_info =
  info_id :: string
  info_pid :: "process_id option"
  info_restart :: restart_type

record dyn_child_counts =
  counts_active :: usize
  counts_specs :: usize

datatype dyn_supervisor_msg =
    StartChild child_spec
  | TerminateChild process_id
  | RemoveChild process_id
  | WhichChildren
  | CountChildren
  | DynChildExited process_id exit_reason
  | DynShutdown

datatype dyn_reply =
    StartReply "string + process_id"
  | UnitReply "string + unit"
  | ChildrenReply "dyn_child_info list"
  | CountReply dyn_child_counts

text \<open>\<open>dyc_abort\<close> and \<open>dyc_done\<close> say whether the abort handle and the receiver of the end of the task are present.\<close>

record dyn_child_state =
  dyc_id :: string
  dyc_spec :: child_spec
  dyc_pid :: process_id
  dyc_active :: bool
  dyc_abort :: bool
  dyc_done :: bool

record dyn_supervisor_state =
  dyn_spec :: dynamic_supervisor_spec
  dyn_children :: "(string, dyn_child_state) hashmap"
  pid_to_id :: "(process_id, string) hashmap"
  dyn_restart_times :: "instant list"
  terminated_ids :: "string set"
  next_uid :: u64

record ('c, 'h, 'd) dyn_world =
  dw_rt :: "('c, 'h, 'd) runtime"
  dw_running :: "process_id list"
  dw_exiting :: "(process_id \<times> exit_reason) list"

type_synonym ('c, 'h, 'd) dyn_system = "dyn_supervisor_state \<times> ('c, 'h, 'd) dyn_world"

definition dyn_state_new :: "dynamic_supervisor_spec \<Rightarrow> dyn_supervisor_state" where
  "dyn_state_new spec = \<lparr>dyn_spec = spec, dyn_children = [], pid_to_id = [], dyn_restart_times = [], terminated_ids = {}, next_uid = 0\<rparr>"

section \<open>Starting and stopping\<close>

text \<open>The internal key of a child.\<close>

definition child_key :: "string \<Rightarrow> u64 \<Rightarrow> string" where
  "child_key i uid = i @ ''#'' @ decimal (unat uid)"

definition start_dyn_child ::
  "('v message, 'c) mpsc \<Rightarrow> (process_id \<Rightarrow> bool) \<Rightarrow> child_spec \<Rightarrow> ('c, 'h, 'd) dyn_world
     \<Rightarrow> process_id \<times> ('c, 'h, 'd) dyn_world" where
  "start_dyn_child M boots spec w =
     (let (pid, rt1) = spawn M (dw_rt w);
          rt2 = (if cspec_register spec
                 then rt1\<lparr>rt_table := snd (table_reregister (cspec_id spec) pid (rt_table rt1))\<rparr>
                 else rt1) in
      (pid, w\<lparr>dw_rt := rt2, dw_running := dw_running w @ (if boots pid then [pid] else [])\<rparr>))"

definition dyn_start_child ::
  "('v message, 'c) mpsc \<Rightarrow> (process_id \<Rightarrow> bool) \<Rightarrow> child_spec \<Rightarrow> ('c, 'h, 'd) dyn_system
     \<Rightarrow> process_id \<times> ('c, 'h, 'd) dyn_system" where
  "dyn_start_child M boots spec sw =
     (case sw of (st, w) \<Rightarrow>
       let key = child_key (cspec_id spec) (next_uid st);
           st1 = st\<lparr>next_uid := next_uid st + 1\<rparr>;
           (pid, w1) = start_dyn_child M boots spec w;
           child = \<lparr>dyc_id = cspec_id spec, dyc_spec = spec, dyc_pid = pid, dyc_active = True, dyc_abort = True, dyc_done = True\<rparr> in
       (pid, st1\<lparr>dyn_children := hm_insert key child (dyn_children st1), pid_to_id := hm_insert pid key (pid_to_id st1)\<rparr>, w1))"

definition release_child :: "string \<Rightarrow> dyn_supervisor_state \<Rightarrow> dyn_supervisor_state" where
  "release_child key st =
     st\<lparr>dyn_children := hm_modify key (\<lambda>c. c\<lparr>dyc_active := False, dyc_abort := False, dyc_done := False\<rparr>) (dyn_children st)\<rparr>"

text \<open>An aborted task has ended when \<open>done_rx\<close> fires; its \<open>ChildExited\<close>, with the reason of a cancelled task, follows.\<close>

definition stop_child_by_key :: "string \<Rightarrow> ('c, 'h, 'd) dyn_system \<Rightarrow> ('c, 'h, 'd) dyn_system" where
  "stop_child_by_key key sw =
     (case sw of (st, w) \<Rightarrow>
       case hm_get (dyn_children st) key of
         None \<Rightarrow> (st, w)
       | Some child \<Rightarrow>
           let pid = dyc_pid child;
               w1 = (if dyc_abort child \<and> dyc_done child \<and> pid \<in> set (dw_running w)
                     then w\<lparr>dw_running := remove1 pid (dw_running w), dw_exiting := dw_exiting w @ [(pid, Normal)]\<rparr>
                     else w) in
           (release_child key st, w1))"

definition dyn_shutdown_all ::
  "((string, dyn_child_state) hashmap \<Rightarrow> (string, dyn_child_state) hashmap) \<Rightarrow> ('c, 'h, 'd) dyn_system \<Rightarrow> ('c, 'h, 'd) dyn_system" where
  "dyn_shutdown_all ord sw =
     (let active_keys = map fst (filter (\<lambda>(_, c). dyc_active c) (ord (dyn_children (fst sw)))) in
      fold stop_child_by_key active_keys sw)"

section \<open>The event loop\<close>

definition dyn_check_restart_limit :: "instant \<Rightarrow> dyn_supervisor_state \<Rightarrow> bool \<times> dyn_supervisor_state" where
  "dyn_check_restart_limit now st =
     (let window = from_secs (unat (dss_max_seconds (dyn_spec st)));
          times = dropWhile (\<lambda>front. duration_since now front > window) (dyn_restart_times st) in
      if length times \<ge> unat (dss_max_restarts (dyn_spec st)) then (False, st\<lparr>dyn_restart_times := times\<rparr>)
      else (True, st\<lparr>dyn_restart_times := times @ [now]\<rparr>))"

definition restart_dyn_child ::
  "('v message, 'c) mpsc \<Rightarrow> (process_id \<Rightarrow> bool) \<Rightarrow> process_id \<Rightarrow> string \<Rightarrow> dyn_child_state
     \<Rightarrow> ('c, 'h, 'd) dyn_system \<Rightarrow> ('c, 'h, 'd) dyn_system" where
  "restart_dyn_child M boots old_pid key old sw =
     (case sw of (st, w) \<Rightarrow>
       let st1 = st\<lparr>pid_to_id := hm_remove old_pid (pid_to_id st), dyn_children := hm_remove key (dyn_children st)\<rparr>;
           (pid, w1) = start_dyn_child M boots (dyc_spec old) w;
           child = \<lparr>dyc_id = dyc_id old, dyc_spec = dyc_spec old, dyc_pid = pid, dyc_active = True, dyc_abort = True, dyc_done = True\<rparr> in
       (st1\<lparr>dyn_children := hm_insert key child (dyn_children st1), pid_to_id := hm_insert pid key (pid_to_id st1)\<rparr>, w1))"

definition dyn_handle_child_exit ::
  "('v message, 'c) mpsc \<Rightarrow> (process_id \<Rightarrow> bool) \<Rightarrow> instant \<Rightarrow> process_id \<Rightarrow> exit_reason
     \<Rightarrow> ('c, 'h, 'd) dyn_system \<Rightarrow> bool \<times> ('c, 'h, 'd) dyn_system" where
  "dyn_handle_child_exit M boots now pid reason sw =
     (case sw of (st, w) \<Rightarrow>
       case hm_get (pid_to_id st) pid of
         None \<Rightarrow> (False, st, w)
       | Some key \<Rightarrow>
           if key \<in> terminated_ids st
           then (False, release_child key (st\<lparr>terminated_ids := terminated_ids st - {key}\<rparr>), w)
           else
             (case hm_get (dyn_children st) key of
                None \<Rightarrow> (False, st, w)
              | Some child \<Rightarrow>
                  if cspec_restart (dyc_spec child) = Temporary
                  then (False, st\<lparr>dyn_children := hm_remove key (dyn_children st), pid_to_id := hm_remove pid (pid_to_id st)\<rparr>, w)
                  else if should_restart (cspec_restart (dyc_spec child)) reason
                  then
                    let (allowed, st1) = dyn_check_restart_limit now st in
                    if \<not> allowed then (True, st1, w)
                    else (False, restart_dyn_child M boots pid key child (st1, w))
                  else (False, release_child key st, w)))"

definition terminate_child :: "process_id \<Rightarrow> ('c, 'h, 'd) dyn_system \<Rightarrow> (string + unit) \<times> ('c, 'h, 'd) dyn_system" where
  "terminate_child pid sw =
     (case hm_get (pid_to_id (fst sw)) pid of
        Some key \<Rightarrow> (Inr (), stop_child_by_key key ((fst sw)\<lparr>terminated_ids := insert key (terminated_ids (fst sw))\<rparr>, snd sw))
      | None \<Rightarrow> (Inl ''child not found'', sw))"

definition remove_child :: "process_id \<Rightarrow> dyn_supervisor_state \<Rightarrow> (string + unit) \<times> dyn_supervisor_state" where
  "remove_child pid st =
     (case hm_get (pid_to_id st) pid of
        Some key \<Rightarrow>
          if (case hm_get (dyn_children st) key of Some c \<Rightarrow> dyc_active c | None \<Rightarrow> False)
          then (Inl ''child still running'', st)
          else (Inr (), st\<lparr>dyn_children := hm_remove key (dyn_children st), pid_to_id := hm_remove pid (pid_to_id st),
                           terminated_ids := terminated_ids st - {key}\<rparr>)
      | None \<Rightarrow> (Inl ''child not found'', st))"

definition which_children ::
  "((string, dyn_child_state) hashmap \<Rightarrow> (string, dyn_child_state) hashmap) \<Rightarrow> dyn_supervisor_state \<Rightarrow> dyn_child_info list" where
  "which_children ord st =
     map (\<lambda>(_, c). \<lparr>info_id = dyc_id c, info_pid = (if dyc_active c then Some (dyc_pid c) else None), info_restart = cspec_restart (dyc_spec c)\<rparr>)
       (ord (dyn_children st))"

definition count_children :: "dyn_supervisor_state \<Rightarrow> dyn_child_counts" where
  "count_children st =
     \<lparr>counts_active = length (filter (\<lambda>(_, c). dyc_active c) (dyn_children st)), counts_specs = length (dyn_children st)\<rparr>"

text \<open>One round of \<open>dynamic_supervisor_loop\<close>: whether it ends, the reply, and the new system.\<close>

fun dyn_round ::
  "('v message, 'c) mpsc \<Rightarrow> (process_id \<Rightarrow> bool) \<Rightarrow> ((string, dyn_child_state) hashmap \<Rightarrow> (string, dyn_child_state) hashmap)
     \<Rightarrow> instant \<Rightarrow> dyn_supervisor_msg \<Rightarrow> ('c, 'h, 'd) dyn_system \<Rightarrow> bool \<times> dyn_reply option \<times> ('c, 'h, 'd) dyn_system" where
  "dyn_round M boots ord now (StartChild spec) sw =
     (let (pid, sw1) = dyn_start_child M boots spec sw in (False, Some (StartReply (Inr pid)), sw1))"
| "dyn_round M boots ord now (TerminateChild pid) sw =
     (let (r, sw1) = terminate_child pid sw in (False, Some (UnitReply r), sw1))"
| "dyn_round M boots ord now (RemoveChild pid) sw =
     (let (r, st) = remove_child pid (fst sw) in (False, Some (UnitReply r), st, snd sw))"
| "dyn_round M boots ord now WhichChildren sw = (False, Some (ChildrenReply (which_children ord (fst sw))), sw)"
| "dyn_round M boots ord now CountChildren sw = (False, Some (CountReply (count_children (fst sw))), sw)"
| "dyn_round M boots ord now (DynChildExited pid reason) sw =
     (let (stop, sw1) = dyn_handle_child_exit M boots now pid reason sw in (stop, None, sw1))"
| "dyn_round M boots ord now DynShutdown sw = (True, None, dyn_shutdown_all ord sw)"

section \<open>Keys and fresh process identifiers\<close>

lemma child_key_uid: "child_key i u = child_key j v \<Longrightarrow> u = v"
proof -
  assume e: "child_key i u = child_key j v"
  have t: "takeWhile (\<lambda>c. c \<noteq> CHR ''#'') (rev (child_key i u)) = rev (decimal (unat u))" for i u
    unfolding child_key_def rev_append append_assoc
    by (subst takeWhile_append2) (auto dest: decimal_chars)
  have "decimal (unat u) = decimal (unat v)" using e t [of i u] t [of j v] by simp
  then have "unat u = unat v" by (metis decimal_value)
  then show ?thesis by (simp add: word_unat_eq_iff)
qed

definition issued :: "('c, 'h) process_table \<Rightarrow> process_id \<Rightarrow> bool" where
  "issued t p \<longleftrightarrow> pid_node_id p = tb_node_id t \<and> pid_local_id p < tb_next_id t"

abbreviation dw_table :: "('c, 'h, 'd) dyn_world \<Rightarrow> ('c, 'h) process_table" where
  "dw_table w \<equiv> rt_table (dw_rt w)"

lemma start_dyn_child_effect:
  assumes "start_dyn_child M boots spec w = (pid, w1)" and "tb_next_id (dw_table w) \<noteq> u64_max"
  shows "\<not> issued (dw_table w) pid" and "issued (dw_table w1) pid" and "issued (dw_table w) p \<Longrightarrow> issued (dw_table w1) p"
    and "dw_running w1 = dw_running w @ (if boots pid then [pid] else [])" and "dw_exiting w1 = dw_exiting w"
proof -
  have p: "pid = process_id_new (tb_node_id (dw_table w)) (tb_next_id (dw_table w))"
    using assms(1) by (auto simp: start_dyn_child_def case_prod_beta Let_def spawn_pid)
  have n: "tb_next_id (dw_table w1) = tb_next_id (dw_table w) + 1" "tb_node_id (dw_table w1) = tb_node_id (dw_table w)"
    using assms(1) by (auto simp: start_dyn_child_def case_prod_beta Let_def spawn_table)
  note lt = u64_less_Suc [OF assms(2)]
  show "\<not> issued (dw_table w) pid" by (simp add: p issued_def)
  show "issued (dw_table w1) pid" using lt by (simp add: p n issued_def)
  show "issued (dw_table w) p \<Longrightarrow> issued (dw_table w1) p" using lt by (auto simp: n issued_def intro: less_trans)
  show "dw_running w1 = dw_running w @ (if boots pid then [pid] else [])" "dw_exiting w1 = dw_exiting w"
    using assms(1) by (auto simp: start_dyn_child_def case_prod_beta Let_def)
qed

section \<open>Invariant\<close>

text \<open>The exit reports in a queue of messages, and every process whose end is still to be handled.\<close>

fun exits :: "dyn_supervisor_msg list \<Rightarrow> process_id list" where
  "exits [] = []"
| "exits (DynChildExited p r # q) = p # exits q"
| "exits (m # q) = exits q"

lemma exits_append [simp]: "exits (xs @ ys) = exits xs @ exits ys"
  by (induction xs rule: exits.induct) simp_all

abbreviation unreported :: "('c, 'h, 'd) dyn_world \<Rightarrow> dyn_supervisor_msg list \<Rightarrow> process_id list" where
  "unreported w q \<equiv> map fst (dw_exiting w) @ exits q"

text \<open>What is known of the child under a key: its handles, and that an ended child is down for good.\<close>

definition child_ok ::
  "dyn_supervisor_state \<Rightarrow> ('c, 'h, 'd) dyn_world \<Rightarrow> dyn_supervisor_msg list \<Rightarrow> string \<Rightarrow> dyn_child_state \<Rightarrow> bool" where
  "child_ok st w q key c \<longleftrightarrow>
     (\<exists>i u. u < next_uid st \<and> key = child_key i u) \<and> dyc_abort c = dyc_active c \<and> dyc_done c = dyc_active c \<and> issued (dw_table w) (dyc_pid c)
   \<and> (dyc_active c \<longrightarrow> key \<notin> terminated_ids st)
   \<and> (\<not> dyc_active c \<longrightarrow> dyc_pid c \<notin> set (dw_running w) \<and> (dyc_pid c \<in> set (unreported w q) \<longrightarrow> key \<in> terminated_ids st))"

definition index_ok :: "dyn_supervisor_state \<Rightarrow> bool" where
  "index_ok st \<longleftrightarrow> hm_wf (dyn_children st) \<and> hm_wf (pid_to_id st)
   \<and> (\<forall>pid key. hm_get (pid_to_id st) pid = Some key \<longleftrightarrow> (\<exists>c. hm_get (dyn_children st) key = Some c \<and> dyc_pid c = pid))
   \<and> (\<forall>key \<in> terminated_ids st. hm_get (dyn_children st) key \<noteq> None)"

definition tasks_ok :: "dyn_supervisor_state \<Rightarrow> ('c, 'h, 'd) dyn_world \<Rightarrow> dyn_supervisor_msg list \<Rightarrow> bool" where
  "tasks_ok st w q \<longleftrightarrow> distinct (dw_running w @ unreported w q) \<and> (\<forall>p \<in> set (dw_running w @ unreported w q). issued (dw_table w) p)
   \<and> (\<forall>p \<in> set (dw_running w). \<exists>key c. hm_get (dyn_children st) key = Some c \<and> dyc_active c \<and> dyc_pid c = p)"

definition dyn_ok :: "dyn_supervisor_state \<Rightarrow> ('c, 'h, 'd) dyn_world \<Rightarrow> dyn_supervisor_msg list \<Rightarrow> bool" where
  "dyn_ok st w q \<longleftrightarrow> index_ok st \<and> tasks_ok st w q \<and> (\<forall>key c. hm_get (dyn_children st) key = Some c \<longrightarrow> child_ok st w q key c)"

lemma dyn_ok_index: "dyn_ok st w q \<Longrightarrow> hm_get (pid_to_id st) pid = Some key \<Longrightarrow> \<exists>c. hm_get (dyn_children st) key = Some c \<and> dyc_pid c = pid"
  by (auto simp: dyn_ok_def index_ok_def)

lemma dyn_ok_pid: "dyn_ok st w q \<Longrightarrow> hm_get (dyn_children st) key = Some c \<Longrightarrow> hm_get (pid_to_id st) (dyc_pid c) = Some key"
  by (auto simp: dyn_ok_def index_ok_def)

lemma dyn_ok_unique:
  "dyn_ok st w q \<Longrightarrow> hm_get (dyn_children st) key = Some c \<Longrightarrow> hm_get (dyn_children st) key' = Some c' \<Longrightarrow> dyc_pid c = dyc_pid c' \<Longrightarrow> key = key'"
  using dyn_ok_pid [of st w q key c] dyn_ok_pid [of st w q key' c'] by simp

lemma dyn_ok_running:
  "dyn_ok st w q \<Longrightarrow> p \<in> set (dw_running w) \<Longrightarrow> \<exists>key c. hm_get (dyn_children st) key = Some c \<and> dyc_active c \<and> dyc_pid c = p"
  by (simp add: dyn_ok_def tasks_ok_def)

lemma dyn_ok_times [simp]: "dyn_ok (st\<lparr>dyn_restart_times := ts\<rparr>) w q = dyn_ok st w q"
  by (simp add: dyn_ok_def index_ok_def tasks_ok_def child_ok_def)

lemma dyn_ok_new: "dyn_ok (dyn_state_new spec) \<lparr>dw_rt = rt, dw_running = [], dw_exiting = []\<rparr> []"
  by (simp add: dyn_ok_def index_ok_def tasks_ok_def dyn_state_new_def)

lemma dyn_ok_pop:
  assumes "dyn_ok st w (DynChildExited p r # q)"
  shows "dyn_ok st w q" and "p \<notin> set (dw_running w @ unreported w q)"
  using assms by (auto simp: dyn_ok_def tasks_ok_def child_ok_def)

lemma dyn_ok_insert:
  assumes ok: "dyn_ok st w q" and start: "start_dyn_child M boots spec w = (pid, w1)" and wrap: "tb_next_id (dw_table w) \<noteq> u64_max"
    and key: "hm_get (dyn_children st) key = None" "key = child_key i u" "u < uid" and uid: "next_uid st \<le> uid"
  shows "dyn_ok (st\<lparr>next_uid := uid, dyn_children := hm_insert key
      \<lparr>dyc_id = n, dyc_spec = sp, dyc_pid = pid, dyc_active = True, dyc_abort = True, dyc_done = True\<rparr> (dyn_children st),
      pid_to_id := hm_insert pid key (pid_to_id st)\<rparr>) w1 q"
proof -
  note eff = start_dyn_child_effect [OF start wrap]
  have old: "dyc_pid c \<noteq> pid" if "hm_get (dyn_children st) k = Some c" for k c
    using ok that eff(1) by (auto simp: dyn_ok_def child_ok_def)
  have fresh: "pid \<notin> set (dw_running w @ unreported w q)" using ok eff(1) by (auto simp: dyn_ok_def tasks_ok_def)
  have nt: "key \<notin> terminated_ids st" using ok key(1) by (auto simp: dyn_ok_def index_ok_def)
  let ?st = "st\<lparr>next_uid := uid, dyn_children := hm_insert key
      \<lparr>dyc_id = n, dyc_spec = sp, dyc_pid = pid, dyc_active = True, dyc_abort = True, dyc_done = True\<rparr> (dyn_children st),
      pid_to_id := hm_insert pid key (pid_to_id st)\<rparr>"
  have "index_ok ?st" using ok old key(1) by (auto simp: dyn_ok_def index_ok_def wf_intros)
  moreover have "tasks_ok ?st w1 q"
    unfolding tasks_ok_def
  proof (intro conjI ballI)
    show "distinct (dw_running w1 @ unreported w1 q)" using ok fresh eff(4,5) by (auto simp: dyn_ok_def tasks_ok_def)
    show "issued (dw_table w1) p" if "p \<in> set (dw_running w1 @ unreported w1 q)" for p
    proof -
      have "p = pid \<or> p \<in> set (dw_running w @ unreported w q)" using that eff(4,5) by (auto split: if_splits)
      then show ?thesis using ok eff(2,3) by (auto simp only: dyn_ok_def tasks_ok_def)
    qed
    show "\<exists>k c. hm_get (dyn_children ?st) k = Some c \<and> dyc_active c \<and> dyc_pid c = p" if "p \<in> set (dw_running w1)" for p
    proof (cases "p = pid")
      case True
      then show ?thesis by (intro exI [of _ key]) simp
    next
      case False
      then have "p \<in> set (dw_running w)" using that eff(4) by (auto split: if_splits)
      then obtain k c where "hm_get (dyn_children st) k = Some c" "dyc_active c" "dyc_pid c = p"
        using dyn_ok_running [OF ok] by blast
      then show ?thesis using key(1) by (intro exI [of _ k] exI [of _ c]) auto
    qed
  qed
  moreover have "child_ok ?st w1 q k c" if "hm_get (dyn_children ?st) k = Some c" for k c
  proof (cases "k = key")
    case True
    then show ?thesis using that nt key(2,3) eff(2) by (auto simp: child_ok_def)
  next
    case False
    then have c: "hm_get (dyn_children st) k = Some c" using that by simp
    then have "child_ok st w q k c" using ok by (simp add: dyn_ok_def)
    moreover from this obtain i' u' where "u' < uid" "k = child_key i' u'"
      using uid unfolding child_ok_def by (blast intro: less_le_trans)
    ultimately show ?thesis using old [OF c] eff(3,4,5) by (simp add: child_ok_def) blast
  qed
  ultimately show ?thesis by (simp add: dyn_ok_def)
qed

text \<open>Forgetting a child whose task has ended.\<close>

lemma dyn_ok_remove:
  assumes ok: "dyn_ok st w q" and c: "hm_get (dyn_children st) key = Some c" and p: "dyc_pid c \<notin> set (dw_running w)"
  shows "dyn_ok (st\<lparr>dyn_children := hm_remove key (dyn_children st), pid_to_id := hm_remove (dyc_pid c) (pid_to_id st),
    terminated_ids := terminated_ids st - {key}\<rparr>) w q"
proof -
  let ?st = "st\<lparr>dyn_children := hm_remove key (dyn_children st), pid_to_id := hm_remove (dyc_pid c) (pid_to_id st),
    terminated_ids := terminated_ids st - {key}\<rparr>"
  have other: "dyc_pid c' \<noteq> dyc_pid c" if "hm_get (dyn_children st) k = Some c'" "k \<noteq> key" for k c'
    using dyn_ok_unique [OF ok that(1) c] that(2) by auto
  have "index_ok ?st" using ok c other by (auto simp: dyn_ok_def index_ok_def wf_intros)
  moreover have "tasks_ok ?st w q"
  proof -
    have "\<exists>k c'. hm_get (dyn_children ?st) k = Some c' \<and> dyc_active c' \<and> dyc_pid c' = p'" if p': "p' \<in> set (dw_running w)" for p'
    proof -
      obtain k c' where k: "hm_get (dyn_children st) k = Some c'" "dyc_active c'" "dyc_pid c' = p'"
        using dyn_ok_running [OF ok p'] by blast
      then have "k \<noteq> key" using c p p' by auto
      with k show ?thesis by (intro exI [of _ k] exI [of _ c']) simp
    qed
    then show ?thesis using ok by (simp add: dyn_ok_def tasks_ok_def)
  qed
  moreover have "child_ok ?st w q k c'" if "hm_get (dyn_children ?st) k = Some c'" for k c'
    using that ok by (auto simp: dyn_ok_def child_ok_def split: if_splits)
  ultimately show ?thesis by (simp add: dyn_ok_def)
qed

text \<open>
  Taking a child down: the tasks change from \<open>w\<close> to \<open>w'\<close>, where the child's task no longer runs and all else runs as
  before, and an end still to be reported is marked as deliberate.
\<close>

lemma dyn_ok_down:
  assumes ok: "dyn_ok st w q" and c: "hm_get (dyn_children st) key = Some c"
    and w': "dw_rt w' = dw_rt w" "set (dw_running w') = set (dw_running w) - {dyc_pid c}"
      "set (unreported w' q) \<subseteq> insert (dyc_pid c) (set (unreported w q))" "distinct (dw_running w' @ unreported w' q)"
    and T: "T - {key} = terminated_ids st - {key}" "dyc_pid c \<in> set (unreported w' q) \<Longrightarrow> key \<in> T"
  shows "dyn_ok (release_child key (st\<lparr>terminated_ids := T\<rparr>)) w' q"
proof -
  let ?c = "c\<lparr>dyc_active := False, dyc_abort := False, dyc_done := False\<rparr>"
  let ?st = "release_child key (st\<lparr>terminated_ids := T\<rparr>)"
  have get: "hm_get (dyn_children ?st) k = (if k = key then Some ?c else hm_get (dyn_children st) k)" for k
    using c by (simp add: release_child_def)
  have other: "dyc_pid c' \<noteq> dyc_pid c" if "hm_get (dyn_children st) k = Some c'" "k \<noteq> key" for k c'
    using dyn_ok_unique [OF ok that(1) c] that(2) by auto
  have Tk: "k \<in> T \<longleftrightarrow> k \<in> terminated_ids st" if "k \<noteq> key" for k using T(1) that by blast
  have "index_ok ?st" using ok c other Tk unfolding index_ok_def get by (auto simp: dyn_ok_def index_ok_def release_child_def wf_intros)
  moreover have "tasks_ok ?st w' q"
    unfolding tasks_ok_def
  proof (intro conjI ballI)
    show "distinct (dw_running w' @ unreported w' q)" by (rule w'(4))
    show "issued (dw_table w') p" if "p \<in> set (dw_running w' @ unreported w' q)" for p
    proof -
      have "p = dyc_pid c \<or> p \<in> set (dw_running w @ unreported w q)" using that w'(2,3) by auto
      moreover have "issued (dw_table w) (dyc_pid c)" using ok c by (auto simp: dyn_ok_def child_ok_def)
      ultimately show ?thesis using ok w'(1) by (auto simp only: dyn_ok_def tasks_ok_def)
    qed
    show "\<exists>k d. hm_get (dyn_children ?st) k = Some d \<and> dyc_active d \<and> dyc_pid d = p" if "p \<in> set (dw_running w')" for p
    proof -
      have p: "p \<in> set (dw_running w)" "p \<noteq> dyc_pid c" using that w'(2) by auto
      then obtain k d where k: "hm_get (dyn_children st) k = Some d" "dyc_active d" "dyc_pid d = p"
        using dyn_ok_running [OF ok] by blast
      then have "k \<noteq> key" using c p(2) by auto
      with k show ?thesis unfolding get by (intro exI [of _ k] exI [of _ d]) simp
    qed
  qed
  moreover have "child_ok ?st w' q k d" if "hm_get (dyn_children ?st) k = Some d" for k d
  proof (cases "k = key")
    case True
    then have d: "d = ?c" using that by (simp add: get)
    have "child_ok st w q key c" using ok c by (simp add: dyn_ok_def)
    then show ?thesis using w'(1,2) T(2) unfolding True d by (auto simp: child_ok_def release_child_def)
  next
    case False
    then have k: "hm_get (dyn_children st) k = Some d" using that by (simp add: get)
    then have "child_ok st w q k d" using ok by (simp add: dyn_ok_def)
    moreover have "dyc_pid d \<in> set (unreported w' q) \<Longrightarrow> dyc_pid d \<in> set (unreported w q)"
      using w'(3) other [OF k False] by auto
    ultimately show ?thesis using w'(1,2) Tk [OF False] by (auto simp: child_ok_def release_child_def)
  qed
  ultimately show ?thesis by (simp add: dyn_ok_def)
qed

lemma dyn_ok_distinct: "dyn_ok st w q \<Longrightarrow> distinct (dw_running w @ unreported w q)"
  by (simp add: dyn_ok_def tasks_ok_def)

section \<open>Every round keeps the invariant\<close>

lemma dyn_ok_start:
  assumes "dyn_ok st w q" and "tb_next_id (dw_table w) \<noteq> u64_max" and "next_uid st \<noteq> u64_max"
    and "dyn_start_child M boots spec (st, w) = (pid, st', w')"
  shows "dyn_ok st' w' q"
proof -
  let ?key = "child_key (cspec_id spec) (next_uid st)"
  obtain w1 where s: "start_dyn_child M boots spec w = (pid, w1)" and w': "w' = w1"
    and st': "st' = st\<lparr>next_uid := next_uid st + 1, dyn_children := hm_insert ?key
      \<lparr>dyc_id = cspec_id spec, dyc_spec = spec, dyc_pid = pid, dyc_active = True, dyc_abort = True, dyc_done = True\<rparr> (dyn_children st),
      pid_to_id := hm_insert pid ?key (pid_to_id st)\<rparr>"
    using assms(4) by (auto simp: dyn_start_child_def Let_def split: prod.splits)
  have "hm_get (dyn_children st) ?key = None"
    using assms(1) by (cases "hm_get (dyn_children st) ?key") (auto simp: dyn_ok_def child_ok_def dest!: child_key_uid)
  then show ?thesis unfolding st' w'
    by (rule dyn_ok_insert [OF assms(1) s assms(2) _ refl]) (use u64_less_Suc [OF assms(3)] in simp_all)
qed

lemma dyn_ok_stop:
  assumes ok: "dyn_ok st w q" and c: "hm_get (dyn_children st) key = Some c" and s: "stop_child_by_key key (st, w) = (st', w')"
  shows "dyn_ok (st'\<lparr>terminated_ids := insert key (terminated_ids st')\<rparr>) w' q"
proof -
  have co: "child_ok st w q key c" using ok c by (simp add: dyn_ok_def)
  let ?p = "dyc_pid c"
  have w': "w' = (if ?p \<in> set (dw_running w) then w\<lparr>dw_running := remove1 ?p (dw_running w), dw_exiting := dw_exiting w @ [(?p, Normal)]\<rparr> else w)"
    using s c co by (auto simp: stop_child_by_key_def Let_def child_ok_def)
  have d: "distinct (dw_running w @ unreported w q)" using ok by (simp add: dyn_ok_def tasks_ok_def)
  have st': "st'\<lparr>terminated_ids := insert key (terminated_ids st')\<rparr> = release_child key (st\<lparr>terminated_ids := insert key (terminated_ids st)\<rparr>)"
    using s c by (auto simp: stop_child_by_key_def Let_def release_child_def split: if_splits)
  show ?thesis unfolding st'
  proof (rule dyn_ok_down [OF ok c])
    show "dw_rt w' = dw_rt w" by (simp add: w')
    show "set (dw_running w') = set (dw_running w) - {?p}" using d by (auto simp: w')
    show "set (unreported w' q) \<subseteq> insert ?p (set (unreported w q))" by (auto simp: w')
    show "distinct (dw_running w' @ unreported w' q)" using d by (auto simp: w' distinct_remove1)
  qed auto
qed

lemma terminate_child_ok:
  assumes ok: "dyn_ok st w q" and t: "terminate_child pid (st, w) = (r, st', w')"
  shows "dyn_ok st' w' q"
proof (cases "hm_get (pid_to_id st) pid")
  case None
  then show ?thesis using ok t by (simp add: terminate_child_def)
next
  case (Some key)
  from dyn_ok_index [OF ok this] obtain c where c: "hm_get (dyn_children st) key = Some c" by blast
  obtain st1 w1 where s: "stop_child_by_key key (st, w) = (st1, w1)" by (cases "stop_child_by_key key (st, w)")
  have "stop_child_by_key key (st\<lparr>terminated_ids := insert key (terminated_ids st)\<rparr>, w) = (st1\<lparr>terminated_ids := insert key (terminated_ids st1)\<rparr>, w1)"
    using s c by (auto simp: stop_child_by_key_def Let_def release_child_def split: if_splits)
  then show ?thesis using t Some dyn_ok_stop [OF ok c s] by (simp add: terminate_child_def)
qed

lemma remove_child_ok:
  assumes ok: "dyn_ok st w q" and "remove_child pid st = (r, st')"
  shows "dyn_ok st' w q"
proof (cases "hm_get (pid_to_id st) pid")
  case None
  then show ?thesis using assms by (simp add: remove_child_def)
next
  case (Some key)
  from dyn_ok_index [OF ok this] obtain c where c: "hm_get (dyn_children st) key = Some c" "dyc_pid c = pid" by blast
  show ?thesis
  proof (cases "dyc_active c")
    case True
    then show ?thesis using assms Some c by (simp add: remove_child_def)
  next
    case False
    then have "dyc_pid c \<notin> set (dw_running w)" using ok c(1) by (auto simp: dyn_ok_def child_ok_def)
    from dyn_ok_remove [OF ok c(1) this] show ?thesis using assms(2) Some c False by (simp add: remove_child_def)
  qed
qed

lemma restart_dyn_child_ok:
  assumes ok: "dyn_ok st w q" and c: "hm_get (dyn_children st) key = Some c" and pid: "dyc_pid c \<notin> set (dw_running w)"
    and t: "key \<notin> terminated_ids st" and wrap: "tb_next_id (dw_table w) \<noteq> u64_max"
    and r: "restart_dyn_child M boots (dyc_pid c) key c (st, w) = (st', w')"
  shows "dyn_ok st' w' q"
proof -
  obtain new w1 where s: "start_dyn_child M boots (dyc_spec c) w = (new, w1)" by (cases "start_dyn_child M boots (dyc_spec c) w")
  let ?st1 = "st\<lparr>dyn_children := hm_remove key (dyn_children st), pid_to_id := hm_remove (dyc_pid c) (pid_to_id st), terminated_ids := terminated_ids st - {key}\<rparr>"
  obtain i u where ku: "key = child_key i u" "u < next_uid st" using ok c unfolding dyn_ok_def child_ok_def by blast
  have "dyn_ok (?st1\<lparr>next_uid := next_uid ?st1, dyn_children := hm_insert key \<lparr>dyc_id = dyc_id c, dyc_spec = dyc_spec c, dyc_pid = new, dyc_active = True, dyc_abort = True, dyc_done = True\<rparr>
      (dyn_children ?st1), pid_to_id := hm_insert new key (pid_to_id ?st1)\<rparr>) w1 q"
    by (rule dyn_ok_insert [OF dyn_ok_remove [OF ok c pid] s wrap]) (use ku in simp_all)
  then show ?thesis using r s t by (simp add: restart_dyn_child_def Let_def)
qed

lemma check_limit_state:
  "snd (dyn_check_restart_limit now st) = st\<lparr>dyn_restart_times := dyn_restart_times (snd (dyn_check_restart_limit now st))\<rparr>"
  by (simp add: dyn_check_restart_limit_def Let_def)

lemma dyn_exit_ok:
  assumes ok: "dyn_ok st w (DynChildExited pid reason # q)" and wrap: "tb_next_id (dw_table w) \<noteq> u64_max"
    and h: "dyn_handle_child_exit M boots now pid reason (st, w) = (stop, st', w')"
  shows "dyn_ok st' w' q"
proof (cases "hm_get (pid_to_id st) pid")
  case None
  then show ?thesis using h dyn_ok_pop(1) [OF ok] by (simp add: dyn_handle_child_exit_def)
next
  case (Some key)
  note ok' = dyn_ok_pop(1) [OF ok] and fresh = dyn_ok_pop(2) [OF ok]
  from dyn_ok_index [OF ok' Some] obtain c where c: "hm_get (dyn_children st) key = Some c" "dyc_pid c = pid" by blast
  have down: "dyn_ok (release_child key (st\<lparr>terminated_ids := T\<rparr>)) w q" if "T - {key} = terminated_ids st - {key}" for T
  proof (rule dyn_ok_down [OF ok' c(1)])
    show "distinct (dw_running w @ unreported w q)" using ok' by (rule dyn_ok_distinct)
  qed (use that fresh c(2) in auto)
  show ?thesis
  proof (cases "key \<in> terminated_ids st")
    case True
    then show ?thesis using h Some down [of "terminated_ids st - {key}"] by (simp add: dyn_handle_child_exit_def)
  next
    case False
    let ?r = "cspec_restart (dyc_spec c)"
    consider "?r = Temporary" | "?r \<noteq> Temporary" "should_restart ?r reason" | "?r \<noteq> Temporary" "\<not> should_restart ?r reason" by blast
    then show ?thesis
    proof cases
      case 1
      then have "st' = st\<lparr>dyn_children := hm_remove key (dyn_children st), pid_to_id := hm_remove pid (pid_to_id st),
          terminated_ids := terminated_ids st - {key}\<rparr>" "w' = w"
        using h Some False c by (auto simp: dyn_handle_child_exit_def)
      then show ?thesis using c dyn_ok_remove [OF ok' c(1)] fresh by simp
    next
      case 2
      obtain ts where ts: "snd (dyn_check_restart_limit now st) = st\<lparr>dyn_restart_times := ts\<rparr>"
        using check_limit_state by blast
      show ?thesis
      proof (cases "fst (dyn_check_restart_limit now st)")
        case True
        with 2 h Some False c(1) ts have "restart_dyn_child M boots pid key c (st\<lparr>dyn_restart_times := ts\<rparr>, w) = (st', w')"
          by (simp add: dyn_handle_child_exit_def case_prod_beta Let_def)
        then show ?thesis
          using restart_dyn_child_ok [of "st\<lparr>dyn_restart_times := ts\<rparr>" w q key c M boots st' w'] ok' c fresh False wrap by simp
      next
        case no: False
        with 2 h Some False c(1) ts have "st' = st\<lparr>dyn_restart_times := ts\<rparr>" "w' = w"
          by (simp_all add: dyn_handle_child_exit_def case_prod_beta Let_def)
        then show ?thesis using ok' by simp
      qed
    next
      case 3
      then show ?thesis using h Some False c(1) down [of "terminated_ids st"] by (simp add: dyn_handle_child_exit_def)
    qed
  qed
qed

lemma dyn_round_ok:
  assumes "dyn_ok st w (m # q)" and "tb_next_id (dw_table w) \<noteq> u64_max" and "next_uid st \<noteq> u64_max"
    and "dyn_round M boots ord now m (st, w) = (False, r, st', w')"
  shows "dyn_ok st' w' q"
proof -
  have other: "dyn_ok st w q" if "exits (m # q) = exits q" using assms(1) that by (simp add: dyn_ok_def tasks_ok_def child_ok_def)
  show ?thesis
  proof (cases m)
    case (StartChild spec)
    then show ?thesis using dyn_ok_start [OF other assms(2,3), of M boots spec] assms(4) by (auto split: prod.splits)
  next
    case (TerminateChild pid)
    then show ?thesis using terminate_child_ok [OF other, of pid] assms(4) by (auto split: prod.splits)
  next
    case (RemoveChild pid)
    then show ?thesis using remove_child_ok [OF other, of pid] assms(4) by (auto split: prod.splits)
  next
    case (DynChildExited pid reason)
    then show ?thesis using dyn_exit_ok [of st w pid reason q M boots now] assms(1,2,4) by (auto split: prod.splits)
  qed (use other assms(4) in auto)
qed

section \<open>Executions\<close>

text \<open>
  A running supervisor with the unbounded queue of its messages. Clients send messages, tasks end, an ended task
  reports, and the supervisor handles the message at the head. The identifiers of children and processes
  are counted with 64 bits; an execution ends before a counter wraps.
\<close>

record ('c, 'h, 'd) dyn_run =
  run_state :: dyn_supervisor_state
  run_world :: "('c, 'h, 'd) dyn_world"
  run_queue :: "dyn_supervisor_msg list"
  run_stopped :: bool

definition dyn_run_new :: "dynamic_supervisor_spec \<Rightarrow> ('c, 'h, 'd) runtime \<Rightarrow> ('c, 'h, 'd) dyn_run" where
  "dyn_run_new spec rt = \<lparr>run_state = dyn_state_new spec, run_world = \<lparr>dw_rt = rt, dw_running = [], dw_exiting = []\<rparr>,
     run_queue = [], run_stopped = False\<rparr>"

inductive dyn_step ::
  "('v message, 'c) mpsc \<Rightarrow> (process_id \<Rightarrow> bool) \<Rightarrow> ((string, dyn_child_state) hashmap \<Rightarrow> (string, dyn_child_state) hashmap)
     \<Rightarrow> ('c, 'h, 'd) dyn_run \<Rightarrow> ('c, 'h, 'd) dyn_run \<Rightarrow> bool" for M boots ord where
  client: "exits [m] = [] \<Longrightarrow> dyn_step M boots ord s (s\<lparr>run_queue := run_queue s @ [m]\<rparr>)"
| ends: "p \<in> set (dw_running (run_world s)) \<Longrightarrow> dyn_step M boots ord s (s\<lparr>run_world := (run_world s)
     \<lparr>dw_running := remove1 p (dw_running (run_world s)), dw_exiting := dw_exiting (run_world s) @ [(p, reason)]\<rparr>\<rparr>)"
| reports: "dw_exiting (run_world s) = xs @ (p, reason) # ys \<Longrightarrow> dyn_step M boots ord s (s\<lparr>run_world := (run_world s)
     \<lparr>dw_exiting := xs @ ys\<rparr>, run_queue := run_queue s @ [DynChildExited p reason]\<rparr>)"
| handles: "\<not> run_stopped s \<Longrightarrow> run_queue s = m # q \<Longrightarrow> tb_next_id (dw_table (run_world s)) \<noteq> u64_max \<Longrightarrow>
     next_uid (run_state s) \<noteq> u64_max \<Longrightarrow> dyn_round M boots ord now m (run_state s, run_world s) = (stop, reply, st', w') \<Longrightarrow>
     dyn_step M boots ord s \<lparr>run_state = st', run_world = w', run_queue = q, run_stopped = stop\<rparr>"

definition run_ok :: "('c, 'h, 'd) dyn_run \<Rightarrow> bool" where
  "run_ok s \<longleftrightarrow> run_stopped s \<or> dyn_ok (run_state s) (run_world s) (run_queue s)"

lemma dyn_ok_queue:
  assumes "dyn_ok st w q" and "dw_rt w' = dw_rt w" and "set (dw_running w') \<subseteq> set (dw_running w)"
    and "mset (dw_running w' @ unreported w' q') = mset (dw_running w @ unreported w q)"
    and "\<And>key c. hm_get (dyn_children st) key = Some c \<Longrightarrow> \<not> dyc_active c \<Longrightarrow> dyc_pid c \<in> set (unreported w' q') \<Longrightarrow> dyc_pid c \<in> set (unreported w q)"
  shows "dyn_ok st w' q'"
proof -
  have "set (dw_running w' @ unreported w' q') = set (dw_running w @ unreported w q)"
    "distinct (dw_running w' @ unreported w' q') = distinct (dw_running w @ unreported w q)"
    using assms(4) by (metis set_mset_mset) (metis assms(4) mset_eq_imp_distinct_iff)
  then have "tasks_ok st w' q'" using assms(1,2,3) unfolding dyn_ok_def tasks_ok_def by auto
  moreover have "child_ok st w' q' key c" if "hm_get (dyn_children st) key = Some c" for key c
  proof -
    have "child_ok st w q key c" using assms(1) that by (simp add: dyn_ok_def)
    then show ?thesis using assms(2,3) assms(5) [OF that] by (auto simp: child_ok_def)
  qed
  ultimately show ?thesis using assms(1) by (simp add: dyn_ok_def)
qed

lemma dyn_step_ok: "dyn_step M boots ord s s' \<Longrightarrow> run_ok s \<Longrightarrow> run_ok s'"
proof (induction rule: dyn_step.induct)
  case (client m s)
  then show ?case by (auto simp: run_ok_def dyn_ok_def tasks_ok_def child_ok_def)
next
  case (ends p s reason)
  show ?case
  proof (cases "run_stopped s")
    case False
    then have ok: "dyn_ok (run_state s) (run_world s) (run_queue s)" using ends.prems by (simp add: run_ok_def)
    have "dyc_pid c \<noteq> p" if "hm_get (dyn_children (run_state s)) key = Some c" "\<not> dyc_active c" for key c
      using ok that ends.hyps by (auto simp: dyn_ok_def child_ok_def)
    then show ?thesis using False ends.hyps
      by (auto simp: run_ok_def intro!: dyn_ok_queue [OF ok] dest: set_remove1_subset [THEN subsetD])
  qed (simp add: run_ok_def)
next
  case (reports s xs p reason ys)
  show ?case
  proof (cases "run_stopped s")
    case False
    then have ok: "dyn_ok (run_state s) (run_world s) (run_queue s)" using reports.prems by (simp add: run_ok_def)
    then show ?thesis using False reports.hyps
      by (auto simp: run_ok_def intro!: dyn_ok_queue [OF ok])
  qed (simp add: run_ok_def)
next
  case (handles s m q now stop reply st' w')
  show ?case
  proof (cases stop)
    case False
    then show ?thesis using handles dyn_round_ok [of "run_state s" "run_world s" m q M boots ord now reply st' w']
      by (simp add: run_ok_def)
  qed (simp add: run_ok_def)
qed

interpretation dyn: transition_invariant "dyn_step M boots ord" run_ok for M boots ord
  by unfold_locales (rule dyn_step_ok)

lemma run_ok_new: "run_ok (dyn_run_new spec rt)"
  by (simp add: run_ok_def dyn_run_new_def dyn_ok_new)

lemma dyn_reach_ok: "(dyn_step M boots ord)\<^sup>*\<^sup>* (dyn_run_new spec rt) s \<Longrightarrow> run_ok s"
  by (rule dyn.reach_inv [OF _ run_ok_new])


definition sample_dyn_runtime :: "(nat message chan, nat, unit) runtime" where
  "sample_dyn_runtime = runtime_new 1"

section \<open>A child that is down stays down\<close>

definition held :: "string \<Rightarrow> process_id \<Rightarrow> dyn_supervisor_state \<Rightarrow> bool" where
  "held key pid st \<longleftrightarrow> (\<forall>k c. hm_get (dyn_children st) k = Some c \<longrightarrow> k = key \<or> dyc_pid c = pid \<longrightarrow> k = key \<and> \<not> dyc_active c \<and> dyc_pid c = pid)"

definition down :: "string \<Rightarrow> process_id \<Rightarrow> dyn_supervisor_state \<Rightarrow> ('c, 'h, 'd) dyn_world \<Rightarrow> bool" where
  "down key pid st w \<longleftrightarrow> (\<exists>i u. u < next_uid st \<and> key = child_key i u) \<and> issued (dw_table w) pid \<and> pid \<notin> set (dw_running w) \<and> held key pid st"

lemma heldD: "held key pid st \<Longrightarrow> hm_get (dyn_children st) k = Some c \<Longrightarrow> k = key \<or> dyc_pid c = pid \<Longrightarrow> k = key \<and> \<not> dyc_active c \<and> dyc_pid c = pid"
  unfolding held_def by blast

lemma heldI:
  "(\<And>k c. hm_get (dyn_children st) k = Some c \<Longrightarrow> k = key \<or> dyc_pid c = pid \<Longrightarrow> k = key \<and> \<not> dyc_active c \<and> dyc_pid c = pid) \<Longrightarrow> held key pid st"
  unfolding held_def by blast

lemma down_intro:
  assumes "dyn_ok st w q" and c: "hm_get (dyn_children st) key = Some c" and "\<not> dyc_active c"
  shows "down key (dyc_pid c) st w"
proof -
  have "child_ok st w q key c" using assms(1,2) by (simp add: dyn_ok_def)
  moreover have "held key (dyc_pid c) st"
  proof (rule heldI)
    fix k d assume d: "hm_get (dyn_children st) k = Some d" "k = key \<or> dyc_pid d = dyc_pid c"
    then have "k = key" using dyn_ok_unique [OF assms(1) d(1) c] by blast
    then show "k = key \<and> \<not> dyc_active d \<and> dyc_pid d = dyc_pid c" using d(1) c assms(3) by simp
  qed
  ultimately show ?thesis using assms(3) by (simp add: down_def child_ok_def)
qed

lemma down_shrink:
  assumes "down key pid st w" and "next_uid st' = next_uid st" and "dw_rt w' = dw_rt w" and "set (dw_running w') \<subseteq> set (dw_running w)"
    and sub: "\<And>k c. hm_get (dyn_children st') k = Some c \<Longrightarrow> \<exists>c0. hm_get (dyn_children st) k = Some c0 \<and> dyc_pid c = dyc_pid c0 \<and> (dyc_active c \<longrightarrow> dyc_active c0)"
  shows "down key pid st' w'"
proof -
  have h: "held key pid st" using assms(1) by (simp add: down_def)
  have "held key pid st'"
  proof (rule heldI)
    fix k c assume k: "hm_get (dyn_children st') k = Some c" "k = key \<or> dyc_pid c = pid"
    from sub [OF k(1)] obtain c0 where c0: "hm_get (dyn_children st) k = Some c0" "dyc_pid c = dyc_pid c0" "dyc_active c \<longrightarrow> dyc_active c0" by blast
    then have "k = key \<or> dyc_pid c0 = pid" using k(2) by simp
    from heldD [OF h c0(1) this] c0(2,3) show "k = key \<and> \<not> dyc_active c \<and> dyc_pid c = pid" by simp
  qed
  moreover have "pid \<notin> set (dw_running w')" using assms(1,4) by (auto simp only: down_def)
  ultimately show ?thesis using assms(1) unfolding down_def assms(2,3) by blast
qed

lemma down_start:
  assumes d: "down key pid st w" and s: "start_dyn_child M boots spec w = (new, w1)" and wrap: "tb_next_id (dw_table w) \<noteq> u64_max"
    and "k \<noteq> key" and "next_uid st \<le> next_uid st'"
    and get: "\<And>k'. hm_get (dyn_children st') k' = (if k' = k then Some c else hm_get (dyn_children st) k')" and "dyc_pid c = new"
  shows "down key pid st' w1"
proof -
  note eff = start_dyn_child_effect [OF s wrap]
  have h: "held key pid st" using d by (simp add: down_def)
  have new: "new \<noteq> pid" using d eff(1) by (auto simp: down_def)
  have "held key pid st'"
  proof (rule heldI)
    fix k' e assume k': "hm_get (dyn_children st') k' = Some e" "k' = key \<or> dyc_pid e = pid"
    then have "k' \<noteq> k" using get [of k'] new assms(4,7) by auto
    then show "k' = key \<and> \<not> dyc_active e \<and> dyc_pid e = pid" using heldD [OF h _ k'(2)] k'(1) get [of k'] by simp
  qed
  moreover obtain i u where "u < next_uid st'" "key = child_key i u"
    using d assms(5) unfolding down_def by (blast intro: less_le_trans)
  moreover have "pid \<notin> set (dw_running w1)" using d new eff(4) by (auto simp: down_def)
  moreover have "issued (dw_table w1) pid" using d eff(3) by (simp add: down_def)
  ultimately show ?thesis unfolding down_def by blast
qed

lemma stop_child_shrinks:
  assumes "stop_child_by_key k (st, w) = (st', w')"
  shows "next_uid st' = next_uid st" and "dw_rt w' = dw_rt w" and "set (dw_running w') \<subseteq> set (dw_running w)"
    and "hm_get (dyn_children st') k' = Some c \<Longrightarrow>
        \<exists>c0. hm_get (dyn_children st) k' = Some c0 \<and> dyc_pid c = dyc_pid c0 \<and> (dyc_active c \<longrightarrow> dyc_active c0)"
proof -
  show "next_uid st' = next_uid st" "dw_rt w' = dw_rt w"
    using assms by (auto simp: stop_child_by_key_def release_child_def Let_def split: option.splits if_splits)
  show "set (dw_running w') \<subseteq> set (dw_running w)"
    using assms set_remove1_subset by (fastforce simp: stop_child_by_key_def Let_def split: option.splits if_splits)
  assume a: "hm_get (dyn_children st') k' = Some c"
  show "\<exists>c0. hm_get (dyn_children st) k' = Some c0 \<and> dyc_pid c = dyc_pid c0 \<and> (dyc_active c \<longrightarrow> dyc_active c0)"
  proof (cases "st' = st")
    case True
    then show ?thesis using a by simp
  next
    case False
    then have "st' = release_child k st" using assms by (auto simp: stop_child_by_key_def Let_def split: option.splits)
    then show ?thesis using a by (auto simp: release_child_def split: if_splits)
  qed
qed

lemma down_stop: "down key pid st w \<Longrightarrow> stop_child_by_key k (st, w) = (st', w') \<Longrightarrow> down key pid st' w'"
  by (rule down_shrink) (use stop_child_shrinks [of k st w st' w'] in blast)+

lemma down_stops: "down key pid (fst sw) (snd sw) \<Longrightarrow> down key pid (fst (fold stop_child_by_key ks sw)) (snd (fold stop_child_by_key ks sw))"
proof (induction ks arbitrary: sw)
  case (Cons k ks)
  then show ?case using down_stop [of key pid "fst sw" "snd sw" k] by (simp add: prod_eq_iff)
qed simp

lemma down_exit:
  assumes d: "down key pid st w" and ok: "dyn_ok st w (DynChildExited p reason # q)" and wrap: "tb_next_id (dw_table w) \<noteq> u64_max"
    and h: "dyn_handle_child_exit M boots now p reason (st, w) = (stop, st', w')"
  shows "down key pid st' w'"
proof (cases "hm_get (pid_to_id st) p")
  case None
  then show ?thesis using h d by (simp add: dyn_handle_child_exit_def)
next
  case (Some k)
  from dyn_ok_index [OF ok this] obtain c where c: "hm_get (dyn_children st) k = Some c" "dyc_pid c = p" by blast
  consider "k \<in> terminated_ids st" | "k \<notin> terminated_ids st" "k \<noteq> key"
  proof (cases "k = key")
    case True
    then have "\<not> dyc_active c" using d c heldD [of key pid st k c] by (simp add: down_def)
    then have "k \<in> terminated_ids st" using ok c by (auto simp: dyn_ok_def child_ok_def)
    then show thesis using that by blast
  qed (use that in blast)
  then show ?thesis
  proof cases
    case 1
    then have "st' = release_child k (st\<lparr>terminated_ids := terminated_ids st - {k}\<rparr>)" "w' = w"
      using h Some by (simp_all add: dyn_handle_child_exit_def)
    then show ?thesis using c(1) by (auto intro!: down_shrink [OF d] simp: release_child_def split: if_splits)
  next
    case 2
    let ?st1 = "snd (dyn_check_restart_limit now st)"
    have t: "dyn_children ?st1 = dyn_children st" "next_uid ?st1 = next_uid st"
      by (simp_all add: dyn_check_restart_limit_def Let_def)
    consider "w' = w" "st' = st\<lparr>dyn_children := hm_remove k (dyn_children st), pid_to_id := hm_remove p (pid_to_id st)\<rparr>"
      | "w' = w" "st' = ?st1" | "w' = w" "st' = release_child k st" | "restart_dyn_child M boots p k c (?st1, w) = (st', w')"
      using h Some 2 c(1) by (auto simp: dyn_handle_child_exit_def case_prod_beta Let_def split: if_splits)
    then show ?thesis
    proof cases
      case 4
      obtain new w1 where s: "start_dyn_child M boots (dyc_spec c) w = (new, w1)" by (cases "start_dyn_child M boots (dyc_spec c) w")
      with 4 have "w' = w1" by (simp add: restart_dyn_child_def Let_def)
      moreover have "down key pid st' w1"
        by (rule down_start [OF d s wrap 2(2)]) (use 4 s t in \<open>auto simp: restart_dyn_child_def Let_def\<close>)
      ultimately show ?thesis by simp
    qed (use t in \<open>auto intro!: down_shrink [OF d] simp: release_child_def split: if_splits\<close>)
  qed
qed

lemma down_round:
  assumes d: "down key pid st w" and ok: "dyn_ok st w (m # q)" and wrap: "tb_next_id (dw_table w) \<noteq> u64_max" "next_uid st \<noteq> u64_max"
    and r: "dyn_round M boots ord now m (st, w) = (stop, reply, st', w')"
  shows "down key pid st' w'"
proof (cases m)
  case (StartChild spec)
  let ?key = "child_key (cspec_id spec) (next_uid st)"
  obtain new w1 where s: "start_dyn_child M boots spec w = (new, w1)" by (cases "start_dyn_child M boots spec w")
  have w1: "w' = w1" using r s StartChild by (simp add: dyn_start_child_def Let_def)
  have k: "?key \<noteq> key" using d by (auto simp: down_def dest!: child_key_uid)
  have "down key pid st' w1"
    by (rule down_start [OF d s wrap(1) k])
       (use r s StartChild u64_less_Suc [OF wrap(2)] in \<open>auto simp: dyn_start_child_def Let_def\<close>)
  then show ?thesis by (simp add: w1)
next
  case (TerminateChild p)
  then show ?thesis
  proof (cases "hm_get (pid_to_id st) p")
    case None
    then show ?thesis using r d TerminateChild by (simp add: terminate_child_def)
  next
    case (Some k)
    have "down key pid (st\<lparr>terminated_ids := insert k (terminated_ids st)\<rparr>) w"
      by (rule down_shrink [OF d]) simp_all
    moreover have "stop_child_by_key k (st\<lparr>terminated_ids := insert k (terminated_ids st)\<rparr>, w) = (st', w')"
      using r TerminateChild Some by (simp add: terminate_child_def)
    ultimately show ?thesis by (rule down_stop)
  qed
next
  case (RemoveChild p)
  then have "w' = w" "next_uid st' = next_uid st" "\<And>k c. hm_get (dyn_children st') k = Some c \<Longrightarrow> hm_get (dyn_children st) k = Some c"
    using r by (auto simp: remove_child_def split: option.splits if_splits)
  then show ?thesis by (auto intro!: down_shrink [OF d])
next
  case (DynChildExited p reason)
  then show ?thesis using down_exit [OF d, of p reason q M boots now stop st' w'] ok wrap r by (auto split: prod.splits)
next
  case DynShutdown
  then obtain ks where "fold stop_child_by_key ks (st, w) = (st', w')" using r by (auto simp: dyn_shutdown_all_def Let_def)
  then show ?thesis using down_stops [of key pid "(st, w)" ks] d by simp
qed (use d r in auto)

lemma down_step:
  "dyn_step M boots ord s s' \<Longrightarrow> run_ok s \<Longrightarrow> down key pid (run_state s) (run_world s) \<Longrightarrow> down key pid (run_state s') (run_world s')"
proof (induction rule: dyn_step.induct)
  case (ends p s reason)
  then show ?case by (auto intro!: down_shrink [of key pid "run_state s" "run_world s"] dest: set_remove1_subset [THEN subsetD])
next
  case (reports s xs p reason ys)
  then show ?case by (auto intro!: down_shrink [of key pid "run_state s" "run_world s"])
next
  case (handles s m q now stop reply st' w')
  then show ?case using down_round [of key pid "run_state s" "run_world s" m q M boots ord now stop reply st' w'] by (simp add: run_ok_def)
qed simp

interpretation dyd: transition_invariant "dyn_step M boots ord" "\<lambda>s. run_ok s \<and> down key pid (run_state s) (run_world s)"
  for M boots ord key pid
  by unfold_locales (auto intro: dyn_step_ok down_step)

text \<open>A client's message that is handled at once, and a supervisor with one child, before and after its termination.\<close>

definition serve ::
  "('v message, 'c) mpsc \<Rightarrow> dyn_supervisor_msg \<Rightarrow> ('c, 'h, 'd) dyn_run \<Rightarrow> ('c, 'h, 'd) dyn_run" where
  "serve M m s =
     (case dyn_round M (\<lambda>_. True) (\<lambda>c. c) 0 m (run_state s, run_world s) of
        (stop, _, st, w) \<Rightarrow> \<lparr>run_state = st, run_world = w, run_queue = [], run_stopped = stop\<rparr>)"

lemma serve_steps:
  assumes "(dyn_step M (\<lambda>_. True) (\<lambda>c. c))\<^sup>*\<^sup>* s0 s" and "run_queue s = []" and "\<not> run_stopped s" and "exits [m] = []"
    and "tb_next_id (dw_table (run_world s)) \<noteq> u64_max" and "next_uid (run_state s) \<noteq> u64_max"
  shows "(dyn_step M (\<lambda>_. True) (\<lambda>c. c))\<^sup>*\<^sup>* s0 (serve M m s)"
proof -
  obtain stop r st w where d: "dyn_round M (\<lambda>_. True) (\<lambda>c. c) 0 m (run_state s, run_world s) = (stop, r, st, w)"
    by (cases "dyn_round M (\<lambda>_. True) (\<lambda>c. c) 0 m (run_state s, run_world s)") auto
  have "dyn_step M (\<lambda>_. True) (\<lambda>c. c) s (s\<lparr>run_queue := [m]\<rparr>)"
    using dyn_step.client [OF assms(4), of M "\<lambda>_. True" "\<lambda>c. c" s] assms(2) by simp
  moreover have "dyn_step M (\<lambda>_. True) (\<lambda>c. c) (s\<lparr>run_queue := [m]\<rparr>) (serve M m s)"
    unfolding serve_def d prod.case by (rule dyn_step.handles) (use assms d in simp_all)
  ultimately show ?thesis using assms(1) by (meson rtranclp.rtrancl_into_rtrancl)
qed

definition one_child :: "(nat message chan, nat, unit) dyn_run" where
  "one_child = serve list_mpsc (StartChild (child_spec_new ''w'')) (dyn_run_new dynamic_spec_new sample_dyn_runtime)"

definition one_down :: "(nat message chan, nat, unit) dyn_run" where
  "one_down = serve list_mpsc (TerminateChild (process_id_new 1 1)) one_child"

lemmas dyn_sample_defs = serve_def dyn_run_new_def dyn_state_new_def sample_dyn_runtime_def runtime_new_def
  table_new_def dyn_start_child_def start_dyn_child_def spawn_def allocate_pid_def table_insert_def child_spec_new_def dynamic_spec_new_def
  child_key_def hm_get_def hm_insert_def Let_def

lemma decimal_0: "decimal 0 = ''0''"
  by code_simp

lemma one_child_eval:
  "run_stopped one_child = False" "run_queue one_child = []" "next_uid (run_state one_child) = 1"
  "tb_next_id (dw_table (run_world one_child)) = 2" "dw_running (run_world one_child) = [process_id_new 1 1]"
  "hm_get (pid_to_id (run_state one_child)) (process_id_new 1 1) = Some ''w#0''"
  "hm_get (dyn_children (run_state one_child)) ''w#0'' = Some \<lparr>dyc_id = ''w'', dyc_spec = child_spec_new ''w'',
     dyc_pid = process_id_new 1 1, dyc_active = True, dyc_abort = True, dyc_done = True\<rparr>"
  by (simp_all add: one_child_def dyn_sample_defs decimal_0)

lemma one_child_reach: "(dyn_step list_mpsc (\<lambda>_. True) (\<lambda>c. c))\<^sup>*\<^sup>* (dyn_run_new dynamic_spec_new sample_dyn_runtime) one_child"
  unfolding one_child_def
  by (rule serve_steps [OF rtranclp.rtrancl_refl]) (simp_all add: dyn_sample_defs u64_max_def)


lemma one_down_reach: "(dyn_step list_mpsc (\<lambda>_. True) (\<lambda>c. c))\<^sup>*\<^sup>* (dyn_run_new dynamic_spec_new sample_dyn_runtime) one_down"
  unfolding one_down_def by (rule serve_steps [OF one_child_reach]) (simp_all add: one_child_eval u64_max_def)

lemma one_down_eval:
  "run_stopped one_down = False"
  "hm_get (dyn_children (run_state one_down)) ''w#0'' = Some \<lparr>dyc_id = ''w'', dyc_spec = child_spec_new ''w'',
     dyc_pid = process_id_new 1 1, dyc_active = False, dyc_abort = False, dyc_done = False\<rparr>"
  by (simp_all add: one_down_def serve_def terminate_child_def one_child_eval stop_child_by_key_def release_child_def Let_def)

text \<open>
  C30: a child that is down stays down. Once a child of a running dynamic supervisor is inactive (terminated on
  request, or a transient child that ended normally), no later message, exit report or shutdown starts it again:
  its key is absent or inactive with the same pid in every later state, and that process does not run.
\<close>

theorem dyn_child_stays_down:
  assumes "(dyn_step M boots ord)\<^sup>*\<^sup>* (dyn_run_new spec rt) s" and "\<not> run_stopped s"
    and "hm_get (dyn_children (run_state s)) key = Some c" and "\<not> dyc_active c" and "(dyn_step M boots ord)\<^sup>*\<^sup>* s s'"
  shows "dyc_pid c \<notin> set (dw_running (run_world s'))
    \<and> (\<forall>c'. hm_get (dyn_children (run_state s')) key = Some c' \<longrightarrow> \<not> dyc_active c' \<and> dyc_pid c' = dyc_pid c)"
proof -
  have ok: "run_ok s" using dyn_reach_ok [OF assms(1)] .
  then have "dyn_ok (run_state s) (run_world s) (run_queue s)" using assms(2) by (simp add: run_ok_def)
  from dyd.reach_inv [OF assms(5) conjI [OF ok down_intro [OF this assms(3,4)]]]
  have "down key (dyc_pid c) (run_state s') (run_world s')" by blast
  then show ?thesis unfolding down_def by (blast dest: heldD)
qed

theorem dyn_child_stays_down_witness: "process_id_new 1 1 \<notin> set (dw_running (run_world one_down))"
  using dyn_child_stays_down [OF one_down_reach _ one_down_eval(2) _ rtranclp.rtrancl_refl] one_down_eval(1) by simp

section \<open>The end of the supervisor\<close>

lemma stops_shrink: "set (dw_running (snd (fold stop_child_by_key ks sw))) \<subseteq> set (dw_running (snd sw))"
proof (induction ks arbitrary: sw)
  case (Cons k ks)
  then show ?case
    using stop_child_shrinks(3) [of k "fst sw" "snd sw"] by (cases "stop_child_by_key k sw") force
qed simp

lemma stops_running:
  "distinct (dw_running (snd sw)) \<Longrightarrow> key \<in> set ks \<Longrightarrow> hm_get (dyn_children (fst sw)) key = Some c \<Longrightarrow> dyc_abort c \<Longrightarrow> dyc_done c \<Longrightarrow>
   dyc_pid c \<notin> set (dw_running (snd (fold stop_child_by_key ks sw)))"
proof (induction ks arbitrary: sw)
  case (Cons k ks)
  obtain st w where sw: "sw = (st, w)" by (cases sw)
  obtain st1 w1 where s: "stop_child_by_key k (st, w) = (st1, w1)" by (cases "stop_child_by_key k (st, w)")
  have d: "distinct (dw_running w1)"
    using s Cons.prems(1) by (auto simp: sw stop_child_by_key_def Let_def distinct_remove1 split: option.splits if_splits)
  show ?case
  proof (cases "key = k")
    case True
    then have "dyc_pid c \<notin> set (dw_running w1)"
      using s Cons.prems by (auto simp: sw stop_child_by_key_def Let_def split: if_splits)
    then show ?thesis using stops_shrink [of ks "(st1, w1)"] by (auto simp: sw s)
  next
    case False
    then have "hm_get (dyn_children st1) key = Some c"
      using s Cons.prems(3) by (auto simp: sw stop_child_by_key_def release_child_def Let_def split: option.splits)
    then show ?thesis using Cons.IH [of "(st1, w1)"] d Cons.prems(2,4,5) False by (simp add: sw s)
  qed
qed simp

lemma shutdown_stops_all:
  assumes ok: "dyn_ok st w q" and "hash_order ord"
  shows "dw_running (snd (dyn_shutdown_all ord (st, w))) = []"
proof -
  let ?ks = "map fst (filter (\<lambda>(_, c). dyc_active c) (ord (dyn_children st)))"
  have d: "distinct (dw_running w)" using dyn_ok_distinct [OF ok] by simp
  have "p \<notin> set (dw_running (snd (fold stop_child_by_key ?ks (st, w))))" for p
  proof
    assume p: "p \<in> set (dw_running (snd (fold stop_child_by_key ?ks (st, w))))"
    then have "p \<in> set (dw_running w)" using stops_shrink [of ?ks "(st, w)"] by auto
    from dyn_ok_running [OF ok this] obtain key c where c: "hm_get (dyn_children st) key = Some c" "dyc_active c" "dyc_pid c = p" by blast
    have "dyc_abort c" "dyc_done c" using ok c(1,2) by (auto simp: dyn_ok_def child_ok_def)
    moreover have "key \<in> set ?ks"
      using c(1,2) hash_order_set [OF assms(2)] by (force dest: hm_get_in_set)
    ultimately show False using stops_running [of "(st, w)" key ?ks c] d c(1,3) p by simp
  qed
  then show ?thesis by (simp add: dyn_shutdown_all_def Let_def) (metis list.set_intros(1) list.exhaust)
qed

text \<open>
  The two ways a dynamic supervisor ends differ. A requested shutdown ends the task of every child. When the
  restart budget is exceeded, which happens exactly when the child that exited calls for a restart and the
  window already holds \<open>max_restarts\<close> restarts, the supervisor ends too, but the tasks of all other children keep
  running and nothing is left that would stop them.
\<close>

theorem dyn_escalation_orphans:
  assumes "(dyn_step M boots ord)\<^sup>*\<^sup>* (dyn_run_new spec rt) s" and "\<not> run_stopped s" and "hash_order ord"
    and "hm_get (pid_to_id (run_state s)) pid = Some key" and "hm_get (dyn_children (run_state s)) key = Some c"
  shows "dw_running (snd (snd (snd (dyn_round M boots ord now DynShutdown (run_state s, run_world s))))) = []
    \<and> (case dyn_round M boots ord now (DynChildExited pid reason) (run_state s, run_world s) of (stop, _, st', w') \<Rightarrow>
        stop = (key \<notin> terminated_ids (run_state s) \<and> should_restart (cspec_restart (dyc_spec c)) reason
          \<and> unat (dss_max_restarts (dyn_spec (run_state s))) \<le> length (dropWhile
              (\<lambda>t. now - t > from_secs (unat (dss_max_seconds (dyn_spec (run_state s))))) (dyn_restart_times (run_state s))))
      \<and> (stop \<longrightarrow> dw_running w' = dw_running (run_world s) \<and> dyn_children st' = dyn_children (run_state s)))"
proof -
  have ok: "dyn_ok (run_state s) (run_world s) (run_queue s)" using dyn_reach_ok [OF assms(1)] assms(2) by (simp add: run_ok_def)
  have "should_restart r reason \<Longrightarrow> r \<noteq> Temporary" for r by (cases r) auto
  then show ?thesis using shutdown_stops_all [OF ok assms(3)] assms(4,5)
    by (auto simp: dyn_handle_child_exit_def dyn_check_restart_limit_def duration_since_def case_prod_beta Let_def)
qed

theorem dyn_escalation_orphans_witness:
  "dw_running (snd (snd (snd (dyn_round list_mpsc (\<lambda>_. True) (\<lambda>c. c) 7 DynShutdown (run_state one_child, run_world one_child))))) = []"
  using dyn_escalation_orphans [OF one_child_reach _ _ one_child_eval(6,7), of 7 Kill] one_child_eval(1) by simp

end
