(* ===== verification/Supervision.thy ===== *)
theory Supervision
  imports Handle Dyn_Supervisor
begin

text \<open>
  Supervisors as processes and their handles (\<^verbatim>\<open>start_supervisor\<close> and \<open>SupervisorHandle\<close> of \<^verbatim>\<open>crates/rebar-core/src/supervisor/engine.rs\<close>,
  \<^verbatim>\<open>start_dynamic_supervisor\<close> and \<open>DynamicSupervisorHandle\<close> of \<^verbatim>\<open>supervisor/dynamic.rs\<close>). Both supervisors answer the requests
  of their handles as the locale \<open>request_server\<close> asks; the theory shows what becomes of a request, also when the supervisor
  ends, and what a watcher sees of the end.
\<close>

section \<open>The static supervisor\<close>

datatype sup_reply = AddedChild process_id | AddedChildren "process_id list"

text \<open>A turn of \<open>supervisor_loop\<close> with its reply. \<open>AddChild\<close> and \<open>AddChildren\<close> always reply with \<open>Ok\<close>.\<close>

fun supervisor_serve ::
  "('v message, 'c) mpsc \<Rightarrow> (process_id \<Rightarrow> bool) \<Rightarrow> (process_id \<Rightarrow> bool) \<Rightarrow> instant
     \<Rightarrow> supervisor_msg \<Rightarrow> ('c, 'h, 'd) sup_system \<Rightarrow> bool \<times> sup_reply option \<times> ('c, 'h, 'd) sup_system" where
  "supervisor_serve M boots finishes now (ChildExited index pid reason) sw =
     (let (stop, sw1) = handle_child_exit M boots finishes now index pid reason sw in (stop, None, sw1))"
| "supervisor_serve M boots finishes now (AddChild spec) sw =
     (let (pid, sw1) = add_child M boots spec sw in (False, Some (AddedChild pid), sw1))"
| "supervisor_serve M boots finishes now (AddChildren specs) sw =
     (let (pids, sw1) = add_children M boots specs sw in (False, Some (AddedChildren pids), sw1))"
| "supervisor_serve M boots finishes now Shutdown sw = (True, None, shutdown_all_children finishes sw)"

fun sup_asks :: "supervisor_msg \<Rightarrow> bool" where
  "sup_asks (AddChild spec) = True"
| "sup_asks (AddChildren specs) = True"
| "sup_asks (ChildExited index pid reason) = False"
| "sup_asks Shutdown = False"

text \<open>The process of the supervisor: its pid, and its requests with the state of its loop after the start of the children.\<close>

definition start_supervisor ::
  "('v message, 'c) mpsc \<Rightarrow> (process_id \<Rightarrow> bool) \<Rightarrow> supervisor_spec \<Rightarrow> child_spec list \<Rightarrow> ('c, 'h, 'd) sup_world
     \<Rightarrow> process_id \<times> (supervisor_msg, sup_reply, ('c, 'h, 'd) sup_system) requests" where
  "start_supervisor M boots spec children w =
     (let (pid, rt1) = spawn M (w_rt w) in
      (pid, requests_new (supervisor_start M boots spec children (w\<lparr>w_rt := rt1\<rparr>))))"

text \<open>The end of the process, after a clean shutdown and, by a panic, after an escalation: the drop guard of the task runs.\<close>

definition supervisor_exit ::
  "('v message, 'c) mpsc \<Rightarrow> 'v rmpv \<Rightarrow> process_id \<Rightarrow> bool \<Rightarrow> ('c, 'h, 'd) sup_world \<Rightarrow> ('h \<times> process_id) list \<times> ('c, 'h, 'd) sup_world" where
  "supervisor_exit M V pid escalated w =
     (let (calls, rt) = process_exit M V pid (w_rt w) in (calls, w\<lparr>w_rt := rt\<rparr>))"

section \<open>The handle\<close>

definition supervisor_gone :: string where
  "supervisor_gone = ''supervisor gone''"

text \<open>What a method returns, from the channel of its request (\<open>None\<close>: it could not be sent); no result while it waits.\<close>

definition handle_add_child :: "sup_reply oneshot option \<Rightarrow> (string + sup_reply) option" where
  "handle_add_child ch = ask_result supervisor_gone ch"

fun replied_pids :: "sup_reply \<Rightarrow> process_id list" where
  "replied_pids (AddedChild pid) = [pid]"
| "replied_pids (AddedChildren pids) = pids"

definition handle_add_children :: "sup_reply oneshot option \<Rightarrow> (string + process_id) list option" where
  "handle_add_children ch =
     map_option (\<lambda>r. case r of Inl e \<Rightarrow> [Inl e] | Inr reply \<Rightarrow> map Inr (replied_pids reply)) (ask_result supervisor_gone ch)"

definition handle_shutdown ::
  "(supervisor_msg, sup_reply, ('c, 'h, 'd) sup_system) requests \<Rightarrow> (supervisor_msg, sup_reply, ('c, 'h, 'd) sup_system) requests" where
  "handle_shutdown q = rq_tell Shutdown q"

section \<open>The dynamic supervisor\<close>

fun dyn_asks :: "dyn_supervisor_msg \<Rightarrow> bool" where
  "dyn_asks (DynChildExited pid reason) = False"
| "dyn_asks DynShutdown = False"
| "dyn_asks _ = True"

definition start_dynamic_supervisor ::
  "('v message, 'c) mpsc \<Rightarrow> dynamic_supervisor_spec \<Rightarrow> ('c, 'h, 'd) runtime
     \<Rightarrow> process_id \<times> (dyn_supervisor_msg, dyn_reply, ('c, 'h, 'd) dyn_system) requests" where
  "start_dynamic_supervisor M spec rt =
     (let (pid, rt1) = spawn M rt in
      (pid, requests_new (dyn_state_new spec, \<lparr>dw_rt = rt1, dw_running = [], dw_exiting = []\<rparr>)))"

text \<open>A method of the handle returns the reply, or \<open>supervisor gone\<close>; \<open>start_child\<close>, \<open>terminate_child\<close> and \<open>remove_child\<close> flatten the
  result that is their reply.\<close>

definition dyn_handle_result :: "dyn_reply oneshot option \<Rightarrow> (string + dyn_reply) option" where
  "dyn_handle_result ch =
     map_option (\<lambda>r. case r of
                        Inr (StartReply (Inl e)) \<Rightarrow> Inl e
                      | Inr (UnitReply (Inl e)) \<Rightarrow> Inl e
                      | _ \<Rightarrow> r)
       (ask_result supervisor_gone ch)"

definition dyn_handle_shutdown ::
  "(dyn_supervisor_msg, dyn_reply, ('c, 'h, 'd) dyn_system) requests \<Rightarrow> (dyn_supervisor_msg, dyn_reply, ('c, 'h, 'd) dyn_system) requests" where
  "dyn_handle_shutdown q = rq_tell DynShutdown q"

section \<open>Both answer their requests\<close>

interpretation sup: request_server "\<lambda>now. supervisor_serve M boots finishes now" sup_asks for M boots finishes
  by unfold_locales (auto elim!: sup_asks.elims simp: Let_def split: prod.splits)

interpretation dyns: request_server "\<lambda>now. dyn_round M boots ord now" dyn_asks for M boots ord
  by unfold_locales (auto elim!: dyn_asks.elims simp: Let_def split: prod.splits)

lemma supervisor_serve_round:
  "(case supervisor_serve M boots finishes now m sw of (stop, r, sw1) \<Rightarrow> (stop, sw1)) =
   (case supervisor_round M boots finishes now m sw of (r, sw1) \<Rightarrow> (r \<noteq> None, sw1))"
  by (cases m) (auto simp: Let_def split: prod.splits)

lemma add_child_effect:
  assumes "add_child M boots spec (st, w) = (pid, st', w')"
  shows "pid = fst (spawn M (w_rt w))" and "map c_pid (sup_children st') = map c_pid (sup_children st) @ [Some pid]"
    and "alive (rt_table (w_rt w')) pid" and "cspec_register spec \<Longrightarrow> resolves (cspec_id spec) w' = Some pid"
    and "boots pid \<Longrightarrow> (length (sup_children st), pid) \<in> set (w_running w')"
proof -
  obtain c where s: "start_child M boots (length (sup_children st)) (child_state_new spec, w) = (c, w')"
    and st': "st' = st\<lparr>sup_children := sup_children st @ [c]\<rparr>" "pid = the (c_pid c)"
    using assms by (auto simp: add_child_def Let_def split: prod.splits)
  then have c: "c_pid c = Some pid" "pid = fst (spawn M (w_rt w))" by (auto simp: start_child_def Let_def split: prod.splits)
  show "pid = fst (spawn M (w_rt w))" "map c_pid (sup_children st') = map c_pid (sup_children st) @ [Some pid]"
    using c st' by simp_all
  have "alive (rt_table (snd (spawn M (w_rt w)))) (fst (spawn M (w_rt w)))" by (simp add: spawn_alive)
  then show "alive (rt_table (w_rt w')) pid" "boots pid \<Longrightarrow> (length (sup_children st), pid) \<in> set (w_running w')"
    using s c(2) by (auto simp: start_child_def Let_def split: prod.splits)
  show "resolves (cspec_id spec) w' = Some pid" if "cspec_register spec"
    using start_child_names(1) [OF s] that c(1) by (simp add: child_state_new_def)
qed

lemma start_supervisor_fine: "requests_fine sup_asks (snd (start_supervisor M boots spec children w))"
  by (simp add: start_supervisor_def requests_fine_new split: prod.splits)

lemma start_dynamic_supervisor_fine: "requests_fine dyn_asks (snd (start_dynamic_supervisor M spec rt))"
  by (simp add: start_dynamic_supervisor_def requests_fine_new split: prod.splits)


definition sample_request :: "(supervisor_msg, sup_reply, (wire_value message chan, nat, unit) sup_system) requests" where
  "sample_request = snd (rq_ask (AddChild (registered (child_spec_new ''db'')))
     (snd (start_supervisor list_mpsc (\<lambda>_. True) (supervisor_spec_new OneForOne) [] \<lparr>w_rt = runtime_new 1, w_running = [], w_log = []\<rparr>)))"


text \<open>
  The requests to a dynamic supervisor settle in the same way, and the answer to \<open>start_child\<close> in its turn is the pid of a new process that is alive and is
  found under its pid.
\<close>

theorem dyn_requests_settled:
  assumes "(requests_step (\<lambda>now. dyn_round M boots ord now) dyn_asks)\<^sup>*\<^sup>* (snd (start_dynamic_supervisor M spec rt)) q"
  shows "distinct (channels_of (rq_queue q)) \<and> (\<not> rq_up q \<longrightarrow> rq_queue q = [])
    \<and> (\<forall>i. dyn_handle_result (hm_get (rq_channels q) i) = None \<longleftrightarrow> i \<in> set (channels_of (rq_queue q)))
    \<and> (\<forall>i r q'. i < rq_next q \<and> dyn_handle_result (hm_get (rq_channels q) i) = Some r
         \<and> (requests_step (\<lambda>now. dyn_round M boots ord now) dyn_asks)\<^sup>*\<^sup>* q q' \<longrightarrow> dyn_handle_result (hm_get (rq_channels q') i) = Some r)
    \<and> (\<forall>i spec' ms st w. rq_queue q = (Some i, StartChild spec') # ms \<and> rq_state q = (st, w) \<longrightarrow>
         (\<exists>q' pid st' w'. rq_turn (dyn_round M boots ord now) q = Some q' \<and> rq_state q' = (st', w')
           \<and> dyn_handle_result (hm_get (rq_channels q') i) = Some (Inr (StartReply (Inr pid))) \<and> pid = fst (spawn M (dw_rt w))
           \<and> hm_get (pid_to_id st') pid \<noteq> None \<and> alive (rt_table (dw_rt w')) pid))"
  (is "?a \<and> ?b \<and> ?c \<and> ?d \<and> (\<forall>i spec' ms st w. ?head i spec' ms st w \<longrightarrow> ?turn i spec' ms st w)")
proof -
  have "requests_fine dyn_asks q" using dyns.life.reach_inv [OF assms start_dynamic_supervisor_fine] .
  note r = dyns.results [OF this, of supervisor_gone M boots ord]
  have "ask_result supervisor_gone (hm_get (rq_channels q) i) = None \<longleftrightarrow> i \<in> set (channels_of (rq_queue q))" for i using r by blast
  then have ?c by (simp add: dyn_handle_result_def)
  moreover have "?a \<and> ?b" using r by blast
  moreover have final: "dyn_handle_result (hm_get (rq_channels q') i) = Some v"
    if "i < rq_next q" "dyn_handle_result (hm_get (rq_channels q) i) = Some v" "(requests_step (\<lambda>now. dyn_round M boots ord now) dyn_asks)\<^sup>*\<^sup>* q q'" for i v q'
  proof -
    from that(2) obtain u where u: "ask_result supervisor_gone (hm_get (rq_channels q) i) = Some u" by (auto simp: dyn_handle_result_def)
    with r that(1,3) have "ask_result supervisor_gone (hm_get (rq_channels q') i) = Some u" by blast
    with u that(2) show ?thesis by (simp add: dyn_handle_result_def)
  qed
  moreover have ?d using final by blast
  moreover have "?turn i spec' ms st w" if "?head i spec' ms st w" for i spec' ms st w
  proof -
    obtain pid st' w' where a: "dyn_start_child M boots spec' (st, w) = (pid, st', w')" by (metis prod_cases3)
    have "alive (rt_table (snd (spawn M (dw_rt w)))) (fst (spawn M (dw_rt w)))" by (simp add: spawn_alive)
    then have "pid = fst (spawn M (dw_rt w)) \<and> hm_get (pid_to_id st') pid \<noteq> None \<and> alive (rt_table (dw_rt w')) pid"
      using a by (auto simp: dyn_start_child_def start_dyn_child_def Let_def split: prod.splits)
    then show ?thesis using that a by (auto simp: rq_turn_def dyn_handle_result_def ask_result_def)
  qed
  ultimately show ?thesis by blast
qed

section \<open>The end of a supervisor\<close>

text \<open>
  A watcher of a supervisor gets one DOWN message per monitor when it ends; an escalation and a clean shutdown look the same.
\<close>

theorem supervisor_end_observed:
  assumes "mpsc_ok M" and "rmpv_ok V" and "table_reach M V (rt_table (w_rt w))" and "alive (rt_table (w_rt w)) pid"
    and "accepts M (rt_table (w_rt w)) watcher" and "watcher \<noteq> pid"
  shows "\<exists>msgs. inbox M (rt_table (w_rt (snd (supervisor_exit M V pid escalated w)))) watcher = inbox M (rt_table (w_rt w)) watcher @ msgs
    \<and> map (\<lambda>m. (msg_from m, down_from_value V (msg_payload m))) msgs =
        map (\<lambda>(r, _). (pid, Some (down_message_new r pid ''exit''))) (filter (\<lambda>(_, w'). w' = watcher) (monitors_of (rt_table (w_rt w)) pid))"
  using cleanup_down_decoded [OF assms] by (simp add: supervisor_exit_def process_exit_def case_prod_beta)

end
