(* ===== verification/Gen_Server.thy ===== *)
theory Gen_Server
  imports Runtime Handle
begin

text \<open>
  Generic servers (\<^verbatim>\<open>crates/rebar-core/src/gen_server/types.rs\<close>, \<^verbatim>\<open>gen_server/engine.rs\<close>) and the debug types they
  report (\<^verbatim>\<open>crates/rebar-core/src/sys/types.rs\<close>). The callbacks of a server are a record of functions on its state and a
  world of type \<open>'w\<close> (what else a callback can reach through its context); a callback also returns the payloads it passed to
  \<open>continue_with\<close>. The sender of a reply is a number. One step of the event loop is a step between two of its program
  points: the top of the loop, the \<open>select!\<close>, and the loop of a suspended server; the panic of a callback ends it at any of them. The log of the handled messages is
  kept for the properties only.
\<close>

section \<open>Debug types\<close>

datatype process_run_state = RunStateRunning | RunStateSuspended

record debug_opts =
  dbg_trace :: bool
  dbg_log :: "usize option"
  dbg_statistics :: bool

definition debug_opts_new :: debug_opts where
  "debug_opts_new = \<lparr>dbg_trace = False, dbg_log = None, dbg_statistics = False\<rparr>"

record process_status =
  ps_pid :: process_id
  ps_status :: process_run_state
  ps_debug :: debug_opts
  ps_description :: string

section \<open>Servers\<close>

record ('s, 'c, 'm, 'v, 'r, 'w) gen_server =
  gs_init :: "'w \<Rightarrow> (string + 's) \<times> 'w \<times> 'v list"
  gs_call :: "'c \<Rightarrow> process_id \<Rightarrow> 's \<times> 'w \<Rightarrow> 'r \<times> ('s \<times> 'w) \<times> 'v list"
  gs_cast :: "'m \<Rightarrow> 's \<times> 'w \<Rightarrow> ('s \<times> 'w) \<times> 'v list"
  gs_info :: "'v message \<Rightarrow> 's \<times> 'w \<Rightarrow> ('s \<times> 'w) \<times> 'v list"
  gs_continue :: "'v \<Rightarrow> 's \<times> 'w \<Rightarrow> ('s \<times> 'w) \<times> 'v list"
  gs_terminate :: "exit_reason \<Rightarrow> 's \<times> 'w \<Rightarrow> 's \<times> 'w"
  gs_type_name :: string

text \<open>
  What a callback can do through its context: send through the local router, and queue payloads for \<open>handle_continue\<close>. The code gives every
  context a router and a continue channel.
\<close>

record 'v gen_server_context =
  gc_pid :: process_id
  gc_router :: bool
  gc_continues :: "'v list option"

definition with_continue :: "process_id \<Rightarrow> 'v gen_server_context" where
  "with_continue pid = \<lparr>gc_pid = pid, gc_router = True, gc_continues = Some []\<rparr>"

definition server_ctx_send ::
  "('v message, 'c) mpsc \<Rightarrow> 'v gen_server_context \<Rightarrow> process_id \<Rightarrow> 'v \<Rightarrow> ('c, 'h) process_table \<Rightarrow> ((send_error + unit) \<times> ('c, 'h) process_table) option" where
  "server_ctx_send M ctx dest p t =
     (if gc_router ctx then local_route M (gc_pid ctx) dest p t else Some (Inl (ProcessDead dest), t))"

definition continue_with :: "'v \<Rightarrow> 'v gen_server_context \<Rightarrow> 'v gen_server_context" where
  "continue_with v ctx = ctx\<lparr>gc_continues := map_option (\<lambda>vs. vs @ [v]) (gc_continues ctx)\<rparr>"

record ('c) call_envelope =
  ce_msg :: 'c
  ce_from :: process_id
  ce_reply_tx :: nat

datatype sys_command = SysGetState nat | SysSuspend nat | SysResume nat | SysGetStatus nat

datatype 's sys_answer = AnswerState 's | AnswerDone | AnswerStatus process_status

record internal_debug_state =
  ids_suspended :: bool
  ids_debug_opts :: debug_opts

definition internal_debug_state_new :: internal_debug_state where
  "internal_debug_state_new = \<lparr>ids_suspended = False, ids_debug_opts = debug_opts_new\<rparr>"

definition run_state_of :: "internal_debug_state \<Rightarrow> process_run_state" where
  "run_state_of d = (if ids_suspended d then RunStateSuspended else RunStateRunning)"

datatype server_phase = AtTop | InSelect | InSuspended | ServerEnded | ServerPanicked

datatype ('c, 'm, 'v) handled = HandledCall 'c | HandledCast 'm | HandledInfo "'v message" | HandledContinue 'v

record ('s, 'c, 'm, 'v, 'r, 'w) server_loop =
  srv_phase :: server_phase
  srv_state :: "'s \<times> 'w"
  srv_continues :: "'v list"
  srv_debug :: internal_debug_state
  srv_replies :: "(nat \<times> 'r) list"
  srv_answers :: "(nat \<times> 's sys_answer) list"
  srv_log :: "('c, 'm, 'v) handled list"

record ('c, 'm, 'v) server_inputs =
  sv_sys :: "sys_command list"
  sv_calls :: "'c call_envelope list"
  sv_casts :: "'m list"
  sv_mailbox :: "'v message list"
  sv_dropped :: bool
  sv_mailbox_closed :: bool

text \<open>
  The call, cast and sys senders live in the handles: \<open>sv_dropped\<close> says that all handles are gone, which closes the three
  channels at once. \<open>describe pid\<close> is the text in front of the type name in a
  status: the \<open>Display\<close> of the process identifier and a fixed phrase.
\<close>

definition handle_sys_command ::
  "('s, 'c, 'm, 'v, 'r, 'w) gen_server \<Rightarrow> (process_id \<Rightarrow> string) \<Rightarrow> process_id \<Rightarrow> sys_command \<Rightarrow> ('s, 'c, 'm, 'v, 'r, 'w) server_loop
     \<Rightarrow> bool \<times> ('s, 'c, 'm, 'v, 'r, 'w) server_loop" where
  "handle_sys_command G describe pid cmd s =
     (case cmd of
        SysGetState tx \<Rightarrow> (False, s\<lparr>srv_answers := srv_answers s @ [(tx, AnswerState (fst (srv_state s)))]\<rparr>)
      | SysSuspend tx \<Rightarrow>
          (False, s\<lparr>srv_debug := (srv_debug s)\<lparr>ids_suspended := True\<rparr>, srv_answers := srv_answers s @ [(tx, AnswerDone)]\<rparr>)
      | SysResume tx \<Rightarrow>
          (True, s\<lparr>srv_debug := (srv_debug s)\<lparr>ids_suspended := False\<rparr>, srv_answers := srv_answers s @ [(tx, AnswerDone)]\<rparr>)
      | SysGetStatus tx \<Rightarrow>
          let status = \<lparr>ps_pid = pid, ps_status = run_state_of (srv_debug s), ps_debug = ids_debug_opts (srv_debug s),
                        ps_description = describe pid @ gs_type_name G\<rparr> in
          (False, s\<lparr>srv_answers := srv_answers s @ [(tx, AnswerStatus status)]\<rparr>))"

definition run_continue :: "('s, 'c, 'm, 'v, 'r, 'w) gen_server \<Rightarrow> 'v \<Rightarrow> ('s, 'c, 'm, 'v, 'r, 'w) server_loop \<Rightarrow> ('s, 'c, 'm, 'v, 'r, 'w) server_loop" where
  "run_continue G v s =
     (let (st, cs) = gs_continue G v (srv_state s) in
      s\<lparr>srv_state := st, srv_continues := srv_continues s @ cs, srv_log := srv_log s @ [HandledContinue v]\<rparr>)"

definition run_cast :: "('s, 'c, 'm, 'v, 'r, 'w) gen_server \<Rightarrow> 'm \<Rightarrow> ('s, 'c, 'm, 'v, 'r, 'w) server_loop \<Rightarrow> ('s, 'c, 'm, 'v, 'r, 'w) server_loop" where
  "run_cast G m s =
     (let (st, cs) = gs_cast G m (srv_state s) in
      s\<lparr>srv_state := st, srv_continues := srv_continues s @ cs, srv_log := srv_log s @ [HandledCast m]\<rparr>)"

definition run_info :: "('s, 'c, 'm, 'v, 'r, 'w) gen_server \<Rightarrow> 'v message \<Rightarrow> ('s, 'c, 'm, 'v, 'r, 'w) server_loop \<Rightarrow> ('s, 'c, 'm, 'v, 'r, 'w) server_loop" where
  "run_info G m s =
     (let (st, cs) = gs_info G m (srv_state s) in
      s\<lparr>srv_state := st, srv_continues := srv_continues s @ cs, srv_log := srv_log s @ [HandledInfo m]\<rparr>)"

definition run_call :: "('s, 'c, 'm, 'v, 'r, 'w) gen_server \<Rightarrow> 'c call_envelope \<Rightarrow> ('s, 'c, 'm, 'v, 'r, 'w) server_loop \<Rightarrow> ('s, 'c, 'm, 'v, 'r, 'w) server_loop" where
  "run_call G e s =
     (let (r, st, cs) = gs_call G (ce_msg e) (ce_from e) (srv_state s) in
      s\<lparr>srv_state := st, srv_continues := srv_continues s @ cs, srv_replies := srv_replies s @ [(ce_reply_tx e, r)],
        srv_log := srv_log s @ [HandledCall (ce_msg e)]\<rparr>)"

text \<open>The end of the loop: the casts and the mailbox are drained, then \<open>terminate\<close> runs.\<close>

definition server_shutdown ::
  "('s, 'c, 'm, 'v, 'r, 'w) gen_server \<Rightarrow> ('s, 'c, 'm, 'v, 'r, 'w) server_loop \<times> ('c, 'm, 'v) server_inputs
     \<Rightarrow> ('s, 'c, 'm, 'v, 'r, 'w) server_loop \<times> ('c, 'm, 'v) server_inputs" where
  "server_shutdown G si =
     (case si of (s, i) \<Rightarrow>
       let s1 = fold (run_cast G) (sv_casts i) s;
           s2 = fold (run_info G) (sv_mailbox i) s1 in
       (s2\<lparr>srv_phase := ServerEnded, srv_state := gs_terminate G Normal (srv_state s2)\<rparr>, i\<lparr>sv_casts := [], sv_mailbox := []\<rparr>))"

text \<open>The top of the loop: at most one continue, then all pending sys commands.\<close>

definition server_top ::
  "('s, 'c, 'm, 'v, 'r, 'w) gen_server \<Rightarrow> (process_id \<Rightarrow> string) \<Rightarrow> process_id
     \<Rightarrow> ('s, 'c, 'm, 'v, 'r, 'w) server_loop \<times> ('c, 'm, 'v) server_inputs
     \<Rightarrow> ('s, 'c, 'm, 'v, 'r, 'w) server_loop \<times> ('c, 'm, 'v) server_inputs" where
  "server_top G describe pid si =
     (case si of (s, i) \<Rightarrow>
       let s1 = (case srv_continues s of v # vs \<Rightarrow> run_continue G v (s\<lparr>srv_continues := vs\<rparr>) | [] \<Rightarrow> s);
           s2 = fold (\<lambda>cmd s. snd (handle_sys_command G describe pid cmd s)) (sv_sys i) s1 in
       (s2\<lparr>srv_phase := if ids_suspended (srv_debug s2) then InSuspended else InSelect\<rparr>, i\<lparr>sv_sys := []\<rparr>))"

definition server_suspended ::
  "('s, 'c, 'm, 'v, 'r, 'w) gen_server \<Rightarrow> (process_id \<Rightarrow> string) \<Rightarrow> process_id
     \<Rightarrow> ('s, 'c, 'm, 'v, 'r, 'w) server_loop \<times> ('c, 'm, 'v) server_inputs
     \<Rightarrow> ('s, 'c, 'm, 'v, 'r, 'w) server_loop \<times> ('c, 'm, 'v) server_inputs" where
  "server_suspended G describe pid si =
     (case si of (s, i) \<Rightarrow>
       case sv_sys i of
         cmd # cmds \<Rightarrow>
           let (resumed, s1) = handle_sys_command G describe pid cmd s in
           (if resumed then s1\<lparr>srv_phase := AtTop\<rparr> else s1, i\<lparr>sv_sys := cmds\<rparr>)
       | [] \<Rightarrow> if sv_dropped i then server_shutdown G (s, i) else (s, i))"

definition server_select ::
  "('s, 'c, 'm, 'v, 'r, 'w) gen_server \<Rightarrow> (process_id \<Rightarrow> string) \<Rightarrow> process_id
     \<Rightarrow> ('s, 'c, 'm, 'v, 'r, 'w) server_loop \<times> ('c, 'm, 'v) server_inputs
     \<Rightarrow> ('s, 'c, 'm, 'v, 'r, 'w) server_loop \<times> ('c, 'm, 'v) server_inputs" where
  "server_select G describe pid si =
     (case si of (s, i) \<Rightarrow>
       case sv_sys i of
         cmd # cmds \<Rightarrow> ((snd (handle_sys_command G describe pid cmd s))\<lparr>srv_phase := AtTop\<rparr>, i\<lparr>sv_sys := cmds\<rparr>)
       | [] \<Rightarrow>
           if sv_dropped i then server_shutdown G (s, i)
           else (case sv_calls i of
             e # calls \<Rightarrow> ((run_call G e s)\<lparr>srv_phase := AtTop\<rparr>, i\<lparr>sv_calls := calls\<rparr>)
           | [] \<Rightarrow>
               (case sv_casts i of
                  m # casts \<Rightarrow> ((run_cast G m s)\<lparr>srv_phase := AtTop\<rparr>, i\<lparr>sv_casts := casts\<rparr>)
                | [] \<Rightarrow>
                    (case sv_mailbox i of
                       m # msgs \<Rightarrow> ((run_info G m s)\<lparr>srv_phase := AtTop\<rparr>, i\<lparr>sv_mailbox := msgs\<rparr>)
                     | [] \<Rightarrow>
                         if sv_mailbox_closed i then server_shutdown G (s, i)
                         else (case srv_continues s of
                           v # vs \<Rightarrow> ((run_continue G v (s\<lparr>srv_continues := vs\<rparr>))\<lparr>srv_phase := AtTop\<rparr>, i)
                         | [] \<Rightarrow> (s, i))))))"

definition server_step ::
  "('s, 'c, 'm, 'v, 'r, 'w) gen_server \<Rightarrow> (process_id \<Rightarrow> string) \<Rightarrow> process_id
     \<Rightarrow> ('s, 'c, 'm, 'v, 'r, 'w) server_loop \<times> ('c, 'm, 'v) server_inputs
     \<Rightarrow> ('s, 'c, 'm, 'v, 'r, 'w) server_loop \<times> ('c, 'm, 'v) server_inputs" where
  "server_step G describe pid si =
     (case srv_phase (fst si) of
        AtTop \<Rightarrow> server_top G describe pid si
      | InSelect \<Rightarrow> server_select G describe pid si
      | InSuspended \<Rightarrow> server_suspended G describe pid si
      | ServerEnded \<Rightarrow> si
      | ServerPanicked \<Rightarrow> si)"

text \<open>A callback panics: the task ends where it is, and nothing is drained.\<close>

definition server_panic ::
  "('s, 'c, 'm, 'v, 'r, 'w) server_loop \<times> ('c, 'm, 'v) server_inputs \<Rightarrow> ('s, 'c, 'm, 'v, 'r, 'w) server_loop \<times> ('c, 'm, 'v) server_inputs" where
  "server_panic si = ((fst si)\<lparr>srv_phase := ServerPanicked\<rparr>, snd si)"

definition server_start :: "('s, 'c, 'm, 'v, 'r, 'w) gen_server \<Rightarrow> 'w \<Rightarrow> ('s, 'c, 'm, 'v, 'r, 'w) server_loop option" where
  "server_start G w =
     (case gs_init G w of
        (Inl _, _) \<Rightarrow> None
      | (Inr st, w', cs) \<Rightarrow> Some
          \<lparr>srv_phase = AtTop, srv_state = (st, w'), srv_continues = cs, srv_debug = internal_debug_state_new,
           srv_replies = [], srv_answers = [], srv_log = []\<rparr>)"

section \<open>Spawning and the handle\<close>

definition spawn_gen_server :: "('v message, 'c) mpsc \<Rightarrow> ('c, 'h, 'd) runtime \<Rightarrow> process_id \<times> ('c, 'h, 'd) runtime" where
  "spawn_gen_server M rt =
     (let (pid, t1) = allocate_pid (rt_table rt);
          t2 = table_insert pid (mailbox_unbounded M) t1 in
      (pid, rt\<lparr>rt_table := t2\<rparr>))"

text \<open>Whether the inner task completes or panics, the outer one cleans up.\<close>

definition server_exit :: "('v message, 'c) mpsc \<Rightarrow> 'v rmpv \<Rightarrow> process_id \<Rightarrow> ('c, 'h, 'd) runtime \<Rightarrow> ('h \<times> process_id) list \<times> ('c, 'h, 'd) runtime" where
  "server_exit M V pid rt = process_exit M V pid rt"

text \<open>\<open>up\<close>: the loop still holds the receivers.\<close>

definition server_cast :: "bool \<Rightarrow> process_id \<Rightarrow> 'm \<Rightarrow> ('c, 'm, 'v) server_inputs \<Rightarrow> (send_error + unit) \<times> ('c, 'm, 'v) server_inputs" where
  "server_cast up pid m i = (if up then (Inr (), i\<lparr>sv_casts := sv_casts i @ [m]\<rparr>) else (Inl (ProcessDead pid), i))"

datatype call_error = CallTimedOut | ServerDead

text \<open>
  \<open>call\<close>: \<open>room\<close> says whether the bounded channel made room before the deadline, \<open>seen\<close> what the caller sees of its reply
  within what is left of the budget: \<open>None\<close> nothing, \<open>Some None\<close> the end of the sender, \<open>Some (Some r)\<close> the reply.
\<close>

definition server_call ::
  "bool \<Rightarrow> bool \<Rightarrow> 'c \<Rightarrow> nat \<Rightarrow> 'r option option \<Rightarrow> ('c, 'm, 'v) server_inputs \<Rightarrow> (call_error + 'r) \<times> ('c, 'm, 'v) server_inputs" where
  "server_call up room msg tx seen i =
     (if \<not> up then (Inl ServerDead, i)
      else if \<not> room then (Inl CallTimedOut, i)
      else (case seen of Some (Some r) \<Rightarrow> Inr r | Some None \<Rightarrow> Inl ServerDead | None \<Rightarrow> Inl CallTimedOut,
            i\<lparr>sv_calls := sv_calls i @ [\<lparr>ce_msg = msg, ce_from = process_id_new 0 0, ce_reply_tx = tx\<rparr>]\<rparr>))"

definition server_sys_request :: "bool \<Rightarrow> sys_command \<Rightarrow> ('c, 'm, 'v) server_inputs \<Rightarrow> (call_error + unit) \<times> ('c, 'm, 'v) server_inputs" where
  "server_sys_request up cmd i = (if up then (Inr (), i\<lparr>sv_sys := sv_sys i @ [cmd]\<rparr>) else (Inl ServerDead, i))"

section \<open>Nothing is lost, nothing is handled twice\<close>

fun casts_in :: "('c, 'm, 'v) handled list \<Rightarrow> 'm list" where
  "casts_in [] = []"
| "casts_in (HandledCast m # hs) = m # casts_in hs"
| "casts_in (_ # hs) = casts_in hs"

fun infos_in :: "('c, 'm, 'v) handled list \<Rightarrow> 'v message list" where
  "infos_in [] = []"
| "infos_in (HandledInfo m # hs) = m # infos_in hs"
| "infos_in (_ # hs) = infos_in hs"

lemma in_append [simp]: "casts_in (xs @ ys) = casts_in xs @ casts_in ys" "infos_in (xs @ ys) = infos_in xs @ infos_in ys"
  by (induction xs rule: casts_in.induct; simp) (induction xs rule: infos_in.induct; simp)

fun sys_token :: "sys_command \<Rightarrow> nat" where
  "sys_token (SysGetState tx) = tx"
| "sys_token (SysSuspend tx) = tx"
| "sys_token (SysResume tx) = tx"
| "sys_token (SysGetStatus tx) = tx"

lemma sys_log [simp]: "srv_log (snd (handle_sys_command G describe pid cmd s)) = srv_log s"
  "srv_phase (snd (handle_sys_command G describe pid cmd s)) = srv_phase s"
  "srv_replies (snd (handle_sys_command G describe pid cmd s)) = srv_replies s"
  "map fst (srv_answers (snd (handle_sys_command G describe pid cmd s))) = map fst (srv_answers s) @ [sys_token cmd]"
  by (cases cmd; simp add: handle_sys_command_def Let_def)+

lemma fold_sys_log [simp]: "srv_log (fold (\<lambda>cmd s. snd (handle_sys_command G describe pid cmd s)) cmds s) = srv_log s"
  "srv_replies (fold (\<lambda>cmd s. snd (handle_sys_command G describe pid cmd s)) cmds s) = srv_replies s"
  "map fst (srv_answers (fold (\<lambda>cmd s. snd (handle_sys_command G describe pid cmd s)) cmds s)) = map fst (srv_answers s) @ map sys_token cmds"
  by (induction cmds arbitrary: s) simp_all

lemma run_log [simp]:
  "srv_log (run_continue G v s) = srv_log s @ [HandledContinue v]" "srv_log (run_cast G m s) = srv_log s @ [HandledCast m]"
  "srv_log (run_info G x s) = srv_log s @ [HandledInfo x]" "srv_log (run_call G e s) = srv_log s @ [HandledCall (ce_msg e)]"
  "srv_replies (run_continue G v s) = srv_replies s" "srv_replies (run_cast G m s) = srv_replies s" "srv_replies (run_info G x s) = srv_replies s"
  "map fst (srv_replies (run_call G e s)) = map fst (srv_replies s) @ [ce_reply_tx e]"
  "srv_answers (run_continue G v s) = srv_answers s" "srv_answers (run_cast G m s) = srv_answers s" "srv_answers (run_info G x s) = srv_answers s"
  "srv_answers (run_call G e s) = srv_answers s"
  by (simp_all add: run_continue_def run_cast_def run_info_def run_call_def case_prod_beta Let_def)

lemma fold_run_log [simp]:
  "srv_log (fold (run_cast G) ms s) = srv_log s @ map HandledCast ms" "srv_log (fold (run_info G) xs s) = srv_log s @ map HandledInfo xs"
  "srv_replies (fold (run_cast G) ms s) = srv_replies s" "srv_replies (fold (run_info G) xs s) = srv_replies s"
  "srv_answers (fold (run_cast G) ms s) = srv_answers s" "srv_answers (fold (run_info G) xs s) = srv_answers s"
  by (induction ms arbitrary: s; simp; fail | induction xs arbitrary: s; simp)+

lemma in_map [simp]:
  "casts_in (map HandledCast ms) = ms" "infos_in (map HandledCast ms) = []"
  "casts_in (map HandledInfo xs) = []" "infos_in (map HandledInfo xs) = xs"
  by (induction ms; simp)+ (induction xs; simp)+

text \<open>
  A step moves messages from the channels to the log, and the channels of requests to the replies, from the front; an ended server has left no
  cast, message or sys command behind.
\<close>

definition moved ::
  "('s, 'c, 'm, 'v, 'r, 'w) server_loop \<times> ('c, 'm, 'v) server_inputs \<Rightarrow> 'm list \<times> 'v message list \<times> nat list \<times> nat list" where
  "moved si = (casts_in (srv_log (fst si)) @ sv_casts (snd si), infos_in (srv_log (fst si)) @ sv_mailbox (snd si),
     map fst (srv_replies (fst si)) @ map ce_reply_tx (sv_calls (snd si)), map fst (srv_answers (fst si)) @ map sys_token (sv_sys (snd si)))"

definition emptied :: "('s, 'c, 'm, 'v, 'r, 'w) server_loop \<times> ('c, 'm, 'v) server_inputs \<Rightarrow> bool" where
  "emptied si \<longleftrightarrow> (srv_phase (fst si) = ServerEnded \<longrightarrow> sv_casts (snd si) = [] \<and> sv_mailbox (snd si) = [] \<and> sv_sys (snd si) = [])"

lemma server_shutdown_moved: "moved (server_shutdown G si) = moved si" "sv_sys (snd si) = [] \<Longrightarrow> emptied (server_shutdown G si)"
  "srv_phase (fst (server_shutdown G si)) = ServerEnded"
  by (simp_all add: moved_def emptied_def server_shutdown_def case_prod_beta Let_def)

lemma server_top_moved: "moved (server_top G describe pid si) = moved si" "srv_phase (fst (server_top G describe pid si)) \<noteq> ServerEnded"
  "sv_sys (snd (server_top G describe pid si)) = []" "sv_dropped (snd (server_top G describe pid si)) = sv_dropped (snd si)"
  by (simp_all add: moved_def server_top_def case_prod_beta Let_def split: list.split)

lemma server_select_moved: "moved (server_select G describe pid si) = moved si"
  "srv_phase (fst si) \<noteq> ServerEnded \<Longrightarrow> emptied (server_select G describe pid si)"
  by (cases si; simp add: server_select_def server_shutdown_moved split: list.split; simp add: moved_def emptied_def)+

lemma server_suspended_moved: "moved (server_suspended G describe pid si) = moved si"
  "srv_phase (fst si) \<noteq> ServerEnded \<Longrightarrow> emptied (server_suspended G describe pid si)"
  by (cases si; simp add: server_suspended_def server_shutdown_moved case_prod_beta Let_def split: list.split; simp add: moved_def emptied_def)+

lemma server_step_moved: "moved (server_step G describe pid si) = moved si" "emptied si \<Longrightarrow> emptied (server_step G describe pid si)"
proof -
  show "moved (server_step G describe pid si) = moved si"
    by (simp add: server_step_def server_top_moved server_select_moved server_suspended_moved split: server_phase.split)
  show "emptied si \<Longrightarrow> emptied (server_step G describe pid si)"
    using server_top_moved(2) [of G describe pid si]
    by (auto simp: server_step_def server_select_moved server_suspended_moved emptied_def [of "server_top G describe pid si"] split: server_phase.split)
qed

text \<open>
  The executions of a server, with the casts its handles accepted, the messages its mailbox received, and the reply channels of the calls and of the sys
  commands its handles sent.
\<close>

definition no_server_inputs :: "('c, 'm, 'v) server_inputs" where
  "no_server_inputs = \<lparr>sv_sys = [], sv_calls = [], sv_casts = [], sv_mailbox = [], sv_dropped = False, sv_mailbox_closed = False\<rparr>"

abbreviation server_up :: "('s, 'c, 'm, 'v, 'r, 'w) server_loop \<Rightarrow> bool" where
  "server_up s \<equiv> srv_phase s \<noteq> ServerEnded \<and> srv_phase s \<noteq> ServerPanicked"

inductive server_run ::
  "('s, 'c, 'm, 'v, 'r, 'w) gen_server \<Rightarrow> (process_id \<Rightarrow> string) \<Rightarrow> process_id \<Rightarrow> 'w \<Rightarrow> 'm list \<times> 'v message list \<times> nat list \<times> nat list
     \<Rightarrow> ('s, 'c, 'm, 'v, 'r, 'w) server_loop \<times> ('c, 'm, 'v) server_inputs \<Rightarrow> bool" for G describe pid w0 where
  starts: "server_start G w0 = Some s \<Longrightarrow> server_run G describe pid w0 ([], [], [], []) (s, no_server_inputs)"
| casts: "server_run G describe pid w0 (ms, xs, ts, us) (s, i) \<Longrightarrow> \<not> sv_dropped i \<Longrightarrow> server_cast (server_up s) pid m i = (Inr (), i') \<Longrightarrow>
    server_run G describe pid w0 (ms @ [m], xs, ts, us) (s, i')"
| messages: "server_run G describe pid w0 (ms, xs, ts, us) (s, i) \<Longrightarrow> server_up s \<Longrightarrow>
    server_run G describe pid w0 (ms, xs @ [x], ts, us) (s, i\<lparr>sv_mailbox := sv_mailbox i @ [x]\<rparr>)"
| calls: "server_run G describe pid w0 (ms, xs, ts, us) (s, i) \<Longrightarrow> \<not> sv_dropped i \<Longrightarrow> server_up s \<Longrightarrow> server_call True True c tx (seen :: 'r option option) i = (r, i') \<Longrightarrow>
    server_run G describe pid w0 (ms, xs, ts @ [tx], us) (s, i')"
| commands: "server_run G describe pid w0 (ms, xs, ts, us) (s, i) \<Longrightarrow> \<not> sv_dropped i \<Longrightarrow> server_sys_request (server_up s) cmd i = (Inr (), i') \<Longrightarrow>
    server_run G describe pid w0 (ms, xs, ts, us @ [sys_token cmd]) (s, i')"
| drops: "server_run G describe pid w0 acc (s, i) \<Longrightarrow> server_run G describe pid w0 acc (s, i\<lparr>sv_dropped := True\<rparr>)"
| unlisted: "server_run G describe pid w0 acc (s, i) \<Longrightarrow> server_run G describe pid w0 acc (s, i\<lparr>sv_mailbox_closed := True\<rparr>)"
| panics: "server_run G describe pid w0 acc (s, i) \<Longrightarrow> server_up s \<Longrightarrow> server_run G describe pid w0 acc (server_panic (s, i))"
| steps: "server_run G describe pid w0 acc si \<Longrightarrow> server_run G describe pid w0 acc (server_step G describe pid si)"

lemma server_run_moved: "server_run G describe pid w0 acc si \<Longrightarrow> moved si = acc \<and> emptied si"
proof (induction rule: server_run.induct)
  case (starts s)
  then show ?case by (auto simp: server_start_def no_server_inputs_def moved_def emptied_def split: prod.splits sum.splits)
next
  case (steps acc si)
  then show ?case by (simp add: server_step_moved)
qed (auto simp: moved_def emptied_def server_cast_def server_call_def server_sys_request_def server_panic_def split: if_splits)

lemma server_run_steps: "server_run G describe pid w0 acc si \<Longrightarrow> server_run G describe pid w0 acc ((server_step G describe pid ^^ n) si)"
  by (induction n) (simp_all add: server_run.steps)

lemma dropped_select_ends: "sv_sys i = [] \<Longrightarrow> sv_dropped i \<Longrightarrow> srv_phase s = InSelect \<or> srv_phase s = InSuspended \<Longrightarrow>
    srv_phase (fst (server_step G describe pid (s, i))) = ServerEnded"
  by (auto simp: server_step_def server_select_def server_suspended_def server_shutdown_moved)

lemma dropped_top_ends:
  assumes "sv_dropped (snd si)" and "srv_phase (fst si) = AtTop"
  shows "srv_phase (fst ((server_step G describe pid ^^ 2) si)) = ServerEnded"
proof -
  let ?t = "server_top G describe pid si"
  have "srv_phase (fst ?t) = InSelect \<or> srv_phase (fst ?t) = InSuspended"
    by (simp add: server_top_def case_prod_beta Let_def)
  then have "srv_phase (fst (server_step G describe pid ?t)) = ServerEnded"
    using dropped_select_ends [of "snd ?t" "fst ?t"] assms(1) by (simp add: server_top_moved)
  then show ?thesis using assms(2) by (simp add: numeral_2_eq_2 server_step_def [of _ _ _ si])
qed

lemma dropped_ends:
  "sv_dropped i \<Longrightarrow> srv_phase s \<noteq> ServerPanicked \<Longrightarrow> \<exists>n. srv_phase (fst ((server_step G describe pid ^^ n) (s, i))) = ServerEnded"
proof (induction "length (sv_sys i)" arbitrary: s i)
  case 0
  then have sys: "sv_sys i = []" by simp
  show ?case
  proof (cases "srv_phase s")
    case AtTop
    then show ?thesis using dropped_top_ends [of "(s, i)"] 0 by (metis fst_conv snd_conv)
  next
    case ServerEnded
    then show ?thesis by (intro exI [of _ 0]) simp
  next
    case InSelect
    then show ?thesis by (intro exI [of _ 1]) (simp add: dropped_select_ends [OF sys 0(2)])
  next
    case InSuspended
    then show ?thesis by (intro exI [of _ 1]) (simp add: dropped_select_ends [OF sys 0(2)])
  qed (use 0(3) in simp)
next
  case (Suc n)
  then obtain cmd cmds where sys: "sv_sys i = cmd # cmds" by (cases "sv_sys i") auto
  have more: ?case if st: "server_step G describe pid (s, i) = (s1, i\<lparr>sv_sys := cmds\<rparr>)" "srv_phase s1 \<noteq> ServerPanicked" for s1
  proof -
    have "\<exists>n. srv_phase (fst ((server_step G describe pid ^^ n) (s1, i\<lparr>sv_sys := cmds\<rparr>))) = ServerEnded"
      using Suc.hyps(1) [of "i\<lparr>sv_sys := cmds\<rparr>" s1] Suc.hyps(2) Suc.prems(1) st(2) sys by simp
    then obtain k where "srv_phase (fst ((server_step G describe pid ^^ k) (server_step G describe pid (s, i)))) = ServerEnded"
      using st(1) by auto
    then show ?thesis by (intro exI [of _ "Suc k"]) (simp only: funpow_Suc_right o_apply)
  qed
  show ?case
  proof (cases "srv_phase s")
    case AtTop
    then show ?thesis using dropped_top_ends [of "(s, i)"] Suc.prems by (metis fst_conv snd_conv)
  next
    case ServerEnded
    then show ?thesis by (intro exI [of _ 0]) simp
  next
    case InSelect
    then show ?thesis using more sys by (simp add: server_step_def server_select_def)
  next
    case InSuspended
    then show ?thesis using more sys by (simp add: server_step_def server_suspended_def case_prod_beta Let_def)
  qed (use Suc.prems(2) in simp)
qed

text \<open>The reply channel of a call, and what \<open>server_call\<close> is told of it.\<close>

definition server_channel ::
  "nat \<Rightarrow> ('s, 'c, 'm, 'v, 'r, 'w) server_loop \<times> ('c, 'm, 'v) server_inputs \<Rightarrow> 'r oneshot" where
  "server_channel tx si =
     (case map_of (srv_replies (fst si)) tx of
        Some r \<Rightarrow> Replied r
      | None \<Rightarrow> if server_up (fst si) \<and> tx \<in> set (map ce_reply_tx (sv_calls (snd si))) then Waiting else Dropped)"


text \<open>A server that adds up its casts and enqueues two continues per message.\<close>

definition sample_server :: "(nat, nat, nat, nat, nat, unit) gen_server" where
  "sample_server = \<lparr>gs_init = \<lambda>w. (Inr 0, w, []), gs_call = \<lambda>c _ (s, w). (s, (s, w), []), gs_cast = \<lambda>m (s, w). ((s + m, w), []),
     gs_info = \<lambda>m sw. (sw, [1, 2]), gs_continue = \<lambda>v sw. (sw, []), gs_terminate = \<lambda>_ sw. sw, gs_type_name = ''nat''\<rparr>"

definition sample_server_loop :: "(nat, nat, nat, nat, nat, unit) server_loop" where
  "sample_server_loop = \<lparr>srv_phase = AtTop, srv_state = (0, ()), srv_continues = [], srv_debug = internal_debug_state_new,
     srv_replies = [], srv_answers = [], srv_log = []\<rparr>"

lemma sample_server_run:
  "server_run sample_server (\<lambda>_. []) (process_id_new 1 1) () ([5], [], [], [])
     (sample_server_loop, no_server_inputs\<lparr>sv_casts := [5], sv_dropped := True\<rparr>)"
proof -
  let ?p = "process_id_new 1 1"
  have "server_start sample_server () = Some sample_server_loop"
    by (simp add: server_start_def sample_server_def sample_server_loop_def)
  then have "server_run sample_server (\<lambda>_. []) ?p () ([], [], [], []) (sample_server_loop, no_server_inputs)" by (rule server_run.starts)
  then have "server_run sample_server (\<lambda>_. []) ?p () ([] @ [5], [], [], []) (sample_server_loop, no_server_inputs\<lparr>sv_casts := [5]\<rparr>)"
    by (rule server_run.casts) (simp_all add: no_server_inputs_def sample_server_loop_def server_cast_def)
  from server_run.drops [OF this] show ?thesis by simp
qed


text \<open>
  From its spawn on a server is an addressable process, and its end, which a panic does not change, sends one \<open>DOWN\<close> per monitor to each watcher, frees its names
  and takes it from the table. The payloads a callback passes to \<open>continue_with\<close> are queued in the order of the calls.
\<close>

lemma spawned_server_accepts:
  assumes "mpsc_ok M" and "spawn_gen_server M rt = (pid, rt')"
  shows "accepts M (rt_table rt') pid" "inbox M (rt_table rt') pid = []"
  using assms by (auto simp: spawn_gen_server_def allocate_pid_def table_insert_def accepts_def inbox_def mb_queue_def mailbox_unbounded_def mpsc_ok_def)

theorem server_end_observed:
  assumes "mpsc_ok M" and "rmpv_ok V" and "table_reach M V (rt_table rt)" and "alive (rt_table rt) pid"
    and "accepts M (rt_table rt) watcher" and "watcher \<noteq> pid"
  shows "(\<exists>msgs. inbox M (rt_table (snd (server_exit M V pid rt))) watcher = inbox M (rt_table rt) watcher @ msgs
      \<and> map (\<lambda>m. (msg_from m, down_from_value V (msg_payload m))) msgs =
          map (\<lambda>(r, _). (pid, Some (down_message_new r pid ''exit''))) (filter (\<lambda>(_, w'). w' = watcher) (monitors_of (rt_table rt) pid)))
    \<and> \<not> alive (rt_table (snd (server_exit M V pid rt))) pid \<and> (\<forall>name. whereis name (rt_table (snd (server_exit M V pid rt))) \<noteq> Some pid)"
proof -
  have t: "rt_table (snd (server_exit M V pid rt)) = cleaned M V pid (rt_table rt)" by (simp add: server_exit_def process_exit_def case_prod_beta)
  have "\<not> alive (cleaned M V pid (rt_table rt)) pid" by (simp add: cleanup_names_view(3) [OF assms(4)])
  moreover have "names_ok (cleaned M V pid (rt_table rt))" using table_reach_ok [OF assms(3)] names_ok_cleanup by blast
  ultimately show ?thesis using cleanup_down_decoded [OF assms] names_okD unfolding t by blast
qed

lemma continue_with_order: "gc_continues (fold continue_with vs (with_continue pid)) = Some vs"
proof -
  have "gc_continues (fold continue_with vs ctx) = map_option (\<lambda>us. us @ vs) (gc_continues ctx)" for ctx
    by (induction vs arbitrary: ctx) (simp_all add: continue_with_def option.map_comp comp_def option.map_ident)
  then show ?thesis by (simp add: with_continue_def)
qed

text \<open>
  A continue can be overtaken. When two continues and a message are waiting at the top of the loop of a server with no other
  work, the message is handled between the two continues, although a continue is documented to be handled before the next
  message.
\<close>

theorem second_continue_overtaken:
  assumes "srv_phase s = AtTop" and "srv_continues s = [v1, v2]" and "\<not> ids_suspended (srv_debug s)"
    and "sv_sys i = []" and "\<not> sv_dropped i" and "sv_calls i = []" and "sv_casts i = []" and "sv_mailbox i = [x]"
  shows "srv_log (fst ((server_step G describe pid ^^ 3) (s, i))) = srv_log s @ [HandledContinue v1, HandledInfo x, HandledContinue v2]"
  using assms
  by (auto simp: numeral_3_eq_3 server_step_def server_top_def server_select_def run_continue_def run_info_def case_prod_beta Let_def)

theorem second_continue_overtaken_witness:
  "srv_log (fst ((server_step sample_server (\<lambda>_. []) (process_id_new 1 1) ^^ 3)
     (sample_server_loop\<lparr>srv_continues := [1, 2]\<rparr>, no_server_inputs\<lparr>sv_mailbox := [message_new_internal (process_id_new 1 2) 8]\<rparr>)))
   = [HandledContinue 1, HandledInfo (message_new_internal (process_id_new 1 2) 8), HandledContinue 2]"
  by (subst second_continue_overtaken)
     (simp_all add: sample_server_loop_def no_server_inputs_def internal_debug_state_new_def)

end
