(* ===== verification/Gen_Statem.thy ===== *)
theory Gen_Statem
  imports Gen_Server
begin

text \<open>
  Generic state machines (\<^verbatim>\<open>crates/rebar-core/src/gen_statem/types.rs\<close>, \<^verbatim>\<open>gen_statem/engine.rs\<close>). The callbacks
  of a machine are a record; the sender of a reply is a number, and a log records the replies that were
  sent. A round of the event loop is one step on the state of the loop and the three channels that feed it, at a
  time \<open>now\<close>: it takes an internal event if there is one, and otherwise the first ready branch of the biased
  \<open>select!\<close>; with no branch ready the loop waits.
\<close>

section \<open>Events, actions and results\<close>

datatype event_type =
    EvCall nat
  | EvCast
  | EvInfo
  | EvStateTimeout
  | EvTimeout string
  | EvEventTimeout
  | EvInternal
  | EvEnter string

datatype timeout_kind = KindState | KindEvent | KindGeneric string

datatype ('v, 'r) statem_action =
    ActReply nat 'r
  | ActStateTimeout duration 'v
  | ActEventTimeout duration 'v
  | ActGenericTimeout string duration 'v
  | ActCancelTimeout timeout_kind
  | ActPostpone
  | ActNextEvent 'v
  | ActHibernate

datatype ('s, 'd, 'v, 'r) transition_result =
    NextState 's 'd "('v, 'r) statem_action list"
  | KeepState 'd "('v, 'r) statem_action list"
  | KeepStateAndData "('v, 'r) statem_action list"
  | StopMachine exit_reason 'd
  | StopAndReply exit_reason 'd "(nat \<times> 'r) list"

text \<open>
  The trait \<open>GenStatem\<close>. \<open>handle_event\<close> may update the data in place: it returns them with its result.
  \<open>sm_eq\<close> and \<open>sm_show\<close> are the \<open>PartialEq\<close> and \<open>Debug\<close> of the state, \<open>sm_nil\<close> the MessagePack nil.
\<close>

record ('s, 'd, 'c, 'm, 'v, 'r) gen_statem =
  sm_enter :: bool
  sm_init :: "string + 's \<times> 'd"
  encode_call :: "'c \<Rightarrow> 'v"
  encode_cast :: "'m \<Rightarrow> 'v"
  sm_handle_event :: "event_type \<Rightarrow> 'v \<Rightarrow> 's \<Rightarrow> 'd \<Rightarrow> ('s, 'd, 'v, 'r) transition_result \<times> 'd"
  sm_terminate :: "exit_reason \<Rightarrow> 's \<Rightarrow> 'd \<Rightarrow> 'd"
  sm_eq :: "'s \<Rightarrow> 's \<Rightarrow> bool"
  sm_show :: "'s \<Rightarrow> string"
  sm_nil :: 'v

section \<open>The state of the loop\<close>

record 'v queued_event =
  qe_type :: event_type
  qe_payload :: 'v
  qe_postponable :: bool

record 'v active_timeout =
  at_payload :: 'v
  at_deadline :: instant

record ('s, 'd, 'v, 'r) statem_loop =
  current_state :: 's
  statem_data :: 'd
  state_timeout :: "'v active_timeout option"
  event_timeout :: "'v active_timeout option"
  generic_timeouts :: "(string, 'v active_timeout) hashmap"
  postponed :: "'v queued_event list"
  internal_queue :: "'v queued_event list"
  replies_sent :: "(nat \<times> 'r) list"

text \<open>The receiving ends of the call, cast and mailbox channels: what is queued, and whether every sender is gone.\<close>

record ('c, 'm, 'v) statem_inputs =
  in_calls :: "('c \<times> nat) list"
  calls_closed :: bool
  in_casts :: "'m list"
  casts_closed :: bool
  in_mailbox :: "'v list"
  mailbox_closed :: bool

definition statem_start :: "('s, 'd, 'c, 'm, 'v, 'r) gen_statem \<Rightarrow> ('s, 'd, 'v, 'r) statem_loop option" where
  "statem_start S =
     (case sm_init S of
        Inl _ \<Rightarrow> None
      | Inr (s, d) \<Rightarrow> Some
          \<lparr>current_state = s, statem_data = d, state_timeout = None, event_timeout = None, generic_timeouts = [],
           postponed = [],
           internal_queue = (if sm_enter S
             then [\<lparr>qe_type = EvEnter (sm_show S s), qe_payload = sm_nil S, qe_postponable = False\<rparr>] else []),
           replies_sent = []\<rparr>)"

section \<open>Dispatching an event\<close>

datatype event_descriptor =
    DescCall | DescCast | DescInfo | DescStateTimeout | DescTimeout string | DescEventTimeout | DescInternal | DescEnter string

fun split_event_type :: "event_type \<Rightarrow> event_descriptor \<times> nat option" where
  "split_event_type (EvCall tx) = (DescCall, Some tx)"
| "split_event_type EvCast = (DescCast, None)"
| "split_event_type EvInfo = (DescInfo, None)"
| "split_event_type EvStateTimeout = (DescStateTimeout, None)"
| "split_event_type (EvTimeout name) = (DescTimeout name, None)"
| "split_event_type EvEventTimeout = (DescEventTimeout, None)"
| "split_event_type EvInternal = (DescInternal, None)"
| "split_event_type (EvEnter old) = (DescEnter old, None)"

text \<open>A call descriptor without a sender is a panic (\<open>None\<close>).\<close>

fun rebuild_event_type :: "event_descriptor \<Rightarrow> nat option \<Rightarrow> event_type option" where
  "rebuild_event_type DescCall tx = map_option EvCall tx"
| "rebuild_event_type DescCast _ = Some EvCast"
| "rebuild_event_type DescInfo _ = Some EvInfo"
| "rebuild_event_type DescStateTimeout _ = Some EvStateTimeout"
| "rebuild_event_type (DescTimeout name) _ = Some (EvTimeout name)"
| "rebuild_event_type DescEventTimeout _ = Some EvEventTimeout"
| "rebuild_event_type DescInternal _ = Some EvInternal"
| "rebuild_event_type (DescEnter old) _ = Some (EvEnter old)"

fun process_action :: "instant \<Rightarrow> ('v, 'r) statem_action \<Rightarrow> bool \<times> ('s, 'd, 'v, 'r) statem_loop \<Rightarrow> bool \<times> ('s, 'd, 'v, 'r) statem_loop" where
  "process_action now (ActReply tx reply) (post, l) = (post, l\<lparr>replies_sent := replies_sent l @ [(tx, reply)]\<rparr>)"
| "process_action now (ActStateTimeout d v) (post, l) = (post, l\<lparr>state_timeout := Some \<lparr>at_payload = v, at_deadline = now + d\<rparr>\<rparr>)"
| "process_action now (ActEventTimeout d v) (post, l) = (post, l\<lparr>event_timeout := Some \<lparr>at_payload = v, at_deadline = now + d\<rparr>\<rparr>)"
| "process_action now (ActGenericTimeout name d v) (post, l) =
     (post, l\<lparr>generic_timeouts := hm_insert name \<lparr>at_payload = v, at_deadline = now + d\<rparr> (generic_timeouts l)\<rparr>)"
| "process_action now (ActCancelTimeout KindState) (post, l) = (post, l\<lparr>state_timeout := None\<rparr>)"
| "process_action now (ActCancelTimeout KindEvent) (post, l) = (post, l\<lparr>event_timeout := None\<rparr>)"
| "process_action now (ActCancelTimeout (KindGeneric name)) (post, l) = (post, l\<lparr>generic_timeouts := hm_remove name (generic_timeouts l)\<rparr>)"
| "process_action now ActPostpone (post, l) = (True, l)"
| "process_action now (ActNextEvent v) (post, l) =
     (post, l\<lparr>internal_queue := internal_queue l @ [\<lparr>qe_type = EvInternal, qe_payload = v, qe_postponable = False\<rparr>]\<rparr>)"
| "process_action now ActHibernate (post, l) = (post, l)"

definition process_actions :: "instant \<Rightarrow> ('v, 'r) statem_action list \<Rightarrow> ('s, 'd, 'v, 'r) statem_loop \<Rightarrow> bool \<times> ('s, 'd, 'v, 'r) statem_loop" where
  "process_actions now actions l = fold (process_action now) actions (False, l)"

definition postpone_event :: "event_descriptor \<Rightarrow> 'v \<Rightarrow> ('s, 'd, 'v, 'r) statem_loop \<Rightarrow> ('s, 'd, 'v, 'r) statem_loop" where
  "postpone_event desc v l =
     (case desc of
        DescCall \<Rightarrow> l
      | _ \<Rightarrow> l\<lparr>postponed := postponed l @ [\<lparr>qe_type = the (rebuild_event_type desc None), qe_payload = v, qe_postponable = True\<rparr>]\<rparr>)"

definition act_and_postpone ::
  "instant \<Rightarrow> bool \<Rightarrow> event_descriptor \<Rightarrow> 'v \<Rightarrow> ('v, 'r) statem_action list \<Rightarrow> ('s, 'd, 'v, 'r) statem_loop \<Rightarrow> ('s, 'd, 'v, 'r) statem_loop" where
  "act_and_postpone now postponable desc v actions l =
     (let (should_postpone, l1) = process_actions now actions l in
      if should_postpone \<and> postponable then postpone_event desc v l1 else l1)"

text \<open>The replay of the postponed events on a state change, behind the enter event.\<close>

definition replay_postponed :: "('s, 'd, 'c, 'm, 'v, 'r) gen_statem \<Rightarrow> string \<Rightarrow> ('s, 'd, 'v, 'r) statem_loop \<Rightarrow> ('s, 'd, 'v, 'r) statem_loop" where
  "replay_postponed S old_state_name l =
     (let queue = postponed l @ internal_queue l in
      l\<lparr>postponed := [],
        internal_queue := (if sm_enter S
          then \<lparr>qe_type = EvEnter old_state_name, qe_payload = sm_nil S, qe_postponable = False\<rparr> # queue else queue)\<rparr>)"

fun handle_result ::
  "('s, 'd, 'c, 'm, 'v, 'r) gen_statem \<Rightarrow> instant \<Rightarrow> bool \<Rightarrow> event_descriptor \<Rightarrow> 'v \<Rightarrow> ('s, 'd, 'v, 'r) transition_result
     \<Rightarrow> ('s, 'd, 'v, 'r) statem_loop \<Rightarrow> bool \<times> ('s, 'd, 'v, 'r) statem_loop" where
  "handle_result S now postponable desc v (NextState s d actions) l =
     (let state_changed = \<not> sm_eq S (current_state l) s;
          old_state_name = sm_show S (current_state l);
          l1 = l\<lparr>current_state := s, statem_data := d\<rparr>;
          l2 = (if state_changed then l1\<lparr>state_timeout := None\<rparr> else l1);
          l3 = act_and_postpone now postponable desc v actions l2 in
      (False, if state_changed then replay_postponed S old_state_name l3 else l3))"
| "handle_result S now postponable desc v (KeepState d actions) l =
     (False, act_and_postpone now postponable desc v actions (l\<lparr>statem_data := d\<rparr>))"
| "handle_result S now postponable desc v (KeepStateAndData actions) l =
     (False, act_and_postpone now postponable desc v actions l)"
| "handle_result S now postponable desc v (StopMachine reason d) l =
     (True, l\<lparr>statem_data := sm_terminate S reason (current_state l) d\<rparr>)"
| "handle_result S now postponable desc v (StopAndReply reason d replies) l =
     (True, l\<lparr>statem_data := sm_terminate S reason (current_state l) d, replies_sent := replies_sent l @ replies\<rparr>)"

definition dispatch_event ::
  "('s, 'd, 'c, 'm, 'v, 'r) gen_statem \<Rightarrow> instant \<Rightarrow> 'v queued_event \<Rightarrow> ('s, 'd, 'v, 'r) statem_loop
     \<Rightarrow> bool \<times> ('s, 'd, 'v, 'r) statem_loop" where
  "dispatch_event S now event l =
     (let (desc, tx) = split_event_type (qe_type event);
          dispatch_type = the (rebuild_event_type desc tx);
          (result, d) = sm_handle_event S dispatch_type (qe_payload event) (current_state l) (statem_data l) in
      handle_result S now (qe_postponable event) desc (qe_payload event) result (l\<lparr>statem_data := d\<rparr>))"

section \<open>The event loop\<close>

text \<open>\<open>min_by_key\<close> over the iteration order \<open>ord\<close> of the generic timeouts.\<close>

definition next_generic_timeout ::
  "((string, 'v active_timeout) hashmap \<Rightarrow> (string, 'v active_timeout) hashmap) \<Rightarrow> instant
     \<Rightarrow> (string, 'v active_timeout) hashmap \<Rightarrow> (string \<times> 'v active_timeout) option" where
  "next_generic_timeout ord now timeouts =
     (case min_by_key (\<lambda>(_, t). at_deadline t) (ord timeouts) of
        Some (name, t) \<Rightarrow> if at_deadline t \<le> now then Some (name, t) else None
      | None \<Rightarrow> None)"

definition timeout_ready :: "instant \<Rightarrow> 'v active_timeout option \<Rightarrow> bool" where
  "timeout_ready now t = (case t of Some t \<Rightarrow> at_deadline t \<le> now | None \<Rightarrow> False)"

datatype 'v selected = Selected "'v queued_event" | ChannelClosed | NotReady

definition select_event ::
  "('s, 'd, 'c, 'm, 'v, 'r) gen_statem \<Rightarrow> ((string, 'v active_timeout) hashmap \<Rightarrow> (string, 'v active_timeout) hashmap) \<Rightarrow> instant
     \<Rightarrow> ('s, 'd, 'v, 'r) statem_loop \<times> ('c, 'm, 'v) statem_inputs
     \<Rightarrow> 'v selected \<times> ('s, 'd, 'v, 'r) statem_loop \<times> ('c, 'm, 'v) statem_inputs" where
  "select_event S ord now li =
     (case li of (l, i) \<Rightarrow>
       if timeout_ready now (state_timeout l)
       then (Selected \<lparr>qe_type = EvStateTimeout, qe_payload = at_payload (the (state_timeout l)), qe_postponable = False\<rparr>,
             l\<lparr>state_timeout := None\<rparr>, i)
       else if timeout_ready now (event_timeout l)
       then (Selected \<lparr>qe_type = EvEventTimeout, qe_payload = at_payload (the (event_timeout l)), qe_postponable = False\<rparr>,
             l\<lparr>event_timeout := None\<rparr>, i)
       else case next_generic_timeout ord now (generic_timeouts l) of
         Some (name, t) \<Rightarrow>
           (Selected \<lparr>qe_type = EvTimeout name, qe_payload = at_payload t, qe_postponable = False\<rparr>,
            l\<lparr>generic_timeouts := hm_remove name (generic_timeouts l)\<rparr>, i)
       | None \<Rightarrow>
         (case in_calls i of
            (msg, tx) # calls \<Rightarrow>
              (Selected \<lparr>qe_type = EvCall tx, qe_payload = encode_call S msg, qe_postponable = True\<rparr>,
               l\<lparr>event_timeout := None\<rparr>, i\<lparr>in_calls := calls\<rparr>)
          | [] \<Rightarrow>
              if calls_closed i then (ChannelClosed, l, i)
              else (case in_casts i of
                msg # casts \<Rightarrow>
                  (Selected \<lparr>qe_type = EvCast, qe_payload = encode_cast S msg, qe_postponable = True\<rparr>,
                   l\<lparr>event_timeout := None\<rparr>, i\<lparr>in_casts := casts\<rparr>)
              | [] \<Rightarrow>
                  if casts_closed i then (ChannelClosed, l, i)
                  else (case in_mailbox i of
                    msg # msgs \<Rightarrow>
                      (Selected \<lparr>qe_type = EvInfo, qe_payload = msg, qe_postponable = True\<rparr>,
                       l\<lparr>event_timeout := None\<rparr>, i\<lparr>in_mailbox := msgs\<rparr>)
                  | [] \<Rightarrow> if mailbox_closed i then (ChannelClosed, l, i) else (NotReady, l, i)))))"

text \<open>One round: what was dispatched, whether the loop ends, and the new state. A waiting round changes nothing.\<close>

definition statem_round ::
  "('s, 'd, 'c, 'm, 'v, 'r) gen_statem \<Rightarrow> ((string, 'v active_timeout) hashmap \<Rightarrow> (string, 'v active_timeout) hashmap) \<Rightarrow> instant
     \<Rightarrow> ('s, 'd, 'v, 'r) statem_loop \<times> ('c, 'm, 'v) statem_inputs
     \<Rightarrow> 'v queued_event option \<times> bool \<times> ('s, 'd, 'v, 'r) statem_loop \<times> ('c, 'm, 'v) statem_inputs" where
  "statem_round S ord now li =
     (case li of (l, i) \<Rightarrow>
       case internal_queue l of
         event # queue \<Rightarrow>
           (let (stop, l') = dispatch_event S now event (l\<lparr>internal_queue := queue\<rparr>) in (Some event, stop, l', i))
       | [] \<Rightarrow>
           (case select_event S ord now (l, i) of
              (Selected event, l1, i1) \<Rightarrow> (let (stop, l') = dispatch_event S now event l1 in (Some event, stop, l', i1))
            | (ChannelClosed, l1, i1) \<Rightarrow>
                (None, True, l1\<lparr>statem_data := sm_terminate S Normal (current_state l1) (statem_data l1)\<rparr>, i1)
            | (NotReady, l1, i1) \<Rightarrow> (None, False, l1, i1)))"

section \<open>Spawning and the handle\<close>

text \<open>The synchronous part of \<open>spawn_gen_statem\<close>.\<close>

definition spawn_gen_statem :: "('v message, 'c) mpsc \<Rightarrow> ('c, 'h, 'd) runtime \<Rightarrow> process_id \<times> ('c, 'h, 'd) runtime" where
  "spawn_gen_statem M rt =
     (let (pid, t1) = allocate_pid (rt_table rt);
          t2 = table_insert pid (mailbox_unbounded M) t1 in
      (pid, rt\<lparr>rt_table := t2\<rparr>))"

text \<open>The end of the process, whether the loop completes or a callback panics.\<close>

definition statem_exit :: "('v message, 'c) mpsc \<Rightarrow> 'v rmpv \<Rightarrow> process_id \<Rightarrow> ('c, 'h, 'd) runtime \<Rightarrow> ('h \<times> process_id) list \<times> ('c, 'h, 'd) runtime" where
  "statem_exit M V pid rt = process_exit M V pid rt"

text \<open>What the caller of \<open>call\<close> sees of its reply channel within the timeout: a reply, the end of the sender, or nothing.\<close>

datatype 'r reply_seen = SeenReply 'r | SeenDropped | SeenNothing

fun reply_outcome :: "'r reply_seen \<Rightarrow> call_error + 'r" where
  "reply_outcome (SeenReply r) = Inr r"
| "reply_outcome SeenDropped = Inl ServerDead"
| "reply_outcome SeenNothing = Inl CallTimedOut"

text \<open>\<open>up\<close>: the loop still holds the receivers. The call channel has room (the send otherwise waits for it).\<close>

definition statem_call :: "bool \<Rightarrow> 'c \<Rightarrow> nat \<Rightarrow> 'r reply_seen \<Rightarrow> ('c, 'm, 'v) statem_inputs \<Rightarrow> (call_error + 'r) \<times> ('c, 'm, 'v) statem_inputs" where
  "statem_call up msg tx seen i =
     (if \<not> up then (Inl ServerDead, i) else (reply_outcome seen, i\<lparr>in_calls := in_calls i @ [(msg, tx)]\<rparr>))"

definition statem_cast :: "bool \<Rightarrow> process_id \<Rightarrow> 'm \<Rightarrow> ('c, 'm, 'v) statem_inputs \<Rightarrow> (send_error + unit) \<times> ('c, 'm, 'v) statem_inputs" where
  "statem_cast up pid msg i =
     (if up then (Inr (), i\<lparr>in_casts := in_casts i @ [msg]\<rparr>) else (Inl (ProcessDead pid), i))"

section \<open>What actions do to the timers and the queues\<close>

fun touches_state_timer :: "('v, 'r) statem_action \<Rightarrow> bool" where
  "touches_state_timer (ActStateTimeout _ _) = True"
| "touches_state_timer (ActCancelTimeout KindState) = True"
| "touches_state_timer _ = False"

fun next_events :: "('v, 'r) statem_action list \<Rightarrow> 'v queued_event list" where
  "next_events [] = []"
| "next_events (ActNextEvent v # as) = \<lparr>qe_type = EvInternal, qe_payload = v, qe_postponable = False\<rparr> # next_events as"
| "next_events (_ # as) = next_events as"

lemma process_action_fields [simp]:
  "current_state (snd (process_action now a pl)) = current_state (snd pl)"
  "postponed (snd (process_action now a pl)) = postponed (snd pl)"
  "internal_queue (snd (process_action now a pl)) = internal_queue (snd pl) @ next_events [a]"
  "fst (process_action now a pl) = (fst pl \<or> a = ActPostpone)"
  by (cases "(now, a, pl)" rule: process_action.cases; simp)+

lemma fold_process_action:
  "current_state (snd (fold (process_action now) as pl)) = current_state (snd pl)"
  "postponed (snd (fold (process_action now) as pl)) = postponed (snd pl)"
  "internal_queue (snd (fold (process_action now) as pl)) = internal_queue (snd pl) @ next_events as"
  "fst (fold (process_action now) as pl) = (fst pl \<or> ActPostpone \<in> set as)"
proof (induction as arbitrary: pl)
  case (Cons a as)
  { case 3 show ?case using Cons.IH(3) [of "process_action now a pl"] by (cases a) simp_all }
qed (auto)

lemma process_actions_fields [simp]:
  "current_state (snd (process_actions now as l)) = current_state l"
  "postponed (snd (process_actions now as l)) = postponed l"
  "internal_queue (snd (process_actions now as l)) = internal_queue l @ next_events as"
  "fst (process_actions now as l) = (ActPostpone \<in> set as)"
  by (simp_all add: process_actions_def fold_process_action)

text \<open>The state timer after a list of actions: the one an action armed last, or the old one.\<close>

lemma process_action_timer:
  "state_timeout (snd (process_action now a pl)) = Some t \<Longrightarrow>
     (\<exists>d. a = ActStateTimeout d (at_payload t) \<and> at_deadline t = now + d)
   \<or> (\<not> touches_state_timer a \<and> state_timeout (snd pl) = Some t)"
  by (cases "(now, a, pl)" rule: process_action.cases) auto

lemma process_actions_timer:
  "state_timeout (snd (process_actions now as l)) = Some t \<Longrightarrow>
     (\<exists>d. ActStateTimeout d (at_payload t) \<in> set as \<and> at_deadline t = now + d)
   \<or> ((\<forall>a \<in> set as. \<not> touches_state_timer a) \<and> state_timeout l = Some t)"
proof (induction as rule: rev_induct)
  case (snoc a as)
  then show ?case using process_action_timer [of now a "process_actions now as l" t]
    by (auto simp: process_actions_def)
qed (simp add: process_actions_def)

definition result_actions :: "('s, 'd, 'v, 'r) transition_result \<Rightarrow> ('v, 'r) statem_action list" where
  "result_actions r = (case r of NextState _ _ as \<Rightarrow> as | KeepState _ as \<Rightarrow> as | KeepStateAndData as \<Rightarrow> as | _ \<Rightarrow> [])"

definition result_changes :: "('s, 'd, 'c, 'm, 'v, 'r) gen_statem \<Rightarrow> 's \<Rightarrow> ('s, 'd, 'v, 'r) transition_result \<Rightarrow> bool" where
  "result_changes S s r = (case r of NextState s' _ _ \<Rightarrow> \<not> sm_eq S s s' | _ \<Rightarrow> False)"

definition result_state :: "'s \<Rightarrow> ('s, 'd, 'v, 'r) transition_result \<Rightarrow> 's" where
  "result_state s r = (case r of NextState s' _ _ \<Rightarrow> s' | _ \<Rightarrow> s)"

lemma postpone_event_fields [simp]:
  "state_timeout (postpone_event desc v l) = state_timeout l"
  "current_state (postpone_event desc v l) = current_state l"
  "internal_queue (postpone_event desc v l) = internal_queue l"
  by (cases desc; simp add: postpone_event_def)+

lemma act_and_postpone_fields [simp]:
  "state_timeout (act_and_postpone now p desc v as l) = state_timeout (snd (process_actions now as l))"
  "current_state (act_and_postpone now p desc v as l) = current_state l"
  "internal_queue (act_and_postpone now p desc v as l) = internal_queue l @ next_events as"
  by (simp_all add: act_and_postpone_def case_prod_beta Let_def)

lemma handle_result_timer:
  assumes "state_timeout (snd (handle_result S now p desc v r l)) = Some t"
  shows "(\<exists>d. ActStateTimeout d (at_payload t) \<in> set (result_actions r) \<and> at_deadline t = now + d)
   \<or> ((\<forall>a \<in> set (result_actions r). \<not> touches_state_timer a) \<and> \<not> result_changes S (current_state l) r \<and> state_timeout l = Some t)"
  using assms
  by (cases r)
     (auto simp: result_actions_def result_changes_def replay_postponed_def Let_def dest!: process_actions_timer split: if_splits)

lemma handle_result_state: "current_state (snd (handle_result S now p desc v r l)) = result_state (current_state l) r"
  by (cases r) (auto simp: result_state_def replay_postponed_def Let_def)

lemma rebuild_split [simp]: "rebuild_event_type (fst (split_event_type e)) (snd (split_event_type e)) = Some e"
  by (cases e) simp_all

definition outcome :: "('s, 'd, 'c, 'm, 'v, 'r) gen_statem \<Rightarrow> 'v queued_event \<Rightarrow> ('s, 'd, 'v, 'r) statem_loop \<Rightarrow> ('s, 'd, 'v, 'r) transition_result" where
  "outcome S e l = fst (sm_handle_event S (qe_type e) (qe_payload e) (current_state l) (statem_data l))"

lemma dispatch_event_alt:
  "dispatch_event S now e l =
     handle_result S now (qe_postponable e) (fst (split_event_type (qe_type e))) (qe_payload e) (outcome S e l)
       (l\<lparr>statem_data := snd (sm_handle_event S (qe_type e) (qe_payload e) (current_state l) (statem_data l))\<rparr>)"
  by (simp add: dispatch_event_def outcome_def case_prod_beta Let_def)

section \<open>Histories\<close>

text \<open>A dispatched event with the time, the state it found and the result of the callback.\<close>

record ('s, 'd, 'v, 'r) dispatched_event =
  de_time :: instant
  de_event :: "'v queued_event"
  de_state :: 's
  de_result :: "('s, 'd, 'v, 'r) transition_result"

text \<open>
  The executions of a machine with their histories: rounds at increasing times, and anything the senders do to the
  channels in between. \<open>run now hs (l, i)\<close> holds when the machine can be in \<open>l\<close> at time \<open>now\<close> after dispatching \<open>hs\<close>.
\<close>

inductive statem_run ::
  "('s, 'd, 'c, 'm, 'v, 'r) gen_statem \<Rightarrow> ((string, 'v active_timeout) hashmap \<Rightarrow> (string, 'v active_timeout) hashmap)
     \<Rightarrow> instant \<Rightarrow> ('s, 'd, 'v, 'r) dispatched_event list \<Rightarrow> ('s, 'd, 'v, 'r) statem_loop \<times> ('c, 'm, 'v) statem_inputs \<Rightarrow> bool" for S ord where
  starts: "statem_start S = Some l \<Longrightarrow> statem_run S ord now [] (l, i)"
| inputs: "statem_run S ord now hs (l, i) \<Longrightarrow> now \<le> now' \<Longrightarrow> statem_run S ord now' hs (l, i')"
| waits: "statem_run S ord now hs (l, i) \<Longrightarrow> statem_round S ord now (l, i) = (None, False, l', i') \<Longrightarrow> statem_run S ord now hs (l', i')"
| dispatches: "statem_run S ord now hs (l, i) \<Longrightarrow> statem_round S ord now (l, i) = (Some e, False, l', i') \<Longrightarrow>
    statem_run S ord now (hs @ [\<lparr>de_time = now, de_event = e, de_state = current_state l, de_result = outcome S e l\<rparr>]) (l', i')"

text \<open>The armed state timer stems from an entry of the history, with no state change and no other use of the timer since.\<close>

definition quiet_entry :: "('s, 'd, 'c, 'm, 'v, 'r) gen_statem \<Rightarrow> ('s, 'd, 'v, 'r) dispatched_event \<Rightarrow> bool" where
  "quiet_entry S y \<longleftrightarrow> \<not> result_changes S (de_state y) (de_result y) \<and> (\<forall>a \<in> set (result_actions (de_result y)). \<not> touches_state_timer a)
     \<and> qe_type (de_event y) \<noteq> EvStateTimeout"

definition armed_by :: "('s, 'd, 'c, 'm, 'v, 'r) gen_statem \<Rightarrow> ('s, 'd, 'v, 'r) dispatched_event list \<Rightarrow> 'v \<Rightarrow> instant \<Rightarrow> bool" where
  "armed_by S hs v deadline \<longleftrightarrow> (\<exists>pre x post d. hs = pre @ x # post \<and> ActStateTimeout d v \<in> set (result_actions (de_result x))
     \<and> deadline = de_time x + d \<and> (\<forall>y \<in> set post. quiet_entry S y))"

definition good_event :: "'v queued_event \<Rightarrow> bool" where
  "good_event q \<longleftrightarrow> qe_type q \<noteq> EvStateTimeout \<and> (qe_postponable q \<longrightarrow> qe_type q = EvCast \<or> qe_type q = EvInfo)"

definition statem_inv :: "('s, 'd, 'c, 'm, 'v, 'r) gen_statem \<Rightarrow> ('s, 'd, 'v, 'r) dispatched_event list \<Rightarrow> ('s, 'd, 'v, 'r) statem_loop \<Rightarrow> bool" where
  "statem_inv S hs l \<longleftrightarrow> (\<forall>q \<in> set (internal_queue l) \<union> set (postponed l). good_event q)
     \<and> (\<forall>t. state_timeout l = Some t \<longrightarrow> armed_by S hs (at_payload t) (at_deadline t))"

lemma next_events_good: "q \<in> set (next_events as) \<Longrightarrow> good_event q"
  by (induction as rule: next_events.induct) (auto simp: good_event_def)

lemma postponed_good:
  assumes "\<forall>q \<in> set (postponed l). good_event q" and "p \<Longrightarrow> desc = DescCall \<or> desc = DescCast \<or> desc = DescInfo"
  shows "\<forall>q \<in> set (postponed (act_and_postpone now p desc v as l)). good_event q"
proof -
  have new: "good_event \<lparr>qe_type = EvCast, qe_payload = v, qe_postponable = True\<rparr>" "good_event \<lparr>qe_type = EvInfo, qe_payload = v, qe_postponable = True\<rparr>"
    by (simp_all add: good_event_def)
  show ?thesis using assms new by (auto simp: act_and_postpone_def postpone_event_def case_prod_beta Let_def)
qed

lemma handle_result_good:
  fixes l :: "('s, 'd, 'v, 'r) statem_loop"
  assumes "\<forall>q \<in> set (internal_queue l) \<union> set (postponed l). good_event q"
    and "p \<Longrightarrow> desc = DescCall \<or> desc = DescCast \<or> desc = DescInfo"
  shows "\<forall>q \<in> set (internal_queue (snd (handle_result S now p desc v r l))) \<union> set (postponed (snd (handle_result S now p desc v r l))). good_event q"
proof -
  have a: "\<forall>q \<in> set (internal_queue (act_and_postpone now p desc v as l')) \<union> set (postponed (act_and_postpone now p desc v as l')). good_event q"
    if "internal_queue l' = internal_queue l" "postponed l' = postponed l" for as and l' :: "('s, 'd, 'v, 'r) statem_loop"
  proof -
    have "\<forall>q \<in> set (postponed (act_and_postpone now p desc v as l')). good_event q"
      by (rule postponed_good) (use assms that in auto)
    then show ?thesis using assms(1) that next_events_good by auto
  qed
  show ?thesis
  proof (cases r)
    case (NextState s d as)
    let ?l1 = "l\<lparr>current_state := s, statem_data := d\<rparr>"
    show ?thesis
    proof (cases "sm_eq S (current_state l) s")
      case True
      then show ?thesis using a [of ?l1 as] NextState by simp
    next
      case False
      let ?l3 = "act_and_postpone now p desc v as (?l1\<lparr>state_timeout := None\<rparr>)"
      have "\<forall>q \<in> set (internal_queue ?l3) \<union> set (postponed ?l3). good_event q" by (rule a) simp_all
      then show ?thesis using False NextState by (auto simp: replay_postponed_def Let_def good_event_def)
    qed
  next
    case (KeepState d as)
    then show ?thesis using a [of "l\<lparr>statem_data := d\<rparr>" as] by simp
  next
    case (KeepStateAndData as)
    then show ?thesis using a [of l as] by simp
  qed (use assms(1) in simp_all)
qed

lemma armed_by_snoc: "armed_by S hs v t \<Longrightarrow> quiet_entry S y \<Longrightarrow> armed_by S (hs @ [y]) v t"
proof -
  assume "armed_by S hs v t" and q: "quiet_entry S y"
  then obtain pre x post d where h: "hs = pre @ x # post" "ActStateTimeout d v \<in> set (result_actions (de_result x))" "t = de_time x + d"
    "\<forall>y \<in> set post. quiet_entry S y" unfolding armed_by_def by blast
  then have "hs @ [y] = pre @ x # (post @ [y])" "\<forall>z \<in> set (post @ [y]). quiet_entry S z" using q by auto
  with h(2,3) show ?thesis unfolding armed_by_def by blast
qed

lemma armed_by_last: "ActStateTimeout d v \<in> set (result_actions (de_result y)) \<Longrightarrow> armed_by S (hs @ [y]) v (de_time y + d)"
  unfolding armed_by_def by (intro exI [of _ hs] exI [of _ y] exI [of _ "[]"] exI [of _ d]) simp

text \<open>Dispatching one event, taken from the queues or the channels, keeps the invariant.\<close>

lemma dispatch_inv:
  assumes inv: "statem_inv S hs l" and e: "qe_postponable e \<Longrightarrow> (\<exists>tx. qe_type e = EvCall tx) \<or> qe_type e = EvCast \<or> qe_type e = EvInfo"
    and st: "qe_type e = EvStateTimeout \<Longrightarrow> state_timeout l = None"
  shows "statem_inv S (hs @ [\<lparr>de_time = now, de_event = e, de_state = current_state l, de_result = outcome S e l\<rparr>]) (snd (dispatch_event S now e l))"
    (is "statem_inv S (hs @ [?y]) ?l'")
proof -
  let ?d = "fst (split_event_type (qe_type e))"
  have "qe_postponable e \<Longrightarrow> ?d = DescCall \<or> ?d = DescCast \<or> ?d = DescInfo" using e by auto
  then have good: "\<forall>q \<in> set (internal_queue ?l') \<union> set (postponed ?l'). good_event q"
    unfolding dispatch_event_alt by (intro handle_result_good) (use inv in \<open>auto simp: statem_inv_def\<close>)
  have "armed_by S (hs @ [?y]) (at_payload t) (at_deadline t)" if "state_timeout ?l' = Some t" for t
  proof -
    from handle_result_timer [OF that [unfolded dispatch_event_alt]] show ?thesis
    proof
      assume "\<exists>d. ActStateTimeout d (at_payload t) \<in> set (result_actions (outcome S e l)) \<and> at_deadline t = now + d"
      then show ?thesis using armed_by_last [of _ "at_payload t" ?y S hs] by auto
    next
      assume a: "(\<forall>a \<in> set (result_actions (outcome S e l)). \<not> touches_state_timer a)
        \<and> \<not> result_changes S (current_state (l\<lparr>statem_data := snd (sm_handle_event S (qe_type e) (qe_payload e) (current_state l) (statem_data l))\<rparr>)) (outcome S e l)
        \<and> state_timeout (l\<lparr>statem_data := snd (sm_handle_event S (qe_type e) (qe_payload e) (current_state l) (statem_data l))\<rparr>) = Some t"
      then have "quiet_entry S ?y" using st by (auto simp: quiet_entry_def)
      moreover have "armed_by S hs (at_payload t) (at_deadline t)" using a inv by (simp add: statem_inv_def)
      ultimately show ?thesis by (intro armed_by_snoc)
    qed
  qed
  with good show ?thesis by (simp add: statem_inv_def)
qed

lemma select_event_inv:
  assumes "statem_inv S hs l" and "select_event S ord now (l, i) = (Selected e, l1, i1)"
  shows "statem_inv S hs l1 \<and> current_state l1 = current_state l \<and> statem_data l1 = statem_data l \<and> internal_queue l1 = internal_queue l
    \<and> postponed l1 = postponed l
    \<and> (qe_postponable e \<longrightarrow> (\<exists>tx. qe_type e = EvCall tx) \<or> qe_type e = EvCast \<or> qe_type e = EvInfo)
    \<and> (qe_type e = EvStateTimeout \<longrightarrow> state_timeout l1 = None
        \<and> (\<exists>t. state_timeout l = Some t \<and> at_payload t = qe_payload e \<and> at_deadline t \<le> now))"
proof (cases "timeout_ready now (state_timeout l)")
  case True
  then show ?thesis using assms by (auto simp: select_event_def statem_inv_def timeout_ready_def split: option.splits)
next
  case False
  show ?thesis
  proof (cases "timeout_ready now (event_timeout l)")
    case True
    then show ?thesis using assms False by (auto simp: select_event_def statem_inv_def)
  next
    case event: False
    show ?thesis
    proof (cases "next_generic_timeout ord now (generic_timeouts l)")
      case None
      then show ?thesis using assms False event
        by (auto simp: select_event_def statem_inv_def split: list.splits prod.splits if_splits)
    next
      case (Some nt)
      then show ?thesis using assms False event by (cases nt) (auto simp: select_event_def statem_inv_def)
    qed
  qed
qed

lemma select_not_ready: "fst (select_event S ord now (l, i)) = NotReady \<Longrightarrow> fst (snd (select_event S ord now (l, i))) = l"
  by (auto simp: select_event_def split: if_splits option.splits list.splits prod.splits)

lemma round_inv:
  assumes inv: "statem_inv S hs l" and r: "statem_round S ord now (l, i) = (Some e, stop, l', i')"
  shows "statem_inv S (hs @ [\<lparr>de_time = now, de_event = e, de_state = current_state l, de_result = outcome S e l\<rparr>]) l'"
    and "qe_type e = EvStateTimeout \<Longrightarrow> \<exists>deadline. armed_by S hs (qe_payload e) deadline \<and> deadline \<le> now"
proof -
  have "statem_inv S (hs @ [\<lparr>de_time = now, de_event = e, de_state = current_state l, de_result = outcome S e l\<rparr>]) l'
    \<and> (qe_type e = EvStateTimeout \<longrightarrow> (\<exists>deadline. armed_by S hs (qe_payload e) deadline \<and> deadline \<le> now))"
  proof (cases "internal_queue l")
    case (Cons e' q)
    let ?l1 = "l\<lparr>internal_queue := q\<rparr>"
    have e: "e = e'" "l' = snd (dispatch_event S now e ?l1)" using r Cons by (auto simp: statem_round_def case_prod_beta Let_def)
    have g: "good_event e" using inv Cons e(1) by (simp add: statem_inv_def)
    have i1: "statem_inv S hs ?l1" using inv Cons by (simp add: statem_inv_def)
    have o: "outcome S e ?l1 = outcome S e l" by (simp add: outcome_def)
    from dispatch_inv [OF i1, of e now] g show ?thesis unfolding o e(2) by (auto simp: good_event_def)
  next
    case Nil
    obtain x l1 i1 where s0: "select_event S ord now (l, i) = (x, l1, i1)" by (cases "select_event S ord now (l, i)") auto
    then have "x = Selected e" and l': "l' = snd (dispatch_event S now e l1)"
      using r Nil by (auto simp: statem_round_def case_prod_beta Let_def split: selected.splits)
    then have s: "select_event S ord now (l, i) = (Selected e, l1, i1)" using s0 by simp
    note sel = select_event_inv [OF inv s]
    have o: "outcome S e l1 = outcome S e l" "current_state l1 = current_state l" using sel by (simp_all add: outcome_def)
    have "statem_inv S (hs @ [\<lparr>de_time = now, de_event = e, de_state = current_state l1, de_result = outcome S e l1\<rparr>]) l'"
      unfolding l' by (rule dispatch_inv) (use sel in auto)
    moreover have "\<exists>deadline. armed_by S hs (qe_payload e) deadline \<and> deadline \<le> now" if "qe_type e = EvStateTimeout"
    proof -
      from sel that obtain t where "state_timeout l = Some t" "at_payload t = qe_payload e" "at_deadline t \<le> now" by blast
      then show ?thesis using inv unfolding statem_inv_def by metis
    qed
    ultimately show ?thesis unfolding o by blast
  qed
  then show "statem_inv S (hs @ [\<lparr>de_time = now, de_event = e, de_state = current_state l, de_result = outcome S e l\<rparr>]) l'"
    and "qe_type e = EvStateTimeout \<Longrightarrow> \<exists>deadline. armed_by S hs (qe_payload e) deadline \<and> deadline \<le> now"
    by blast+
qed

lemma statem_run_inv: "statem_run S ord now hs li \<Longrightarrow> statem_inv S hs (fst li)"
proof (induction rule: statem_run.induct)
  case (starts l now i)
  then show ?case by (auto simp: statem_start_def statem_inv_def good_event_def split: sum.splits prod.splits)
next
  case (waits now hs l i l' i')
  then have "l' = l"
    by (auto simp: statem_round_def case_prod_beta Let_def split: list.splits selected.splits prod.splits dest!: select_not_ready)
  then show ?case using waits by simp
next
  case (dispatches now hs l i e l' i')
  then show ?case using round_inv(1) [of S hs l ord now i e False l' i'] by simp
qed simp

text \<open>
  C27: a state timeout only fires in the state that armed it. Whenever a machine dispatches a state timeout, an
  earlier event's result armed the timer with that payload, its time has passed, and since then no event has changed
  the state, re-armed or cancelled the timer, or been a state timeout itself.
\<close>

theorem state_timeout_scoped:
  assumes "statem_run S ord now hs (l, i)" and "statem_round S ord now (l, i) = (Some e, stop, l', i')" and "qe_type e = EvStateTimeout"
  shows "\<exists>pre x post d. hs = pre @ x # post \<and> ActStateTimeout d (qe_payload e) \<in> set (result_actions (de_result x)) \<and> de_time x + d \<le> now
    \<and> (\<forall>y \<in> set post. \<not> result_changes S (de_state y) (de_result y) \<and> qe_type (de_event y) \<noteq> EvStateTimeout
         \<and> (\<forall>a \<in> set (result_actions (de_result y)). \<not> touches_state_timer a))"
proof -
  have "statem_inv S hs l" using statem_run_inv [OF assms(1)] by simp
  from round_inv(2) [OF this assms(2,3)] obtain deadline where a: "armed_by S hs (qe_payload e) deadline" "deadline \<le> now" by blast
  then obtain pre x post d where h: "hs = pre @ x # post" "ActStateTimeout d (qe_payload e) \<in> set (result_actions (de_result x))"
    "deadline = de_time x + d" "\<forall>y \<in> set post. quiet_entry S y" unfolding armed_by_def by blast
  have "\<forall>y \<in> set post. \<not> result_changes S (de_state y) (de_result y) \<and> qe_type (de_event y) \<noteq> EvStateTimeout
         \<and> (\<forall>a \<in> set (result_actions (de_result y)). \<not> touches_state_timer a)"
    using h(4) by (simp add: quiet_entry_def)
  then show ?thesis using h(1,2,3) a(2) by blast
qed

text \<open>A machine that postpones everything in its first state, and arms a timer when it leaves it.\<close>

definition sample_statem :: "(nat, unit, nat, nat, nat, nat) gen_statem" where
  "sample_statem = \<lparr>sm_enter = False, sm_init = Inr (0, ()), encode_call = \<lambda>c. c, encode_cast = \<lambda>m. m,
     sm_handle_event = \<lambda>e v s d.
       (if s = 0 then if e = EvCast \<and> v = 1 then NextState 1 () [ActStateTimeout 5 9] else KeepState () [ActPostpone]
        else KeepStateAndData [], d),
     sm_terminate = \<lambda>_ _ d. d, sm_eq = (=), sm_show = \<lambda>_. ''s'', sm_nil = 0\<rparr>"

definition sample_loop :: "(nat, unit, nat, nat) statem_loop" where
  "sample_loop = \<lparr>current_state = 0, statem_data = (), state_timeout = None, event_timeout = None, generic_timeouts = [],
     postponed = [], internal_queue = [], replies_sent = []\<rparr>"

definition sample_inputs :: "nat list \<Rightarrow> (nat, nat, nat) statem_inputs" where
  "sample_inputs casts = \<lparr>in_calls = [], calls_closed = False, in_casts = casts, casts_closed = False, in_mailbox = [], mailbox_closed = False\<rparr>"

definition cast_event :: "nat \<Rightarrow> nat queued_event" where
  "cast_event v = \<lparr>qe_type = EvCast, qe_payload = v, qe_postponable = True\<rparr>"

definition sample_armed :: "(nat, unit, nat, nat) statem_loop" where
  "sample_armed = sample_loop\<lparr>current_state := 1, state_timeout := Some \<lparr>at_payload = 9, at_deadline = 5\<rparr>\<rparr>"

lemmas statem_sample_defs = sample_statem_def sample_loop_def sample_inputs_def sample_armed_def statem_round_def select_event_def
  timeout_ready_def next_generic_timeout_def dispatch_event_def act_and_postpone_def process_actions_def replay_postponed_def
  cast_event_def outcome_def

lemma sample_start: "statem_start sample_statem = Some sample_loop"
  by (simp add: statem_start_def statem_sample_defs)

lemma sample_cast_round:
  "statem_round sample_statem rev 0 (sample_loop, sample_inputs [1]) = (Some (cast_event 1), False, sample_armed, sample_inputs [])"
  by (simp add: statem_sample_defs)

lemma sample_run:
  "statem_run sample_statem rev 5 [\<lparr>de_time = 0, de_event = cast_event 1, de_state = 0, de_result = NextState 1 () [ActStateTimeout 5 9]\<rparr>]
     (sample_armed, sample_inputs [])"
proof -
  have "statem_run sample_statem rev 0 ([] @ [\<lparr>de_time = 0, de_event = cast_event 1, de_state = current_state sample_loop,
      de_result = outcome sample_statem (cast_event 1) sample_loop\<rparr>]) (sample_armed, sample_inputs [])"
    by (rule statem_run.dispatches [OF statem_run.starts [OF sample_start] sample_cast_round])
  then show ?thesis using statem_run.inputs [of sample_statem rev 0 _ sample_armed _ 5] by (simp add: statem_sample_defs)
qed

theorem state_timeout_scoped_witness:
  "\<exists>pre x post d. [\<lparr>de_time = 0, de_event = cast_event 1, de_state = 0 :: nat, de_result = NextState 1 () [ActStateTimeout 5 9 :: (nat, nat) statem_action]\<rparr>]
      = pre @ x # post \<and> ActStateTimeout d 9 \<in> set (result_actions (de_result x)) \<and> de_time x + d \<le> 5"
proof -
  have "statem_round sample_statem rev 5 (sample_armed, sample_inputs []) =
      (Some \<lparr>qe_type = EvStateTimeout, qe_payload = 9, qe_postponable = False\<rparr>, False,
       sample_armed\<lparr>state_timeout := None\<rparr>, sample_inputs [])"
    by (simp add: statem_sample_defs)
  from state_timeout_scoped [OF sample_run this] show ?thesis by (simp only: queued_event.simps simp_thms True_implies_equals) blast
qed

section \<open>Replay of postponed events\<close>

text \<open>The event that a dispatch appends to the postponed ones.\<close>

definition postponed_event :: "'v queued_event \<Rightarrow> ('v, 'r) statem_action list \<Rightarrow> 'v queued_event list" where
  "postponed_event e as =
     (if ActPostpone \<in> set as \<and> qe_postponable e \<and> (\<forall>tx. qe_type e \<noteq> EvCall tx)
      then [\<lparr>qe_type = qe_type e, qe_payload = qe_payload e, qe_postponable = True\<rparr>] else [])"

lemma act_and_postpone_postponed:
  "postponed (act_and_postpone now (qe_postponable e) (fst (split_event_type (qe_type e))) (qe_payload e) as l) = postponed l @ postponed_event e as"
  by (cases "qe_type e") (auto simp: act_and_postpone_def postpone_event_def postponed_event_def case_prod_beta Let_def)

text \<open>A callback that keeps the state.\<close>

definition keeps_state :: "('s, 'd, 'v, 'r) transition_result \<Rightarrow> bool" where
  "keeps_state r = (case r of KeepState _ _ \<Rightarrow> True | KeepStateAndData _ \<Rightarrow> True | _ \<Rightarrow> False)"

lemma keep_dispatch:
  assumes "keeps_state (outcome S e l)"
  shows "fst (dispatch_event S now e l) = False" and "current_state (snd (dispatch_event S now e l)) = current_state l"
    and "internal_queue (snd (dispatch_event S now e l)) = internal_queue l @ next_events (result_actions (outcome S e l))"
    and "postponed (snd (dispatch_event S now e l)) = postponed l @ postponed_event e (result_actions (outcome S e l))"
  using assms
  by (cases "outcome S e l"; simp add: dispatch_event_alt keeps_state_def result_actions_def act_and_postpone_postponed)+

lemma change_dispatch:
  assumes "outcome S e l = NextState s d as" and "\<not> sm_eq S (current_state l) s"
  shows "fst (dispatch_event S now e l) = False" and "current_state (snd (dispatch_event S now e l)) = s"
    and "postponed (snd (dispatch_event S now e l)) = []"
    and "internal_queue (snd (dispatch_event S now e l)) =
      (if sm_enter S then [\<lparr>qe_type = EvEnter (sm_show S (current_state l)), qe_payload = sm_nil S, qe_postponable = False\<rparr>] else [])
      @ postponed l @ postponed_event e as @ internal_queue l @ next_events as"
  using assms by (simp_all add: dispatch_event_alt replay_postponed_def act_and_postpone_postponed Let_def)

text \<open>The events of consecutive rounds.\<close>

fun statem_rounds ::
  "('s, 'd, 'c, 'm, 'v, 'r) gen_statem \<Rightarrow> ((string, 'v active_timeout) hashmap \<Rightarrow> (string, 'v active_timeout) hashmap)
     \<Rightarrow> instant list \<Rightarrow> ('s, 'd, 'v, 'r) statem_loop \<times> ('c, 'm, 'v) statem_inputs
     \<Rightarrow> 'v queued_event option list \<times> ('s, 'd, 'v, 'r) statem_loop \<times> ('c, 'm, 'v) statem_inputs" where
  "statem_rounds S ord [] li = ([], li)"
| "statem_rounds S ord (now # ts) li =
     (let (e, _, li1) = statem_round S ord now li; (es, li2) = statem_rounds S ord ts li1 in (e # es, li2))"

lemma internal_rounds:
  assumes "\<And>e v d. keeps_state (fst (sm_handle_event S e v s d))"
  shows "current_state l = s \<Longrightarrow> internal_queue l = q @ rest \<Longrightarrow> length ts = length q \<Longrightarrow>
    \<exists>l'. statem_rounds S ord ts (l, i) = (map Some q, l', i)"
proof (induction q arbitrary: l ts rest)
  case (Cons e q)
  obtain t ts' where ts: "ts = t # ts'" "length ts' = length q" using Cons.prems(3) by (cases ts) auto
  let ?l = "l\<lparr>internal_queue := q @ rest\<rparr>"
  have k: "keeps_state (outcome S e ?l)" unfolding outcome_def using Cons.prems(1) assms by simp
  note kd = keep_dispatch [OF k, of t]
  have "statem_round S ord t (l, i) = (Some e, False, snd (dispatch_event S t e ?l), i)"
    using Cons.prems(2) kd(1) by (simp add: statem_round_def case_prod_beta Let_def)
  moreover have "\<exists>l'. statem_rounds S ord ts' (snd (dispatch_event S t e ?l), i) = (map Some q, l', i)"
    by (rule Cons.IH [of _ "rest @ next_events (result_actions (outcome S e ?l))"]) (use kd Cons.prems(1) ts(2) in simp_all)
  ultimately show ?case using ts(1) by auto
qed simp



text \<open>
  Dropping the last handle loses what was sent last. A cast that the handle accepted, and that is still in the channel
  when all handles are gone, is never dispatched: an idle machine whose call channel is closed ends at once and leaves
  the casts and mailbox messages unread.
\<close>

theorem closed_handle_loses_casts:
  assumes "internal_queue l = []" and "state_timeout l = None" and "event_timeout l = None" and "generic_timeouts l = []"
    and "statem_cast True pid msg i = (r, i1)" and "in_calls i = []" and "hash_order ord"
  shows "r = Inr () \<and> msg \<in> set (in_casts i1)
    \<and> (\<exists>l'. statem_round S ord now (l, i1\<lparr>calls_closed := True, casts_closed := True\<rparr>)
          = (None, True, l', i1\<lparr>calls_closed := True, casts_closed := True\<rparr>) \<and> replies_sent l' = replies_sent l)"
proof -
  have "next_generic_timeout ord now (generic_timeouts l) = None"
    using assms(4) hash_order_Nil [OF assms(7), of "[]"] by (simp add: next_generic_timeout_def)
  then show ?thesis using assms(1-6)
    by (auto simp: statem_cast_def statem_round_def select_event_def timeout_ready_def)
qed

theorem closed_handle_loses_casts_witness:
  "\<exists>l'. statem_round sample_statem rev 0 (sample_loop, (sample_inputs [4])\<lparr>calls_closed := True, casts_closed := True\<rparr>)
     = (None, True, l', (sample_inputs [4])\<lparr>calls_closed := True, casts_closed := True\<rparr>)"
proof -
  have c: "statem_cast True (process_id_new 1 1) 4 (sample_inputs []) = (Inr (), sample_inputs [4])"
    by (simp add: statem_cast_def sample_inputs_def)
  from closed_handle_loses_casts [OF _ _ _ _ c, of sample_loop rev sample_statem 0] show ?thesis
    by (auto simp: sample_loop_def sample_inputs_def)
qed

end
