(* ===== verification/Coordinator.thy ===== *)
theory Coordinator
  imports Runtime Std "HOL-Library.Product_Lexorder" "HOL-Library.Sublist"
begin

text \<open>
  The task coordinator (\<^verbatim>\<open>crates/rebar-core/src/coordinator\<close>): a pool of registered workers, least-loaded
  scheduling with failover, and one ephemeral collector process per dispatched task. A reply channel is a token;
  the coordinator, the collectors and the processes of the node interleave as steps over a shared process table. The theory
  shows that every accepted request is answered exactly once, within a number of attempts bounded by the size of the pool,
  that the scheduler picks a least-loaded live worker, and which bookkeeping invariants the pool keeps.
\<close>

definition MAX_AVG_RESPONSE_US :: u64 where
  "MAX_AVG_RESPONSE_US = 3600000000"

section \<open>Types\<close>

type_synonym worker_id = u64

record 'v worker_info =
  wi_id :: worker_id
  wi_pid :: process_id
  wi_metadata :: 'v
  wi_in_flight :: u64
  wi_avg_response_us :: u64
  wi_completed :: u64

datatype coordinator_error =
    NoWorkers
  | WorkerNotFound worker_id
  | CoordShutdown
  | CoordTimeout
  | PoolFull
  | WorkerDied

text \<open>Each request carries the token of its reply channel.\<close>

datatype 'v coord_msg =
    CmRegister process_id 'v nat
  | CmUnregister worker_id nat
  | CmSubmit 'v nat duration
  | CmListWorkers nat
  | CmWorkerCount nat
  | CmShutdown

datatype 'v coord_reply =
    RegisterReply "coordinator_error + worker_id"
  | UnregisterReply "coordinator_error + unit"
  | SubmitReply "coordinator_error + 'v"
  | WorkersReply "'v worker_info list"
  | CountReply usize

datatype 'v task_complete =
    TcOk process_id u64
  | TcFailed process_id 'v nat duration usize
  | TcRetire process_id

record 'v coord_state =
  cs_workers :: "'v worker_info list"
  cs_next_id :: u64
  cs_max_workers :: usize

text \<open>A collector task: the process it receives on, and what it captured.\<close>

record 'v collector =
  co_reply_pid :: process_id
  co_worker :: process_id
  co_task :: 'v
  co_reply :: nat
  co_timeout :: duration
  co_remaining :: usize

text \<open>
  What the coordinator and its collectors share: the process table, the collectors that run, the completion channel, the
  replies sent so far (in order), and the exit-hook calls of cleaned up processes.
\<close>

record ('c, 'h, 'v) coord_world =
  cw_table :: "('c, 'h) process_table"
  cw_collectors :: "'v collector list"
  cw_completions :: "'v task_complete list"
  cw_replies :: "(nat \<times> 'v coord_reply) list"
  cw_hooks :: "('h \<times> process_id) list"

type_synonym ('c, 'h, 'v) coord_system = "'v coord_state \<times> ('c, 'h, 'v) coord_world"

section \<open>The pool\<close>

definition coord_register :: "process_id \<Rightarrow> 'v \<Rightarrow> 'v coord_state \<Rightarrow> (coordinator_error + worker_id) \<times> 'v coord_state" where
  "coord_register pid metadata s =
     (if cs_max_workers s > 0 \<and> length (cs_workers s) \<ge> cs_max_workers s then (Inl PoolFull, s)
      else
        let i = cs_next_id s + 1 in
        (Inr i, s\<lparr>cs_next_id := i,
                  cs_workers := cs_workers s @ [\<lparr>wi_id = i, wi_pid = pid, wi_metadata = metadata, wi_in_flight = 0,
                    wi_avg_response_us = 0, wi_completed = 0\<rparr>]\<rparr>))"

definition coord_unregister :: "worker_id \<Rightarrow> 'v coord_state \<Rightarrow> (coordinator_error + unit) \<times> 'v coord_state" where
  "coord_unregister i s =
     (case position (\<lambda>w. wi_id w = i) (cs_workers s) of
        None \<Rightarrow> (Inl (WorkerNotFound i), s)
      | Some pos \<Rightarrow> (Inr (), s\<lparr>cs_workers := swap_remove pos (cs_workers s)\<rparr>))"

definition load_score :: "'v worker_info \<Rightarrow> u64" where
  "load_score w = u64_saturating_mul (wi_in_flight w + 1) (max (wi_avg_response_us w) 1)"

definition worker_key :: "'v worker_info \<Rightarrow> u64 \<times> u64" where
  "worker_key w = (load_score w, wi_completed w)"

definition bump_in_flight :: "'v worker_info \<Rightarrow> 'v worker_info" where
  "bump_in_flight w = w\<lparr>wi_in_flight := wi_in_flight w + 1\<rparr>"

definition pick_worker :: "'v coord_state \<Rightarrow> (process_id \<times> 'v coord_state) option" where
  "pick_worker s =
     (case min_by_key (\<lambda>(_, w). worker_key w) (List.enumerate 0 (cs_workers s)) of
        None \<Rightarrow> None
      | Some (idx, _) \<Rightarrow>
          let w = bump_in_flight (cs_workers s ! idx) in
          Some (wi_pid w, s\<lparr>cs_workers := (cs_workers s)[idx := w]\<rparr>))"

definition drop_in_flight :: "'v worker_info \<Rightarrow> 'v worker_info" where
  "drop_in_flight w = w\<lparr>wi_in_flight := u64_saturating_sub (wi_in_flight w) 1\<rparr>"

definition remove_worker_by_pid :: "process_id \<Rightarrow> 'v coord_state \<Rightarrow> 'v coord_state" where
  "remove_worker_by_pid pid s = s\<lparr>cs_workers := filter (\<lambda>w. wi_pid w \<noteq> pid) (cs_workers s)\<rparr>"

text \<open>The retirement of a worker: its in-flight count is decremented, then every entry with its identifier is removed.\<close>

definition retire_worker :: "process_id \<Rightarrow> 'v coord_state \<Rightarrow> 'v coord_state" where
  "retire_worker pid s =
     remove_worker_by_pid pid (s\<lparr>cs_workers := update_first (\<lambda>w. wi_pid w = pid) drop_in_flight (cs_workers s)\<rparr>)"

definition complete_worker :: "u64 \<Rightarrow> 'v worker_info \<Rightarrow> 'v worker_info" where
  "complete_worker sample w =
     (let w1 = w\<lparr>wi_in_flight := u64_saturating_sub (wi_in_flight w) 1, wi_completed := wi_completed w + 1\<rparr> in
      if wi_completed w1 = 1 then w1\<lparr>wi_avg_response_us := min sample MAX_AVG_RESPONSE_US\<rparr>
      else
        let numerator = 3 * unat sample + 7 * unat (wi_avg_response_us w);
            avg = u64_try_from_or (numerator div 10) MAX_AVG_RESPONSE_US in
        w1\<lparr>wi_avg_response_us := min avg MAX_AVG_RESPONSE_US\<rparr>)"

definition complete_task :: "process_id \<Rightarrow> u64 \<Rightarrow> 'v coord_state \<Rightarrow> 'v coord_state" where
  "complete_task pid elapsed_us s =
     (let sample = max elapsed_us 1 in
      s\<lparr>cs_workers := update_first (\<lambda>w. wi_pid w = pid) (complete_worker sample) (cs_workers s)\<rparr>)"

section \<open>Scheduling\<close>

text \<open>
  The loop ends: every turn that does not return removes the entries of the worker it picked.
\<close>

lemma pick_worker_None: "pick_worker s = None \<longleftrightarrow> cs_workers s = []"
  by (auto simp: pick_worker_def Let_def enumerate_eq_zip split: option.splits)

lemma pick_worker_split:
  assumes "pick_worker s = Some (pid, s1)"
  obtains ws1 w ws2 where "cs_workers s = ws1 @ w # ws2" and "pid = wi_pid w"
    and "s1 = s\<lparr>cs_workers := ws1 @ bump_in_flight w # ws2\<rparr>"
    and "\<forall>w' \<in> set ws1. worker_key w < worker_key w'" and "\<forall>w' \<in> set ws2. worker_key w \<le> worker_key w'"
proof -
  from assms obtain i w where m: "min_by_key (\<lambda>(_, w). worker_key w) (List.enumerate 0 (cs_workers s)) = Some (i, w)"
    and r: "pid = wi_pid (bump_in_flight (cs_workers s ! i))" "s1 = s\<lparr>cs_workers := (cs_workers s)[i := bump_in_flight (cs_workers s ! i)]\<rparr>"
    by (auto simp: pick_worker_def Let_def split: option.splits)
  from min_by_key_first [OF m] obtain ys zs where e: "List.enumerate 0 (cs_workers s) = ys @ (i, w) # zs"
    and k: "\<forall>y \<in> set ys. worker_key w < worker_key (snd y)" "\<forall>z \<in> set zs. worker_key w \<le> worker_key (snd z)"
    by (auto simp: case_prod_beta)
  note sp = enumerate_split [OF e]
  show thesis
  proof (rule that [of "map snd ys" w "map snd zs"])
    show "cs_workers s = map snd ys @ w # map snd zs" by (fact sp(1))
    then have "cs_workers s ! i = w" using sp(2) by (simp add: nth_append)
    then show "pid = wi_pid w" "s1 = s\<lparr>cs_workers := map snd ys @ bump_in_flight w # map snd zs\<rparr>"
      using r sp by (simp_all add: bump_in_flight_def list_update_append)
  qed (use k in auto)
qed

lemma retire_worker_workers [simp]:
  "cs_workers (retire_worker pid s) = filter (\<lambda>w. wi_pid w \<noteq> pid) (cs_workers s)"
proof -
  have "filter (\<lambda>w. wi_pid w \<noteq> pid) (update_first (\<lambda>w. wi_pid w = pid) drop_in_flight ws) = filter (\<lambda>w. wi_pid w \<noteq> pid) ws" for ws
    by (induction ws) (auto simp: drop_in_flight_def)
  then show ?thesis by (simp add: retire_worker_def remove_worker_by_pid_def)
qed

lemma retire_worker_fields [simp]:
  "cs_next_id (retire_worker pid s) = cs_next_id s" "cs_max_workers (retire_worker pid s) = cs_max_workers s"
  by (simp_all add: retire_worker_def remove_worker_by_pid_def)

lemma retire_picked_shorter:
  assumes "pick_worker s = Some (pid, s1)"
  shows "length (cs_workers (retire_worker pid s1)) < length (cs_workers s)"
proof -
  from pick_worker_split [OF assms] obtain ws1 w ws2 where "cs_workers s = ws1 @ w # ws2" "pid = wi_pid w"
    "s1 = s\<lparr>cs_workers := ws1 @ bump_in_flight w # ws2\<rparr>" by metis
  then show ?thesis by (simp add: bump_in_flight_def) (meson add_le_mono le_imp_less_Suc length_filter_le)
qed

function (sequential) pick_live_worker :: "('c, 'h) process_table \<Rightarrow> 'v coord_state \<Rightarrow> process_id option \<times> 'v coord_state" where
  "pick_live_worker t s =
     (case pick_worker s of
        None \<Rightarrow> (None, s)
      | Some (pid, s1) \<Rightarrow> if table_get pid t \<noteq> None then (Some pid, s1) else pick_live_worker t (retire_worker pid s1))"
  by pat_completeness auto
termination
  by (relation "measure (\<lambda>(t, s). length (cs_workers s))") (auto dest: retire_picked_shorter)

declare pick_live_worker.simps [simp del]

section \<open>Dispatching\<close>

definition send_reply :: "nat \<Rightarrow> 'v coord_reply \<Rightarrow> ('c, 'h, 'v) coord_world \<Rightarrow> ('c, 'h, 'v) coord_world" where
  "send_reply tx r w = w\<lparr>cw_replies := cw_replies w @ [(tx, r)]\<rparr>"

definition task_message :: "'v rmpv \<Rightarrow> 'v \<Rightarrow> process_id \<Rightarrow> 'v" where
  "task_message V task reply_pid =
     map_value V [(string_value V ''task'', task), (string_value V ''reply_to_node'', u64_value V (pid_node_id reply_pid)),
       (string_value V ''reply_to_local'', u64_value V (pid_local_id reply_pid))]"

definition cleanup_collector :: "('v message, 'c) mpsc \<Rightarrow> 'v rmpv \<Rightarrow> process_id \<Rightarrow> ('c, 'h, 'v) coord_world \<Rightarrow> ('c, 'h, 'v) coord_world" where
  "cleanup_collector M V pid w =
     (case cleanup_process M V pid (cw_table w) of (_, calls, t) \<Rightarrow> w\<lparr>cw_table := t, cw_hooks := cw_hooks w @ calls\<rparr>)"

text \<open>The table does not change between the calls of one dispatch except by the dispatch itself.\<close>

fun dispatch_task ::
  "('v message, 'c) mpsc \<Rightarrow> 'v rmpv \<Rightarrow> 'v \<Rightarrow> nat \<Rightarrow> duration \<Rightarrow> usize \<Rightarrow> ('c, 'h, 'v) coord_system \<Rightarrow> ('c, 'h, 'v) coord_system" where
  "dispatch_task M V task reply timeout 0 (s, w) = (s, send_reply reply (SubmitReply (Inl NoWorkers)) w)"
| "dispatch_task M V task reply timeout (Suc attempts) (s, w) =
     (case pick_live_worker (cw_table w) s of
        (None, s1) \<Rightarrow> (s1, send_reply reply (SubmitReply (Inl NoWorkers)) w)
      | (Some worker, s1) \<Rightarrow>
          let (reply_pid, t1) = allocate_pid (cw_table w);
              t2 = table_insert reply_pid (mailbox_unbounded M) t1;
              (r, t3) = the (local_route M (process_id_new 0 0) worker (task_message V task reply_pid) t2);
              w1 = w\<lparr>cw_table := t3\<rparr> in
          (case r of
             Inl _ \<Rightarrow>
               dispatch_task M V task reply timeout attempts (retire_worker worker s1, cleanup_collector M V reply_pid w1)
           | Inr _ \<Rightarrow>
               (s1, w1\<lparr>cw_collectors := cw_collectors w1 @ [\<lparr>co_reply_pid = reply_pid, co_worker = worker, co_task = task,
                      co_reply = reply, co_timeout = timeout, co_remaining = attempts\<rparr>]\<rparr>)))"

section \<open>Collectors\<close>

text \<open>What \<open>timeout(.., mb_rx.recv())\<close> gives: a message, the end of the senders, or the timeout.\<close>

datatype 'v collected = Received "'v message" | MailboxGone | TimedOut

text \<open>
  The rest of a collector task once its wait is over, \<open>elapsed\<close> microseconds after the dispatch. \<open>up\<close>: the coordinator still
  holds the receiver of the completion channel; a completion sent afterwards is dropped, and with it the reply channel it carries.
\<close>

definition send_completion :: "bool \<Rightarrow> 'v task_complete \<Rightarrow> ('c, 'h, 'v) coord_world \<Rightarrow> ('c, 'h, 'v) coord_world" where
  "send_completion up tc w = (if up then w\<lparr>cw_completions := cw_completions w @ [tc]\<rparr> else w)"

definition collector_finish ::
  "('v message, 'c) mpsc \<Rightarrow> 'v rmpv \<Rightarrow> bool \<Rightarrow> nat \<Rightarrow> 'v collected \<Rightarrow> 'v collector \<Rightarrow> ('c, 'h, 'v) coord_world \<Rightarrow> ('c, 'h, 'v) coord_world" where
  "collector_finish M V up elapsed outcome c w =
     (let w1 = cleanup_collector M V (co_reply_pid c) w in
      case outcome of
        Received msg \<Rightarrow>
          send_reply (co_reply c) (SubmitReply (Inr (msg_payload msg)))
            (send_completion up (TcOk (co_worker c) (u64_try_from_or elapsed u64_max)) w1)
      | _ \<Rightarrow>
          if co_remaining c = 0
          then
            let err = (if outcome = MailboxGone then WorkerDied else CoordTimeout) in
            send_completion up (TcRetire (co_worker c)) (send_reply (co_reply c) (SubmitReply (Inl err)) w1)
          else send_completion up (TcFailed (co_worker c) (co_task c) (co_reply c) (co_timeout c) (co_remaining c)) w1)"

fun handle_complete ::
  "('v message, 'c) mpsc \<Rightarrow> 'v rmpv \<Rightarrow> 'v task_complete \<Rightarrow> ('c, 'h, 'v) coord_system \<Rightarrow> ('c, 'h, 'v) coord_system" where
  "handle_complete M V (TcOk worker elapsed_us) (s, w) = (complete_task worker elapsed_us s, w)"
| "handle_complete M V (TcFailed worker task reply timeout remaining) (s, w) =
     dispatch_task M V task reply timeout remaining (retire_worker worker s, w)"
| "handle_complete M V (TcRetire worker) (s, w) = (retire_worker worker s, w)"

section \<open>The event loop\<close>

definition coord_state_new :: "usize \<Rightarrow> 'v coord_state" where
  "coord_state_new max_workers = \<lparr>cs_workers = [], cs_next_id = 0, cs_max_workers = max_workers\<rparr>"

text \<open>One command; the flag says that the loop ends.\<close>

fun handle_coord_msg ::
  "('v message, 'c) mpsc \<Rightarrow> 'v rmpv \<Rightarrow> 'v coord_msg \<Rightarrow> ('c, 'h, 'v) coord_system \<Rightarrow> bool \<times> ('c, 'h, 'v) coord_system" where
  "handle_coord_msg M V (CmRegister pid metadata reply) (s, w) =
     (let (r, s1) = coord_register pid metadata s in (False, s1, send_reply reply (RegisterReply r) w))"
| "handle_coord_msg M V (CmUnregister i reply) (s, w) =
     (let (r, s1) = coord_unregister i s in (False, s1, send_reply reply (UnregisterReply r) w))"
| "handle_coord_msg M V (CmWorkerCount reply) (s, w) = (False, s, send_reply reply (CountReply (length (cs_workers s))) w)"
| "handle_coord_msg M V (CmListWorkers reply) (s, w) = (False, s, send_reply reply (WorkersReply (cs_workers s)) w)"
| "handle_coord_msg M V (CmSubmit task reply timeout) (s, w) =
     (False, dispatch_task M V task reply timeout (length (cs_workers s)) (s, w))"
| "handle_coord_msg M V CmShutdown (s, w) = (True, s, w)"

text \<open>The drain of the completion channel at the top of the loop. Handling a completion sends none.\<close>

definition coord_drain :: "('v message, 'c) mpsc \<Rightarrow> 'v rmpv \<Rightarrow> ('c, 'h, 'v) coord_system \<Rightarrow> ('c, 'h, 'v) coord_system" where
  "coord_drain M V sw =
     (case sw of (s, w) \<Rightarrow> fold (handle_complete M V) (cw_completions w) (s, w\<lparr>cw_completions := []\<rparr>))"

text \<open>The senders of the completion channel: the clone the loop itself passes to dispatches, and one per collector.\<close>

definition complete_senders :: "('c, 'h, 'v) coord_world \<Rightarrow> nat" where
  "complete_senders w = 1 + length (cw_collectors w)"

datatype ('c, 'h, 'v) select_outcome = Waits | Ends "('c, 'h, 'v) coord_system" | Goes "('c, 'h, 'v) coord_system" "'v coord_msg list"

text \<open>
  The biased select: a completion, else a command. An arm whose channel is closed is disabled, and \<open>else\<close> ends the loop
  when both are. \<open>closed\<close>: no handle is left.
\<close>

definition coord_select ::
  "('v message, 'c) mpsc \<Rightarrow> 'v rmpv \<Rightarrow> bool \<Rightarrow> 'v coord_msg list \<Rightarrow> ('c, 'h, 'v) coord_system \<Rightarrow> ('c, 'h, 'v) select_outcome" where
  "coord_select M V closed msgs sw =
     (case sw of (s, w) \<Rightarrow>
       case cw_completions w of
         tc # tcs \<Rightarrow> Goes (handle_complete M V tc (s, w\<lparr>cw_completions := tcs\<rparr>)) msgs
       | [] \<Rightarrow>
           (case msgs of
              m # ms \<Rightarrow> (case handle_coord_msg M V m (s, w) of (stop, sw1) \<Rightarrow> if stop then Ends sw1 else Goes sw1 ms)
            | [] \<Rightarrow> if complete_senders w = 0 \<and> closed then Ends sw else Waits))"

section \<open>The handle\<close>

text \<open>
  A request through the handle: it fails when the loop has dropped its receiver, and is queued otherwise (the bounded channel
  makes the sender wait for room). \<open>shutdown\<close> does not wait.
\<close>

definition COORD_CAPACITY :: nat where
  "COORD_CAPACITY = 256"

definition coord_request :: "bool \<Rightarrow> 'v coord_msg \<Rightarrow> 'v coord_msg list \<Rightarrow> (coordinator_error + unit) \<times> 'v coord_msg list" where
  "coord_request up m msgs = (if up then (Inr (), msgs @ [m]) else (Inl CoordShutdown, msgs))"

definition coord_shutdown :: "bool \<Rightarrow> 'v coord_msg list \<Rightarrow> 'v coord_msg list" where
  "coord_shutdown up msgs = (if up \<and> length msgs < COORD_CAPACITY then msgs @ [CmShutdown] else msgs)"

definition SUBMIT_MANY_MAX_CONCURRENCY :: usize where
  "SUBMIT_MANY_MAX_CONCURRENCY = 64"

definition submit_many_permits :: "'v list \<Rightarrow> usize" where
  "submit_many_permits tasks = min SUBMIT_MANY_MAX_CONCURRENCY (max (length tasks) 1)"

section \<open>The scheduler picks a least-loaded live worker\<close>

lemma retire_picked:
  assumes "pick_worker s = Some (pid, s1)"
  shows "retire_worker pid s1 = remove_worker_by_pid pid s"
proof -
  from pick_worker_split [OF assms] obtain ws1 w ws2 where "cs_workers s = ws1 @ w # ws2" "pid = wi_pid w"
    "s1 = s\<lparr>cs_workers := ws1 @ bump_in_flight w # ws2\<rparr>" by metis
  then have "cs_workers (retire_worker pid s1) = cs_workers (remove_worker_by_pid pid s)"
    by (simp add: bump_in_flight_def remove_worker_by_pid_def)
  moreover have "cs_next_id s1 = cs_next_id s" "cs_max_workers s1 = cs_max_workers s"
    using assms by (auto simp: pick_worker_def Let_def split: option.splits)
  ultimately show ?thesis by (simp add: remove_worker_by_pid_def)
qed

lemma pick_live_worker_None:
  assumes "pick_live_worker t s = (None, s')"
  shows "cs_workers s' = [] \<and> (\<forall>w \<in> set (cs_workers s). table_get (wi_pid w) t = None)"
  using assms
proof (induction t s rule: pick_live_worker.induct)
  case (1 t s)
  show ?case
  proof (cases "pick_worker s")
    case None
    with "1.prems" show ?thesis by (simp add: pick_live_worker.simps [of t s] pick_worker_None)
  next
    case (Some r)
    obtain pid s1 where r: "r = (pid, s1)" by (cases r)
    with Some "1.prems" have d: "table_get pid t = None" by (auto simp: pick_live_worker.simps [of t s] split: if_splits)
    with Some r "1.prems" have "pick_live_worker t (retire_worker pid s1) = (None, s')" by (simp add: pick_live_worker.simps [of t s])
    from "1.IH" [OF Some r [symmetric] _ this] d have "cs_workers s' = []"
      "\<forall>w \<in> set (cs_workers (retire_worker pid s1)). table_get (wi_pid w) t = None" by simp_all
    with d Some show ?thesis unfolding r by (auto simp: retire_picked remove_worker_by_pid_def)
  qed
qed

lemma pick_live_worker_Some:
  assumes "pick_live_worker t s = (Some pid, s')"
  obtains ws1 w ws2 dead where "s' = s\<lparr>cs_workers := ws1 @ bump_in_flight w # ws2\<rparr>" and "pid = wi_pid w" and "table_get pid t \<noteq> None"
    and "ws1 @ w # ws2 = filter (\<lambda>w. wi_pid w \<notin> dead) (cs_workers s)" and "\<forall>p \<in> dead. table_get p t = None"
    and "\<forall>w' \<in> set (cs_workers s). table_get (wi_pid w') t \<noteq> None \<longrightarrow> worker_key w \<le> worker_key w'"
proof -
  have "\<exists>ws1 w ws2 dead. s' = s\<lparr>cs_workers := ws1 @ bump_in_flight w # ws2\<rparr> \<and> pid = wi_pid w \<and> table_get pid t \<noteq> None
    \<and> ws1 @ w # ws2 = filter (\<lambda>w. wi_pid w \<notin> dead) (cs_workers s) \<and> (\<forall>p \<in> dead. table_get p t = None)
    \<and> (\<forall>w' \<in> set (cs_workers s). table_get (wi_pid w') t \<noteq> None \<longrightarrow> worker_key w \<le> worker_key w')"
    using assms
  proof (induction t s rule: pick_live_worker.induct)
    case (1 t s)
    obtain p s1 where S: "pick_worker s = Some (p, s1)"
      using "1.prems" by (auto simp: pick_live_worker.simps [of t s] split: option.splits)
    show ?case
    proof (cases "table_get p t = None")
      case False
      then have "pid = p" "s' = s1" using S "1.prems" by (auto simp: pick_live_worker.simps [of t s])
      moreover from pick_worker_split [OF S] obtain ws1 w ws2 where "cs_workers s = ws1 @ w # ws2" "p = wi_pid w"
        "s1 = s\<lparr>cs_workers := ws1 @ bump_in_flight w # ws2\<rparr>" "\<forall>w' \<in> set ws1. worker_key w < worker_key w'" "\<forall>w' \<in> set ws2. worker_key w \<le> worker_key w'"
        by metis
      ultimately show ?thesis using False
        by (intro exI [of _ ws1] exI [of _ w] exI [of _ ws2] exI [of _ "{}"]) (auto simp: less_imp_le)
    next
      case True
      let ?s = "retire_worker p s1"
      have s: "?s = s\<lparr>cs_workers := filter (\<lambda>w. wi_pid w \<noteq> p) (cs_workers s)\<rparr>" using retire_picked [OF S] by (simp add: remove_worker_by_pid_def)
      have "pick_live_worker t ?s = (Some pid, s')" using "1.prems" S True by (simp add: pick_live_worker.simps [of t s])
      from "1.IH" [OF S refl _ this] True obtain ws1 w ws2 dead where i: "s' = ?s\<lparr>cs_workers := ws1 @ bump_in_flight w # ws2\<rparr>"
        "pid = wi_pid w" "table_get pid t \<noteq> None" "ws1 @ w # ws2 = filter (\<lambda>w. wi_pid w \<notin> dead) (cs_workers ?s)" "\<forall>p \<in> dead. table_get p t = None"
        "\<forall>w' \<in> set (cs_workers ?s). table_get (wi_pid w') t \<noteq> None \<longrightarrow> worker_key w \<le> worker_key w'" by auto
      have "ws1 @ w # ws2 = filter (\<lambda>w. wi_pid w \<notin> insert p dead) (cs_workers s)"
        using i(4) by (simp add: s conj_commute)
      then show ?thesis using i True
        by (intro exI [of _ ws1] exI [of _ w] exI [of _ ws2] exI [of _ "insert p dead"]) (auto simp: s)
    qed
  qed
  then show thesis using that by blast
qed

text \<open>
  C31: the scheduler is least-loaded. \<open>pick_live_worker\<close> always returns: with nothing exactly when no registered worker is
  alive, and then the pool is empty; otherwise with a live worker whose load score (then count of completed tasks) is
  minimal among all live workers. Of the other entries it removes only dead ones, and it counts the new task on the entry it picked.
\<close>

theorem least_loaded_exact:
  "case pick_live_worker t s of
     (None, s') \<Rightarrow> cs_workers s' = [] \<and> (\<forall>w \<in> set (cs_workers s). table_get (wi_pid w) t = None)
   | (Some pid, s') \<Rightarrow>
       (\<exists>ws1 w ws2. cs_workers s' = ws1 @ bump_in_flight w # ws2 \<and> pid = wi_pid w \<and> table_get pid t \<noteq> None
          \<and> subseq (ws1 @ w # ws2) (cs_workers s)
          \<and> filter (\<lambda>w. table_get (wi_pid w) t \<noteq> None) (ws1 @ w # ws2) = filter (\<lambda>w. table_get (wi_pid w) t \<noteq> None) (cs_workers s)
          \<and> (\<forall>w' \<in> set (cs_workers s). table_get (wi_pid w') t \<noteq> None \<longrightarrow> (load_score w, wi_completed w) \<le> (load_score w', wi_completed w')))"
proof (cases "pick_live_worker t s")
  case (Pair r s')
  show ?thesis
  proof (cases r)
    case None
    with Pair pick_live_worker_None show ?thesis by simp
  next
    case (Some pid)
    with Pair have p: "pick_live_worker t s = (Some pid, s')" by simp
    obtain ws1 w ws2 dead where e: "s' = s\<lparr>cs_workers := ws1 @ bump_in_flight w # ws2\<rparr>" "pid = wi_pid w" "table_get pid t \<noteq> None"
      "ws1 @ w # ws2 = filter (\<lambda>w. wi_pid w \<notin> dead) (cs_workers s)" "\<forall>p \<in> dead. table_get p t = None"
      "\<forall>w' \<in> set (cs_workers s). table_get (wi_pid w') t \<noteq> None \<longrightarrow> worker_key w \<le> worker_key w'"
      by (rule pick_live_worker_Some [OF p])
    have a: "filter (\<lambda>w. table_get (wi_pid w) t \<noteq> None) (ws1 @ w # ws2) = filter (\<lambda>w. table_get (wi_pid w) t \<noteq> None) (cs_workers s)"
      unfolding e(4) using e(5) by (auto intro: filter_cong)
    have b: "subseq (ws1 @ w # ws2) (cs_workers s)" unfolding e(4) by (rule subseq_filter_left)
    have c: "cs_workers s' = ws1 @ bump_in_flight w # ws2" using e(1) by simp
    show ?thesis unfolding p prod.case option.case
      by (intro exI [of _ ws1] exI [of _ w] exI [of _ ws2] conjI a b c e(2,3) e(6) [unfolded worker_key_def])
  qed
qed

section \<open>Executions\<close>

fun msg_token :: "'v coord_msg \<Rightarrow> nat list" where
  "msg_token (CmRegister _ _ tx) = [tx]"
| "msg_token (CmUnregister _ tx) = [tx]"
| "msg_token (CmSubmit _ tx _) = [tx]"
| "msg_token (CmListWorkers tx) = [tx]"
| "msg_token (CmWorkerCount tx) = [tx]"
| "msg_token CmShutdown = []"

fun complete_token :: "'v task_complete \<Rightarrow> nat list" where
  "complete_token (TcFailed _ _ tx _ _) = [tx]"
| "complete_token _ = []"

text \<open>
  The coordinator with its clients, collectors and environment. Each request carries a fresh token, so the requests accepted
  so far are those below \<open>cr_next\<close>; \<open>cr_registered\<close> records the workers whose registration was requested.
\<close>

record ('c, 'h, 'v) coord_run =
  cr_state :: "'v coord_state"
  cr_world :: "('c, 'h, 'v) coord_world"
  cr_msgs :: "'v coord_msg list"
  cr_closed :: bool
  cr_ended :: bool
  cr_next :: nat
  cr_registered :: "process_id list"

definition coord_run_new :: "usize \<Rightarrow> ('c, 'h) process_table \<Rightarrow> ('c, 'h, 'v) coord_run" where
  "coord_run_new max_workers t =
     \<lparr>cr_state = coord_state_new max_workers,
      cr_world = \<lparr>cw_table = t, cw_collectors = [], cw_completions = [], cw_replies = [], cw_hooks = []\<rparr>,
      cr_msgs = [], cr_closed = False, cr_ended = False, cr_next = 0, cr_registered = []\<rparr>"

fun msg_registers :: "'v coord_msg \<Rightarrow> process_id list" where
  "msg_registers (CmRegister pid _ _) = [pid]"
| "msg_registers _ = []"

text \<open>The steps that move a dispatched task: a collector ends, or the coordinator handles completions.\<close>

inductive coord_internal ::
  "('v message, 'c) mpsc \<Rightarrow> 'v rmpv \<Rightarrow> ('c, 'h, 'v) coord_run \<Rightarrow> ('c, 'h, 'v) coord_run \<Rightarrow> bool" for M V where
  collects: "cw_collectors (cr_world r) = xs @ c # ys \<Longrightarrow>
     coord_internal M V r (r\<lparr>cr_world := collector_finish M V (\<not> cr_ended r) elapsed outcome c ((cr_world r)\<lparr>cw_collectors := xs @ ys\<rparr>)\<rparr>)"
| drains: "\<not> cr_ended r \<Longrightarrow> cw_completions (cr_world r) \<noteq> [] \<Longrightarrow> coord_drain M V (cr_state r, cr_world r) = (s, w) \<Longrightarrow>
     coord_internal M V r (r\<lparr>cr_state := s, cr_world := w\<rparr>)"
| completes: "\<not> cr_ended r \<Longrightarrow> cw_completions (cr_world r) \<noteq> [] \<Longrightarrow>
     coord_select M V (cr_closed r) (cr_msgs r) (cr_state r, cr_world r) = Goes (s, w) ms \<Longrightarrow>
     coord_internal M V r (r\<lparr>cr_state := s, cr_world := w, cr_msgs := ms\<rparr>)"

inductive coord_step ::
  "('v message, 'c) mpsc \<Rightarrow> 'v rmpv \<Rightarrow> ('c, 'h, 'v) coord_run \<Rightarrow> ('c, 'h, 'v) coord_run \<Rightarrow> bool" for M V where
  request: "\<not> cr_closed r \<Longrightarrow> msg_token m = [cr_next r] \<Longrightarrow> coord_request (\<not> cr_ended r) m (cr_msgs r) = (Inr (), ms) \<Longrightarrow>
     coord_step M V r (r\<lparr>cr_msgs := ms, cr_next := cr_next r + 1, cr_registered := cr_registered r @ msg_registers m\<rparr>)"
| shutdown: "\<not> cr_closed r \<Longrightarrow> coord_step M V r (r\<lparr>cr_msgs := coord_shutdown (\<not> cr_ended r) (cr_msgs r)\<rparr>)"
| dropped: "coord_step M V r (r\<lparr>cr_closed := True\<rparr>)"
| environment: "coord_step M V r (r\<lparr>cr_world := (cr_world r)\<lparr>cw_table := t\<rparr>\<rparr>)"
| internal: "coord_internal M V r r' \<Longrightarrow> coord_step M V r r'"
| command: "\<not> cr_ended r \<Longrightarrow> cw_completions (cr_world r) = [] \<Longrightarrow>
     coord_select M V (cr_closed r) (cr_msgs r) (cr_state r, cr_world r) = Goes (s, w) ms \<Longrightarrow>
     coord_step M V r (r\<lparr>cr_state := s, cr_world := w, cr_msgs := ms\<rparr>)"
| ends: "\<not> cr_ended r \<Longrightarrow> coord_select M V (cr_closed r) (cr_msgs r) (cr_state r, cr_world r) = Ends (s, w) \<Longrightarrow>
     coord_step M V r (r\<lparr>cr_state := s, cr_world := w, cr_ended := True\<rparr>)"

section \<open>Every request is answered exactly once\<close>

definition held_tokens :: "('c, 'h, 'v) coord_world \<Rightarrow> nat multiset" where
  "held_tokens w = mset (map co_reply (cw_collectors w)) + mset (concat (map complete_token (cw_completions w)))
     + mset (map fst (cw_replies w))"

text \<open>The work that dispatched tasks still are: a collector may have to hand its task over, which may be dispatched once more.\<close>

fun complete_work :: "'v task_complete \<Rightarrow> nat" where
  "complete_work (TcFailed _ _ _ _ remaining) = 2 * remaining + 1"
| "complete_work _ = 1"

definition coord_work :: "('c, 'h, 'v) coord_world \<Rightarrow> nat" where
  "coord_work w = sum_list (map (\<lambda>c. 2 * co_remaining c + 2) (cw_collectors w)) + sum_list (map complete_work (cw_completions w))"

lemma world_updates [simp]:
  "held_tokens (w\<lparr>cw_table := t\<rparr>) = held_tokens w" "held_tokens (w\<lparr>cw_hooks := h\<rparr>) = held_tokens w"
  "coord_work (w\<lparr>cw_table := t\<rparr>) = coord_work w" "coord_work (w\<lparr>cw_hooks := h\<rparr>) = coord_work w"
  "coord_work (w\<lparr>cw_replies := rs\<rparr>) = coord_work w"
  by (simp_all add: held_tokens_def coord_work_def)

lemma send_reply_world [simp]:
  "held_tokens (send_reply tx r w) = add_mset tx (held_tokens w)" "coord_work (send_reply tx r w) = coord_work w"
  "cw_completions (send_reply tx r w) = cw_completions w" "cw_collectors (send_reply tx r w) = cw_collectors w"
  by (simp_all add: send_reply_def held_tokens_def)

lemma send_completion_world [simp]:
  "held_tokens (send_completion True tc w) = mset (complete_token tc) + held_tokens w"
  "coord_work (send_completion True tc w) = complete_work tc + coord_work w"
  "cw_completions (send_completion True tc w) = cw_completions w @ [tc]" "cw_collectors (send_completion up tc w) = cw_collectors w"
  by (simp_all add: send_completion_def held_tokens_def coord_work_def)

lemma cleanup_collector_world [simp]:
  "held_tokens (cleanup_collector M V pid w) = held_tokens w" "coord_work (cleanup_collector M V pid w) = coord_work w"
  "cw_completions (cleanup_collector M V pid w) = cw_completions w" "cw_collectors (cleanup_collector M V pid w) = cw_collectors w"
  by (simp_all add: cleanup_collector_def split: prod.splits)

text \<open>A dispatch either answers its token or gives it to one new collector with fewer attempts left.\<close>

lemma dispatch_task_world:
  assumes "dispatch_task M V task tx timeout n (s, w) = (s', w')"
  shows "cw_completions w' = cw_completions w
    \<and> (cw_collectors w' = cw_collectors w \<and> (\<exists>r. cw_replies w' = cw_replies w @ [(tx, SubmitReply r)])
      \<or> (\<exists>c. cw_collectors w' = cw_collectors w @ [c] \<and> co_reply c = tx \<and> co_remaining c < n \<and> cw_replies w' = cw_replies w))"
  using assms
proof (induction n arbitrary: s w)
  case 0
  then show ?case by (auto simp: send_reply_def)
next
  case (Suc n)
  obtain p s1 where p: "pick_live_worker (cw_table w) s = (p, s1)" by (cases "pick_live_worker (cw_table w) s")
  show ?case
  proof (cases p)
    case None
    with Suc.prems p show ?thesis by (auto simp: send_reply_def)
  next
    case (Some worker)
    obtain rp t1 where a: "allocate_pid (cw_table w) = (rp, t1)" by (cases "allocate_pid (cw_table w)")
    obtain r t3 where l: "local_route M (process_id_new 0 0) worker (task_message V task rp) (table_insert rp (mailbox_unbounded M) t1) = Some (r, t3)"
      by (auto simp: local_route_def Let_def) (metis surj_pair)
    show ?thesis
    proof (cases r)
      case (Inl e)
      with Suc.prems p Some a l have "dispatch_task M V task tx timeout n (retire_worker worker s1, cleanup_collector M V rp (w\<lparr>cw_table := t3\<rparr>)) = (s', w')"
        by simp
      from Suc.IH [OF this] show ?thesis
        by (simp add: cleanup_collector_def less_SucI split: prod.splits) (metis less_SucI)
    next
      case (Inr u)
      with Suc.prems p Some a l show ?thesis by auto
    qed
  qed
qed

lemma dispatch_task_tokens:
  assumes "dispatch_task M V task tx timeout n (s, w) = (s', w')"
  shows "held_tokens w' = add_mset tx (held_tokens w)" and "coord_work w' \<le> coord_work w + 2 * n"
    and "cw_completions w' = cw_completions w" and "length (cw_collectors w') \<le> length (cw_collectors w) + 1"
  using dispatch_task_world [OF assms] by (auto simp: held_tokens_def coord_work_def)

lemma handle_complete_tokens:
  assumes "handle_complete M V tc (s, w) = (s', w')"
  shows "held_tokens w' = mset (complete_token tc) + held_tokens w" and "coord_work w' < coord_work w + complete_work tc"
    and "cw_completions w' = cw_completions w" and "length (cw_collectors w') \<le> length (cw_collectors w) + 1"
proof -
  have "held_tokens w' = mset (complete_token tc) + held_tokens w \<and> coord_work w' < coord_work w + complete_work tc
    \<and> cw_completions w' = cw_completions w \<and> length (cw_collectors w') \<le> length (cw_collectors w) + 1"
  proof (cases tc)
    case (TcFailed worker task tx timeout n)
    with assms have "dispatch_task M V task tx timeout n (retire_worker worker s, w) = (s', w')" by simp
    from dispatch_task_tokens [OF this] TcFailed show ?thesis by simp
  qed (use assms in auto)
  then show "held_tokens w' = mset (complete_token tc) + held_tokens w" and "coord_work w' < coord_work w + complete_work tc"
    and "cw_completions w' = cw_completions w" and "length (cw_collectors w') \<le> length (cw_collectors w) + 1" by simp_all
qed

lemma fold_complete_tokens:
  "fold (handle_complete M V) tcs (s, w) = (s', w') \<Longrightarrow>
     held_tokens w' = mset (concat (map complete_token tcs)) + held_tokens w
   \<and> coord_work w' + length tcs \<le> coord_work w + sum_list (map complete_work tcs)
   \<and> cw_completions w' = cw_completions w \<and> length (cw_collectors w') \<le> length (cw_collectors w) + length tcs"
proof (induction tcs arbitrary: s w)
  case (Cons tc tcs)
  obtain s1 w1 where h: "handle_complete M V tc (s, w) = (s1, w1)" by (cases "handle_complete M V tc (s, w)")
  with Cons.prems have "fold (handle_complete M V) tcs (s1, w1) = (s', w')" by simp
  from Cons.IH [OF this] handle_complete_tokens [OF h] show ?case by simp
qed simp

text \<open>The tasks in flight: collectors that run and completions not yet handled.\<close>

abbreviation in_motion :: "('c, 'h, 'v) coord_world \<Rightarrow> nat" where
  "in_motion w \<equiv> length (cw_collectors w) + length (cw_completions w)"

lemma world_split:
  "cw_completions w = tcs \<Longrightarrow> held_tokens w = mset (concat (map complete_token tcs)) + held_tokens (w\<lparr>cw_completions := []\<rparr>)"
  "cw_completions w = tcs \<Longrightarrow> coord_work w = sum_list (map complete_work tcs) + coord_work (w\<lparr>cw_completions := []\<rparr>)"
  "cw_completions w = tc # tcs \<Longrightarrow> held_tokens w = mset (complete_token tc) + held_tokens (w\<lparr>cw_completions := tcs\<rparr>)"
  "cw_completions w = tc # tcs \<Longrightarrow> coord_work w = complete_work tc + coord_work (w\<lparr>cw_completions := tcs\<rparr>)"
  "cw_collectors w = xs @ c # ys \<Longrightarrow> held_tokens w = add_mset (co_reply c) (held_tokens (w\<lparr>cw_collectors := xs @ ys\<rparr>))"
  "cw_collectors w = xs @ c # ys \<Longrightarrow> coord_work w = 2 * co_remaining c + 2 + coord_work (w\<lparr>cw_collectors := xs @ ys\<rparr>)"
  by (simp_all add: held_tokens_def coord_work_def)

lemma collector_finish_tokens:
  "held_tokens (collector_finish M V True elapsed outcome c w) = add_mset (co_reply c) (held_tokens w)"
  "coord_work (collector_finish M V True elapsed outcome c w) < 2 * co_remaining c + 2 + coord_work w"
  "in_motion (collector_finish M V True elapsed outcome c w) = in_motion w + 1"
  by (cases outcome; simp add: collector_finish_def Let_def)+

lemma coord_internal_tokens:
  assumes "coord_internal M V r r'" and "\<not> cr_ended r"
  shows "held_tokens (cr_world r') = held_tokens (cr_world r) \<and> coord_work (cr_world r') < coord_work (cr_world r)
    \<and> in_motion (cr_world r') \<le> in_motion (cr_world r)
    \<and> cr_msgs r' = cr_msgs r \<and> cr_next r' = cr_next r \<and> cr_ended r' = cr_ended r \<and> cr_closed r' = cr_closed r"
  using assms
proof cases
  case (collects xs c ys elapsed outcome)
  let ?w = "(cr_world r)\<lparr>cw_collectors := xs @ ys\<rparr>"
  show ?thesis using collects assms(2) collector_finish_tokens [of M V elapsed outcome c ?w] world_split(5,6) [OF collects(2)] by simp
next
  case (drains s w)
  then have "fold (handle_complete M V) (cw_completions (cr_world r)) (cr_state r, (cr_world r)\<lparr>cw_completions := []\<rparr>) = (s, w)"
    by (simp add: coord_drain_def)
  from fold_complete_tokens [OF this] drains world_split(1,2) [OF refl, of "cr_world r"] show ?thesis
    by (cases "cw_completions (cr_world r)") auto
next
  case (completes s w ms)
  then obtain tc tcs where c: "cw_completions (cr_world r) = tc # tcs" by (cases "cw_completions (cr_world r)") auto
  with completes have h: "handle_complete M V tc (cr_state r, (cr_world r)\<lparr>cw_completions := tcs\<rparr>) = (s, w)" "ms = cr_msgs r"
    by (auto simp: coord_select_def)
  from handle_complete_tokens [OF h(1)] completes(1) c h(2) world_split(3,4) [OF c] show ?thesis by simp
qed

lemma handle_coord_msg_tokens:
  assumes "handle_coord_msg M V m (s, w) = (stop, s', w')"
  shows "held_tokens w' = mset (msg_token m) + held_tokens w" and "stop \<longleftrightarrow> m = CmShutdown"
    and "coord_work w' \<le> coord_work w + 2 * length (cs_workers s)" and "in_motion w' \<le> in_motion w + length (msg_token m)"
proof -
  have "held_tokens w' = mset (msg_token m) + held_tokens w \<and> (stop \<longleftrightarrow> m = CmShutdown)
    \<and> coord_work w' \<le> coord_work w + 2 * length (cs_workers s) \<and> in_motion w' \<le> in_motion w + length (msg_token m)"
  proof (cases m)
    case (CmSubmit task tx timeout)
    with assms have "dispatch_task M V task tx timeout (length (cs_workers s)) (s, w) = (s', w')" by simp
    from dispatch_task_tokens [OF this] CmSubmit assms show ?thesis by simp
  qed (use assms in \<open>auto split: prod.splits\<close>)
  then show "held_tokens w' = mset (msg_token m) + held_tokens w" and "stop \<longleftrightarrow> m = CmShutdown"
    and "coord_work w' \<le> coord_work w + 2 * length (cs_workers s)" and "in_motion w' \<le> in_motion w + length (msg_token m)" by simp_all
qed

lemma coord_select_command:
  assumes "coord_select M V cl msgs (s, w) = Goes (s', w') ms" and "cw_completions w = []"
  obtains m where "msgs = m # ms" and "handle_coord_msg M V m (s, w) = (False, s', w')"
proof (cases msgs)
  case Nil
  with assms show thesis by (simp add: coord_select_def split: if_splits)
next
  case (Cons m ms')
  obtain stop sw where h: "handle_coord_msg M V m (s, w) = (stop, sw)" by (cases "handle_coord_msg M V m (s, w)")
  with assms Cons have "\<not> stop" "sw = (s', w')" "ms' = ms" by (auto simp: coord_select_def split: if_splits)
  with h Cons that show thesis by simp
qed

lemma coord_select_ends:
  assumes "coord_select M V cl msgs (s, w) = Ends (s', w')"
  shows "\<exists>ms. msgs = CmShutdown # ms"
proof -
  from assms obtain m ms stop where "msgs = m # ms" "handle_coord_msg M V m (s, w) = (True, s', w')"
    by (auto simp: coord_select_def complete_senders_def split: list.splits prod.splits if_splits)
  with handle_coord_msg_tokens(2) show ?thesis by blast
qed

definition queued_tokens :: "('c, 'h, 'v) coord_run \<Rightarrow> nat multiset" where
  "queued_tokens r = mset (concat (map msg_token (cr_msgs r)))"

definition tokens_ok :: "('c, 'h, 'v) coord_run \<Rightarrow> bool" where
  "tokens_ok r \<longleftrightarrow> cr_ended r
     \<or> queued_tokens r + held_tokens (cr_world r) = mset [0..<cr_next r] \<and> in_motion (cr_world r) + size (queued_tokens r) \<le> cr_next r"

lemma coord_step_tokens:
  assumes "coord_step M V r r'" and "tokens_ok r"
  shows "tokens_ok r'"
  using assms
proof cases
  case (request m ms)
  with assms(2) show ?thesis by (auto simp: tokens_ok_def queued_tokens_def coord_request_def split: if_splits)
next
  case shutdown
  with assms(2) show ?thesis by (auto simp: tokens_ok_def queued_tokens_def coord_shutdown_def)
next
  case internal
  show ?thesis
  proof (cases "cr_ended r")
    case True
    with internal have "cr_ended r'" by (auto elim: coord_internal.cases)
    then show ?thesis by (simp add: tokens_ok_def)
  next
    case False
    with coord_internal_tokens [OF internal] assms(2) show ?thesis by (simp add: tokens_ok_def queued_tokens_def)
  qed
next
  case (command s w ms)
  from coord_select_command [OF command(4,3)] obtain m where m: "cr_msgs r = m # ms" "handle_coord_msg M V m (cr_state r, cr_world r) = (False, s, w)"
    by metis
  from handle_coord_msg_tokens [OF m(2)] command(1,2) m(1) assms(2) show ?thesis by (auto simp: tokens_ok_def queued_tokens_def ac_simps)
qed (use assms(2) in \<open>auto simp: tokens_ok_def queued_tokens_def\<close>)

interpretation ct: transition_invariant "coord_step M V" tokens_ok for M V
  by unfold_locales (rule coord_step_tokens)

lemma tokens_ok_new: "tokens_ok (coord_run_new n t)"
  by (simp add: tokens_ok_def queued_tokens_def held_tokens_def coord_run_new_def)

lemma coord_reach_tokens: "(coord_step M V)\<^sup>*\<^sup>* (coord_run_new n t) r \<Longrightarrow> tokens_ok r"
  by (rule ct.reach_inv [OF _ tokens_ok_new])

lemma coord_work_progress:
  assumes "\<not> cr_ended r" and "0 < coord_work (cr_world r)"
  shows "\<exists>r'. coord_internal M V r r'"
proof (cases "cw_completions (cr_world r)")
  case Nil
  with assms(2) obtain c cs where "cw_collectors (cr_world r) = [] @ c # cs" by (cases "cw_collectors (cr_world r)") (auto simp: coord_work_def)
  from coord_internal.collects [OF this] show ?thesis by blast
next
  case (Cons tc tcs)
  obtain s w where "coord_drain M V (cr_state r, cr_world r) = (s, w)" by (cases "coord_drain M V (cr_state r, cr_world r)")
  from coord_internal.drains [OF assms(1) _ this] Cons show ?thesis by (metis list.distinct(1))
qed

lemma complete_work_pos [simp]: "complete_work tc \<noteq> 0"
  by (cases tc) simp_all

interpretation cwk: working_system "coord_internal M V" "\<lambda>r. \<not> cr_ended r \<and> tokens_ok r \<and> queued_tokens r = q \<and> cr_next r = n"
  "\<lambda>r. coord_work (cr_world r)" for M V q n
  by unfold_locales
     (use coord_work_progress in \<open>auto simp: tokens_ok_def queued_tokens_def dest!: coord_internal_tokens\<close>)

lemma coord_work_0: "coord_work w = 0 \<Longrightarrow> held_tokens w = mset (map fst (cw_replies w))"
  by (cases "cw_completions w"; cases "cw_collectors w") (simp_all add: coord_work_def held_tokens_def)

text \<open>
  C6: every request a running coordinator accepts is answered exactly once, whatever its clients, its workers and the other
  processes of the node do. At any time each accepted request is in the queue, with one collector, in the completion channel or
  answered, and in one of these places only. Ending collectors and handled completions use up a finite amount of work: no more
  such steps follow each other than there is work, they can be taken until none is possible, and however they are taken,
  when none is possible every request taken from the queue has been answered. Taking a request from the queue adds at most two units of work per registered worker.
\<close>

theorem coordinator_answers_once:
  assumes "(coord_step M V)\<^sup>*\<^sup>* (coord_run_new max_workers t) r" and "\<not> cr_ended r"
  shows "queued_tokens r + held_tokens (cr_world r) = mset [0..<cr_next r]
    \<and> (\<forall>n r'. (coord_internal M V ^^ n) r r' \<longrightarrow> n \<le> coord_work (cr_world r))
    \<and> (\<exists>r'. (coord_internal M V)\<^sup>*\<^sup>* r r' \<and> (\<forall>r''. \<not> coord_internal M V r' r''))
    \<and> (\<forall>r'. (coord_internal M V)\<^sup>*\<^sup>* r r' \<longrightarrow> (\<forall>r''. \<not> coord_internal M V r' r'') \<longrightarrow>
         queued_tokens r + mset (map fst (cw_replies (cr_world r'))) = mset [0..<cr_next r])
    \<and> (\<forall>m stop s w. handle_coord_msg M V m (cr_state r, cr_world r) = (stop, s, w) \<longrightarrow>
         coord_work w \<le> coord_work (cr_world r) + 2 * length (cs_workers (cr_state r)))"
proof -
  let ?ok = "\<lambda>r'. \<not> cr_ended r' \<and> tokens_ok r' \<and> queued_tokens r' = queued_tokens r \<and> cr_next r' = cr_next r"
  have ok: "?ok r" using coord_reach_tokens [OF assms(1)] assms(2) by simp
  have "queued_tokens r + mset (map fst (cw_replies (cr_world r'))) = mset [0..<cr_next r]"
    if "(coord_internal M V)\<^sup>*\<^sup>* r r'" and "\<forall>r''. \<not> coord_internal M V r' r''" for r'
  proof -
    have ok': "?ok r'" by (rule cwk.reach_inv [OF that(1) ok])
    then have "coord_work (cr_world r') = 0" using cwk.stuck_finished that(2) by blast
    with ok' coord_work_0 show ?thesis by (metis tokens_ok_def)
  qed
  moreover have "\<exists>r'. (coord_internal M V)\<^sup>*\<^sup>* r r' \<and> (\<forall>r''. \<not> coord_internal M V r' r'')"
    using cwk.finishes [OF ok] cwk.works by (metis not_less_zero)
  moreover have "n \<le> coord_work (cr_world r)" if "(coord_internal M V ^^ n) r r'" for n r'
    using cwk.run_length [OF that ok] by simp
  moreover have "coord_work w \<le> coord_work (cr_world r) + 2 * length (cs_workers (cr_state r))"
    if "handle_coord_msg M V m (cr_state r, cr_world r) = (stop, s, w)" for m stop s w
    using handle_coord_msg_tokens(3) [OF that] .
  ultimately show ?thesis using ok by (auto simp: tokens_ok_def)
qed

section \<open>The bookkeeping of the pool\<close>

fun complete_pid :: "'v task_complete \<Rightarrow> process_id" where
  "complete_pid (TcOk pid _) = pid"
| "complete_pid (TcFailed pid _ _ _ _) = pid"
| "complete_pid (TcRetire pid) = pid"

text \<open>The tasks that were sent to a process and whose completion was not yet handled.\<close>

definition sent_to :: "process_id \<Rightarrow> ('c, 'h, 'v) coord_world \<Rightarrow> nat" where
  "sent_to pid w = length (filter (\<lambda>c. co_worker c = pid) (cw_collectors w)) + length (filter (\<lambda>tc. complete_pid tc = pid) (cw_completions w))"

definition worker_ok :: "'v coord_state \<Rightarrow> (process_id \<Rightarrow> nat) \<Rightarrow> 'v worker_info \<Rightarrow> bool" where
  "worker_ok s n w \<longleftrightarrow> wi_id w \<le> cs_next_id s \<and> wi_avg_response_us w \<le> MAX_AVG_RESPONSE_US \<and> unat (wi_in_flight w) = n (wi_pid w)"

definition pool_ok :: "'v coord_state \<Rightarrow> (process_id \<Rightarrow> nat) \<Rightarrow> bool" where
  "pool_ok s n \<longleftrightarrow> distinct (map wi_id (cs_workers s)) \<and> distinct (map wi_pid (cs_workers s))
     \<and> (cs_max_workers s > 0 \<longrightarrow> length (cs_workers s) \<le> cs_max_workers s) \<and> (\<forall>w \<in> set (cs_workers s). worker_ok s n w)"

lemma worker_ok_update [simp]: "worker_ok (s\<lparr>cs_workers := ws\<rparr>) n w = worker_ok s n w"
  by (simp add: worker_ok_def)

lemma pool_okD:
  assumes "pool_ok s n"
  shows "distinct (map wi_id (cs_workers s))" and "distinct (map wi_pid (cs_workers s))"
    and "\<And>w. w \<in> set (cs_workers s) \<Longrightarrow> worker_ok s n w" and "cs_max_workers s > 0 \<Longrightarrow> length (cs_workers s) \<le> cs_max_workers s"
  using assms by (auto simp: pool_ok_def)

text \<open>Replacing one entry of the pool: the counter may only change for the process of that entry.\<close>

lemma pool_ok_replace:
  assumes "pool_ok s n" and "cs_workers s = ws1 @ w # ws2" and "wi_id w' = wi_id w" and "wi_pid w' = wi_pid w"
    and "worker_ok s n' w'" and "\<And>p. p \<noteq> wi_pid w \<Longrightarrow> n' p = n p"
  shows "pool_ok (s\<lparr>cs_workers := ws1 @ w' # ws2\<rparr>) n'"
proof -
  have "worker_ok s n' v" if v: "v \<in> set ws1 \<union> set ws2" for v
  proof -
    have "worker_ok s n v" by (rule pool_okD(3) [OF assms(1)]) (use v assms(2) in auto)
    moreover have "wi_pid w \<notin> wi_pid ` (set ws1 \<union> set ws2)" using pool_okD(2) [OF assms(1)] by (simp add: assms(2) image_Un)
    then have "wi_pid v \<noteq> wi_pid w" using v by (metis image_eqI)
    ultimately show ?thesis using assms(6) by (simp add: worker_ok_def)
  qed
  then have "\<forall>v \<in> set (ws1 @ w' # ws2). worker_ok s n' v" using assms(5) by auto
  then show ?thesis using pool_okD(1,2,4) [OF assms(1)] assms(2-4) by (simp add: pool_ok_def)
qed

lemma pool_ok_remove:
  assumes "pool_ok s n" and "\<And>p. p \<noteq> pid \<Longrightarrow> n' p = n p"
  shows "pool_ok (remove_worker_by_pid pid s) n'"
proof -
  note ok = pool_okD [OF assms(1)]
  have "length (filter P (cs_workers s)) \<le> cs_max_workers s" if "cs_max_workers s > 0" for P
    using ok(4) [OF that] length_filter_le le_trans by blast
  moreover have "worker_ok (remove_worker_by_pid pid s) n' w" if "w \<in> set (cs_workers s)" "wi_pid w \<noteq> pid" for w
    using ok(3) [OF that(1)] assms(2) [OF that(2)] by (simp add: worker_ok_def remove_worker_by_pid_def)
  ultimately show ?thesis using ok(1,2) by (simp add: pool_ok_def remove_worker_by_pid_def distinct_map_filter)
qed

lemma pool_ok_retire: "pool_ok s n \<Longrightarrow> (\<And>p. p \<noteq> pid \<Longrightarrow> n' p = n p) \<Longrightarrow> pool_ok (retire_worker pid s) n'"
proof -
  assume *: "pool_ok s n" "\<And>p. p \<noteq> pid \<Longrightarrow> n' p = n p"
  have "retire_worker pid s = remove_worker_by_pid pid s"
    using retire_worker_workers [of pid s] by (simp add: retire_worker_def remove_worker_by_pid_def)
  then show ?thesis using pool_ok_remove [OF *] by simp
qed

lemma pool_ok_filter:
  assumes "pool_ok s n"
  shows "pool_ok (s\<lparr>cs_workers := filter P (cs_workers s)\<rparr>) n"
proof -
  note ok = pool_okD [OF assms(1)]
  have "length (filter P (cs_workers s)) \<le> cs_max_workers s" if "cs_max_workers s > 0"
    using ok(4) [OF that] length_filter_le le_trans by blast
  moreover have "worker_ok (s\<lparr>cs_workers := ws\<rparr>) n w" if "w \<in> set (cs_workers s)" for w ws
    using ok(3) [OF that] by (simp add: worker_ok_def)
  ultimately show ?thesis using ok(1,2) by (simp add: pool_ok_def distinct_map_filter)
qed

lemma pool_ok_pick:
  assumes "pool_ok s n" and "pick_live_worker t s = (Some pid, s')" and "n pid < 2 ^ 64 - 1"
  shows "pool_ok s' (n(pid := n pid + 1))"
proof -
  from pick_live_worker_Some [OF assms(2)] obtain ws1 w ws2 dead where e: "s' = s\<lparr>cs_workers := ws1 @ bump_in_flight w # ws2\<rparr>"
    "pid = wi_pid w" "ws1 @ w # ws2 = filter (\<lambda>w. wi_pid w \<notin> dead) (cs_workers s)" by metis
  let ?s = "s\<lparr>cs_workers := ws1 @ w # ws2\<rparr>"
  have ok: "pool_ok ?s n" unfolding e(3) by (rule pool_ok_filter [OF assms(1)])
  then have w: "worker_ok ?s n w" by (simp add: pool_ok_def)
  then have "unat (wi_in_flight w) + 1 < 2 ^ 64" using assms(3) e(2) by (simp add: worker_ok_def)
  then have "unat (wi_in_flight w + 1) = unat (wi_in_flight w) + 1" by (simp add: unat_word_ariths)
  then have "pool_ok (?s\<lparr>cs_workers := ws1 @ bump_in_flight w # ws2\<rparr>) (n(pid := n pid + 1))"
    by (intro pool_ok_replace [OF ok, of ws1 w ws2]) (use w e(2) in \<open>auto simp: worker_ok_def bump_in_flight_def\<close>)
  then show ?thesis using e(1) by simp
qed

lemma pool_ok_gone:
  assumes "pick_live_worker t s = (None, s')"
  shows "pool_ok s' n"
  using pick_live_worker_None [OF assms] by (simp add: pool_ok_def)

lemma complete_worker_fields:
  "wi_id (complete_worker x w) = wi_id w" "wi_pid (complete_worker x w) = wi_pid w"
  "wi_in_flight (complete_worker x w) = u64_saturating_sub (wi_in_flight w) 1"
  "wi_avg_response_us (complete_worker x w) \<le> MAX_AVG_RESPONSE_US"
  by (simp_all add: complete_worker_def Let_def)

lemma pool_ok_complete:
  assumes "pool_ok s n" and "0 < n pid"
  shows "pool_ok (complete_task pid e s) (n(pid := n pid - 1))"
proof (cases "\<exists>w \<in> set (cs_workers s). wi_pid w = pid")
  case True
  obtain ws1 w ws2 where u: "cs_workers s = ws1 @ w # ws2" "wi_pid w = pid"
    "update_first (\<lambda>w. wi_pid w = pid) (complete_worker (max e 1)) (cs_workers s) = ws1 @ complete_worker (max e 1) w # ws2"
    by (rule update_first_split [OF True, where f = "complete_worker (max e 1)"])
  have "worker_ok s n w" using pool_okD(3) [OF assms(1)] u by simp
  then have "pool_ok (s\<lparr>cs_workers := ws1 @ complete_worker (max e 1) w # ws2\<rparr>) (n(pid := n pid - 1))"
    by (intro pool_ok_replace [OF assms(1) u(1)]) (use u(2) in \<open>auto simp: worker_ok_def complete_worker_fields unat_u64_saturating_sub\<close>)
  then show ?thesis by (simp only: complete_task_def Let_def u(3))
next
  case False
  then have "complete_task pid e s = s" by (simp add: complete_task_def update_first_none)
  moreover have "worker_ok s (n(pid := n pid - 1)) w" if "w \<in> set (cs_workers s)" for w
    using pool_okD(3) [OF assms(1) that] False that by (auto simp: worker_ok_def)
  ultimately show ?thesis using pool_okD(1,2,4) [OF assms(1)] by (simp add: pool_ok_def)
qed

lemma sent_to_le: "sent_to pid w \<le> in_motion w"
  by (simp add: sent_to_def add_mono)

lemma sent_to_world [simp]:
  "sent_to p (w\<lparr>cw_table := t\<rparr>) = sent_to p w" "sent_to p (send_reply tx r w) = sent_to p w"
  "sent_to p (cleanup_collector M V pid w) = sent_to p w"
  "sent_to p (send_completion True tc w) = sent_to p w + (if complete_pid tc = p then 1 else 0)"
  by (simp_all add: sent_to_def)

definition pool_pids :: "'v coord_state \<Rightarrow> process_id set" where
  "pool_pids s = wi_pid ` set (cs_workers s)"

lemma pool_pids_retire: "pool_pids (retire_worker pid s) \<subseteq> pool_pids s"
  by (auto simp: pool_pids_def)

lemma pool_pids_complete: "pool_pids (complete_task pid e s) = pool_pids s"
proof -
  have "map wi_pid (update_first P (complete_worker x) ws) = map wi_pid ws" for P x and ws :: "'a worker_info list"
    by (induction ws) (auto simp: complete_worker_fields)
  from this [of "\<lambda>w. wi_pid w = pid" "max e 1" "cs_workers s"] show ?thesis
    unfolding pool_pids_def complete_task_def Let_def by (metis coord_state.select_convs(1) coord_state.surjective coord_state.update_convs(1) list.set_map)
qed

lemma pick_live_worker_pids:
  assumes "pick_live_worker t s = (p, s')"
  shows "pool_pids s' \<subseteq> pool_pids s" and "\<And>pid. p = Some pid \<Longrightarrow> pid \<in> pool_pids s"
    and "cs_next_id s' = cs_next_id s \<or> p = None" 
proof -
  have "pool_pids s' \<subseteq> pool_pids s \<and> (\<forall>pid. p = Some pid \<longrightarrow> pid \<in> pool_pids s) \<and> (cs_next_id s' = cs_next_id s \<or> p = None)"
  proof (cases p)
    case None
    with assms pick_live_worker_None [of t s s'] show ?thesis by (simp add: pool_pids_def)
  next
    case (Some pid)
    from pick_live_worker_Some [OF assms [unfolded Some]] obtain ws1 w ws2 dead where e: "s' = s\<lparr>cs_workers := ws1 @ bump_in_flight w # ws2\<rparr>"
      "pid = wi_pid w" "ws1 @ w # ws2 = filter (\<lambda>w. wi_pid w \<notin> dead) (cs_workers s)" by metis
    have "wi_pid ` set (ws1 @ w # ws2) \<subseteq> pool_pids s" unfolding e(3) by (auto simp: pool_pids_def)
    then show ?thesis using e(1,2) Some by (auto simp: pool_pids_def bump_in_flight_def)
  qed
  then show "pool_pids s' \<subseteq> pool_pids s" and "\<And>pid. p = Some pid \<Longrightarrow> pid \<in> pool_pids s" and "cs_next_id s' = cs_next_id s \<or> p = None" by auto
qed

text \<open>\<open>k\<close> counts completions that are being drained and are no longer in the channel.\<close>

lemma dispatch_task_pool:
  assumes "dispatch_task M V task tx timeout n (s, w) = (s', w')" and "pool_ok s (\<lambda>p. sent_to p w + k p)"
    and "\<And>p. sent_to p w + k p < 2 ^ 64 - 1"
  shows "pool_ok s' (\<lambda>p. sent_to p w' + k p) \<and> pool_pids s' \<subseteq> pool_pids s
    \<and> (\<forall>p. sent_to p w' > 0 \<longrightarrow> sent_to p w > 0 \<or> p \<in> pool_pids s)"
  using assms
proof (induction n arbitrary: s w)
  case (Suc n)
  obtain p s1 where p: "pick_live_worker (cw_table w) s = (p, s1)" by (cases "pick_live_worker (cw_table w) s")
  note pids = pick_live_worker_pids [OF p]
  show ?case
  proof (cases p)
    case None
    with Suc.prems p pids(1) pool_ok_gone [of "cw_table w" s s1] show ?thesis by auto
  next
    case (Some worker)
    obtain rp t1 where a: "allocate_pid (cw_table w) = (rp, t1)" by (cases "allocate_pid (cw_table w)")
    obtain r t3 where l: "local_route M (process_id_new 0 0) worker (task_message V task rp) (table_insert rp (mailbox_unbounded M) t1) = Some (r, t3)"
      by (auto simp: local_route_def Let_def) (metis surj_pair)
    have b: "pool_ok s1 ((\<lambda>p. sent_to p w + k p)(worker := sent_to worker w + k worker + 1))"
      by (rule pool_ok_pick [OF Suc.prems(2) p [unfolded Some]]) (rule Suc.prems(3))
    show ?thesis
    proof (cases r)
      case (Inl e)
      let ?s = "retire_worker worker s1" and ?w = "cleanup_collector M V rp (w\<lparr>cw_table := t3\<rparr>)"
      have d: "dispatch_task M V task tx timeout n (?s, ?w) = (s', w')" using Inl Suc.prems p Some a l by simp
      have "pool_ok ?s (\<lambda>p. sent_to p ?w + k p)" by (rule pool_ok_retire [OF b]) simp
      from Suc.IH [OF d this] Suc.prems(3) have "pool_ok s' (\<lambda>p. sent_to p w' + k p) \<and> pool_pids s' \<subseteq> pool_pids ?s
          \<and> (\<forall>p. sent_to p w' > 0 \<longrightarrow> sent_to p w > 0 \<or> p \<in> pool_pids ?s)" by simp
      with pool_pids_retire [of worker s1] pids(1) show ?thesis by blast
    next
      case (Inr u)
      let ?c = "\<lparr>co_reply_pid = rp, co_worker = worker, co_task = task, co_reply = tx, co_timeout = timeout, co_remaining = n\<rparr>"
      from Inr Suc.prems(1) p Some a l have e: "s' = s1" "w' = w\<lparr>cw_table := t3, cw_collectors := cw_collectors w @ [?c]\<rparr>" by auto
      then have "(\<lambda>p. sent_to p w' + k p) = (\<lambda>p. sent_to p w + k p)(worker := sent_to worker w + k worker + 1)" by (auto simp: sent_to_def)
      moreover have "sent_to p w > 0 \<or> p \<in> pool_pids s" if "sent_to p w' > 0" for p
        using that pids(2) [OF Some] e(2) by (cases "p = worker") (auto simp: sent_to_def)
      ultimately show ?thesis using b e(1) pids(1) by simp
    qed
  qed
qed (auto simp: send_reply_def sent_to_def)

lemma handle_complete_pool:
  assumes "handle_complete M V tc (s, w) = (s', w')" and "pool_ok s (\<lambda>p. sent_to p w + k p + (if complete_pid tc = p then 1 else 0))"
    and "\<And>p. sent_to p w + k p < 2 ^ 64 - 1"
  shows "pool_ok s' (\<lambda>p. sent_to p w' + k p) \<and> pool_pids s' \<subseteq> pool_pids s
    \<and> (\<forall>p. sent_to p w' > 0 \<longrightarrow> sent_to p w > 0 \<or> p \<in> pool_pids s)"
proof (cases tc)
  case (TcOk pid e)
  let ?n = "\<lambda>p. sent_to p w + k p + (if complete_pid tc = p then 1 else 0)"
  have "?n(pid := ?n pid - 1) = (\<lambda>p. sent_to p w + k p)" using TcOk by auto
  with pool_ok_complete [OF assms(2), of pid e] TcOk assms(1) show ?thesis by (auto simp: pool_pids_complete)
next
  case (TcFailed pid task tx timeout n)
  have r: "pool_ok (retire_worker pid s) (\<lambda>p. sent_to p w + k p)" by (rule pool_ok_retire [OF assms(2)]) (use TcFailed in simp)
  have "dispatch_task M V task tx timeout n (retire_worker pid s, w) = (s', w')" using assms(1) TcFailed by simp
  from dispatch_task_pool [OF this r assms(3)] pool_pids_retire [of pid s] show ?thesis by blast
next
  case (TcRetire pid)
  have "pool_ok (retire_worker pid s) (\<lambda>p. sent_to p w + k p)" by (rule pool_ok_retire [OF assms(2)]) (use TcRetire in simp)
  then show ?thesis using assms(1) TcRetire pool_pids_retire [of pid s] by auto
qed

definition pid_count :: "'v task_complete list \<Rightarrow> process_id \<Rightarrow> nat" where
  "pid_count tcs p = length (filter (\<lambda>tc. complete_pid tc = p) tcs)"

lemma pid_count_simps [simp]:
  "pid_count [] p = 0" "pid_count (tc # tcs) p = pid_count tcs p + (if complete_pid tc = p then 1 else 0)"
  by (simp_all add: pid_count_def)

lemma fold_complete_pool:
  assumes "fold (handle_complete M V) tcs (s, w) = (s', w')" and "pool_ok s (\<lambda>p. sent_to p w + pid_count tcs p)"
    and "in_motion w + length tcs < 2 ^ 64"
  shows "pool_ok s' (\<lambda>p. sent_to p w') \<and> pool_pids s' \<subseteq> pool_pids s
    \<and> (\<forall>p. sent_to p w' > 0 \<longrightarrow> sent_to p w > 0 \<or> p \<in> pool_pids s)"
  using assms
proof (induction tcs arbitrary: s w)
  case (Cons tc tcs)
  obtain s1 w1 where h: "handle_complete M V tc (s, w) = (s1, w1)" by (cases "handle_complete M V tc (s, w)")
  have c: "sent_to p w + pid_count tcs p < 2 ^ 64 - 1" for p
    using sent_to_le [of p w] Cons.prems(3) [unfolded list.size(4)] length_filter_le [of "\<lambda>tc. complete_pid tc = p" tcs]
    unfolding pid_count_def by linarith
  have b: "pool_ok s (\<lambda>p. sent_to p w + pid_count tcs p + (if complete_pid tc = p then 1 else 0))"
    using Cons.prems(2) by (simp add: add.assoc)
  have "fold (handle_complete M V) tcs (s1, w1) = (s', w')" using h Cons.prems(1) by simp
  moreover have "in_motion w1 + length tcs < 2 ^ 64" using handle_complete_tokens(3,4) [OF h] Cons.prems(3) by simp
  ultimately show ?case using Cons.IH [of s1 w1] handle_complete_pool [OF h b c] by blast
qed simp

lemma retire_id [simp]: "cs_next_id (complete_task pid e s) = cs_next_id s" "cs_max_workers (complete_task pid e s) = cs_max_workers s"
  by (simp_all add: complete_task_def Let_def)

lemma pick_live_worker_next: "pick_live_worker t s = (p, s') \<Longrightarrow> cs_next_id s' = cs_next_id s"
proof (induction t s rule: pick_live_worker.induct)
  case (1 t s)
  show ?case
  proof (cases "pick_worker s")
    case None
    with "1.prems" show ?thesis by (simp add: pick_live_worker.simps [of t s])
  next
    case (Some r)
    obtain pid s1 where r: "r = (pid, s1)" by (cases r)
    have s1: "cs_next_id s1 = cs_next_id s" using Some r by (auto simp: pick_worker_def Let_def split: option.splits)
    show ?thesis
    proof (cases "table_get pid t = None")
      case True
      with Some r "1.prems" have "pick_live_worker t (retire_worker pid s1) = (p, s')" by (simp add: pick_live_worker.simps [of t s])
      from "1.IH" [OF Some r [symmetric] _ this] True s1 show ?thesis by simp
    next
      case False
      with Some r "1.prems" s1 show ?thesis by (auto simp: pick_live_worker.simps [of t s])
    qed
  qed
qed

lemma dispatch_task_next: "dispatch_task M V task tx timeout n (s, w) = (s', w') \<Longrightarrow> cs_next_id s' = cs_next_id s"
proof (induction n arbitrary: s w)
  case (Suc n)
  obtain p s1 where p: "pick_live_worker (cw_table w) s = (p, s1)" by (cases "pick_live_worker (cw_table w) s")
  note i = pick_live_worker_next [OF p]
  show ?case
  proof (cases p)
    case None
    with Suc.prems p i show ?thesis by simp
  next
    case (Some worker)
    with p Suc.prems i show ?thesis by (auto simp: Let_def split: prod.splits sum.splits dest: Suc.IH)
  qed
qed simp

lemma handle_complete_next: "handle_complete M V tc (s, w) = (s', w') \<Longrightarrow> cs_next_id s' = cs_next_id s"
  by (cases tc) (auto dest: dispatch_task_next)

lemma fold_complete_next: "fold (handle_complete M V) tcs (s, w) = (s', w') \<Longrightarrow> cs_next_id s' = cs_next_id s"
proof (induction tcs arbitrary: s w)
  case (Cons tc tcs)
  obtain s1 w1 where "handle_complete M V tc (s, w) = (s1, w1)" by (cases "handle_complete M V tc (s, w)")
  with Cons handle_complete_next [OF this] show ?case by simp
qed simp

lemma distinct_map_subset:
  assumes "distinct (map f xs)" and "mset ys \<subseteq># mset xs"
  shows "distinct (map f ys)"
proof -
  from assms(2) obtain zs where "mset xs = mset ys + zs" by (metis mset_subset_eq_exists_conv)
  then obtain zs where "mset xs = mset (ys @ zs)" by (metis ex_mset mset_append)
  then have "mset (map f xs) = mset (map f (ys @ zs))" by (metis mset_map)
  with assms(1) have "distinct (map f (ys @ zs))" by (metis mset_eq_imp_distinct_iff)
  then show ?thesis by simp
qed

lemma pool_ok_subset:
  assumes "pool_ok s n" and "mset ws \<subseteq># mset (cs_workers s)"
  shows "pool_ok (s\<lparr>cs_workers := ws\<rparr>) n" and "pool_pids (s\<lparr>cs_workers := ws\<rparr>) \<subseteq> pool_pids s"
proof -
  note ok = pool_okD [OF assms(1)]
  have "set ws \<subseteq> set (cs_workers s)" "length ws \<le> length (cs_workers s)"
    using assms(2) by (metis mset_subset_eqD set_mset_mset subsetI) (metis assms(2) size_mset size_mset_mono)
  with ok(3,4) distinct_map_subset [OF ok(1) assms(2)] distinct_map_subset [OF ok(2) assms(2)] show "pool_ok (s\<lparr>cs_workers := ws\<rparr>) n" "pool_pids (s\<lparr>cs_workers := ws\<rparr>) \<subseteq> pool_pids s"
    by (auto simp: pool_ok_def pool_pids_def)
qed

lemma coord_unregister_pool:
  assumes "coord_unregister i s = (r, s')" and "pool_ok s n"
  shows "pool_ok s' n \<and> pool_pids s' \<subseteq> pool_pids s \<and> cs_next_id s' = cs_next_id s"
proof (cases "position (\<lambda>w. wi_id w = i) (cs_workers s)")
  case None
  with assms show ?thesis by (simp add: coord_unregister_def)
next
  case (Some pos)
  then have "pos < length (cs_workers s)" using position_Some by blast
  then have "mset (swap_remove pos (cs_workers s)) \<subseteq># mset (cs_workers s)" by (simp add: mset_swap_remove)
  from pool_ok_subset [OF assms(2) this] Some assms(1) show ?thesis by (auto simp: coord_unregister_def)
qed

lemma coord_register_pool:
  assumes "coord_register pid v s = (r, s')" and "pool_ok s n" and "pid \<notin> pool_pids s" and "n pid = 0" and "unat (cs_next_id s) + 1 < 2 ^ 64"
  shows "pool_ok s' n \<and> pool_pids s' \<subseteq> insert pid (pool_pids s) \<and> unat (cs_next_id s') \<le> unat (cs_next_id s) + 1"
proof (cases "cs_max_workers s > 0 \<and> length (cs_workers s) \<ge> cs_max_workers s")
  case True
  with assms(1,2) show ?thesis by (auto simp: coord_register_def)
next
  case False
  note ok = pool_okD [OF assms(2)]
  let ?w = "\<lparr>wi_id = cs_next_id s + 1, wi_pid = pid, wi_metadata = v, wi_in_flight = 0, wi_avg_response_us = 0, wi_completed = 0\<rparr>"
  have s': "s' = s\<lparr>cs_next_id := cs_next_id s + 1, cs_workers := cs_workers s @ [?w]\<rparr>"
    using assms(1) False by (auto simp: coord_register_def Let_def)
  have u: "unat (cs_next_id s + 1) = unat (cs_next_id s) + 1" using assms(5) by (simp add: unat_word_ariths)
  then have lt: "wi_id w < cs_next_id s + 1" if "w \<in> set (cs_workers s)" for w
    using ok(3) [OF that] by (simp add: worker_ok_def word_le_nat_alt word_less_nat_alt)
  have "worker_ok s' n w" if "w \<in> set (cs_workers s)" for w
    using ok(3) [OF that] less_imp_le [OF lt [OF that]] by (simp add: worker_ok_def s')
  moreover have "worker_ok s' n ?w" using assms(4) by (simp add: worker_ok_def s' MAX_AVG_RESPONSE_US_def)
  moreover have "cs_next_id s + 1 \<notin> wi_id ` set (cs_workers s)" by (metis imageE lt less_irrefl)
  ultimately have "pool_ok s' n" using ok(1,2) assms(3) False by (auto simp: pool_ok_def s' pool_pids_def)
  then show ?thesis using u by (auto simp: s' pool_pids_def)
qed

definition queued_workers :: "('c, 'h, 'v) coord_run \<Rightarrow> process_id list" where
  "queued_workers r = concat (map msg_registers (cr_msgs r))"

text \<open>The processes the coordinator knows of: registered ones, and those with a task in motion.\<close>

definition known_workers :: "('c, 'h, 'v) coord_run \<Rightarrow> process_id set" where
  "known_workers r = pool_pids (cr_state r) \<union> {p. sent_to p (cr_world r) > 0}"

definition coord_ok :: "('c, 'h, 'v) coord_run \<Rightarrow> bool" where
  "coord_ok r \<longleftrightarrow> pool_ok (cr_state r) (\<lambda>p. sent_to p (cr_world r))
     \<and> unat (cs_next_id (cr_state r)) + size (queued_tokens r) \<le> cr_next r
     \<and> distinct (queued_workers r) \<and> set (queued_workers r) \<union> known_workers r \<subseteq> set (cr_registered r)
     \<and> set (queued_workers r) \<inter> known_workers r = {}"

lemma coord_ok_frame:
  assumes "coord_ok r" and "pool_ok (cr_state r') (\<lambda>p. sent_to p (cr_world r'))" and "known_workers r' \<subseteq> known_workers r"
    and "cs_next_id (cr_state r') = cs_next_id (cr_state r)" and "cr_next r' = cr_next r" and "cr_registered r' = cr_registered r"
    and "cr_msgs r' = cr_msgs r \<or> (\<exists>m. cr_msgs r = m # cr_msgs r')"
  shows "coord_ok r'"
proof -
  have "size (queued_tokens r') \<le> size (queued_tokens r)" "distinct (queued_workers r) \<Longrightarrow> distinct (queued_workers r')"
    "set (queued_workers r') \<subseteq> set (queued_workers r)"
    using assms(7) by (auto simp: queued_tokens_def queued_workers_def)
  moreover from assms(1) have "unat (cs_next_id (cr_state r)) + size (queued_tokens r) \<le> cr_next r" "distinct (queued_workers r)"
    "set (queued_workers r) \<union> known_workers r \<subseteq> set (cr_registered r)" "set (queued_workers r) \<inter> known_workers r = {}"
    by (simp_all add: coord_ok_def)
  ultimately show ?thesis unfolding coord_ok_def assms(4-6) using assms(2,3) by (intro conjI) (simp, linarith, simp, blast, blast)
qed

lemma coord_internal_pool:
  assumes "coord_internal M V r r'" and "\<not> cr_ended r" and "in_motion (cr_world r) < 2 ^ 64"
    and "pool_ok (cr_state r) (\<lambda>p. sent_to p (cr_world r))"
  shows "pool_ok (cr_state r') (\<lambda>p. sent_to p (cr_world r')) \<and> known_workers r' \<subseteq> known_workers r
    \<and> cs_next_id (cr_state r') = cs_next_id (cr_state r) \<and> cr_registered r' = cr_registered r"
  using assms(1)
proof cases
  case (collects xs c ys elapsed outcome)
  have "sent_to p (cr_world r') = sent_to p (cr_world r)" for p
    by (cases outcome) (auto simp: collects assms(2) collector_finish_def Let_def sent_to_def)
  then show ?thesis using assms(4) collects(1) by (simp add: known_workers_def)
next
  case (drains s w)
  let ?w = "(cr_world r)\<lparr>cw_completions := []\<rparr>"
  from drains(4) have f: "fold (handle_complete M V) (cw_completions (cr_world r)) (cr_state r, ?w) = (s, w)" by (simp add: coord_drain_def)
  have e: "sent_to p (cr_world r) = sent_to p ?w + pid_count (cw_completions (cr_world r)) p" for p by (simp add: sent_to_def pid_count_def)
  have "pool_ok (cr_state r) (\<lambda>p. sent_to p ?w + pid_count (cw_completions (cr_world r)) p)" using assms(4) by (simp add: e)
  from fold_complete_pool [OF f this] assms(3) have "pool_ok s (\<lambda>p. sent_to p w) \<and> pool_pids s \<subseteq> pool_pids (cr_state r)
    \<and> (\<forall>p. sent_to p w > 0 \<longrightarrow> sent_to p ?w > 0 \<or> p \<in> pool_pids (cr_state r))" by simp
  then show ?thesis using drains(1) fold_complete_next [OF f] by (auto simp: known_workers_def e)
next
  case (completes s w ms)
  then obtain tc tcs where c: "cw_completions (cr_world r) = tc # tcs" by (cases "cw_completions (cr_world r)") auto
  let ?w = "(cr_world r)\<lparr>cw_completions := tcs\<rparr>"
  have h: "handle_complete M V tc (cr_state r, ?w) = (s, w)" using completes(4) c by (auto simp: coord_select_def)
  have e: "sent_to p (cr_world r) = sent_to p ?w + 0 + (if complete_pid tc = p then 1 else 0)" for p using c by (simp add: sent_to_def)
  have "sent_to p ?w + 0 < 2 ^ 64 - 1" for p using sent_to_le [of p ?w] assms(3) c by simp
  from handle_complete_pool [OF h assms(4) [unfolded e] this] have "pool_ok s (\<lambda>p. sent_to p w) \<and> pool_pids s \<subseteq> pool_pids (cr_state r)
    \<and> (\<forall>p. sent_to p w > 0 \<longrightarrow> sent_to p ?w > 0 \<or> p \<in> pool_pids (cr_state r))" by simp
  then show ?thesis using completes(1) handle_complete_next [OF h] by (auto simp: known_workers_def e)
qed

lemma handle_coord_msg_pool:
  assumes "handle_coord_msg M V m (s, w) = (False, s', w')" and "pool_ok s (\<lambda>p. sent_to p w)" and "in_motion w < 2 ^ 64 - 1"
    and "msg_registers m = []"
  shows "pool_ok s' (\<lambda>p. sent_to p w') \<and> pool_pids s' \<subseteq> pool_pids s \<and> (\<forall>p. sent_to p w' > 0 \<longrightarrow> sent_to p w > 0 \<or> p \<in> pool_pids s)
    \<and> cs_next_id s' = cs_next_id s"
proof (cases m)
  case (CmSubmit task tx timeout)
  with assms(1) have d: "dispatch_task M V task tx timeout (length (cs_workers s)) (s, w) = (s', w')" by simp
  have "sent_to p w + 0 < 2 ^ 64 - 1" for p using sent_to_le [of p w] assms(3) by simp
  from dispatch_task_pool [OF d, of "\<lambda>_. 0"] this assms(2) dispatch_task_next [OF d] show ?thesis by simp
next
  case (CmUnregister i tx)
  with assms(1,2) coord_unregister_pool [of i s _ s'] show ?thesis by (auto split: prod.splits)
qed (use assms in \<open>auto split: prod.splits\<close>)

lemma coord_command_ok:
  assumes "coord_ok r" and "cr_msgs r = m # ms" and "handle_coord_msg M V m (cr_state r, cr_world r) = (False, s, w)"
    and "in_motion (cr_world r) < 2 ^ 64 - 1" and "cr_next r < 2 ^ 64 - 1"
  shows "coord_ok (r\<lparr>cr_state := s, cr_world := w, cr_msgs := ms\<rparr>)"
proof (cases "msg_registers m")
  case Nil
  from handle_coord_msg_pool [OF assms(3) _ assms(4) Nil] assms(1) have "pool_ok s (\<lambda>p. sent_to p w)" "pool_pids s \<subseteq> pool_pids (cr_state r)"
    "\<forall>p. sent_to p w > 0 \<longrightarrow> sent_to p (cr_world r) > 0 \<or> p \<in> pool_pids (cr_state r)" "cs_next_id s = cs_next_id (cr_state r)"
    by (simp_all add: coord_ok_def)
  then show ?thesis by (intro coord_ok_frame [OF assms(1)]) (use assms(2) in \<open>auto simp: known_workers_def\<close>)
next
  case (Cons pid x)
  then obtain v tx where m: "m = CmRegister pid v tx" by (cases m) auto
  with assms(3) obtain reg where reg: "coord_register pid v (cr_state r) = (reg, s)" and w: "w = send_reply tx (RegisterReply reg) (cr_world r)"
    by (auto split: prod.splits)
  from assms(1) have q: "pid \<notin> known_workers r" "unat (cs_next_id (cr_state r)) + size (queued_tokens r) \<le> cr_next r"
    "distinct (queued_workers r)" "set (queued_workers r) \<union> known_workers r \<subseteq> set (cr_registered r)" "set (queued_workers r) \<inter> known_workers r = {}"
    by (auto simp: coord_ok_def queued_workers_def assms(2) m)
  have "unat (cs_next_id (cr_state r)) + 1 < 2 ^ 64" using q(2) assms(2,5) m by (simp add: queued_tokens_def)
  from coord_register_pool [OF reg _ _ _ this, of "\<lambda>p. sent_to p (cr_world r)"] q(1) assms(1)
  have "pool_ok s (\<lambda>p. sent_to p (cr_world r)) \<and> pool_pids s \<subseteq> insert pid (pool_pids (cr_state r)) \<and> unat (cs_next_id s) \<le> unat (cs_next_id (cr_state r)) + 1"
    by (simp add: coord_ok_def known_workers_def)
  then have n: "pool_ok s (\<lambda>p. sent_to p w)" "unat (cs_next_id s) \<le> unat (cs_next_id (cr_state r)) + 1"
    "known_workers (r\<lparr>cr_state := s, cr_world := w, cr_msgs := ms\<rparr>) \<subseteq> insert pid (known_workers r)"
    by (auto simp: known_workers_def w)
  have k: "queued_workers r = pid # queued_workers (r\<lparr>cr_state := s, cr_world := w, cr_msgs := ms\<rparr>)"
    "size (queued_tokens r) = size (queued_tokens (r\<lparr>cr_state := s, cr_world := w, cr_msgs := ms\<rparr>)) + 1"
    by (simp_all add: queued_workers_def queued_tokens_def assms(2) m)
  show ?thesis unfolding coord_ok_def using n q(2-5) unfolding k by (intro conjI) (simp, simp, simp, auto)
qed

definition run_fine :: "('c, 'h, 'v) coord_run \<Rightarrow> bool" where
  "run_fine r \<longleftrightarrow> (\<not> cr_ended r \<longrightarrow> distinct (cr_registered r) \<longrightarrow> cr_next r < 2 ^ 64 - 1 \<longrightarrow> coord_ok r)"

lemma coord_step_fine:
  assumes "coord_step M V r r'" and "run_fine r" and "tokens_ok r"
  shows "run_fine r'"
  unfolding run_fine_def
proof (intro impI)
  assume up: "\<not> cr_ended r'" and d: "distinct (cr_registered r')" and lt: "cr_next r' < 2 ^ 64 - 1"
  show "coord_ok r'"
    using assms(1)
  proof cases
    case (request m ms)
    have ok: "coord_ok r" using assms(2) request(1) up d lt by (simp add: run_fine_def)
    have q: "queued_workers r' = queued_workers r @ msg_registers m" "size (queued_tokens r') = size (queued_tokens r) + 1"
      using request up by (auto simp: queued_workers_def queued_tokens_def coord_request_def)
    have "msg_registers m = [] \<or> (\<exists>p. msg_registers m = [p])" by (cases m) auto
    with ok q d show ?thesis unfolding coord_ok_def request(1) by (auto simp: known_workers_def)
  next
    case shutdown
    have ok: "coord_ok r" using assms(2) shutdown(1) up d lt by (simp add: run_fine_def)
    have "queued_workers r' = queued_workers r" "queued_tokens r' = queued_tokens r"
      using shutdown by (auto simp: queued_workers_def queued_tokens_def coord_shutdown_def)
    with ok show ?thesis by (simp add: coord_ok_def shutdown(1) known_workers_def)
  next
    case dropped
    have "coord_ok r" using assms(2) dropped up d lt by (simp add: run_fine_def)
    then show ?thesis by (simp add: coord_ok_def dropped known_workers_def queued_workers_def queued_tokens_def)
  next
    case (environment t)
    have "coord_ok r" using assms(2) environment up d lt by (simp add: run_fine_def)
    then show ?thesis by (simp add: coord_ok_def environment known_workers_def queued_workers_def queued_tokens_def)
  next
    case internal
    have e: "\<not> cr_ended r" using internal up by (auto elim: coord_internal.cases)
    note t = coord_internal_tokens [OF internal e]
    have g: "cr_registered r' = cr_registered r" using internal by (auto elim: coord_internal.cases)
    have ok: "coord_ok r" using assms(2) e d lt t g by (simp add: run_fine_def)
    have "in_motion (cr_world r) < 2 ^ 64" using assms(3) e lt t by (simp add: tokens_ok_def)
    from coord_internal_pool [OF internal e this] ok t show ?thesis
      by (intro coord_ok_frame [OF ok]) (simp_all add: coord_ok_def)
  next
    case (command s w ms)
    have ok: "coord_ok r" using assms(2) command(1,2) d lt by (simp add: run_fine_def)
    from coord_select_command [OF command(4,3)] obtain m where m: "cr_msgs r = m # ms" "handle_coord_msg M V m (cr_state r, cr_world r) = (False, s, w)"
      by metis
    have "in_motion (cr_world r) < 2 ^ 64 - 1" using assms(3) command(1,2) lt by (simp add: tokens_ok_def)
    with coord_command_ok [OF ok m] command(1) lt show ?thesis by simp
  next
    case (ends s w)
    with up show ?thesis by simp
  qed
qed

interpretation cf: transition_invariant "coord_step M V" "\<lambda>r. run_fine r \<and> tokens_ok r" for M V
  by unfold_locales (blast intro: coord_step_fine coord_step_tokens)

lemma coord_ok_new: "coord_ok (coord_run_new n t)"
  by (simp add: coord_ok_def pool_ok_def coord_run_new_def coord_state_new_def queued_tokens_def queued_workers_def known_workers_def pool_pids_def sent_to_def)

lemma coord_reach_fine: "(coord_step M V)\<^sup>*\<^sup>* (coord_run_new n t) r \<Longrightarrow> run_fine r \<and> tokens_ok r"
  by (rule cf.reach_inv [OF _ conjI [OF _ tokens_ok_new]]) (assumption, simp add: run_fine_def coord_ok_new)

lemma load_score_exact:
  assumes "unat (wi_in_flight w) + 1 < 2 ^ 64"
  shows "unat (load_score w) = min ((unat (wi_in_flight w) + 1) * max (unat (wi_avg_response_us w)) 1) (2 ^ 64 - 1)"
proof -
  let ?a = "wi_in_flight w + 1" and ?b = "max (wi_avg_response_us w) 1"
  have a: "unat ?a = unat (wi_in_flight w) + 1" using assms by (simp add: unat_word_ariths)
  have b: "unat ?b = max (unat (wi_avg_response_us w)) 1" by (simp add: max_def word_le_nat_alt)
  have "unat (?a * ?b) = unat ?a * unat ?b" if "unat ?a * unat ?b < 2 ^ 64" using that by (simp add: unat_word_ariths)
  then show ?thesis unfolding a [symmetric] b [symmetric] by (simp add: load_score_def u64_saturating_mul_def unat_u64_max)
qed


section \<open>Ends and leaks\<close>

text \<open>
  A coordinator ends only on a shutdown message. Once every handle is dropped and no shutdown is queued, it never ends,
  whatever happens: the completion channel stays open because the loop itself holds a sender.
\<close>

theorem dropped_coordinator_never_ends:
  assumes "(coord_step M V)\<^sup>*\<^sup>* r r'" and "cr_closed r" and "CmShutdown \<notin> set (cr_msgs r)" and "\<not> cr_ended r"
  shows "\<not> cr_ended r'"
proof -
  have "cr_closed r' \<and> CmShutdown \<notin> set (cr_msgs r') \<and> \<not> cr_ended r'"
    using assms(1)
  proof (induction rule: rtranclp_induct)
    case (step r1 r2)
    from step.hyps(2) show ?case
    proof cases
      case internal
      with coord_internal_tokens [OF internal] step.IH show ?thesis by simp
    next
      case (command s w ms)
      from coord_select_command [OF command(4,3)] obtain m where "cr_msgs r1 = m # ms" by metis
      with command step.IH show ?thesis by simp
    next
      case (ends s w)
      with coord_select_ends [OF ends(3)] step.IH show ?thesis by auto
    qed (use step.IH in auto)
  qed (use assms(2-4) in simp)
  then show ?thesis by simp
qed

text \<open>
  A process registered twice corrupts the books. With the same process in both entries of the pool, two tasks go one to each entry;
  their completions are both booked on the first, and the second counts a task in flight that no longer exists.
\<close>

theorem registered_twice_leaks:
  assumes "coord_register pid v (coord_state_new 0) = (r1, s1)" and "coord_register pid v s1 = (r2, s2)"
    and "pick_worker s2 = Some (p1, s3)" and "pick_worker s3 = Some (p2, s4)"
  shows "p1 = pid \<and> p2 = pid \<and> map wi_in_flight (cs_workers (complete_task pid e2 (complete_task pid e1 s4))) = [0, 1]"
proof -
  let ?w = "\<lambda>i. \<lparr>wi_id = i, wi_pid = pid, wi_metadata = v, wi_in_flight = 0, wi_avg_response_us = 0, wi_completed = 0\<rparr>"
  define w1 w2 where d: "w1 = ?w 1" "w2 = ?w 2"
  have w: "cs_workers s2 = [w1, w2]" "wi_pid w1 = pid" "wi_pid w2 = pid" "worker_key w1 = (1, 0)" "worker_key w2 = (1, 0)"
    "wi_in_flight w1 = 0" "wi_in_flight w2 = 0" "wi_avg_response_us w1 = 0" "wi_completed w1 = 0"
    using assms(1,2) by (auto simp: d coord_register_def coord_state_new_def Let_def worker_key_def load_score_def u64_saturating_mul_def)
  have s3: "p1 = pid" "cs_workers s3 = [bump_in_flight w1, w2]"
    using assms(3) w by (auto simp: pick_worker_def min_by_key_def bump_in_flight_def)
  have "worker_key (bump_in_flight w1) = (2, 0)" using w by (simp add: worker_key_def load_score_def u64_saturating_mul_def bump_in_flight_def)
  then have "p2 = pid" "cs_workers s4 = [bump_in_flight w1, bump_in_flight w2]"
    using assms(4) w s3(2) by (auto simp: pick_worker_def min_by_key_def bump_in_flight_def)
  then show ?thesis using s3(1) w
    by (simp add: complete_task_def complete_worker_fields bump_in_flight_def u64_saturating_sub_def)
qed

section \<open>A concrete execution\<close>

definition sample_worker_pid :: process_id where
  "sample_worker_pid = process_id_new 1 1"

definition sample_pool_table :: "(wire_value message chan, nat) process_table" where
  "sample_pool_table = (let (pid, t) = allocate_pid (table_new 1) in table_insert pid (mailbox_unbounded list_mpsc) t)"

text \<open>A client sends a request and the idle coordinator handles it.\<close>

definition coord_serve ::
  "wire_value coord_msg \<Rightarrow> (wire_value message chan, nat, wire_value) coord_run \<Rightarrow> (wire_value message chan, nat, wire_value) coord_run" where
  "coord_serve m r =
     (case handle_coord_msg list_mpsc wire m (cr_state r, cr_world r) of (_, s, w) \<Rightarrow>
        r\<lparr>cr_state := s, cr_world := w, cr_next := cr_next r + 1, cr_registered := cr_registered r @ msg_registers m\<rparr>)"

definition sample_pool_run :: "(wire_value message chan, nat, wire_value) coord_run" where
  "sample_pool_run = coord_serve (CmSubmit (WInteger 7) 1 10) (coord_serve (CmRegister sample_worker_pid WNil 0) (coord_run_new 0 sample_pool_table))"

lemma coord_serve_steps:
  assumes "(coord_step list_mpsc wire)\<^sup>*\<^sup>* r0 r" and "\<not> cr_closed r" and "\<not> cr_ended r" and "cr_msgs r = []" and "msg_token m = [cr_next r]"
    and "cw_completions (cr_world r) = []"
  shows "(coord_step list_mpsc wire)\<^sup>*\<^sup>* r0 (coord_serve m r)"
proof -
  let ?r = "r\<lparr>cr_msgs := [m], cr_next := cr_next r + 1, cr_registered := cr_registered r @ msg_registers m\<rparr>"
  obtain stop s w where h: "handle_coord_msg list_mpsc wire m (cr_state r, cr_world r) = (stop, s, w)"
    by (cases "handle_coord_msg list_mpsc wire m (cr_state r, cr_world r)")
  have "m \<noteq> CmShutdown" using assms(5) by auto
  then have "\<not> stop" using handle_coord_msg_tokens(2) [OF h] by simp
  have "coord_step list_mpsc wire r ?r"
    by (rule coord_step.request [OF assms(2,5)]) (simp add: coord_request_def assms(3,4))
  moreover have "coord_step list_mpsc wire ?r (?r\<lparr>cr_state := s, cr_world := w, cr_msgs := []\<rparr>)"
    by (rule coord_step.command) (use assms(3,6) h \<open>\<not> stop\<close> in \<open>simp_all add: coord_select_def\<close>)
  moreover have "?r\<lparr>cr_state := s, cr_world := w, cr_msgs := []\<rparr> = coord_serve m r" using h assms(4) by (simp add: coord_serve_def)
  ultimately show ?thesis using assms(1) by (metis rtranclp.rtrancl_into_rtrancl)
qed

lemma sample_pool_registered:
  "cr_closed (coord_serve (CmRegister sample_worker_pid WNil 0) (coord_run_new 0 t)) = False"
  "cr_ended (coord_serve (CmRegister sample_worker_pid WNil 0) (coord_run_new 0 t)) = False"
  "cr_msgs (coord_serve (CmRegister sample_worker_pid WNil 0) (coord_run_new 0 t)) = []"
  "cr_next (coord_serve (CmRegister sample_worker_pid WNil 0) (coord_run_new 0 t)) = 1"
  "cw_completions (cr_world (coord_serve (CmRegister sample_worker_pid WNil 0) (coord_run_new 0 t))) = []"
  by (simp_all add: coord_serve_def coord_run_new_def split: prod.splits)

lemma sample_pool_reach: "(coord_step list_mpsc wire)\<^sup>*\<^sup>* (coord_run_new 0 sample_pool_table) sample_pool_run"
  unfolding sample_pool_run_def
  by (intro coord_serve_steps rtranclp.rtrancl_refl) (simp_all add: sample_pool_registered, simp_all add: coord_run_new_def)

lemma sample_pool_eval:
  "cr_ended sample_pool_run = False" "cr_closed sample_pool_run = False" "cr_msgs sample_pool_run = []" "cr_next sample_pool_run = 2"
  "cr_registered sample_pool_run = [sample_worker_pid]" "map wi_pid (cs_workers (cr_state sample_pool_run)) = [sample_worker_pid]"
  "map co_worker (cw_collectors (cr_world sample_pool_run)) = [sample_worker_pid]" "cw_completions (cr_world sample_pool_run) = []"
  by code_simp+

theorem least_loaded_exact_witness:
  "fst (pick_live_worker (cw_table (cr_world sample_pool_run)) (cr_state sample_pool_run)) = Some sample_worker_pid
    \<and> (\<exists>ws1 w ws2. cs_workers (snd (pick_live_worker (cw_table (cr_world sample_pool_run)) (cr_state sample_pool_run))) = ws1 @ bump_in_flight w # ws2
         \<and> wi_pid w = sample_worker_pid \<and> subseq (ws1 @ w # ws2) (cs_workers (cr_state sample_pool_run)))"
proof -
  have f: "fst (pick_live_worker (cw_table (cr_world sample_pool_run)) (cr_state sample_pool_run)) = Some sample_worker_pid" by code_simp
  then obtain s' where p: "pick_live_worker (cw_table (cr_world sample_pool_run)) (cr_state sample_pool_run) = (Some sample_worker_pid, s')"
    by (metis prod.collapse)
  from least_loaded_exact [where t = "cw_table (cr_world sample_pool_run)" and s = "cr_state sample_pool_run"] p obtain ws1 w ws2
    where "cs_workers s' = ws1 @ bump_in_flight w # ws2" "sample_worker_pid = wi_pid w" "subseq (ws1 @ w # ws2) (cs_workers (cr_state sample_pool_run))" by auto
  then have "\<exists>ws1 w ws2. cs_workers s' = ws1 @ bump_in_flight w # ws2 \<and> wi_pid w = sample_worker_pid
      \<and> subseq (ws1 @ w # ws2) (cs_workers (cr_state sample_pool_run))" by metis
  then show ?thesis by (simp add: p)
qed

theorem coordinator_answers_once_witness:
  "held_tokens (cr_world sample_pool_run) = mset [0..<2]
   \<and> (\<exists>r'. (coord_internal list_mpsc wire)\<^sup>*\<^sup>* sample_pool_run r' \<and> mset (map fst (cw_replies (cr_world r'))) = mset [0..<2])"
proof -
  have q: "queued_tokens sample_pool_run = {#}" by (simp add: queued_tokens_def sample_pool_eval)
  from coordinator_answers_once [OF sample_pool_reach] show ?thesis by (simp add: sample_pool_eval q) blast
qed


definition sample_pool_dropped :: "(wire_value message chan, nat, wire_value) coord_run" where
  "sample_pool_dropped = sample_pool_run\<lparr>cr_closed := True\<rparr>"

definition sample_pool_timeout :: "(wire_value message chan, nat, wire_value) coord_run" where
  "sample_pool_timeout = sample_pool_dropped\<lparr>cr_world := collector_finish list_mpsc wire (\<not> cr_ended sample_pool_dropped) 11 TimedOut
     (hd (cw_collectors (cr_world sample_pool_dropped))) ((cr_world sample_pool_dropped)\<lparr>cw_collectors := [] @ []\<rparr>)\<rparr>"

theorem dropped_coordinator_never_ends_witness: "\<not> cr_ended sample_pool_timeout"
proof -
  obtain c where "cw_collectors (cr_world sample_pool_run) = [c]" using sample_pool_eval(7) by (auto simp: map_eq_Cons_conv)
  then have "cw_collectors (cr_world sample_pool_dropped) = [] @ hd (cw_collectors (cr_world sample_pool_dropped)) # []"
    by (simp add: sample_pool_dropped_def)
  from coord_step.internal [OF coord_internal.collects [OF this]] have "(coord_step list_mpsc wire)\<^sup>*\<^sup>* sample_pool_dropped sample_pool_timeout"
    unfolding sample_pool_timeout_def by (rule r_into_rtranclp)
  from dropped_coordinator_never_ends [OF this] show ?thesis by (simp add: sample_pool_dropped_def sample_pool_eval)
qed

theorem registered_twice_leaks_witness:
  "\<exists>s :: wire_value coord_state. map wi_in_flight (cs_workers s) = [0, 1]"
proof -
  obtain r1 s1 where 1: "coord_register sample_worker_pid WNil (coord_state_new 0) = (r1, s1)"
    by (cases "coord_register sample_worker_pid WNil (coord_state_new 0)")
  obtain r2 s2 where 2: "coord_register sample_worker_pid WNil s1 = (r2, s2)" by (cases "coord_register sample_worker_pid WNil s1")
  have ne: "cs_workers s2 \<noteq> []" using 2 1 by (auto simp: coord_register_def coord_state_new_def Let_def)
  then obtain p1 s3 where 3: "pick_worker s2 = Some (p1, s3)" using pick_worker_None by (cases "pick_worker s2") auto
  have "cs_workers s3 \<noteq> []" using 3 ne by (auto simp: pick_worker_def Let_def split: option.splits)
  then obtain p2 s4 where 4: "pick_worker s3 = Some (p2, s4)" using pick_worker_None by (cases "pick_worker s3") auto
  from registered_twice_leaks [OF 1 2 3 4] show ?thesis by blast
qed

end
