(* ===== verification/Coordinator_Handle.thy ===== *)
theory Coordinator_Handle
  imports Coordinator Handle
begin

text \<open>
  The handle of a coordinator (\<open>CoordinatorHandle\<close> of \<^verbatim>\<open>crates/rebar-core/src/coordinator/engine.rs\<close>): what its methods return, from
  the state of the coordinator, its collectors and channels, and \<open>submit_many\<close>, which runs submits concurrently under a
  semaphore and returns their results in order.
\<close>

section \<open>The results of a method\<close>

text \<open>
  The reply channel \<open>tx\<close>: its sender is in the queue of the coordinator, with a collector or in the completion channel. The coordinator drops
  both channels when it ends.
\<close>

definition coord_channel :: "nat \<Rightarrow> ('c, 'h, 'v) coord_run \<Rightarrow> 'v coord_reply oneshot" where
  "coord_channel tx r =
     (case map_of (cw_replies (cr_world r)) tx of
        Some v \<Rightarrow> Replied v
      | None \<Rightarrow>
          if tx \<in> set (map co_reply (cw_collectors (cr_world r)))
             \<or> \<not> cr_ended r \<and> tx \<in> set (concat (map msg_token (cr_msgs r)) @ concat (map complete_token (cw_completions (cr_world r))))
          then Waiting else Dropped)"

text \<open>\<open>register_worker\<close>, \<open>unregister_worker\<close> and \<open>submit\<close> flatten the result that is their reply.\<close>

fun flatten_reply :: "'v coord_reply \<Rightarrow> coordinator_error + 'v coord_reply" where
  "flatten_reply (RegisterReply (Inl e)) = Inl e"
| "flatten_reply (UnregisterReply (Inl e)) = Inl e"
| "flatten_reply (SubmitReply (Inl e)) = Inl e"
| "flatten_reply r = Inr r"

definition coord_handle_result :: "'v coord_reply oneshot \<Rightarrow> (coordinator_error + 'v coord_reply) option" where
  "coord_handle_result ch =
     (case await_reply CoordShutdown ch of
        None \<Rightarrow> None
      | Some (Inl e) \<Rightarrow> Some (Inl e)
      | Some (Inr r) \<Rightarrow> Some (flatten_reply r))"

text \<open>
  Nobody waits for a coordinator in vain. A request that a running coordinator accepted is waiting or answered, never
  dropped; once the collectors of an ended coordinator are gone, every request has its result.
\<close>

theorem coordinator_requests_settled:
  assumes "(coord_step M V)\<^sup>*\<^sup>* (coord_run_new max_workers t) r" and "i < cr_next r"
  shows "(\<not> cr_ended r \<longrightarrow> coord_channel i r \<noteq> Dropped)
    \<and> (cr_ended r \<and> cw_collectors (cr_world r) = [] \<longrightarrow> coord_handle_result (coord_channel i r) \<noteq> None)"
proof (intro conjI impI)
  assume "\<not> cr_ended r"
  with coord_reach_tokens [OF assms(1)] have "queued_tokens r + held_tokens (cr_world r) = mset [0..<cr_next r]" by (simp add: tokens_ok_def)
  then have "i \<in># queued_tokens r + held_tokens (cr_world r)" using assms(2) by simp
  with \<open>\<not> cr_ended r\<close> show "coord_channel i r \<noteq> Dropped"
    by (auto simp: coord_channel_def queued_tokens_def held_tokens_def map_of_eq_None_iff split: option.splits)
next
  assume "cr_ended r \<and> cw_collectors (cr_world r) = []"
  then show "coord_handle_result (coord_channel i r) \<noteq> None"
    by (auto simp: coord_channel_def coord_handle_result_def split: option.splits)
qed

theorem coordinator_requests_settled_witness: "coord_channel 1 sample_pool_run \<noteq> Dropped"
  using coordinator_requests_settled [OF sample_pool_reach, of 1] by (simp add: sample_pool_eval)

section \<open>Submitting many tasks\<close>

text \<open>A spawned submit waits for a permit, waits for the coordinator, or has ended; \<open>None\<close>: it panicked.\<close>

datatype 't many_task = AwaitsPermit | AwaitsReply | Ended "(coordinator_error + 't) option"

definition submit_many_new :: "'v list \<Rightarrow> 't many_task list" where
  "submit_many_new tasks = map (\<lambda>_. AwaitsPermit) tasks"

definition in_flight :: "'t many_task list \<Rightarrow> nat" where
  "in_flight ms = length (filter (\<lambda>m. m = AwaitsReply) ms)"

inductive submit_many_step :: "'v list \<Rightarrow> (nat \<Rightarrow> (coordinator_error + 't) option) \<Rightarrow> 't many_task list \<Rightarrow> 't many_task list \<Rightarrow> bool"
  for tasks outcome where
  acquires: "i < length ms \<Longrightarrow> ms ! i = AwaitsPermit \<Longrightarrow> in_flight ms < submit_many_permits tasks \<Longrightarrow>
     submit_many_step tasks outcome ms (ms[i := AwaitsReply])"
| submits: "i < length ms \<Longrightarrow> ms ! i = AwaitsReply \<Longrightarrow> submit_many_step tasks outcome ms (ms[i := Ended (outcome i)])"

text \<open>The loop over the handles: it waits for each in turn; a panic is reported as \<open>Shutdown\<close>.\<close>

fun submit_many_collect :: "'t many_task list \<Rightarrow> (coordinator_error + 't) list option" where
  "submit_many_collect [] = Some []"
| "submit_many_collect (Ended r # ms) =
     map_option (\<lambda>rs. (case r of None \<Rightarrow> Inl CoordShutdown | Some x \<Rightarrow> x) # rs) (submit_many_collect ms)"
| "submit_many_collect (_ # ms) = None"

fun many_task_work :: "'t many_task \<Rightarrow> nat" where
  "many_task_work AwaitsPermit = 2"
| "many_task_work AwaitsReply = 1"
| "many_task_work (Ended r) = 0"

definition many_work :: "'t many_task list \<Rightarrow> nat" where
  "many_work ms = sum_list (map many_task_work ms)"

definition many_ok :: "'v list \<Rightarrow> (nat \<Rightarrow> (coordinator_error + 't) option) \<Rightarrow> 't many_task list \<Rightarrow> bool" where
  "many_ok tasks outcome ms \<longleftrightarrow> length ms = length tasks \<and> in_flight ms \<le> submit_many_permits tasks
     \<and> (\<forall>i r. i < length ms \<longrightarrow> ms ! i = Ended r \<longrightarrow> r = outcome i)"

lemma sum_list_update_nat: "i < length xs \<Longrightarrow> sum_list (map f (xs[i := x])) + f (xs ! i) = sum_list (map f xs) + (f x :: nat)"
  by (induction xs arbitrary: i) (auto split: nat.splits)

lemma in_flight_sum: "in_flight ms = sum_list (map (\<lambda>m. if m = AwaitsReply then 1 else 0) ms)"
  by (induction ms) (simp_all add: in_flight_def)

lemma in_flight_update:
  "i < length ms \<Longrightarrow> in_flight (ms[i := m]) + (if ms ! i = AwaitsReply then 1 else 0) = in_flight ms + (if m = AwaitsReply then 1 else 0)"
  unfolding in_flight_sum by (rule sum_list_update_nat)

lemma many_work_update: "i < length ms \<Longrightarrow> many_work (ms[i := m]) + many_task_work (ms ! i) = many_work ms + many_task_work m"
  unfolding many_work_def by (rule sum_list_update_nat)

lemma submit_many_step_ok: "submit_many_step tasks outcome ms ms' \<Longrightarrow> many_ok tasks outcome ms \<Longrightarrow> many_ok tasks outcome ms'"
proof (induction rule: submit_many_step.induct)
  case (acquires i ms)
  then show ?case using in_flight_update [of i ms AwaitsReply] by (auto simp: many_ok_def nth_list_update)
next
  case (submits i ms)
  then show ?case using in_flight_update [of i ms "Ended (outcome i)"] by (auto simp: many_ok_def nth_list_update)
qed

lemma permits_pos: "0 < submit_many_permits tasks"
  by (simp add: submit_many_permits_def SUBMIT_MANY_MAX_CONCURRENCY_def)

lemma submit_many_progress:
  assumes "0 < many_work ms"
  shows "\<exists>ms'. submit_many_step tasks outcome ms ms'"
proof (cases "AwaitsReply \<in> set ms")
  case True
  then show ?thesis using submits by (metis in_set_conv_nth)
next
  case False
  then have "in_flight ms = 0" by (auto simp: in_flight_def filter_empty_conv)
  moreover have "\<exists>m \<in> set ms. many_task_work m \<noteq> 0" using assms by (metis many_work_def sum_list_eq_0_iff imageE list.set_map less_irrefl)
  then have "AwaitsPermit \<in> set ms" using False by (metis many_task_work.elims)
  ultimately show ?thesis using acquires permits_pos by (metis in_set_conv_nth)
qed

interpretation many: working_system "submit_many_step tasks outcome" "many_ok tasks outcome" many_work for tasks outcome
proof unfold_locales
  show "many_ok tasks outcome t" if "submit_many_step tasks outcome s t" "many_ok tasks outcome s" for s t
    using submit_many_step_ok that .
  show "many_work t < many_work s" if "submit_many_step tasks outcome s t" for s t
    using that
  proof cases
    case (acquires i)
    then show ?thesis using many_work_update [of i s AwaitsReply] by simp
  next
    case (submits i)
    then show ?thesis using many_work_update [of i s "Ended (outcome i)"] by simp
  qed
  show "\<exists>t. submit_many_step tasks outcome s t" if "0 < many_work s" for s
    using submit_many_progress that .
qed

lemma submit_many_collect_done:
  "many_work ms = 0 \<Longrightarrow> submit_many_collect ms = Some (map (\<lambda>m. case m of Ended (Some r) \<Rightarrow> r | _ \<Rightarrow> Inl CoordShutdown) ms)"
  by (induction ms rule: submit_many_collect.induct) (auto simp: many_work_def split: option.splits)

lemma submit_many_collect_waits: "submit_many_collect ms \<noteq> None \<Longrightarrow> many_work ms = 0"
  by (induction ms rule: submit_many_collect.induct) (auto simp: many_work_def)

text \<open>
  C33: \<open>submit_many\<close> returns one result per task, in the order of the tasks, provided that every submit ends: however the submits
  interleave, at most 64 are in flight, there are at most two steps per task, a run that can take no more steps has returned, and what it
  returns for each task is what its submit returned, or \<open>Shutdown\<close> if that panicked. With no tasks it returns at once.
\<close>

theorem submit_many_exact:
  fixes outcome :: "nat \<Rightarrow> (coordinator_error + 't) option"
  assumes "(submit_many_step tasks outcome)\<^sup>*\<^sup>* (submit_many_new tasks) ms"
  shows "in_flight ms \<le> 64
    \<and> (\<forall>n ms'. (submit_many_step tasks outcome ^^ n) (submit_many_new tasks) ms' \<longrightarrow> n \<le> 2 * length tasks)
    \<and> ((\<exists>ms'. submit_many_step tasks outcome ms ms') \<or> submit_many_collect ms \<noteq> None)
    \<and> (\<forall>rs. submit_many_collect ms = Some rs \<longrightarrow>
         rs = map (\<lambda>i. case outcome i of None \<Rightarrow> Inl CoordShutdown | Some r \<Rightarrow> r) [0..<length tasks])"
proof -
  have new: "many_ok tasks outcome (submit_many_new tasks)" "many_work (submit_many_new tasks :: 't many_task list) = 2 * length tasks"
    by (auto simp: many_ok_def submit_many_new_def in_flight_def many_work_def comp_def sum_list_triv)
  have ok: "many_ok tasks outcome ms" using many.reach_inv [OF assms new(1)] .
  have "submit_many_permits tasks \<le> 64" by (simp add: submit_many_permits_def SUBMIT_MANY_MAX_CONCURRENCY_def)
  with ok have "in_flight ms \<le> 64" by (simp add: many_ok_def)
  moreover have "n \<le> 2 * length tasks" if "(submit_many_step tasks outcome ^^ n) (submit_many_new tasks) ms'" for n ms'
    using many.run_length [OF that new(1)] new(2) by simp
  moreover have "(\<exists>ms'. submit_many_step tasks outcome ms ms') \<or> submit_many_collect ms \<noteq> None"
    using many.stuck_finished [OF ok] submit_many_collect_done [of ms] by blast
  moreover have "rs = map (\<lambda>i. case outcome i of None \<Rightarrow> Inl CoordShutdown | Some r \<Rightarrow> r) [0..<length tasks]"
    if "submit_many_collect ms = Some rs" for rs
  proof (rule nth_equalityI)
    have w: "many_work ms = 0" using submit_many_collect_waits that by blast
    then have rs: "rs = map (\<lambda>m. case m of Ended (Some r) \<Rightarrow> r | _ \<Rightarrow> Inl CoordShutdown) ms" using submit_many_collect_done [OF w] that by simp
    then show "length rs = length (map (\<lambda>i. case outcome i of None \<Rightarrow> Inl CoordShutdown | Some r \<Rightarrow> r) [0..<length tasks])"
      using ok by (simp add: many_ok_def)
    fix i assume i: "i < length rs"
    then have "many_task_work (ms ! i) = 0" using w rs by (simp add: many_work_def)
    then obtain r where r: "ms ! i = Ended r" by (cases "ms ! i") auto
    with ok i rs have "r = outcome i" "length ms = length tasks" by (simp_all add: many_ok_def)
    with r i rs show "rs ! i = map (\<lambda>i. case outcome i of None \<Rightarrow> Inl CoordShutdown | Some r \<Rightarrow> r) [0..<length tasks] ! i"
      by (simp split: option.splits)
  qed
  ultimately show ?thesis by blast
qed

theorem submit_many_exact_witness:
  "\<exists>ms :: nat many_task list. (submit_many_step [7, 8 :: nat] (\<lambda>i. if i = 0 then Some (Inr 5) else None))\<^sup>*\<^sup>* (submit_many_new [7, 8 :: nat]) ms
     \<and> submit_many_collect ms = Some [Inr 5, Inl CoordShutdown]"
proof -
  let ?f = "\<lambda>i :: nat. if i = 0 then Some (Inr (5 :: nat)) else None :: (coordinator_error + nat) option"
  obtain ms where ms: "(submit_many_step [7, 8 :: nat] ?f)\<^sup>*\<^sup>* (submit_many_new [7, 8 :: nat]) ms" "many_work ms = 0"
    using many.finishes [of "[7, 8 :: nat]" ?f "submit_many_new [7, 8 :: nat]"]
    by (auto simp: many_ok_def submit_many_new_def in_flight_def less_Suc_eq numeral_2_eq_2)
  have "submit_many_collect ms \<noteq> None" using submit_many_collect_done [OF ms(2)] by simp
  then obtain rs where "submit_many_collect ms = Some rs" by blast
  moreover from submit_many_exact [OF ms(1)] this have "rs = [Inr 5, Inl CoordShutdown]" by (simp add: upt_rec)
  ultimately show ?thesis using ms(1) by blast
qed

end
