(* ===== verification/Member.thy ===== *)
theory Member
  imports Gossip "HOL-Library.Product_Lexorder"
begin

text \<open>
  Members of the cluster and the membership list of a node
  (\<^verbatim>\<open>crates/rebar-cluster/src/swim/member.rs\<close>): incarnation numbers, the Alive, Suspect and Dead
  states, merging of gossip and refutation of rumours about the node itself. The random choice of
  a member is an argument \<open>pick\<close>.
\<close>

section \<open>Members\<close>

datatype node_state = Alive | Suspect | Dead

record member =
  mem_node_id :: u64
  mem_addr :: socket_addr
  mem_state :: node_state
  mem_incarnation :: u64
  mem_cert_hash :: "cert_hash option"

definition member_new :: "u64 \<Rightarrow> socket_addr \<Rightarrow> member" where
  "member_new n a = \<lparr>mem_node_id = n, mem_addr = a, mem_state = Alive, mem_incarnation = 0,
     mem_cert_hash = None\<rparr>"

definition MAX_INCARNATION_JUMP :: u64 where
  "MAX_INCARNATION_JUMP = push_bit 32 1"

definition incarnation_acceptable :: "u64 \<Rightarrow> u64 \<Rightarrow> bool" where
  "incarnation_acceptable current proposed =
     (if proposed \<le> current then True else proposed - current \<le> MAX_INCARNATION_JUMP)"

definition member_suspect :: "u64 \<Rightarrow> member \<Rightarrow> member" where
  "member_suspect inc m =
     (if mem_state m = Dead then m
      else if \<not> incarnation_acceptable (mem_incarnation m) inc then m
      else if inc \<ge> mem_incarnation m then m\<lparr>mem_state := Suspect, mem_incarnation := inc\<rparr>
      else m)"

definition member_alive :: "u64 \<Rightarrow> member \<Rightarrow> member" where
  "member_alive inc m =
     (if \<not> incarnation_acceptable (mem_incarnation m) inc then m
      else if inc > mem_incarnation m then m\<lparr>mem_state := Alive, mem_incarnation := inc\<rparr>
      else m)"

definition member_dead :: "u64 \<Rightarrow> member \<Rightarrow> member" where
  "member_dead inc m =
     (if mem_state m = Dead then m
      else if \<not> incarnation_acceptable (mem_incarnation m) inc then m
      else if inc \<ge> mem_incarnation m then m\<lparr>mem_state := Dead, mem_incarnation := inc\<rparr>
      else m)"

section \<open>The membership list\<close>

record membership_list =
  ml_members :: "(u64, member) hashmap"
  ml_self_id :: "u64 option"
  ml_self_incarnation :: u64
  ml_self_addr :: "socket_addr option"
  ml_self_cert_hash :: "cert_hash option"

type_synonym member_order = "(u64, member) hashmap \<Rightarrow> (u64 \<times> member) list"

definition membership_new :: membership_list where
  "membership_new = \<lparr>ml_members = [], ml_self_id = None, ml_self_incarnation = 0,
     ml_self_addr = None, ml_self_cert_hash = None\<rparr>"

definition with_self :: "u64 \<Rightarrow> socket_addr \<Rightarrow> cert_hash option \<Rightarrow> membership_list" where
  "with_self n a cert =
     (let me = (member_new n a)\<lparr>mem_cert_hash := cert\<rparr> in
      membership_new\<lparr>ml_self_id := Some n, ml_self_addr := Some a, ml_self_cert_hash := cert,
        ml_members := hm_insert n me []\<rparr>)"

definition refute_about_self :: "u64 \<Rightarrow> membership_list \<Rightarrow> gossip_update option \<times> membership_list" where
  "refute_about_self suspected ml =
     (case ml_self_id ml of None \<Rightarrow> (None, ml)
      | Some self_id \<Rightarrow>
     (case ml_self_addr ml of None \<Rightarrow> (None, ml)
      | Some addr \<Rightarrow>
          if suspected < ml_self_incarnation ml then (None, ml)
          else
            let nxt = max (u64_saturating_add (ml_self_incarnation ml) 1) (u64_saturating_add suspected 1) in
            (Some (AliveUpd self_id addr nxt (ml_self_cert_hash ml)),
             ml\<lparr>ml_self_incarnation := nxt,
                ml_members := hm_modify self_id
                  (\<lambda>me. me\<lparr>mem_state := Alive, mem_incarnation := nxt\<rparr>) (ml_members ml)\<rparr>)))"

definition ml_add :: "member \<Rightarrow> membership_list \<Rightarrow> membership_list" where
  "ml_add m ml = ml\<lparr>ml_members := hm_insert (mem_node_id m) m (ml_members ml)\<rparr>"

definition apply_update :: "gossip_update \<Rightarrow> membership_list \<Rightarrow> gossip_update option \<times> membership_list" where
  "apply_update update ml =
     (let node = upd_node_id update in
      if ml_self_id ml = Some node
      then (case update of
              SuspectUpd _ _ inc \<Rightarrow> refute_about_self inc ml
            | DeadUpd _ _ inc \<Rightarrow> refute_about_self inc ml
            | LeaveUpd _ _ inc \<Rightarrow> refute_about_self inc ml
            | AliveUpd _ _ _ _ \<Rightarrow> (None, ml))
      else
        (None,
         (case update of
            AliveUpd _ addr inc cert \<Rightarrow>
              (case hm_get (ml_members ml) node of
                 Some _ \<Rightarrow> ml\<lparr>ml_members := hm_modify node (member_alive inc) (ml_members ml)\<rparr>
               | None \<Rightarrow> ml\<lparr>ml_members := hm_insert node
                   ((member_new node addr)\<lparr>mem_incarnation := inc, mem_cert_hash := cert\<rparr>) (ml_members ml)\<rparr>)
          | SuspectUpd _ addr inc \<Rightarrow>
              (case hm_get (ml_members ml) node of
                 Some _ \<Rightarrow> ml\<lparr>ml_members := hm_modify node (member_suspect inc) (ml_members ml)\<rparr>
               | None \<Rightarrow> ml\<lparr>ml_members := hm_insert node
                   (member_suspect inc (member_new node addr)) (ml_members ml)\<rparr>)
          | DeadUpd _ _ inc \<Rightarrow> ml\<lparr>ml_members := hm_modify node (member_dead inc) (ml_members ml)\<rparr>
          | LeaveUpd _ _ inc \<Rightarrow> ml\<lparr>ml_members := hm_modify node (member_dead inc) (ml_members ml)\<rparr>)))"

definition addr_of :: "membership_list \<Rightarrow> u64 \<Rightarrow> socket_addr option" where
  "addr_of ml node = map_option mem_addr (hm_get (ml_members ml) node)"

definition ml_alive_peers :: "member_order \<Rightarrow> membership_list \<Rightarrow> (u64 \<times> socket_addr) list" where
  "ml_alive_peers ord ml =
     map (\<lambda>m. (mem_node_id m, mem_addr m))
       (filter (\<lambda>m. Some (mem_node_id m) \<noteq> ml_self_id ml \<and> mem_state m \<noteq> Dead)
         (map snd (ord (ml_members ml))))"

definition ml_get :: "membership_list \<Rightarrow> u64 \<Rightarrow> member option" where
  "ml_get ml node = hm_get (ml_members ml) node"

definition mark_dead :: "u64 \<Rightarrow> u64 \<Rightarrow> membership_list \<Rightarrow> membership_list" where
  "mark_dead node inc ml = ml\<lparr>ml_members := hm_modify node (member_dead inc) (ml_members ml)\<rparr>"

definition remove_dead :: "membership_list \<Rightarrow> membership_list" where
  "remove_dead ml = ml\<lparr>ml_members := hm_retain (\<lambda>_ m. mem_state m \<noteq> Dead) (ml_members ml)\<rparr>"

definition ml_remove_node :: "u64 \<Rightarrow> membership_list \<Rightarrow> membership_list" where
  "ml_remove_node node ml = ml\<lparr>ml_members := hm_remove node (ml_members ml)\<rparr>"

definition alive_count :: "membership_list \<Rightarrow> usize" where
  "alive_count ml = length (filter (\<lambda>(_, m). mem_state m = Alive) (ml_members ml))"

text \<open>
  \<open>IteratorRandom::choose\<close> of the \<open>rand\<close> crate: \<open>picks\<close> says that it returns an element of the
  candidates, and nothing only when there are none.
\<close>

definition picks :: "('a list \<Rightarrow> 'a option) \<Rightarrow> bool" where
  "picks pick \<longleftrightarrow> (\<forall>xs. (pick xs = None \<longleftrightarrow> xs = []) \<and> (\<forall>x. pick xs = Some x \<longrightarrow> x \<in> set xs))"

definition random_alive_member ::
  "(member list \<Rightarrow> member option) \<Rightarrow> member_order \<Rightarrow> u64 \<Rightarrow> membership_list \<Rightarrow> member option" where
  "random_alive_member pick ord exclude ml =
     pick (filter (\<lambda>m. mem_state m = Alive \<and> mem_node_id m \<noteq> exclude) (map snd (ord (ml_members ml))))"

definition all_members :: "member_order \<Rightarrow> membership_list \<Rightarrow> member list" where
  "all_members ord ml = map snd (ord (ml_members ml))"

section \<open>Freshness order\<close>

fun state_rank :: "node_state \<Rightarrow> nat" where
  "state_rank Alive = 0"
| "state_rank Suspect = 1"
| "state_rank Dead = 2"

text \<open>What a member says about its node, ordered by incarnation first and severity second.\<close>

definition freshness :: "member \<Rightarrow> u64 \<times> nat" where
  "freshness m = (mem_incarnation m, state_rank (mem_state m))"

lemmas member_ops = member_suspect_def member_alive_def member_dead_def

lemma member_ops_fresher:
  "freshness m \<le> freshness (member_suspect inc m)"
  "freshness m \<le> freshness (member_alive inc m)"
  "freshness m \<le> freshness (member_dead inc m)"
  by (cases "mem_state m"; auto simp: member_ops freshness_def less_eq_prod_simp)+

lemma member_ops_id [simp]:
  "mem_node_id (member_suspect inc m) = mem_node_id m"
  "mem_node_id (member_alive inc m) = mem_node_id m"
  "mem_node_id (member_dead inc m) = mem_node_id m"
  by (simp_all add: member_ops)

lemma acceptable_iff:
  "incarnation_acceptable c p \<longleftrightarrow> unat p \<le> unat c + 2 ^ 32"
proof -
  have j: "unat MAX_INCARNATION_JUMP = 2 ^ 32"
    by (simp add: MAX_INCARNATION_JUMP_def push_bit_eq_mult)
  show ?thesis
  proof (cases "p \<le> c")
    case True
    then show ?thesis by (simp add: incarnation_acceptable_def word_le_nat_alt)
  next
    case False
    then have "c \<le> p" by simp
    then have "unat (p - c) = unat p - unat c" by (rule unat_sub)
    with False j show ?thesis by (auto simp: incarnation_acceptable_def word_le_nat_alt)
  qed
qed

lemma refute_about_self_members:
  "n \<noteq> the (ml_self_id ml) \<Longrightarrow>
     hm_get (ml_members (snd (refute_about_self inc ml))) n = hm_get (ml_members ml) n"
  by (auto simp: refute_about_self_def Let_def split: option.splits)

lemma refute_about_self_fields [simp]:
  "ml_self_id (snd (refute_about_self inc ml)) = ml_self_id ml"
  "ml_self_addr (snd (refute_about_self inc ml)) = ml_self_addr ml"
  "ml_self_cert_hash (snd (refute_about_self inc ml)) = ml_self_cert_hash ml"
  by (simp_all add: refute_about_self_def Let_def split: option.splits)

lemma apply_update_fields [simp]:
  "ml_self_id (snd (apply_update u ml)) = ml_self_id ml"
  "ml_self_addr (snd (apply_update u ml)) = ml_self_addr ml"
  "ml_self_cert_hash (snd (apply_update u ml)) = ml_self_cert_hash ml"
  by (simp_all add: apply_update_def Let_def split: gossip_update.splits option.splits)

text \<open>The node's own entry: known, alive, at its own incarnation.\<close>

definition self_ok :: "membership_list \<Rightarrow> bool" where
  "self_ok ml \<longleftrightarrow> (\<exists>n m. ml_self_id ml = Some n \<and> ml_self_addr ml \<noteq> None
     \<and> hm_get (ml_members ml) n = Some m \<and> mem_state m = Alive
     \<and> mem_incarnation m = ml_self_incarnation ml)"

text \<open>Every member is stored under its own node id.\<close>

definition members_wf :: "membership_list \<Rightarrow> bool" where
  "members_wf ml \<longleftrightarrow> hm_wf (ml_members ml)
     \<and> (\<forall>n m. hm_get (ml_members ml) n = Some m \<longrightarrow> mem_node_id m = n)"

lemma with_self_ok [simp]: "self_ok (with_self n a cert)" "members_wf (with_self n a cert)"
  by (simp_all add: self_ok_def members_wf_def with_self_def membership_new_def member_new_def
      Let_def wf_intros)

lemma refute_self_ok: "self_ok ml \<Longrightarrow> self_ok (snd (refute_about_self inc ml))"
  by (auto simp: self_ok_def refute_about_self_def Let_def)

lemma apply_update_self_ok: "self_ok ml \<Longrightarrow> self_ok (snd (apply_update u ml))"
  using refute_self_ok [of ml]
  by (cases u) (auto simp: apply_update_def Let_def self_ok_def split: option.splits)

lemma members_wf_modify:
  "members_wf ml \<Longrightarrow> (\<And>m. mem_node_id (f m) = mem_node_id m) \<Longrightarrow>
     members_wf (ml\<lparr>ml_members := hm_modify n f (ml_members ml)\<rparr>)"
  by (auto simp: members_wf_def wf_intros)

lemma apply_update_wf: "members_wf ml \<Longrightarrow> members_wf (snd (apply_update u ml))"
  by (cases u)
     (auto simp: apply_update_def Let_def refute_about_self_def members_wf_def wf_intros member_new_def
        split: option.splits if_splits)

section \<open>Runs of updates\<close>

definition merge_update :: "gossip_update \<Rightarrow> membership_list \<Rightarrow> membership_list" where
  "merge_update u ml = snd (apply_update u ml)"

text \<open>Nothing known is forgotten or replaced by something less fresh.\<close>

definition fresher :: "membership_list \<Rightarrow> membership_list \<Rightarrow> bool" where
  "fresher ml ml' \<longleftrightarrow> ml_self_id ml' = ml_self_id ml \<and> ml_self_incarnation ml \<le> ml_self_incarnation ml'
     \<and> (\<forall>n m. hm_get (ml_members ml) n = Some m \<longrightarrow>
          (\<exists>m'. hm_get (ml_members ml') n = Some m' \<and> freshness m \<le> freshness m'))"

lemma refute_next_ge:
  "ml_self_incarnation ml \<le> ml_self_incarnation (snd (refute_about_self inc ml))"
  by (auto simp: refute_about_self_def Let_def u64_saturating_add_ge le_max_iff_disj split: option.splits)

lemma refute_other:
  "ml_self_id ml = Some a \<Longrightarrow> n \<noteq> a \<Longrightarrow>
     hm_get (ml_members (snd (refute_about_self inc ml))) n = hm_get (ml_members ml) n"
  by (simp add: refute_about_self_members)

lemma refute_fresher:
  assumes "self_ok ml"
  shows "fresher ml (snd (refute_about_self inc ml))"
proof -
  let ?ml = "snd (refute_about_self inc ml)"
  from assms obtain a m where a: "ml_self_id ml = Some a" "hm_get (ml_members ml) a = Some m"
      "mem_state m = Alive" "mem_incarnation m = ml_self_incarnation ml"
    by (auto simp: self_ok_def)
  from refute_self_ok [OF assms, of inc] a(1) obtain m' where m': "hm_get (ml_members ?ml) a = Some m'"
      "mem_state m' = Alive" "mem_incarnation m' = ml_self_incarnation ?ml"
    by (auto simp: self_ok_def)
  have "freshness m \<le> freshness m'"
    using refute_next_ge [of ml inc] a m' by (auto simp: freshness_def less_eq_prod_simp)
  then have "\<exists>m''. hm_get (ml_members ?ml) n = Some m'' \<and> freshness x \<le> freshness m''"
    if "hm_get (ml_members ml) n = Some x" for n x
    using that a m' refute_other [OF a(1), of n inc] by (cases "n = a") auto
  then show ?thesis
    using refute_next_ge [of ml inc] by (simp add: fresher_def)
qed

lemma fresher_refl [simp]: "fresher ml ml"
  by (simp add: fresher_def)

lemma fresher_modify:
  "(\<And>m. freshness m \<le> freshness (f m)) \<Longrightarrow>
     fresher ml (ml\<lparr>ml_members := hm_modify n f (ml_members ml)\<rparr>)"
  by (simp add: fresher_def)

lemma fresher_insert:
  "hm_get (ml_members ml) n = None \<Longrightarrow> fresher ml (ml\<lparr>ml_members := hm_insert n x (ml_members ml)\<rparr>)"
  by (auto simp: fresher_def)

lemma merge_update_fresher:
  assumes "self_ok ml"
  shows "fresher ml (merge_update u ml)"
proof (cases "ml_self_id ml = Some (upd_node_id u)")
  case True
  with refute_fresher [OF assms] show ?thesis
    unfolding merge_update_def apply_update_def Let_def by (cases u) simp_all
next
  case False
  then show ?thesis
    unfolding merge_update_def apply_update_def Let_def
    by (cases u) (simp_all add: fresher_modify fresher_insert member_ops_fresher split: option.splits)
qed

lemma fresher_trans: "fresher a b \<Longrightarrow> fresher b c \<Longrightarrow> fresher a c"
proof -
  assume ab: "fresher a b" and bc: "fresher b c"
  have "\<exists>m''. hm_get (ml_members c) n = Some m'' \<and> freshness m \<le> freshness m''"
    if n: "hm_get (ml_members a) n = Some m" for n m
  proof -
    from ab n obtain m' where m': "hm_get (ml_members b) n = Some m'" "freshness m \<le> freshness m'"
      by (auto simp: fresher_def)
    from bc m'(1) obtain m'' where "hm_get (ml_members c) n = Some m''" "freshness m' \<le> freshness m''"
      unfolding fresher_def by blast
    with m'(2) show ?thesis by (blast intro: order_trans)
  qed
  moreover have "ml_self_incarnation a \<le> ml_self_incarnation c"
    using ab bc by (auto simp: fresher_def intro: order_trans)
  ultimately show ?thesis using ab bc by (simp add: fresher_def)
qed

interpretation mm: monotone_steps merge_update self_ok fresher
proof
  show "fresher s s" for s by (simp add: fresher_def)
  show "fresher s t \<Longrightarrow> fresher t u \<Longrightarrow> fresher s u" for s t u by (rule fresher_trans)
  show "self_ok s \<Longrightarrow> fresher s (merge_update e s)" for s e by (rule merge_update_fresher)
  show "self_ok s \<Longrightarrow> self_ok (merge_update e s)" for s e
    by (simp add: merge_update_def apply_update_self_ok)
qed

lemma refute_emits:
  assumes "fst (refute_about_self inc ml) = Some r"
  shows "\<exists>n. ml_self_id ml = Some n \<and> upd_node_id r = n" and "(\<exists>a c. r = AliveUpd (upd_node_id r) a (upd_incarnation r) c)"
    and "u64_saturating_add (ml_self_incarnation ml) 1 \<le> upd_incarnation r"
    and "u64_saturating_add inc 1 \<le> upd_incarnation r"
  using assms by (auto simp: refute_about_self_def Let_def split: option.splits if_splits)

lemma apply_update_emits:
  assumes "fst (apply_update u ml) = Some r"
  shows "\<exists>inc. fst (refute_about_self inc ml) = Some r"
  using assms by (auto simp: apply_update_def Let_def split: gossip_update.splits if_splits)

section \<open>Properties\<close>

text \<open>
  C12: gossip never makes a node's view less fresh: along any sequence of received updates, every
  known member keeps an entry whose incarnation, and severity at equal incarnation, does not
  decrease, and the node stays Alive in its own list at its own incarnation.
\<close>

theorem membership_monotone:
  assumes "self_ok ml" and "hm_get (ml_members ml) n = Some m"
  shows "self_ok (fold merge_update us ml)
    \<and> (\<exists>m'. hm_get (ml_members (fold merge_update us ml)) n = Some m'
         \<and> (mem_incarnation m < mem_incarnation m'
            \<or> mem_incarnation m = mem_incarnation m' \<and> state_rank (mem_state m) \<le> state_rank (mem_state m')))"
proof -
  from mm.run_le [OF assms(1), of us] assms(2) obtain m' where
      m': "hm_get (ml_members (fold merge_update us ml)) n = Some m'" "freshness m \<le> freshness m'"
    and "self_ok (fold merge_update us ml)"
    unfolding fresher_def by blast
  then show ?thesis by (auto simp: freshness_def less_eq_prod_simp)
qed

theorem membership_monotone_witness:
  "self_ok (fold merge_update [SuspectUpd 1 addr1 4, AliveUpd 2 addr1 0 None, DeadUpd 2 addr1 0]
     (with_self 1 addr1 None))"
  by (rule membership_monotone [where n = 1, THEN conjunct1])
     (simp_all, simp add: with_self_def Let_def membership_new_def)

text \<open>
  Stale or repeated gossip about another node is ignored: an update that is not fresher than
  what is known of its node changes nothing for any node and produces no reply.
\<close>

theorem stale_update_ignored:
  assumes "ml_self_id ml \<noteq> Some (upd_node_id u)"
    and "hm_get (ml_members ml) (upd_node_id u) = Some m"
    and "(upd_incarnation u, precedence u) \<le> freshness m"
  shows "fst (apply_update u ml) = None
    \<and> hm_get (ml_members (snd (apply_update u ml))) n = hm_get (ml_members ml) n"
  using assms
  by (cases u; cases "mem_state m")
     (auto simp: apply_update_def Let_def member_ops freshness_def less_eq_prod_simp)

theorem stale_update_ignored_witness:
  "fst (apply_update (DeadUpd 2 addr1 4) (merge_update (AliveUpd 2 addr1 5 None) (with_self 1 addr1 None))) = None"
  by (rule stale_update_ignored [where m = "(member_new 2 addr1)\<lparr>mem_incarnation := 5\<rparr>", THEN conjunct1])
     (simp_all add: merge_update_def apply_update_def with_self_def membership_new_def Let_def
        freshness_def member_new_def less_eq_prod_simp)

text \<open>
  Refutation works between two nodes: when node \<open>a\<close> hears that a peer holds it in any state at
  incarnation \<open>s\<close>, which is not behind its own, its reply makes that peer hold it Alive at the next
  incarnation, unless \<open>s\<close> is the largest \<open>u64\<close>.
\<close>

theorem refutation_restores:
  assumes "self_ok A" and "ml_self_id A = Some a" and "ml_self_incarnation A \<le> s" and "s \<noteq> u64_max"
    and "ml_self_id P \<noteq> Some a" and "hm_get (ml_members P) a = Some m" and "mem_incarnation m = s"
  shows "\<exists>r. fst (apply_update (SuspectUpd a ad s) A) = Some r
    \<and> hm_get (ml_members (snd (apply_update r P))) a
        = Some (m\<lparr>mem_state := Alive, mem_incarnation := s + 1\<rparr>)"
proof -
  have sat: "u64_saturating_add s 1 = s + 1"
    by (rule u64_saturating_add_1) (rule assms(4))
  have "u64_saturating_add (ml_self_incarnation A) 1 \<le> u64_saturating_add s 1"
    using assms(3) by (simp add: word_le_nat_alt unat_u64_saturating_add)
  then have nxt: "max (u64_saturating_add (ml_self_incarnation A) 1) (u64_saturating_add s 1) = s + 1"
    by (simp add: sat max_def)
  have gt: "s < s + 1" using u64_saturating_add_1_gt [OF assms(4)] by (simp add: sat)
  have "unat (s + 1) \<le> unat s + 1"
    using unat_u64_saturating_add [of s 1] by (simp add: sat)
  then have "incarnation_acceptable s (s + 1)" by (simp add: acceptable_iff)
  with gt assms(5-7) have P: "hm_get (ml_members (snd (apply_update (AliveUpd a y (s + 1) c) P))) a
      = Some (m\<lparr>mem_state := Alive, mem_incarnation := s + 1\<rparr>)" for y c
    by (simp add: apply_update_def member_alive_def)
  from assms(1,2) obtain y where y: "ml_self_addr A = Some y" by (auto simp: self_ok_def)
  have "fst (apply_update (SuspectUpd a ad s) A) = Some (AliveUpd a y (s + 1) (ml_self_cert_hash A))"
    using assms(2,3) y nxt by (simp add: apply_update_def refute_about_self_def Let_def not_less)
  with P show ?thesis by blast
qed

theorem refutation_restores_witness:
  "\<exists>r. fst (apply_update (SuspectUpd 1 addr1 0) (with_self 1 addr1 None)) = Some r
    \<and> hm_get (ml_members (snd (apply_update r (ml_add (member_new 1 addr1) (with_self 2 addr1 None))))) 1
        = Some ((member_new 1 addr1)\<lparr>mem_state := Alive, mem_incarnation := 0 + 1\<rparr>)"
  by (rule refutation_restores)
     (simp_all, simp_all add: with_self_def membership_new_def Let_def ml_add_def member_new_def u64_max_def)

text \<open>
  A rumour about the node itself is not checked against \<open>MAX_INCARNATION_JUMP\<close>: once a node has
  refuted a Suspect, Dead or Leave at an incarnation \<open>s\<close> that is more than the allowed jump above what a
  peer knows of it, every Alive update it emits later, after any updates it receives, is
  rejected by that peer.
\<close>

theorem poisoned_refutation:
  assumes "self_ok A" and "ml_self_id A = Some a" and "ml_self_incarnation A \<le> s"
    and "ml_self_id P \<noteq> Some a" and "hm_get (ml_members P) a = Some m"
    and "unat (mem_incarnation m) + 2 ^ 32 < unat s"
    and "fst (apply_update u (fold merge_update us (merge_update (SuspectUpd a ad s) A))) = Some r"
  shows "hm_get (ml_members (snd (apply_update r P))) a = Some m"
proof -
  let ?A = "merge_update (SuspectUpd a ad s) A"
  let ?B = "fold merge_update us ?A"
  have ok: "self_ok ?A" using assms(1) by (simp add: merge_update_def apply_update_self_ok)
  from mm.run_le [OF ok, of us] have B: "ml_self_incarnation ?A \<le> ml_self_incarnation ?B"
      "ml_self_id ?B = Some a"
    using assms(2) by (auto simp: fresher_def merge_update_def)
  have "s \<le> ml_self_incarnation ?A"
    using assms(1-3) u64_saturating_add_ge [of s 1]
    by (auto simp: self_ok_def merge_update_def apply_update_def refute_about_self_def Let_def
        le_max_iff_disj)
  with B(1) have s: "s \<le> ml_self_incarnation ?B" by simp
  from apply_update_emits [OF assms(7)] obtain inc where inc: "fst (refute_about_self inc ?B) = Some r"
    by blast
  from refute_emits [OF inc] B(2) obtain ad' c where r: "r = AliveUpd a ad' (upd_incarnation r) c"
      and "ml_self_incarnation ?B \<le> upd_incarnation r"
    using u64_saturating_add_ge [of "ml_self_incarnation ?B" 1] by (auto intro: order_trans)
  with s have "unat s \<le> unat (upd_incarnation r)" by (simp add: word_le_nat_alt)
  with assms(6) have "\<not> incarnation_acceptable (mem_incarnation m) (upd_incarnation r)"
    by (simp add: acceptable_iff)
  then show ?thesis
    using assms(4,5) by (subst r) (simp add: apply_update_def member_alive_def)
qed

theorem poisoned_refutation_witness:
  "hm_get (ml_members (snd (apply_update (AliveUpd 1 addr1 5000000002 None)
     (ml_add (member_new 1 addr1) (with_self 2 addr1 None))))) 1 = Some (member_new 1 addr1)"
  by (rule poisoned_refutation [where A = "with_self 1 addr1 None" and s = 5000000000 and us = "[]"
        and u = "DeadUpd 1 addr1 5000000001" and ad = addr1])
     (simp_all, simp_all add: with_self_def membership_new_def Let_def ml_add_def member_new_def
        merge_update_def apply_update_def refute_about_self_def u64_saturating_add_def)

end
