(* ===== verification/Detector.thy ===== *)
theory Detector
  imports Member
begin

text \<open>
  The SWIM configuration and failure detector
  (\<^verbatim>\<open>crates/rebar-cluster/src/swim/config.rs\<close>, \<^verbatim>\<open>swim/detector.rs\<close>): probe counters, suspect and dead
  timers. The current time is an argument, as in the code; \<open>ord\<close> is the iteration order of the
  timer maps and \<open>pick\<close> the random choice of a probe target.
\<close>

section \<open>Configuration\<close>

record swim_config =
  protocol_period :: duration
  suspect_timeout :: duration
  dead_removal_delay :: duration
  indirect_probe_count :: usize
  max_gossip_per_tick :: usize

definition swim_config_default :: swim_config where
  "swim_config_default = \<lparr>protocol_period = from_secs 1, suspect_timeout = from_secs 5,
     dead_removal_delay = from_secs 30, indirect_probe_count = 3, max_gossip_per_tick = 8\<rparr>"

record swim_config_builder =
  scb_config :: swim_config

definition config_builder :: swim_config_builder where
  "config_builder = \<lparr>scb_config = swim_config_default\<rparr>"

definition with_protocol_period :: "duration \<Rightarrow> swim_config_builder \<Rightarrow> swim_config_builder" where
  "with_protocol_period d b = b\<lparr>scb_config := (scb_config b)\<lparr>protocol_period := d\<rparr>\<rparr>"

definition with_suspect_timeout :: "duration \<Rightarrow> swim_config_builder \<Rightarrow> swim_config_builder" where
  "with_suspect_timeout d b = b\<lparr>scb_config := (scb_config b)\<lparr>suspect_timeout := d\<rparr>\<rparr>"

definition with_dead_removal_delay :: "duration \<Rightarrow> swim_config_builder \<Rightarrow> swim_config_builder" where
  "with_dead_removal_delay d b = b\<lparr>scb_config := (scb_config b)\<lparr>dead_removal_delay := d\<rparr>\<rparr>"

definition with_indirect_probe_count :: "usize \<Rightarrow> swim_config_builder \<Rightarrow> swim_config_builder" where
  "with_indirect_probe_count n b = b\<lparr>scb_config := (scb_config b)\<lparr>indirect_probe_count := n\<rparr>\<rparr>"

definition with_max_gossip_per_tick :: "usize \<Rightarrow> swim_config_builder \<Rightarrow> swim_config_builder" where
  "with_max_gossip_per_tick n b = b\<lparr>scb_config := (scb_config b)\<lparr>max_gossip_per_tick := n\<rparr>\<rparr>"

definition config_build :: "swim_config_builder \<Rightarrow> swim_config" where
  "config_build b = scb_config b"

section \<open>The failure detector\<close>

record failure_detector =
  suspect_timers :: "(u64, instant) hashmap"
  dead_timers :: "(u64, instant) hashmap"
  failed_probes :: "(u64, usize) hashmap"

type_synonym timer_order = "(u64, instant) hashmap \<Rightarrow> (u64 \<times> instant) list"

type_synonym detector_view = "failure_detector \<times> membership_list"

definition detector_new :: failure_detector where
  "detector_new = \<lparr>suspect_timers = [], dead_timers = [], failed_probes = []\<rparr>"

definition detector_tick ::
  "(member list \<Rightarrow> member option) \<Rightarrow> member_order \<Rightarrow> membership_list \<Rightarrow> u64 \<Rightarrow> u64 option" where
  "detector_tick pick ord ml self_id =
     map_option mem_node_id
       (pick (filter (\<lambda>m. mem_node_id m \<noteq> self_id \<and> mem_state m \<noteq> Dead) (all_members ord ml)))"

definition record_ack :: "u64 \<Rightarrow> detector_view \<Rightarrow> detector_view" where
  "record_ack node v =
     (case v of (d, ml) \<Rightarrow>
       (d\<lparr>failed_probes := hm_remove node (failed_probes d),
          suspect_timers := hm_remove node (suspect_timers d)\<rparr>,
        (case hm_get (ml_members ml) node of
           Some m \<Rightarrow>
             if mem_state m = Suspect
             then ml\<lparr>ml_members := hm_modify node (\<lambda>m. m\<lparr>mem_state := Alive\<rparr>) (ml_members ml)\<rparr>
             else ml
         | None \<Rightarrow> ml)))"

definition record_nack :: "swim_config \<Rightarrow> u64 \<Rightarrow> instant \<Rightarrow> detector_view \<Rightarrow> detector_view" where
  "record_nack config node now v =
     (case v of (d, ml) \<Rightarrow>
       let attempts = usize_saturating_add (case hm_get (failed_probes d) node of Some k \<Rightarrow> k | None \<Rightarrow> 0) 1;
           d1 = d\<lparr>failed_probes := hm_insert node attempts (failed_probes d)\<rparr>;
           required = usize_add 1 (indirect_probe_count config) in
       if attempts < required then (d1, ml)
       else
         (case hm_get (ml_members ml) node of
            Some m \<Rightarrow>
              if mem_state m = Alive
              then (d1\<lparr>suspect_timers := (if hm_contains node (suspect_timers d1) then suspect_timers d1
                        else hm_insert node now (suspect_timers d1))\<rparr>,
                    ml\<lparr>ml_members := hm_modify node (\<lambda>m. member_suspect (mem_incarnation m) m) (ml_members ml)\<rparr>)
              else (d1, ml)
          | None \<Rightarrow> (d1, ml)))"

text \<open>One round of the loop of \<open>check_suspect_timeouts\<close>.\<close>

definition expire_suspect :: "instant \<Rightarrow> u64 \<Rightarrow> u64 list \<times> detector_view \<Rightarrow> u64 list \<times> detector_view" where
  "expire_suspect now node st =
     (case st of (newly_dead, d, ml) \<Rightarrow>
       let incarnation = (case hm_get (ml_members ml) node of Some m \<Rightarrow> mem_incarnation m | None \<Rightarrow> 0) in
       (newly_dead @ [node],
        d\<lparr>suspect_timers := hm_remove node (suspect_timers d),
          failed_probes := hm_remove node (failed_probes d),
          dead_timers := hm_insert node now (dead_timers d)\<rparr>,
        mark_dead node incarnation ml))"

definition expired_timers :: "timer_order \<Rightarrow> duration \<Rightarrow> instant \<Rightarrow> (u64, instant) hashmap \<Rightarrow> u64 list" where
  "expired_timers ord limit now timers =
     map fst (filter (\<lambda>(_, since). duration_since now since \<ge> limit) (ord timers))"

definition check_suspect_timeouts ::
  "timer_order \<Rightarrow> swim_config \<Rightarrow> instant \<Rightarrow> detector_view \<Rightarrow> u64 list \<times> detector_view" where
  "check_suspect_timeouts ord config now v =
     fold (expire_suspect now)
       (expired_timers ord (suspect_timeout config) now (suspect_timers (fst v))) ([], v)"

text \<open>One round of the first loop of \<open>remove_expired_dead\<close>.\<close>

definition expire_dead :: "membership_list \<Rightarrow> u64 \<Rightarrow> u64 list \<times> failure_detector \<Rightarrow> u64 list \<times> failure_detector" where
  "expire_dead ml node st =
     (case st of (removed, d) \<Rightarrow>
       ((case hm_get (ml_members ml) node of
           Some m \<Rightarrow> if mem_state m = Dead then removed @ [node] else removed
         | None \<Rightarrow> removed),
        d\<lparr>dead_timers := hm_remove node (dead_timers d)\<rparr>))"

definition remove_expired_dead ::
  "timer_order \<Rightarrow> swim_config \<Rightarrow> instant \<Rightarrow> detector_view \<Rightarrow> u64 list \<times> detector_view" where
  "remove_expired_dead ord config now v =
     (case v of (d, ml) \<Rightarrow>
       let (removed, d') = fold (expire_dead ml)
             (expired_timers ord (dead_removal_delay config) now (dead_timers d)) ([], d) in
       (removed, d', fold ml_remove_node removed ml))"

section \<open>The loops, map by map\<close>

lemma expire_suspect_fold:
  "fold (expire_suspect now) ids (acc, d, ml) =
     (acc @ ids,
      d\<lparr>suspect_timers := fold hm_remove ids (suspect_timers d),
        failed_probes := fold hm_remove ids (failed_probes d),
        dead_timers := fold (\<lambda>n. hm_insert n now) ids (dead_timers d)\<rparr>,
      fold (\<lambda>n ml. mark_dead n (case hm_get (ml_members ml) n of Some m \<Rightarrow> mem_incarnation m | None \<Rightarrow> 0) ml) ids ml)"
  by (induction ids arbitrary: acc d ml) (simp_all add: expire_suspect_def Let_def)

lemma expire_dead_fold:
  "fold (expire_dead ml) ids (acc, d) =
     (acc @ filter (\<lambda>n. \<exists>m. hm_get (ml_members ml) n = Some m \<and> mem_state m = Dead) ids,
      d\<lparr>dead_timers := fold hm_remove ids (dead_timers d)\<rparr>)"
  by (induction ids arbitrary: acc d) (auto simp: expire_dead_def split: option.splits)

lemma hm_wf_fold_insert: "hm_wf m \<Longrightarrow> hm_wf (fold (\<lambda>n. hm_insert n v) ids m)"
  by (induction ids arbitrary: m) (auto simp: wf_intros)

lemma member_dead_now: "member_dead (mem_incarnation m) m = m\<lparr>mem_state := Dead\<rparr>"
  by (cases m) (auto simp: member_dead_def incarnation_acceptable_def)

lemma member_suspect_now:
  "mem_state m = Alive \<Longrightarrow> member_suspect (mem_incarnation m) m = m\<lparr>mem_state := Suspect\<rparr>"
  by (cases m) (auto simp: member_suspect_def incarnation_acceptable_def)

lemma mark_dead_get:
  "hm_get (ml_members (mark_dead k (case hm_get (ml_members ml) k of Some m \<Rightarrow> mem_incarnation m | None \<Rightarrow> 0) ml)) n
     = (if n = k then map_option (\<lambda>m. m\<lparr>mem_state := Dead\<rparr>) (hm_get (ml_members ml) n)
        else hm_get (ml_members ml) n)"
  by (auto simp: mark_dead_def member_dead_now split: option.splits)

lemma mark_dead_fold_get:
  "hm_get (ml_members
     (fold (\<lambda>n ml. mark_dead n (case hm_get (ml_members ml) n of Some m \<Rightarrow> mem_incarnation m | None \<Rightarrow> 0) ml) ids ml)) n
     = (if n \<in> set ids then map_option (\<lambda>m. m\<lparr>mem_state := Dead\<rparr>) (hm_get (ml_members ml) n)
        else hm_get (ml_members ml) n)"
  by (induction ids arbitrary: ml) (simp_all add: mark_dead_get option.map_comp comp_def)

lemma ml_remove_fold_get:
  "hm_get (ml_members (fold ml_remove_node ids ml)) n
     = (if n \<in> set ids then None else hm_get (ml_members ml) n)"
  by (induction ids arbitrary: ml) (auto simp: ml_remove_node_def)

lemma expired_timers_set:
  assumes "hash_order ord" and "hm_wf timers"
  shows "n \<in> set (expired_timers ord limit now timers) \<longleftrightarrow>
    (\<exists>t. hm_get timers n = Some t \<and> limit \<le> now - t)"
  using assms by (force simp: expired_timers_def hash_order_set hm_get_Some_iff duration_since_def)

definition detector_wf :: "detector_view \<Rightarrow> bool" where
  "detector_wf v \<longleftrightarrow> hm_wf (suspect_timers (fst v)) \<and> hm_wf (dead_timers (fst v))"

lemma check_suspect_timeouts_get:
  assumes "hash_order ord" and "detector_wf (d, ml)"
    and "check_suspect_timeouts ord config now (d, ml) = (dead, d', ml')"
  shows "n \<in> set dead \<longleftrightarrow> (\<exists>t. hm_get (suspect_timers d) n = Some t \<and> suspect_timeout config \<le> now - t)"
    and "hm_get (ml_members ml') n = (if n \<in> set dead
           then map_option (\<lambda>m. m\<lparr>mem_state := Dead\<rparr>) (hm_get (ml_members ml) n)
           else hm_get (ml_members ml) n)"
    and "hm_get (suspect_timers d') n = (if n \<in> set dead then None else hm_get (suspect_timers d) n)"
    and "hm_get (failed_probes d') n = (if n \<in> set dead then None else hm_get (failed_probes d) n)"
    and "hm_get (dead_timers d') n = (if n \<in> set dead then Some now else hm_get (dead_timers d) n)"
    and "detector_wf (d', ml')"
  using assms expired_timers_set [OF assms(1), of "suspect_timers d"]
  by (auto simp: check_suspect_timeouts_def expire_suspect_fold detector_wf_def mark_dead_fold_get
      hm_get_fold_remove hm_get_fold_insert hm_wf_fold_remove hm_wf_fold_insert)

lemma remove_expired_dead_get:
  assumes "hash_order ord" and "detector_wf (d, ml)"
    and "remove_expired_dead ord config now (d, ml) = (removed, d', ml')"
  shows "n \<in> set removed \<longleftrightarrow> (\<exists>t m. hm_get (dead_timers d) n = Some t \<and> dead_removal_delay config \<le> now - t
           \<and> hm_get (ml_members ml) n = Some m \<and> mem_state m = Dead)"
    and "hm_get (ml_members ml') n = (if n \<in> set removed then None else hm_get (ml_members ml) n)"
    and "suspect_timers d' = suspect_timers d" and "failed_probes d' = failed_probes d"
    and "hm_get (dead_timers d') n = (if \<exists>t. hm_get (dead_timers d) n = Some t \<and> dead_removal_delay config \<le> now - t
           then None else hm_get (dead_timers d) n)"
    and "detector_wf (d', ml')"
  using assms expired_timers_set [OF assms(1), of "dead_timers d"]
  by (auto simp: remove_expired_dead_def expire_dead_fold detector_wf_def ml_remove_fold_get
      hm_get_fold_remove hm_wf_fold_remove)

section \<open>Histories\<close>

datatype detector_event =
    Acked u64
  | Nacked u64 instant
  | SuspectCheck instant
  | DeadCheck instant
  | Gossiped gossip_update

fun detector_step :: "timer_order \<Rightarrow> swim_config \<Rightarrow> detector_event \<Rightarrow> detector_view \<Rightarrow> detector_view" where
  "detector_step ord config (Acked n) v = record_ack n v"
| "detector_step ord config (Nacked n now) v = record_nack config n now v"
| "detector_step ord config (SuspectCheck now) v = snd (check_suspect_timeouts ord config now v)"
| "detector_step ord config (DeadCheck now) v = snd (remove_expired_dead ord config now v)"
| "detector_step ord config (Gossiped u) v = (fst v, merge_update u (snd v))"

text \<open>A node known to be dead of which no timer runs.\<close>

definition dead_untimed :: "u64 \<Rightarrow> detector_view \<Rightarrow> bool" where
  "dead_untimed n v \<longleftrightarrow> detector_wf v \<and> ml_self_id (snd v) \<noteq> Some n
     \<and> (\<exists>m. hm_get (ml_members (snd v)) n = Some m \<and> mem_state m = Dead)
     \<and> hm_get (suspect_timers (fst v)) n = None \<and> hm_get (dead_timers (fst v)) n = None"

fun revives :: "u64 \<Rightarrow> detector_event \<Rightarrow> bool" where
  "revives n (Gossiped (AliveUpd n' _ _ _)) = (n' = n)"
| "revives n _ = False"

lemma merge_other:
  "ml_self_id ml \<noteq> Some n \<Longrightarrow> upd_node_id u \<noteq> n \<Longrightarrow>
     hm_get (ml_members (merge_update u ml)) n = hm_get (ml_members ml) n"
  by (cases u)
     (auto simp: merge_update_def apply_update_def Let_def refute_about_self_def split: option.splits)

lemma merge_dead_stays:
  assumes "hm_get (ml_members ml) n = Some m" and "mem_state m = Dead" and "ml_self_id ml \<noteq> Some n"
    and "\<not> revives n (Gossiped u)"
  shows "hm_get (ml_members (merge_update u ml)) n = Some m"
proof (cases "upd_node_id u = n")
  case True
  with assms show ?thesis
    by (cases u) (simp_all add: merge_update_def apply_update_def Let_def member_ops)
qed (simp add: assms merge_other)

lemma merge_update_self [simp]: "ml_self_id (merge_update u ml) = ml_self_id ml"
  by (simp add: merge_update_def)

lemma fold_self_id:
  "(\<And>x s. ml_self_id (f x s) = ml_self_id s) \<Longrightarrow> ml_self_id (fold f xs ml) = ml_self_id ml"
  by (induction xs arbitrary: ml) auto

lemma detector_ops_self [simp]:
  "ml_self_id (snd (record_ack n v)) = ml_self_id (snd v)"
  "ml_self_id (snd (record_nack config n now v)) = ml_self_id (snd v)"
  "ml_self_id (snd (snd (check_suspect_timeouts ord config now v))) = ml_self_id (snd v)"
  "ml_self_id (snd (snd (remove_expired_dead ord config now v))) = ml_self_id (snd v)"
  by (cases v; simp add: record_ack_def record_nack_def Let_def check_suspect_timeouts_def
      remove_expired_dead_def expire_suspect_fold expire_dead_fold fold_self_id mark_dead_def
      ml_remove_node_def split: option.splits)+

lemma dead_untimed_step:
  assumes ord: "hash_order ord" and du: "dead_untimed n v" and nr: "\<not> revives n e"
  shows "dead_untimed n (detector_step ord config e v)"
proof -
  obtain d ml where v: "v = (d, ml)" by (cases v)
  note wf = du [unfolded dead_untimed_def v, THEN conjunct1]
  show ?thesis
  proof (cases e)
    case (Acked k)
    with du show ?thesis
      by (auto simp: dead_untimed_def record_ack_def detector_wf_def wf_intros v split: option.splits)
  next
    case (Nacked k now)
    with du show ?thesis
      by (auto simp: dead_untimed_def record_nack_def detector_wf_def wf_intros Let_def v split: option.splits)
  next
    case (SuspectCheck now)
    obtain dead d' ml' where eq: "check_suspect_timeouts ord config now (d, ml) = (dead, d', ml')"
      by (cases "check_suspect_timeouts ord config now (d, ml)") auto
    note g = check_suspect_timeouts_get [OF ord wf eq]
    have self: "ml_self_id ml' = ml_self_id ml" by (metis detector_ops_self(3) eq snd_conv)
    have "n \<notin> set dead" using g(1) [of n] du by (simp add: dead_untimed_def v)
    with g(1-5) [of n] g(6) du SuspectCheck eq self show ?thesis
      by (simp add: dead_untimed_def v)
  next
    case (DeadCheck now)
    obtain removed d' ml' where eq: "remove_expired_dead ord config now (d, ml) = (removed, d', ml')"
      by (cases "remove_expired_dead ord config now (d, ml)") auto
    note g = remove_expired_dead_get [OF ord wf eq]
    have self: "ml_self_id ml' = ml_self_id ml" by (metis detector_ops_self(4) eq snd_conv)
    have "n \<notin> set removed" using g(1) [of n] du by (simp add: dead_untimed_def v)
    with g(1,2,5) [of n] g(3,4,6) du DeadCheck eq self show ?thesis
      by (auto simp: dead_untimed_def v)
  next
    case (Gossiped u)
    with du nr merge_dead_stays [of ml n _ u] show ?thesis
      by (auto simp: dead_untimed_def detector_wf_def v)
  qed
qed

text \<open>The invariant, for one hash order and one node.\<close>

definition fixed_order :: "timer_order \<Rightarrow> timer_order" where
  "fixed_order ord = (if hash_order ord then ord else (\<lambda>m. m))"

lemma fixed_order_ok: "hash_order (fixed_order ord)"
  by (simp add: fixed_order_def)

interpretation det: step_invariant "detector_step (fixed_order ord) config" "\<lambda>e. \<not> revives n e" "dead_untimed n"
  for ord config n
  by unfold_locales (simp add: dead_untimed_step fixed_order_ok)

lemma nack_below:
  assumes "hm_get (failed_probes d) n = (if k = 0 then None else Some k)"
    and "k < indirect_probe_count config" and "indirect_probe_count config < usize_max"
  shows "record_nack config n now (d, ml) =
    (d\<lparr>failed_probes := hm_insert n (Suc k) (failed_probes d)\<rparr>, ml)"
proof -
  have "usize_add 1 (indirect_probe_count config) = Suc (indirect_probe_count config)"
    using assms(3) by (simp add: usize_add_def usize_max_def)
  moreover have "k < usize_max" using assms(2,3) by simp
  ultimately show ?thesis
    using assms(1,2) by (auto simp: record_nack_def Let_def)
qed

lemma nacks_below:
  assumes "hm_get (failed_probes d) n = None" and "length ts \<le> indirect_probe_count config"
    and "indirect_probe_count config < usize_max"
  shows "\<exists>fp. fold (record_nack config n) ts (d, ml) = (d\<lparr>failed_probes := fp\<rparr>, ml)
    \<and> hm_get fp n = (if ts = [] then None else Some (length ts))"
  using assms(2)
proof (induction ts rule: rev_induct)
  case Nil
  show ?case by (rule exI [of _ "failed_probes d"]) (simp add: assms(1))
next
  case (snoc t ts)
  then obtain fp where fp: "fold (record_nack config n) ts (d, ml) = (d\<lparr>failed_probes := fp\<rparr>, ml)"
      "hm_get fp n = (if ts = [] then None else Some (length ts))" by auto
  have "record_nack config n t (d\<lparr>failed_probes := fp\<rparr>, ml) =
      (d\<lparr>failed_probes := hm_insert n (Suc (length ts)) fp\<rparr>, ml)"
    using nack_below [of "d\<lparr>failed_probes := fp\<rparr>" n "length ts" config] fp(2) snoc.prems assms(3) by simp
  with fp(1) show ?case
    by (intro exI [of _ "hm_insert n (Suc (length ts)) fp"]) simp
qed

lemma nack_reaches:
  assumes "hm_get (failed_probes d) n = (if k = 0 then None else Some k)"
    and "k = indirect_probe_count config" and "indirect_probe_count config < usize_max"
    and "hm_get (ml_members ml) n = Some m" and "mem_state m = Alive"
  shows "hm_get (ml_members (snd (record_nack config n now (d, ml)))) n = Some (m\<lparr>mem_state := Suspect\<rparr>)"
    and "hm_get (suspect_timers (fst (record_nack config n now (d, ml)))) n =
      (case hm_get (suspect_timers d) n of None \<Rightarrow> Some now | Some t \<Rightarrow> Some t)"
proof -
  have "usize_add 1 (indirect_probe_count config) = Suc (indirect_probe_count config)"
    using assms(3) by (simp add: usize_add_def usize_max_def)
  moreover have "k < usize_max" using assms(2,3) by simp
  ultimately show "hm_get (ml_members (snd (record_nack config n now (d, ml)))) n = Some (m\<lparr>mem_state := Suspect\<rparr>)"
    and "hm_get (suspect_timers (fst (record_nack config n now (d, ml)))) n =
      (case hm_get (suspect_timers d) n of None \<Rightarrow> Some now | Some t \<Rightarrow> Some t)"
    using assms(1,2,4,5) by (auto simp: record_nack_def Let_def member_suspect_now hm_contains_def split: option.splits)
qed

section \<open>Properties\<close>

text \<open>
  A healthy node is suspected after exactly \<open>1 + indirect_probe_count\<close> consecutive failed
  probes: with fewer it stays Alive and no timer runs, and the failure that completes the count
  makes it Suspect at its incarnation and starts the suspect timer at that moment.
\<close>

theorem suspicion_threshold:
  assumes "hm_get (ml_members ml) n = Some m" and "mem_state m = Alive"
    and "hm_get (failed_probes d) n = None" and "hm_get (suspect_timers d) n = None"
    and "indirect_probe_count config < usize_max" and "length ts = indirect_probe_count config"
  shows "(\<forall>k \<le> length ts.
      hm_get (ml_members (snd (fold (record_nack config n) (take k ts) (d, ml)))) n = Some m
      \<and> hm_get (suspect_timers (fst (fold (record_nack config n) (take k ts) (d, ml)))) n = None)
    \<and> hm_get (ml_members (snd (fold (record_nack config n) (ts @ [t]) (d, ml)))) n = Some (m\<lparr>mem_state := Suspect\<rparr>)
      \<and> hm_get (suspect_timers (fst (fold (record_nack config n) (ts @ [t]) (d, ml)))) n = Some t"
proof -
  have below: "hm_get (ml_members (snd (fold (record_nack config n) (take k ts) (d, ml)))) n = Some m
      \<and> hm_get (suspect_timers (fst (fold (record_nack config n) (take k ts) (d, ml)))) n = None"
    if "k \<le> length ts" for k
    using nacks_below [of d n "take k ts" config ml] assms that by auto
  obtain fp where fp: "fold (record_nack config n) ts (d, ml) = (d\<lparr>failed_probes := fp\<rparr>, ml)"
      "hm_get fp n = (if length ts = 0 then None else Some (length ts))"
    using nacks_below [of d n ts config ml] assms(3,5,6) by (metis le_refl length_0_conv)
  then have "hm_get (ml_members (snd (fold (record_nack config n) (ts @ [t]) (d, ml)))) n = Some (m\<lparr>mem_state := Suspect\<rparr>)
      \<and> hm_get (suspect_timers (fst (fold (record_nack config n) (ts @ [t]) (d, ml)))) n = Some t"
    using nack_reaches [of "d\<lparr>failed_probes := fp\<rparr>" n "length ts" config ml m t] assms by simp
  with below show ?thesis by blast
qed

theorem suspicion_threshold_witness:
  "hm_get (suspect_timers (fst (fold (record_nack swim_config_default 2) ([10, 20, 30] @ [40])
     (detector_new, ml_add (member_new 2 addr1) (with_self 1 addr1 None))))) 2 = Some 40"
  by (rule suspicion_threshold [where m = "member_new 2 addr1", THEN conjunct2, THEN conjunct2])
     (simp_all add: ml_add_def member_new_def detector_new_def swim_config_default_def usize_max_def)

text \<open>
  A timeout check declares dead exactly the nodes whose suspect timer has run for
  \<open>suspect_timeout\<close> or longer: they become Dead at their incarnation, their suspect timer and probe
  count are dropped and their removal timer starts now; every other node keeps its entry and
  timers, and no expired suspect timer is left.
\<close>

theorem suspect_timeouts_exact:
  assumes "hash_order ord" and "detector_wf (d, ml)"
    and "check_suspect_timeouts ord config now (d, ml) = (dead, d', ml')"
  shows "(\<forall>n. n \<in> set dead \<longleftrightarrow>
        (\<exists>t. hm_get (suspect_timers d) n = Some t \<and> suspect_timeout config \<le> now - t))
    \<and> (\<forall>n \<in> set dead. hm_get (ml_members ml') n
           = map_option (\<lambda>m. m\<lparr>mem_state := Dead\<rparr>) (hm_get (ml_members ml) n)
         \<and> hm_get (suspect_timers d') n = None \<and> hm_get (failed_probes d') n = None
         \<and> hm_get (dead_timers d') n = Some now)
    \<and> (\<forall>n. n \<notin> set dead \<longrightarrow> hm_get (ml_members ml') n = hm_get (ml_members ml) n
         \<and> hm_get (suspect_timers d') n = hm_get (suspect_timers d) n
         \<and> hm_get (dead_timers d') n = hm_get (dead_timers d) n)
    \<and> fst (check_suspect_timeouts ord config now (d', ml')) = []"
proof (intro conjI)
  note g = check_suspect_timeouts_get [OF assms]
  obtain dead2 d2 ml2 where eq: "check_suspect_timeouts ord config now (d', ml') = (dead2, d2, ml2)"
    by (cases "check_suspect_timeouts ord config now (d', ml')") auto
  have "n \<notin> set dead2" for n
    using check_suspect_timeouts_get(1) [OF assms(1) g(6) eq, of n] g(1,3) [of n] by auto
  then have "dead2 = []" by (metis list.set_intros(1) neq_Nil_conv)
  then show "fst (check_suspect_timeouts ord config now (d', ml')) = []" by (simp add: eq)
qed (simp_all add: check_suspect_timeouts_get(2-5) [OF assms], simp add: check_suspect_timeouts_get(1) [OF assms])

theorem suspect_timeouts_exact_witness:
  "\<exists>dead d' ml'. check_suspect_timeouts rev swim_config_default (from_secs 9)
     (detector_new\<lparr>suspect_timers := [(2, from_secs 1), (3, from_secs 8)]\<rparr>,
      ml_add (member_new 2 addr1) (with_self 1 addr1 None)) = (dead, d', ml')
    \<and> 2 \<in> set dead \<and> 3 \<notin> set dead \<and> fst (check_suspect_timeouts rev swim_config_default (from_secs 9) (d', ml')) = []"
proof -
  let ?d = "detector_new\<lparr>suspect_timers := [(2 :: u64, from_secs 1), (3, from_secs 8)]\<rparr>"
  let ?ml = "ml_add (member_new 2 addr1) (with_self 1 addr1 None)"
  obtain dead d' ml' where eq: "check_suspect_timeouts rev swim_config_default (from_secs 9) (?d, ?ml) = (dead, d', ml')"
    by (cases "check_suspect_timeouts rev swim_config_default (from_secs 9) (?d, ?ml)") auto
  have wf: "detector_wf (?d, ?ml)" by (simp add: detector_wf_def detector_new_def hm_wf_def)
  show ?thesis
    using suspect_timeouts_exact [OF hash_order_rev wf eq] eq
    by (auto simp: hm_get_def swim_config_default_def from_secs_def)
qed

text \<open>
  Gossip does not stop a suspect timer. A suspected node that refutes with a higher
  acceptable incarnation is Alive again in the list, yet the next timeout check that finds the
  old timer expired declares it Dead, at the incarnation of the refutation.
\<close>

theorem refuted_node_declared_dead:
  assumes "hash_order ord" and "detector_wf (d, ml)"
    and "ml_self_id ml \<noteq> Some n" and "hm_get (ml_members ml) n = Some m"
    and "hm_get (suspect_timers d) n = Some t"
    and "mem_incarnation m < inc" and "incarnation_acceptable (mem_incarnation m) inc"
    and "suspect_timeout config \<le> now - t"
  shows "\<exists>m'. hm_get (ml_members (merge_update (AliveUpd n a inc c) ml)) n = Some m'
    \<and> mem_state m' = Alive \<and> mem_incarnation m' = inc
    \<and> hm_get (ml_members (snd (snd (check_suspect_timeouts ord config now
         (d, merge_update (AliveUpd n a inc c) ml))))) n = Some (m'\<lparr>mem_state := Dead\<rparr>)"
proof -
  let ?ml = "merge_update (AliveUpd n a inc c) ml"
  let ?m = "m\<lparr>mem_state := Alive, mem_incarnation := inc\<rparr>"
  have m: "hm_get (ml_members ?ml) n = Some ?m"
    using assms(3,4,6,7) by (simp add: merge_update_def apply_update_def member_alive_def)
  obtain dead d' ml' where eq: "check_suspect_timeouts ord config now (d, ?ml) = (dead, d', ml')"
    by (cases "check_suspect_timeouts ord config now (d, ?ml)") auto
  have wf: "detector_wf (d, ?ml)" using assms(2) by (simp add: detector_wf_def)
  from check_suspect_timeouts_get(1,2) [OF assms(1) wf eq, of n] m assms(5,8)
  have "hm_get (ml_members ml') n = Some (?m\<lparr>mem_state := Dead\<rparr>)" by auto
  with m eq show ?thesis by (intro exI [of _ ?m]) simp
qed

theorem refuted_node_declared_dead_witness:
  "\<exists>m'. hm_get (ml_members (merge_update (AliveUpd 2 addr1 1 None)
        (ml_add (member_new 2 addr1) (with_self 1 addr1 None)))) 2 = Some m'
    \<and> mem_state m' = Alive \<and> mem_incarnation m' = 1
    \<and> hm_get (ml_members (snd (snd (check_suspect_timeouts (\<lambda>m. m) swim_config_default (from_secs 6)
         (detector_new\<lparr>suspect_timers := [(2, from_secs 1)]\<rparr>, merge_update (AliveUpd 2 addr1 1 None)
            (ml_add (member_new 2 addr1) (with_self 1 addr1 None))))))) 2 = Some (m'\<lparr>mem_state := Dead\<rparr>)"
  by (rule refuted_node_declared_dead [where t = "from_secs 1" and m = "member_new 2 addr1"])
     (simp_all add: detector_wf_def detector_new_def hm_wf_def hm_get_def [of "[(2, t)]" for t] ml_add_def with_self_def
        membership_new_def Let_def member_new_def acceptable_iff swim_config_default_def from_secs_def)

text \<open>
  A node whose death is learned from gossip is never removed: with no suspect timer and no
  removal timer running for it, no sequence of acknowledgements, failed probes, timeout checks,
  removals and gossip that does not revive it takes it out of the membership list.
\<close>

theorem gossiped_dead_never_removed:
  assumes "hash_order ord" and "dead_untimed n v" and "list_all (\<lambda>e. \<not> revives n e) es"
  shows "\<exists>m. hm_get (ml_members (snd (fold (detector_step ord config) es v))) n = Some m \<and> mem_state m = Dead"
  using det.run_inv [OF assms(2,3), of ord config] assms(1)
  by (simp add: dead_untimed_def fixed_order_def)

theorem gossiped_dead_never_removed_witness:
  "\<exists>m. hm_get (ml_members (snd (fold (detector_step rev swim_config_default)
      [Nacked 2 5, DeadCheck (from_secs 1000), Gossiped (SuspectUpd 2 addr1 0), DeadCheck (from_secs 9000)]
      (detector_new, merge_update (DeadUpd 2 addr1 0) (ml_add (member_new 2 addr1) (with_self 1 addr1 None)))))) 2
     = Some m \<and> mem_state m = Dead"
  by (rule gossiped_dead_never_removed)
     (simp_all add: dead_untimed_def detector_wf_def detector_new_def hm_wf_def ml_add_def with_self_def
        membership_new_def Let_def member_new_def merge_update_def apply_update_def member_dead_def
        incarnation_acceptable_def)

end
