(* ===== verification/Swim.thy ===== *)
theory Swim
  imports Detector Frame Value "HOL-Library.Countable"
begin

text \<open>
  The SWIM service (\<^verbatim>\<open>crates/rebar-cluster/src/swim/service.rs\<close>): the protocol period, the handling
  of pings, acknowledgements and indirect pings, and gossip piggy-backed on them. Every method is
  a function from the service to the frames it produces and the service after it; the mutexes of
  the code make its critical sections atomic and a method is modelled as one step. What the
  environment decides is a record \<open>swim_world\<close>: the value library, the serde codec of envelopes,
  the iteration orders of the maps and the random choice of a target.
\<close>

section \<open>Messages and state\<close>

datatype swim_kind =
    Ping
  | Ack "u64 option"
  | PingReq u64 socket_addr

record swim_envelope =
  env_from :: u64
  env_from_addr :: socket_addr
  env_seq :: u64
  env_kind :: swim_kind
  env_gossip :: "gossip_update list"

record 'v outgoing =
  out_node_id :: u64
  out_addr :: socket_addr
  out_frame :: "'v frame"

record 'v tick_outcome =
  to_outgoing :: "'v outgoing list"
  to_newly_dead :: "u64 list"
  to_removed :: "u64 list"

record probe_state =
  probe_target :: "u64 option"
  probe_acked :: bool

record relay_entry =
  re_origin :: u64
  re_origin_addr :: socket_addr
  re_origin_seq :: u64
  re_target :: u64

record swim_service =
  sv_self_id :: u64
  sv_self_addr :: socket_addr
  sv_config :: swim_config
  sv_seq :: u64
  sv_members :: membership_list
  sv_detector :: failure_detector
  sv_gossip :: gossip_queue
  sv_probe :: probe_state
  sv_relays :: "(u64, relay_entry) hashmap"

record 'v swim_world =
  sw_values :: "'v rmpv"
  sw_to_vec :: "swim_envelope \<Rightarrow> u8 list"
  sw_from_slice :: "u8 list \<Rightarrow> swim_envelope option"
  sw_pending_order :: pending_order
  sw_member_order :: member_order
  sw_timer_order :: timer_order
  sw_pick :: "member list \<Rightarrow> member option"

definition PROTOCOL_VERSION :: u8 where
  "PROTOCOL_VERSION = 1"

definition swim_new :: "u64 \<Rightarrow> socket_addr \<Rightarrow> swim_config \<Rightarrow> cert_hash option \<Rightarrow> swim_service" where
  "swim_new n a config cert =
     \<lparr>sv_self_id = n, sv_self_addr = a, sv_config = config, sv_seq = 1,
      sv_members = with_self n a cert, sv_detector = detector_new, sv_gossip = gossip_queue_new,
      sv_probe = \<lparr>probe_target = None, probe_acked = False\<rparr>, sv_relays = []\<rparr>"

section \<open>Operations\<close>

definition next_seq :: "swim_service \<Rightarrow> u64 \<times> swim_service" where
  "next_seq s = (sv_seq s, s\<lparr>sv_seq := sv_seq s + 1\<rparr>)"

definition add_seed :: "u64 \<Rightarrow> socket_addr \<Rightarrow> swim_service \<Rightarrow> swim_service" where
  "add_seed n a s =
     (if n = sv_self_id s then s else s\<lparr>sv_members := ml_add (member_new n a) (sv_members s)\<rparr>)"

definition swim_alive_peers :: "member_order \<Rightarrow> swim_service \<Rightarrow> u64 list" where
  "swim_alive_peers ord s =
     map mem_node_id (filter (\<lambda>m. mem_node_id m \<noteq> sv_self_id s \<and> mem_state m = Alive)
       (all_members ord (sv_members s)))"

definition state_of :: "u64 \<Rightarrow> swim_service \<Rightarrow> node_state option" where
  "state_of n s = map_option mem_state (ml_get (sv_members s) n)"

definition build_envelope ::
  "'v swim_world \<Rightarrow> u64 \<Rightarrow> swim_kind \<Rightarrow> gossip_update list \<Rightarrow> swim_service \<Rightarrow> 'v frame" where
  "build_envelope w seq kind g s =
     (let env = \<lparr>env_from = sv_self_id s, env_from_addr = sv_self_addr s, env_seq = seq,
                 env_kind = kind, env_gossip = g\<rparr>;
          bytes = sw_to_vec w env in
      \<lparr>version = PROTOCOL_VERSION, msg_type = MsgSwim, request_id = seq,
       header = nil_value (sw_values w), payload = binary_value (sw_values w) bytes\<rparr>)"

definition drain_gossip :: "'v swim_world \<Rightarrow> swim_service \<Rightarrow> gossip_update list \<times> swim_service" where
  "drain_gossip w s =
     (let (g, q) = gossip_drain (sw_pending_order w) (max_gossip_per_tick (sv_config s)) (sv_gossip s) in
      (g, s\<lparr>sv_gossip := q\<rparr>))"

definition enqueue_gossip :: "'v swim_world \<Rightarrow> gossip_update \<Rightarrow> swim_service \<Rightarrow> swim_service" where
  "enqueue_gossip w u s = s\<lparr>sv_gossip := gossip_add (sw_pending_order w) u (sv_gossip s)\<rparr>"

definition take_probe :: "swim_service \<Rightarrow> (u64 option \<times> bool) \<times> swim_service" where
  "take_probe s =
     ((probe_target (sv_probe s), probe_acked (sv_probe s)),
      s\<lparr>sv_probe := (sv_probe s)\<lparr>probe_target := None\<rparr>\<rparr>)"

definition set_probe :: "u64 \<Rightarrow> swim_service \<Rightarrow> swim_service" where
  "set_probe target s = s\<lparr>sv_probe := \<lparr>probe_target = Some target, probe_acked = False\<rparr>\<rparr>"

text \<open>The detector's methods on the service's membership list and timers.\<close>

definition on_detector :: "(detector_view \<Rightarrow> detector_view) \<Rightarrow> swim_service \<Rightarrow> swim_service" where
  "on_detector f s =
     (let (d, ml) = f (sv_detector s, sv_members s) in s\<lparr>sv_detector := d, sv_members := ml\<rparr>)"

text \<open>The loop of \<open>tick\<close> that asks the helpers to probe \<open>target\<close>.\<close>

fun ping_helpers ::
  "'v swim_world \<Rightarrow> u64 \<Rightarrow> socket_addr \<Rightarrow> (u64 \<times> socket_addr) list \<Rightarrow> swim_service
     \<Rightarrow> 'v outgoing list \<times> swim_service" where
  "ping_helpers w target target_addr [] s = ([], s)"
| "ping_helpers w target target_addr ((hid, haddr) # helpers) s =
     (let (seq, s1) = next_seq s;
          o1 = \<lparr>out_node_id = hid, out_addr = haddr,
                out_frame = build_envelope w seq (PingReq target target_addr) [] s1\<rparr>;
          (out, s2) = ping_helpers w target target_addr helpers s1 in
      (o1 # out, s2))"

text \<open>The second half of step 1: one failed probe, and the suspicion it may cause.\<close>

definition count_failure :: "'v swim_world \<Rightarrow> instant \<Rightarrow> u64 \<Rightarrow> swim_service \<Rightarrow> swim_service" where
  "count_failure w now target s =
     (let s3 = on_detector (record_nack (sv_config s) target now) s in
      case ml_get (sv_members s3) target of
        Some m \<Rightarrow>
          if mem_state m = Suspect
          then enqueue_gossip w (SuspectUpd target (mem_addr m) (mem_incarnation m)) s3
          else s3
      | None \<Rightarrow> s3)"

text \<open>Step 1 of \<open>tick\<close>: the previous probe, when it was not acknowledged.\<close>

definition resolve_probe ::
  "'v swim_world \<Rightarrow> instant \<Rightarrow> swim_service \<Rightarrow> 'v outgoing list \<times> swim_service" where
  "resolve_probe w now s =
     (case take_probe s of
        ((Some target, False), s1) \<Rightarrow>
          let (out, s2) =
                (case addr_of (sv_members s1) target of
                   None \<Rightarrow> ([], s1)
                 | Some target_addr \<Rightarrow>
                     ping_helpers w target target_addr
                       (take (indirect_probe_count (sv_config s1))
                         (filter (\<lambda>(h, _). h \<noteq> target)
                           (ml_alive_peers (sw_member_order w) (sv_members s1)))) s1) in
          (out, count_failure w now target s2)
      | (_, s1) \<Rightarrow> ([], s1))"

text \<open>Step 2 of \<open>tick\<close>: suspect timers, the gossip about the newly dead, removals.\<close>

definition announce_dead :: "'v swim_world \<Rightarrow> u64 \<Rightarrow> swim_service \<Rightarrow> swim_service" where
  "announce_dead w n s =
     (case ml_get (sv_members s) n of
        Some m \<Rightarrow> enqueue_gossip w (DeadUpd n (mem_addr m) (mem_incarnation m)) s
      | None \<Rightarrow> s)"

definition expire_timers ::
  "'v swim_world \<Rightarrow> instant \<Rightarrow> swim_service \<Rightarrow> u64 list \<times> u64 list \<times> swim_service" where
  "expire_timers w now s =
     (let (newly_dead, d, ml) = check_suspect_timeouts (sw_timer_order w) (sv_config s) now
             (sv_detector s, sv_members s);
          s1 = fold (announce_dead w) newly_dead (s\<lparr>sv_detector := d, sv_members := ml\<rparr>);
          (removed, d', ml') = remove_expired_dead (sw_timer_order w) (sv_config s1) now
             (sv_detector s1, sv_members s1) in
      (newly_dead, removed, s1\<lparr>sv_detector := d', sv_members := ml'\<rparr>))"

text \<open>Step 3 of \<open>tick\<close>: a fresh target and the direct ping.\<close>

definition probe_next :: "'v swim_world \<Rightarrow> swim_service \<Rightarrow> 'v outgoing list \<times> swim_service" where
  "probe_next w s =
     (case detector_tick (sw_pick w) (sw_member_order w) (sv_members s) (sv_self_id s) of
        None \<Rightarrow> ([], s)
      | Some target \<Rightarrow>
     (case addr_of (sv_members s) target of
        None \<Rightarrow> ([], s)
      | Some addr \<Rightarrow>
          let (g, s2) = drain_gossip w (set_probe target s);
              (seq, s3) = next_seq s2 in
          ([\<lparr>out_node_id = target, out_addr = addr, out_frame = build_envelope w seq Ping g s3\<rparr>], s3)))"

definition swim_tick :: "'v swim_world \<Rightarrow> instant \<Rightarrow> swim_service \<Rightarrow> 'v tick_outcome \<times> swim_service" where
  "swim_tick w now s =
     (let (out1, s1) = resolve_probe w now s;
          (newly_dead, removed, s2) = expire_timers w now s1;
          (out2, s3) = probe_next w s2 in
      (\<lparr>to_outgoing = out1 @ out2, to_newly_dead = newly_dead, to_removed = removed\<rparr>, s3))"

definition record_alive :: "u64 \<Rightarrow> swim_service \<Rightarrow> swim_service" where
  "record_alive n s = (if n = sv_self_id s then s else on_detector (record_ack n) s)"

text \<open>The loop of \<open>handle_envelope\<close> over the piggy-backed updates.\<close>

definition absorb_update :: "'v swim_world \<Rightarrow> gossip_update \<Rightarrow> swim_service \<Rightarrow> swim_service" where
  "absorb_update w u s =
     (let (refutation, ml) = apply_update u (sv_members s);
          s1 = s\<lparr>sv_members := ml\<rparr> in
      (case refutation of Some r \<Rightarrow> enqueue_gossip w r s1 | None \<Rightarrow> s1))"

definition hear_from :: "u64 \<Rightarrow> socket_addr \<Rightarrow> swim_service \<Rightarrow> swim_service" where
  "hear_from from from_addr s =
     (if from \<noteq> sv_self_id s
      then on_detector (record_ack from)
             (if ml_get (sv_members s) from = None
              then s\<lparr>sv_members := ml_add (member_new from from_addr) (sv_members s)\<rparr> else s)
      else s)"

definition handle_ping ::
  "'v swim_world \<Rightarrow> u64 \<Rightarrow> socket_addr \<Rightarrow> swim_service \<Rightarrow> 'v outgoing list \<times> swim_service" where
  "handle_ping w from from_addr s =
     (let (g, s1) = drain_gossip w s;
          (reply_seq, s2) = next_seq s1 in
      ([\<lparr>out_node_id = from, out_addr = from_addr, out_frame = build_envelope w reply_seq (Ack None) g s2\<rparr>], s2))"

definition handle_ack ::
  "'v swim_world \<Rightarrow> u64 \<Rightarrow> u64 \<Rightarrow> u64 option \<Rightarrow> swim_service \<Rightarrow> 'v outgoing list \<times> swim_service" where
  "handle_ack w from seq about s =
     (let confirmed = (case about of Some t \<Rightarrow> t | None \<Rightarrow> from);
          relayed = (if about = None then hm_get (sv_relays s) seq else None);
          s1 = (if about = None then s\<lparr>sv_relays := hm_remove seq (sv_relays s)\<rparr> else s) in
      (case relayed of
         Some relay \<Rightarrow>
           ([\<lparr>out_node_id = re_origin relay, out_addr = re_origin_addr relay,
              out_frame = build_envelope w (re_origin_seq relay) (Ack (Some (re_target relay))) [] s1\<rparr>],
            record_alive (re_target relay) s1)
       | None \<Rightarrow>
           let s2 = record_alive confirmed s1 in
           ([], if probe_target (sv_probe s2) = Some confirmed
                then s2\<lparr>sv_probe := (sv_probe s2)\<lparr>probe_acked := True\<rparr>\<rparr> else s2)))"

definition handle_ping_req ::
  "'v swim_world \<Rightarrow> u64 \<Rightarrow> socket_addr \<Rightarrow> u64 \<Rightarrow> u64 \<Rightarrow> socket_addr \<Rightarrow> swim_service
     \<Rightarrow> 'v outgoing list \<times> swim_service" where
  "handle_ping_req w from from_addr seq target target_addr s =
     (let (relay_seq, s1) = next_seq s;
          entry = \<lparr>re_origin = from, re_origin_addr = from_addr, re_origin_seq = seq, re_target = target\<rparr>;
          s2 = s1\<lparr>sv_relays := hm_insert relay_seq entry (sv_relays s1)\<rparr> in
      ([\<lparr>out_node_id = target, out_addr = target_addr, out_frame = build_envelope w relay_seq Ping [] s2\<rparr>], s2))"

definition handle_envelope ::
  "'v swim_world \<Rightarrow> swim_envelope \<Rightarrow> swim_service \<Rightarrow> 'v outgoing list \<times> swim_service" where
  "handle_envelope w env s =
     (let from = env_from env; from_addr = env_from_addr env; seq = env_seq env;
          s1 = fold (absorb_update w) (env_gossip env) (hear_from from from_addr s) in
      (case env_kind env of
         Ping \<Rightarrow> handle_ping w from from_addr s1
       | Ack about \<Rightarrow> handle_ack w from seq about s1
       | PingReq target target_addr \<Rightarrow> handle_ping_req w from from_addr seq target target_addr s1))"

definition handle_frame :: "'v swim_world \<Rightarrow> 'v frame \<Rightarrow> swim_service \<Rightarrow> 'v outgoing list \<times> swim_service" where
  "handle_frame w f s =
     (if msg_type f \<noteq> MsgSwim then ([], s)
      else (case value_binary (sw_values w) (payload f) of None \<Rightarrow> ([], s)
      | Some bytes \<Rightarrow>
     (case sw_from_slice w bytes of None \<Rightarrow> ([], s)
      | Some env \<Rightarrow> handle_envelope w env s)))"

section \<open>Well-formed services\<close>

definition swim_world_ok :: "'v swim_world \<Rightarrow> bool" where
  "swim_world_ok w \<longleftrightarrow> rmpv_ok (sw_values w) \<and> (\<forall>e. sw_from_slice w (sw_to_vec w e) = Some e)
     \<and> hash_order (sw_pending_order w) \<and> hash_order (sw_member_order w) \<and> hash_order (sw_timer_order w)
     \<and> picks (sw_pick w)"

definition view_ok :: "u64 \<Rightarrow> detector_view \<Rightarrow> bool" where
  "view_ok me v \<longleftrightarrow> detector_wf v \<and> ml_self_id (snd v) = Some me \<and> self_ok (snd v)
     \<and> members_wf (snd v) \<and> hm_get (suspect_timers (fst v)) me = None"

definition swim_inv :: "swim_service \<Rightarrow> bool" where
  "swim_inv s \<longleftrightarrow> view_ok (sv_self_id s) (sv_detector s, sv_members s)
     \<and> probe_target (sv_probe s) \<noteq> Some (sv_self_id s) \<and> gossip_wf (sv_gossip s)"

lemma fold_pred: "P s \<Longrightarrow> (\<And>x s. P s \<Longrightarrow> P (f x s)) \<Longrightarrow> P (fold f xs s)"
  by (induction xs arbitrary: s) auto

lemma members_wf_mark_dead: "members_wf ml \<Longrightarrow> members_wf (mark_dead n i ml)"
  by (simp add: mark_dead_def members_wf_modify)

lemma members_wf_remove: "members_wf ml \<Longrightarrow> members_wf (ml_remove_node n ml)"
  by (auto simp: members_wf_def ml_remove_node_def wf_intros split: if_splits)

lemma check_members_wf:
  "members_wf ml \<Longrightarrow> members_wf (snd (snd (check_suspect_timeouts ord config now (d, ml))))"
  by (simp add: check_suspect_timeouts_def expire_suspect_fold fold_pred members_wf_mark_dead)

lemma remove_members_wf:
  "members_wf ml \<Longrightarrow> members_wf (snd (snd (remove_expired_dead ord config now (d, ml))))"
  by (simp add: remove_expired_dead_def expire_dead_fold fold_pred members_wf_remove)

lemma self_incarnation_kept:
  "ml_self_incarnation (snd (snd (check_suspect_timeouts ord config now (d, ml)))) = ml_self_incarnation ml"
  "ml_self_addr (snd (snd (check_suspect_timeouts ord config now (d, ml)))) = ml_self_addr ml"
  "ml_self_incarnation (snd (snd (remove_expired_dead ord config now (d, ml)))) = ml_self_incarnation ml"
  "ml_self_addr (snd (snd (remove_expired_dead ord config now (d, ml)))) = ml_self_addr ml"
proof -
  have a: "ml_self_incarnation (fold f xs m) = ml_self_incarnation m" if "\<And>x s. ml_self_incarnation (f x s) = ml_self_incarnation s"
    for f xs m using that by (induction xs arbitrary: m) auto
  have b: "ml_self_addr (fold f xs m) = ml_self_addr m" if "\<And>x s. ml_self_addr (f x s) = ml_self_addr s"
    for f xs m using that by (induction xs arbitrary: m) auto
  show "ml_self_incarnation (snd (snd (check_suspect_timeouts ord config now (d, ml)))) = ml_self_incarnation ml"
    "ml_self_addr (snd (snd (check_suspect_timeouts ord config now (d, ml)))) = ml_self_addr ml"
    by (simp_all add: check_suspect_timeouts_def expire_suspect_fold a b mark_dead_def)
  show "ml_self_incarnation (snd (snd (remove_expired_dead ord config now (d, ml)))) = ml_self_incarnation ml"
    "ml_self_addr (snd (snd (remove_expired_dead ord config now (d, ml)))) = ml_self_addr ml"
    by (simp_all add: remove_expired_dead_def expire_dead_fold a b ml_remove_node_def)
qed

lemma view_ok_check:
  assumes "hash_order ord" and "view_ok me v"
  shows "view_ok me (snd (check_suspect_timeouts ord config now v))"
proof -
  obtain d ml where v: "v = (d, ml)" by (cases v)
  obtain dead d' ml' where eq: "check_suspect_timeouts ord config now (d, ml) = (dead, d', ml')"
    by (cases "check_suspect_timeouts ord config now (d, ml)") auto
  have wf: "detector_wf (d, ml)" using assms(2) by (simp add: view_ok_def v)
  note g = check_suspect_timeouts_get [OF assms(1) wf eq]
  have "me \<notin> set dead" using g(1) [of me] assms(2) by (simp add: view_ok_def v)
  moreover have "ml_self_id ml' = ml_self_id ml" "ml_self_incarnation ml' = ml_self_incarnation ml"
      "ml_self_addr ml' = ml_self_addr ml"
    using self_incarnation_kept(1,2) [of ord config now d ml] detector_ops_self(3) [of ord config now v]
    by (simp_all add: eq v)
  moreover have "members_wf ml'"
    using check_members_wf [of ml ord config now d] assms(2) by (simp add: view_ok_def v eq)
  ultimately show ?thesis
    using assms(2) g(2,3) [of me] g(6) by (auto simp: view_ok_def self_ok_def v eq)
qed

lemma view_ok_reap:
  assumes "hash_order ord" and "view_ok me v"
  shows "view_ok me (snd (remove_expired_dead ord config now v))"
proof -
  obtain d ml where v: "v = (d, ml)" by (cases v)
  obtain removed d' ml' where eq: "remove_expired_dead ord config now (d, ml) = (removed, d', ml')"
    by (cases "remove_expired_dead ord config now (d, ml)") auto
  have wf: "detector_wf (d, ml)" using assms(2) by (simp add: view_ok_def v)
  note g = remove_expired_dead_get [OF assms(1) wf eq]
  have "me \<notin> set removed" using g(1) [of me] assms(2) by (auto simp: view_ok_def self_ok_def v)
  moreover have "ml_self_id ml' = ml_self_id ml" "ml_self_incarnation ml' = ml_self_incarnation ml"
      "ml_self_addr ml' = ml_self_addr ml"
    using self_incarnation_kept(3,4) [of ord config now d ml] detector_ops_self(4) [of ord config now v]
    by (simp_all add: eq v)
  moreover have "members_wf ml'"
    using remove_members_wf [of ml ord config now d] assms(2) by (simp add: view_ok_def v eq)
  ultimately show ?thesis
    using assms(2) g(2) [of me] g(3,6) by (auto simp: view_ok_def self_ok_def v eq)
qed

lemma view_ok_ack: "view_ok me v \<Longrightarrow> n \<noteq> me \<Longrightarrow> view_ok me (record_ack n v)"
  by (cases v) (auto simp: view_ok_def record_ack_def detector_wf_def self_ok_def members_wf_def wf_intros
      split: option.splits)

lemma view_ok_nack: "view_ok me v \<Longrightarrow> n \<noteq> me \<Longrightarrow> view_ok me (record_nack config n now v)"
  by (cases v) (auto simp: view_ok_def record_nack_def Let_def detector_wf_def self_ok_def members_wf_def wf_intros
      split: option.splits)

lemma view_ok_add: "view_ok me (d, ml) \<Longrightarrow> mem_node_id m \<noteq> me \<Longrightarrow> view_ok me (d, ml_add m ml)"
  by (auto simp: view_ok_def ml_add_def detector_wf_def self_ok_def members_wf_def wf_intros)

lemma view_ok_merge: "view_ok me (d, ml) \<Longrightarrow> view_ok me (d, snd (apply_update u ml))"
  by (auto simp: view_ok_def detector_wf_def apply_update_self_ok apply_update_wf)

lemmas view_intros = view_ok_ack view_ok_nack view_ok_add view_ok_merge view_ok_check view_ok_reap

lemma swim_inv_new [simp]: "swim_inv (swim_new n a config cert)"
proof -
  have "ml_self_id (with_self n a cert) = Some n" by (simp add: with_self_def Let_def)
  then show ?thesis
    by (simp add: swim_inv_def view_ok_def swim_new_def detector_wf_def detector_new_def hm_wf_def)
qed

section \<open>Every method keeps the service well formed\<close>

lemma inv_on_detector:
  "swim_inv s \<Longrightarrow> (\<And>v. view_ok (sv_self_id s) v \<Longrightarrow> view_ok (sv_self_id s) (f v)) \<Longrightarrow> swim_inv (on_detector f s)"
  by (simp add: swim_inv_def on_detector_def split: prod.splits) (metis prod.collapse)

lemma on_detector_fields [simp]:
  "sv_self_id (on_detector f s) = sv_self_id s" "sv_config (on_detector f s) = sv_config s"
  "sv_probe (on_detector f s) = sv_probe s" "sv_relays (on_detector f s) = sv_relays s"
  "sv_seq (on_detector f s) = sv_seq s" "sv_gossip (on_detector f s) = sv_gossip s"
  "sv_detector (on_detector f s) = fst (f (sv_detector s, sv_members s))"
  "sv_members (on_detector f s) = snd (f (sv_detector s, sv_members s))"
  by (simp_all add: on_detector_def split: prod.splits)

lemma inv_seq [simp]: "swim_inv (snd (next_seq s)) = swim_inv s"
  by (simp add: swim_inv_def next_seq_def)

lemma inv_relays [simp]: "swim_inv (s\<lparr>sv_relays := r\<rparr>) = swim_inv s"
  by (simp add: swim_inv_def)

lemma inv_enqueue:
  "swim_inv s \<Longrightarrow> hash_order (sw_pending_order w) \<Longrightarrow> swim_inv (enqueue_gossip w u s)"
  by (simp add: swim_inv_def enqueue_gossip_def gossip_add_wf)

lemma inv_drain: "swim_inv s \<Longrightarrow> swim_inv (snd (drain_gossip w s))"
  using gossip_drain_wf [of "sv_gossip s" "sw_pending_order w" "max_gossip_per_tick (sv_config s)"]
  by (cases "gossip_drain (sw_pending_order w) (max_gossip_per_tick (sv_config s)) (sv_gossip s)")
     (simp add: swim_inv_def drain_gossip_def)

lemma enqueue_fields [simp]:
  "sv_self_id (enqueue_gossip w u s) = sv_self_id s" "sv_config (enqueue_gossip w u s) = sv_config s"
  "sv_members (enqueue_gossip w u s) = sv_members s" "sv_detector (enqueue_gossip w u s) = sv_detector s"
  "sv_probe (enqueue_gossip w u s) = sv_probe s" "sv_relays (enqueue_gossip w u s) = sv_relays s"
  "sv_seq (enqueue_gossip w u s) = sv_seq s"
  by (simp_all add: enqueue_gossip_def)

lemma drain_fields [simp]:
  "sv_self_id (snd (drain_gossip w s)) = sv_self_id s" "sv_config (snd (drain_gossip w s)) = sv_config s"
  "sv_members (snd (drain_gossip w s)) = sv_members s" "sv_detector (snd (drain_gossip w s)) = sv_detector s"
  "sv_probe (snd (drain_gossip w s)) = sv_probe s" "sv_relays (snd (drain_gossip w s)) = sv_relays s"
  "sv_seq (snd (drain_gossip w s)) = sv_seq s" "sv_self_addr (snd (drain_gossip w s)) = sv_self_addr s"
  by (simp_all add: drain_gossip_def split: prod.splits)

lemma inv_add_seed: "swim_inv s \<Longrightarrow> swim_inv (add_seed n a s)"
  by (auto simp: swim_inv_def add_seed_def member_new_def intro: view_ok_add)

lemma ping_helpers_state:
  "snd (ping_helpers w t ta hs s) = s\<lparr>sv_seq := sv_seq s + word_of_nat (length hs)\<rparr>"
  by (induction w t ta hs s rule: ping_helpers.induct) (auto simp: next_seq_def split: prod.splits)

lemma ping_helpers_nodes: "map out_node_id (fst (ping_helpers w t ta hs s)) = map fst hs"
  by (induction w t ta hs s rule: ping_helpers.induct) (auto simp: next_seq_def split: prod.splits)

lemma inv_seq_upd [simp]: "swim_inv (s\<lparr>sv_seq := k\<rparr>) = swim_inv s"
  by (simp add: swim_inv_def)

lemma inv_take_probe: "swim_inv s \<Longrightarrow> swim_inv (s\<lparr>sv_probe := (sv_probe s)\<lparr>probe_target := None\<rparr>\<rparr>)"
  by (simp add: swim_inv_def)

lemma resolve_probe_state:
  "\<exists>k. snd (resolve_probe w now s) =
     (let s1 = s\<lparr>sv_probe := (sv_probe s)\<lparr>probe_target := None\<rparr>\<rparr> in
      case probe_target (sv_probe s) of
        None \<Rightarrow> s1
      | Some t \<Rightarrow> if probe_acked (sv_probe s) then s1 else count_failure w now t (s1\<lparr>sv_seq := k\<rparr>))"
proof (cases "\<exists>t. probe_target (sv_probe s) = Some t \<and> \<not> probe_acked (sv_probe s)")
  case True
  then obtain t where t: "probe_target (sv_probe s) = Some t" "\<not> probe_acked (sv_probe s)" by blast
  let ?s1 = "s\<lparr>sv_probe := (sv_probe s)\<lparr>probe_target := None\<rparr>\<rparr>"
  let ?hs = "take (indirect_probe_count (sv_config s)) (filter (\<lambda>(h, _). h \<noteq> t)
      (ml_alive_peers (sw_member_order w) (sv_members s)))"
  have same: "?s1\<lparr>sv_seq := sv_seq s\<rparr> = ?s1" by (cases s) simp
  show ?thesis
  proof (cases "addr_of (sv_members s) t")
    case None
    with t same show ?thesis
      by (intro exI [of _ "sv_seq s"]) (simp add: resolve_probe_def take_probe_def)
  next
    case (Some ta)
    have "snd (ping_helpers w t ta ?hs ?s1) = ?s1\<lparr>sv_seq := sv_seq s + word_of_nat (length ?hs)\<rparr>"
      by (simp add: ping_helpers_state)
    with t Some show ?thesis
      by (intro exI [of _ "sv_seq s + word_of_nat (length ?hs)"])
         (cases "ping_helpers w t ta ?hs ?s1", simp add: resolve_probe_def take_probe_def)
  qed
next
  case False
  then show ?thesis
    by (auto simp: resolve_probe_def take_probe_def split: option.splits)
qed

lemma inv_count_failure:
  assumes "swim_inv s" and "hash_order (sw_pending_order w)" and "t \<noteq> sv_self_id s"
  shows "swim_inv (count_failure w now t s)"
proof -
  have "swim_inv (on_detector (record_nack (sv_config s) t now) s)"
    using assms by (intro inv_on_detector) (simp_all add: view_ok_nack)
  with assms(2) show ?thesis
    by (auto simp: count_failure_def Let_def inv_enqueue split: option.splits)
qed

lemma count_failure_fields [simp]:
  "sv_self_id (count_failure w now t s) = sv_self_id s" "sv_config (count_failure w now t s) = sv_config s"
  "sv_probe (count_failure w now t s) = sv_probe s"
  "sv_detector (count_failure w now t s) = fst (record_nack (sv_config s) t now (sv_detector s, sv_members s))"
  "sv_members (count_failure w now t s) = snd (record_nack (sv_config s) t now (sv_detector s, sv_members s))"
  by (simp_all add: count_failure_def Let_def split: option.splits)

lemma inv_resolve:
  assumes "swim_inv s" and "hash_order (sw_pending_order w)"
  shows "swim_inv (snd (resolve_probe w now s))"
  using resolve_probe_state [of w now s] assms inv_take_probe [OF assms(1)]
  by (auto simp: Let_def swim_inv_def [of s] intro!: inv_count_failure split: option.splits)

lemma announce_fold:
  "swim_inv s \<Longrightarrow> hash_order (sw_pending_order w) \<Longrightarrow> swim_inv (fold (announce_dead w) ns s)"
  by (rule fold_pred) (auto simp: announce_dead_def inv_enqueue split: option.splits)

lemma announce_fields [simp]:
  "sv_self_id (fold (announce_dead w) ns s) = sv_self_id s"
  "sv_config (fold (announce_dead w) ns s) = sv_config s"
  "sv_members (fold (announce_dead w) ns s) = sv_members s"
  "sv_detector (fold (announce_dead w) ns s) = sv_detector s"
  "sv_probe (fold (announce_dead w) ns s) = sv_probe s"
  by (induction ns arbitrary: s; simp add: announce_dead_def split: option.splits)+

text \<open>The detector and the members after step 2.\<close>

definition expired_view :: "'v swim_world \<Rightarrow> swim_config \<Rightarrow> instant \<Rightarrow> detector_view \<Rightarrow> detector_view" where
  "expired_view w config now v =
     snd (remove_expired_dead (sw_timer_order w) config now
       (snd (check_suspect_timeouts (sw_timer_order w) config now v)))"

lemma expire_timers_state:
  "snd (snd (expire_timers w now s)) =
     on_detector (\<lambda>_. expired_view w (sv_config s) now (sv_detector s, sv_members s))
       (fold (announce_dead w) (fst (expire_timers w now s))
         (on_detector (\<lambda>v. snd (check_suspect_timeouts (sw_timer_order w) (sv_config s) now v)) s))"
  "fst (expire_timers w now s) =
     fst (check_suspect_timeouts (sw_timer_order w) (sv_config s) now (sv_detector s, sv_members s))"
  by (simp_all add: expire_timers_def expired_view_def on_detector_def Let_def split: prod.splits)

lemma inv_expire:
  assumes "swim_inv s" and "swim_world_ok w"
  shows "swim_inv (snd (snd (expire_timers w now s)))"
proof -
  have o: "hash_order (sw_timer_order w)" "hash_order (sw_pending_order w)"
    using assms(2) by (simp_all add: swim_world_ok_def)
  have v: "view_ok (sv_self_id s) (expired_view w (sv_config s) now (sv_detector s, sv_members s))"
    using assms(1) o by (auto simp: expired_view_def swim_inv_def intro!: view_intros)
  have "swim_inv (on_detector (\<lambda>v. snd (check_suspect_timeouts (sw_timer_order w) (sv_config s) now v)) s)"
    using assms(1) o by (intro inv_on_detector view_ok_check) simp_all
  then have "swim_inv (fold (announce_dead w) (fst (expire_timers w now s))
      (on_detector (\<lambda>v. snd (check_suspect_timeouts (sw_timer_order w) (sv_config s) now v)) s))"
    using o by (intro announce_fold) simp_all
  then show ?thesis
    unfolding expire_timers_state(1) using v by (intro inv_on_detector) simp_all
qed

lemma detector_tick_target:
  assumes "picks pick" and "hash_order ord" and "members_wf ml"
    and "detector_tick pick ord ml me = Some t"
  shows "t \<noteq> me" and "\<exists>m. hm_get (ml_members ml) t = Some m \<and> mem_state m \<noteq> Dead"
proof -
  from assms(4) obtain m where m: "pick (filter (\<lambda>m. mem_node_id m \<noteq> me \<and> mem_state m \<noteq> Dead) (all_members ord ml)) = Some m"
      and t: "t = mem_node_id m"
    by (auto simp: detector_tick_def)
  from m assms(1) have "m \<in> set (filter (\<lambda>m. mem_node_id m \<noteq> me \<and> mem_state m \<noteq> Dead) (all_members ord ml))"
    unfolding picks_def by blast
  then have c: "mem_node_id m \<noteq> me" "mem_state m \<noteq> Dead" "m \<in> snd ` set (ml_members ml)"
    using assms(2) by (auto simp: all_members_def hash_order_set)
  from c(3) assms(3) have "hm_get (ml_members ml) (mem_node_id m) = Some m"
    by (auto simp: members_wf_def hm_get_Some_iff)
  with c t show "t \<noteq> me" and "\<exists>m. hm_get (ml_members ml) t = Some m \<and> mem_state m \<noteq> Dead" by auto
qed

lemma set_probe_fields [simp]:
  "sv_self_id (set_probe t s) = sv_self_id s" "sv_members (set_probe t s) = sv_members s"
  "sv_detector (set_probe t s) = sv_detector s" "sv_gossip (set_probe t s) = sv_gossip s"
  "sv_config (set_probe t s) = sv_config s"
  "sv_probe (set_probe t s) = \<lparr>probe_target = Some t, probe_acked = False\<rparr>"
  by (simp_all add: set_probe_def)

lemma inv_set_probe: "swim_inv s \<Longrightarrow> t \<noteq> sv_self_id s \<Longrightarrow> swim_inv (set_probe t s)"
  by (simp add: swim_inv_def)

lemma inv_probe_next:
  assumes "swim_inv s" and "swim_world_ok w"
  shows "swim_inv (snd (probe_next w s))"
    and "o' \<in> set (fst (probe_next w s)) \<Longrightarrow> out_node_id o' \<noteq> sv_self_id s"
proof -
  have t: "t \<noteq> sv_self_id s" if "detector_tick (sw_pick w) (sw_member_order w) (sv_members s) (sv_self_id s) = Some t" for t
    using detector_tick_target(1) [OF _ _ _ that] assms
    by (simp add: swim_world_ok_def swim_inv_def view_ok_def)
  have "swim_inv (snd (drain_gossip w (set_probe t s)))"
    if "detector_tick (sw_pick w) (sw_member_order w) (sv_members s) (sv_self_id s) = Some t" for t
    using t [OF that] assms(1) by (simp add: inv_drain inv_set_probe)
  then show "swim_inv (snd (probe_next w s))"
    using assms(1) by (auto simp: probe_next_def Let_def next_seq_def split: option.splits prod.splits)
  show "o' \<in> set (fst (probe_next w s)) \<Longrightarrow> out_node_id o' \<noteq> sv_self_id s"
    using t by (auto simp: probe_next_def Let_def split: option.splits prod.splits)
qed

lemma swim_tick_state: "snd (swim_tick w now s) = snd (probe_next w (snd (snd (expire_timers w now (snd (resolve_probe w now s))))))"
  by (simp add: swim_tick_def split: prod.splits)

lemma inv_tick: "swim_inv s \<Longrightarrow> swim_world_ok w \<Longrightarrow> swim_inv (snd (swim_tick w now s))"
  unfolding swim_tick_state by (intro inv_probe_next inv_expire inv_resolve) (simp_all add: swim_world_ok_def)

lemma inv_hear: "swim_inv s \<Longrightarrow> swim_inv (hear_from from a s)"
proof -
  assume s: "swim_inv s"
  let ?s = "if ml_get (sv_members s) from = None
    then s\<lparr>sv_members := ml_add (member_new from a) (sv_members s)\<rparr> else s"
  have "swim_inv ?s" if "from \<noteq> sv_self_id s"
    using s that by (auto simp: swim_inv_def member_new_def intro: view_ok_add)
  then show ?thesis
    using s by (auto simp: hear_from_def intro!: inv_on_detector view_ok_ack)
qed

lemma inv_absorb:
  "swim_inv s \<Longrightarrow> hash_order (sw_pending_order w) \<Longrightarrow> swim_inv (absorb_update w u s)"
proof -
  assume a: "swim_inv s" "hash_order (sw_pending_order w)"
  then have "swim_inv (s\<lparr>sv_members := snd (apply_update u (sv_members s))\<rparr>)"
    by (simp add: swim_inv_def view_ok_merge)
  with a(2) show ?thesis
    by (cases "apply_update u (sv_members s)") (auto simp: absorb_update_def Let_def inv_enqueue split: option.splits)
qed

lemma inv_record_alive: "swim_inv s \<Longrightarrow> swim_inv (record_alive n s)"
  by (auto simp: record_alive_def intro!: inv_on_detector view_ok_ack)

lemma inv_acked [simp]: "swim_inv (s\<lparr>sv_probe := (sv_probe s)\<lparr>probe_acked := b\<rparr>\<rparr>) = swim_inv s"
  by (simp add: swim_inv_def)

lemma inv_handlers:
  assumes "swim_inv s"
  shows "swim_inv (snd (handle_ping w from a s))"
    and "swim_inv (snd (handle_ack w from seq about s))"
    and "swim_inv (snd (handle_ping_req w from a seq t ta s))"
proof -
  show "swim_inv (snd (handle_ping w from a s))"
    using inv_drain [OF assms, of w] by (cases "drain_gossip w s") (simp add: handle_ping_def next_seq_def)
  have "swim_inv (s\<lparr>sv_relays := hm_remove seq (sv_relays s)\<rparr>)" using assms by simp
  then show "swim_inv (snd (handle_ack w from seq about s))"
    using assms by (simp add: handle_ack_def Let_def inv_record_alive split: option.splits)
  show "swim_inv (snd (handle_ping_req w from a seq t ta s))"
    using assms by (simp add: handle_ping_req_def next_seq_def Let_def)
qed

lemma inv_envelope:
  assumes "swim_inv s" and "hash_order (sw_pending_order w)"
  shows "swim_inv (snd (handle_envelope w env s))"
proof -
  have "swim_inv (fold (absorb_update w) (env_gossip env) (hear_from (env_from env) (env_from_addr env) s))"
    using assms by (intro fold_pred [where P = swim_inv]) (simp_all add: inv_absorb inv_hear)
  then show ?thesis
    unfolding handle_envelope_def Let_def by (cases "env_kind env") (simp_all add: inv_handlers)
qed

section \<open>Runs of the service\<close>

datatype 'v swim_event =
    Seed u64 socket_addr
  | Period "'v swim_world" instant
  | Receive "'v swim_world" "'v frame"

fun swim_step :: "'v swim_event \<Rightarrow> swim_service \<Rightarrow> swim_service" where
  "swim_step (Seed n a) s = add_seed n a s"
| "swim_step (Period w now) s = snd (swim_tick w now s)"
| "swim_step (Receive w f) s = snd (handle_frame w f s)"

fun swim_enabled :: "'v swim_event \<Rightarrow> bool" where
  "swim_enabled (Seed n a) = True"
| "swim_enabled (Period w now) = swim_world_ok w"
| "swim_enabled (Receive w f) = swim_world_ok w"

interpretation sw: step_invariant swim_step swim_enabled swim_inv
proof
  fix s :: swim_service and e :: "'v swim_event"
  assume "swim_inv s" and "swim_enabled e"
  then show "swim_inv (swim_step e s)"
    by (cases e) (auto simp: inv_add_seed inv_tick handle_frame_def inv_envelope swim_world_ok_def
        split: option.splits)
qed

lemma swim_step_self [simp]: "swim_inv s \<Longrightarrow> swim_enabled e \<Longrightarrow> ml_self_id (sv_members (swim_step e s)) = Some (sv_self_id (swim_step e s))"
  using sw.inv_step [of s e] by (simp add: swim_inv_def view_ok_def)

lemma ml_alive_peers_other: "(h, a) \<in> set (ml_alive_peers ord ml) \<Longrightarrow> Some h \<noteq> ml_self_id ml"
  by (auto simp: ml_alive_peers_def)

lemma resolve_outgoing:
  assumes "swim_inv s" and "o' \<in> set (fst (resolve_probe w now s))"
  shows "out_node_id o' \<noteq> sv_self_id s"
proof -
  let ?s1 = "s\<lparr>sv_probe := (sv_probe s)\<lparr>probe_target := None\<rparr>\<rparr>"
  have p: "fst (resolve_probe w now s) = [] \<or> (\<exists>t ta k. fst (resolve_probe w now s) =
      fst (ping_helpers w t ta (take k (filter (\<lambda>(h, _). h \<noteq> t) (ml_alive_peers (sw_member_order w) (sv_members s)))) ?s1))"
    by (auto simp: resolve_probe_def take_probe_def split: prod.splits option.splits bool.splits) (metis fst_conv)
  then obtain t ta k where o: "out_node_id o' \<in> set (map out_node_id
      (fst (ping_helpers w t ta (take k (filter (\<lambda>(h, _). h \<noteq> t) (ml_alive_peers (sw_member_order w) (sv_members s)))) ?s1)))"
    using assms(2) by fastforce
  then obtain a where "(out_node_id o', a) \<in> set (take k (filter (\<lambda>(h, _). h \<noteq> t)
      (ml_alive_peers (sw_member_order w) (sv_members s))))"
    unfolding ping_helpers_nodes by auto
  then have "(out_node_id o', a) \<in> set (ml_alive_peers (sw_member_order w) (sv_members s))"
    by (auto dest: in_set_takeD)
  from ml_alive_peers_other [OF this] assms(1) show ?thesis
    by (simp add: swim_inv_def view_ok_def)
qed

section \<open>A cluster of two\<close>

text \<open>\<open>silent c me n k s\<close>: the only other node \<open>n\<close> is Alive, being probed, with \<open>k\<close> failures counted.\<close>

definition pair_only :: "u64 \<Rightarrow> u64 \<Rightarrow> membership_list \<Rightarrow> bool" where
  "pair_only me n ml \<longleftrightarrow> (\<forall>x. x \<noteq> me \<longrightarrow> x \<noteq> n \<longrightarrow> hm_get (ml_members ml) x = None)"

definition probing :: "u64 \<Rightarrow> swim_service \<Rightarrow> bool" where
  "probing n s \<longleftrightarrow> sv_probe s = \<lparr>probe_target = Some n, probe_acked = False\<rparr>"

definition known_as :: "u64 \<Rightarrow> node_state \<Rightarrow> detector_view \<Rightarrow> bool" where
  "known_as n st v \<longleftrightarrow> (\<exists>m. hm_get (ml_members (snd v)) n = Some m \<and> mem_state m = st)"

lemma picksD: "picks pick \<Longrightarrow> pick xs = None \<Longrightarrow> xs = []"
  by (simp add: picks_def)

lemma probe_next_two:
  assumes "swim_inv s" and "swim_world_ok w" and "sv_self_id s \<noteq> n" and "pair_only (sv_self_id s) n (sv_members s)"
    and "known_as n st (sv_detector s, sv_members s)" and "st \<noteq> Dead"
  shows "probing n (snd (probe_next w s))"
    and "sv_detector (snd (probe_next w s)) = sv_detector s" and "sv_members (snd (probe_next w s)) = sv_members s"
    and "sv_config (snd (probe_next w s)) = sv_config s" and "sv_self_id (snd (probe_next w s)) = sv_self_id s"
proof -
  let ?cand = "filter (\<lambda>m. mem_node_id m \<noteq> sv_self_id s \<and> mem_state m \<noteq> Dead) (all_members (sw_member_order w) (sv_members s))"
  have wf: "members_wf (sv_members s)" and o: "hash_order (sw_member_order w)" and p: "picks (sw_pick w)"
    using assms(1,2) by (simp_all add: swim_inv_def view_ok_def swim_world_ok_def)
  from assms(5) obtain m where m: "hm_get (ml_members (sv_members s)) n = Some m" "mem_state m = st"
    by (auto simp: known_as_def)
  with wf have "mem_node_id m = n" "(n, m) \<in> set (ml_members (sv_members s))"
    by (auto simp: members_wf_def hm_get_Some_iff)
  then have "m \<in> set ?cand"
    using m(2) assms(3,6) o by (auto simp: all_members_def hash_order_set image_iff intro!: bexI [of _ "(n, m)"])
  then have "?cand \<noteq> []" by (metis list.set(1) empty_iff)
  with picksD [OF p, of ?cand] obtain x where x: "sw_pick w ?cand = Some x" by blast
  then have t: "detector_tick (sw_pick w) (sw_member_order w) (sv_members s) (sv_self_id s) = Some (mem_node_id x)"
    by (simp add: detector_tick_def)
  from detector_tick_target [OF p o wf t] assms(4) have "mem_node_id x = n"
    by (auto simp: pair_only_def)
  with t m(1) show "probing n (snd (probe_next w s))"
    and "sv_detector (snd (probe_next w s)) = sv_detector s" and "sv_members (snd (probe_next w s)) = sv_members s"
    and "sv_config (snd (probe_next w s)) = sv_config s" and "sv_self_id (snd (probe_next w s)) = sv_self_id s"
    by (simp_all add: probe_next_def addr_of_def probing_def next_seq_def case_prod_beta Let_def)
qed

lemma expired_view_keeps:
  assumes "hash_order (sw_timer_order w)" and "detector_wf (d, ml)"
    and "known_as n st (d, ml)" and "st \<noteq> Dead"
    and "\<And>t. hm_get (suspect_timers d) n = Some t \<Longrightarrow> now - t < suspect_timeout config"
    and "expired_view w config now (d, ml) = (d', ml')"
  shows "hm_get (ml_members ml') n = hm_get (ml_members ml) n"
    and "hm_get (suspect_timers d') n = hm_get (suspect_timers d) n"
    and "hm_get (failed_probes d') n = hm_get (failed_probes d) n"
    and "pair_only me n ml \<Longrightarrow> pair_only me n ml'"
proof -
  obtain dead d1 ml1 where c: "check_suspect_timeouts (sw_timer_order w) config now (d, ml) = (dead, d1, ml1)"
    by (cases "check_suspect_timeouts (sw_timer_order w) config now (d, ml)") auto
  obtain removed where r: "remove_expired_dead (sw_timer_order w) config now (d1, ml1) = (removed, d', ml')"
    using assms(6) by (cases "remove_expired_dead (sw_timer_order w) config now (d1, ml1)") (auto simp: expired_view_def c)
  note g = check_suspect_timeouts_get [OF assms(1,2) c]
  note h = remove_expired_dead_get [OF assms(1) g(6) r]
  have nd: "n \<notin> set dead" using g(1) [of n] assms(5) by (auto simp: not_le)
  then have nr: "n \<notin> set removed" using h(1) [of n] g(2) [of n] assms(3,4) by (auto simp: known_as_def)
  from nd nr show "hm_get (ml_members ml') n = hm_get (ml_members ml) n"
    and "hm_get (suspect_timers d') n = hm_get (suspect_timers d) n"
    and "hm_get (failed_probes d') n = hm_get (failed_probes d) n"
    using g(2-4) [of n] h(2) [of n] h(3,4) by simp_all
  show "pair_only me n ml \<Longrightarrow> pair_only me n ml'"
    using g(2) h(2) by (auto simp: pair_only_def)
qed

text \<open>The view after the failure of the previous probe is counted.\<close>

definition resolved_view :: "swim_service \<Rightarrow> instant \<Rightarrow> detector_view" where
  "resolved_view s now =
     (case probe_target (sv_probe s) of
        Some t \<Rightarrow> if probe_acked (sv_probe s) then (sv_detector s, sv_members s)
                  else record_nack (sv_config s) t now (sv_detector s, sv_members s)
      | None \<Rightarrow> (sv_detector s, sv_members s))"

lemma resolve_view:
  "(sv_detector (snd (resolve_probe w now s)), sv_members (snd (resolve_probe w now s))) = resolved_view s now"
  "sv_config (snd (resolve_probe w now s)) = sv_config s" "sv_self_id (snd (resolve_probe w now s)) = sv_self_id s"
  using resolve_probe_state [of w now s]
  by (auto simp: resolved_view_def Let_def split: option.splits)

lemma swim_tick_dead:
  "to_newly_dead (fst (swim_tick w now s)) = fst (expire_timers w now (snd (resolve_probe w now s)))"
  by (simp add: swim_tick_def case_prod_beta Let_def)

lemma tick_view:
  assumes "swim_inv s" and "swim_world_ok w" and "sv_self_id s \<noteq> n"
    and "pair_only (sv_self_id s) n (snd (resolved_view s now))"
    and "known_as n st (resolved_view s now)" and "st \<noteq> Dead"
    and "\<And>t. hm_get (suspect_timers (fst (resolved_view s now))) n = Some t \<Longrightarrow> now - t < suspect_timeout (sv_config s)"
  shows "n \<notin> set (to_newly_dead (fst (swim_tick w now s)))"
    and "probing n (snd (swim_tick w now s))" and "pair_only (sv_self_id s) n (sv_members (snd (swim_tick w now s)))"
    and "hm_get (ml_members (sv_members (snd (swim_tick w now s)))) n = hm_get (ml_members (snd (resolved_view s now))) n"
    and "hm_get (suspect_timers (sv_detector (snd (swim_tick w now s)))) n = hm_get (suspect_timers (fst (resolved_view s now))) n"
    and "hm_get (failed_probes (sv_detector (snd (swim_tick w now s)))) n = hm_get (failed_probes (fst (resolved_view s now))) n"
    and "sv_config (snd (swim_tick w now s)) = sv_config s" and "sv_self_id (snd (swim_tick w now s)) = sv_self_id s"
proof -
  let ?s1 = "snd (resolve_probe w now s)"
  let ?s2 = "snd (snd (expire_timers w now ?s1))"
  have o: "hash_order (sw_timer_order w)" "hash_order (sw_pending_order w)"
    using assms(2) by (simp_all add: swim_world_ok_def)
  have i1: "swim_inv ?s1" using assms(1) o by (simp add: inv_resolve)
  have i2: "swim_inv ?s2" using i1 assms(2) by (rule inv_expire)
  have f1: "sv_config ?s1 = sv_config s" "sv_self_id ?s1 = sv_self_id s" by (simp_all add: resolve_view)
  have v1: "(sv_detector ?s1, sv_members ?s1) = resolved_view s now" by (rule resolve_view)
  have wf: "detector_wf (sv_detector ?s1, sv_members ?s1)" using i1 by (simp add: swim_inv_def view_ok_def)
  obtain d' ml' where e: "expired_view w (sv_config s) now (sv_detector ?s1, sv_members ?s1) = (d', ml')" by fastforce
  have f2: "sv_detector ?s2 = d'" "sv_members ?s2 = ml'" "sv_config ?s2 = sv_config s" "sv_self_id ?s2 = sv_self_id s"
    by (simp_all add: expire_timers_state f1 e)
  have k1: "known_as n st (sv_detector ?s1, sv_members ?s1)" using assms(5) by (simp add: v1)
  have t1: "hm_get (suspect_timers (sv_detector ?s1)) n = Some t \<Longrightarrow> now - t < suspect_timeout (sv_config s)" for t
    using assms(7) [of t] v1 by (metis fst_conv)
  note k = expired_view_keeps [OF o(1) wf k1 assms(6) t1 e]
  have "sv_members ?s1 = snd (resolved_view s now)" "sv_detector ?s1 = fst (resolved_view s now)"
    using v1 by (metis snd_conv, metis fst_conv)
  note v = this
  have p2: "pair_only (sv_self_id ?s2) n (sv_members ?s2)"
    using k(4) assms(4) by (simp add: f2 v)
  have k2: "known_as n st (sv_detector ?s2, sv_members ?s2)"
    using assms(5) k(1) by (simp add: known_as_def f2 v)
  have ne: "sv_self_id ?s2 \<noteq> n" using assms(3) by (simp add: f2)
  note q = probe_next_two [OF i2 assms(2) ne p2 k2 assms(6)]
  show "n \<notin> set (to_newly_dead (fst (swim_tick w now s)))"
  proof -
    obtain dead d1 ml1 where c: "check_suspect_timeouts (sw_timer_order w) (sv_config s) now (sv_detector ?s1, sv_members ?s1) = (dead, d1, ml1)"
      by (cases "check_suspect_timeouts (sw_timer_order w) (sv_config s) now (sv_detector ?s1, sv_members ?s1)") auto
    then have "to_newly_dead (fst (swim_tick w now s)) = dead"
      using expire_timers_state(2) [of w now ?s1] f1 by (simp add: swim_tick_dead)
    with check_suspect_timeouts_get(1) [OF o(1) wf c, of n] t1 show ?thesis by (auto simp: not_le)
  qed
  show "probing n (snd (swim_tick w now s))" using q(1) by (simp add: swim_tick_state)
  show "pair_only (sv_self_id s) n (sv_members (snd (swim_tick w now s)))"
    using p2 q(3) f2(4) by (simp add: swim_tick_state)
  show "hm_get (ml_members (sv_members (snd (swim_tick w now s)))) n = hm_get (ml_members (snd (resolved_view s now))) n"
    using q(3) k(1) by (simp add: swim_tick_state f2 v)
  show "hm_get (suspect_timers (sv_detector (snd (swim_tick w now s)))) n = hm_get (suspect_timers (fst (resolved_view s now))) n"
    using q(2) k(2) by (simp add: swim_tick_state f2 v)
  show "hm_get (failed_probes (sv_detector (snd (swim_tick w now s)))) n = hm_get (failed_probes (fst (resolved_view s now))) n"
    using q(2) k(3) by (simp add: swim_tick_state f2 v)
  show "sv_config (snd (swim_tick w now s)) = sv_config s" and "sv_self_id (snd (swim_tick w now s)) = sv_self_id s"
    using q(4,5) f2 by (simp_all add: swim_tick_state)
qed

text \<open>\<open>n\<close> is Alive, probed in vain, with \<open>k\<close> failures counted and no timer running.\<close>

definition silent :: "swim_config \<Rightarrow> u64 \<Rightarrow> nat \<Rightarrow> swim_service \<Rightarrow> bool" where
  "silent c n k s \<longleftrightarrow> swim_inv s \<and> sv_config s = c \<and> sv_self_id s \<noteq> n
     \<and> pair_only (sv_self_id s) n (sv_members s) \<and> known_as n Alive (sv_detector s, sv_members s)
     \<and> hm_get (failed_probes (sv_detector s)) n = (if k = 0 then None else Some k)
     \<and> hm_get (suspect_timers (sv_detector s)) n = None"

lemma silent_start:
  assumes "silent c n 0 s" and "probe_target (sv_probe s) = None" and "swim_world_ok w"
  shows "silent c n 0 (snd (swim_tick w now s))" and "probing n (snd (swim_tick w now s))"
    and "n \<notin> set (to_newly_dead (fst (swim_tick w now s)))"
proof -
  have rv: "resolved_view s now = (sv_detector s, sv_members s)" using assms(2) by (simp add: resolved_view_def)
  have t: "swim_inv s" "sv_self_id s \<noteq> n" "pair_only (sv_self_id s) n (snd (resolved_view s now))"
      "known_as n Alive (resolved_view s now)" "hm_get (suspect_timers (fst (resolved_view s now))) n = None"
    using assms(1) by (simp_all add: silent_def rv)
  have x: "hm_get (suspect_timers (fst (resolved_view s now))) n = Some t' \<Longrightarrow>
      now - t' < suspect_timeout (sv_config s)" for t' by (simp add: t(5))
  note v = tick_view [OF t(1) assms(3) t(2-4) node_state.distinct(3) x]
  show "probing n (snd (swim_tick w now s))" "n \<notin> set (to_newly_dead (fst (swim_tick w now s)))" using v by simp_all
  show "silent c n 0 (snd (swim_tick w now s))"
    using v t assms inv_tick [OF t(1) assms(3)] by (simp add: silent_def known_as_def rv)
qed

lemma silent_step:
  assumes s: "silent c n k s" and p: "probing n s" and w: "swim_world_ok w"
    and k: "k < indirect_probe_count c" and b: "indirect_probe_count c < usize_max"
  shows "silent c n (Suc k) (snd (swim_tick w now s))" and "probing n (snd (swim_tick w now s))"
    and "n \<notin> set (to_newly_dead (fst (swim_tick w now s)))"
proof -
  have rv: "resolved_view s now =
      ((sv_detector s)\<lparr>failed_probes := hm_insert n (Suc k) (failed_probes (sv_detector s))\<rparr>, sv_members s)"
    using p s nack_below [of "sv_detector s" n k c now "sv_members s"] k b
    by (simp add: resolved_view_def probing_def silent_def)
  have t: "swim_inv s" "sv_self_id s \<noteq> n" "pair_only (sv_self_id s) n (snd (resolved_view s now))"
      "known_as n Alive (resolved_view s now)" "hm_get (suspect_timers (fst (resolved_view s now))) n = None"
    using s by (simp_all add: silent_def known_as_def rv)
  have x: "hm_get (suspect_timers (fst (resolved_view s now))) n = Some t' \<Longrightarrow>
      now - t' < suspect_timeout (sv_config s)" for t' by (simp add: t(5))
  note v = tick_view [OF t(1) w t(2-4) node_state.distinct(3) x]
  show "probing n (snd (swim_tick w now s))" "n \<notin> set (to_newly_dead (fst (swim_tick w now s)))" using v by simp_all
  show "silent c n (Suc k) (snd (swim_tick w now s))"
    using v t s inv_tick [OF t(1) w] by (simp add: silent_def known_as_def rv)
qed

text \<open>The period that completes the count, and the first one after the suspect timer has run out.\<close>

definition suspected_at :: "swim_config \<Rightarrow> u64 \<Rightarrow> instant \<Rightarrow> swim_service \<Rightarrow> bool" where
  "suspected_at c n t s \<longleftrightarrow> swim_inv s \<and> sv_config s = c \<and> probing n s
     \<and> known_as n Suspect (sv_detector s, sv_members s) \<and> hm_get (suspect_timers (sv_detector s)) n = Some t"

lemma silent_suspect:
  assumes s: "silent c n (indirect_probe_count c) s" and p: "probing n s" and w: "swim_world_ok w"
    and b: "indirect_probe_count c < usize_max" and pos: "0 < suspect_timeout c"
  shows "suspected_at c n now (snd (swim_tick w now s))"
    and "n \<notin> set (to_newly_dead (fst (swim_tick w now s)))"
proof -
  have rv: "resolved_view s now = record_nack c n now (sv_detector s, sv_members s)"
    using p s by (simp add: resolved_view_def probing_def silent_def)
  from s obtain m where m: "hm_get (ml_members (sv_members s)) n = Some m" "mem_state m = Alive"
    by (auto simp: silent_def known_as_def)
  have f: "hm_get (failed_probes (sv_detector s)) n =
      (if indirect_probe_count c = 0 then None else Some (indirect_probe_count c))"
    using s by (simp add: silent_def)
  note r = nack_reaches [OF f refl b m, of now]
  have other: "hm_get (ml_members (snd (record_nack c n now (sv_detector s, sv_members s)))) x
      = hm_get (ml_members (sv_members s)) x" if "x \<noteq> n" for x
    using that by (simp add: record_nack_def Let_def split: option.splits)
  have t: "swim_inv s" "sv_self_id s \<noteq> n" "pair_only (sv_self_id s) n (snd (resolved_view s now))"
      "known_as n Suspect (resolved_view s now)" "hm_get (suspect_timers (fst (resolved_view s now))) n = Some now"
    using s r other by (auto simp: silent_def known_as_def rv pair_only_def)
  have x: "hm_get (suspect_timers (fst (resolved_view s now))) n = Some t' \<Longrightarrow>
      now - t' < suspect_timeout (sv_config s)" for t'
    using s pos by (simp add: t(5) silent_def)
  note v = tick_view [OF t(1) w t(2-4) node_state.distinct(5) x]
  show "n \<notin> set (to_newly_dead (fst (swim_tick w now s)))" using v by simp
  show "suspected_at c n now (snd (swim_tick w now s))"
    using v t s r inv_tick [OF t(1) w] by (simp add: suspected_at_def silent_def known_as_def rv)
qed

lemma suspected_dies:
  assumes s: "suspected_at c n t s" and w: "swim_world_ok w" and late: "suspect_timeout c \<le> now - t"
  shows "n \<in> set (to_newly_dead (fst (swim_tick w now s)))"
proof -
  let ?s1 = "snd (resolve_probe w now s)"
  have o: "hash_order (sw_timer_order w)" "hash_order (sw_pending_order w)"
    using w by (simp_all add: swim_world_ok_def)
  have i1: "swim_inv ?s1" using s o by (simp add: inv_resolve suspected_at_def)
  have wf: "detector_wf (sv_detector ?s1, sv_members ?s1)" using i1 by (simp add: swim_inv_def view_ok_def)
  have "resolved_view s now = record_nack c n now (sv_detector s, sv_members s)"
    using s by (simp add: resolved_view_def probing_def suspected_at_def)
  then have "hm_get (suspect_timers (fst (resolved_view s now))) n = Some t"
    using s by (auto simp: record_nack_def Let_def suspected_at_def known_as_def split: option.splits)
  then have tm: "hm_get (suspect_timers (sv_detector ?s1)) n = Some t"
    using resolve_view(1) [of w now s] by (metis fst_conv)
  obtain dead d1 ml1 where c: "check_suspect_timeouts (sw_timer_order w) (sv_config ?s1) now
      (sv_detector ?s1, sv_members ?s1) = (dead, d1, ml1)"
    by (cases "check_suspect_timeouts (sw_timer_order w) (sv_config ?s1) now (sv_detector ?s1, sv_members ?s1)") auto
  have "sv_config ?s1 = c" using s by (simp add: resolve_view suspected_at_def)
  with check_suspect_timeouts_get(1) [OF o(1) wf c, of n] tm late have "n \<in> set dead" by auto
  then show ?thesis by (simp add: swim_tick_dead expire_timers_state(2) c)
qed

text \<open>Periods at the given times, and the nodes declared dead on the way.\<close>

fun periods :: "'v swim_world \<Rightarrow> instant list \<Rightarrow> swim_service \<Rightarrow> u64 set \<times> swim_service" where
  "periods w [] s = ({}, s)"
| "periods w (t # ts) s =
     (let (out, s1) = swim_tick w t s; (dead, s2) = periods w ts s1 in
      (set (to_newly_dead out) \<union> dead, s2))"

lemma periods_append:
  "periods w (ts @ us) s = (fst (periods w ts s) \<union> fst (periods w us (snd (periods w ts s))),
     snd (periods w us (snd (periods w ts s))))"
  by (induction ts arbitrary: s) (auto simp: Let_def split: prod.splits)

lemma silent_periods:
  assumes "silent c n k s" and "probing n s" and "swim_world_ok w"
    and "k + length ts \<le> indirect_probe_count c" and "indirect_probe_count c < usize_max"
  shows "silent c n (k + length ts) (snd (periods w ts s)) \<and> probing n (snd (periods w ts s))
    \<and> n \<notin> fst (periods w ts s)"
  using assms
proof (induction ts arbitrary: s k)
  case (Cons t ts)
  then have k: "k < indirect_probe_count c" by simp
  note st = silent_step [OF Cons.prems(1,2,3) k Cons.prems(5), of t]
  from Cons.IH [OF st(1,2) Cons.prems(3) _ Cons.prems(5)] Cons.prems(4) st(3) show ?case
    by (auto simp: Let_def split: prod.splits)
qed simp

section \<open>A concrete environment\<close>

instance socket_addr :: countable by countable_datatype
instance gossip_update :: countable by countable_datatype
instance swim_kind :: countable by countable_datatype

text \<open>An injective codec of envelopes: the length of the byte string numbers the envelope.\<close>

definition sample_world :: "wire_value swim_world" where
  "sample_world = \<lparr>sw_values = wire,
     sw_to_vec = (\<lambda>e. replicate (to_nat (env_from e, env_from_addr e, env_seq e, env_kind e, env_gossip e)) 0),
     sw_from_slice = (\<lambda>bs. case from_nat (length bs) of (f, a, q, k, g) \<Rightarrow>
       Some \<lparr>env_from = f, env_from_addr = a, env_seq = q, env_kind = k, env_gossip = g\<rparr>),
     sw_pending_order = rev, sw_member_order = (\<lambda>m. m), sw_timer_order = rev,
     sw_pick = (\<lambda>xs. case xs of [] \<Rightarrow> None | x # _ \<Rightarrow> Some x)\<rparr>"

lemma sample_world_ok [simp]: "swim_world_ok sample_world"
  by (simp add: swim_world_ok_def sample_world_def picks_def split: list.splits)

section \<open>Indirect probes\<close>

lemma step_self_id_helpers [simp]:
  "sv_self_id (add_seed n a s) = sv_self_id s"
  "sv_self_id (absorb_update w u s) = sv_self_id s"
  "sv_self_id (hear_from f a s) = sv_self_id s"
  "sv_self_id (record_alive n s) = sv_self_id s"
  "sv_self_addr (absorb_update w u s) = sv_self_addr s"
  "sv_self_addr (hear_from f a s) = sv_self_addr s"
  "sv_relays (absorb_update w u s) = sv_relays s"
  "sv_relays (hear_from f a s) = sv_relays s"
  "sv_seq (absorb_update w u s) = sv_seq s"
  "sv_seq (hear_from f a s) = sv_seq s"
  by (simp_all add: add_seed_def absorb_update_def hear_from_def record_alive_def on_detector_def
      enqueue_gossip_def Let_def split: prod.splits option.splits)

lemma fold_absorb_fields [simp]:
  "sv_self_id (fold (absorb_update w) us s) = sv_self_id s"
  "sv_self_addr (fold (absorb_update w) us s) = sv_self_addr s"
  "sv_relays (fold (absorb_update w) us s) = sv_relays s"
  "sv_seq (fold (absorb_update w) us s) = sv_seq s"
  by (induction us arbitrary: s) simp_all

lemma build_envelope_cong:
  "sv_self_id s = sv_self_id s' \<Longrightarrow> sv_self_addr s = sv_self_addr s' \<Longrightarrow>
     build_envelope w q k g s = build_envelope w q k g s'"
  by (simp add: build_envelope_def)

lemma handle_built_frame:
  "swim_world_ok w \<Longrightarrow> handle_frame w (build_envelope w q k g s) s' =
     handle_envelope w \<lparr>env_from = sv_self_id s, env_from_addr = sv_self_addr s, env_seq = q,
       env_kind = k, env_gossip = g\<rparr> s'"
  by (simp add: handle_frame_def build_envelope_def swim_world_ok_def Let_def)

text \<open>
  The exchange of an indirect probe: relay \<open>R\<close> receives the request of an origin, its ping is
  handled by the target \<open>T\<close>, and the target's answer is handled by the relay.
\<close>

definition relay_exchange ::
  "'v swim_world \<Rightarrow> swim_envelope \<Rightarrow> swim_service \<Rightarrow> swim_service \<Rightarrow> 'v outgoing list \<times> swim_service" where
  "relay_exchange w req R T =
     (let (ping, R1) = handle_envelope w req R;
          (ack, T1) = handle_frame w (out_frame (hd ping)) T in
      handle_frame w (out_frame (hd ack)) R1)"

lemma handle_ack_relay:
  "fst (handle_ack w from seq None s) =
     (case hm_get (sv_relays s) seq of
        None \<Rightarrow> []
      | Some e \<Rightarrow> [\<lparr>out_node_id = re_origin e, out_addr = re_origin_addr e,
          out_frame = build_envelope w (re_origin_seq e) (Ack (Some (re_target e))) [] s\<rparr>])"
  "sv_relays (snd (handle_ack w from seq None s)) = hm_remove seq (sv_relays s)"
  by (auto simp: handle_ack_def Let_def record_alive_def intro: build_envelope_cong split: option.splits)

lemma ping_req_effect:
  assumes "env_kind req = PingReq t ta"
  shows "\<exists>R1. handle_envelope w req R = ([\<lparr>out_node_id = t, out_addr = ta,
      out_frame = build_envelope w (sv_seq R) Ping [] R\<rparr>], R1)
    \<and> sv_relays R1 = hm_insert (sv_seq R) \<lparr>re_origin = env_from req, re_origin_addr = env_from_addr req,
        re_origin_seq = env_seq req, re_target = t\<rparr> (sv_relays R)
    \<and> sv_self_id R1 = sv_self_id R \<and> sv_self_addr R1 = sv_self_addr R"
  using assms
  by (auto simp: handle_envelope_def handle_ping_req_def Let_def next_seq_def intro: build_envelope_cong)

lemma ping_reply:
  assumes "env_kind e = Ping"
  shows "\<exists>g. hd (fst (handle_envelope w e T)) = \<lparr>out_node_id = env_from e, out_addr = env_from_addr e,
    out_frame = build_envelope w (sv_seq T) (Ack None) g T\<rparr>"
  using assms
  by (auto simp: handle_envelope_def handle_ping_def Let_def next_seq_def case_prod_beta intro!: exI build_envelope_cong)

lemma ack_effect:
  assumes "env_kind e = Ack None"
  shows "fst (handle_envelope w e R) =
     (case hm_get (sv_relays R) (env_seq e) of
        None \<Rightarrow> []
      | Some r \<Rightarrow> [\<lparr>out_node_id = re_origin r, out_addr = re_origin_addr r,
          out_frame = build_envelope w (re_origin_seq r) (Ack (Some (re_target r))) [] R\<rparr>])"
    and "sv_relays (snd (handle_envelope w e R)) = hm_remove (env_seq e) (sv_relays R)"
  using assms
  by (auto simp: handle_envelope_def Let_def handle_ack_relay intro: build_envelope_cong split: option.splits)

lemma swim_step_self_id [simp]: "sv_self_id (swim_step e s) = sv_self_id s"
proof (cases e)
  case (Period w now)
  have p: "sv_self_id (snd (probe_next w s')) = sv_self_id s'" for s'
    by (simp add: probe_next_def next_seq_def case_prod_beta Let_def split: option.splits)
  have "sv_self_id (snd (snd (expire_timers w now s'))) = sv_self_id s'" for s'
    by (simp add: expire_timers_state)
  with Period p show ?thesis by (simp add: swim_tick_state resolve_view)
next
  case (Receive w f)
  have "sv_self_id (snd (handle_envelope w env s)) = sv_self_id s" for env
    by (simp add: handle_envelope_def handle_ping_def handle_ack_def handle_ping_req_def next_seq_def
        case_prod_beta Let_def split: swim_kind.splits option.splits)
  with Receive show ?thesis by (simp add: handle_frame_def split: option.splits)
qed simp

lemma swim_run_self_id: "sv_self_id (fold swim_step es s) = sv_self_id s"
  by (induction es arbitrary: s) simp_all

section \<open>Properties\<close>

text \<open>
  C37: a node never doubts itself: after any sequence of seeds, protocol periods and received
  frames, whatever they carry, the service holds its own node Alive at its own incarnation, runs
  no suspect timer for it, does not probe it, and sends no frame of a protocol period to it.
\<close>

theorem swim_self_alive:
  assumes "list_all swim_enabled es" and "swim_world_ok w"
    and "s = fold swim_step es (swim_new n a config cert)"
  shows "state_of n s = Some Alive
    \<and> (\<exists>m. hm_get (ml_members (sv_members s)) n = Some m
         \<and> mem_incarnation m = ml_self_incarnation (sv_members s))
    \<and> hm_get (suspect_timers (sv_detector s)) n = None \<and> probe_target (sv_probe s) \<noteq> Some n
    \<and> (\<forall>o' \<in> set (to_outgoing (fst (swim_tick w now s))). out_node_id o' \<noteq> n)"
proof -
  have i: "swim_inv s" unfolding assms(3) by (rule sw.run_inv) (simp_all add: assms(1))
  have n: "sv_self_id s = n" unfolding assms(3) by (simp add: swim_run_self_id swim_new_def)
  have ord: "hash_order (sw_pending_order w)" using assms(2) by (simp add: swim_world_ok_def)
  let ?s2 = "snd (snd (expire_timers w now (snd (resolve_probe w now s))))"
  have i2: "swim_inv ?s2" using i assms(2) ord by (intro inv_expire inv_resolve)
  have n2: "sv_self_id ?s2 = n" by (simp add: expire_timers_state resolve_view n)
  have out: "to_outgoing (fst (swim_tick w now s)) = fst (resolve_probe w now s) @ fst (probe_next w ?s2)"
    by (simp add: swim_tick_def case_prod_beta Let_def)
  have "out_node_id o' \<noteq> n" if "o' \<in> set (to_outgoing (fst (swim_tick w now s)))" for o'
    using that resolve_outgoing [OF i, of o' w now] inv_probe_next(2) [OF i2 assms(2), of o'] n n2
    by (auto simp: out)
  with i n show ?thesis
    by (auto simp: swim_inv_def view_ok_def self_ok_def state_of_def ml_get_def)
qed

theorem swim_self_alive_witness:
  "state_of 1 (fold swim_step [Seed 2 addr1, Period sample_world 5,
     Receive sample_world (build_envelope sample_world 9 (Ack (Some 1)) [DeadUpd 1 addr1 0] (swim_new 2 addr1 swim_config_default None)),
     Period sample_world (from_secs 9)] (swim_new 1 addr1 swim_config_default None)) = Some Alive"
  by (rule swim_self_alive [where w = sample_world, OF _ _ refl, THEN conjunct1]) simp_all

text \<open>
  A crashed peer is detected, and not before its time: in a cluster of two, when the other
  node \<open>n\<close> never answers, it is not declared dead during the first \<open>indirect_probe_count + 2\<close> protocol
  periods, whatever their times, and the first period that starts \<open>suspect_timeout\<close> or more after
  them declares it dead.
\<close>

theorem silent_peer_declared_dead:
  assumes "silent c n 0 s" and "probe_target (sv_probe s) = None" and "swim_world_ok w"
    and "indirect_probe_count c < usize_max" and "0 < suspect_timeout c"
    and "length ts = indirect_probe_count c" and "suspect_timeout c \<le> now - t"
  shows "n \<notin> fst (periods w (t0 # ts @ [t]) s)
    \<and> n \<in> fst (periods w [now] (snd (periods w (t0 # ts @ [t]) s)))"
proof -
  obtain o0 s0 where t0: "swim_tick w t0 s = (o0, s0)" by fastforce
  note st = silent_start [OF assms(1,2,3), of t0, unfolded t0 fst_conv snd_conv]
  let ?s1 = "snd (periods w ts s0)"
  from silent_periods [OF st(1,2) assms(3), of ts] assms(4,6)
  have s1: "silent c n (indirect_probe_count c) ?s1" "probing n ?s1" "n \<notin> fst (periods w ts s0)" by auto
  note sus = silent_suspect [OF s1(1,2) assms(3,4,5), of t]
  have dies: "n \<in> set (to_newly_dead (fst (swim_tick w now (snd (swim_tick w t ?s1)))))"
    by (rule suspected_dies [OF sus(1) assms(3,7)])
  show ?thesis
    using st(3) s1(3) sus(2) dies by (simp add: periods_append t0 Let_def case_prod_beta)
qed

definition pair_service :: swim_service where
  "pair_service = add_seed 2 addr1 (swim_new 1 addr1 swim_config_default None)"

lemma pair_service_silent: "silent swim_config_default 2 0 pair_service"
  using inv_add_seed [of "swim_new 1 addr1 swim_config_default None" 2 addr1]
  by (simp add: silent_def pair_service_def pair_only_def known_as_def)
     (simp add: add_seed_def swim_new_def ml_add_def with_self_def membership_new_def Let_def
       member_new_def detector_new_def)

theorem silent_peer_declared_dead_witness:
  "2 \<in> fst (periods sample_world [from_secs 10]
     (snd (periods sample_world (from_secs 0 # [from_secs 1, from_secs 2, from_secs 3] @ [from_secs 4]) pair_service)))"
  by (rule silent_peer_declared_dead [where c = swim_config_default, THEN conjunct2])
     (simp_all add: pair_service_silent, simp_all add: pair_service_def add_seed_def swim_new_def
       swim_config_default_def from_secs_def usize_max_def)

text \<open>
  An indirect probe is answered by luck. The target answers a ping under a sequence number of
  its own, while the relay looks the answer up under the number of its ping: the answer reaches the
  origin of the request exactly when the two counters agree. When they differ the relay either
  sends nothing, or, if it relays another probe under that number, tells the origin of that other
  probe that its target is alive; the entry of the request stays behind.
\<close>

theorem indirect_ack_by_luck:
  assumes "swim_world_ok w" and "env_kind req = PingReq (sv_self_id T) ta"
  shows "fst (relay_exchange w req R T) =
    (if sv_seq T = sv_seq R
     then [\<lparr>out_node_id = env_from req, out_addr = env_from_addr req,
            out_frame = build_envelope w (env_seq req) (Ack (Some (sv_self_id T))) [] R\<rparr>]
     else case hm_get (sv_relays R) (sv_seq T) of
            None \<Rightarrow> []
          | Some r \<Rightarrow> [\<lparr>out_node_id = re_origin r, out_addr = re_origin_addr r,
              out_frame = build_envelope w (re_origin_seq r) (Ack (Some (re_target r))) [] R\<rparr>])
    \<and> (hm_contains (sv_seq R) (sv_relays (snd (relay_exchange w req R T))) \<longleftrightarrow> sv_seq T \<noteq> sv_seq R)"
proof -
  from ping_req_effect [OF assms(2), of w R] obtain R1 where R1:
      "handle_envelope w req R = ([\<lparr>out_node_id = sv_self_id T, out_addr = ta,
        out_frame = build_envelope w (sv_seq R) Ping [] R\<rparr>], R1)"
      "sv_relays R1 = hm_insert (sv_seq R) \<lparr>re_origin = env_from req, re_origin_addr = env_from_addr req,
        re_origin_seq = env_seq req, re_target = sv_self_id T\<rparr> (sv_relays R)"
      "sv_self_id R1 = sv_self_id R" "sv_self_addr R1 = sv_self_addr R"
    by blast
  let ?ping = "\<lparr>env_from = sv_self_id R, env_from_addr = sv_self_addr R, env_seq = sv_seq R,
    env_kind = Ping, env_gossip = []\<rparr>"
  obtain g where g: "out_frame (hd (fst (handle_envelope w ?ping T))) = build_envelope w (sv_seq T) (Ack None) g T"
    using ping_reply [of ?ping w T] by auto
  let ?ack = "\<lparr>env_from = sv_self_id T, env_from_addr = sv_self_addr T, env_seq = sv_seq T,
    env_kind = Ack None, env_gossip = g\<rparr>"
  have ex: "relay_exchange w req R T = handle_envelope w ?ack R1"
    by (simp add: relay_exchange_def R1(1) handle_built_frame [OF assms(1)] case_prod_beta g)
  have b: "build_envelope w q k us R1 = build_envelope w q k us R" for q k us
    by (rule build_envelope_cong) (simp_all add: R1)
  show ?thesis
    unfolding ex ack_effect(1) [of ?ack, simplified] ack_effect(2) [of ?ack, simplified]
    by (simp add: R1(2) b hm_contains_def split: option.split)
qed

theorem indirect_ack_by_luck_witness:
  "fst (relay_exchange sample_world
      \<lparr>env_from = 1, env_from_addr = addr1, env_seq = 7, env_kind = PingReq 3 addr1, env_gossip = []\<rparr>
      (swim_new 2 addr1 swim_config_default None)
      ((swim_new 3 addr1 swim_config_default None)\<lparr>sv_seq := 4\<rparr>)) = []"
  by (subst indirect_ack_by_luck [THEN conjunct1]) (simp_all add: swim_new_def)

end
