(* ===== verification/Tcp.thy ===== *)
theory Tcp
  imports Frame
begin

text \<open>
  The TCP transport (\<^verbatim>\<open>crates/rebar-cluster/src/transport/tcp.rs\<close>, \<^verbatim>\<open>traits.rs\<close>): frames on a byte stream, each
  behind a 32-bit big-endian length. The socket is outside the repository: a connection holds the bytes it will still
  read before the stream ends, with the error that ends it, and the bytes it has written, with the error of further
  writes if the socket is broken. The theory shows that the receiver finds the boundaries of the sender's frames, also behind frames it
  cannot decode, and what an oversized frame does to the stream.
\<close>

section \<open>Connections\<close>

datatype io_error = UnexpectedEof | OtherIo string

datatype transport_error =
    TransportIo io_error
  | ConnectionClosed
  | FrameTooLarge usize usize
  | TransportFrame frame_error

record tcp_connection =
  tc_incoming :: "u8 list"
  tc_ends_with :: io_error
  tc_written :: "u8 list"
  tc_broken :: "io_error option"

text \<open>\<open>read_exact\<close> and \<open>write_all\<close> on the socket.\<close>

definition read_exact :: "nat \<Rightarrow> tcp_connection \<Rightarrow> (io_error + u8 list) \<times> tcp_connection" where
  "read_exact n c =
     (if n \<le> length (tc_incoming c) then (Inr (take n (tc_incoming c)), c\<lparr>tc_incoming := drop n (tc_incoming c)\<rparr>)
      else (Inl (tc_ends_with c), c\<lparr>tc_incoming := []\<rparr>))"

definition write_all :: "u8 list \<Rightarrow> tcp_connection \<Rightarrow> (io_error + unit) \<times> tcp_connection" where
  "write_all bs c = (case tc_broken c of Some e \<Rightarrow> (Inl e, c) | None \<Rightarrow> (Inr (), c\<lparr>tc_written := tc_written c @ bs\<rparr>))"

text \<open>\<open>None\<close> is a panic of the frame encoder.\<close>

definition tcp_send :: "('v \<Rightarrow> u8 list option) \<Rightarrow> 'v frame \<Rightarrow> tcp_connection \<Rightarrow> ((transport_error + unit) \<times> tcp_connection) option" where
  "tcp_send wv f c =
     (case frame_encode wv f of
        None \<Rightarrow> None
      | Some encoded \<Rightarrow> Some (
          if 2 ^ 32 \<le> length encoded then (Inl (TransportIo (OtherIo ''out of range integral type conversion attempted'')), c)
          else
            (case write_all (to_be_bytes 4 (word_of_nat (length encoded) :: u32)) c of
               (Inl e, c1) \<Rightarrow> (Inl (TransportIo e), c1)
             | (Inr _, c1) \<Rightarrow>
                 (case write_all encoded c1 of
                    (Inl e, c2) \<Rightarrow> (Inl (TransportIo e), c2)
                  | (Inr _, c2) \<Rightarrow> (Inr (), c2)))))"

definition tcp_recv :: "nat \<Rightarrow> (u8 list \<Rightarrow> string + 'v) \<Rightarrow> tcp_connection \<Rightarrow> (transport_error + 'v frame) \<times> tcp_connection" where
  "tcp_recv umax rv c =
     (case read_exact 4 c of
        (Inl e, c1) \<Rightarrow> (Inl (if e = UnexpectedEof then ConnectionClosed else TransportIo e), c1)
      | (Inr len_buf, c1) \<Rightarrow>
          let len = unat (from_be_bytes len_buf :: u32) in
          if len > MAX_FRAME_SIZE then (Inl (FrameTooLarge len MAX_FRAME_SIZE), c1)
          else
            (case read_exact len c1 of
               (Inl e, c2) \<Rightarrow> (Inl (TransportIo e), c2)
             | (Inr buf, c2) \<Rightarrow>
                 (case frame_decode umax rv buf of
                    Inl e \<Rightarrow> (Inl (TransportFrame e), c2)
                  | Inr f \<Rightarrow> (Inr f, c2))))"

section \<open>Blocks on the stream\<close>

fun tcp_send_all :: "('v \<Rightarrow> u8 list option) \<Rightarrow> 'v frame list \<Rightarrow> tcp_connection \<Rightarrow> ((transport_error + unit) list \<times> tcp_connection) option" where
  "tcp_send_all wv [] c = Some ([], c)"
| "tcp_send_all wv (f # fs) c =
     (case tcp_send wv f c of
        None \<Rightarrow> None
      | Some (r, c1) \<Rightarrow> map_option (\<lambda>(rs, c2). (r # rs, c2)) (tcp_send_all wv fs c1))"

fun tcp_recv_many :: "nat \<Rightarrow> (u8 list \<Rightarrow> string + 'v) \<Rightarrow> nat \<Rightarrow> tcp_connection \<Rightarrow> (transport_error + 'v frame) list \<times> tcp_connection" where
  "tcp_recv_many umax rv 0 c = ([], c)"
| "tcp_recv_many umax rv (Suc n) c =
     (let (r, c1) = tcp_recv umax rv c; (rs, c2) = tcp_recv_many umax rv n c1 in (r # rs, c2))"

text \<open>A length prefix and its block.\<close>

definition delimit :: "u8 list \<Rightarrow> u8 list" where
  "delimit bs = to_be_bytes 4 (word_of_nat (length bs) :: u32) @ bs"

lemma delimit_prefix:
  assumes "length bs < 2 ^ 32"
  shows "unat (from_be_bytes (take 4 (delimit bs @ rest)) :: u32) = length bs" and "drop 4 (delimit bs @ rest) = bs @ rest"
proof -
  have "take 4 (delimit bs @ rest) = to_be_bytes 4 (word_of_nat (length bs) :: u32)" "drop 4 (delimit bs @ rest) = bs @ rest"
    by (simp_all add: delimit_def)
  then show "unat (from_be_bytes (take 4 (delimit bs @ rest)) :: u32) = length bs" "drop 4 (delimit bs @ rest) = bs @ rest"
    using assms by (simp_all add: be_bytes_roundtrip_u32 unsigned_of_nat take_bit_nat_eq_self)
qed

lemma tcp_recv_block:
  assumes "tc_incoming c = delimit bs @ rest" and "length bs \<le> MAX_FRAME_SIZE"
  shows "tcp_recv umax rv c = (map_sum TransportFrame (\<lambda>f. f) (frame_decode umax rv bs), c\<lparr>tc_incoming := rest\<rparr>)"
proof -
  have lt: "length bs < 2 ^ 32" using assms(2) by (simp add: MAX_FRAME_SIZE_def)
  have four: "4 \<le> length (tc_incoming c)" by (simp add: assms(1) delimit_def)
  note p = delimit_prefix [OF lt, of rest, folded assms(1)]
  have "read_exact 4 c = (Inr (take 4 (tc_incoming c)), c\<lparr>tc_incoming := bs @ rest\<rparr>)" using four p(2) by (simp add: read_exact_def)
  moreover have "read_exact (length bs) (c\<lparr>tc_incoming := bs @ rest\<rparr>) = (Inr bs, c\<lparr>tc_incoming := rest\<rparr>)" by (simp add: read_exact_def)
  ultimately show ?thesis using p(1) assms(2) by (simp add: tcp_recv_def split: sum.splits)
qed

lemma tcp_recv_blocks:
  assumes "tc_incoming c = concat (map delimit blocks) @ rest" and "\<forall>bs \<in> set blocks. length bs \<le> MAX_FRAME_SIZE"
  shows "tcp_recv_many umax rv (length blocks) c
    = (map (\<lambda>bs. map_sum TransportFrame (\<lambda>f. f) (frame_decode umax rv bs)) blocks, c\<lparr>tc_incoming := rest\<rparr>)"
  using assms
proof (induction blocks arbitrary: c)
  case (Cons bs blocks)
  have "tc_incoming c = delimit bs @ (concat (map delimit blocks) @ rest)" "length bs \<le> MAX_FRAME_SIZE" using Cons.prems by simp_all
  from tcp_recv_block [OF this, of umax rv] Cons.IH [of "c\<lparr>tc_incoming := concat (map delimit blocks) @ rest\<rparr>"] Cons.prems(2) show ?case by simp
qed simp

lemma tcp_send_written:
  assumes "frame_encode wv f = Some bs" and "length bs < 2 ^ 32" and "tc_broken c = None"
  shows "tcp_send wv f c = Some (Inr (), c\<lparr>tc_written := tc_written c @ delimit bs\<rparr>)"
  using assms by (simp add: tcp_send_def write_all_def delimit_def)

lemma tcp_send_all_written:
  assumes "list_all2 (\<lambda>f bs. frame_encode wv f = Some bs \<and> length bs < 2 ^ 32) fs blocks" and "tc_broken c = None"
  shows "tcp_send_all wv fs c = Some (map (\<lambda>_. Inr ()) fs, c\<lparr>tc_written := tc_written c @ concat (map delimit blocks)\<rparr>)"
  using assms
proof (induction arbitrary: c rule: list_all2_induct)
  case (Cons f fs bs blocks)
  then show ?case by (simp add: tcp_send_written)
qed simp

section \<open>Properties\<close>

text \<open>
  C20: frames cross a TCP connection in order and unchanged. When every frame encodes within 64 MiB, all sends succeed, and a peer whose stream
  continues with the bytes they wrote receives exactly these frames, one per call, and stands at the bytes behind
  them, provided the MessagePack reader inverts the writer and the socket is not broken.
\<close>

theorem tcp_stream_roundtrip:
  assumes law: "\<And>v bs. wv v = Some bs \<Longrightarrow> rv bs = Inr v"
    and enc: "list_all (\<lambda>f. \<exists>bs. frame_encode wv f = Some bs \<and> length bs \<le> MAX_FRAME_SIZE) fs"
    and up: "tc_broken c = None" and umax: "2 ^ 32 - 1 \<le> umax"
  shows "\<exists>out. tcp_send_all wv fs c = Some (map (\<lambda>_. Inr ()) fs, c\<lparr>tc_written := tc_written c @ out\<rparr>)
    \<and> (\<forall>d rest. tcp_recv_many umax rv (length fs) (d\<lparr>tc_incoming := out @ rest\<rparr>) = (map Inr fs, d\<lparr>tc_incoming := rest\<rparr>))"
proof -
  define blocks where "blocks = map (\<lambda>f. the (frame_encode wv f)) fs"
  have e: "frame_encode wv f = Some (the (frame_encode wv f))" "length (the (frame_encode wv f)) \<le> MAX_FRAME_SIZE" if "f \<in> set fs" for f
    using enc that by (auto simp: list_all_iff)
  have "list_all2 (\<lambda>f bs. frame_encode wv f = Some bs \<and> length bs < 2 ^ 32) fs blocks"
    unfolding blocks_def list_all2_map2 by (rule list_all2_same [THEN iffD2]) (use e in \<open>fastforce simp: MAX_FRAME_SIZE_def\<close>)
  note s = tcp_send_all_written [OF this up]
  have small: "\<forall>bs \<in> set blocks. length bs \<le> MAX_FRAME_SIZE" using e by (auto simp: blocks_def)
  have "frame_decode umax rv (the (frame_encode wv f)) = Inr f" if "f \<in> set fs" for f
    using encoded_decodes(1) [where wv = wv and rv = rv and rest = "[]", OF law e(1) [OF that] e(2) [OF that]]
      encoded_decodes(2) [where wv = wv and rv = rv, OF law e(1) [OF that] e(2) [OF that]] by (simp add: frame_decode_long [OF umax])
  then have "map (\<lambda>bs. map_sum TransportFrame (\<lambda>f. f) (frame_decode umax rv bs)) blocks = map Inr fs" by (simp add: blocks_def)
  then have "\<forall>d rest. tcp_recv_many umax rv (length fs) (d\<lparr>tc_incoming := concat (map delimit blocks) @ rest\<rparr>) = (map Inr fs, d\<lparr>tc_incoming := rest\<rparr>)"
    using tcp_recv_blocks [OF _ small, of _ _ umax rv] by (simp add: blocks_def)
  with s show ?thesis by blast
qed

definition unit_frame :: "u64 \<Rightarrow> unit frame" where
  "unit_frame rid = \<lparr>version = 1, msg_type = MsgSwim, request_id = rid, header = (), payload = ()\<rparr>"

definition idle_tcp :: tcp_connection where
  "idle_tcp = \<lparr>tc_incoming = [], tc_ends_with = UnexpectedEof, tc_written = [], tc_broken = None\<rparr>"

theorem tcp_stream_roundtrip_witness:
  "\<exists>out. tcp_send_all (\<lambda>_. Some [192]) [unit_frame 7, unit_frame 8] idle_tcp = Some ([Inr (), Inr ()], idle_tcp\<lparr>tc_written := out\<rparr>)
    \<and> tcp_recv_many (2 ^ 64 - 1) (\<lambda>bs. if bs = [192] then Inr () else Inl ''bad'') 2 (idle_tcp\<lparr>tc_incoming := out @ [9]\<rparr>)
        = ([Inr (unit_frame 7), Inr (unit_frame 8)], idle_tcp\<lparr>tc_incoming := [9]\<rparr>)"
proof -
  let ?wv = "\<lambda>_ :: unit. Some [192 :: u8]" and ?rv = "\<lambda>bs. if bs = [192 :: u8] then Inr () else Inl ''bad''" and ?fs = "[unit_frame 7, unit_frame 8]"
  have "list_all (\<lambda>f. \<exists>bs. frame_encode ?wv f = Some bs \<and> length bs \<le> MAX_FRAME_SIZE) ?fs"
    by (simp add: frame_encode_def MAX_FRAME_SIZE_def)
  from tcp_stream_roundtrip [where wv = ?wv and rv = ?rv and c = idle_tcp and umax = "2 ^ 64 - 1", OF _ this] obtain out where
    o: "tcp_send_all ?wv ?fs idle_tcp = Some (map (\<lambda>_. Inr ()) ?fs, idle_tcp\<lparr>tc_written := tc_written idle_tcp @ out\<rparr>)"
      "\<forall>d rest. tcp_recv_many (2 ^ 64 - 1) ?rv (length ?fs) (d\<lparr>tc_incoming := out @ rest\<rparr>) = (map Inr ?fs, d\<lparr>tc_incoming := rest\<rparr>)"
    by (auto simp: idle_tcp_def)
  have "tcp_recv_many (2 ^ 64 - 1) ?rv 2 (idle_tcp\<lparr>tc_incoming := out @ [9]\<rparr>) = ([Inr (unit_frame 7), Inr (unit_frame 8)], idle_tcp\<lparr>tc_incoming := [9]\<rparr>)"
    using spec [OF spec [OF o(2), of idle_tcp], of "[9]"] by (simp add: numeral_2_eq_2)
  moreover have "tcp_send_all ?wv ?fs idle_tcp = Some ([Inr (), Inr ()], idle_tcp\<lparr>tc_written := out\<rparr>)"
    using o(1) by (simp add: idle_tcp_def)
  ultimately show ?thesis by blast
qed

text \<open>
  An oversized frame breaks the stream. A frame that encodes to more than 64 MiB and less than 4 GiB is sent without an
  error; the receiver rejects its length and leaves the frame itself unread, so that the next call reads the first four bytes of
  the frame, which start with its version and type bytes, as the length of the next one.
\<close>

theorem tcp_oversize_desynchronises:
  assumes "frame_encode wv f = Some bs" and "MAX_FRAME_SIZE < length bs" and "length bs < 2 ^ 32" and "tc_broken c = None"
    and "tc_incoming d = delimit bs @ rest"
  shows "tcp_send wv f c = Some (Inr (), c\<lparr>tc_written := tc_written c @ delimit bs\<rparr>)
    \<and> tcp_recv umax rv d = (Inl (FrameTooLarge (length bs) MAX_FRAME_SIZE), d\<lparr>tc_incoming := bs @ rest\<rparr>)
    \<and> take 2 bs = [version f, msg_type_to_u8 (msg_type f)]"
proof -
  have four: "4 \<le> length (tc_incoming d)" by (simp add: assms(5) delimit_def)
  note p = delimit_prefix [OF assms(3), of rest, folded assms(5)]
  have "read_exact 4 d = (Inr (take 4 (tc_incoming d)), d\<lparr>tc_incoming := bs @ rest\<rparr>)" using four p(2) by (simp add: read_exact_def)
  then have "tcp_recv umax rv d = (Inl (FrameTooLarge (length bs) MAX_FRAME_SIZE), d\<lparr>tc_incoming := bs @ rest\<rparr>)"
    using p(1) assms(2) by (simp add: tcp_recv_def)
  moreover have "take 2 bs = [version f, msg_type_to_u8 (msg_type f)]"
    using assms(1) by (auto simp: frame_encode_def split: option.splits if_splits)
  ultimately show ?thesis using tcp_send_written [OF assms(1,3,4)] by simp
qed

theorem tcp_oversize_desynchronises_witness:
  "\<exists>bs. frame_encode (\<lambda>_. Some (replicate (2 ^ 26) 0)) (unit_frame 0) = Some bs
    \<and> tcp_recv (2 ^ 64 - 1) (\<lambda>_. Inr ()) (idle_tcp\<lparr>tc_incoming := delimit bs\<rparr>) = (Inl (FrameTooLarge (18 + 2 ^ 27) MAX_FRAME_SIZE), idle_tcp\<lparr>tc_incoming := bs\<rparr>)"
proof -
  let ?wv = "\<lambda>_ :: unit. Some (replicate (2 ^ 26) (0 :: u8))"
  obtain bs where e: "frame_encode ?wv (unit_frame 0) = Some bs" and len: "length bs = 18 + 2 ^ 27" by (simp add: frame_encode_def)
  have "tc_incoming (idle_tcp\<lparr>tc_incoming := delimit bs\<rparr>) = delimit bs @ []" by simp
  from tcp_oversize_desynchronises [OF e _ _ _ this, of idle_tcp "2 ^ 64 - 1" "\<lambda>_. Inr ()"] len
  have "tcp_recv (2 ^ 64 - 1) (\<lambda>_. Inr ()) (idle_tcp\<lparr>tc_incoming := delimit bs\<rparr>) = (Inl (FrameTooLarge (18 + 2 ^ 27) MAX_FRAME_SIZE), idle_tcp\<lparr>tc_incoming := bs\<rparr>)"
    by (simp add: MAX_FRAME_SIZE_def idle_tcp_def)
  with e show ?thesis by blast
qed

end
