(* ===== verification/Node.thy ===== *)
theory Node
  imports Runtime Connection Swim Tcp
begin

text \<open>
  The distributed runtime (\<^verbatim>\<open>crates/rebar/src/lib.rs\<close>), which wires a runtime with the distributed router, the connection manager and
  the SWIM service of a node: pumping the outbound queue, dispatching inbound frames and one protocol period. The last part composes
  two nodes over a TCP connection and shows the delivery of messages from one to the other, end to end.
\<close>

section \<open>A node\<close>

datatype outbound_outcome = Idle | Delivered u64 | Failed u64

record ('c, 'h, 'n, 'r) node =
  nd_runtime :: "('c, 'h, 'r) runtime"
  nd_cm :: "'n connection_manager"
  nd_swim :: "swim_service option"

text \<open>The distributed router as the custom router of the runtime: its state is the sender of the outbound queue.\<close>

definition node_route ::
  "('v message, 'c) mpsc \<Rightarrow> ('v router_command, 'r) mpsc \<Rightarrow> 'v rmpv \<Rightarrow> nat option \<Rightarrow> u64 \<Rightarrow> ('v, 'c, 'h, 'r) custom_route" where
  "node_route M R V now node_id from to p td =
     (case td of (t, d) \<Rightarrow>
       map_option (\<lambda>(r, d'). (r, dr_table d', dr_remote d'))
         (distributed_route M R V now from to p \<lparr>dr_node_id = node_id, dr_table = t, dr_remote = d\<rparr>))"

definition node_new :: "('v router_command, 'r) mpsc \<Rightarrow> u64 \<Rightarrow> 'n connection_manager \<Rightarrow> ('c, 'h, 'n, 'r) node" where
  "node_new R node_id cm =
     \<lparr>nd_runtime = runtime_with_router node_id (table_new node_id) (bounded_channel R 1024), nd_cm = cm, nd_swim = None\<rparr>"

definition enable_swim :: "socket_addr \<Rightarrow> swim_config \<Rightarrow> ('c, 'h, 'n, 'r) node \<Rightarrow> ('c, 'h, 'n, 'r) node" where
  "enable_swim self_addr config nd = nd\<lparr>nd_swim := Some (swim_new (rt_node_id (nd_runtime nd)) self_addr config None)\<rparr>"

definition swim_add_seed :: "u64 \<Rightarrow> socket_addr \<Rightarrow> ('c, 'h, 'n, 'r) node \<Rightarrow> ('c, 'h, 'n, 'r) node" where
  "swim_add_seed n a nd = nd\<lparr>nd_swim := map_option (add_seed n a) (nd_swim nd)\<rparr>"

text \<open>The loop body of \<open>send_swim\<close>.\<close>

definition send_swim_one ::
  "('v, 'n, 'e, 'w) transport \<Rightarrow> 'v outgoing \<Rightarrow> 'n connection_manager \<times> 'w \<Rightarrow> 'n connection_manager \<times> 'w" where
  "send_swim_one T o' cw =
     (let cw1 = (if is_connected (out_node_id o') (fst cw) then cw
                 else snd (on_node_discovered T (out_node_id o') (out_addr o') cw)) in
      snd (cm_route T (out_node_id o') (out_frame o') cw1))"

definition send_swim ::
  "('v, 'n, 'e, 'w) transport \<Rightarrow> 'v outgoing list \<Rightarrow> 'n connection_manager \<times> 'w \<Rightarrow> 'n connection_manager \<times> 'w" where
  "send_swim T outgoing cw = fold (send_swim_one T) outgoing cw"

text \<open>The loop of \<open>swim_tick\<close> over the nodes newly declared dead.\<close>

definition lose_connections :: "u64 list \<Rightarrow> 'n connection_manager \<Rightarrow> connection_event list \<times> 'n connection_manager" where
  "lose_connections nodes cm =
     fold (\<lambda>n (events, cm). let (es, cm') = on_connection_lost n cm in (events @ es, cm')) nodes ([], cm)"

definition node_swim_tick ::
  "'v swim_world \<Rightarrow> ('v, 'n, 'e, 'w) transport \<Rightarrow> instant \<Rightarrow> ('c, 'h, 'n, 'r) node \<times> 'w
     \<Rightarrow> connection_event list \<times> ('c, 'h, 'n, 'r) node \<times> 'w" where
  "node_swim_tick W T now ndw =
     (case ndw of (nd, w) \<Rightarrow>
       case nd_swim nd of
         None \<Rightarrow> ([], nd, w)
       | Some swim \<Rightarrow>
           let (outcome, swim1) = swim_tick W now swim;
               (cm1, w1) = send_swim T (to_outgoing outcome) (nd_cm nd, w);
               (events, cm2) = lose_connections (to_newly_dead outcome) cm1 in
           (events, nd\<lparr>nd_cm := cm2, nd_swim := Some swim1\<rparr>, w1))"

definition process_outbound ::
  "('v router_command, 'r) mpsc \<Rightarrow> ('v, 'n, 'e, 'w) transport \<Rightarrow> ('c, 'h, 'n, 'r) node \<times> 'w
     \<Rightarrow> outbound_outcome \<times> ('c, 'h, 'n, 'r) node \<times> 'w" where
  "process_outbound R T ndw =
     (case ndw of (nd, w) \<Rightarrow>
       case rt_custom (nd_runtime nd) of
         None \<Rightarrow> (Idle, nd, w)
       | Some remote \<Rightarrow>
           (case channel_try_recv R remote of
              (None, remote1) \<Rightarrow> (Idle, nd\<lparr>nd_runtime := (nd_runtime nd)\<lparr>rt_custom := Some remote1\<rparr>\<rparr>, w)
            | (Some (SendCmd n f), remote1) \<Rightarrow>
                let (r, cm1, w1) = cm_route T n f (nd_cm nd, w);
                    nd1 = nd\<lparr>nd_runtime := (nd_runtime nd)\<lparr>rt_custom := Some remote1\<rparr>, nd_cm := cm1\<rparr> in
                (case r of Inr _ \<Rightarrow> (Delivered n, nd1, w1) | Inl _ \<Rightarrow> (Failed n, nd1, w1))))"

text \<open>\<open>None\<close> is a panic: the clock is before the epoch.\<close>

definition deliver_inbound ::
  "('v message, 'c) mpsc \<Rightarrow> 'v rmpv \<Rightarrow> nat option \<Rightarrow> 'v frame \<Rightarrow> ('c, 'h, 'n, 'r) node
     \<Rightarrow> ((deliver_error + unit) \<times> ('c, 'h, 'n, 'r) node) option" where
  "deliver_inbound M V now f nd =
     map_option (\<lambda>(r, t). (r, nd\<lparr>nd_runtime := (nd_runtime nd)\<lparr>rt_table := t\<rparr>\<rparr>))
       (deliver_inbound_frame M V now f (rt_table (nd_runtime nd)))"

definition handle_inbound_frame ::
  "('v message, 'c) mpsc \<Rightarrow> 'v rmpv \<Rightarrow> 'v swim_world \<Rightarrow> ('v, 'n, 'e, 'w) transport \<Rightarrow> nat option \<Rightarrow> 'v frame \<Rightarrow> ('c, 'h, 'n, 'r) node \<times> 'w
     \<Rightarrow> ((deliver_error + unit) \<times> ('c, 'h, 'n, 'r) node \<times> 'w) option" where
  "handle_inbound_frame M V W T now f ndw =
     (case ndw of (nd, w) \<Rightarrow>
       if msg_type f = MsgSwim
       then
         (case nd_swim nd of
            None \<Rightarrow> Some (Inr (), nd, w)
          | Some swim \<Rightarrow>
              let (responses, swim1) = handle_frame W f swim;
                  (cm1, w1) = send_swim T responses (nd_cm nd, w) in
              Some (Inr (), nd\<lparr>nd_cm := cm1, nd_swim := Some swim1\<rparr>, w1))
       else map_option (\<lambda>(r, nd'). (r, nd', w)) (deliver_inbound M V now f nd))"

section \<open>A protocol period on the connections\<close>

lemma cm_route_connected: "is_connected m (fst (snd (cm_route T n f cw))) = is_connected m (fst cw)"
  by (auto simp: cm_route_def is_connected_def hm_contains_def hm_get_modify Let_def split: prod.splits option.splits sum.splits)

lemma discovered_connected: "is_connected m (fst cw) \<Longrightarrow> is_connected m (fst (snd (on_node_discovered T n a cw)))"
  by (auto simp: on_node_discovered_def cm_connect_def is_connected_def hm_contains_def split: prod.splits sum.splits)

lemma send_swim_connected: "is_connected m (fst cw) \<Longrightarrow> is_connected m (fst (send_swim T outs cw))"
proof (induction outs arbitrary: cw)
  case (Cons o' outs)
  have "is_connected m (fst (send_swim_one T o' cw))"
    using Cons.prems by (simp add: send_swim_one_def Let_def cm_route_connected discovered_connected)
  then show ?case using Cons.IH by (simp add: send_swim_def)
qed (simp add: send_swim_def)

lemma lose_connections_snoc:
  "lose_connections (ns @ [n]) cm = (case lose_connections ns cm of (es, cm1) \<Rightarrow> case on_connection_lost n cm1 of (es', cm2) \<Rightarrow> (es @ es', cm2))"
  by (simp add: lose_connections_def split: prod.splits)

lemma lose_connections_effect:
  "lose_connections ns cm = (es, cm') \<Longrightarrow>
     (\<forall>m. is_connected m cm' \<longleftrightarrow> is_connected m cm \<and> m \<notin> set ns)
   \<and> filter (\<lambda>e. case e of NodeDown _ \<Rightarrow> True | _ \<Rightarrow> False) es = map NodeDown ns"
proof (induction ns arbitrary: es cm' rule: rev_induct)
  case Nil
  then show ?case by (simp add: lose_connections_def)
next
  case (snoc n ns)
  obtain es1 cm1 where l: "lose_connections ns cm = (es1, cm1)" by (cases "lose_connections ns cm")
  obtain es2 cm2 where o: "on_connection_lost n cm1 = (es2, cm2)" by (cases "on_connection_lost n cm1")
  from snoc.prems l o have e: "es = es1 @ es2" "cm' = cm2" by (simp_all add: lose_connections_snoc)
  from o have "\<forall>m. is_connected m cm2 \<longleftrightarrow> is_connected m cm1 \<and> m \<noteq> n" "filter (\<lambda>e. case e of NodeDown _ \<Rightarrow> True | _ \<Rightarrow> False) es2 = [NodeDown n]"
    by (auto simp: on_connection_lost_def is_connected_def hm_contains_def Let_def split: if_splits)
  with snoc.IH [OF l] show ?case by (auto simp: e)
qed

text \<open>
  One protocol period of a node reports every node it newly declares dead, once and in order, as down, and drops its
  connection; no other connection is lost, whatever the transport does.
\<close>

theorem swim_tick_drops_dead:
  assumes "nd_swim nd = Some swim" and "swim_tick W now swim = (outcome, swim1)"
    and "node_swim_tick W T now (nd, w) = (events, nd', w')"
  shows "(\<forall>n \<in> set (to_newly_dead outcome). \<not> is_connected n (nd_cm nd'))
    \<and> (\<forall>m. is_connected m (nd_cm nd) \<and> m \<notin> set (to_newly_dead outcome) \<longrightarrow> is_connected m (nd_cm nd'))
    \<and> filter (\<lambda>e. case e of NodeDown _ \<Rightarrow> True | _ \<Rightarrow> False) events = map NodeDown (to_newly_dead outcome)
    \<and> nd_swim nd' = Some swim1 \<and> nd_runtime nd' = nd_runtime nd"
proof -
  obtain cm1 w1 where s: "send_swim T (to_outgoing outcome) (nd_cm nd, w) = (cm1, w1)" by (cases "send_swim T (to_outgoing outcome) (nd_cm nd, w)")
  obtain es cm2 where l: "lose_connections (to_newly_dead outcome) cm1 = (es, cm2)" by (cases "lose_connections (to_newly_dead outcome) cm1")
  have nd': "nd' = nd\<lparr>nd_cm := cm2, nd_swim := Some swim1\<rparr>" "events = es"
    using assms s l by (simp_all add: node_swim_tick_def)
  have "is_connected m cm1" if "is_connected m (nd_cm nd)" for m
    using send_swim_connected [of m "(nd_cm nd, w)" T "to_outgoing outcome"] that s by simp
  with lose_connections_effect [OF l] show ?thesis by (simp add: nd')
qed

section \<open>Two nodes and a TCP connection\<close>

text \<open>The TCP transport for the connection manager: \<open>dial\<close> opens a connection; the error \<open>None\<close> is a panic of the encoder.\<close>

definition tcp_transport ::
  "(socket_addr \<Rightarrow> 'w \<Rightarrow> (transport_error option + tcp_connection) \<times> 'w) \<Rightarrow> ('v \<Rightarrow> u8 list option)
     \<Rightarrow> ('v, tcp_connection, transport_error option, 'w) transport" where
  "tcp_transport dial wv =
     \<lparr>connect_to = dial,
      conn_send = (\<lambda>f c w. case tcp_send wv f c of None \<Rightarrow> (Inl None, c, w) | Some (r, c') \<Rightarrow> (map_sum Some (\<lambda>u. u) r, c', w)),
      conn_close = (\<lambda>c w. w)\<rparr>"

fun node_pump ::
  "('v router_command, 'r) mpsc \<Rightarrow> ('v, 'n, 'e, 'w) transport \<Rightarrow> nat \<Rightarrow> ('c, 'h, 'n, 'r) node \<times> 'w
     \<Rightarrow> outbound_outcome list \<times> ('c, 'h, 'n, 'r) node \<times> 'w" where
  "node_pump R T 0 ndw = ([], ndw)"
| "node_pump R T (Suc n) ndw = (let (r, ndw1) = process_outbound R T ndw; (rs, ndw2) = node_pump R T n ndw1 in (r # rs, ndw2))"

text \<open>A connection served by its node: each received frame goes to \<open>handle_inbound_frame\<close>; \<open>None\<close> is a panic.\<close>

fun node_serve ::
  "nat \<Rightarrow> (u8 list \<Rightarrow> string + 'v) \<Rightarrow> ('v frame \<Rightarrow> ('c, 'h, 'n, 'r) node \<times> 'w \<Rightarrow> ((deliver_error + unit) \<times> ('c, 'h, 'n, 'r) node \<times> 'w) option)
     \<Rightarrow> nat \<Rightarrow> tcp_connection \<times> ('c, 'h, 'n, 'r) node \<times> 'w \<Rightarrow> (tcp_connection \<times> ('c, 'h, 'n, 'r) node \<times> 'w) option" where
  "node_serve umax rv handle 0 s = Some s"
| "node_serve umax rv handle (Suc n) (c, ndw) =
     (case tcp_recv umax rv c of
        (Inl _, c1) \<Rightarrow> node_serve umax rv handle n (c1, ndw)
      | (Inr f, c1) \<Rightarrow>
          (case handle f ndw of None \<Rightarrow> None | Some (_, ndw1) \<Rightarrow> node_serve umax rv handle n (c1, ndw1)))"

lemma process_outbound_send:
  assumes "mpsc_ok R" and "rt_custom (nd_runtime nd) = Some d" and "queued R d = SendCmd n f # cmds"
    and "hm_get (connections (nd_cm nd)) n = Some c" and "tc_broken c = None" and "frame_encode wv f = Some bs" and "length bs < 2 ^ 32"
  shows "process_outbound R (tcp_transport dial wv) (nd, w) = (Delivered n,
    nd\<lparr>nd_runtime := (nd_runtime nd)\<lparr>rt_custom := Some (snd (channel_try_recv R d))\<rparr>,
       nd_cm := (nd_cm nd)\<lparr>connections := hm_modify n (\<lambda>_. c\<lparr>tc_written := tc_written c @ delimit bs\<rparr>) (connections (nd_cm nd))\<rparr>\<rparr>, w)"
proof -
  have "fst (channel_try_recv R d) = Some (SendCmd n f)" using assms(1,3) by (simp add: mpsc_ok_def)
  then obtain d1 where "channel_try_recv R d = (Some (SendCmd n f), d1)" by (metis prod.collapse)
  then show ?thesis using assms(2,4) tcp_send_written [OF assms(6,7,5)]
    by (simp add: process_outbound_def cm_route_def tcp_transport_def)
qed

lemma node_pump_sends:
  assumes "mpsc_ok R" and "list_all2 (\<lambda>f bs. frame_encode wv f = Some bs \<and> length bs < 2 ^ 32) fs blocks"
    and "rt_custom (nd_runtime nd) = Some d" and "queued R d = map (SendCmd n) fs"
    and "hm_get (connections (nd_cm nd)) n = Some c" and "tc_broken c = None"
  shows "\<exists>nd'. node_pump R (tcp_transport dial wv) (length fs) (nd, w) = (map (\<lambda>_. Delivered n) fs, nd', w)
    \<and> hm_get (connections (nd_cm nd')) n = Some (c\<lparr>tc_written := tc_written c @ concat (map delimit blocks)\<rparr>)"
  using assms(2-)
proof (induction arbitrary: nd d c rule: list_all2_induct)
  case Nil
  then show ?case by simp
next
  case (Cons f fs bs blocks)
  let ?c = "c\<lparr>tc_written := tc_written c @ delimit bs\<rparr>" and ?d = "snd (channel_try_recv R d)"
  let ?nd = "nd\<lparr>nd_runtime := (nd_runtime nd)\<lparr>rt_custom := Some ?d\<rparr>,
       nd_cm := (nd_cm nd)\<lparr>connections := hm_modify n (\<lambda>_. ?c) (connections (nd_cm nd))\<rparr>\<rparr>"
  have q: "queued R d = SendCmd n f # map (SendCmd n) fs" using Cons.prems(2) by simp
  have "queued R ?d = map (SendCmd n) fs" using assms(1) q by (simp add: mpsc_ok_def)
  from this have "\<exists>nd'. node_pump R (tcp_transport dial wv) (length fs) (?nd, w) = (map (\<lambda>_. Delivered n) fs, nd', w)
    \<and> hm_get (connections (nd_cm nd')) n = Some (?c\<lparr>tc_written := tc_written ?c @ concat (map delimit blocks)\<rparr>)"
    by (intro Cons.IH [of ?nd ?d ?c]) (use Cons.prems in \<open>simp_all add: hm_get_modify\<close>)
  then obtain nd' where "node_pump R (tcp_transport dial wv) (length fs) (?nd, w) = (map (\<lambda>_. Delivered n) fs, nd', w)"
    "hm_get (connections (nd_cm nd')) n = Some (?c\<lparr>tc_written := tc_written ?c @ concat (map delimit blocks)\<rparr>)" by blast
  then show ?case using process_outbound_send [OF assms(1) Cons.prems(1) q Cons.prems(3,4), of wv bs dial w] Cons.hyps(1) by simp
qed

text \<open>The messages that were accepted for sending.\<close>

definition accepted :: "'m list \<Rightarrow> (send_error + unit) list \<Rightarrow> 'm list" where
  "accepted ms rs = map fst (filter (\<lambda>(m, r). r = Inr ()) (zip ms rs))"

abbreviation send_frame :: "'v rmpv \<Rightarrow> process_id \<times> process_id \<times> 'v \<Rightarrow> 'v frame" where
  "send_frame V m \<equiv> (case m of (from, to, p) \<Rightarrow> encode_send_frame V from to p)"

lemma node_sends_queue:
  assumes "mpsc_ok R" and "route_all (runtime_route M (node_route M R V now a)) ms rt = Some (rs, rt')"
    and "rt_custom rt = Some d" and "\<forall>(from, to, p) \<in> set ms. pid_node_id to = b" and "a \<noteq> b"
  shows "\<exists>d'. rt' = rt\<lparr>rt_custom := Some d'\<rparr> \<and> queued R d' = queued R d @ map (\<lambda>m. SendCmd b (send_frame V m)) (accepted ms rs) \<and> length rs = length ms"
  using assms(2-4)
proof (induction ms arbitrary: rt d rs)
  case Nil
  then show ?case by (auto simp: accepted_def intro!: exI [of _ d])
next
  case (Cons m ms)
  obtain src to p where m: "m = (src, to, p)" by (cases m)
  have b: "pid_node_id to = b" using Cons.prems(3) m by simp
  obtain x d1 where x: "try_send R (SendCmd b (encode_send_frame V src to p)) d = (x, d1)" by (cases "try_send R (SendCmd b (encode_send_frame V src to p)) d")
  define r where "r = (case x of Inr _ \<Rightarrow> Inr () | Inl _ \<Rightarrow> Inl (NodeUnreachable b))"
  have "runtime_route M (node_route M R V now a) src to p rt = Some (r, rt\<lparr>rt_custom := Some d1\<rparr>)"
    using Cons.prems(2) b assms(5) x by (simp add: runtime_route_def node_route_def distributed_route_def r_def split: sum.splits)
  then obtain rs1 where rs: "rs = r # rs1" and rest: "route_all (runtime_route M (node_route M R V now a)) ms (rt\<lparr>rt_custom := Some d1\<rparr>) = Some (rs1, rt')"
    using Cons.prems(1) m by (auto split: option.splits)
  from Cons.IH [OF rest] Cons.prems(3) obtain d' where d': "rt' = rt\<lparr>rt_custom := Some d'\<rparr>"
    "queued R d' = queued R d1 @ map (\<lambda>m. SendCmd b (send_frame V m)) (accepted ms rs1)" "length rs1 = length ms" by auto
  have "queued R d1 = queued R d @ (if r = Inr () then [SendCmd b (send_frame V m)] else [])"
    using mpsc_okD(5) [OF assms(1), of "SendCmd b (encode_send_frame V src to p)" d] x by (auto simp: r_def m split: sum.splits)
  then show ?case using d' rs by (auto simp: accepted_def)
qed

lemma deliver_send_frame:
  assumes "mpsc_ok M" and "rmpv_ok V" and "now = Some ms" and "ms < 2 ^ 64"
  shows "\<exists>r nd'. handle_inbound_frame M V W T now (send_frame V (src, to, p)) (nd, w) = Some (r, nd', w)
    \<and> (\<forall>q. accepts M (rt_table (nd_runtime nd)) q \<longrightarrow> accepts M (rt_table (nd_runtime nd')) q
        \<and> delivered M (rt_table (nd_runtime nd')) q = delivered M (rt_table (nd_runtime nd)) q @ (if to = q then [(src, p)] else []))"
proof -
  obtain msg where msg: "message_new now src p = Some msg" "msg_from msg = src" "msg_payload msg = p"
    using assms(3,4) by (simp add: message_new_def)
  let ?t = "rt_table (nd_runtime nd)"
  obtain r t1 where t1: "table_send M to msg ?t = (r, t1)" by (cases "table_send M to msg ?t")
  have "msg_type (send_frame V (src, to, p)) \<noteq> MsgSwim" "payload (send_frame V (src, to, p)) = p" by (simp_all add: encode_send_frame_def)
  moreover have "frame_addressing V (send_frame V (src, to, p)) = Inr (src, to)" using assms(2) by simp
  ultimately have "handle_inbound_frame M V W T now (send_frame V (src, to, p)) (nd, w)
      = Some (case r of Inl e \<Rightarrow> Inl (DeliverSend e) | Inr _ \<Rightarrow> Inr (), nd\<lparr>nd_runtime := (nd_runtime nd)\<lparr>rt_table := t1\<rparr>\<rparr>, w)"
    using msg(1) t1 by (simp add: handle_inbound_frame_def deliver_inbound_def deliver_inbound_frame_def split: sum.splits)
  moreover have "accepts M t1 q \<and> delivered M t1 q = delivered M ?t q @ (if to = q then [(src, p)] else [])" if "accepts M ?t q" for q
    using accepts_send [OF assms(1), of to msg ?t q] inbox_send [OF assms(1) that, of to msg] that msg t1 by (auto simp: delivered_def)
  ultimately show ?thesis by auto
qed

lemma node_serve_delivers:
  assumes "mpsc_ok M" and "rmpv_ok V" and "now = Some t" and "t < 2 ^ 64"
    and "\<forall>m \<in> set ms. frame_decode umax rv (block m) = Inr (send_frame V m) \<and> length (block m) \<le> MAX_FRAME_SIZE"
    and "tc_incoming c = concat (map (\<lambda>m. delimit (block m)) ms) @ rest"
  shows "\<exists>nd'. node_serve umax rv (handle_inbound_frame M V W T now) (length ms) (c, nd, w) = Some (c\<lparr>tc_incoming := rest\<rparr>, nd', w)
    \<and> (\<forall>q. accepts M (rt_table (nd_runtime nd)) q \<longrightarrow>
        delivered M (rt_table (nd_runtime nd')) q = delivered M (rt_table (nd_runtime nd)) q @ map (\<lambda>(from, to, p). (from, p)) (filter (\<lambda>(from, to, p). to = q) ms))"
  using assms(5,6)
proof (induction ms arbitrary: c nd)
  case Nil
  then show ?case by (cases c) auto
next
  case (Cons m ms)
  obtain src to p where m: "m = (src, to, p)" by (cases m)
  let ?c = "c\<lparr>tc_incoming := concat (map (\<lambda>m. delimit (block m)) ms) @ rest\<rparr>"
  have r: "tcp_recv umax rv c = (Inr (send_frame V m), ?c)"
    using tcp_recv_block [of c "block m" "concat (map (\<lambda>m. delimit (block m)) ms) @ rest" umax rv] Cons.prems by simp
  from deliver_send_frame [OF assms(1-4), of W T src to p nd w] obtain x nd1 where h:
    "handle_inbound_frame M V W T now (send_frame V m) (nd, w) = Some (x, nd1, w)"
    "\<forall>q. accepts M (rt_table (nd_runtime nd)) q \<longrightarrow> accepts M (rt_table (nd_runtime nd1)) q
        \<and> delivered M (rt_table (nd_runtime nd1)) q = delivered M (rt_table (nd_runtime nd)) q @ (if to = q then [(src, p)] else [])"
    unfolding m by blast
  from Cons.IH [of ?c nd1] Cons.prems(1) obtain nd' where
    "node_serve umax rv (handle_inbound_frame M V W T now) (length ms) (?c, nd1, w) = Some (c\<lparr>tc_incoming := rest\<rparr>, nd', w)"
    "\<forall>q. accepts M (rt_table (nd_runtime nd1)) q \<longrightarrow> delivered M (rt_table (nd_runtime nd')) q
        = delivered M (rt_table (nd_runtime nd1)) q @ map (\<lambda>(from, to, p). (from, p)) (filter (\<lambda>(from, to, p). to = q) ms)" by auto
  with r h show ?case by (intro exI [of _ nd']) (auto simp: m)
qed

lemma accepted_filter: "length rs = length ms \<Longrightarrow>
  map (\<lambda>(from, to, p). (from, p)) (filter (\<lambda>(from, to, p). to = q) (accepted ms rs)) = accepted_for q ms rs"
proof (induction rs ms rule: list_induct2)
  case (Cons r rs m ms)
  then show ?case by (cases m) (auto simp: accepted_def accepted_for_def)
qed (simp add: accepted_def accepted_for_def)

lemma accepted_subset: "set (accepted ms rs) \<subseteq> set ms"
  by (auto simp: accepted_def dest: set_zip_leftD)

text \<open>
  C5: messages reach processes of another node, end to end. Processes of node \<open>a\<close> send messages to processes of node \<open>b\<close>; the node pumps its
  outbound queue into the TCP connection it holds to \<open>b\<close>; node \<open>b\<close> reads the bytes from its end of the connection and hands the
  frames to its inbound dispatch. Then every message that was accepted for sending is reported as delivered, and each
  process of \<open>b\<close> with an open unbounded mailbox has received exactly the accepted messages for it, in the order they were sent and with their senders and
  payloads, whatever happens to the messages for other processes.
\<close>

theorem remote_delivery_end_to_end:
  assumes chans: "mpsc_ok M" "mpsc_ok R" and vals: "rmpv_ok V" and law: "\<And>v bs. wv v = Some bs \<Longrightarrow> rv bs = Inr v"
    and clock: "now = Some t" "t < 2 ^ 64" and umax: "2 ^ 32 - 1 \<le> umax"
    and sent: "route_all (runtime_route M (node_route M R V now a)) ms (nd_runtime nda) = Some (rs, rt)"
    and remote: "\<forall>(from, to, p) \<in> set ms. pid_node_id to = b" "a \<noteq> b" "rt_custom (nd_runtime nda) = Some d" "queued R d = []"
    and fits: "\<forall>m \<in> set ms. \<exists>bs. frame_encode wv (send_frame V m) = Some bs \<and> length bs \<le> MAX_FRAME_SIZE"
    and conn: "hm_get (connections (nd_cm nda)) b = Some c" "tc_broken c = None" "tc_written c = []"
  shows "\<exists>nda' c'. node_pump R (tcp_transport dial wv) (length (accepted ms rs)) (nda\<lparr>nd_runtime := rt\<rparr>, w) = (map (\<lambda>_. Delivered b) (accepted ms rs), nda', w)
    \<and> hm_get (connections (nd_cm nda')) b = Some c'
    \<and> (\<exists>e ndb'. node_serve umax rv (handle_inbound_frame M V W T now) (length (accepted ms rs)) (e0\<lparr>tc_incoming := tc_written c' @ rest\<rparr>, ndb, w')
          = Some (e, ndb', w') \<and> tc_incoming e = rest
        \<and> (\<forall>q. accepts M (rt_table (nd_runtime ndb)) q \<longrightarrow>
            delivered M (rt_table (nd_runtime ndb')) q = delivered M (rt_table (nd_runtime ndb)) q @ accepted_for q ms rs))"
proof -
  let ?as = "accepted ms rs" and ?block = "\<lambda>m. the (frame_encode wv (send_frame V m))"
  from node_sends_queue [OF chans(2) sent remote(3,1,2)] remote(4) obtain d' where rt: "rt = (nd_runtime nda)\<lparr>rt_custom := Some d'\<rparr>"
    and q: "queued R d' = map (SendCmd b) (map (send_frame V) ?as)" and len: "length rs = length ms" by auto
  have e: "frame_encode wv (send_frame V m) = Some (?block m)" "length (?block m) \<le> MAX_FRAME_SIZE" if "m \<in> set ?as" for m
    using fits accepted_subset that by fastforce+
  have "list_all2 (\<lambda>f bs. frame_encode wv f = Some bs \<and> length bs < 2 ^ 32) (map (send_frame V) ?as) (map ?block ?as)"
    unfolding list_all2_map1 list_all2_map2 by (rule list_all2_same [THEN iffD2]) (use e in \<open>fastforce simp: MAX_FRAME_SIZE_def\<close>)
  from node_pump_sends [OF chans(2) this, of "nda\<lparr>nd_runtime := rt\<rparr>" d' b c dial w] q rt conn
  obtain nda' where p: "node_pump R (tcp_transport dial wv) (length ?as) (nda\<lparr>nd_runtime := rt\<rparr>, w) = (map (\<lambda>_. Delivered b) ?as, nda', w)"
    "hm_get (connections (nd_cm nda')) b = Some (c\<lparr>tc_written := concat (map delimit (map ?block ?as))\<rparr>)" by (auto simp: comp_def)
  have "frame_decode umax rv (?block m) = Inr (send_frame V m) \<and> length (?block m) \<le> MAX_FRAME_SIZE" if "m \<in> set ?as" for m
    using encoded_decodes(1) [where wv = wv and rv = rv and rest = "[]", OF law e(1) [OF that] e(2) [OF that]]
      encoded_decodes(2) [where wv = wv and rv = rv, OF law e(1) [OF that] e(2) [OF that]] e(2) [OF that]
    by (simp add: frame_decode_long [OF umax])
  from node_serve_delivers [OF chans(1) vals clock, of ?as umax rv ?block "e0\<lparr>tc_incoming := concat (map delimit (map ?block ?as)) @ rest\<rparr>" rest W T ndb w'] this
  obtain ndb' where s: "node_serve umax rv (handle_inbound_frame M V W T now) (length ?as)
      (e0\<lparr>tc_incoming := concat (map delimit (map ?block ?as)) @ rest\<rparr>, ndb, w') = Some (e0\<lparr>tc_incoming := rest\<rparr>, ndb', w')"
    "\<forall>q. accepts M (rt_table (nd_runtime ndb)) q \<longrightarrow> delivered M (rt_table (nd_runtime ndb')) q
        = delivered M (rt_table (nd_runtime ndb)) q @ map (\<lambda>(from, to, p). (from, p)) (filter (\<lambda>(from, to, p). to = q) ?as)"
    by (auto simp: comp_def)
  let ?c = "c\<lparr>tc_written := concat (map delimit (map ?block ?as))\<rparr>"
  have d: "\<forall>q. accepts M (rt_table (nd_runtime ndb)) q \<longrightarrow>
      delivered M (rt_table (nd_runtime ndb')) q = delivered M (rt_table (nd_runtime ndb)) q @ accepted_for q ms rs"
    using s(2) by (simp add: accepted_filter [OF len])
  have n: "node_serve umax rv (handle_inbound_frame M V W T now) (length ?as) (e0\<lparr>tc_incoming := tc_written ?c @ rest\<rparr>, ndb, w')
      = Some (e0\<lparr>tc_incoming := rest\<rparr>, ndb', w')" using s(1) by simp
  have r: "tc_incoming (e0\<lparr>tc_incoming := rest\<rparr>) = rest" by simp
  show ?thesis using p n r d by blast
qed

section \<open>A concrete delivery\<close>

definition sample_letter :: "process_id \<times> process_id \<times> wire_value" where
  "sample_letter = (process_id_new 1 1, process_id_new 2 1, WInteger 7)"

text \<open>A codec for the two values of the sample frame.\<close>

definition sample_write :: "wire_value \<Rightarrow> u8 list option" where
  "sample_write v = (if v = header (send_frame wire sample_letter) then Some [1] else if v = WInteger 7 then Some [2] else None)"

definition sample_read :: "u8 list \<Rightarrow> string + wire_value" where
  "sample_read bs = (if bs = [1] then Inr (header (send_frame wire sample_letter)) else if bs = [2] then Inr (WInteger 7) else Inl ''bad'')"

definition sample_sender :: "(wire_value message chan, nat, tcp_connection, wire_value router_command chan) node" where
  "sample_sender = node_new list_mpsc 1 (connection_manager_new\<lparr>connections := [(2, idle_tcp)]\<rparr>)"

definition sample_receiver :: "(wire_value message chan, nat, tcp_connection, wire_value router_command chan) node" where
  "sample_receiver = (node_new list_mpsc 2 connection_manager_new)\<lparr>nd_runtime := snd (spawn list_mpsc (nd_runtime (node_new list_mpsc 2 (connection_manager_new :: tcp_connection connection_manager))))\<rparr>"

definition sample_transport :: "(wire_value, tcp_connection, transport_error option, unit) transport" where
  "sample_transport = tcp_transport (\<lambda>a w. (Inl None, w)) sample_write"

lemma sample_receiver_table:
  "accepts list_mpsc (rt_table (nd_runtime sample_receiver)) (process_id_new 2 1)"
  "delivered list_mpsc (rt_table (nd_runtime sample_receiver)) (process_id_new 2 1) = []"
  by (simp_all add: sample_receiver_def node_new_def spawn_def runtime_with_router_def allocate_pid_def table_new_def table_insert_def
      accepts_def delivered_def inbox_def mailbox_unbounded_def list_mpsc_def mb_queue_def Let_def)

theorem remote_delivery_end_to_end_witness:
  "\<exists>rs rt nda' c' e ndb'. route_all (runtime_route list_mpsc (node_route list_mpsc list_mpsc wire (Some 5) 1)) [sample_letter] (nd_runtime sample_sender) = Some (rs, rt)
    \<and> node_pump list_mpsc sample_transport (length (accepted [sample_letter] rs)) (sample_sender\<lparr>nd_runtime := rt\<rparr>, ()) = ([Delivered 2], nda', ())
    \<and> hm_get (connections (nd_cm nda')) 2 = Some c'
    \<and> node_serve (2 ^ 64 - 1) sample_read (handle_inbound_frame list_mpsc wire sample_world sample_transport (Some 5)) 1 (idle_tcp\<lparr>tc_incoming := tc_written c' @ []\<rparr>, sample_receiver, ())
        = Some (e, ndb', ())
    \<and> delivered list_mpsc (rt_table (nd_runtime ndb')) (process_id_new 2 1) = [(process_id_new 1 1, WInteger 7)]"
proof -
  let ?route = "runtime_route list_mpsc (node_route list_mpsc list_mpsc wire (Some 5) 1)"
  obtain rt where sent: "route_all ?route [sample_letter] (nd_runtime sample_sender) = Some ([Inr ()], rt)"
    by (simp add: sample_letter_def sample_sender_def node_new_def runtime_with_router_def runtime_route_def node_route_def
        distributed_route_def list_mpsc_def Let_def)
  have law: "sample_read bs = Inr v" if "sample_write v = Some bs" for v bs
    using that by (auto simp: sample_write_def sample_read_def split: if_splits)
  have fits: "\<forall>m \<in> set [sample_letter]. \<exists>bs. frame_encode sample_write (send_frame wire m) = Some bs \<and> length bs \<le> MAX_FRAME_SIZE"
    by (simp add: frame_encode_def sample_write_def sample_letter_def encode_send_frame_def MAX_FRAME_SIZE_def)
  have acc: "accepted [sample_letter] [Inr ()] = [sample_letter]" "accepted_for (process_id_new 2 1) [sample_letter] [Inr ()] = [(process_id_new 1 1, WInteger 7)]"
    by (simp_all add: accepted_def accepted_for_def sample_letter_def)
  have "\<exists>nda' c'. node_pump list_mpsc sample_transport (length (accepted [sample_letter] [Inr ()])) (sample_sender\<lparr>nd_runtime := rt\<rparr>, ())
        = (map (\<lambda>_. Delivered 2) (accepted [sample_letter] [Inr ()]), nda', ())
    \<and> hm_get (connections (nd_cm nda')) 2 = Some c'
    \<and> (\<exists>e ndb'. node_serve (2 ^ 64 - 1) sample_read (handle_inbound_frame list_mpsc wire sample_world sample_transport (Some 5)) (length (accepted [sample_letter] [Inr ()]))
          (idle_tcp\<lparr>tc_incoming := tc_written c' @ []\<rparr>, sample_receiver, ()) = Some (e, ndb', ()) \<and> tc_incoming e = []
        \<and> (\<forall>q. accepts list_mpsc (rt_table (nd_runtime sample_receiver)) q \<longrightarrow> delivered list_mpsc (rt_table (nd_runtime ndb')) q
            = delivered list_mpsc (rt_table (nd_runtime sample_receiver)) q @ accepted_for q [sample_letter] [Inr ()]))"
    unfolding sample_transport_def
    by (rule remote_delivery_end_to_end [OF list_mpsc_ok list_mpsc_ok wire_ok law _ _ _ sent _ _ _ _ fits, where d = "bounded_channel list_mpsc 1024" and t = 5 and c = idle_tcp])
       (simp_all add: sample_letter_def sample_sender_def node_new_def runtime_with_router_def hm_get_def idle_tcp_def list_mpsc_def)
  then show ?thesis using sent sample_receiver_table by (auto simp: acc)
qed

text \<open>A node that suspects its only peer, long after the suspicion timeout.\<close>

definition sample_suspecting :: swim_service where
  "sample_suspecting =
     (let s = add_seed 2 addr1 (swim_new 1 addr1 swim_config_default None) in
      s\<lparr>sv_detector := (sv_detector s)\<lparr>suspect_timers := [(2, 0)]\<rparr>,
        sv_members := (sv_members s)\<lparr>ml_members := hm_modify 2 (member_suspect 0) (ml_members (sv_members s))\<rparr>\<rparr>)"

definition sample_watching :: "(wire_value message chan, nat, tcp_connection, wire_value router_command chan) node" where
  "sample_watching = sample_sender\<lparr>nd_swim := Some sample_suspecting\<rparr>"

lemma newly_dead_no_probe:
  assumes "probe_target (sv_probe s) = None"
  shows "to_newly_dead (fst (swim_tick w now s)) = fst (check_suspect_timeouts (sw_timer_order w) (sv_config s) now (sv_detector s, sv_members s))"
proof -
  have "resolve_probe w now s = ([], s\<lparr>sv_probe := (sv_probe s)\<lparr>probe_target := None\<rparr>\<rparr>)"
    using assms by (simp add: resolve_probe_def take_probe_def split: bool.splits)
  then show ?thesis by (simp add: swim_tick_def expire_timers_def Let_def split: prod.splits)
qed

lemma sample_suspecting_tick: "to_newly_dead (fst (swim_tick sample_world 1000000000000 sample_suspecting)) = [2]"
proof -
  have "probe_target (sv_probe sample_suspecting) = None" by (simp add: sample_suspecting_def Let_def add_seed_def swim_new_def)
  moreover have "suspect_timers (sv_detector sample_suspecting) = [(2, 0)]" "suspect_timeout (sv_config sample_suspecting) = 5000000000"
    by (simp_all add: sample_suspecting_def Let_def add_seed_def swim_new_def swim_config_default_def from_secs_def)
  ultimately show ?thesis
    by (simp add: newly_dead_no_probe check_suspect_timeouts_def expired_timers_def sample_world_def duration_since_def expire_suspect_def Let_def)
qed

theorem swim_tick_drops_dead_witness:
  "is_connected 2 (nd_cm sample_watching)
    \<and> \<not> is_connected 2 (nd_cm (fst (snd (node_swim_tick sample_world sample_transport 1000000000000 (sample_watching, ())))))"
proof -
  obtain o' s1 where o: "swim_tick sample_world 1000000000000 sample_suspecting = (o', s1)" by (cases "swim_tick sample_world 1000000000000 sample_suspecting")
  obtain es nd' w' where t: "node_swim_tick sample_world sample_transport 1000000000000 (sample_watching, ()) = (es, nd', w')"
    by (cases "node_swim_tick sample_world sample_transport 1000000000000 (sample_watching, ())")
  have "nd_swim sample_watching = Some sample_suspecting" by (simp add: sample_watching_def)
  from swim_tick_drops_dead [OF this o t] sample_suspecting_tick o have "\<not> is_connected 2 (nd_cm nd')" by simp
  then show ?thesis using t by (simp add: sample_watching_def sample_sender_def node_new_def is_connected_def hm_contains_def hm_get_def)
qed

end
