(* ===== verification/Partition.thy ===== *)
theory Partition
  imports Supervisor Std
begin

text \<open>
  The partition supervisor (\<^verbatim>\<open>crates/rebar-core/src/partition_supervisor\<close>): a supervisor whose children are registered under the
  names of their partitions, and a handle that routes keys to partitions through the name registry. The theory shows where keys
  are routed, also across restarts, and what a second partition supervisor on the same runtime does.
\<close>

section \<open>Specifications\<close>

record partition_spec =
  psp_partitions :: usize
  psp_strategy :: restart_strategy
  psp_max_restarts :: u32
  psp_max_seconds :: u32

text \<open>\<open>cores\<close>: what \<open>available_parallelism\<close> returns.\<close>

definition partition_spec_new :: "usize option \<Rightarrow> partition_spec" where
  "partition_spec_new cores =
     \<lparr>psp_partitions = (case cores of Some n \<Rightarrow> n | None \<Rightarrow> 1), psp_strategy = OneForOne, psp_max_restarts = 3, psp_max_seconds = 5\<rparr>"

definition with_partitions :: "usize \<Rightarrow> partition_spec \<Rightarrow> partition_spec" where
  "with_partitions n s = s\<lparr>psp_partitions := n\<rparr>"

definition with_strategy :: "restart_strategy \<Rightarrow> partition_spec \<Rightarrow> partition_spec" where
  "with_strategy st s = s\<lparr>psp_strategy := st\<rparr>"

definition partition_max_restarts :: "u32 \<Rightarrow> partition_spec \<Rightarrow> partition_spec" where
  "partition_max_restarts n s = s\<lparr>psp_max_restarts := n\<rparr>"

definition partition_max_seconds :: "u32 \<Rightarrow> partition_spec \<Rightarrow> partition_spec" where
  "partition_max_seconds n s = s\<lparr>psp_max_seconds := n\<rparr>"

section \<open>The handle\<close>

record partition_handle =
  ph_pid :: process_id
  ph_partitions :: usize

definition partition_name :: "usize \<Rightarrow> string" where
  "partition_name i = ''partition_'' @ decimal i"

definition index_for_key :: "u64 \<Rightarrow> partition_handle \<Rightarrow> usize" where
  "index_for_key key h = unat (key mod word_of_nat (ph_partitions h))"

definition partition_index :: "u64 \<Rightarrow> partition_handle \<Rightarrow> usize" where
  "partition_index key h = index_for_key key h"

definition which_partition :: "u64 \<Rightarrow> partition_handle \<Rightarrow> ('c, 'h, 'd) runtime \<Rightarrow> process_id option" where
  "which_partition key h rt = (let index = index_for_key key h in runtime_whereis (partition_name index) rt)"

text \<open>\<open>hash\<close>: \<open>DefaultHasher\<close> applied to the key.\<close>

definition which_partition_by_hash :: "('k \<Rightarrow> u64) \<Rightarrow> 'k \<Rightarrow> partition_handle \<Rightarrow> ('c, 'h, 'd) runtime \<Rightarrow> process_id option" where
  "which_partition_by_hash hash key h rt = (let index = index_for_key (hash key) h in runtime_whereis (partition_name index) rt)"

definition partition_pid :: "usize \<Rightarrow> partition_handle \<Rightarrow> ('c, 'h, 'd) runtime \<Rightarrow> process_id option" where
  "partition_pid index h rt = (if index \<ge> ph_partitions h then None else runtime_whereis (partition_name index) rt)"

definition send_to_partition ::
  "('v message, 'c) mpsc \<Rightarrow> ('v, 'c, 'h, 'd) custom_route \<Rightarrow> u64 \<Rightarrow> 'v \<Rightarrow> partition_handle \<Rightarrow> ('c, 'h, 'd) runtime
     \<Rightarrow> ((send_error + unit) \<times> ('c, 'h, 'd) runtime) option" where
  "send_to_partition M custom key p h rt = (let index = index_for_key key h in runtime_send_named M custom (partition_name index) p rt)"

section \<open>Starting\<close>

definition partition_entry :: "usize \<Rightarrow> child_spec" where
  "partition_entry i = registered (child_spec_new (partition_name i))"

text \<open>
  A panic is \<open>None\<close>. The supervisor process gets its pid first; the partitions are then added to it one after the other. The result
  holds the handle, the state of the supervisor and the world after all partitions have started.
\<close>

definition start_partition_supervisor ::
  "('v message, 'c) mpsc \<Rightarrow> (process_id \<Rightarrow> bool) \<Rightarrow> partition_spec \<Rightarrow> ('c, 'h, 'd) sup_world
     \<Rightarrow> (partition_handle \<times> ('c, 'h, 'd) sup_system) option" where
  "start_partition_supervisor M boots spec w =
     (if psp_partitions spec = 0 then None
      else
        let partition_count = psp_partitions spec;
            sup_spec = with_max_seconds (psp_max_seconds spec) (with_max_restarts (psp_max_restarts spec) (supervisor_spec_new (psp_strategy spec)));
            (pid, rt1) = spawn M (w_rt w);
            sw = supervisor_start M boots sup_spec [] (w\<lparr>w_rt := rt1\<rparr>);
            entries = map partition_entry [0..<partition_count];
            (pids, sw') = add_children M boots entries sw in
        Some (\<lparr>ph_pid = pid, ph_partitions = partition_count\<rparr>, sw'))"

section \<open>Names\<close>

lemma partition_name_inject [simp]: "partition_name i = partition_name j \<longleftrightarrow> i = j"
  by (simp add: partition_name_def)

lemma add_children_names:
  assumes "add_children M boots (map partition_entry is) (st, w) = (pids, st', w')" and "distinct is"
  shows "\<exists>cs. sup_children st' = sup_children st @ cs \<and> map c_spec cs = map partition_entry is
    \<and> (\<forall>k < length is. c_pid (cs ! k) = Some (nth_pid w k) \<and> resolves (partition_name (is ! k)) w' = Some (nth_pid w k))
    \<and> (\<forall>n. n \<notin> partition_name ` set is \<longrightarrow> resolves n w' = resolves n w)"
  using assms
proof (induction "is" arbitrary: st w pids)
  case (Cons i js)
  let ?c0 = "child_state_new (partition_entry i)"
  obtain c w1 where s: "start_child M boots (length (sup_children st)) (?c0, w) = (c, w1)"
    by (cases "start_child M boots (length (sup_children st)) (?c0, w)")
  have reg: "cspec_register (c_spec ?c0)" and spec: "c_spec ?c0 = partition_entry i" "cspec_id (c_spec ?c0) = partition_name i"
    by (simp_all add: child_state_new_def partition_entry_def registered_def child_spec_new_def)
  note n = start_child_names [OF s reg]
  let ?st = "st\<lparr>sup_children := sup_children st @ [c]\<rparr>"
  from Cons.prems(1) s obtain pids1 where r: "add_children M boots (map partition_entry js) (?st, w1) = (pids1, st', w')"
    by (auto simp: add_child_def Let_def split: prod.splits)
  from Cons.IH [OF r] Cons.prems(2) obtain cs where cs: "sup_children st' = sup_children st @ c # cs" "map c_spec cs = map partition_entry js"
    "\<forall>k < length js. c_pid (cs ! k) = Some (nth_pid w (Suc k)) \<and> resolves (partition_name (js ! k)) w' = Some (nth_pid w (Suc k))"
    "\<forall>n. n \<notin> partition_name ` set js \<longrightarrow> resolves n w' = resolves n w1" by (auto simp: n(4))
  have "partition_name i \<notin> partition_name ` set js" using Cons.prems(2) by auto
  then have "resolves (partition_name i) w' = resolves (partition_name i) w1" using cs(4) by blast
  then have "resolves (partition_name i) w' = Some (nth_pid w 0)" using n(1) [of "partition_name i"] n(2) spec by simp
  then have "c_pid ((c # cs) ! k) = Some (nth_pid w k) \<and> resolves (partition_name ((i # js) ! k)) w' = Some (nth_pid w k)" if "k < length (i # js)" for k
    using that cs(3) n(2) by (cases k) auto
  moreover have "map c_spec (c # cs) = map partition_entry (i # js)" using cs(2) n(3) spec by simp
  moreover have "resolves n w' = resolves n w" if "n \<notin> partition_name ` set (i # js)" for n
    using that cs(4) n(1) [of n] spec by auto
  ultimately show ?case using cs(1) by (intro exI [of _ "c # cs"]) auto
qed simp

lemma index_for_key_mod:
  assumes "0 < ph_partitions h" and "ph_partitions h < 2 ^ 64"
  shows "index_for_key key h = unat key mod ph_partitions h"
proof -
  have "unat (word_of_nat (ph_partitions h) :: u64) = ph_partitions h" using assms(2) by (simp add: unsigned_of_nat take_bit_nat_eq_self)
  then show ?thesis by (simp add: index_for_key_def unat_mod_distrib)
qed

lemma started_partitions:
  fixes w :: "('c, 'h, 'd) sup_world"
  assumes "start_partition_supervisor M boots spec w = Some (h, st, w')"
  obtains w0 :: "('c, 'h, 'd) sup_world" where "ph_partitions h = psp_partitions spec" and "0 < psp_partitions spec" and "map c_spec (sup_children st) = map partition_entry [0..<psp_partitions spec]"
    and "\<forall>k < psp_partitions spec. c_pid (sup_children st ! k) = Some (nth_pid w0 k)"
    and "\<forall>k < psp_partitions spec. resolves (partition_name k) w' = Some (nth_pid w0 k)"
proof -
  let ?n = "psp_partitions spec"
  obtain pid rt1 where sp: "spawn M (w_rt w) = (pid, rt1)" by (cases "spawn M (w_rt w)")
  let ?w0 = "w\<lparr>w_rt := rt1\<rparr>"
  obtain st0 where st0: "supervisor_start M boots (with_max_seconds (psp_max_seconds spec) (with_max_restarts (psp_max_restarts spec)
      (supervisor_spec_new (psp_strategy spec)))) [] ?w0 = (st0, ?w0)" "sup_children st0 = []" by (simp add: supervisor_start_def)
  have nz: "0 < ?n" using assms by (auto simp: start_partition_supervisor_def split: if_splits)
  with assms sp st0(1) obtain pids where a: "add_children M boots (map partition_entry [0..<?n]) (st0, ?w0) = (pids, st, w')" and h: "ph_partitions h = ?n"
    by (auto simp: start_partition_supervisor_def Let_def split: prod.splits)
  from add_children_names [OF a distinct_upt] st0(2) have b: "map c_spec (sup_children st) = map partition_entry [0..<?n]"
    "\<forall>k < ?n. c_pid (sup_children st ! k) = Some (nth_pid ?w0 k) \<and> resolves (partition_name k) w' = Some (nth_pid ?w0 k)" by auto
  show thesis
    by (rule that [of ?w0]) (use h nz b in auto)
qed

lemma nth_pid_inject: "i < 2 ^ 64 \<Longrightarrow> j < 2 ^ 64 \<Longrightarrow> nth_pid w i = nth_pid w j \<longleftrightarrow> i = j"
proof -
  assume "i < 2 ^ 64" "j < 2 ^ 64"
  then have "unat (word_of_nat i :: u64) = i" "unat (word_of_nat j :: u64) = j" by (simp_all add: unsigned_of_nat take_bit_nat_eq_self)
  then have "(word_of_nat i :: u64) = word_of_nat j \<longleftrightarrow> i = j" by metis
  then show ?thesis by (simp add: nth_pid_def)
qed

section \<open>Properties\<close>

text \<open>
  Keys are routed to partitions. After a partition supervisor has started, the key \<open>k\<close> resolves to the current process of the
  child with the index \<open>k\<close> modulo the number of partitions, \<open>partition_pid\<close> gives that process for every index in range and nothing for others, and
  different partitions are different processes.
\<close>

theorem partition_routing:
  fixes w :: "('c, 'h, 'd) sup_world"
  assumes "start_partition_supervisor M boots spec w = Some (h, st, w')" and "psp_partitions spec < 2 ^ 64"
  shows "length (sup_children st) = psp_partitions spec
    \<and> which_partition key h (w_rt w') = c_pid (sup_children st ! (unat key mod psp_partitions spec))
    \<and> which_partition key h (w_rt w') \<noteq> None
    \<and> partition_pid i h (w_rt w') = (if i < psp_partitions spec then c_pid (sup_children st ! i) else None)
    \<and> (i < psp_partitions spec \<and> j < psp_partitions spec \<and> partition_pid i h (w_rt w') = partition_pid j h (w_rt w') \<longrightarrow> i = j)"
proof -
  obtain w0 :: "('c, 'h, 'd) sup_world" where s: "ph_partitions h = psp_partitions spec" "0 < psp_partitions spec" "map c_spec (sup_children st) = map partition_entry [0..<psp_partitions spec]"
    "\<forall>k < psp_partitions spec. c_pid (sup_children st ! k) = Some (nth_pid w0 k)"
    "\<forall>k < psp_partitions spec. resolves (partition_name k) w' = Some (nth_pid w0 k)"
    using started_partitions [OF assms(1)] by metis
  have "index_for_key key h = unat key mod psp_partitions spec" using index_for_key_mod [of h key] s(1,2) assms(2) by simp
  moreover have "unat key mod psp_partitions spec < psp_partitions spec" using s(2) by simp
  moreover have "length (sup_children st) = psp_partitions spec" using arg_cong [OF s(3), of length] by simp
  moreover have "i = j" if "i < psp_partitions spec" "j < psp_partitions spec" "nth_pid w0 i = nth_pid w0 j"
    using that assms(2) nth_pid_inject [of i j w0] by simp
  ultimately show ?thesis using s(1,4,5) by (auto simp: which_partition_def partition_pid_def runtime_whereis_def)
qed


text \<open>
  Two partition supervisors on one runtime collide. The names of the partitions do not mention their supervisor, so once a second
  partition supervisor with at least as many partitions has started, every key of the first handle resolves to a process of the
  second supervisor, and none of the first is reachable through its own handle.
\<close>

theorem partition_supervisors_collide:
  fixes w :: "('c, 'h, 'd) sup_world"
  assumes "start_partition_supervisor M boots spec1 w = Some (h1, st1, w1)" and "start_partition_supervisor M boots spec2 (w1\<lparr>w_running := [], w_log := []\<rparr>) = Some (h2, st2, w2)"
    and "psp_partitions spec1 \<le> psp_partitions spec2" and "psp_partitions spec2 < 2 ^ 64"
  shows "which_partition key h1 (w_rt w2) = c_pid (sup_children st2 ! (unat key mod psp_partitions spec1)) \<and> which_partition key h1 (w_rt w2) \<noteq> None"
proof -
  obtain v :: "('c, 'h, 'd) sup_world" where s1: "ph_partitions h1 = psp_partitions spec1" "0 < psp_partitions spec1"
    using started_partitions [OF assms(1)] by metis
  obtain v2 :: "('c, 'h, 'd) sup_world" where s2: "\<forall>k < psp_partitions spec2. c_pid (sup_children st2 ! k) = Some (nth_pid v2 k)"
    "\<forall>k < psp_partitions spec2. resolves (partition_name k) w2 = Some (nth_pid v2 k)" using started_partitions [OF assms(2)] by metis
  have "index_for_key key h1 = unat key mod psp_partitions spec1" using index_for_key_mod [of h1 key] s1 assms(3,4) by simp
  moreover have "unat key mod psp_partitions spec1 < psp_partitions spec2" using s1(2) assms(3) mod_less_divisor [of "psp_partitions spec1" "unat key"] by linarith
  ultimately show ?thesis using s2 by (simp add: which_partition_def runtime_whereis_def)
qed

section \<open>A concrete partition supervisor\<close>

definition sample_part_world :: "(nat message chan, nat, unit) sup_world" where
  "sample_part_world = \<lparr>w_rt = runtime_new 1, w_running = [], w_log = []\<rparr>"

definition two_partitions :: partition_spec where
  "two_partitions = with_partitions 2 (partition_spec_new None)"

lemma sample_partitions_start: "\<exists>h st w'. start_partition_supervisor list_mpsc (\<lambda>_. True) two_partitions w = Some (h, st, w')"
  by (simp add: start_partition_supervisor_def two_partitions_def with_partitions_def partition_spec_new_def Let_def split: prod.split)

theorem partition_routing_witness:
  "\<exists>h st w'. start_partition_supervisor list_mpsc (\<lambda>_. True) two_partitions sample_part_world = Some (h, st, w')
    \<and> which_partition 7 h (w_rt w') = c_pid (sup_children st ! 1)"
proof -
  obtain h st w' where s: "start_partition_supervisor list_mpsc (\<lambda>_. True) two_partitions sample_part_world = Some (h, st, w')"
    using sample_partitions_start by blast
  have "psp_partitions two_partitions = 2" by (simp add: two_partitions_def with_partitions_def)
  with s partition_routing [OF s, of 7] show ?thesis by auto
qed


theorem partition_supervisors_collide_witness:
  "\<exists>h1 st1 w1 h2 st2 w2. start_partition_supervisor list_mpsc (\<lambda>_. True) two_partitions sample_part_world = Some (h1, st1, w1)
    \<and> start_partition_supervisor list_mpsc (\<lambda>_. True) two_partitions (w1\<lparr>w_running := [], w_log := []\<rparr>) = Some (h2, st2, w2)
    \<and> which_partition 7 h1 (w_rt w2) = c_pid (sup_children st2 ! 1)"
proof -
  obtain h1 st1 w1 where s1: "start_partition_supervisor list_mpsc (\<lambda>_. True) two_partitions sample_part_world = Some (h1, st1, w1)"
    using sample_partitions_start by blast
  obtain h2 st2 w2 where s2: "start_partition_supervisor list_mpsc (\<lambda>_. True) two_partitions (w1\<lparr>w_running := [], w_log := []\<rparr>) = Some (h2, st2, w2)"
    using sample_partitions_start by blast
  have "psp_partitions two_partitions = 2" by (simp add: two_partitions_def with_partitions_def)
  with s1 s2 partition_supervisors_collide [OF s1 s2, of 7] show ?thesis by auto
qed

end
