(* ===== verification/Timer.thy ===== *)
theory Timer
  imports Runtime Pg
begin

text \<open>
  Timers (\<^verbatim>\<open>crates/rebar-core/src/timer\<close>, the timer methods of the process and server contexts) and exit hooks
  at work: the world of this theory is a runtime with the timer tasks that run beside it, the process groups attached
  to it, and a clock. A timer task is advanced by polls, at whatever times the scheduler chooses; polling at a
  deadline or later makes it fire. The exit hooks of the table are those the crate installs: the one of an attached process group
  and the one of an owned interval. The theory shows that timers keep to their schedule and what the exit of a process does to timers and groups.
\<close>

section \<open>Durations\<close>

definition MAX_TIMER :: duration where
  "MAX_TIMER = from_secs (60 * 60 * 24 * 365 * 30)"

definition clamp_duration :: "duration \<Rightarrow> duration" where
  "clamp_duration d = (if d = 0 then 1 else if d > MAX_TIMER then MAX_TIMER else d)"

section \<open>The world\<close>

text \<open>What a timer does when it fires: route a message, or call a closure, named by a number.\<close>

datatype 'v timer_job = RouteJob process_id process_id 'v | ApplyJob nat

text \<open>
  Where a timer task stands: spawned and not yet polled, sleeping until an instant, or waiting for the end of the closure it called,
  with the deadline of the tick after it.
\<close>

datatype timer_phase = Unstarted | Sleeping instant | Invoking instant

record 'v timer_task =
  tt_job :: "'v timer_job"
  tt_delay :: duration
  tt_repeats :: bool
  tt_phase :: timer_phase

datatype exit_hook = ScopeHook nat | AbortHook process_id nat

text \<open>\<open>tw_fired\<close> records which timer fired when, \<open>tw_scopes\<close> holds the process groups that still exist.\<close>

record ('c, 'd, 'v) timer_world =
  tw_rt :: "('c, exit_hook, 'd) runtime"
  tw_scopes :: "(nat, pg_scope) hashmap"
  tw_timers :: "(nat, 'v timer_task) hashmap"
  tw_next :: nat
  tw_now :: instant
  tw_fired :: "(nat \<times> instant) list"

definition timer_world_new :: "('c, exit_hook, 'd) runtime \<Rightarrow> instant \<Rightarrow> ('c, 'd, 'v) timer_world" where
  "timer_world_new rt now = \<lparr>tw_rt = rt, tw_scopes = hm_empty, tw_timers = hm_empty, tw_next = 0, tw_now = now, tw_fired = []\<rparr>"

section \<open>Starting and cancelling timers\<close>

text \<open>\<open>tokio::spawn\<close> of a timer task; the reference to it is its number.\<close>

definition timer_spawn :: "'v timer_job \<Rightarrow> duration \<Rightarrow> bool \<Rightarrow> ('c, 'd, 'v) timer_world \<Rightarrow> nat \<times> ('c, 'd, 'v) timer_world" where
  "timer_spawn job delay repeats w =
     (tw_next w,
      w\<lparr>tw_next := tw_next w + 1,
        tw_timers := hm_insert (tw_next w) \<lparr>tt_job = job, tt_delay = delay, tt_repeats = repeats, tt_phase = Unstarted\<rparr> (tw_timers w)\<rparr>)"

definition send_after ::
  "process_id \<Rightarrow> process_id \<Rightarrow> 'v \<Rightarrow> duration \<Rightarrow> ('c, 'd, 'v) timer_world \<Rightarrow> nat \<times> ('c, 'd, 'v) timer_world" where
  "send_after from dest p delay w = (let delay = clamp_duration delay in timer_spawn (RouteJob from dest p) delay False w)"

definition send_interval ::
  "process_id \<Rightarrow> process_id \<Rightarrow> 'v \<Rightarrow> duration \<Rightarrow> ('c, 'd, 'v) timer_world \<Rightarrow> nat \<times> ('c, 'd, 'v) timer_world" where
  "send_interval from dest p interval w = (let interval = clamp_duration interval in timer_spawn (RouteJob from dest p) interval True w)"

definition send_interval_owned ::
  "process_id \<Rightarrow> process_id \<Rightarrow> 'v \<Rightarrow> duration \<Rightarrow> ('c, 'd, 'v) timer_world \<Rightarrow> nat \<times> ('c, 'd, 'v) timer_world" where
  "send_interval_owned from dest p interval w =
     (let interval = clamp_duration interval;
          (i, w1) = timer_spawn (RouteJob from dest p) interval True w;
          owner = from in
      (i, w1\<lparr>tw_rt := (tw_rt w1)\<lparr>rt_table := add_exit_hook (AbortHook owner i) (rt_table (tw_rt w1))\<rparr>\<rparr>))"

definition apply_after :: "duration \<Rightarrow> nat \<Rightarrow> ('c, 'd, 'v) timer_world \<Rightarrow> nat \<times> ('c, 'd, 'v) timer_world" where
  "apply_after delay f w = (let delay = clamp_duration delay in timer_spawn (ApplyJob f) delay False w)"

definition apply_interval :: "duration \<Rightarrow> nat \<Rightarrow> ('c, 'd, 'v) timer_world \<Rightarrow> nat \<times> ('c, 'd, 'v) timer_world" where
  "apply_interval interval f w = (let interval = clamp_duration interval in timer_spawn (ApplyJob f) interval True w)"

definition timer_cancel :: "nat \<Rightarrow> ('c, 'd, 'v) timer_world \<Rightarrow> ('c, 'd, 'v) timer_world" where
  "timer_cancel i w = w\<lparr>tw_timers := hm_remove i (tw_timers w)\<rparr>"

definition is_finished :: "nat \<Rightarrow> ('c, 'd, 'v) timer_world \<Rightarrow> bool" where
  "is_finished i w = (\<not> hm_contains i (tw_timers w))"

text \<open>The timer methods of a process context and of a server context, which may have no router.\<close>

definition ctx_send_after :: "process_id \<Rightarrow> 'v \<Rightarrow> duration \<Rightarrow> ('c, 'd, 'v) timer_world \<Rightarrow> nat \<times> ('c, 'd, 'v) timer_world" where
  "ctx_send_after self p delay w = send_after self self p delay w"

definition ctx_send_after_to :: "process_id \<Rightarrow> process_id \<Rightarrow> 'v \<Rightarrow> duration \<Rightarrow> ('c, 'd, 'v) timer_world \<Rightarrow> nat \<times> ('c, 'd, 'v) timer_world" where
  "ctx_send_after_to self dest p delay w = send_after self dest p delay w"

definition ctx_send_interval :: "process_id \<Rightarrow> 'v \<Rightarrow> duration \<Rightarrow> ('c, 'd, 'v) timer_world \<Rightarrow> nat \<times> ('c, 'd, 'v) timer_world" where
  "ctx_send_interval self p interval w = send_interval self self p interval w"

definition server_send_after ::
  "bool \<Rightarrow> process_id \<Rightarrow> process_id \<Rightarrow> 'v \<Rightarrow> duration \<Rightarrow> ('c, 'd, 'v) timer_world \<Rightarrow> nat option \<times> ('c, 'd, 'v) timer_world" where
  "server_send_after has_router self dest p delay w =
     (if has_router then map_prod Some id (send_after self dest p delay w) else (None, w))"

definition server_send_after_self ::
  "bool \<Rightarrow> process_id \<Rightarrow> 'v \<Rightarrow> duration \<Rightarrow> ('c, 'd, 'v) timer_world \<Rightarrow> nat option \<times> ('c, 'd, 'v) timer_world" where
  "server_send_after_self has_router self p delay w = server_send_after has_router self self p delay w"

definition server_send_interval ::
  "bool \<Rightarrow> process_id \<Rightarrow> process_id \<Rightarrow> 'v \<Rightarrow> duration \<Rightarrow> ('c, 'd, 'v) timer_world \<Rightarrow> nat option \<times> ('c, 'd, 'v) timer_world" where
  "server_send_interval has_router self dest p interval w =
     (if has_router then map_prod Some id (send_interval self dest p interval w) else (None, w))"

section \<open>Running timers\<close>

definition set_phase :: "nat \<Rightarrow> timer_phase \<Rightarrow> ('c, 'd, 'v) timer_world \<Rightarrow> ('c, 'd, 'v) timer_world" where
  "set_phase i ph w = w\<lparr>tw_timers := hm_modify i (tt_phase_update (\<lambda>_. ph)) (tw_timers w)\<rparr>"

text \<open>
  A timer fires: the body of its loop, or the rest of its task. A failed route ends an interval. Ticks are one period apart, however late the
  last one was. A panic of the router ends the task, and so does a panic of the closure before it returns its future (\<open>panics\<close>).
\<close>

definition timer_fire ::
  "('v message, 'c) mpsc \<Rightarrow> ('v, 'c, exit_hook, 'd) custom_route \<Rightarrow> (nat \<Rightarrow> bool) \<Rightarrow> nat \<Rightarrow> instant \<Rightarrow> 'v timer_task
     \<Rightarrow> ('c, 'd, 'v) timer_world \<Rightarrow> ('c, 'd, 'v) timer_world" where
  "timer_fire M custom panics i due t w =
     (let w1 = w\<lparr>tw_fired := tw_fired w @ [(i, tw_now w)]\<rparr> in
      case tt_job t of
        RouteJob from dest p \<Rightarrow>
          (case runtime_route M custom from dest p (tw_rt w1) of
             None \<Rightarrow> timer_cancel i w1
           | Some (r, rt) \<Rightarrow>
               let w2 = w1\<lparr>tw_rt := rt\<rparr> in
               if tt_repeats t \<and> r = Inr () then set_phase i (Sleeping (due + tt_delay t)) w2 else timer_cancel i w2)
      | ApplyJob f \<Rightarrow> if panics f then timer_cancel i w1 else set_phase i (Invoking (due + tt_delay t)) w1)"

definition timer_poll ::
  "('v message, 'c) mpsc \<Rightarrow> ('v, 'c, exit_hook, 'd) custom_route \<Rightarrow> (nat \<Rightarrow> bool) \<Rightarrow> nat \<Rightarrow> ('c, 'd, 'v) timer_world \<Rightarrow> ('c, 'd, 'v) timer_world" where
  "timer_poll M custom panics i w =
     (case hm_get (tw_timers w) i of
        None \<Rightarrow> w
      | Some t \<Rightarrow>
          (case tt_phase t of
             Unstarted \<Rightarrow> set_phase i (Sleeping (tw_now w + tt_delay t)) w
           | Sleeping due \<Rightarrow> if tw_now w < due then w else timer_fire M custom panics i due t w
           | Invoking _ \<Rightarrow> w))"

text \<open>The future of the closure has ended, or panicked.\<close>

definition invocation_ends :: "nat \<Rightarrow> ('c, 'd, 'v) timer_world \<Rightarrow> ('c, 'd, 'v) timer_world" where
  "invocation_ends i w =
     (case hm_get (tw_timers w) i of
        Some t \<Rightarrow>
          (case tt_phase t of
             Invoking due \<Rightarrow> if tt_repeats t then set_phase i (Sleeping due) w else timer_cancel i w
           | _ \<Rightarrow> w)
      | None \<Rightarrow> w)"

section \<open>Exits\<close>

text \<open>A hook of a group that was dropped does nothing.\<close>

fun run_hook :: "exit_hook \<times> process_id \<Rightarrow> ('c, 'd, 'v) timer_world \<Rightarrow> ('c, 'd, 'v) timer_world" where
  "run_hook (ScopeHook s, pid) w = w\<lparr>tw_scopes := hm_modify s (pg_remove_pid pid) (tw_scopes w)\<rparr>"
| "run_hook (AbortHook owner i, pid) w = (if pid = owner then timer_cancel i w else w)"

definition world_exit ::
  "('v message, 'c) mpsc \<Rightarrow> 'v rmpv \<Rightarrow> process_id \<Rightarrow> ('c, 'd, 'v) timer_world \<Rightarrow> ('c, 'd, 'v) timer_world" where
  "world_exit M V pid w =
     (case process_exit M V pid (tw_rt w) of (calls, rt) \<Rightarrow> fold run_hook calls (w\<lparr>tw_rt := rt\<rparr>))"

definition attach_scope :: "nat \<Rightarrow> ('c, 'd, 'v) timer_world \<Rightarrow> ('c, 'd, 'v) timer_world" where
  "attach_scope s w = w\<lparr>tw_rt := attach_pg_scope (ScopeHook s) (tw_rt w)\<rparr>"

text \<open>
  Everything that can happen: timers are started, cancelled and polled, closures end, time passes, processes are spawned and exit, messages are
  routed, groups are created, attached, changed and dropped.
\<close>

inductive world_step ::
  "('v message, 'c) mpsc \<Rightarrow> 'v rmpv \<Rightarrow> ('v, 'c, exit_hook, 'd) custom_route \<Rightarrow> (nat \<Rightarrow> bool)
     \<Rightarrow> ('c, 'd, 'v) timer_world \<Rightarrow> ('c, 'd, 'v) timer_world \<Rightarrow> bool"
  for M V custom panics
where
  starts: "w' = snd (timer_spawn job (clamp_duration delay) rep w) \<Longrightarrow> world_step M V custom panics w w'"
| owned: "w' = snd (send_interval_owned from dest p interval w) \<Longrightarrow> world_step M V custom panics w w'"
| cancels: "world_step M V custom panics w (timer_cancel i w)"
| polls: "world_step M V custom panics w (timer_poll M custom panics i w)"
| invoked: "world_step M V custom panics w (invocation_ends i w)"
| passes: "world_step M V custom panics w (w\<lparr>tw_now := tw_now w + n\<rparr>)"
| spawns: "world_step M V custom panics w (w\<lparr>tw_rt := snd (spawn M (tw_rt w))\<rparr>)"
| exits: "world_step M V custom panics w (world_exit M V pid w)"
| routes: "runtime_route M custom from dest p (tw_rt w) = Some (r, rt) \<Longrightarrow> world_step M V custom panics w (w\<lparr>tw_rt := rt\<rparr>)"
| attaches: "world_step M V custom panics w (attach_scope s w)"
| scopes: "world_step M V custom panics w (w\<lparr>tw_scopes := scopes\<rparr>)"

inductive_cases world_stepE: "world_step M V custom panics w w'"

section \<open>Schedules\<close>

text \<open>The times at which a timer fired.\<close>

definition fires :: "nat \<Rightarrow> ('c, 'd, 'v) timer_world \<Rightarrow> instant list" where
  "fires i w = map snd (filter (\<lambda>e. fst e = i) (tw_fired w))"

definition timers_wf :: "('c, 'd, 'v) timer_world \<Rightarrow> bool" where
  "timers_wf w \<longleftrightarrow> (\<forall>i \<ge> tw_next w. hm_get (tw_timers w) i = None \<and> fires i w = [])"

text \<open>
  What holds of a timer started at \<open>c\<close> with the clamped delay \<open>d\<close>: its ticks are not early, and neither is the next one; a
  timer that does not repeat has fired at most once, and not at all while it sleeps.
\<close>

fun next_due :: "timer_phase \<Rightarrow> instant option" where
  "next_due Unstarted = None"
| "next_due (Sleeping due) = Some due"
| "next_due (Invoking due) = Some due"

definition task_on_schedule :: "instant \<Rightarrow> duration \<Rightarrow> bool \<Rightarrow> instant list \<Rightarrow> 'v timer_task \<Rightarrow> bool" where
  "task_on_schedule c d rep ts t \<longleftrightarrow> tt_delay t = d \<and> tt_repeats t = rep
     \<and> (case next_due (tt_phase t) of None \<Rightarrow> ts = [] | Some due \<Rightarrow> c + Suc (length ts) * d \<le> due)
     \<and> (rep \<or> (\<exists>due. tt_phase t = Invoking due) \<or> ts = [])"

definition on_schedule :: "nat \<Rightarrow> instant \<Rightarrow> duration \<Rightarrow> bool \<Rightarrow> ('c, 'd, 'v) timer_world \<Rightarrow> bool" where
  "on_schedule i c d rep w \<longleftrightarrow> i < tw_next w \<and> c \<le> tw_now w
     \<and> (\<forall>k < length (fires i w). c + Suc k * d \<le> fires i w ! k) \<and> (rep \<or> length (fires i w) \<le> 1)
     \<and> (\<forall>t. hm_get (tw_timers w) i = Some t \<longrightarrow> task_on_schedule c d rep (fires i w) t)"

lemma fires_log [simp]:
  "fires i (w\<lparr>tw_fired := tw_fired w @ [(j, n)]\<rparr>) = fires i w @ (if j = i then [n] else [])"
  "fires i (w\<lparr>tw_rt := rt\<rparr>) = fires i w" "fires i (w\<lparr>tw_timers := ts\<rparr>) = fires i w" "fires i (w\<lparr>tw_now := n\<rparr>) = fires i w"
  "fires i (w\<lparr>tw_scopes := sc\<rparr>) = fires i w" "fires i (w\<lparr>tw_next := k\<rparr>) = fires i w"
  by (simp_all add: fires_def)

text \<open>What one step can do to one timer.\<close>

inductive timer_change :: "instant \<Rightarrow> 'v timer_task option \<Rightarrow> instant list \<Rightarrow> 'v timer_task option \<Rightarrow> bool" where
  keeps: "timer_change now t [] t"
| ends: "timer_change now t [] None"
| begins: "tt_phase t = Unstarted \<Longrightarrow> timer_change now (Some t) [] (Some (t\<lparr>tt_phase := Sleeping (now + tt_delay t)\<rparr>))"
| ticks: "tt_phase t = Sleeping due \<Longrightarrow> due \<le> now \<Longrightarrow> tt_repeats t \<Longrightarrow>
    timer_change now (Some t) [now] (Some (t\<lparr>tt_phase := Sleeping (due + tt_delay t)\<rparr>))"
| calls: "tt_phase t = Sleeping due \<Longrightarrow> due \<le> now \<Longrightarrow> timer_change now (Some t) [now] (Some (t\<lparr>tt_phase := Invoking (due + tt_delay t)\<rparr>))"
| fires_last: "tt_phase t = Sleeping due \<Longrightarrow> due \<le> now \<Longrightarrow> timer_change now (Some t) [now] None"
| returns: "tt_phase t = Invoking due \<Longrightarrow> tt_repeats t \<Longrightarrow> timer_change now (Some t) [] (Some (t\<lparr>tt_phase := Sleeping due\<rparr>))"

definition timer_moves :: "nat \<Rightarrow> ('c, 'd, 'v) timer_world \<Rightarrow> ('c, 'd, 'v) timer_world \<Rightarrow> bool" where
  "timer_moves i w w' \<longleftrightarrow> tw_next w \<le> tw_next w' \<and> tw_now w \<le> tw_now w'
     \<and> (\<exists>ts. fires i w' = fires i w @ ts \<and> timer_change (tw_now w) (hm_get (tw_timers w) i) ts (hm_get (tw_timers w') i))"

lemma timer_moves_keeps:
  assumes "fires i w' = fires i w" and "hm_get (tw_timers w') i = hm_get (tw_timers w) i" and "tw_next w \<le> tw_next w'" and "tw_now w \<le> tw_now w'"
  shows "timer_moves i w w'"
  using assms keeps by (auto simp: timer_moves_def)

lemma timer_cancel_moves: "timer_moves i w (timer_cancel j w)"
  by (cases "i = j") (auto simp: timer_moves_def timer_cancel_def intro: timer_change.intros)

definition scope_members :: "nat \<Rightarrow> string \<Rightarrow> ('c, 'd, 'v) timer_world \<Rightarrow> process_id list" where
  "scope_members s g w = (case hm_get (tw_scopes w) s of None \<Rightarrow> [] | Some scope \<Rightarrow> get_members g scope)"

lemma remove_pid_members: "get_members g (pg_remove_pid pid scope) = filter (\<lambda>p. p \<noteq> pid) (get_members g scope)"
proof -
  obtain gs s' where s: "sweep (\<lambda>q. q \<noteq> pid) scope = (gs, s')" by fastforce
  then have "s' = hm_map_values (filter (\<lambda>q. q \<noteq> pid)) scope" by (simp add: sweep_def Let_def)
  then show ?thesis by (auto simp: pg_remove_pid_def s get_members_def [of _ "hm_map_values _ _"] get_members_def [of _ scope] split: option.split)
qed

lemma run_hook_members:
  "scope_members s g (run_hook (h, pid) w) = (if h = ScopeHook s then filter (\<lambda>p. p \<noteq> pid) (scope_members s g w) else scope_members s g w)"
  by (cases h) (auto simp: timer_cancel_def scope_members_def remove_pid_members split: option.splits)

lemma run_hooks_effect:
  fixes w :: "('c, 'd, 'v) timer_world" and pid :: process_id
  defines "w' \<equiv> \<lambda>hooks. fold run_hook (map (\<lambda>h. (h, pid)) hooks) w"
  shows "tw_rt (w' hooks) = tw_rt w" and "tw_now (w' hooks) = tw_now w" and "tw_next (w' hooks) = tw_next w" and "tw_fired (w' hooks) = tw_fired w"
    and "hm_get (tw_timers (w' hooks)) i = (if AbortHook pid i \<in> set hooks then None else hm_get (tw_timers w) i)"
    and "scope_members s g (w' hooks) = (if ScopeHook s \<in> set hooks then filter (\<lambda>p. p \<noteq> pid) (scope_members s g w) else scope_members s g w)"
  unfolding w'_def
proof (induction hooks rule: rev_induct)
  case (snoc h hooks)
  { case 1 with snoc show ?case by (cases h) (auto simp: timer_cancel_def) }
  { case 2 with snoc show ?case by (cases h) (auto simp: timer_cancel_def) }
  { case 3 with snoc show ?case by (cases h) (auto simp: timer_cancel_def) }
  { case 4 with snoc show ?case by (cases h) (auto simp: timer_cancel_def) }
  { case 5 with snoc show ?case by (cases h) (auto simp: timer_cancel_def) }
  { case 6 with snoc(6) show ?case by (cases h) (auto simp del: run_hook.simps simp: run_hook_members conj_commute) }
qed simp_all

lemma cleanup_hooks:
  fixes t :: "('c, 'h) process_table"
  shows "tb_exit_hooks (release_names pid t) = tb_exit_hooks t" "tb_exit_hooks (notify_monitors M V pid t) = tb_exit_hooks t"
proof -
  have "tb_exit_hooks (fold (notify_monitor M V pid) es t') = tb_exit_hooks t'" for es and t' :: "('c, 'h) process_table"
    by (induction es arbitrary: t') (auto simp: notify_monitor_def forget_watcher_def split: option.splits)
  then show "tb_exit_hooks (notify_monitors M V pid t) = tb_exit_hooks t" by (simp add: notify_monitors_def split: option.splits)
qed (simp add: release_names_def split: option.splits)

lemma process_exit_calls:
  "process_exit M V pid rt =
     (if alive (rt_table rt) pid then (map (\<lambda>h. (h, pid)) (tb_exit_hooks (rt_table rt)), rt\<lparr>rt_table := snd (snd (cleanup_process M V pid (rt_table rt)))\<rparr>)
      else ([], rt))"
  by (auto simp: process_exit_def cleanup_process_def alive_def hm_contains_def release_monitors_other(5) cleanup_hooks Let_def split: option.split)

lemma world_exit_fields [simp]:
  "tw_now (world_exit M V pid w) = tw_now w" "tw_next (world_exit M V pid w) = tw_next w" "tw_fired (world_exit M V pid w) = tw_fired w"
  "hm_get (tw_timers (world_exit M V pid w)) i =
     (if alive (rt_table (tw_rt w)) pid \<and> AbortHook pid i \<in> set (tb_exit_hooks (rt_table (tw_rt w))) then None else hm_get (tw_timers w) i)"
  by (auto simp: world_exit_def process_exit_calls run_hooks_effect)

lemma timer_poll_moves: "timer_moves i w (timer_poll M custom panics j w)"
proof (cases "hm_get (tw_timers w) j")
  case (Some t)
  show ?thesis
  proof (cases "i = j")
    case True
    with Some show ?thesis
      by (auto simp: timer_moves_def timer_poll_def timer_fire_def set_phase_def timer_cancel_def Let_def
          intro: timer_change.intros split: timer_phase.split timer_job.split option.split)
  next
    case False
    with Some show ?thesis
      by (auto simp: timer_poll_def timer_fire_def set_phase_def timer_cancel_def Let_def
          intro!: timer_moves_keeps split: timer_phase.split timer_job.split option.split)
  qed
qed (simp add: timer_poll_def timer_moves_keeps)

lemma invocation_ends_moves: "timer_moves i w (invocation_ends j w)"
  by (auto simp: timer_moves_def invocation_ends_def set_phase_def timer_cancel_def
      intro: timer_change.intros split: timer_phase.split option.split)

lemma world_step_moves:
  assumes "world_step M V custom panics w w'" and "i < tw_next w"
  shows "timer_moves i w w'"
  using assms(1)
proof cases
  case (exits pid)
  then show ?thesis using ends keeps by (force simp: timer_moves_def fires_def)
qed (use assms(2) in \<open>auto simp: timer_spawn_def send_interval_owned_def attach_scope_def timer_cancel_moves timer_poll_moves
      invocation_ends_moves intro!: timer_moves_keeps\<close>)

lemma on_schedule_moves:
  assumes "on_schedule i c d rep w" and "timer_moves i w w'"
  shows "on_schedule i c d rep w'"
proof -
  from assms(2) obtain ts where m: "fires i w' = fires i w @ ts" "timer_change (tw_now w) (hm_get (tw_timers w) i) ts (hm_get (tw_timers w') i)"
    "tw_next w \<le> tw_next w'" "tw_now w \<le> tw_now w'" by (auto simp: timer_moves_def)
  have o: "i < tw_next w" "c \<le> tw_now w" "\<forall>k < length (fires i w). c + Suc k * d \<le> fires i w ! k" "rep \<or> length (fires i w) \<le> 1"
    "\<And>t. hm_get (tw_timers w) i = Some t \<Longrightarrow> task_on_schedule c d rep (fires i w) t" using assms(1) by (auto simp: on_schedule_def)
  have "task_on_schedule c d rep (fires i w @ ts) t'" if "hm_get (tw_timers w') i = Some t'" for t'
    using m(2) that o(2) o(5) by cases (auto simp: task_on_schedule_def algebra_simps)
  moreover have "\<forall>k < length (fires i w @ ts). c + Suc k * d \<le> (fires i w @ ts) ! k" and "rep \<or> length (fires i w @ ts) \<le> 1"
    using m(2) o(3-5) by (cases; fastforce simp: task_on_schedule_def nth_append less_Suc_eq)+
  ultimately show ?thesis using m o(1,2) by (auto simp: on_schedule_def)
qed

lemma timer_change_None: "timer_change now None ts t \<Longrightarrow> ts = [] \<and> t = None"
  by (auto elim: timer_change.cases)

lemma timers_wf_moves:
  assumes "timers_wf w" and "\<And>i. timer_moves i w w'"
  shows "timers_wf w'"
  unfolding timers_wf_def
proof (intro allI impI)
  fix i assume i: "tw_next w' \<le> i"
  have m: "timer_moves i w w'" by (fact assms(2))
  then have "tw_next w \<le> i" using i by (simp add: timer_moves_def)
  then show "hm_get (tw_timers w') i = None \<and> fires i w' = []"
    using assms(1) m by (auto simp: timers_wf_def timer_moves_def dest: timer_change_None)
qed

lemma world_step_wf:
  assumes "world_step M V custom panics w w'" and "timers_wf w"
  shows "timers_wf w'"
  using assms(1)
proof cases
  case (exits pid)
  with assms(2) show ?thesis by (auto simp: timers_wf_def fires_def)
next
  case (polls i)
  with assms(2) show ?thesis by (auto intro: timers_wf_moves timer_poll_moves)
next
  case (invoked i)
  with assms(2) show ?thesis by (auto intro: timers_wf_moves invocation_ends_moves)
next
  case (cancels i)
  with assms(2) show ?thesis by (auto intro: timers_wf_moves timer_cancel_moves)
qed (use assms(2) in \<open>auto simp: timers_wf_def timer_spawn_def send_interval_owned_def attach_scope_def\<close>)

interpretation tw: transition_invariant "world_step M V custom panics" timers_wf for M V custom panics
  by unfold_locales (rule world_step_wf)

lemma timers_wf_new: "timers_wf (timer_world_new rt now)"
  by (simp add: timers_wf_def timer_world_new_def fires_def)

lemma world_reach_wf: "(world_step M V custom panics)\<^sup>*\<^sup>* (timer_world_new rt now) w \<Longrightarrow> timers_wf w"
  by (rule tw.reach_inv [OF _ timers_wf_new])

lemma world_reach_moves:
  assumes "(world_step M V custom panics)\<^sup>*\<^sup>* w w'" and "i < tw_next w"
  shows "tw_next w \<le> tw_next w'"
    and "on_schedule i c d rep w \<Longrightarrow> on_schedule i c d rep w'"
    and "hm_get (tw_timers w) i = None \<Longrightarrow> hm_get (tw_timers w') i = None \<and> fires i w' = fires i w"
  using assms(1)
proof (induction rule: rtranclp_induct)
  case (step w1 w2)
  have m: "timer_moves i w1 w2" using world_step_moves [OF step.hyps(2)] step.IH(1) assms(2) by simp
  { case 1 show ?case using m step.IH(1) by (simp add: timer_moves_def) }
  { case 2 then show ?case using m step.IH(2) on_schedule_moves by blast }
  { case 3 then show ?case using m step.IH(3) by (auto simp: timer_moves_def dest: timer_change_None) }
qed simp_all

lemma timer_spawn_schedule:
  assumes "timers_wf w" and "timer_spawn job d rep w = (i, w1)"
  shows "on_schedule i (tw_now w) d rep w1"
  using assms by (auto simp: timer_spawn_def on_schedule_def task_on_schedule_def timers_wf_def)

section \<open>Ticks of a timer that is polled in time\<close>

text \<open>The timer is polled at once and then after every delay.\<close>

fun prompt_polls ::
  "('v message, 'c) mpsc \<Rightarrow> ('v, 'c, exit_hook, 'd) custom_route \<Rightarrow> (nat \<Rightarrow> bool) \<Rightarrow> nat \<Rightarrow> duration \<Rightarrow> nat
     \<Rightarrow> ('c, 'd, 'v) timer_world \<Rightarrow> ('c, 'd, 'v) timer_world" where
  "prompt_polls M custom panics i d 0 w = timer_poll M custom panics i w"
| "prompt_polls M custom panics i d (Suc n) w =
     (let w1 = prompt_polls M custom panics i d n w in timer_poll M custom panics i (w1\<lparr>tw_now := tw_now w1 + d\<rparr>))"

lemma local_route_accepted:
  assumes "mpsc_ok M" and "rt_custom rt = None" and "accepts M (rt_table rt) dest"
  obtains rt' where "runtime_route M custom src dest p rt = Some (Inr (), rt')" and "rt_custom rt' = None" and "accepts M (rt_table rt') dest"
    and "delivered M (rt_table rt') dest = delivered M (rt_table rt) dest @ [(src, p)]"
proof -
  let ?msg = "message_new_internal src p"
  have "fst (table_send M dest ?msg (rt_table rt)) = Inr ()"
    using assms(3) by (auto simp: table_send_outcome [OF assms(1)] accepts_def mb_open_def mb_full_def)
  then obtain t where t: "table_send M dest ?msg (rt_table rt) = (Inr (), t)" by (cases "table_send M dest ?msg (rt_table rt)") auto
  show thesis
  proof (rule that)
    show "runtime_route M custom src dest p rt = Some (Inr (), rt\<lparr>rt_table := t\<rparr>)" by (simp add: runtime_route_def assms(2) local_route_def t)
    show "accepts M (rt_table (rt\<lparr>rt_table := t\<rparr>)) dest" using accepts_send [OF assms(1), of dest ?msg "rt_table rt" dest] assms(3) t by simp
    show "delivered M (rt_table (rt\<lparr>rt_table := t\<rparr>)) dest = delivered M (rt_table rt) dest @ [(src, p)]"
      using inbox_after_send [OF assms(1), of dest ?msg "rt_table rt" dest] t by (simp add: delivered_def message_new_internal_def)
  qed (simp add: assms(2))
qed

lemma interval_prompt:
  assumes "mpsc_ok M" and "rt_custom (tw_rt w1) = None" and "accepts M (rt_table (tw_rt w1)) dest"
    and "hm_get (tw_timers w1) i = Some \<lparr>tt_job = RouteJob src dest p, tt_delay = d, tt_repeats = True, tt_phase = Unstarted\<rparr>" and "fires i w1 = []"
  shows "rt_custom (tw_rt (prompt_polls M custom panics i d n w1)) = None \<and> accepts M (rt_table (tw_rt (prompt_polls M custom panics i d n w1))) dest
    \<and> tw_now (prompt_polls M custom panics i d n w1) = tw_now w1 + n * d
    \<and> hm_get (tw_timers (prompt_polls M custom panics i d n w1)) i =
        Some \<lparr>tt_job = RouteJob src dest p, tt_delay = d, tt_repeats = True, tt_phase = Sleeping (tw_now w1 + Suc n * d)\<rparr>
    \<and> fires i (prompt_polls M custom panics i d n w1) = map (\<lambda>k. tw_now w1 + Suc k * d) [0..<n]
    \<and> delivered M (rt_table (tw_rt (prompt_polls M custom panics i d n w1))) dest = delivered M (rt_table (tw_rt w1)) dest @ replicate n (src, p)"
proof (induction n)
  case 0
  then show ?case using assms by (simp add: timer_poll_def set_phase_def)
next
  case (Suc n)
  let ?w = "prompt_polls M custom panics i d n w1"
  let ?u = "?w\<lparr>tw_now := tw_now ?w + d\<rparr>"
  have ih: "rt_custom (tw_rt ?u) = None" "accepts M (rt_table (tw_rt ?u)) dest" "tw_now ?u = tw_now w1 + Suc n * d"
    "hm_get (tw_timers ?u) i = Some \<lparr>tt_job = RouteJob src dest p, tt_delay = d, tt_repeats = True, tt_phase = Sleeping (tw_now w1 + Suc n * d)\<rparr>"
    "fires i ?u = map (\<lambda>k. tw_now w1 + Suc k * d) [0..<n]"
    "delivered M (rt_table (tw_rt ?u)) dest = delivered M (rt_table (tw_rt w1)) dest @ replicate n (src, p)" using Suc by simp_all
  obtain rt' where r: "runtime_route M custom src dest p (tw_rt ?u) = Some (Inr (), rt')" "rt_custom rt' = None" "accepts M (rt_table rt') dest"
    "delivered M (rt_table rt') dest = delivered M (rt_table (tw_rt ?u)) dest @ [(src, p)]"
    using local_route_accepted [OF assms(1) ih(1,2)] by metis
  have e: "prompt_polls M custom panics i d (Suc n) w1 =
      set_phase i (Sleeping (tw_now w1 + Suc n * d + d)) (?u\<lparr>tw_fired := tw_fired ?u @ [(i, tw_now ?u)], tw_rt := rt'\<rparr>)"
    using ih r(1) by (simp add: Let_def timer_poll_def timer_fire_def)
  show ?case unfolding e using r(2-4) ih by (simp add: set_phase_def fires_def algebra_simps replicate_append_same)
qed

lemma one_shot_prompt:
  assumes "mpsc_ok M" and "rt_custom (tw_rt w1) = None" and "accepts M (rt_table (tw_rt w1)) dest"
    and "hm_get (tw_timers w1) i = Some \<lparr>tt_job = RouteJob src dest p, tt_delay = d, tt_repeats = False, tt_phase = Unstarted\<rparr>" and "fires i w1 = []"
  shows "hm_get (tw_timers (prompt_polls M custom panics i d (Suc n) w1)) i = None
    \<and> fires i (prompt_polls M custom panics i d (Suc n) w1) = [tw_now w1 + d]
    \<and> delivered M (rt_table (tw_rt (prompt_polls M custom panics i d (Suc n) w1))) dest = delivered M (rt_table (tw_rt w1)) dest @ [(src, p)]"
proof (induction n)
  case 0
  let ?u = "(set_phase i (Sleeping (tw_now w1 + d)) w1)\<lparr>tw_now := tw_now w1 + d\<rparr>"
  obtain rt' where r: "runtime_route M custom src dest p (tw_rt w1) = Some (Inr (), rt')"
    "delivered M (rt_table rt') dest = delivered M (rt_table (tw_rt w1)) dest @ [(src, p)]"
    using local_route_accepted [OF assms(1-3)] by metis
  have e: "prompt_polls M custom panics i d (Suc 0) w1 = timer_cancel i (?u\<lparr>tw_fired := tw_fired ?u @ [(i, tw_now ?u)], tw_rt := rt'\<rparr>)"
    using assms(4) r(1) by (simp add: Let_def timer_poll_def timer_fire_def set_phase_def)
  show ?case unfolding e using r(2) assms(5) by (simp add: timer_cancel_def set_phase_def fires_def)
next
  case (Suc n)
  let ?w = "prompt_polls M custom panics i d (Suc n) w1"
  have "prompt_polls M custom panics i d (Suc (Suc n)) w1 = ?w\<lparr>tw_now := tw_now ?w + d\<rparr>"
    using Suc by (simp only: prompt_polls.simps(2) [of M custom panics i d "Suc n"] Let_def) (simp add: timer_poll_def)
  then show ?case using Suc by simp
qed

section \<open>Properties\<close>

text \<open>
  C22: timers keep to their schedule. Whatever happens after a one-shot timer or an interval was started, its \<open>k\<close>-th message is not sent before \<open>k\<close> delays have passed, a
  one-shot timer sends at most once, and after a cancellation nothing more is sent. A timer that is polled in time, with a reachable
  local destination, sends exactly when it is due: after every delay, or once. Delays are clamped to between a nanosecond and 30 years.
\<close>

theorem timer_keeps_schedule:
  assumes "(world_step M V custom panics)\<^sup>*\<^sup>* (timer_world_new rt0 now) w0"
    and "(if rep then send_interval else send_after) src dest p delay w0 = (i, w1)" and "(world_step M V custom panics)\<^sup>*\<^sup>* w1 w"
  shows "(\<forall>k < length (fires i w). tw_now w0 + Suc k * clamp_duration delay \<le> fires i w ! k) \<and> (rep \<or> length (fires i w) \<le> 1)
    \<and> (\<forall>w2. (world_step M V custom panics)\<^sup>*\<^sup>* (timer_cancel i w) w2 \<longrightarrow> fires i w2 = fires i w)
    \<and> (mpsc_ok M \<and> rt_custom (tw_rt w0) = None \<and> accepts M (rt_table (tw_rt w0)) dest \<longrightarrow>
         (let w2 = prompt_polls M custom panics i (clamp_duration delay) n w1; k = (if rep then n else min n 1) in
            fires i w2 = map (\<lambda>k. tw_now w0 + Suc k * clamp_duration delay) [0..<k]
            \<and> delivered M (rt_table (tw_rt w2)) dest = delivered M (rt_table (tw_rt w0)) dest @ replicate k (src, p)))
    \<and> 0 < clamp_duration delay \<and> clamp_duration delay \<le> MAX_TIMER \<and> (0 < delay \<and> delay \<le> MAX_TIMER \<longrightarrow> clamp_duration delay = delay)"
proof -
  let ?d = "clamp_duration delay"
  have sp: "timer_spawn (RouteJob src dest p) ?d rep w0 = (i, w1)" using assms(2) by (cases rep) (simp_all add: send_interval_def send_after_def)
  have wf: "timers_wf w0" using world_reach_wf [OF assms(1)] .
  note o1 = timer_spawn_schedule [OF wf sp]
  have i: "i < tw_next w1" using o1 by (simp add: on_schedule_def)
  have o: "on_schedule i (tw_now w0) ?d rep w" using world_reach_moves(2) [OF assms(3) i o1] .
  have "i < tw_next w" using o by (simp add: on_schedule_def)
  then have c: "fires i w2 = fires i w" if "(world_step M V custom panics)\<^sup>*\<^sup>* (timer_cancel i w) w2" for w2
    using world_reach_moves(3) [OF that, of i] by (simp add: timer_cancel_def)
  have t: "hm_get (tw_timers w1) i = Some \<lparr>tt_job = RouteJob src dest p, tt_delay = ?d, tt_repeats = rep, tt_phase = Unstarted\<rparr>" "fires i w1 = []"
    "tw_rt w1 = tw_rt w0" "tw_now w1 = tw_now w0" using sp wf by (auto simp: timer_spawn_def timers_wf_def)
  have p: "fires i (prompt_polls M custom panics i ?d n w1) = map (\<lambda>k. tw_now w0 + Suc k * ?d) [0..<if rep then n else min n 1]
      \<and> delivered M (rt_table (tw_rt (prompt_polls M custom panics i ?d n w1))) dest
        = delivered M (rt_table (tw_rt w0)) dest @ replicate (if rep then n else min n 1) (src, p)"
    if h: "mpsc_ok M" "rt_custom (tw_rt w1) = None" "accepts M (rt_table (tw_rt w1)) dest"
  proof (cases rep)
    case True
    then show ?thesis using interval_prompt [OF h, of i src p ?d custom panics n] t by simp
  next
    case False
    then show ?thesis using one_shot_prompt [OF h, of i src p ?d custom panics "n - 1"] t by (cases n) (simp_all add: timer_poll_def set_phase_def)
  qed
  have "0 < ?d" "?d \<le> MAX_TIMER" "0 < delay \<and> delay \<le> MAX_TIMER \<longrightarrow> ?d = delay"
    by (auto simp: clamp_duration_def MAX_TIMER_def from_secs_def)
  with o c p show ?thesis by (simp add: on_schedule_def Let_def t(3))
qed

section \<open>Exit hooks\<close>

abbreviation hooks_of :: "('c, 'd, 'v) timer_world \<Rightarrow> exit_hook set" where
  "hooks_of w \<equiv> set (tb_exit_hooks (rt_table (tw_rt w)))"

abbreviation lives :: "process_id \<Rightarrow> ('c, 'd, 'v) timer_world \<Rightarrow> bool" where
  "lives pid w \<equiv> alive (rt_table (tw_rt w)) pid"

lemma cleanup_hooks_kept: "tb_exit_hooks (cleaned M V pid t) = tb_exit_hooks t"
  by (simp add: cleanup_process_def release_monitors_other(5) cleanup_hooks Let_def split: option.split)

lemma world_exit_rt: "tw_rt (world_exit M V pid w) = (tw_rt w)\<lparr>rt_table := cleaned M V pid (rt_table (tw_rt w))\<rparr>"
  by (simp add: world_exit_def process_exit_calls run_hooks_effect(1) cleanup_dead)

lemma world_exit_lives: "lives q (world_exit M V pid w) \<longleftrightarrow> q \<noteq> pid \<and> lives q w"
  by (cases "lives pid w") (auto simp: world_exit_rt cleanup_names_view(3) cleanup_dead)

text \<open>What a step leaves of the runtime when the router is the local one.\<close>

definition local_view :: "('c, exit_hook, 'd) runtime \<Rightarrow> ('c, exit_hook, 'd) runtime \<Rightarrow> bool" where
  "local_view rt rt' \<longleftrightarrow> rt_custom rt' = None \<and> set (tb_exit_hooks (rt_table rt)) \<subseteq> set (tb_exit_hooks (rt_table rt'))
     \<and> (\<forall>q. alive (rt_table rt) q \<longrightarrow> alive (rt_table rt') q)"

lemma route_local_view:
  assumes "runtime_route M custom src dest p rt = Some (r, rt')" and "rt_custom rt = None"
  shows "local_view rt rt'"
proof -
  let ?s = "table_send M dest (message_new_internal src p) (rt_table rt)"
  have "rt' = rt\<lparr>rt_table := snd ?s\<rparr>" using assms by (cases ?s) (simp add: runtime_route_def local_route_def)
  then show ?thesis using assms(2) by (simp add: local_view_def)
qed

lemma local_view_refl: "rt_custom rt = None \<Longrightarrow> local_view rt rt"
  by (simp add: local_view_def)

lemma timer_poll_local:
  assumes "rt_custom (tw_rt w) = None"
  shows "local_view (tw_rt w) (tw_rt (timer_poll M custom panics i w))"
proof -
  have "local_view (tw_rt w) (tw_rt (timer_fire M custom panics i due t w))" for due t
    using assms route_local_view [OF _ assms]
    by (auto simp: timer_fire_def set_phase_def timer_cancel_def local_view_refl Let_def split: timer_job.split option.split)
  then show ?thesis using assms
    by (auto simp: timer_poll_def set_phase_def local_view_refl split: option.split timer_phase.split)
qed

lemma world_step_local:
  assumes "world_step M V custom panics w w'" and "rt_custom (tw_rt w) = None"
  shows "local_view (tw_rt w) (tw_rt w') \<or> (\<exists>pid. w' = world_exit M V pid w)"
  using assms(1)
proof cases
  case (polls i)
  then show ?thesis using timer_poll_local [OF assms(2)] by simp
next
  case (routes src dest p r rt)
  then show ?thesis using route_local_view [OF routes(2) assms(2)] by simp
next
  case (invoked i)
  then show ?thesis using assms(2)
    by (auto simp: invocation_ends_def set_phase_def timer_cancel_def local_view_refl split: option.split timer_phase.split)
next
  case spawns
  then show ?thesis using assms(2)
    by (auto simp: local_view_def spawn_alive) (auto simp: spawn_def allocate_pid_def table_insert_def)
qed (use assms(2) in \<open>auto simp: local_view_def timer_spawn_def send_interval_owned_def add_exit_hook_def attach_scope_def attach_pg_scope_def timer_cancel_def
      alive_def Let_def\<close>)

lemma world_reach_local:
  assumes "(world_step M V custom panics)\<^sup>*\<^sup>* w w'" and "rt_custom (tw_rt w) = None"
  shows "rt_custom (tw_rt w') = None \<and> hooks_of w \<subseteq> hooks_of w'"
  using assms(1)
proof (induction rule: rtranclp_induct)
  case (step w1 w2)
  with world_step_local [OF step.hyps(2)] show ?case by (auto simp: local_view_def world_exit_rt cleanup_hooks_kept)
qed (simp add: assms(2))

lemma owned_timer_ends:
  assumes "(world_step M V custom panics)\<^sup>*\<^sup>* w1 w" and "rt_custom (tw_rt w1) = None" and "AbortHook owner i \<in> hooks_of w1" and "lives owner w1" and "i < tw_next w1"
  shows "lives owner w \<or> hm_get (tw_timers w) i = None"
  using assms(1)
proof (induction rule: rtranclp_induct)
  case (step u u')
  have u: "rt_custom (tw_rt u) = None" "AbortHook owner i \<in> hooks_of u" using world_reach_local [OF step.hyps(1) assms(2)] assms(3) by auto
  have "i < tw_next u" using world_reach_moves(1) [OF step.hyps(1) assms(5)] assms(5) by simp
  then have keep: "hm_get (tw_timers u') i = None" if "hm_get (tw_timers u) i = None"
    using world_reach_moves(3) [OF r_into_rtranclp [of "world_step M V custom panics", OF step.hyps(2)]] that by simp
  from world_step_local [OF step.hyps(2) u(1)] show ?case
  proof
    assume "local_view (tw_rt u) (tw_rt u')"
    then show ?thesis using step.IH keep by (auto simp: local_view_def)
  next
    assume "\<exists>pid. u' = world_exit M V pid u"
    then show ?thesis using step.IH keep u(2) by (auto simp: world_exit_lives)
  qed
qed (simp add: assms(4))

text \<open>
  C25: the exit of a process reaches its groups. Once a process group is attached to a runtime with a local router, then whatever happens, the exit of
  a live process removes it from the table and every occurrence of it from every group of the scope, and nothing else from any group.
\<close>

theorem exit_leaves_groups:
  assumes "rt_custom (tw_rt w0) = None" and "(world_step M V custom panics)\<^sup>*\<^sup>* (attach_scope s w0) w" and "lives pid w"
  shows "\<not> lives pid (world_exit M V pid w) \<and> (\<forall>q. q \<noteq> pid \<longrightarrow> lives q (world_exit M V pid w) = lives q w)
    \<and> scope_members s g (world_exit M V pid w) = filter (\<lambda>p. p \<noteq> pid) (scope_members s g w)
    \<and> (\<forall>s' g'. scope_members s' g' (world_exit M V pid w) \<in> {scope_members s' g' w, filter (\<lambda>p. p \<noteq> pid) (scope_members s' g' w)})"
proof -
  have "rt_custom (tw_rt (attach_scope s w0)) = None" "ScopeHook s \<in> hooks_of (attach_scope s w0)"
    using assms(1) by (simp_all add: attach_scope_def attach_pg_scope_def add_exit_hook_def)
  with world_reach_local [OF assms(2)] have h: "ScopeHook s \<in> hooks_of w" by auto
  have m: "scope_members s' g' (world_exit M V pid w) =
      (if ScopeHook s' \<in> hooks_of w then filter (\<lambda>p. p \<noteq> pid) (scope_members s' g' w) else scope_members s' g' w)" for s' g'
    using assms(3) run_hooks_effect(6) [where w = "w\<lparr>tw_rt := rt\<rparr>" for rt]
    by (simp add: world_exit_def process_exit_calls scope_members_def [of _ _ "w\<lparr>tw_rt := _\<rparr>"] flip: scope_members_def)
  then show ?thesis using h by (simp add: world_exit_lives)
qed

text \<open>
  An owned interval ends with its owner, if the owner was still alive when the interval was started: at any later time, if the owner is
  dead the timer has finished and sends nothing any more. An interval started for an owner that is already dead is never ended by it: the exit
  hook has nothing to run on, and the timer sends after every period.
\<close>

theorem owned_interval_lifetime:
  assumes "rt_custom (tw_rt w0) = None" and "send_interval_owned owner dest p interval w0 = (i, w1)" and "timers_wf w0"
  shows "(lives owner w0 \<longrightarrow> (\<forall>w w'. (world_step M V custom panics)\<^sup>*\<^sup>* w1 w \<and> \<not> lives owner w \<and> (world_step M V custom panics)\<^sup>*\<^sup>* w w' \<longrightarrow>
            is_finished i w \<and> fires i w' = fires i w))
    \<and> (\<not> lives owner w0 \<and> mpsc_ok M \<and> accepts M (rt_table (tw_rt w0)) dest \<longrightarrow>
         world_exit M V owner w1 = w1
         \<and> fires i (prompt_polls M custom panics i (clamp_duration interval) n w1) = map (\<lambda>k. tw_now w0 + Suc k * clamp_duration interval) [0..<n])"
proof -
  let ?t = "rt_table (tw_rt w0)"
  have i: "i = tw_next w0" and w1: "w1 = snd (timer_spawn (RouteJob owner dest p) (clamp_duration interval) True w0)\<lparr>tw_rt := (tw_rt w0)\<lparr>rt_table := add_exit_hook (AbortHook owner i) ?t\<rparr>\<rparr>"
    using assms(2) by (auto simp: send_interval_owned_def timer_spawn_def Let_def)
  have l: "rt_custom (tw_rt w1) = None" "AbortHook owner i \<in> hooks_of w1" "lives q w1 = lives q w0" "i < tw_next w1" for q
    using assms(1) by (simp_all add: w1 add_exit_hook_def alive_def timer_spawn_def i)
  have fin: "is_finished i w \<and> fires i w' = fires i w"
    if o: "lives owner w0" and s: "(world_step M V custom panics)\<^sup>*\<^sup>* w1 w" "\<not> lives owner w" "(world_step M V custom panics)\<^sup>*\<^sup>* w w'" for w w'
  proof -
    have n: "hm_get (tw_timers w) i = None" using owned_timer_ends [OF s(1) l(1,2)] l(3,4) o s(2) by simp
    have "i < tw_next w" using world_reach_moves(1) [OF s(1) l(4)] l(4) by simp
    from world_reach_moves(3) [OF s(3) this n] n show ?thesis by (simp add: is_finished_def hm_contains_def)
  qed
  have "world_exit M V owner w1 = w1" if "\<not> lives owner w0"
    using that l(3) by (simp add: world_exit_def process_exit_calls)
  moreover have "fires i (prompt_polls M custom panics i (clamp_duration interval) n w1) = map (\<lambda>k. tw_now w0 + Suc k * clamp_duration interval) [0..<n]"
    if h: "mpsc_ok M" "accepts M ?t dest"
  proof -
    have a: "accepts M (rt_table (tw_rt w1)) dest" using h(2) by (simp add: w1 add_exit_hook_def accepts_def)
    have "fires i w1 = []" using assms(3) by (simp add: w1 timers_wf_def i timer_spawn_def)
    with interval_prompt [OF h(1) l(1) a, of i owner p "clamp_duration interval" custom panics n]
    show ?thesis by (simp add: w1 timer_spawn_def i)
  qed
  ultimately show ?thesis using fin by blast
qed

section \<open>A concrete world\<close>

definition sample_timer_world :: "(wire_value message chan, unit, wire_value) timer_world" where
  "sample_timer_world = timer_world_new (snd (spawn list_mpsc (snd (spawn list_mpsc (runtime_new 1))))) 100"

lemma sample_timer_eval:
  "rt_custom (tw_rt sample_timer_world) = None" "tw_now sample_timer_world = 100" "clamp_duration 5 = 5" "tw_next sample_timer_world = 0"
  "accepts list_mpsc (rt_table (tw_rt sample_timer_world)) (process_id_new 1 2)"
  "lives (process_id_new 1 1) sample_timer_world" "\<not> lives (process_id_new 1 9) sample_timer_world"
  by (simp_all add: sample_timer_world_def timer_world_new_def spawn_def allocate_pid_def table_insert_def runtime_new_def table_new_def
      process_id_new_def accepts_def alive_def mailbox_unbounded_def list_mpsc_def clamp_duration_def MAX_TIMER_def from_secs_def hm_contains_def)

lemma sample_timer_reach: "\<exists>rt now. sample_timer_world = timer_world_new rt now"
  unfolding sample_timer_world_def by blast

theorem timer_keeps_schedule_witness:
  "fires 0 (prompt_polls list_mpsc (\<lambda>_ _ _ _. None) (\<lambda>_. False) 0 5 2
     (snd (send_interval (process_id_new 1 1) (process_id_new 1 2) WNil 5 sample_timer_world))) = [105, 110]"
proof -
  let ?w1 = "snd (send_interval (process_id_new 1 1) (process_id_new 1 2) WNil 5 sample_timer_world)"
  obtain rt now where w0: "(world_step list_mpsc wire (\<lambda>_ _ _ _. None) (\<lambda>_. False))\<^sup>*\<^sup>* (timer_world_new rt now) sample_timer_world"
    using sample_timer_reach rtranclp.rtrancl_refl by metis
  have "(if True then send_interval else send_after) (process_id_new 1 1) (process_id_new 1 2) WNil 5 sample_timer_world = (0, ?w1)"
    by (simp add: send_interval_def timer_spawn_def sample_timer_eval)
  from timer_keeps_schedule [OF w0 this rtranclp.rtrancl_refl, where n = 2]
  show ?thesis by (simp add: sample_timer_eval Let_def upt_rec)
qed

theorem exit_leaves_groups_witness:
  "scope_members 3 ''g'' (world_exit list_mpsc wire (process_id_new 1 1)
      ((attach_scope 3 sample_timer_world)\<lparr>tw_scopes := [(3, [(''g'', [process_id_new 1 1, process_id_new 1 2])])]\<rparr>)) = [process_id_new 1 2]"
proof -
  let ?w = "(attach_scope 3 sample_timer_world)\<lparr>tw_scopes := [(3, [(''g'', [process_id_new 1 1, process_id_new 1 2])])]\<rparr>"
  have "world_step list_mpsc wire (\<lambda>_ _ _ _. None) (\<lambda>_. False) (attach_scope 3 sample_timer_world) ?w" by (rule scopes)
  then have s: "(world_step list_mpsc wire (\<lambda>_ _ _ _. None) (\<lambda>_. False))\<^sup>*\<^sup>* (attach_scope 3 sample_timer_world) ?w" by (rule r_into_rtranclp)
  have "lives (process_id_new 1 1) ?w" using sample_timer_eval(6) by (simp add: attach_scope_def attach_pg_scope_def add_exit_hook_def alive_def)
  from exit_leaves_groups [OF sample_timer_eval(1) s this, of "''g''"]
  have "scope_members 3 ''g'' (world_exit list_mpsc wire (process_id_new 1 1) ?w) = filter (\<lambda>p. p \<noteq> process_id_new 1 1) (scope_members 3 ''g'' ?w)" by blast
  also have "\<dots> = [process_id_new 1 2]" by (simp add: scope_members_def hm_get_def get_members_def process_id_new_def)
  finally show ?thesis .
qed

theorem owned_interval_lifetime_witness:
  "is_finished 0 (world_exit list_mpsc wire (process_id_new 1 1)
     (snd (send_interval_owned (process_id_new 1 1) (process_id_new 1 2) WNil 5 sample_timer_world)))"
proof -
  let ?w1 = "snd (send_interval_owned (process_id_new 1 1) (process_id_new 1 2) WNil 5 sample_timer_world)"
  let ?w = "world_exit list_mpsc wire (process_id_new 1 1) ?w1"
  have "send_interval_owned (process_id_new 1 1) (process_id_new 1 2) WNil 5 sample_timer_world = (0, ?w1)"
    by (simp add: send_interval_owned_def timer_spawn_def sample_timer_eval)
  moreover have "timers_wf sample_timer_world" using sample_timer_reach world_reach_wf [OF rtranclp.rtrancl_refl] by metis
  moreover have "(world_step list_mpsc wire (\<lambda>_ _ _ _. None) (\<lambda>_. False))\<^sup>*\<^sup>* ?w1 ?w" by (rule r_into_rtranclp, rule exits)
  moreover have "\<not> lives (process_id_new 1 1) ?w" by (simp add: world_exit_lives)
  ultimately show ?thesis using owned_interval_lifetime [OF sample_timer_eval(1), of "process_id_new 1 1" "process_id_new 1 2" WNil 5 0 ?w1 list_mpsc wire "\<lambda>_ _ _ _. None" "\<lambda>_. False"]
      sample_timer_eval(6) by blast
qed

end
