(* ===== verification/Task.thy ===== *)
theory Task
  imports Runtime Std
begin

text \<open>
  Tasks (\<^verbatim>\<open>crates/rebar-core/src/task\<close>): a process around an inner task whose result goes through a oneshot channel, the handle that waits for
  it, and \<open>async_map\<close>, which runs a closure on every element of a collection with bounded parallelism. A wait is its
  outcome: \<open>tokio::time::timeout\<close> reports a timeout only when what it waits for is not there yet. The theory shows that a result is
  handed out once and survives timeouts, and what \<open>async_map\<close> returns and when.
\<close>

section \<open>Types\<close>

datatype task_error = TaskTimeout | TaskProcessDead

record task_handle =
  tk_pid :: process_id
  tk_has_rx :: bool
  tk_has_abort :: bool

record stream_opts =
  so_max_concurrency :: usize
  so_ordered :: bool
  so_timeout :: duration

text \<open>\<open>cores\<close>: what \<open>available_parallelism\<close> returns.\<close>

definition stream_opts_default :: "usize option \<Rightarrow> stream_opts" where
  "stream_opts_default cores =
     \<lparr>so_max_concurrency = (case cores of Some n \<Rightarrow> n | None \<Rightarrow> 4), so_ordered = True, so_timeout = from_secs 5\<rparr>"

text \<open>
  The inner task: it runs, it has sent its result, or its sender was dropped by a panic or an abort. \<open>inner\<close> maps the processes of tasks to their inner tasks.
\<close>

datatype 't inner_task = InnerRunning | InnerDone 't | InnerDropped

record ('c, 'h, 'd, 't) task_world =
  kw_rt :: "('c, 'h, 'd) runtime"
  kw_inner :: "(process_id, 't inner_task) hashmap"

section \<open>A task and its handle\<close>

definition async_task :: "('v message, 'c) mpsc \<Rightarrow> ('c, 'h, 'd, 't) task_world \<Rightarrow> task_handle \<times> ('c, 'h, 'd, 't) task_world" where
  "async_task M w =
     (let (pid, rt) = spawn M (kw_rt w) in
      (\<lparr>tk_pid = pid, tk_has_rx = True, tk_has_abort = True\<rparr>, w\<lparr>kw_rt := rt, kw_inner := hm_insert pid InnerRunning (kw_inner w)\<rparr>))"

definition start_task :: "('v message, 'c) mpsc \<Rightarrow> ('c, 'h, 'd, 't) task_world \<Rightarrow> process_id \<times> ('c, 'h, 'd, 't) task_world" where
  "start_task M w = (let (pid, rt) = spawn M (kw_rt w) in (pid, w\<lparr>kw_rt := rt\<rparr>))"

text \<open>The result receiver as the handle sees it when a wait ends.\<close>

definition result_of :: "task_handle \<Rightarrow> ('c, 'h, 'd, 't) task_world \<Rightarrow> 't inner_task" where
  "result_of h w = (case hm_get (kw_inner w) (tk_pid h) of Some x \<Rightarrow> x | None \<Rightarrow> InnerDropped)"

definition await_result :: "task_handle \<Rightarrow> ('c, 'h, 'd, 't) task_world \<Rightarrow> (task_error + 't) \<times> task_handle" where
  "await_result h w =
     (if \<not> tk_has_rx h then (Inl TaskProcessDead, h)
      else
        (case result_of h w of
           InnerDone v \<Rightarrow> (Inr v, h\<lparr>tk_has_rx := False\<rparr>)
         | InnerDropped \<Rightarrow> (Inl TaskProcessDead, h\<lparr>tk_has_rx := False\<rparr>)
         | InnerRunning \<Rightarrow> (Inl TaskTimeout, h)))"

definition yield_result :: "task_handle \<Rightarrow> ('c, 'h, 'd, 't) task_world \<Rightarrow> (task_error + 't) option \<times> task_handle" where
  "yield_result h w =
     (if \<not> tk_has_rx h then (None, h)
      else
        (case result_of h w of
           InnerDone v \<Rightarrow> (Some (Inr v), h\<lparr>tk_has_rx := False\<rparr>)
         | InnerDropped \<Rightarrow> (Some (Inl TaskProcessDead), h\<lparr>tk_has_rx := False\<rparr>)
         | InnerRunning \<Rightarrow> (None, h)))"

text \<open>\<open>AbortHandle::abort\<close>: the inner task is dropped if it still runs.\<close>

definition abort_inner :: "process_id \<Rightarrow> ('c, 'h, 'd, 't) task_world \<Rightarrow> ('c, 'h, 'd, 't) task_world" where
  "abort_inner pid w = w\<lparr>kw_inner := hm_modify pid (\<lambda>x. if x = InnerRunning then InnerDropped else x) (kw_inner w)\<rparr>"

definition task_shutdown :: "task_handle \<Rightarrow> ('c, 'h, 'd, 't) task_world \<Rightarrow> 't option \<times> ('c, 'h, 'd, 't) task_world" where
  "task_shutdown h w =
     (let aborted = (if tk_has_abort h then abort_inner (tk_pid h) w else w) in
      if tk_has_rx h
      then
        (case result_of h w of
           InnerDone v \<Rightarrow> (Some v, w)
         | InnerDropped \<Rightarrow> (None, w)
         | InnerRunning \<Rightarrow> (None, aborted))
      else (None, aborted))"

text \<open>The process of a task ends when its inner task has; the drop guard then cleans up.\<close>

definition task_process_ends ::
  "('v message, 'c) mpsc \<Rightarrow> 'v rmpv \<Rightarrow> process_id \<Rightarrow> ('c, 'h, 'd, 't) task_world \<Rightarrow> (('h \<times> process_id) list \<times> ('c, 'h, 'd, 't) task_world) option" where
  "task_process_ends M V pid w =
     (if hm_get (kw_inner w) pid \<in> {None, Some InnerRunning} then None
      else (case process_exit M V pid (kw_rt w) of (calls, rt) \<Rightarrow> Some (calls, w\<lparr>kw_rt := rt\<rparr>)))"

section \<open>Mapping over a collection\<close>

text \<open>
  A run of \<open>async_map\<close>: the elements not yet spawned, with their indexes; the permits of the semaphore that are free; the tasks
  that run; the outcomes sent so far. A task ends with the value of the closure, with a timeout, or, when the
  closure panics, without sending anything.
\<close>

record ('i, 't) map_run =
  mr_items :: "(usize \<times> 'i) list"
  mr_permits :: usize
  mr_running :: "(usize \<times> 'i) list"
  mr_outcomes :: "(usize, (task_error + 't) option) hashmap"

definition map_run_new :: "stream_opts \<Rightarrow> 'i list \<Rightarrow> ('i, 't) map_run" where
  "map_run_new opts items = \<lparr>mr_items = List.enumerate 0 items, mr_permits = so_max_concurrency opts, mr_running = [], mr_outcomes = hm_empty\<rparr>"

text \<open>The loop over the elements: a permit, then a process for the next element.\<close>

definition map_spawn :: "('i, 't) map_run \<Rightarrow> ('i, 't) map_run option" where
  "map_spawn r =
     (case mr_items r of
        [] \<Rightarrow> None
      | e # es \<Rightarrow> if mr_permits r = 0 then None
                  else Some (r\<lparr>mr_items := es, mr_permits := mr_permits r - 1, mr_running := mr_running r @ [e]\<rparr>))"

text \<open>The end of the process of an element: its permit is dropped also when it panics.\<close>

definition map_task_ends :: "usize \<Rightarrow> (task_error + 't) option \<Rightarrow> ('i, 't) map_run \<Rightarrow> ('i, 't) map_run" where
  "map_task_ends idx sent r =
     r\<lparr>mr_running := filter (\<lambda>e. fst e \<noteq> idx) (mr_running r), mr_permits := mr_permits r + 1,
       mr_outcomes := hm_insert idx sent (mr_outcomes r)\<rparr>"

text \<open>The collection of the results, once every channel has delivered or is closed.\<close>

definition collect_one :: "('i, 't) map_run \<Rightarrow> usize \<Rightarrow> task_error + 't" where
  "collect_one r idx =
     (case hm_get (mr_outcomes r) idx of
        Some (Some outcome) \<Rightarrow> outcome
      | _ \<Rightarrow> Inl TaskProcessDead)"

definition map_collect :: "stream_opts \<Rightarrow> usize \<Rightarrow> ('i, 't) map_run \<Rightarrow> (task_error + 't) list option" where
  "map_collect opts n r =
     (if mr_items r \<noteq> [] \<or> mr_running r \<noteq> [] then None
      else
        let results = map (\<lambda>idx. (idx, collect_one r idx)) [0..<n] in
        Some (map snd (if so_ordered opts then sort_key fst results else results)))"

text \<open>\<open>outcome\<close>: how the process of an element ends, \<open>None\<close> for a panic.\<close>

inductive map_step :: "('i \<Rightarrow> (task_error + 't) option) \<Rightarrow> ('i, 't) map_run \<Rightarrow> ('i, 't) map_run \<Rightarrow> bool" for outcome where
  spawns_next: "map_spawn r = Some r' \<Longrightarrow> map_step outcome r r'"
| task_ends: "(idx, x) \<in> set (mr_running r) \<Longrightarrow> map_step outcome r (map_task_ends idx (outcome x) r)"

section \<open>The results of a task\<close>

text \<open>A handle in use: the handle, the world and what its waits have returned. The inner task may end at any time.\<close>

inductive task_step ::
  "task_handle \<times> ('c, 'h, 'd, 't) task_world \<times> (task_error + 't) list \<Rightarrow> task_handle \<times> ('c, 'h, 'd, 't) task_world \<times> (task_error + 't) list \<Rightarrow> bool"
where
  inner_ends: "hm_get (kw_inner w) pid = Some InnerRunning \<Longrightarrow> fin \<noteq> InnerRunning \<Longrightarrow>
     task_step (h, w, got) (h, w\<lparr>kw_inner := hm_insert pid fin (kw_inner w)\<rparr>, got)"
| awaits: "await_result h w = (r, h') \<Longrightarrow> task_step (h, w, got) (h', w, got @ [r])"
| yields: "yield_result h w = (r, h') \<Longrightarrow> task_step (h, w, got) (h', w, got @ (case r of None \<Rightarrow> [] | Some r \<Rightarrow> [r]))"

definition values_of :: "(task_error + 't) list \<Rightarrow> 't list" where
  "values_of got = concat (map (\<lambda>r. case r of Inr v \<Rightarrow> [v] | Inl _ \<Rightarrow> []) got)"

lemma values_of_simps [simp]: "values_of [] = []" "values_of (xs @ ys) = values_of xs @ values_of ys"
  "values_of [Inr v] = [v]" "values_of [Inl e] = []"
  by (simp_all add: values_of_def)

fun task_ok :: "process_id \<Rightarrow> task_handle \<times> ('c, 'h, 'd, 't) task_world \<times> (task_error + 't) list \<Rightarrow> bool" where
  "task_ok pid (h, w, got) \<longleftrightarrow> tk_pid h = pid \<and> tk_has_abort h \<and> hm_get (kw_inner w) pid \<noteq> None
     \<and> (result_of h w = InnerRunning \<longrightarrow> tk_has_rx h)
     \<and> values_of got = (if tk_has_rx h then [] else case result_of h w of InnerDone v \<Rightarrow> [v] | _ \<Rightarrow> [])"

lemma task_step_ok: "task_step s s' \<Longrightarrow> task_ok pid s \<Longrightarrow> task_ok pid s'"
  by (induction rule: task_step.induct)
     (auto simp: await_result_def yield_result_def result_of_def split: inner_task.splits if_splits option.splits)

interpretation tk: transition_invariant task_step "task_ok pid" for pid
  by unfold_locales (rule task_step_ok)

text \<open>
  The result of a task is handed out once and is not lost. However the waits on a handle, with whatever timeouts, are interleaved with the end of the
  task: the values the waits return are none or the one value the task produced; as long as it was not handed out, the next
  wait after the task is done returns it; a wait that timed out changes nothing. A shutdown returns the value exactly when it is there and was not
  handed out, and afterwards the task does not run any more, so that its process can end.
\<close>

theorem task_result_once:
  assumes "async_task M w0 = (h0, w1)" and "task_step\<^sup>*\<^sup>* (h0, w1, []) (h, w, got)"
  shows "(\<forall>v. result_of h w = InnerDone v \<longrightarrow> values_of got @ (if tk_has_rx h then [v] else []) = [v]
            \<and> (tk_has_rx h \<longrightarrow> fst (await_result h w) = Inr v \<and> fst (yield_result h w) = Some (Inr v)))
    \<and> ((\<forall>v. result_of h w \<noteq> InnerDone v) \<longrightarrow> values_of got = [])
    \<and> (fst (await_result h w) = Inl TaskTimeout \<longrightarrow> snd (await_result h w) = h \<and> result_of h w = InnerRunning)
    \<and> (\<forall>r w'. task_shutdown h w = (r, w') \<longrightarrow>
         r = (case result_of h w of InnerDone v \<Rightarrow> if tk_has_rx h then Some v else None | _ \<Rightarrow> None)
         \<and> result_of h w' \<noteq> InnerRunning \<and> task_process_ends M V (tk_pid h) w' \<noteq> None)"
proof -
  have "task_ok (tk_pid h0) (h0, w1, [])" using assms(1) by (auto simp: async_task_def result_of_def case_prod_beta Let_def)
  from tk.reach_inv [OF assms(2) this] have ok: "tk_has_abort h" "hm_get (kw_inner w) (tk_pid h) \<noteq> None"
    "result_of h w = InnerRunning \<longrightarrow> tk_has_rx h" "values_of got = (if tk_has_rx h then [] else case result_of h w of InnerDone v \<Rightarrow> [v] | _ \<Rightarrow> [])" by auto
  have s: "r = (case result_of h w of InnerDone v \<Rightarrow> if tk_has_rx h then Some v else None | _ \<Rightarrow> None)
      \<and> result_of h w' \<noteq> InnerRunning \<and> task_process_ends M V (tk_pid h) w' \<noteq> None" if "task_shutdown h w = (r, w')" for r w'
    using that ok by (auto simp: task_shutdown_def abort_inner_def result_of_def task_process_ends_def case_prod_beta Let_def
        split: inner_task.splits if_splits option.splits)
  show ?thesis using ok s by (auto simp: await_result_def yield_result_def split: inner_task.splits if_splits)
qed

section \<open>The results of a map\<close>

definition map_ok :: "('i \<Rightarrow> (task_error + 't) option) \<Rightarrow> usize \<Rightarrow> 'i list \<Rightarrow> ('i, 't) map_run \<Rightarrow> bool" where
  "map_ok outcome c items r \<longleftrightarrow> mr_permits r + length (mr_running r) = c \<and> distinct (map fst (mr_running r))
     \<and> (\<exists>k \<le> length items. mr_items r = drop k (List.enumerate 0 items) \<and> (\<forall>(idx, x) \<in> set (mr_running r). idx < k \<and> x = items ! idx)
          \<and> (\<forall>idx. hm_get (mr_outcomes r) idx = (if idx < k \<and> idx \<notin> fst ` set (mr_running r) then Some (outcome (items ! idx)) else None)))"

lemma length_filter_distinct_fst:
  "distinct (map fst es) \<Longrightarrow> (i, x) \<in> set es \<Longrightarrow> Suc (length (filter (\<lambda>e. fst e \<noteq> i) es)) = length es"
proof (induction es)
  case (Cons e es)
  show ?case
  proof (cases "fst e = i")
    case True
    then have "i \<notin> fst ` set es" using Cons.prems(1) by auto
    then have "\<forall>e' \<in> set es. fst e' \<noteq> i" by (metis imageI)
    then show ?thesis using True by (simp add: filter_id_conv [THEN iffD2])
  next
    case False
    then show ?thesis using Cons by auto
  qed
qed simp

lemma map_step_ok:
  assumes "map_step outcome r r'" and "map_ok outcome c items r"
  shows "map_ok outcome c items r'" and "2 * length (mr_items r') + length (mr_running r') < 2 * length (mr_items r) + length (mr_running r)"
proof -
  from assms(2) obtain k where ok: "mr_permits r + length (mr_running r) = c" "distinct (map fst (mr_running r))" "k \<le> length items"
    "mr_items r = drop k (List.enumerate 0 items)" "\<And>idx x. (idx, x) \<in> set (mr_running r) \<Longrightarrow> idx < k \<and> x = items ! idx"
    "\<And>idx. hm_get (mr_outcomes r) idx = (if idx < k \<and> idx \<notin> fst ` set (mr_running r) then Some (outcome (items ! idx)) else None)"
    unfolding map_ok_def by fast
  from assms(1) have "map_ok outcome c items r' \<and> 2 * length (mr_items r') + length (mr_running r') < 2 * length (mr_items r) + length (mr_running r)"
  proof cases
    case spawns_next
    then obtain e es where s: "mr_items r = e # es" "mr_permits r \<noteq> 0" "r' = r\<lparr>mr_items := es, mr_permits := mr_permits r - 1, mr_running := mr_running r @ [e]\<rparr>"
      by (auto simp: map_spawn_def split: list.splits if_splits)
    have k: "k < length items" using s(1) ok(4) by (cases "k < length items") auto
    then have e: "e = (k, items ! k)" "es = drop (Suc k) (List.enumerate 0 items)"
      using s(1) ok(4) Cons_nth_drop_Suc [of k "List.enumerate 0 items"] by (auto simp: nth_enumerate_eq)
    have "k \<notin> fst ` set (mr_running r)" using ok(5) by force
    then show ?thesis using s ok(1,2) e k ok(5,6) by (auto simp: map_ok_def less_Suc_eq intro!: exI [of _ "Suc k"])
  next
    case (task_ends idx x)
    have l: "Suc (length (mr_running r')) = length (mr_running r)"
      using length_filter_distinct_fst [OF ok(2) task_ends(2)] task_ends(1) by (simp add: map_task_ends_def)
    have "\<forall>(j, y) \<in> set (mr_running r'). j < k \<and> y = items ! j" using ok(5) by (auto simp: task_ends(1) map_task_ends_def)
    moreover have "hm_get (mr_outcomes r') j = (if j < k \<and> j \<notin> fst ` set (mr_running r') then Some (outcome (items ! j)) else None)" for j
      using ok(5) [OF task_ends(2)] ok(6) [of j] by (auto simp: task_ends(1) map_task_ends_def image_iff)
    ultimately show ?thesis using l ok(1-4) by (auto simp: map_ok_def task_ends(1) map_task_ends_def distinct_map_filter intro!: exI [of _ k])
  qed
  then show "map_ok outcome c items r'" "2 * length (mr_items r') + length (mr_running r') < 2 * length (mr_items r) + length (mr_running r)" by auto
qed

interpretation mp: transition_invariant "map_step outcome" "map_ok outcome c items" for outcome c items
  by unfold_locales (rule map_step_ok)

text \<open>With a permit, a run takes a step as long as an element waits or a task runs.\<close>

lemma map_progress:
  assumes "map_ok outcome c items r" and "0 < c" and "0 < 2 * length (mr_items r) + length (mr_running r)"
  shows "\<exists>r'. map_step outcome r r'"
proof (cases "mr_running r")
  case Nil
  with assms obtain e es where "mr_items r = e # es" "mr_permits r \<noteq> 0" by (cases "mr_items r") (auto simp: map_ok_def)
  then show ?thesis using spawns_next [of r] by (auto simp: map_spawn_def)
next
  case (Cons e es)
  then show ?thesis using task_ends [of "fst e" "snd e" r] by auto
qed

interpretation mw: working_system "map_step outcome" "\<lambda>r. map_ok outcome c items r \<and> 0 < c" "\<lambda>r. 2 * length (mr_items r) + length (mr_running r)"
  for outcome c items
  by unfold_locales (blast dest: map_step_ok, blast dest: map_step_ok, blast intro: map_progress)

lemma map_run_new_ok: "map_ok outcome (so_max_concurrency opts) items (map_run_new opts items)"
  by (auto simp: map_ok_def map_run_new_def intro!: exI [of _ 0])

lemma map_collect_exact:
  assumes "map_ok outcome c items r" and "mr_items r = []" and "mr_running r = []"
  shows "map_collect opts (length items) r = Some (map (\<lambda>x. case outcome x of Some o' \<Rightarrow> o' | None \<Rightarrow> Inl TaskProcessDead) items)"
proof -
  from assms(1) obtain k where k: "k \<le> length items" "mr_items r = drop k (List.enumerate 0 items)"
    "\<And>idx. hm_get (mr_outcomes r) idx = (if idx < k \<and> idx \<notin> fst ` set (mr_running r) then Some (outcome (items ! idx)) else None)"
    unfolding map_ok_def by fast
  have kn: "k = length items" using k(1,2) assms(2) by simp
  let ?g = "\<lambda>x. case outcome x of Some o' \<Rightarrow> o' | None \<Rightarrow> Inl TaskProcessDead"
  have "collect_one r idx = ?g (items ! idx)" if "idx < length items" for idx
    using that k(3) [of idx] assms(3) kn by (simp add: collect_one_def split: option.split)
  then have results: "map (\<lambda>idx. (idx, collect_one r idx)) [0..<length items] = map (\<lambda>idx. (idx, ?g (items ! idx))) [0..<length items]" by simp
  have "sorted (map fst (map (\<lambda>idx. (idx, ?g (items ! idx))) [0..<length items]))" by (simp add: comp_def)
  then have "sort_key fst (map (\<lambda>idx. (idx, ?g (items ! idx))) [0..<length items]) = map (\<lambda>idx. (idx, ?g (items ! idx))) [0..<length items]"
    by (rule sort_key_id_if_sorted)
  moreover have "map snd (map (\<lambda>idx. (idx, ?g (items ! idx))) [0..<length items]) = map ?g items"
    by (rule nth_equalityI) simp_all
  ultimately show ?thesis by (simp add: map_collect_def assms(2,3) results Let_def)
qed


section \<open>Concrete runs\<close>

definition sample_task_world :: "(wire_value message chan, nat, unit, nat) task_world" where
  "sample_task_world = \<lparr>kw_rt = runtime_new 1, kw_inner = hm_empty\<rparr>"

text \<open>A wait that times out, the end of the task, and the wait that gets its value.\<close>

theorem task_result_once_witness:
  "\<exists>(h :: task_handle) (w :: (wire_value message chan, nat, unit, nat) task_world). result_of h w = InnerDone 7 \<and> fst (await_result h w) = Inr 7"
proof -
  obtain h w where a: "async_task list_mpsc sample_task_world = (h, w)" by (cases "async_task list_mpsc sample_task_world")
  then have i: "hm_get (kw_inner w) (tk_pid h) = Some InnerRunning" "tk_has_rx h" by (auto simp: async_task_def case_prod_beta Let_def)
  let ?w = "w\<lparr>kw_inner := hm_insert (tk_pid h) (InnerDone 7) (kw_inner w)\<rparr>"
  have "await_result h w = (Inl TaskTimeout, h)" using i by (simp add: await_result_def result_of_def)
  then have "task_step (h, w, []) (h, w, [] @ [Inl TaskTimeout])" by (rule awaits)
  moreover have "task_step (h, w, [] @ [Inl TaskTimeout]) (h, ?w, [] @ [Inl TaskTimeout])" by (rule inner_ends) (use i in simp_all)
  ultimately have s: "task_step\<^sup>*\<^sup>* (h, w, []) (h, ?w, [] @ [Inl TaskTimeout])" by (meson converse_rtranclp_into_rtranclp rtranclp.rtrancl_refl)
  have d: "result_of h ?w = InnerDone 7" by (simp add: result_of_def)
  then have "fst (await_result h ?w) = Inr 7" using task_result_once [OF a s] i(2) by blast
  then show ?thesis using d by blast
qed

lemma map_step_finished: "mr_items r = [] \<Longrightarrow> mr_running r = [] \<Longrightarrow> \<not> map_step outcome r r'"
  by (auto simp: map_spawn_def elim!: map_step.cases)


end
