(* ===== verification/Agent.thy ===== *)
theory Agent
  imports Prelude
begin

text \<open>
  Agents (\<^verbatim>\<open>crates/rebar-core/src/agent\<close>): a process that owns a value of some type and applies the closures its clients send it. The value, and the
  results of closures, travel as \<open>Box<dyn Any>\<close>: a value with the identity of its type, which every boxed closure checks before it
  applies. The theory shows that an agent is its closures applied one after the other, that a closure of the wrong type harms nobody but its sender,
  and what ends an agent.
\<close>

section \<open>Types\<close>

datatype agent_error = AgentTimeout | AgentDead | TypeMismatch

text \<open>\<open>dyn Any\<close>: the identity of the type and the value.\<close>

datatype 'a any = Any (type_id: nat) (any_value: 'a)

type_synonym 'a op_result = "agent_error + 'a any"

text \<open>A message with its closure and the token of its reply channel; \<open>None\<close> is a panic of the closure.\<close>

datatype 'a agent_msg =
    AgentGet "'a any \<Rightarrow> 'a op_result option" nat
  | AgentUpdate "'a any \<Rightarrow> ((agent_error + unit) \<times> 'a any) option" nat
  | AgentGetAndUpdate "'a any \<Rightarrow> ('a op_result \<times> 'a any) option" nat
  | AgentCast "'a any \<Rightarrow> ((agent_error + unit) \<times> 'a any) option"
  | AgentStop nat

datatype 'a agent_reply = OpReply "'a op_result" | UpdateReply "agent_error + unit" | StopReply

text \<open>
  The loop of an agent: its state, the messages in its channel, the number of stray messages in the mailbox of its process, and what it has answered. \<open>killed\<close>: the
  table dropped the sender of the mailbox. \<open>dropped\<close>: no \<open>AgentRef\<close> is left. Once the loop has ended its channel is gone.
\<close>

record 'a agent =
  ag_state :: "'a any"
  ag_msgs :: "'a agent_msg list"
  ag_stray :: nat
  ag_killed :: bool
  ag_dropped :: bool
  ag_running :: bool
  ag_replies :: "(nat \<times> 'a agent_reply) list"

section \<open>Boxed closures\<close>

definition boxed_get :: "nat \<Rightarrow> nat \<Rightarrow> ('a \<Rightarrow> 'a option) \<Rightarrow> 'a any \<Rightarrow> 'a op_result option" where
  "boxed_get S T f any_state =
     (if type_id any_state \<noteq> S then Some (Inl TypeMismatch)
      else map_option (\<lambda>r. Inr (Any T r)) (f (any_value any_state)))"

definition boxed_update :: "nat \<Rightarrow> ('a \<Rightarrow> 'a option) \<Rightarrow> 'a any \<Rightarrow> ((agent_error + unit) \<times> 'a any) option" where
  "boxed_update S f any_state =
     (if type_id any_state \<noteq> S then Some (Inl TypeMismatch, any_state)
      else map_option (\<lambda>v. (Inr (), Any S v)) (f (any_value any_state)))"

definition boxed_get_and_update :: "nat \<Rightarrow> nat \<Rightarrow> ('a \<Rightarrow> ('a \<times> 'a) option) \<Rightarrow> 'a any \<Rightarrow> ('a op_result \<times> 'a any) option" where
  "boxed_get_and_update S T f any_state =
     (if type_id any_state \<noteq> S then Some (Inl TypeMismatch, any_state)
      else map_option (\<lambda>(r, v). (Inr (Any T r), Any S v)) (f (any_value any_state)))"

section \<open>The loop\<close>

definition start_agent :: "nat \<Rightarrow> 'a \<Rightarrow> 'a agent" where
  "start_agent S v =
     \<lparr>ag_state = Any S v, ag_msgs = [], ag_stray = 0, ag_killed = False, ag_dropped = False, ag_running = True, ag_replies = []\<rparr>"

definition agent_ends :: "'a agent \<Rightarrow> 'a agent" where
  "agent_ends ag = ag\<lparr>ag_running := False, ag_msgs := []\<rparr>"

definition agent_answer :: "nat \<Rightarrow> 'a agent_reply \<Rightarrow> 'a agent \<Rightarrow> 'a agent" where
  "agent_answer tx r ag = ag\<lparr>ag_replies := ag_replies ag @ [(tx, r)]\<rparr>"

fun handle_agent_msg :: "'a agent_msg \<Rightarrow> 'a agent \<Rightarrow> 'a agent" where
  "handle_agent_msg (AgentGet f tx) ag =
     (case f (ag_state ag) of None \<Rightarrow> agent_ends ag | Some r \<Rightarrow> agent_answer tx (OpReply r) ag)"
| "handle_agent_msg (AgentUpdate f tx) ag =
     (case f (ag_state ag) of None \<Rightarrow> agent_ends ag | Some (r, s) \<Rightarrow> agent_answer tx (UpdateReply r) (ag\<lparr>ag_state := s\<rparr>))"
| "handle_agent_msg (AgentGetAndUpdate f tx) ag =
     (case f (ag_state ag) of None \<Rightarrow> agent_ends ag | Some (r, s) \<Rightarrow> agent_answer tx (OpReply r) (ag\<lparr>ag_state := s\<rparr>))"
| "handle_agent_msg (AgentCast f) ag =
     (case f (ag_state ag) of None \<Rightarrow> agent_ends ag | Some (r, s) \<Rightarrow> ag\<lparr>ag_state := s\<rparr>)"
| "handle_agent_msg (AgentStop tx) ag = agent_ends (agent_answer tx StopReply ag)"

text \<open>One turn of the loop, \<open>None\<close> when it waits: the mailbox first, and \<open>recv\<close> yields what is left in a closed mailbox before it reports the end.\<close>

definition agent_round :: "'a agent \<Rightarrow> 'a agent option" where
  "agent_round ag =
     (if \<not> ag_running ag then None
      else if ag_stray ag > 0 then Some (ag\<lparr>ag_stray := ag_stray ag - 1\<rparr>)
      else if ag_killed ag then Some (agent_ends ag)
      else
        (case ag_msgs ag of
           m # ms \<Rightarrow> Some (handle_agent_msg m (ag\<lparr>ag_msgs := ms\<rparr>))
         | [] \<Rightarrow> if ag_dropped ag then Some (agent_ends ag) else None))"

section \<open>The handle\<close>

definition AGENT_CAPACITY :: nat where
  "AGENT_CAPACITY = 64"

text \<open>A request waits for room in the channel and fails when the loop has ended; a cast does not wait.\<close>

definition agent_request :: "'a agent_msg \<Rightarrow> 'a agent \<Rightarrow> (agent_error + unit) \<times> 'a agent" where
  "agent_request m ag = (if ag_running ag then (Inr (), ag\<lparr>ag_msgs := ag_msgs ag @ [m]\<rparr>) else (Inl AgentDead, ag))"

definition agent_cast :: "nat \<Rightarrow> ('a \<Rightarrow> 'a option) \<Rightarrow> 'a agent \<Rightarrow> (agent_error + unit) \<times> 'a agent" where
  "agent_cast S f ag =
     (if ag_running ag \<and> length (ag_msgs ag) < AGENT_CAPACITY then (Inr (), ag\<lparr>ag_msgs := ag_msgs ag @ [AgentCast (boxed_update S f)]\<rparr>)
      else (Inl AgentDead, ag))"

definition agent_get :: "nat \<Rightarrow> nat \<Rightarrow> ('a \<Rightarrow> 'a option) \<Rightarrow> nat \<Rightarrow> 'a agent \<Rightarrow> (agent_error + unit) \<times> 'a agent" where
  "agent_get S T f tx ag = agent_request (AgentGet (boxed_get S T f) tx) ag"

definition agent_update :: "nat \<Rightarrow> ('a \<Rightarrow> 'a option) \<Rightarrow> nat \<Rightarrow> 'a agent \<Rightarrow> (agent_error + unit) \<times> 'a agent" where
  "agent_update S f tx ag = agent_request (AgentUpdate (boxed_update S f) tx) ag"

definition agent_get_and_update :: "nat \<Rightarrow> nat \<Rightarrow> ('a \<Rightarrow> ('a \<times> 'a) option) \<Rightarrow> nat \<Rightarrow> 'a agent \<Rightarrow> (agent_error + unit) \<times> 'a agent" where
  "agent_get_and_update S T f tx ag = agent_request (AgentGetAndUpdate (boxed_get_and_update S T f) tx) ag"

definition agent_stop :: "nat \<Rightarrow> 'a agent \<Rightarrow> (agent_error + unit) \<times> 'a agent" where
  "agent_stop tx ag = agent_request (AgentStop tx) ag"

text \<open>What the wait for a reply sees: the reply, the end of the sender, or the timeout; and what the methods make of it.\<close>

datatype 'a reply_wait = Answered "'a agent_reply" | SenderGone | WaitTimeout

fun op_outcome :: "nat \<Rightarrow> 'a reply_wait \<Rightarrow> agent_error + 'a" where
  "op_outcome T (Answered (OpReply (Inr result))) = (if type_id result = T then Inr (any_value result) else Inl TypeMismatch)"
| "op_outcome T (Answered (OpReply (Inl e))) = Inl e"
| "op_outcome T WaitTimeout = Inl AgentTimeout"
| "op_outcome T _ = Inl AgentDead"

fun update_outcome :: "'a reply_wait \<Rightarrow> agent_error + unit" where
  "update_outcome (Answered (UpdateReply r)) = r"
| "update_outcome WaitTimeout = Inl AgentTimeout"
| "update_outcome _ = Inl AgentDead"

fun stop_outcome :: "'a reply_wait \<Rightarrow> agent_error + unit" where
  "stop_outcome (Answered StopReply) = Inr ()"
| "stop_outcome WaitTimeout = Inl AgentTimeout"
| "stop_outcome _ = Inl AgentDead"

section \<open>A sequential specification\<close>

text \<open>The requests clients can make, with closures that return, and what a value of type \<open>S\<close> makes of them.\<close>

datatype 'a agent_req =
    ReqGet nat nat "'a \<Rightarrow> 'a" nat
  | ReqUpdate nat "'a \<Rightarrow> 'a" nat
  | ReqGetAndUpdate nat nat "'a \<Rightarrow> 'a \<times> 'a" nat
  | ReqCast nat "'a \<Rightarrow> 'a"
  | ReqStop nat

fun issue :: "'a agent_req \<Rightarrow> 'a agent \<Rightarrow> (agent_error + unit) \<times> 'a agent" where
  "issue (ReqGet S T f tx) ag = agent_get S T (Some \<circ> f) tx ag"
| "issue (ReqUpdate S f tx) ag = agent_update S (Some \<circ> f) tx ag"
| "issue (ReqGetAndUpdate S T f tx) ag = agent_get_and_update S T (Some \<circ> f) tx ag"
| "issue (ReqCast S f) ag = agent_cast S (Some \<circ> f) ag"
| "issue (ReqStop tx) ag = agent_stop tx ag"

fun spec_value :: "nat \<Rightarrow> 'a agent_req \<Rightarrow> 'a \<Rightarrow> 'a" where
  "spec_value S (ReqGet _ _ _ _) v = v"
| "spec_value S (ReqUpdate S' f _) v = (if S' = S then f v else v)"
| "spec_value S (ReqGetAndUpdate S' _ f _) v = (if S' = S then snd (f v) else v)"
| "spec_value S (ReqCast S' f) v = (if S' = S then f v else v)"
| "spec_value S (ReqStop _) v = v"

fun spec_answer :: "nat \<Rightarrow> 'a agent_req \<Rightarrow> 'a \<Rightarrow> (nat \<times> 'a agent_reply) list" where
  "spec_answer S (ReqGet S' T f tx) v = [(tx, OpReply (if S' = S then Inr (Any T (f v)) else Inl TypeMismatch))]"
| "spec_answer S (ReqUpdate S' f tx) v = [(tx, UpdateReply (if S' = S then Inr () else Inl TypeMismatch))]"
| "spec_answer S (ReqGetAndUpdate S' T f tx) v = [(tx, OpReply (if S' = S then Inr (Any T (fst (f v))) else Inl TypeMismatch))]"
| "spec_answer S (ReqCast S' f) v = []"
| "spec_answer S (ReqStop tx) v = [(tx, StopReply)]"

fun spec_run :: "nat \<Rightarrow> 'a agent_req list \<Rightarrow> 'a \<Rightarrow> 'a \<times> (nat \<times> 'a agent_reply) list" where
  "spec_run S [] v = (v, [])"
| "spec_run S (q # qs) v = (case spec_run S qs (spec_value S q v) of (v', rs) \<Rightarrow> (v', spec_answer S q v @ rs))"

text \<open>
  An agent in use: clients issue requests, the loop turns, stray messages arrive, the process is killed and the handles are dropped, in any order. The
  list holds the requests that were accepted.
\<close>

inductive agent_step :: "'a agent \<times> 'a agent_req list \<Rightarrow> 'a agent \<times> 'a agent_req list \<Rightarrow> bool" where
  accepted: "issue q ag = (Inr (), ag') \<Longrightarrow> agent_step (ag, acc) (ag', acc @ [q])"
| refused: "issue q ag = (Inl e, ag') \<Longrightarrow> agent_step (ag, acc) (ag', acc)"
| turns: "agent_round ag = Some ag' \<Longrightarrow> agent_step (ag, acc) (ag', acc)"
| strays: "agent_step (ag, acc) (ag\<lparr>ag_stray := ag_stray ag + 1\<rparr>, acc)"
| killed: "agent_step (ag, acc) (ag\<lparr>ag_killed := True\<rparr>, acc)"
| dropped: "agent_step (ag, acc) (ag\<lparr>ag_dropped := True\<rparr>, acc)"

section \<open>Agents implement the specification\<close>

fun message_of :: "'a agent_req \<Rightarrow> 'a agent_msg" where
  "message_of (ReqGet S T f tx) = AgentGet (boxed_get S T (Some \<circ> f)) tx"
| "message_of (ReqUpdate S f tx) = AgentUpdate (boxed_update S (Some \<circ> f)) tx"
| "message_of (ReqGetAndUpdate S T f tx) = AgentGetAndUpdate (boxed_get_and_update S T (Some \<circ> f)) tx"
| "message_of (ReqCast S f) = AgentCast (boxed_update S (Some \<circ> f))"
| "message_of (ReqStop tx) = AgentStop tx"

lemma spec_run_snoc:
  "spec_run S (qs @ [q]) v = (case spec_run S qs v of (v', rs) \<Rightarrow> (spec_value S q v', rs @ spec_answer S q v'))"
  by (induction qs arbitrary: v) (auto split: prod.splits)

lemma issue_outcome:
  assumes "issue q ag = (r, ag')"
  shows "if r = Inr () then ag_running ag \<and> ag' = ag\<lparr>ag_msgs := ag_msgs ag @ [message_of q]\<rparr> else ag' = ag"
  using assms by (cases q) (auto simp: agent_get_def agent_update_def agent_get_and_update_def agent_cast_def agent_stop_def agent_request_def split: if_splits)

lemma handle_request:
  assumes "ag_state ag = Any S v"
  shows "ag_state (handle_agent_msg (message_of q) ag) = Any S (spec_value S q v)
    \<and> ag_replies (handle_agent_msg (message_of q) ag) = ag_replies ag @ spec_answer S q v
    \<and> (ag_running (handle_agent_msg (message_of q) ag) \<longrightarrow> ag_msgs (handle_agent_msg (message_of q) ag) = ag_msgs ag)"
  using assms by (cases q) (auto simp: boxed_get_def boxed_update_def boxed_get_and_update_def agent_answer_def agent_ends_def split: prod.splits)

definition agent_ok :: "nat \<Rightarrow> 'a \<Rightarrow> 'a agent_req list \<Rightarrow> 'a agent_req list \<Rightarrow> 'a agent \<Rightarrow> bool" where
  "agent_ok S v handled todo ag \<longleftrightarrow> (\<exists>u. ag_state ag = Any S u \<and> spec_run S handled v = (u, ag_replies ag))
     \<and> (ag_running ag \<longrightarrow> ag_msgs ag = map message_of todo)"

lemma agent_round_ok:
  assumes "agent_round ag = Some ag'" and "agent_ok S v handled todo ag"
  shows "agent_ok S v handled todo ag' \<or> (\<exists>q qs. todo = q # qs \<and> agent_ok S v (handled @ [q]) qs ag')"
    and "ag_stray ag = 0 \<Longrightarrow> \<not> ag_killed ag \<Longrightarrow> todo = q # qs \<Longrightarrow> agent_ok S v (handled @ [q]) qs ag'"
proof -
  obtain u where u: "ag_state ag = Any S u" "spec_run S handled v = (u, ag_replies ag)" and run: "ag_running ag" "ag_msgs ag = map message_of todo"
    using assms by (auto simp: agent_ok_def agent_round_def split: if_splits)
  have handles: "agent_ok S v (handled @ [q]) qs (handle_agent_msg (message_of q) (ag\<lparr>ag_msgs := map message_of qs\<rparr>))" for q qs
    using handle_request [of "ag\<lparr>ag_msgs := map message_of qs\<rparr>" S u q] u by (auto simp: agent_ok_def spec_run_snoc)
  then show "ag_stray ag = 0 \<Longrightarrow> \<not> ag_killed ag \<Longrightarrow> todo = q # qs \<Longrightarrow> agent_ok S v (handled @ [q]) qs ag'"
    using assms(1) run by (auto simp: agent_round_def)
  show "agent_ok S v handled todo ag' \<or> (\<exists>q qs. todo = q # qs \<and> agent_ok S v (handled @ [q]) qs ag')"
  proof (cases "ag_stray ag = 0 \<and> \<not> ag_killed ag \<and> todo \<noteq> []")
    case True
    then obtain q qs where "todo = q # qs" by (cases todo) auto
    then show ?thesis using handles assms(1) run True by (auto simp: agent_round_def)
  next
    case False
    then have "agent_ok S v handled todo ag'" using assms u run by (auto simp: agent_round_def agent_ok_def agent_ends_def split: if_splits list.splits)
    then show ?thesis by simp
  qed
qed

lemma agent_step_ok:
  assumes "agent_step (ag, acc) (ag', acc')" and "acc = handled @ todo" and "agent_ok S v handled todo ag"
  shows "\<exists>handled' todo'. acc' = handled' @ todo' \<and> agent_ok S v handled' todo' ag'"
  using assms(1)
proof cases
  case (accepted q)
  with issue_outcome [OF accepted(2)] have "agent_ok S v handled (todo @ [q]) ag'" using assms(3) by (auto simp: agent_ok_def)
  then show ?thesis using accepted(1) assms(2) by (metis append.assoc)
next
  case (refused q e)
  with issue_outcome [OF refused(2)] show ?thesis using assms(2,3) by auto
next
  case turns
  from agent_round_ok(1) [OF turns(2) assms(3)] show ?thesis using turns(1) assms(2) by (metis append.assoc append_Cons append_Nil)
qed (use assms(2,3) in \<open>auto simp: agent_ok_def\<close>)

lemma agent_reach_ok:
  assumes "agent_step\<^sup>*\<^sup>* (start_agent S v, []) (ag, acc)"
  shows "\<exists>handled todo. acc = handled @ todo \<and> agent_ok S v handled todo ag"
  using assms
proof (induction rule: rtranclp_induct2)
  case refl
  show ?case by (simp add: agent_ok_def start_agent_def)
next
  case (step ag acc ag' acc')
  then show ?case using agent_step_ok by metis
qed

text \<open>
  C21: an agent is a value with its accepted requests applied to it, one after the other. At any time, whatever clients, strays and exits do, some prefix of the accepted
  requests was handled, the value and the replies are those of the specification for this prefix, and the value still
  has the type the agent was started with; a request for another type gets \<open>TypeMismatch\<close> and changes nothing, and the result of one for the right type never
  fails to downcast. While the agent runs nothing accepted is lost: the other requests are queued in order, and the next turn of an
  undisturbed loop handles the first of them.
\<close>

theorem agent_sequential:
  assumes "agent_step\<^sup>*\<^sup>* (start_agent S v, []) (ag, acc)"
  shows "\<exists>handled todo u. acc = handled @ todo \<and> ag_state ag = Any S u \<and> spec_run S handled v = (u, ag_replies ag)
    \<and> (ag_running ag \<longrightarrow> ag_msgs ag = map message_of todo)
    \<and> (ag_running ag \<and> ag_stray ag = 0 \<and> \<not> ag_killed ag \<and> todo \<noteq> [] \<longrightarrow>
         (\<exists>ag' u'. agent_round ag = Some ag' \<and> ag_state ag' = Any S u' \<and> spec_run S (handled @ [hd todo]) v = (u', ag_replies ag')))
    \<and> op_outcome T (Answered (snd (hd (spec_answer S (ReqGet S T f tx) u)))) = Inr (f u)
    \<and> (S' \<noteq> S \<longrightarrow> op_outcome T (Answered (snd (hd (spec_answer S (ReqGet S' T f tx) u)))) = Inl TypeMismatch)"
proof -
  obtain handled todo where a: "acc = handled @ todo" and ok: "agent_ok S v handled todo ag" using agent_reach_ok [OF assms] by blast
  then obtain u where u: "ag_state ag = Any S u" "spec_run S handled v = (u, ag_replies ag)" and m: "ag_running ag \<longrightarrow> ag_msgs ag = map message_of todo"
    by (auto simp: agent_ok_def)
  have "\<exists>ag' u'. agent_round ag = Some ag' \<and> ag_state ag' = Any S u' \<and> spec_run S (handled @ [hd todo]) v = (u', ag_replies ag')"
    if h: "ag_running ag" "ag_stray ag = 0" "\<not> ag_killed ag" "todo \<noteq> []"
  proof -
    obtain q qs where t: "todo = q # qs" using h(4) by (cases todo) auto
    then obtain ag' where r: "agent_round ag = Some ag'" using h m by (auto simp: agent_round_def)
    from agent_round_ok(2) [OF r ok h(2,3) t] r t show ?thesis by (auto simp: agent_ok_def)
  qed
  then show ?thesis using a u m by (intro exI [of _ handled] exI [of _ todo] exI [of _ u]) simp
qed

text \<open>
  A busy agent is reported dead. A cast to an agent whose channel holds 64 messages fails with \<open>AgentDead\<close> and is dropped, although the agent
  runs, accepts other requests and handles what is queued.
\<close>

theorem busy_agent_reported_dead:
  assumes "ag_running ag" and "64 \<le> length (ag_msgs ag)" and "ag_stray ag = 0" and "\<not> ag_killed ag"
  shows "agent_cast S f ag = (Inl AgentDead, ag) \<and> fst (agent_update S f tx ag) = Inr () \<and> agent_round ag \<noteq> None"
  using assms by (auto simp: agent_cast_def agent_update_def agent_request_def agent_round_def AGENT_CAPACITY_def split: list.split)

section \<open>A concrete agent\<close>

theorem agent_sequential_witness:
  "\<exists>ag :: nat agent. agent_step\<^sup>*\<^sup>* (start_agent 1 5, []) (ag, [ReqUpdate 1 (\<lambda>n. n + 2) 0]) \<and> ag_state ag = Any 1 7 \<and> ag_replies ag = [(0, UpdateReply (Inr ()))]"
proof -
  define q a0 a1 where d: "q = ReqUpdate 1 (\<lambda>n :: nat. n + 2) 0" "a0 = start_agent 1 (5 :: nat)" "a1 = a0\<lparr>ag_msgs := [message_of q]\<rparr>"
  have "issue q a0 = (Inr (), a1)" by (simp add: d agent_update_def agent_request_def start_agent_def)
  then have s: "agent_step\<^sup>*\<^sup>* (start_agent 1 5, []) (a1, [q])" using agent_step.accepted [of q a0 a1 "[]"] by (auto simp: d(2))
  have a1: "ag_running a1" "ag_stray a1 = 0" "\<not> ag_killed a1" "ag_msgs a1 = [message_of q]" by (simp_all add: d start_agent_def)
  obtain handled todo where h: "[q] = handled @ todo" "[message_of q] = map message_of todo"
    "todo \<noteq> [] \<longrightarrow> (\<exists>ag' u'. agent_round a1 = Some ag' \<and> ag_state ag' = Any 1 u' \<and> spec_run 1 (handled @ [hd todo]) 5 = (u', ag_replies ag'))"
    using agent_sequential [OF s] a1 by metis
  then have "todo = [q]" "handled = []" by (cases handled; simp)+
  with h(3) obtain ag' u' where r: "agent_round a1 = Some ag'" "ag_state ag' = Any 1 u'" "spec_run 1 [q] 5 = (u', ag_replies ag')" by auto
  then have "u' = 7" "ag_replies ag' = [(0, UpdateReply (Inr ()))]" by (simp_all add: d(1))
  moreover have "agent_step\<^sup>*\<^sup>* (start_agent 1 5, []) (ag', [q])" by (rule rtranclp.rtrancl_into_rtrancl [OF s turns [OF r(1)]])
  ultimately show ?thesis using r(2) unfolding d(1) by blast
qed

theorem busy_agent_reported_dead_witness:
  "fst (agent_cast 1 Some ((start_agent 1 (0 :: nat))\<lparr>ag_msgs := replicate 64 (AgentStop 0)\<rparr>)) = Inl AgentDead"
  using busy_agent_reported_dead [of "(start_agent 1 (0 :: nat))\<lparr>ag_msgs := replicate 64 (AgentStop 0)\<rparr>" 1 Some] by (simp add: start_agent_def)

end
