(* ===== verification/Ffi.thy ===== *)
theory Ffi
  imports Runtime Std
begin

text \<open>
  The C interface (\<^verbatim>\<open>crates/rebar-ffi/src/lib.rs\<close>) over an explicit memory: boxes of messages and runtimes, byte buffers and \<open>RebarPid\<close>
  slots of the caller, each at an address; the null pointer is 0. The result \<open>None\<close> is undefined behaviour: the use of a
  non-null pointer that does not point to what it should. The theory shows that calls with valid or null pointers are defined, that a call that
  reports an error has changed nothing, and what the names and messages of the interface do.
\<close>

section \<open>Types\<close>

type_synonym i32 = "32 word"

record rebar_pid =
  rp_node_id :: u64
  rp_local_id :: u64

definition to_process_id :: "rebar_pid \<Rightarrow> process_id" where
  "to_process_id p = process_id_new (rp_node_id p) (rp_local_id p)"

definition from_process_id :: "process_id \<Rightarrow> rebar_pid" where
  "from_process_id pid = \<lparr>rp_node_id = pid_node_id pid, rp_local_id = pid_local_id pid\<rparr>"

record rebar_msg =
  rm_data :: "u8 list"

text \<open>The names are UTF-8 strings, here as their bytes.\<close>

record ('c, 'h) rebar_runtime =
  rr_runtime :: "('c, 'h, unit) runtime"
  rr_registry :: "(u8 list, process_id) hashmap"

record ('c, 'h) ffi_memory =
  fm_msgs :: "(nat, rebar_msg) hashmap"
  fm_runtimes :: "(nat, ('c, 'h) rebar_runtime) hashmap"
  fm_bytes :: "(nat, u8) hashmap"
  fm_pids :: "(nat, rebar_pid) hashmap"
  fm_next :: nat

definition isize_max :: nat where
  "isize_max = 2 ^ 63 - 1"

section \<open>Pointer helpers\<close>

definition ffi_deref :: "nat \<Rightarrow> (nat, 'x) hashmap \<Rightarrow> 'x option option" where
  "ffi_deref ptr heap = (if ptr = 0 then Some None else map_option Some (hm_get heap ptr))"

definition bytes_from :: "nat \<Rightarrow> nat \<Rightarrow> (nat, u8) hashmap \<Rightarrow> u8 list option option" where
  "bytes_from data len bytes =
     (if len = 0 then Some (Some [])
      else if data = 0 then Some None
      else if len > isize_max then Some None
      else map_option Some (those (map (\<lambda>i. hm_get bytes (data + i)) [0..<len])))"

definition write_out :: "nat \<Rightarrow> rebar_pid \<Rightarrow> ('c, 'h) ffi_memory \<Rightarrow> (bool \<times> ('c, 'h) ffi_memory) option" where
  "write_out out v m =
     (if out = 0 then Some (False, m)
      else if hm_contains out (fm_pids m) then Some (True, m\<lparr>fm_pids := hm_insert out v (fm_pids m)\<rparr>)
      else None)"

definition drop_boxed :: "nat \<Rightarrow> (nat, 'x) hashmap \<Rightarrow> (nat, 'x) hashmap option" where
  "drop_boxed ptr heap =
     (if ptr = 0 then Some heap else if hm_contains ptr heap then Some (hm_remove ptr heap) else None)"

section \<open>UTF-8\<close>

text \<open>\<open>std::str::from_utf8\<close>: the well-formed sequences of one to four bytes.\<close>

definition in_range :: "u8 \<Rightarrow> u8 \<Rightarrow> u8 \<Rightarrow> bool" where
  "in_range lo hi b \<longleftrightarrow> lo \<le> b \<and> b \<le> hi"

abbreviation continuation :: "u8 \<Rightarrow> bool" where
  "continuation \<equiv> in_range 0x80 0xBF"

definition second_of_three :: "u8 \<Rightarrow> u8 \<Rightarrow> bool" where
  "second_of_three b c =
     (if b = 0xE0 then in_range 0xA0 0xBF c else if b = 0xED then in_range 0x80 0x9F c else continuation c)"

definition second_of_four :: "u8 \<Rightarrow> u8 \<Rightarrow> bool" where
  "second_of_four b c =
     (if b = 0xF0 then in_range 0x90 0xBF c else if b = 0xF4 then in_range 0x80 0x8F c else continuation c)"

fun utf8_valid :: "u8 list \<Rightarrow> bool" where
  "utf8_valid [] = True"
| "utf8_valid (b # bs) =
     (if b < 0x80 then utf8_valid bs
      else
        (case bs of
           [] \<Rightarrow> False
         | c # cs \<Rightarrow>
             if in_range 0xC2 0xDF b then continuation c \<and> utf8_valid cs
             else
               (case cs of
                  [] \<Rightarrow> False
                | d # ds \<Rightarrow>
                    if in_range 0xE0 0xEF b then second_of_three b c \<and> continuation d \<and> utf8_valid ds
                    else
                      (case ds of
                         [] \<Rightarrow> False
                       | e # es \<Rightarrow> in_range 0xF0 0xF4 b \<and> second_of_four b c \<and> continuation d \<and> continuation e \<and> utf8_valid es))))"

section \<open>Error codes\<close>

definition REBAR_OK :: i32 where
  "REBAR_OK = 0"

definition REBAR_ERR_NULL_PTR :: i32 where
  "REBAR_ERR_NULL_PTR = -1"

definition REBAR_ERR_SEND_FAILED :: i32 where
  "REBAR_ERR_SEND_FAILED = -2"

definition REBAR_ERR_NOT_FOUND :: i32 where
  "REBAR_ERR_NOT_FOUND = -3"

definition REBAR_ERR_INVALID_NAME :: i32 where
  "REBAR_ERR_INVALID_NAME = -4"

definition REBAR_ERR_INVALID_LEN :: i32 where
  "REBAR_ERR_INVALID_LEN = -5"

definition REBAR_ERR_INTERNAL :: i32 where
  "REBAR_ERR_INTERNAL = -6"

lemmas rebar_codes = REBAR_OK_def REBAR_ERR_NULL_PTR_def REBAR_ERR_SEND_FAILED_def REBAR_ERR_NOT_FOUND_def
  REBAR_ERR_INVALID_NAME_def REBAR_ERR_INVALID_LEN_def REBAR_ERR_INTERNAL_def

section \<open>Messages\<close>

definition rebar_msg_create :: "nat \<Rightarrow> nat \<Rightarrow> ('c, 'h) ffi_memory \<Rightarrow> (nat \<times> ('c, 'h) ffi_memory) option" where
  "rebar_msg_create data len m =
     (case bytes_from data len (fm_bytes m) of
        None \<Rightarrow> None
      | Some None \<Rightarrow> Some (0, m)
      | Some (Some bytes) \<Rightarrow>
          Some (fm_next m, m\<lparr>fm_msgs := hm_insert (fm_next m) \<lparr>rm_data = bytes\<rparr> (fm_msgs m), fm_next := fm_next m + 1\<rparr>))"

text \<open>The data pointer is represented by the bytes it points to, \<open>None\<close> being null.\<close>

definition rebar_msg_data :: "nat \<Rightarrow> ('c, 'h) ffi_memory \<Rightarrow> u8 list option option" where
  "rebar_msg_data msg m =
     (case ffi_deref msg (fm_msgs m) of None \<Rightarrow> None | Some None \<Rightarrow> Some None | Some (Some x) \<Rightarrow> Some (Some (rm_data x)))"

definition rebar_msg_len :: "nat \<Rightarrow> ('c, 'h) ffi_memory \<Rightarrow> usize option" where
  "rebar_msg_len msg m =
     (case ffi_deref msg (fm_msgs m) of None \<Rightarrow> None | Some None \<Rightarrow> Some 0 | Some (Some x) \<Rightarrow> Some (length (rm_data x)))"

definition rebar_msg_free :: "nat \<Rightarrow> ('c, 'h) ffi_memory \<Rightarrow> ('c, 'h) ffi_memory option" where
  "rebar_msg_free msg m = map_option (\<lambda>h. m\<lparr>fm_msgs := h\<rparr>) (drop_boxed msg (fm_msgs m))"

section \<open>Runtimes\<close>

text \<open>\<open>built\<close>: the tokio runtime could be built.\<close>

definition rebar_runtime_new :: "bool \<Rightarrow> u64 \<Rightarrow> ('c, 'h) ffi_memory \<Rightarrow> nat \<times> ('c, 'h) ffi_memory" where
  "rebar_runtime_new built node m =
     (if \<not> built then (0, m)
      else (fm_next m, m\<lparr>fm_runtimes := hm_insert (fm_next m) \<lparr>rr_runtime = runtime_new node, rr_registry = hm_empty\<rparr> (fm_runtimes m),
                         fm_next := fm_next m + 1\<rparr>))"

definition rebar_runtime_free :: "nat \<Rightarrow> ('c, 'h) ffi_memory \<Rightarrow> ('c, 'h) ffi_memory option" where
  "rebar_runtime_free rt m = map_option (\<lambda>h. m\<lparr>fm_runtimes := h\<rparr>) (drop_boxed rt (fm_runtimes m))"

definition set_runtime :: "nat \<Rightarrow> ('c, 'h) rebar_runtime \<Rightarrow> ('c, 'h) ffi_memory \<Rightarrow> ('c, 'h) ffi_memory" where
  "set_runtime rt r m = m\<lparr>fm_runtimes := hm_insert rt r (fm_runtimes m)\<rparr>"

text \<open>
  \<open>can_block\<close>: \<open>block_on\<close> is not called from a thread of a single-threaded tokio runtime, where it panics and the guard reports an internal
  error. The callback runs in the new process.
\<close>

definition rebar_spawn ::
  "('v message, 'c) mpsc \<Rightarrow> bool \<Rightarrow> nat \<Rightarrow> bool \<Rightarrow> nat \<Rightarrow> ('c, 'h) ffi_memory \<Rightarrow> (i32 \<times> ('c, 'h) ffi_memory) option" where
  "rebar_spawn M can_block rt has_callback pid_out m =
     (case ffi_deref rt (fm_runtimes m) of
        None \<Rightarrow> None
      | Some None \<Rightarrow> Some (REBAR_ERR_NULL_PTR, m)
      | Some (Some r) \<Rightarrow>
          if pid_out = 0 then Some (REBAR_ERR_NULL_PTR, m)
          else if \<not> has_callback then Some (REBAR_ERR_NULL_PTR, m)
          else if \<not> can_block then Some (REBAR_ERR_INTERNAL, m)
          else
            let (pid, runtime) = spawn M (rr_runtime r) in
            (case write_out pid_out (from_process_id pid) (set_runtime rt (r\<lparr>rr_runtime := runtime\<rparr>) m) of
               None \<Rightarrow> None
             | Some (ok, m1) \<Rightarrow> Some (if ok then REBAR_OK else REBAR_ERR_NULL_PTR, m1)))"

text \<open>The send shared by \<open>rebar_send\<close> and \<open>rebar_send_named\<close>. A panic of the router becomes an internal error.\<close>

definition ffi_send ::
  "('v message, 'c) mpsc \<Rightarrow> 'v rmpv \<Rightarrow> bool \<Rightarrow> nat \<Rightarrow> ('c, 'h) rebar_runtime \<Rightarrow> process_id \<Rightarrow> rebar_msg \<Rightarrow> ('c, 'h) ffi_memory
     \<Rightarrow> i32 \<times> ('c, 'h) ffi_memory" where
  "ffi_send M V can_block rt r dest msg m =
     (let payload = binary_value V (rm_data msg) in
      if \<not> can_block then (REBAR_ERR_INTERNAL, m)
      else
        (case runtime_send M (\<lambda>_ _ _ _. None) dest payload (rr_runtime r) of
           None \<Rightarrow> (REBAR_ERR_INTERNAL, m)
         | Some (Inr _, runtime) \<Rightarrow> (REBAR_OK, set_runtime rt (r\<lparr>rr_runtime := runtime\<rparr>) m)
         | Some (Inl _, runtime) \<Rightarrow> (REBAR_ERR_SEND_FAILED, set_runtime rt (r\<lparr>rr_runtime := runtime\<rparr>) m)))"

definition rebar_send ::
  "('v message, 'c) mpsc \<Rightarrow> 'v rmpv \<Rightarrow> bool \<Rightarrow> nat \<Rightarrow> rebar_pid \<Rightarrow> nat \<Rightarrow> ('c, 'h) ffi_memory \<Rightarrow> (i32 \<times> ('c, 'h) ffi_memory) option" where
  "rebar_send M V can_block rt dest msg m =
     (case ffi_deref rt (fm_runtimes m) of
        None \<Rightarrow> None
      | Some None \<Rightarrow> Some (REBAR_ERR_NULL_PTR, m)
      | Some (Some r) \<Rightarrow>
          (case ffi_deref msg (fm_msgs m) of
             None \<Rightarrow> None
           | Some None \<Rightarrow> Some (REBAR_ERR_NULL_PTR, m)
           | Some (Some x) \<Rightarrow> Some (ffi_send M V can_block rt r (to_process_id dest) x m)))"

section \<open>Names\<close>

text \<open>The checks of a name argument.\<close>

definition name_arg :: "nat \<Rightarrow> nat \<Rightarrow> (nat, u8) hashmap \<Rightarrow> (i32 + u8 list) option" where
  "name_arg name name_len bytes =
     (if name = 0 then Some (Inl REBAR_ERR_NULL_PTR)
      else
        (case bytes_from name name_len bytes of
           None \<Rightarrow> None
         | Some None \<Rightarrow> Some (Inl REBAR_ERR_INVALID_LEN)
         | Some (Some b) \<Rightarrow> Some (if utf8_valid b then Inr b else Inl REBAR_ERR_INVALID_NAME)))"

definition rebar_register ::
  "nat \<Rightarrow> nat \<Rightarrow> nat \<Rightarrow> rebar_pid \<Rightarrow> ('c, 'h) ffi_memory \<Rightarrow> (i32 \<times> ('c, 'h) ffi_memory) option" where
  "rebar_register rt name name_len pid m =
     (case ffi_deref rt (fm_runtimes m) of
        None \<Rightarrow> None
      | Some None \<Rightarrow> Some (REBAR_ERR_NULL_PTR, m)
      | Some (Some r) \<Rightarrow>
          (case name_arg name name_len (fm_bytes m) of
             None \<Rightarrow> None
           | Some (Inl e) \<Rightarrow> Some (e, m)
           | Some (Inr s) \<Rightarrow> Some (REBAR_OK, set_runtime rt (r\<lparr>rr_registry := hm_insert s (to_process_id pid) (rr_registry r)\<rparr>) m)))"

definition rebar_unregister :: "nat \<Rightarrow> nat \<Rightarrow> nat \<Rightarrow> ('c, 'h) ffi_memory \<Rightarrow> (i32 \<times> ('c, 'h) ffi_memory) option" where
  "rebar_unregister rt name name_len m =
     (case ffi_deref rt (fm_runtimes m) of
        None \<Rightarrow> None
      | Some None \<Rightarrow> Some (REBAR_ERR_NULL_PTR, m)
      | Some (Some r) \<Rightarrow>
          (case name_arg name name_len (fm_bytes m) of
             None \<Rightarrow> None
           | Some (Inl e) \<Rightarrow> Some (e, m)
           | Some (Inr s) \<Rightarrow> Some (REBAR_OK, set_runtime rt (r\<lparr>rr_registry := hm_remove s (rr_registry r)\<rparr>) m)))"

definition rebar_whereis :: "nat \<Rightarrow> nat \<Rightarrow> nat \<Rightarrow> nat \<Rightarrow> ('c, 'h) ffi_memory \<Rightarrow> (i32 \<times> ('c, 'h) ffi_memory) option" where
  "rebar_whereis rt name name_len pid_out m =
     (case ffi_deref rt (fm_runtimes m) of
        None \<Rightarrow> None
      | Some None \<Rightarrow> Some (REBAR_ERR_NULL_PTR, m)
      | Some (Some r) \<Rightarrow>
          if pid_out = 0 \<or> name = 0 then Some (REBAR_ERR_NULL_PTR, m)
          else
            (case name_arg name name_len (fm_bytes m) of
               None \<Rightarrow> None
             | Some (Inl e) \<Rightarrow> Some (e, m)
             | Some (Inr s) \<Rightarrow>
                 (case hm_get (rr_registry r) s of
                    None \<Rightarrow> Some (REBAR_ERR_NOT_FOUND, m)
                  | Some pid \<Rightarrow>
                      (case write_out pid_out (from_process_id pid) m of
                         None \<Rightarrow> None
                       | Some (ok, m1) \<Rightarrow> Some (if ok then REBAR_OK else REBAR_ERR_NULL_PTR, m1)))))"

definition rebar_send_named ::
  "('v message, 'c) mpsc \<Rightarrow> 'v rmpv \<Rightarrow> bool \<Rightarrow> nat \<Rightarrow> nat \<Rightarrow> nat \<Rightarrow> nat \<Rightarrow> ('c, 'h) ffi_memory \<Rightarrow> (i32 \<times> ('c, 'h) ffi_memory) option" where
  "rebar_send_named M V can_block rt name name_len msg m =
     (case ffi_deref rt (fm_runtimes m) of
        None \<Rightarrow> None
      | Some None \<Rightarrow> Some (REBAR_ERR_NULL_PTR, m)
      | Some (Some r) \<Rightarrow>
          (case ffi_deref msg (fm_msgs m) of
             None \<Rightarrow> None
           | Some None \<Rightarrow> Some (REBAR_ERR_NULL_PTR, m)
           | Some (Some x) \<Rightarrow>
               (case name_arg name name_len (fm_bytes m) of
                  None \<Rightarrow> None
                | Some (Inl e) \<Rightarrow> Some (e, m)
                | Some (Inr s) \<Rightarrow>
                    (case hm_get (rr_registry r) s of
                       None \<Rightarrow> Some (REBAR_ERR_NOT_FOUND, m)
                     | Some pid \<Rightarrow> Some (ffi_send M V can_block rt r pid x m)))))"

section \<open>Calls\<close>

datatype ffi_call =
    CallMsgCreate nat nat
  | CallMsgData nat
  | CallMsgLen nat
  | CallMsgFree nat
  | CallRuntimeFree nat
  | CallSpawn nat bool nat
  | CallSend nat rebar_pid nat
  | CallRegister nat nat nat rebar_pid
  | CallUnregister nat nat nat
  | CallWhereis nat nat nat nat
  | CallSendNamed nat nat nat nat

datatype ffi_result = ResCode i32 | ResPtr nat | ResData "u8 list option" | ResLen usize | ResUnit

fun ffi_exec ::
  "('v message, 'c) mpsc \<Rightarrow> 'v rmpv \<Rightarrow> bool \<Rightarrow> ffi_call \<Rightarrow> ('c, 'h) ffi_memory \<Rightarrow> (ffi_result \<times> ('c, 'h) ffi_memory) option" where
  "ffi_exec M V can_block (CallMsgCreate data len) m = map_option (map_prod ResPtr id) (rebar_msg_create data len m)"
| "ffi_exec M V can_block (CallMsgData msg) m = map_option (\<lambda>d. (ResData d, m)) (rebar_msg_data msg m)"
| "ffi_exec M V can_block (CallMsgLen msg) m = map_option (\<lambda>n. (ResLen n, m)) (rebar_msg_len msg m)"
| "ffi_exec M V can_block (CallMsgFree msg) m = map_option (Pair ResUnit) (rebar_msg_free msg m)"
| "ffi_exec M V can_block (CallRuntimeFree rt) m = map_option (Pair ResUnit) (rebar_runtime_free rt m)"
| "ffi_exec M V can_block (CallSpawn rt cb out) m = map_option (map_prod ResCode id) (rebar_spawn M can_block rt cb out m)"
| "ffi_exec M V can_block (CallSend rt dest msg) m = map_option (map_prod ResCode id) (rebar_send M V can_block rt dest msg m)"
| "ffi_exec M V can_block (CallRegister rt name len pid) m = map_option (map_prod ResCode id) (rebar_register rt name len pid m)"
| "ffi_exec M V can_block (CallUnregister rt name len) m = map_option (map_prod ResCode id) (rebar_unregister rt name len m)"
| "ffi_exec M V can_block (CallWhereis rt name len out) m = map_option (map_prod ResCode id) (rebar_whereis rt name len out m)"
| "ffi_exec M V can_block (CallSendNamed rt name len msg) m = map_option (map_prod ResCode id) (rebar_send_named M V can_block rt name len msg m)"

text \<open>The contract of the caller: a pointer is null or valid, a buffer is readable for a length that a slice may have.\<close>

definition ptr_ok :: "nat \<Rightarrow> (nat, 'x) hashmap \<Rightarrow> bool" where
  "ptr_ok p heap \<longleftrightarrow> p = 0 \<or> hm_contains p heap"

definition buffer_ok :: "nat \<Rightarrow> nat \<Rightarrow> (nat, u8) hashmap \<Rightarrow> bool" where
  "buffer_ok p len bytes \<longleftrightarrow> p = 0 \<or> len > isize_max \<or> (\<forall>i < len. hm_contains (p + i) bytes)"

fun call_ok :: "ffi_call \<Rightarrow> ('c, 'h) ffi_memory \<Rightarrow> bool" where
  "call_ok (CallMsgCreate data len) m = buffer_ok data len (fm_bytes m)"
| "call_ok (CallMsgData msg) m = ptr_ok msg (fm_msgs m)"
| "call_ok (CallMsgLen msg) m = ptr_ok msg (fm_msgs m)"
| "call_ok (CallMsgFree msg) m = ptr_ok msg (fm_msgs m)"
| "call_ok (CallRuntimeFree rt) m = ptr_ok rt (fm_runtimes m)"
| "call_ok (CallSpawn rt cb out) m = (ptr_ok rt (fm_runtimes m) \<and> ptr_ok out (fm_pids m))"
| "call_ok (CallSend rt dest msg) m = (ptr_ok rt (fm_runtimes m) \<and> ptr_ok msg (fm_msgs m))"
| "call_ok (CallRegister rt name len pid) m = (ptr_ok rt (fm_runtimes m) \<and> buffer_ok name len (fm_bytes m))"
| "call_ok (CallUnregister rt name len) m = (ptr_ok rt (fm_runtimes m) \<and> buffer_ok name len (fm_bytes m))"
| "call_ok (CallWhereis rt name len out) m = (ptr_ok rt (fm_runtimes m) \<and> buffer_ok name len (fm_bytes m) \<and> ptr_ok out (fm_pids m))"
| "call_ok (CallSendNamed rt name len msg) m = (ptr_ok rt (fm_runtimes m) \<and> buffer_ok name len (fm_bytes m) \<and> ptr_ok msg (fm_msgs m))"

text \<open>What a caller can observe: everything but the bookkeeping inside a channel.\<close>

definition same_runtime :: "('v message, 'c) mpsc \<Rightarrow> ('c, 'h) rebar_runtime option \<Rightarrow> ('c, 'h) rebar_runtime option \<Rightarrow> bool" where
  "same_runtime M a b \<longleftrightarrow>
     (case (a, b) of
        (None, None) \<Rightarrow> True
      | (Some x, Some y) \<Rightarrow> rr_registry x = rr_registry y
          \<and> (\<forall>q. alive (rt_table (rr_runtime y)) q = alive (rt_table (rr_runtime x)) q \<and> inbox M (rt_table (rr_runtime y)) q = inbox M (rt_table (rr_runtime x)) q)
      | _ \<Rightarrow> False)"

definition same_memory :: "('v message, 'c) mpsc \<Rightarrow> ('c, 'h) ffi_memory \<Rightarrow> ('c, 'h) ffi_memory \<Rightarrow> bool" where
  "same_memory M m m' \<longleftrightarrow> fm_msgs m' = fm_msgs m \<and> fm_bytes m' = fm_bytes m \<and> fm_pids m' = fm_pids m \<and> fm_next m' = fm_next m
     \<and> (\<forall>rt. same_runtime M (hm_get (fm_runtimes m) rt) (hm_get (fm_runtimes m') rt))"

lemma same_memory_refl [simp]: "same_memory M m m"
  by (simp add: same_memory_def same_runtime_def split: option.split)

lemma deref_ok:
  assumes "ptr_ok p heap"
  obtains "p = 0" and "ffi_deref p heap = Some None" | x where "p \<noteq> 0" and "hm_get heap p = Some x" and "ffi_deref p heap = Some (Some x)"
  using assms by (auto simp: ptr_ok_def ffi_deref_def hm_contains_def)

lemma those_Some: "(\<And>x. x \<in> set xs \<Longrightarrow> x \<noteq> None) \<Longrightarrow> \<exists>ys. those xs = Some ys"
proof (induction xs)
  case (Cons x xs)
  then obtain ys y where "those xs = Some ys" "x = Some y" by (metis list.set_intros option.exhaust)
  then show ?case by simp
qed simp

lemma bytes_from_ok:
  assumes "buffer_ok p len bytes"
  shows "bytes_from p len bytes \<noteq> None"
proof (cases "len = 0 \<or> p = 0 \<or> len > isize_max")
  case False
  then have "x \<noteq> None" if "x \<in> set (map (\<lambda>i. hm_get bytes (p + i)) [0..<len])" for x using assms that by (auto simp: buffer_ok_def hm_contains_def)
  then have "\<exists>ys. those (map (\<lambda>i. hm_get bytes (p + i)) [0..<len]) = Some ys" by (rule those_Some)
  then show ?thesis using False by (auto simp: bytes_from_def)
qed (auto simp: bytes_from_def)

lemma name_arg_ok:
  assumes "buffer_ok p len bytes"
  obtains e where "name_arg p len bytes = Some (Inl e)" and "e \<in> {REBAR_ERR_NULL_PTR, REBAR_ERR_INVALID_LEN, REBAR_ERR_INVALID_NAME}"
    | s where "name_arg p len bytes = Some (Inr s)"
proof (cases "p = 0")
  case False
  obtain y where "bytes_from p len bytes = Some y" using bytes_from_ok [OF assms] by blast
  then show thesis using that False by (cases y; cases "utf8_valid (the y)") (simp_all add: name_arg_def)
qed (use that(1) in \<open>simp add: name_arg_def\<close>)

lemma ffi_send_outcome:
  assumes "mpsc_ok M" and "hm_get (fm_runtimes m) rt = Some r" and "rt_custom (rr_runtime r) = None"
  shows "ffi_send M V can_block rt r dest x m = (c, m') \<Longrightarrow>
    c \<in> {REBAR_OK, REBAR_ERR_SEND_FAILED, REBAR_ERR_INTERNAL} \<and> (c \<noteq> REBAR_OK \<longrightarrow> same_memory M m m')"
proof -
  let ?from = "process_id_new (rt_node_id (rr_runtime r)) 0"
  let ?s = "table_send M dest (message_new_internal ?from (binary_value V (rm_data x))) (rt_table (rr_runtime r))"
  have s: "runtime_send M (\<lambda>_ _ _ _. None) dest (binary_value V (rm_data x)) (rr_runtime r) = Some (fst ?s, (rr_runtime r)\<lparr>rt_table := snd ?s\<rparr>)"
    by (cases ?s) (simp add: runtime_send_def runtime_route_def assms(3) local_route_def)
  assume e: "ffi_send M V can_block rt r dest x m = (c, m')"
  have "same_memory M m m'" if "c \<noteq> REBAR_OK"
  proof (cases "can_block \<and> (\<exists>err. fst ?s = Inl err)")
    case True
    then obtain err where err: "fst ?s = Inl err" by blast
    have m': "m' = set_runtime rt (r\<lparr>rr_runtime := (rr_runtime r)\<lparr>rt_table := snd ?s\<rparr>\<rparr>) m" using e s True err by (auto simp: ffi_send_def)
    have "inbox M (snd ?s) q = inbox M (rt_table (rr_runtime r)) q" "alive (snd ?s) q = alive (rt_table (rr_runtime r)) q" for q
      using inbox_after_send [OF assms(1), of dest _ "rt_table (rr_runtime r)" q] err by simp_all
    then show ?thesis using assms(2) by (auto simp: m' set_runtime_def same_memory_def same_runtime_def split: option.split)
  next
    case False
    then show ?thesis using e s that by (auto simp: ffi_send_def split: sum.splits if_splits)
  qed
  then show "c \<in> {REBAR_OK, REBAR_ERR_SEND_FAILED, REBAR_ERR_INTERNAL} \<and> (c \<noteq> REBAR_OK \<longrightarrow> same_memory M m m')"
    using e s by (auto simp: ffi_send_def split: sum.splits if_splits)
qed

section \<open>Properties\<close>

definition ffi_codes :: "i32 list" where
  "ffi_codes = [REBAR_OK, REBAR_ERR_NULL_PTR, REBAR_ERR_SEND_FAILED, REBAR_ERR_NOT_FOUND, REBAR_ERR_INVALID_NAME, REBAR_ERR_INVALID_LEN, REBAR_ERR_INTERNAL]"

definition ffi_fine :: "('v message, 'c) mpsc \<Rightarrow> ('c, 'h) ffi_memory \<Rightarrow> (i32 \<times> ('c, 'h) ffi_memory) option \<Rightarrow> bool" where
  "ffi_fine M m res \<longleftrightarrow> (\<exists>c m'. res = Some (c, m') \<and> c \<in> set ffi_codes \<and> (c \<noteq> REBAR_OK \<longrightarrow> same_memory M m m'))"

lemma ffi_fine_error [simp]:
  "ffi_fine M m (Some (REBAR_ERR_NULL_PTR, m))" "ffi_fine M m (Some (REBAR_ERR_NOT_FOUND, m))" "ffi_fine M m (Some (REBAR_ERR_INTERNAL, m))"
  "e \<in> {REBAR_ERR_NULL_PTR, REBAR_ERR_INVALID_LEN, REBAR_ERR_INVALID_NAME} \<Longrightarrow> ffi_fine M m (Some (e, m))" "ffi_fine M m (Some (REBAR_OK, m'))"
  by (auto simp: ffi_fine_def ffi_codes_def)

lemma ffi_fine_send:
  assumes "mpsc_ok M" and "hm_get (fm_runtimes m) rt = Some r" and "rt_custom (rr_runtime r) = None"
  shows "ffi_fine M m (Some (ffi_send M V can_block rt r dest x m))"
  using ffi_send_outcome [OF assms, of V can_block dest x] by (cases "ffi_send M V can_block rt r dest x m") (auto simp: ffi_fine_def ffi_codes_def)

lemma ffi_fine_write:
  assumes "ptr_ok out (fm_pids m)" and "out \<noteq> 0"
  shows "\<exists>m'. write_out out v m = Some (True, m')"
  using assms by (simp add: write_out_def ptr_ok_def)

definition runtimes_local :: "('c, 'h) ffi_memory \<Rightarrow> bool" where
  "runtimes_local m \<longleftrightarrow> (\<forall>rt r. hm_get (fm_runtimes m) rt = Some r \<longrightarrow> rt_custom (rr_runtime r) = None)"

lemma rebar_send_fine:
  assumes "mpsc_ok M" and "runtimes_local m" and "ptr_ok rt (fm_runtimes m)" and "ptr_ok msg (fm_msgs m)"
  shows "ffi_fine M m (rebar_send M V can_block rt dest msg m)"
proof -
  from assms(3) show ?thesis
  proof (cases rule: deref_ok)
    case 2
    then show ?thesis using assms(2) by (cases rule: deref_ok [OF assms(4)]) (auto simp: rebar_send_def runtimes_local_def intro!: ffi_fine_send [OF assms(1)])
  qed (simp add: rebar_send_def)
qed

lemma rebar_send_named_fine:
  assumes "mpsc_ok M" and "runtimes_local m" and "ptr_ok rt (fm_runtimes m)" and "buffer_ok name len (fm_bytes m)" and "ptr_ok msg (fm_msgs m)"
  shows "ffi_fine M m (rebar_send_named M V can_block rt name len msg m)"
proof -
  from assms(3) show ?thesis
  proof (cases rule: deref_ok)
    case (2 r)
    from assms(5) show ?thesis
    proof (cases rule: deref_ok)
      case (2 x)
      from assms(4) show ?thesis
      proof (cases rule: name_arg_ok)
        case (2 s)
        then show ?thesis using \<open>ffi_deref rt (fm_runtimes m) = Some (Some r)\<close> \<open>hm_get (fm_runtimes m) rt = Some r\<close> \<open>ffi_deref msg (fm_msgs m) = Some (Some x)\<close> assms(2)
          by (auto simp: rebar_send_named_def runtimes_local_def intro!: ffi_fine_send [OF assms(1)] split: option.split)
      qed (use 2 \<open>ffi_deref rt (fm_runtimes m) = Some (Some r)\<close> in \<open>simp add: rebar_send_named_def\<close>)
    qed (use 2 in \<open>simp add: rebar_send_named_def\<close>)
  qed (simp add: rebar_send_named_def)
qed

lemma rebar_names_fine:
  assumes "ptr_ok rt (fm_runtimes m)" and "buffer_ok name len (fm_bytes m)"
  shows "ffi_fine M m (rebar_register rt name len pid m)" and "ffi_fine M m (rebar_unregister rt name len m)"
    and "ptr_ok out (fm_pids m) \<Longrightarrow> ffi_fine M m (rebar_whereis rt name len out m)"
proof -
  from assms(1) have "ffi_fine M m (rebar_register rt name len pid m) \<and> ffi_fine M m (rebar_unregister rt name len m)
      \<and> (ptr_ok out (fm_pids m) \<longrightarrow> ffi_fine M m (rebar_whereis rt name len out m))"
  proof (cases rule: deref_ok)
    case (2 r)
    from assms(2) show ?thesis
    proof (cases rule: name_arg_ok)
      case (2 s)
      have "ffi_fine M m (rebar_whereis rt name len out m)" if "ptr_ok out (fm_pids m)"
      proof (cases "out = 0 \<or> name = 0 \<or> hm_get (rr_registry r) s = None")
        case True
        then show ?thesis using 2 \<open>ffi_deref rt (fm_runtimes m) = Some (Some r)\<close> by (auto simp: rebar_whereis_def)
      next
        case False
        then obtain q where q: "hm_get (rr_registry r) s = Some q" by blast
        from ffi_fine_write [OF that] False obtain m' where "write_out out (from_process_id q) m = Some (True, m')" by blast
        then show ?thesis using 2 \<open>ffi_deref rt (fm_runtimes m) = Some (Some r)\<close> False q by (simp add: rebar_whereis_def)
      qed
      then show ?thesis using 2 \<open>ffi_deref rt (fm_runtimes m) = Some (Some r)\<close> by (simp add: rebar_register_def rebar_unregister_def)
    qed (use 2 in \<open>simp add: rebar_register_def rebar_unregister_def rebar_whereis_def\<close>)
  qed (simp add: rebar_register_def rebar_unregister_def rebar_whereis_def)
  then show "ffi_fine M m (rebar_register rt name len pid m)" "ffi_fine M m (rebar_unregister rt name len m)"
    "ptr_ok out (fm_pids m) \<Longrightarrow> ffi_fine M m (rebar_whereis rt name len out m)" by auto
qed

lemma rebar_spawn_fine:
  assumes "ptr_ok rt (fm_runtimes m)" and "ptr_ok out (fm_pids m)"
  shows "ffi_fine M m (rebar_spawn M can_block rt cb out m)"
proof -
  from assms(1) show ?thesis
  proof (cases rule: deref_ok)
    case (2 r)
    obtain pid runtime where s: "spawn M (rr_runtime r) = (pid, runtime)" by (cases "spawn M (rr_runtime r)")
    show ?thesis
    proof (cases "out \<noteq> 0 \<and> cb \<and> can_block")
      case True
      have "ptr_ok out (fm_pids (set_runtime rt (r\<lparr>rr_runtime := runtime\<rparr>) m))" using assms(2) by (simp add: set_runtime_def)
      from ffi_fine_write [OF this] True obtain m' where "write_out out (from_process_id pid) (set_runtime rt (r\<lparr>rr_runtime := runtime\<rparr>) m) = Some (True, m')" by blast
      then show ?thesis using True s 2 by (simp add: rebar_spawn_def)
    next
      case False
      then show ?thesis using 2 by (auto simp: rebar_spawn_def)
    qed
  qed (simp add: rebar_spawn_def)
qed

text \<open>
  C23: calls through the C interface are defined and fail cleanly. When every pointer of a call is null or valid and every buffer is readable (buffers of impossible
  lengths are not read at all), the call is defined, whichever function it is; it returns one of the seven codes, and if the code is not
  \<open>REBAR_OK\<close> nothing a caller can observe has changed: no message, name, process, mailbox or output slot.
\<close>

theorem ffi_calls_fail_cleanly:
  assumes "mpsc_ok M" and "runtimes_local m" and "call_ok c m"
  shows "\<exists>res m'. ffi_exec M V can_block c m = Some (res, m')
    \<and> (\<forall>k. res = ResCode k \<longrightarrow> k \<in> set ffi_codes \<and> (k \<noteq> REBAR_OK \<longrightarrow> same_memory M m m'))
    \<and> (res = ResPtr 0 \<longrightarrow> fm_next m = 0 \<or> m' = m)"
  using assms(3)
proof (cases c)
  case (CallMsgCreate data len)
  obtain y where y: "bytes_from data len (fm_bytes m) = Some y" using bytes_from_ok assms(3) CallMsgCreate by fastforce
  then show ?thesis using CallMsgCreate by (cases y) (auto simp: rebar_msg_create_def)
next
  case (CallSpawn rt cb out)
  then show ?thesis using rebar_spawn_fine [of rt m out M can_block cb] assms(3) by (auto simp: ffi_fine_def)
next
  case (CallSend rt dest msg)
  then show ?thesis using rebar_send_fine [OF assms(1,2), of rt msg V can_block dest] assms(3) by (auto simp: ffi_fine_def)
next
  case (CallSendNamed rt name len msg)
  then show ?thesis using rebar_send_named_fine [OF assms(1,2), of rt name len msg V can_block] assms(3) by (auto simp: ffi_fine_def)
next
  case (CallRegister rt name len pid)
  then show ?thesis using rebar_names_fine(1) [of rt m name len M pid] assms(3) by (auto simp: ffi_fine_def)
next
  case (CallUnregister rt name len)
  then show ?thesis using rebar_names_fine(2) [of rt m name len M] assms(3) by (auto simp: ffi_fine_def)
next
  case (CallWhereis rt name len out)
  then show ?thesis using rebar_names_fine(3) [of rt m name len out M] assms(3) by (auto simp: ffi_fine_def)
qed (auto simp: rebar_msg_data_def rebar_msg_len_def rebar_msg_free_def rebar_runtime_free_def drop_boxed_def ptr_ok_def ffi_deref_def hm_contains_def)

text \<open>What a name stands for in a runtime.\<close>

definition ffi_resolves :: "nat \<Rightarrow> u8 list \<Rightarrow> ('c, 'h) ffi_memory \<Rightarrow> process_id option" where
  "ffi_resolves rt s m = (case hm_get (fm_runtimes m) rt of None \<Rightarrow> None | Some r \<Rightarrow> hm_get (rr_registry r) s)"

lemma pid_roundtrip [simp]: "to_process_id (from_process_id q) = q" "from_process_id (to_process_id p) = p"
  by (simp_all add: to_process_id_def from_process_id_def process_id_new_def)

text \<open>
  The names of the C interface are a map per runtime, whose last writer wins. For a valid runtime and a readable UTF-8 name, registering and unregistering succeed and change this
  name of this runtime only; a lookup writes the registered process to its output slot, or reports that there is none;
  and the exit of a process leaves every name as it is, also those of the dead process.
\<close>

theorem ffi_names_exact:
  assumes "hm_get (fm_runtimes m) rt = Some r" and "rt \<noteq> 0" and "name_arg name len (fm_bytes m) = Some (Inr s)" and "out \<noteq> 0" and "hm_contains out (fm_pids m)"
  shows "(\<exists>m1. rebar_register rt name len pid m = Some (REBAR_OK, m1)
        \<and> (\<forall>rt' s'. ffi_resolves rt' s' m1 = (if rt' = rt \<and> s' = s then Some (to_process_id pid) else ffi_resolves rt' s' m)))
    \<and> (\<exists>m1. rebar_unregister rt name len m = Some (REBAR_OK, m1)
        \<and> (\<forall>rt' s'. ffi_resolves rt' s' m1 = (if rt' = rt \<and> s' = s then None else ffi_resolves rt' s' m)))
    \<and> rebar_whereis rt name len out m =
        (case ffi_resolves rt s m of
           None \<Rightarrow> Some (REBAR_ERR_NOT_FOUND, m)
         | Some q \<Rightarrow> Some (REBAR_OK, m\<lparr>fm_pids := hm_insert out (from_process_id q) (fm_pids m)\<rparr>))
    \<and> ffi_resolves rt' s' (set_runtime rt (r\<lparr>rr_runtime := snd (process_exit M V q (rr_runtime r))\<rparr>) m) = ffi_resolves rt' s' m"
proof -
  have d: "ffi_deref rt (fm_runtimes m) = Some (Some r)" using assms(1,2) by (simp add: ffi_deref_def)
  have n: "name \<noteq> 0" using assms(3) by (auto simp: name_arg_def split: if_splits)
  show ?thesis using assms n d
    by (auto simp: rebar_register_def rebar_unregister_def rebar_whereis_def ffi_resolves_def set_runtime_def write_out_def split: option.split)
qed

text \<open>
  A message of the C interface arrives as it was created. The message created from a readable buffer has its length and its bytes; sent to a process with an open
  unbounded mailbox it is accepted, and the mailbox has received exactly one more message: the bytes as one MessagePack binary, from the
  runtime. After it is freed the message must not be used.
\<close>

theorem ffi_message_arrives:
  assumes "mpsc_ok M" and "rmpv_ok V" and "bytes_from data len (fm_bytes m) = Some (Some bs)" and "fm_next m \<noteq> 0"
    and "hm_get (fm_runtimes m) rt = Some r" and "rt \<noteq> 0" and "rt_custom (rr_runtime r) = None" and "accepts M (rt_table (rr_runtime r)) (to_process_id dest)"
  shows "\<exists>p m1 m2 r2. rebar_msg_create data len m = Some (p, m1) \<and> p \<noteq> 0 \<and> length bs = len
    \<and> rebar_msg_len p m1 = Some len \<and> rebar_msg_data p m1 = Some (Some bs)
    \<and> rebar_send M V True rt dest p m1 = Some (REBAR_OK, m2) \<and> hm_get (fm_runtimes m2) rt = Some r2
    \<and> (\<exists>v. delivered M (rt_table (rr_runtime r2)) (to_process_id dest) = delivered M (rt_table (rr_runtime r)) (to_process_id dest) @ [(process_id_new (rt_node_id (rr_runtime r)) 0, v)]
         \<and> value_binary V v = Some bs)
    \<and> (\<forall>m3. rebar_msg_free p m2 = Some m3 \<longrightarrow> rebar_msg_data p m3 = None)"
proof -
  let ?p = "fm_next m" and ?x = "\<lparr>rm_data = bs\<rparr>" and ?from = "process_id_new (rt_node_id (rr_runtime r)) 0"
  let ?m1 = "m\<lparr>fm_msgs := hm_insert ?p ?x (fm_msgs m), fm_next := ?p + 1\<rparr>"
  let ?msg = "message_new_internal ?from (binary_value V bs)" and ?t = "rt_table (rr_runtime r)" and ?d = "to_process_id dest"
  have len: "length bs = len"
  proof (cases "len = 0")
    case False
    then have "those (map (\<lambda>i. hm_get (fm_bytes m) (data + i)) [0..<len]) = Some bs" using assms(3) by (auto simp: bytes_from_def split: if_splits)
    moreover have "those xs = Some ys \<Longrightarrow> length ys = length xs" for xs :: "u8 option list" and ys
      by (induction xs arbitrary: ys) (auto split: option.splits)
    ultimately show ?thesis by fastforce
  qed (use assms(3) in \<open>simp add: bytes_from_def\<close>)
  have "fst (table_send M ?d ?msg ?t) = Inr ()" using assms(8) by (auto simp: table_send_outcome [OF assms(1)] accepts_def mb_open_def mb_full_def)
  then obtain t where t: "table_send M ?d ?msg ?t = (Inr (), t)" by (cases "table_send M ?d ?msg ?t") auto
  let ?r2 = "r\<lparr>rr_runtime := (rr_runtime r)\<lparr>rt_table := t\<rparr>\<rparr>"
  have "rebar_send M V True rt dest ?p ?m1 = Some (REBAR_OK, set_runtime rt ?r2 ?m1)"
    using assms(4-7) t by (simp add: rebar_send_def ffi_deref_def ffi_send_def runtime_send_def runtime_route_def local_route_def Let_def)
  moreover have "delivered M (rt_table (rr_runtime ?r2)) ?d = delivered M ?t ?d @ [(?from, binary_value V bs)]"
    using inbox_after_send [OF assms(1), of ?d ?msg ?t ?d] t by (simp add: delivered_def message_new_internal_def)
  moreover have "rebar_msg_data ?p m3 = None" if "rebar_msg_free ?p (set_runtime rt ?r2 ?m1) = Some m3" for m3
    using that assms(4) by (auto simp: rebar_msg_free_def rebar_msg_data_def drop_boxed_def ffi_deref_def set_runtime_def hm_contains_def)
  ultimately show ?thesis using assms(2-4) len
    by (intro exI [of _ ?p] exI [of _ ?m1] exI [of _ "set_runtime rt ?r2 ?m1"] exI [of _ ?r2])
       (simp add: rebar_msg_create_def rebar_msg_len_def rebar_msg_data_def ffi_deref_def set_runtime_def)
qed

section \<open>A concrete memory\<close>

text \<open>A runtime at 2 with one process, a name in a buffer at 10 and an output slot at 20.\<close>

definition sample_memory :: "(wire_value message chan, nat) ffi_memory" where
  "sample_memory = \<lparr>fm_msgs = hm_empty, fm_runtimes = [(2, \<lparr>rr_runtime = snd (spawn list_mpsc (runtime_new 5)), rr_registry = hm_empty\<rparr>)],
     fm_bytes = [(10, 0x61), (11, 0xC3), (12, 0xA9)], fm_pids = [(20, \<lparr>rp_node_id = 0, rp_local_id = 0\<rparr>)], fm_next = 30\<rparr>"

lemma sample_memory_runtime: "hm_get (fm_runtimes sample_memory) 2 = Some \<lparr>rr_runtime = snd (spawn list_mpsc (runtime_new 5)), rr_registry = hm_empty\<rparr>"
  by (simp add: sample_memory_def hm_get_def)

lemma sample_memory_name: "bytes_from 10 3 (fm_bytes sample_memory) = Some (Some [0x61, 0xC3, 0xA9])" "name_arg 10 3 (fm_bytes sample_memory) = Some (Inr [0x61, 0xC3, 0xA9])"
  by (simp_all add: sample_memory_def bytes_from_def name_arg_def isize_max_def hm_get_def upt_rec in_range_def)

theorem ffi_calls_fail_cleanly_witness:
  "\<exists>m'. ffi_exec list_mpsc wire True (CallWhereis 2 10 3 20) sample_memory = Some (ResCode REBAR_ERR_NOT_FOUND, m') \<and> same_memory list_mpsc sample_memory m'"
proof -
  have r: "runtimes_local sample_memory" by (simp add: runtimes_local_def sample_memory_def hm_get_def spawn_def runtime_new_def Let_def case_prod_beta)
  have "call_ok (CallWhereis 2 10 3 20) sample_memory"
    by (auto simp: sample_memory_def ptr_ok_def buffer_ok_def hm_contains_def hm_get_def less_Suc_eq numeral_3_eq_3)
  from ffi_calls_fail_cleanly [OF list_mpsc_ok r this, of wire True] obtain res m' where
    e: "ffi_exec list_mpsc wire True (CallWhereis 2 10 3 20) sample_memory = Some (res, m')"
    and s: "\<forall>k. res = ResCode k \<longrightarrow> k \<in> set ffi_codes \<and> (k \<noteq> REBAR_OK \<longrightarrow> same_memory list_mpsc sample_memory m')" by blast
  have "res = ResCode REBAR_ERR_NOT_FOUND" using e by (auto simp: rebar_whereis_def ffi_deref_def sample_memory_runtime sample_memory_name)
  then show ?thesis using e s by (auto simp: rebar_codes)
qed

theorem ffi_names_exact_witness:
  "\<exists>m1. rebar_register 2 10 3 \<lparr>rp_node_id = 7, rp_local_id = 8\<rparr> sample_memory = Some (REBAR_OK, m1) \<and> ffi_resolves 2 [0x61, 0xC3, 0xA9] m1 = Some (process_id_new 7 8)"
proof -
  have o: "hm_contains 20 (fm_pids sample_memory)" by (simp add: sample_memory_def hm_contains_def hm_get_def)
  have "\<exists>m1. rebar_register 2 10 3 \<lparr>rp_node_id = 7, rp_local_id = 8\<rparr> sample_memory = Some (REBAR_OK, m1)
      \<and> (\<forall>rt' s'. ffi_resolves rt' s' m1 = (if rt' = 2 \<and> s' = [0x61, 0xC3, 0xA9] then Some (to_process_id \<lparr>rp_node_id = 7, rp_local_id = 8\<rparr>)
           else ffi_resolves rt' s' sample_memory))"
    by (rule ffi_names_exact [OF sample_memory_runtime _ sample_memory_name(2) _ o, THEN conjunct1]) simp_all
  then show ?thesis by (auto simp: to_process_id_def)
qed

theorem ffi_message_arrives_witness:
  "\<exists>p m1 m2. rebar_msg_create 10 3 sample_memory = Some (p, m1) \<and> rebar_send list_mpsc wire True 2 \<lparr>rp_node_id = 5, rp_local_id = 1\<rparr> p m1 = Some (REBAR_OK, m2)"
proof -
  have "accepts list_mpsc (rt_table (rr_runtime \<lparr>rr_runtime = snd (spawn list_mpsc (runtime_new 5)), rr_registry = hm_empty :: (u8 list, process_id) hashmap\<rparr>)) (to_process_id \<lparr>rp_node_id = 5, rp_local_id = 1\<rparr>)"
    by (simp add: accepts_def spawn_def allocate_pid_def table_insert_def runtime_new_def table_new_def process_id_new_def to_process_id_def mailbox_unbounded_def list_mpsc_def)
  from ffi_message_arrives [OF list_mpsc_ok wire_ok sample_memory_name(1) _ sample_memory_runtime _ _ this]
  show ?thesis by (auto simp: sample_memory_def spawn_def runtime_new_def Let_def case_prod_beta)
qed

end
