(* ===== verification/Quic.thy ===== *)
theory Quic
  imports Tcp
begin

text \<open>
  The QUIC transport (\<^verbatim>\<open>crates/rebar-cluster/src/transport/quic.rs\<close>): every frame on a unidirectional stream of its own, behind a 32-bit length, and the
  verification of the peer's certificate. QUIC and TLS are outside the repository: a connection holds the streams
  its peer opened, in the order in which it accepts them, and those it opened itself; SHA-256 and the verification of handshake signatures are
  arguments. The theory shows that frames cannot disturb each other, and whom a client connects to.
\<close>

section \<open>Certificates\<close>

type_synonym certificate = "u8 list"

definition cert_fingerprint :: "(u8 list \<Rightarrow> cert_hash) \<Rightarrow> certificate \<Rightarrow> cert_hash" where
  "cert_fingerprint sha256 cert = sha256 cert"

text \<open>\<open>certify\<close>: the generation of a self-signed certificate and its key, which may fail.\<close>

definition try_generate_self_signed_cert ::
  "(u8 list \<Rightarrow> cert_hash) \<Rightarrow> (string + certificate \<times> 'k) \<Rightarrow> transport_error + certificate \<times> 'k \<times> cert_hash" where
  "try_generate_self_signed_cert sha256 certified =
     (case certified of
        Inl e \<Rightarrow> Inl (TransportIo (OtherIo e))
      | Inr (cert, key) \<Rightarrow> Inr (cert, key, cert_fingerprint sha256 cert))"

definition generate_self_signed_cert :: "(u8 list \<Rightarrow> cert_hash) \<Rightarrow> (string + certificate \<times> 'k) \<Rightarrow> (certificate \<times> 'k \<times> cert_hash) option" where
  "generate_self_signed_cert sha256 certified =
     (case try_generate_self_signed_cert sha256 certified of Inl _ \<Rightarrow> None | Inr x \<Rightarrow> Some x)"

datatype rustls_error = General string | OtherTls

definition verify_server_cert :: "(u8 list \<Rightarrow> cert_hash) \<Rightarrow> cert_hash \<Rightarrow> certificate \<Rightarrow> rustls_error + unit" where
  "verify_server_cert sha256 pinned end_entity =
     (let fingerprint = cert_fingerprint sha256 end_entity in
      if fingerprint = pinned then Inr () else Inl (General ''certificate fingerprint mismatch''))"

text \<open>\<open>provider\<close>: \<open>rustls::crypto::verify_tls13_signature\<close> with the algorithms of the provider, on a message, a certificate and a signature.\<close>

definition verify_tls13_signature ::
  "(u8 list \<Rightarrow> certificate \<Rightarrow> u8 list \<Rightarrow> rustls_error + unit) \<Rightarrow> u8 list \<Rightarrow> certificate \<Rightarrow> u8 list \<Rightarrow> rustls_error + unit" where
  "verify_tls13_signature provider msg cert dss = provider msg cert dss"

definition verify_tls12_signature ::
  "(u8 list \<Rightarrow> certificate \<Rightarrow> u8 list \<Rightarrow> rustls_error + unit) \<Rightarrow> u8 list \<Rightarrow> certificate \<Rightarrow> u8 list \<Rightarrow> rustls_error + unit" where
  "verify_tls12_signature provider msg cert dss = provider msg cert dss"

section \<open>Connections\<close>

text \<open>
  \<open>qc_incoming\<close>: the bytes of each stream of the peer up to its end. \<open>qc_closed\<close>: the error of the operations of a closed connection.
\<close>

record quic_connection =
  qc_incoming :: "u8 list list"
  qc_opened :: "u8 list list"
  qc_closed :: "string option"

text \<open>What a client meets when it dials: nothing, or a peer with its certificate and the signature of the handshake. A handshake consults both checks of the verifier.\<close>

record quic_peer =
  qp_cert :: certificate
  qp_transcript :: "u8 list"
  qp_signature :: "u8 list"

definition quic_connect ::
  "(u8 list \<Rightarrow> cert_hash) \<Rightarrow> (u8 list \<Rightarrow> certificate \<Rightarrow> u8 list \<Rightarrow> rustls_error + unit) \<Rightarrow> cert_hash \<Rightarrow> quic_peer option \<Rightarrow> transport_error + quic_connection" where
  "quic_connect sha256 provider pinned dialled =
     (case dialled of
        None \<Rightarrow> Inl (TransportIo (OtherIo ''timed out''))
      | Some p \<Rightarrow>
          (case verify_server_cert sha256 pinned (qp_cert p) of
             Inl _ \<Rightarrow> Inl (TransportIo (OtherIo ''handshake failed''))
           | Inr _ \<Rightarrow>
               (case verify_tls13_signature provider (qp_transcript p) (qp_cert p) (qp_signature p) of
                  Inl _ \<Rightarrow> Inl (TransportIo (OtherIo ''handshake failed''))
                | Inr _ \<Rightarrow> Inr \<lparr>qc_incoming = [], qc_opened = [], qc_closed = None\<rparr>)))"

text \<open>The connector of the connection manager dials every node with the one fingerprint it was made with.\<close>

record quic_connector =
  qt_expected_cert_hash :: cert_hash

definition quic_connector_connect ::
  "(u8 list \<Rightarrow> cert_hash) \<Rightarrow> (u8 list \<Rightarrow> certificate \<Rightarrow> u8 list \<Rightarrow> rustls_error + unit) \<Rightarrow> (socket_addr \<Rightarrow> quic_peer option) \<Rightarrow> quic_connector \<Rightarrow> socket_addr
     \<Rightarrow> transport_error + quic_connection" where
  "quic_connector_connect sha256 provider net t addr = quic_connect sha256 provider (qt_expected_cert_hash t) (net addr)"

section \<open>Frames\<close>

text \<open>\<open>None\<close> is a panic of the frame encoder.\<close>

definition quic_send :: "('v \<Rightarrow> u8 list option) \<Rightarrow> 'v frame \<Rightarrow> quic_connection \<Rightarrow> ((transport_error + unit) \<times> quic_connection) option" where
  "quic_send wv f c =
     (case frame_encode wv f of
        None \<Rightarrow> None
      | Some encoded \<Rightarrow> Some (
          if 2 ^ 32 \<le> length encoded then (Inl (TransportIo (OtherIo ''out of range integral type conversion attempted'')), c)
          else
            (case qc_closed c of
               Some e \<Rightarrow> (Inl (TransportIo (OtherIo e)), c)
             | None \<Rightarrow> (Inr (), c\<lparr>qc_opened := qc_opened c @ [to_be_bytes 4 (word_of_nat (length encoded) :: u32) @ encoded]\<rparr>))))"

text \<open>The reads of one stream.\<close>

definition recv_stream :: "nat \<Rightarrow> (u8 list \<Rightarrow> string + 'v) \<Rightarrow> u8 list \<Rightarrow> transport_error + 'v frame" where
  "recv_stream umax rv s =
     (if length s < 4 then Inl (TransportIo (OtherIo ''stream finished early''))
      else
        let len = unat (from_be_bytes (take 4 s) :: u32) in
        if len > MAX_FRAME_SIZE then Inl (FrameTooLarge len MAX_FRAME_SIZE)
        else if length (drop 4 s) < len then Inl (TransportIo (OtherIo ''stream finished early''))
        else map_sum TransportFrame (\<lambda>f. f) (frame_decode umax rv (take len (drop 4 s))))"

text \<open>With no further stream the call waits until the connection is lost.\<close>

definition quic_recv :: "nat \<Rightarrow> (u8 list \<Rightarrow> string + 'v) \<Rightarrow> quic_connection \<Rightarrow> (transport_error + 'v frame) \<times> quic_connection" where
  "quic_recv umax rv c =
     (case qc_incoming c of
        [] \<Rightarrow> (Inl (TransportIo (OtherIo (case qc_closed c of Some e \<Rightarrow> e | None \<Rightarrow> ''connection lost''))), c)
      | s # ss \<Rightarrow> (recv_stream umax rv s, c\<lparr>qc_incoming := ss\<rparr>))"

definition quic_close :: "quic_connection \<Rightarrow> (transport_error + unit) \<times> quic_connection" where
  "quic_close c = (Inr (), c\<lparr>qc_closed := Some ''closed''\<rparr>)"

section \<open>Sequences of frames\<close>

fun quic_send_all :: "('v \<Rightarrow> u8 list option) \<Rightarrow> 'v frame list \<Rightarrow> quic_connection \<Rightarrow> ((transport_error + unit) list \<times> quic_connection) option" where
  "quic_send_all wv [] c = Some ([], c)"
| "quic_send_all wv (f # fs) c =
     (case quic_send wv f c of
        None \<Rightarrow> None
      | Some (r, c1) \<Rightarrow> map_option (\<lambda>(rs, c2). (r # rs, c2)) (quic_send_all wv fs c1))"

fun quic_recv_many :: "nat \<Rightarrow> (u8 list \<Rightarrow> string + 'v) \<Rightarrow> nat \<Rightarrow> quic_connection \<Rightarrow> (transport_error + 'v frame) list \<times> quic_connection" where
  "quic_recv_many umax rv 0 c = ([], c)"
| "quic_recv_many umax rv (Suc n) c =
     (let (r, c1) = quic_recv umax rv c; (rs, c2) = quic_recv_many umax rv n c1 in (r # rs, c2))"

lemma quic_recv_streams:
  "quic_recv_many umax rv (length ss) (c\<lparr>qc_incoming := ss @ rest\<rparr>) = (map (recv_stream umax rv) ss, c\<lparr>qc_incoming := rest\<rparr>)"
  by (induction ss) (simp_all add: quic_recv_def)

lemma quic_send_all_opened:
  assumes "list_all2 (\<lambda>f bs. frame_encode wv f = Some bs \<and> length bs < 2 ^ 32) fs blocks" and "qc_closed c = None"
  shows "quic_send_all wv fs c = Some (map (\<lambda>_. Inr ()) fs, c\<lparr>qc_opened := qc_opened c @ map delimit blocks\<rparr>)"
  using assms
proof (induction arbitrary: c rule: list_all2_induct)
  case (Cons f fs bs blocks)
  then show ?case by (simp add: quic_send_def delimit_def)
qed simp

lemma recv_stream_block:
  assumes "length bs < 2 ^ 32"
  shows "recv_stream umax rv (delimit bs) =
    (if length bs > MAX_FRAME_SIZE then Inl (FrameTooLarge (length bs) MAX_FRAME_SIZE) else map_sum TransportFrame (\<lambda>f. f) (frame_decode umax rv bs))"
  using delimit_prefix [OF assms, of "[]"] by (simp add: recv_stream_def delimit_def [of bs] Let_def)


text \<open>
  A client connects exactly to a peer that shows the pinned certificate and proves possession of its key: connecting succeeds if and only if something answers, the SHA-256 of its
  certificate is the expected one and its handshake signature verifies against this certificate. A connector for the connection manager has one fingerprint for all
  nodes, so of two nodes with different fingerprints it never reaches both.
\<close>

theorem quic_connects_to_pinned_peer:
  "((\<exists>c. quic_connect sha256 provider pinned dialled = Inr c) \<longleftrightarrow>
     (case dialled of None \<Rightarrow> False | Some p \<Rightarrow> sha256 (qp_cert p) = pinned \<and> provider (qp_transcript p) (qp_cert p) (qp_signature p) = Inr ()))
   \<and> (case (net a, net b) of
        (Some p, Some q) \<Rightarrow> sha256 (qp_cert p) = sha256 (qp_cert q)
          \<or> (\<exists>e. quic_connector_connect sha256 provider net t a = Inl e) \<or> (\<exists>e. quic_connector_connect sha256 provider net t b = Inl e)
      | _ \<Rightarrow> (\<exists>e. quic_connector_connect sha256 provider net t a = Inl e) \<or> (\<exists>e. quic_connector_connect sha256 provider net t b = Inl e))"
  by (auto simp: quic_connect_def quic_connector_connect_def verify_server_cert_def verify_tls13_signature_def cert_fingerprint_def Let_def
      split: option.split sum.split)

section \<open>A concrete connection\<close>

definition idle_quic :: quic_connection where
  "idle_quic = \<lparr>qc_incoming = [], qc_opened = [], qc_closed = None\<rparr>"


end
