(* ===== verification/Spec2Isabelle.thy ===== *)
theory Spec2Isabelle
  imports Registry_Sync Backpressure Stage_Process Application Pg Drain Supervision Gen_Statem Coordinator_Handle Node Partition Timer Task Agent Ffi Quic
begin

text \<open>
  A verification of the Rebar actor runtime: the crates \<^verbatim>\<open>rebar-core\<close> (processes, supervisors and behaviours on one node), \<^verbatim>\<open>rebar-cluster\<close>
  (frames, transports, membership, the global registry, routing between nodes), \<^verbatim>\<open>rebar\<close> (the node that wires both) and \<^verbatim>\<open>rebar-ffi\<close> (the C interface).
  Paths below are relative to \<^verbatim>\<open>crates/\<close>.

  \<^bold>\<open>The program.\<close> A node has a process table: a concurrent map from process identifiers to mailboxes, with registered names, monitors and exit
  hooks. The runtime spawns processes into it and a drop guard cleans up behind them. Messages go through a router: the local one puts them into
  mailboxes, the distributed one turns those for other nodes into frames and queues them for the connection task. Supervisors restart children,
  generic servers, state machines, stages, agents, tasks, timers, coordinators, process groups and applications are built on these parts. In a cluster a
  SWIM service detects failures and gossips, a connection manager keeps the links, an observed-remove set replicates the names, and a drain lets a node leave.

  \<^bold>\<open>Theories and sources.\<close> Every theory has the types, then the operations in the order of the code, then the lemmas and properties.
  \<^item> \<open>Prelude\<close>, \<open>Std\<close>: machine integers with saturation and wrap-around, big-endian bytes, \<open>HashMap\<close> as an association list, decimal numbers, iterator and
    vector functions of the Rust library; the locales the components share.
  \<^item> \<open>Process\<close>, \<open>Value\<close>, \<open>Mailbox\<close>, \<open>Monitor\<close>, \<open>Table\<close>: \<^verbatim>\<open>rebar-core/src/process/\<close>. \<open>Router\<close>, \<open>Runtime\<close>: \<^verbatim>\<open>router.rs\<close> and \<^verbatim>\<open>runtime.rs\<close> of
    \<^verbatim>\<open>rebar-core\<close>, and \<^verbatim>\<open>router.rs\<close> of \<^verbatim>\<open>rebar-cluster\<close>.
  \<^item> \<open>Supervisor\<close>, \<open>Dyn_Supervisor\<close>, \<open>Partition\<close>: \<^verbatim>\<open>supervisor/\<close> and \<^verbatim>\<open>partition_supervisor/\<close>, one message of a loop at a time. \<open>Handle\<close>, \<open>Supervision\<close>: supervisors as
    processes whose clients send requests and wait for replies.
  \<^item> \<open>Gen_Server\<close>, \<open>Gen_Statem\<close>: \<^verbatim>\<open>gen_server/\<close>, \<^verbatim>\<open>sys/types.rs\<close>, \<^verbatim>\<open>gen_statem/\<close>. \<open>Dispatcher\<close>, \<open>Stage\<close>, \<open>Stage_Protocol\<close>, \<open>Backpressure\<close>, \<open>Stage_Process\<close>: \<^verbatim>\<open>gen_stage/\<close>, as
    dispatchers, handlers, the invariant of a stage, two stages in a net, and the process of a stage.
  \<^item> \<open>Application\<close>, \<open>Pg\<close>, \<open>Timer\<close>, \<open>Task\<close>, \<open>Agent\<close>: \<^verbatim>\<open>application/\<close>, \<^verbatim>\<open>pg/\<close>, \<^verbatim>\<open>timer/\<close>, \<^verbatim>\<open>task/\<close>, \<^verbatim>\<open>agent/\<close>. \<open>Coordinator\<close>, \<open>Coordinator_Handle\<close>: \<^verbatim>\<open>coordinator/\<close>, the scheduler
    with its collectors and the handle with \<open>submit_many\<close>.
  \<^item> \<open>Frame\<close>, \<open>Tcp\<close>, \<open>Quic\<close>, \<open>Connection\<close>: \<^verbatim>\<open>rebar-cluster/src/protocol/frame.rs\<close>, \<^verbatim>\<open>transport/\<close>, \<^verbatim>\<open>connection/manager.rs\<close>. \<open>Crdt\<close>, \<open>Registry\<close>, \<open>Registry_Sync\<close>: \<^verbatim>\<open>registry/orset.rs\<close>.
    \<open>Gossip\<close>, \<open>Member\<close>, \<open>Detector\<close>, \<open>Swim\<close>: \<^verbatim>\<open>swim/\<close>. \<open>Drain\<close>: \<^verbatim>\<open>drain.rs\<close>. \<open>Node\<close>: \<^verbatim>\<open>rebar/src/lib.rs\<close>. \<open>Ffi\<close>: \<^verbatim>\<open>rebar-ffi/src/lib.rs\<close>.
  \<^item> This theory: properties of components that work together, a submitted task on its way through coordinator, table, worker and collector, and a
    peer that falls silent, from the failure detector to the connections of the node.

  \<^bold>\<open>How state and operations are modelled.\<close> A struct is a record, an enum a datatype, a method a function from the state to its result and the state after it. Errors are
  values of a sum type; \<open>None\<close> is a panic, undefined behaviour or a loop that still waits, as each definition says. Concurrency is interleaving: what the code does under one lock, in one
  access to a concurrent map, or between two waits of an event loop is one step, and operations with windows in between (\<open>register\<close>, \<open>monitor\<close>, \<open>leave\<close>) are split at them. A
  oneshot channel is a number or the state of a channel. Integers keep their width: \<open>u64\<close>, \<open>u32\<close> and \<open>u8\<close> are words, \<open>usize\<close> is a natural number of a 64-bit target, with
  additions that wrap (\<open>usize_add\<close>) and subtractions that stop at zero where the source saturates.

  \<^bold>\<open>What is outside the sources\<close> is an argument, with its documented behaviour as a named hypothesis: MessagePack values and their codec (\<open>rmpv\<close> with \<open>rmpv_ok\<close>, \<open>wv\<close> and \<open>rv\<close>), tokio's channels
  (\<open>mpsc\<close> with \<open>mpsc_ok\<close>, the drop of a receiver with \<open>closes\<close>), the serde codec and the random choices of SWIM (\<open>swim_world\<close> with \<open>swim_world_ok\<close>), iteration orders of hash maps (\<open>hash_order\<close>), the tags of
  \<open>Uuid::new_v4\<close>, the clock, sockets (\<open>transport\<close>), SHA-256 and the handshake checks of rustls, user callbacks (\<open>gen_server\<close>, \<open>gen_statem\<close>, \<open>gen_stage\<close>, \<open>app_calls\<close>), and what child tasks do
  (\<open>boots\<close>, \<open>finishes\<close>). \<open>list_mpsc\<close>, \<open>wire\<close>, \<open>sample_world\<close> and \<open>sample_transport\<close> are concrete instances; they discharge the hypotheses in the witnesses.

  \<^bold>\<open>Interfaces.\<close> \<open>map_contract\<close> (hash maps), \<open>tagged_crdt\<close> (the registry), \<open>dispatcher\<close> (both stage dispatchers), \<open>message_router\<close> with \<open>channels\<close> and \<open>cluster_channels\<close> (both routers), and
  \<open>request_server\<close> (both supervisors) are locales with the laws their clients rely on. \<open>step_invariant\<close>, \<open>monotone_steps\<close>, \<open>transition_invariant\<close> and \<open>working_system\<close> carry the induction
  over executions: the gossip queue, the detector, the SWIM service, the membership list, the registry, the connection manager, the dynamic supervisor, the
  coordinator, stages, timers, tasks, \<open>async_map\<close> and \<open>submit_many\<close> are interpretations, and requests to a supervisor are one in every \<open>request_server\<close>.

  \<^bold>\<open>What is shown.\<close>
  \<^item> Replication: replicas of the registry that got the same deltas, in any order and number, answer every lookup alike; a removed registration does not come back; a full sync repairs a
    replica; all of it as long as no tombstone is evicted and tags are unique.
  \<^item> Delivery: mailboxes are queues; what a process sends to another node arrives once and in order, through router, outbound queue, frames and TCP; the frame decoder agrees with a specification
    over unbounded lengths; streams of frames keep their boundaries, also next to frames that cannot be decoded.
  \<^item> Life and death of processes: names and monitors always agree with the table; an exit sends one notice per monitor and leaves nothing behind; restarts stop and start exactly the group their strategy
    names, within the restart intensity; children of a dynamic supervisor that were stopped stay down; requests to supervisors, coordinators, servers and stages are answered once or fail with their process.
  \<^item> Failure detection: memberships only get fresher and a node never doubts itself; a silent peer is declared dead after its time and not before, and its connection dropped.
  \<^item> Back-pressure: demand and events of a subscription stay within the window; the invariant of a stage bounds its buffer.
  \<^item> Scheduling: the least-loaded live worker is chosen; timers keep to their schedule; \<open>async_map\<close> and \<open>submit_many\<close> return results in order and within their permits; applications start in dependency order and all or none.
  \<^item> The C interface reports errors without a change anyone can see.

  \<^bold>\<open>Termination and bounds.\<close> Loops of the code that recur on a list are structural. Those with a measure: \<open>topo_loop\<close> (unvisited applications and edges on
  the stack) and \<open>pick_live_worker\<close> (workers left); \<open>dispatch_task\<close> counts its attempts, as the code does. \<open>cap_loop\<close> has fuel, one round per tombstone, which is enough (\<open>cap_loop_Some\<close>). \<open>drain_mailbox\<close> is partial and proved to return. \<open>drain_loop\<close> consumes a script of ticks, one per round; \<open>node_drain_correct\<close> is about
  scripts long enough to end it, which the deadline guarantees. The \<open>working_system\<close> interpretations give the number of steps after which a coordinator, \<open>async_map\<close> or
  \<open>submit_many\<close> has finished. There is no other fuel.

  \<^bold>\<open>Not modelled.\<close> The scheduler of tokio and real time (steps come in any order, time is an argument); the thread pool behind \<open>RuntimeBuilder\<close>, whose settings are; listening and accepting of QUIC and TCP, which
  configure and call the libraries; \<open>Debug\<close> formatters; types no code uses (\<open>SystemEvent\<close>, \<open>ProcessStatistics\<close>, \<open>CallbackMode\<close>); module declarations, tests, benchmarks, the clients in other
  languages and the documentation, except where the code contradicts it.
\<close>

section \<open>A submitted task and its worker\<close>

lemma pick_live_worker_nonempty: "pick_live_worker t s = (Some worker, s1) \<Longrightarrow> cs_workers s \<noteq> []"
  by (auto simp: pick_live_worker.simps [of t s] pick_worker_def min_by_key_def split: option.splits)

text \<open>What the handler of a submit does when there is a live worker that can receive.\<close>

lemma submit_dispatched:
  fixes task :: 'v and w :: "('c, 'h, 'v) coord_world" and tx :: nat and timeout :: duration
  assumes "mpsc_ok M" and "pick_live_worker (cw_table w) s = (Some worker, s1)" and "accepts M (cw_table w) worker"
    and "\<not> alive (cw_table w) (fst (allocate_pid (cw_table w)))"
  defines "rp \<equiv> fst (allocate_pid (cw_table w))"
  defines "c \<equiv> \<lparr>co_reply_pid = rp, co_worker = worker, co_task = task, co_reply = tx, co_timeout = timeout, co_remaining = length (cs_workers s) - 1\<rparr>"
  shows "\<exists>t. handle_coord_msg M V (CmSubmit task tx timeout) (s, w) = (False, s1, w\<lparr>cw_table := t, cw_collectors := cw_collectors w @ [c]\<rparr>)
    \<and> delivered M t worker = delivered M (cw_table w) worker @ [(process_id_new 0 0, task_message V task rp)]
    \<and> accepts M t rp \<and> inbox M t rp = []"
proof -
  define t1 where "t1 = snd (allocate_pid (cw_table w))"
  define t2 where "t2 = table_insert rp (mailbox_unbounded M) t1"
  let ?msg = "message_new_internal (process_id_new 0 0) (task_message V task rp)"
  define t3 where "t3 = snd (table_send M worker ?msg t2)"
  have t1: "tb_processes t1 = tb_processes (cw_table w)" by (simp add: t1_def allocate_pid_def)
  have wr: "worker \<noteq> rp" using accepts_alive [OF assms(3)] assms(4) by (auto simp: rp_def)
  have acc: "accepts M t2 worker" "accepts M t2 rp" and ib: "inbox M t2 worker = inbox M (cw_table w) worker" "inbox M t2 rp = []"
    using assms(1,3) wr by (simp_all add: accepts_def inbox_def t2_def table_insert_def t1 mailbox_unbounded_def mb_queue_def mpsc_ok_def)
  have "dispatch_task M V task tx timeout (length (cs_workers s)) (s, w) = (s1, w\<lparr>cw_table := t3, cw_collectors := cw_collectors w @ [c]\<rparr>)"
    using pick_live_worker_nonempty [OF assms(2)] table_send_accepted [OF assms(1) acc(1), of ?msg]
    by (cases "cs_workers s")
       (simp_all add: assms(2) local_route_def Let_def case_prod_beta rp_def [symmetric] t1_def [symmetric] t2_def [symmetric] t3_def c_def)
  moreover have "delivered M t3 worker = delivered M (cw_table w) worker @ [(process_id_new 0 0, task_message V task rp)]"
    using inbox_send [OF assms(1) acc(1), of worker ?msg] by (simp add: delivered_def t3_def ib)
  moreover have "accepts M t3 rp" "inbox M t3 rp = []"
    using inbox_send [OF assms(1) acc(2), of worker ?msg] acc(2) wr assms(1) by (simp_all add: t3_def ib)
  ultimately show ?thesis by (intro exI [of _ t3]) simp
qed

text \<open>What a collector does with the first message to its pid.\<close>

lemma collector_answers:
  assumes "mpsc_ok M" and "accepts M (cw_table w) (co_reply_pid c)" and "inbox M (cw_table w) (co_reply_pid c) = []"
  shows "\<exists>t' mb msg w''. local_route M worker (co_reply_pid c) v (cw_table w) = Some (Inr (), t')
    \<and> hm_get (tb_processes t') (co_reply_pid c) = Some mb \<and> fst (mailbox_recv M False mb) = Some (Some msg)
    \<and> collector_finish M V True elapsed (Received msg) c (w\<lparr>cw_table := t', cw_collectors := cs\<rparr>) = w''
    \<and> cw_replies w'' = cw_replies w @ [(co_reply c, SubmitReply (Inr v))]
    \<and> cw_completions w'' = cw_completions w @ [TcOk (co_worker c) (u64_try_from_or elapsed u64_max)]
    \<and> \<not> alive (cw_table w'') (co_reply_pid c)"
proof -
  let ?rp = "co_reply_pid c" and ?m = "message_new_internal worker v"
  define t4 where "t4 = snd (table_send M ?rp ?m (cw_table w))"
  have r: "local_route M worker ?rp v (cw_table w) = Some (Inr (), t4)"
    using table_send_accepted [OF assms(1,2), of ?m] by (simp add: local_route_def Let_def t4_def prod_eq_iff)
  have i4: "inbox M t4 ?rp = [?m]" "accepts M t4 ?rp" using inbox_send [OF assms(1,2), of ?rp ?m] assms by (simp_all add: t4_def)
  then obtain mb where mb: "hm_get (tb_processes t4) ?rp = Some mb" "mb_queue M mb = [?m]" by (auto simp: inbox_def split: option.splits)
  have rc: "fst (mailbox_recv M False mb) = Some (Some ?m)"
    using mailbox_try_recv_spec(1) [OF assms(1), of mb] mb(2) by (auto simp: mailbox_recv_eq split: prod.splits option.splits)
  have gone: "\<not> alive (cleaned M V ?rp t4) ?rp" by (simp add: cleanup_names_view(3) [OF accepts_alive [OF i4(2)]])
  let ?w = "collector_finish M V True elapsed (Received ?m) c (w\<lparr>cw_table := t4, cw_collectors := cs\<rparr>)"
  have "cw_replies ?w = cw_replies w @ [(co_reply c, SubmitReply (Inr v))]" "cw_table ?w = cleaned M V ?rp t4"
    "cw_completions ?w = cw_completions w @ [TcOk (co_worker c) (u64_try_from_or elapsed u64_max)]"
    by (simp_all add: collector_finish_def cleanup_collector_def send_reply_def send_completion_def case_prod_beta Let_def)
  with r mb(1) rc gone show ?thesis by metis
qed

text \<open>
  C8: a task submitted to a coordinator with a live worker gets the worker's answer. The handler of the submit puts the task message into the
  mailbox of the least-loaded live worker and starts one collector; when the worker sends any value to the pid in the message, the collector receives it, and
  by its end the caller is answered with that value, the completion is reported to the scheduler and the collector's process is gone.
\<close>

theorem submit_end_to_end:
  assumes "mpsc_ok M" and "pick_live_worker (cw_table w) s = (Some worker, s1)" and "accepts M (cw_table w) worker"
    and "\<not> alive (cw_table w) (fst (allocate_pid (cw_table w)))"
  shows "\<exists>w' c. handle_coord_msg M V (CmSubmit task tx timeout) (s, w) = (False, s1, w')
    \<and> cw_collectors w' = cw_collectors w @ [c]
    \<and> delivered M (cw_table w') worker = delivered M (cw_table w) worker @ [(process_id_new 0 0, task_message V task (co_reply_pid c))]
    \<and> (\<forall>v. \<exists>t' mb msg w''. local_route M worker (co_reply_pid c) v (cw_table w') = Some (Inr (), t')
         \<and> hm_get (tb_processes t') (co_reply_pid c) = Some mb \<and> fst (mailbox_recv M False mb) = Some (Some msg)
         \<and> collector_finish M V True elapsed (Received msg) c (w'\<lparr>cw_table := t', cw_collectors := cw_collectors w\<rparr>) = w''
         \<and> cw_replies w'' = cw_replies w @ [(tx, SubmitReply (Inr v))]
         \<and> cw_completions w'' = cw_completions w @ [TcOk worker (u64_try_from_or elapsed u64_max)]
         \<and> \<not> alive (cw_table w'') (co_reply_pid c))"
proof -
  let ?rp = "fst (allocate_pid (cw_table w))"
  define c where "c = \<lparr>co_reply_pid = ?rp, co_worker = worker, co_task = task, co_reply = tx, co_timeout = timeout, co_remaining = length (cs_workers s) - 1\<rparr>"
  obtain t where h: "handle_coord_msg M V (CmSubmit task tx timeout) (s, w) = (False, s1, w\<lparr>cw_table := t, cw_collectors := cw_collectors w @ [c]\<rparr>)"
    and d: "delivered M t worker = delivered M (cw_table w) worker @ [(process_id_new 0 0, task_message V task ?rp)]"
    and acc: "accepts M t ?rp" "inbox M t ?rp = []"
    using submit_dispatched [OF assms, of V task tx timeout] by (auto simp: c_def)
  note answers = collector_answers [OF assms(1), where w = "w\<lparr>cw_table := t, cw_collectors := cw_collectors w @ [c]\<rparr>" and c = c
      and worker = worker and V = V and elapsed = elapsed and cs = "cw_collectors w"]
  show ?thesis
    by (rule exI, rule exI [of _ c], intro conjI allI, rule h) (use d acc answers in \<open>simp_all add: c_def\<close>)
qed

lemma sample_pool_worker:
  "pick_live_worker (cw_table (cr_world sample_pool_run)) (cr_state sample_pool_run)
     = (Some sample_worker_pid, snd (pick_live_worker (cw_table (cr_world sample_pool_run)) (cr_state sample_pool_run)))"
  "accepts list_mpsc (cw_table (cr_world sample_pool_run)) sample_worker_pid"
  "\<not> alive (cw_table (cr_world sample_pool_run)) (fst (allocate_pid (cw_table (cr_world sample_pool_run))))"
proof -
  have "fst (pick_live_worker (cw_table (cr_world sample_pool_run)) (cr_state sample_pool_run)) = Some sample_worker_pid" by code_simp
  then show "pick_live_worker (cw_table (cr_world sample_pool_run)) (cr_state sample_pool_run)
     = (Some sample_worker_pid, snd (pick_live_worker (cw_table (cr_world sample_pool_run)) (cr_state sample_pool_run)))"
    by (simp add: prod_eq_iff)
  have "case hm_get (tb_processes (cw_table (cr_world sample_pool_run))) sample_worker_pid of Some (Unbounded c) \<Rightarrow> ch_open c | _ \<Rightarrow> False" by code_simp
  then show "accepts list_mpsc (cw_table (cr_world sample_pool_run)) sample_worker_pid"
    by (auto simp: accepts_def list_mpsc_def split: option.splits mailbox.splits)
  show "\<not> alive (cw_table (cr_world sample_pool_run)) (fst (allocate_pid (cw_table (cr_world sample_pool_run))))" by code_simp
qed

theorem submit_end_to_end_witness:
  "\<exists>s' w' c. handle_coord_msg list_mpsc wire (CmSubmit (string_value wire ''job'') 2 9) (cr_state sample_pool_run, cr_world sample_pool_run) = (False, s', w')
    \<and> cw_collectors w' = cw_collectors (cr_world sample_pool_run) @ [c]"
  using submit_end_to_end [OF list_mpsc_ok sample_pool_worker] by blast

section \<open>A peer that falls silent\<close>

fun node_periods ::
  "'v swim_world \<Rightarrow> ('v, 'n, 'e, 'w) transport \<Rightarrow> instant list \<Rightarrow> ('c, 'h, 'n, 'r) node \<times> 'w
     \<Rightarrow> connection_event list \<times> ('c, 'h, 'n, 'r) node \<times> 'w" where
  "node_periods W T [] ndw = ([], ndw)"
| "node_periods W T (t # ts) ndw =
     (let (es, ndw1) = node_swim_tick W T t ndw; (es', ndw2) = node_periods W T ts ndw1 in (es @ es', ndw2))"

lemma node_periods_effect:
  "nd_swim nd = Some s \<Longrightarrow> node_periods W T ts (nd, w) = (es, nd', w') \<Longrightarrow>
     nd_swim nd' = Some (snd (periods W ts s)) \<and> nd_runtime nd' = nd_runtime nd
   \<and> {n. NodeDown n \<in> set es} = fst (periods W ts s)
   \<and> (\<forall>m. is_connected m (nd_cm nd) \<and> m \<notin> fst (periods W ts s) \<longrightarrow> is_connected m (nd_cm nd'))"
proof (induction ts arbitrary: nd s w es)
  case (Cons t ts)
  obtain out s1 where o: "swim_tick W t s = (out, s1)" by (cases "swim_tick W t s")
  obtain es1 nd1 w1 where t: "node_swim_tick W T t (nd, w) = (es1, nd1, w1)" by (metis prod_cases3)
  obtain es2 where p: "node_periods W T ts (nd1, w1) = (es2, nd', w')" "es = es1 @ es2"
    using Cons.prems(2) t by (auto simp: Let_def split: prod.splits)
  note d = swim_tick_drops_dead [OF Cons.prems(1) o t]
  have "{n. NodeDown n \<in> set es1} = set (to_newly_dead out)"
  proof -
    have "NodeDown n \<in> set es1 \<longleftrightarrow> NodeDown n \<in> set (filter (\<lambda>e. case e of NodeDown _ \<Rightarrow> True | _ \<Rightarrow> False) es1)" for n by simp
    also have "\<dots> n \<longleftrightarrow> n \<in> set (to_newly_dead out)" for n using d by auto
    finally show ?thesis by blast
  qed
  moreover from Cons.IH [OF _ p(1)] d
  have "nd_swim nd' = Some (snd (periods W ts s1)) \<and> nd_runtime nd' = nd_runtime nd1 \<and> {n. NodeDown n \<in> set es2} = fst (periods W ts s1)
   \<and> (\<forall>m. is_connected m (nd_cm nd1) \<and> m \<notin> fst (periods W ts s1) \<longrightarrow> is_connected m (nd_cm nd'))" by blast
  ultimately show ?case using d by (auto simp: o p(2) Let_def split: prod.splits)
qed simp


definition sample_pair_node :: "(wire_value message chan, nat, tcp_connection, wire_value router_command chan) node" where
  "sample_pair_node = sample_sender\<lparr>nd_swim := Some pair_service\<rparr>"


end
